(* ===== verification/Prelude.thy ===== *)
theory Prelude
  imports Main "HOL-Library.Word"
begin

text \<open>
  Shared vocabulary of the development: the Go types the sources use (byte slices,
  \<open>[32]byte\<close> arrays, \<open>uint64\<close>/\<open>int64\<close>, strings, instants), the cryptographic and
  encoding functions the sources call as one parameter record, the error and map helpers,
  and the generic lemmas on them that the component theories use.

  Conventions. A Go \<open>error\<close> result is an option (\<open>None\<close> is \<open>nil\<close>) or, where a value
  comes with it, a sum whose left side is the error. A call that may panic returns an option
  whose \<open>None\<close> is the panic. A Go map is a partial function; reading a missing key yields
  the zero value (\<open>map_get\<close>). Values are copied, so the sources' defensive copies of slices
  are the identity here. An instant is its UTC nanosecond count.
\<close>

named_theorems go_simps \<open>unfolding rules for the Go helpers\<close>
named_theorems admission \<open>what a successful admission check says of its input\<close>

section \<open>Types\<close>

type_synonym byte = "8 word"
type_synonym bytes = "byte list"
type_synonym b32 = "256 word"
type_synonym u64 = "64 word"
type_synonym gotime = int

text \<open>\<open>h[:]\<close>, the 32 bytes of a fixed array, most significant first.\<close>

definition b32_bytes :: "b32 \<Rightarrow> bytes" where
  "b32_bytes h = map (\<lambda>i. ucast (drop_bit (8 * (31 - i)) h)) [0..<32]"

text \<open>\<open>string(b)\<close>: the same bytes, as a string.\<close>

definition str_of_bytes :: "bytes \<Rightarrow> string" where
  "str_of_bytes bs = map (\<lambda>b. char_of (unat b)) bs"

text \<open>\<open>time.Time{}\<close>, the instant \<open>IsZero\<close> recognises: 1 January of year 1, UTC.\<close>

definition zeroTime :: gotime where
  "zeroTime = - 62135596800 * 1000000000"

definition PublicKeySize :: nat where "PublicKeySize = 32"
definition PrivateKeySize :: nat where "PrivateKeySize = 64"
definition SignatureSize :: nat where "SignatureSize = 64"

definition MaxInt64 :: u64 where "MaxInt64 = 0x7FFFFFFFFFFFFFFF"
definition MinInt64 :: u64 where "MinInt64 = 0x8000000000000000"

section \<open>What the sources import: hashing, signatures and the canonical encoder\<close>

text \<open>
  A signing payload is built by \<open>canon.New(tag)\<close> followed by typed fields and \<open>Sum()\<close>.
  The encoder belongs to the protocol module, so its byte layout is the parameter
  \<open>canon_sum\<close>; a payload is its tag and the sequence of its fields. SHA-256 and Ed25519
  are parameters as well: the model uses their types and lengths, and every further fact
  a theorem needs of them is a hypothesis of that theorem.
\<close>

datatype canon_field =
    CString string
  | CBytes bytes
  | CUint64 u64
  | CInt64 u64
  | CTime gotime
  | CBool bool
  | CCount int

record crypto =
  sha256 :: "bytes \<Rightarrow> b32"
  ed_verify :: "bytes \<Rightarrow> bytes \<Rightarrow> bytes \<Rightarrow> bool"
  ed_sign :: "bytes \<Rightarrow> bytes \<Rightarrow> bytes"
  ed_public :: "bytes \<Rightarrow> bytes"
  canon_sum :: "string \<Rightarrow> canon_field list \<Rightarrow> bytes"

text \<open>
  \<open>ed25519.Verify\<close> panics on a key whose length is not 32 and rejects a signature whose
  length is not 64; \<open>ed25519.Sign\<close> panics on a private key whose length is not 64.
\<close>

definition ed25519_Verify :: "crypto \<Rightarrow> bytes \<Rightarrow> bytes \<Rightarrow> bytes \<Rightarrow> bool option" where
  "ed25519_Verify c pub msg sig =
     (if length pub \<noteq> PublicKeySize then None
      else Some (length sig = SignatureSize \<and> ed_verify c pub msg sig))"

definition ed25519_Sign :: "crypto \<Rightarrow> bytes \<Rightarrow> bytes \<Rightarrow> bytes option" where
  "ed25519_Sign c priv msg =
     (if length priv \<noteq> PrivateKeySize then None else Some (ed_sign c priv msg))"

text \<open>A signature check placed behind a length guard on the key, where it cannot panic.\<close>

definition sig_ok :: "crypto \<Rightarrow> bytes \<Rightarrow> bytes \<Rightarrow> bytes \<Rightarrow> bool" where
  "sig_ok c pub msg sig \<longleftrightarrow> ed25519_Verify c pub msg sig = Some True"

text \<open>
  Named hypotheses on the parameters. \<open>keypair\<close>: a private key as \<open>GenerateKey\<close> returns
  it, whose signatures verify under its public half. \<open>canon_laws\<close>: the encoder separates
  domain tags, and payloads of one message type (equal tags, the same sequence of field types) that encode to the same bytes agree
  in every field. It says nothing of payloads of different shapes, because the bytes carry no field types, and
  agreement is at the width of the wire: an instant enters by its 64-bit nanosecond count (\<open>UnixNano\<close>), so two instants a multiple of
  \<open>2 ^ 64\<close> ns apart agree. The theory \<open>Canon\<close> proves it of the layout the repository's tests
  reconstruct (\<open>internal/economy/spend_test.go\<close>, \<open>internal/covenant/assessment_test.go\<close>). \<open>collision_free\<close>: the hash
  separates the payloads of the finite list at hand (never all byte strings, which no
  32-byte digest can).
\<close>

definition keypair :: "crypto \<Rightarrow> bytes \<Rightarrow> bool" where
  "keypair c priv \<longleftrightarrow>
     length priv = PrivateKeySize \<and> length (ed_public c priv) = PublicKeySize \<and>
     (\<forall>msg. length (ed_sign c priv msg) = SignatureSize \<and>
            ed_verify c (ed_public c priv) msg (ed_sign c priv msg))"

definition UnixNano :: "gotime \<Rightarrow> u64" where
  "UnixNano t = word_of_int t"

fun same_type :: "canon_field \<Rightarrow> canon_field \<Rightarrow> bool" where
  "same_type (CString _) (CString _) = True"
| "same_type (CBytes _) (CBytes _) = True"
| "same_type (CUint64 _) (CUint64 _) = True"
| "same_type (CInt64 _) (CInt64 _) = True"
| "same_type (CTime _) (CTime _) = True"
| "same_type (CBool _) (CBool _) = True"
| "same_type (CCount _) (CCount _) = True"
| "same_type _ _ = False"

fun agrees :: "canon_field \<Rightarrow> canon_field \<Rightarrow> bool" where
  "agrees (CTime t) (CTime u) = (UnixNano t = UnixNano u)"
| "agrees (CCount n) (CCount m) = ((word_of_int n :: u64) = word_of_int m)"
| "agrees f g = (f = g)"

definition canon_laws :: "crypto \<Rightarrow> bool" where
  "canon_laws c \<longleftrightarrow>
     (\<forall>t fs t' fs'. canon_sum c t fs = canon_sum c t' fs' \<longrightarrow> t = t' \<and> (list_all2 same_type fs fs' \<longrightarrow> list_all2 agrees fs fs'))"

definition collision_free :: "crypto \<Rightarrow> bytes list \<Rightarrow> bool" where
  "collision_free c ps \<longleftrightarrow> inj_on (sha256 c) (set ps)"

section \<open>Go maps and error-threading loops\<close>

definition map_get :: "('k \<rightharpoonup> 'v) \<Rightarrow> 'k \<Rightarrow> 'v \<Rightarrow> 'v" where
  "map_get m k d = (case m k of None \<Rightarrow> d | Some v \<Rightarrow> v)"

text \<open>
  A loop that feeds records to a step until the first error: \<open>run_until\<close> keeps the state
  reached so far beside the error, \<open>run_all\<close> discards it (the caller returns \<open>nil\<close>).
\<close>

fun run_until :: "('s \<Rightarrow> 'r \<Rightarrow> 'e + 's) \<Rightarrow> 's \<Rightarrow> 'r list \<Rightarrow> 's \<times> 'e option" where
  "run_until step s [] = (s, None)"
| "run_until step s (r # rs) =
     (case step s r of Inl e \<Rightarrow> (s, Some e) | Inr s' \<Rightarrow> run_until step s' rs)"

fun run_all :: "('s \<Rightarrow> 'r \<Rightarrow> 'e + 's) \<Rightarrow> 's \<Rightarrow> 'r list \<Rightarrow> 'e + 's" where
  "run_all step s [] = Inr s"
| "run_all step s (r # rs) =
     (case step s r of Inl e \<Rightarrow> Inl e | Inr s' \<Rightarrow> run_all step s' rs)"

text \<open>\<open>strconv.Itoa\<close>.\<close>

fun decimal :: "nat \<Rightarrow> string" where
  "decimal n = (if n < 10 then [char_of (48 + n)] else decimal (n div 10) @ [char_of (48 + n mod 10)])"

declare decimal.simps [simp del]

definition strconv_Itoa :: "int \<Rightarrow> string" where
  "strconv_Itoa i = (if i < 0 then ''-'' @ decimal (nat (- i)) else decimal (nat i))"

section \<open>Lemmas\<close>

lemma map_get_simps [simp]:
  "map_get (m(k \<mapsto> v)) j d = (if j = k then v else map_get m j d)"
  "map_get Map.empty j d = d"
  by (simp_all add: map_get_def)

lemma length_b32_bytes [simp]: "length (b32_bytes h) = 32"
  by (simp add: b32_bytes_def)

lemma b32_bytes_bit:
  assumes "n < 256"
  shows "bit h n \<longleftrightarrow> bit (b32_bytes h ! (31 - n div 8)) (n mod 8)"
proof -
  have d: "n div 8 < 32" using assms by (simp add: less_mult_imp_div_less)
  have i: "31 - (31 - n div 8) = n div 8" using d by simp
  have "b32_bytes h ! (31 - n div 8) = ucast (drop_bit (8 * (n div 8)) h)"
    using d i by (simp add: b32_bytes_def nth_map_upt)
  moreover have "n mod 8 < 8" by simp
  ultimately show ?thesis
    by (simp add: bit_ucast_iff bit_drop_bit_eq)
qed

lemma b32_bytes_inject [simp]: "b32_bytes g = b32_bytes h \<longleftrightarrow> g = h"
proof
  assume e: "b32_bytes g = b32_bytes h"
  show "g = h"
  proof (rule bit_word_eqI)
    fix n assume "n < LENGTH(256)"
    then show "bit g n \<longleftrightarrow> bit h n" by (simp add: b32_bytes_bit e)
  qed
qed simp

lemma length_str_of_bytes [simp]: "length (str_of_bytes bs) = length bs"
  by (simp add: str_of_bytes_def)

lemma char_of_unat_inject:
  "char_of (unat (a :: byte)) = char_of (unat b) \<longleftrightarrow> a = b"
proof
  assume "char_of (unat a) = char_of (unat b)"
  then have "of_char (char_of (unat a)) = (of_char (char_of (unat b)) :: nat)" by simp
  moreover have "unat a < 256" "unat b < 256"
    using unsigned_less [of a, where 'a = nat] unsigned_less [of b, where 'a = nat] by simp_all
  ultimately show "a = b" by (simp add: of_char_of word_unat_eq_iff)
qed simp

lemma str_of_bytes_inject [simp]: "str_of_bytes a = str_of_bytes b \<longleftrightarrow> a = b"
proof -
  have "inj (\<lambda>b :: byte. char_of (unat b))" 
    by (rule injI) (rule char_of_unat_inject [THEN iffD1])
  then show ?thesis unfolding str_of_bytes_def by (rule inj_map_eq_map)
qed

lemma append_sep_inject:
  "length a = length b \<Longrightarrow> (a @ x # s = b @ x # t) = (a = b \<and> s = t)"
  by simp

subsection \<open>Signed 64-bit arithmetic\<close>

lemma sint_MaxInt64 [simp]: "sint MaxInt64 = 9223372036854775807"
  by (simp add: MaxInt64_def)

lemma sint_MinInt64 [simp]: "sint MinInt64 = - 9223372036854775808"
  by (simp add: MinInt64_def)

lemma sint64_range: "- 9223372036854775808 \<le> sint (w :: u64) \<and> sint w \<le> 9223372036854775807"
  using sint_greater_eq [of w] sint_less [of w] by simp

lemma sint64_of_int:
  assumes "- 9223372036854775808 \<le> i" "i \<le> 9223372036854775807"
  shows "sint (word_of_int i :: u64) = i"
  using assms by (simp add: signed_of_int signed_take_bit_int_eq_self)

lemma sint64_add:
  assumes "- 9223372036854775808 \<le> sint a + sint (b :: u64)" "sint a + sint b \<le> 9223372036854775807"
  shows "sint (a + b) = sint a + sint b"
  using sint64_of_int [OF assms] by simp

lemma sint64_sub:
  assumes "- 9223372036854775808 \<le> sint a - sint (b :: u64)" "sint a - sint b \<le> 9223372036854775807"
  shows "sint (a - b) = sint a - sint b"
  using sint64_of_int [OF assms] by simp

lemma sint64_uminus:
  assumes "sint (a :: u64) \<noteq> - 9223372036854775808"
  shows "sint (- a) = - sint a"
proof -
  have "- 9223372036854775808 \<le> - sint a" "- sint a \<le> 9223372036854775807"
    using sint64_range [of a] assms by auto
  from sint64_of_int [OF this] show ?thesis by simp
qed

lemma sint64_nonneg:
  assumes "\<not> MaxInt64 < (a :: u64)"
  shows "sint a = int (unat a)"
proof -
  have "unat a \<le> 9223372036854775807"
    using assms by (simp add: MaxInt64_def not_less word_le_nat_alt)
  then have "int (unat a) \<le> 9223372036854775807" by linarith
  then have "sint (word_of_int (int (unat a)) :: u64) = int (unat a)"
    by (intro sint64_of_int) linarith+
  then show ?thesis by simp
qed

lemma unat_word_of_nat64: "n < 2 ^ 64 \<Longrightarrow> unat (word_of_nat n :: u64) = n"
  by (simp add: unsigned_of_nat take_bit_nat_eq_self)

subsection \<open>Loops\<close>

lemma run_until_run_all:
  "run_until step s rs = (s', None) \<longleftrightarrow> run_all step s rs = Inr s'"
  by (induction rs arbitrary: s) (auto split: sum.splits)

lemma run_all_append:
  "run_all step s (rs @ ts) =
     (case run_all step s rs of Inl e \<Rightarrow> Inl e | Inr s' \<Rightarrow> run_all step s' ts)"
  by (induction rs arbitrary: s) (auto split: sum.splits)

lemma run_all_snoc:
  "run_all step s (rs @ [r]) = Inr s' \<longleftrightarrow>
     (\<exists>s1. run_all step s rs = Inr s1 \<and> step s1 r = Inr s')"
  by (auto simp: run_all_append split: sum.splits)

lemma run_all_invariant:
  assumes "\<And>s r s'. I s \<Longrightarrow> step s r = Inr s' \<Longrightarrow> I s'"
  shows "run_all step s rs = Inr s' \<Longrightarrow> I s \<Longrightarrow> I s'"
  using assms by (induction rs arbitrary: s) (auto split: sum.splits)

lemma run_until_invariant:
  assumes "\<And>s r s'. I s \<Longrightarrow> step s r = Inr s' \<Longrightarrow> I s'"
  shows "I s \<Longrightarrow> I (fst (run_until step s rs))"
  using assms by (induction rs arbitrary: s) (auto split: sum.splits)

lemma ed25519_Verify_canonical [go_simps]:
  "length pub = PublicKeySize \<Longrightarrow>
     ed25519_Verify c pub msg sig = Some (length sig = SignatureSize \<and> ed_verify c pub msg sig)"
  by (simp add: ed25519_Verify_def)

lemma keypair_verify:
  assumes "keypair c priv"
  shows "ed25519_Verify c (ed_public c priv) msg (ed_sign c priv msg) = Some True"
    and "length (ed_sign c priv msg) = SignatureSize"
    and "length (ed_public c priv) = PublicKeySize"
  using assms by (auto simp: keypair_def ed25519_Verify_def)

lemma sig_ok_keypair: "keypair c priv \<Longrightarrow> sig_ok c (ed_public c priv) msg (ed_sign c priv msg)"
  by (simp add: sig_ok_def keypair_verify)

lemma collision_freeD:
  "collision_free c ps \<Longrightarrow> sha256 c x = sha256 c y \<Longrightarrow> x \<in> set ps \<Longrightarrow> y \<in> set ps \<Longrightarrow> x = y"
  by (auto simp: collision_free_def inj_on_def)

lemma collision_free_mono:
  "collision_free c ps \<Longrightarrow> set qs \<subseteq> set ps \<Longrightarrow> collision_free c qs"
  by (auto simp: collision_free_def intro: inj_on_subset)

lemma canon_tagD: "canon_laws c \<Longrightarrow> canon_sum c t fs = canon_sum c t' fs' \<Longrightarrow> t = t'"
  unfolding canon_laws_def by blast

lemma canon_fieldsD:
  "canon_laws c \<Longrightarrow> canon_sum c t fs = canon_sum c t' fs' \<Longrightarrow> list_all2 same_type fs fs' \<Longrightarrow> list_all2 agrees fs fs'"
  unfolding canon_laws_def by blast

text \<open>Payloads of byte fields alone are separated outright.\<close>

lemma canon_bytesD:
  assumes "canon_laws c" "canon_sum c t (map CBytes xs) = canon_sum c t' (map CBytes ys)" "length xs = length ys"
  shows "xs = ys"
  using canon_fieldsD [OF assms(1,2)] assms(3) by (simp add: list_all2_conv_all_nth list_eq_iff_nth_eq)

text \<open>Instants that fit 64 bits, years 1678 to 2262: there \<open>UnixNano\<close> is exact.\<close>

definition nano_range :: "gotime \<Rightarrow> bool" where
  "nano_range t \<longleftrightarrow> - (2 ^ 63) \<le> t \<and> t < 2 ^ 63"

lemma UnixNano_exact: "nano_range t \<Longrightarrow> nano_range u \<Longrightarrow> UnixNano t = UnixNano u \<longleftrightarrow> t = u"
proof -
  assume "nano_range t" "nano_range u"
  then have "sint (UnixNano t) = t" "sint (UnixNano u) = u"
    unfolding UnixNano_def by (intro sint64_of_int; simp add: nano_range_def)+
  then show ?thesis by metis
qed

end
