(* ===== verification/Replay.thy ===== *)
theory Replay
  imports Prelude
begin

text \<open>
  The contract every append-only component of the program shares. The ledger, the dialog log,
  the lifecycle log, the knowledge tree and the product catalog each keep a state that changes
  only by admitting one record at a time, and each can be reopened from its stored records
  through the same admission step. \<open>append_log\<close> states that interface once: a step
  that may refuse a record, and the log a state stands for. Its lemmas give, for every
  provider, that the log only grows and that replaying it rebuilds the state exactly.
\<close>

inductive admits :: "('s \<Rightarrow> 'r \<Rightarrow> 'e + 's) \<Rightarrow> 's \<Rightarrow> 's \<Rightarrow> bool" for step where
  admits_refl: "admits step s s"
| admits_step: "admits step s t \<Longrightarrow> step t r = Inr u \<Longrightarrow> admits step s u"

locale append_log =
  fixes step :: "'s \<Rightarrow> 'r \<Rightarrow> 'e + 's"
    and log_of :: "'s \<Rightarrow> 'r list"
  assumes step_log: "step s r = Inr s' \<Longrightarrow> log_of s' = log_of s @ [r]"
begin

lemma run_log: "run_all step s rs = Inr s' \<Longrightarrow> log_of s' = log_of s @ rs"
  by (induction rs arbitrary: s) (auto split: sum.splits dest: step_log)

lemma admits_run: "admits step s t \<Longrightarrow> \<exists>rs. run_all step s rs = Inr t"
proof (induction rule: admits.induct)
  case (admits_refl s)
  have "run_all step s [] = Inr s" by simp
  then show ?case ..
next
  case (admits_step s t r u)
  then obtain rs where "run_all step s rs = Inr t" by blast
  with admits_step.hyps(2) have "run_all step s (rs @ [r]) = Inr u" by (simp add: run_all_append)
  then show ?case ..
qed

lemma log_grows: "admits step s t \<Longrightarrow> \<exists>ts. log_of t = log_of s @ ts"
  using admits_run run_log by blast

lemma replay_rebuilds:
  assumes "admits step s t" and "log_of s = []"
  shows "run_all step s (log_of t) = Inr t"
proof -
  obtain rs where rs: "run_all step s rs = Inr t" using admits_run [OF assms(1)] ..
  with run_log [OF rs] assms(2) show ?thesis by simp
qed

lemma admits_invariant:
  assumes "\<And>s r s'. I s \<Longrightarrow> step s r = Inr s' \<Longrightarrow> I s'"
  shows "admits step s t \<Longrightarrow> I s \<Longrightarrow> I t"
  by (induction rule: admits.induct) (auto dest: assms)

end

text \<open>
  A log reopened by position. \<open>OpenLog\<close>, \<open>OpenLifecycleLog\<close> and the tree's and catalog's replays
  hold the whole store from the start and read it entry by entry; a live log holds the entries admitted so
  far. \<open>stored_log\<close> relates the two: opening a store is feeding its entries to the empty log.
\<close>

locale stored_log = append_log step log_of
  for step :: "'s \<Rightarrow> 'r \<Rightarrow> 'e + 's" and log_of :: "'s \<Rightarrow> 'r list" +
  fixes put_store :: "'s \<Rightarrow> 'r list \<Rightarrow> 's"
    and open_at :: "'s \<Rightarrow> nat \<Rightarrow> 'f + 's"
  assumes put_same: "log_of s = st \<Longrightarrow> put_store s st = s"
    and open_refuses: "length st < 2 ^ 64 \<Longrightarrow> i < length st \<Longrightarrow> log_of s = take i st \<Longrightarrow>
      step s (st ! i) = Inl e \<Longrightarrow> \<exists>e'. open_at (put_store s st) i = Inl e'"
    and open_admits: "length st < 2 ^ 64 \<Longrightarrow> i < length st \<Longrightarrow> log_of s = take i st \<Longrightarrow>
      step s (st ! i) = Inr s' \<Longrightarrow> open_at (put_store s st) i = Inr (put_store s' st)"
begin

lemma open_run_from:
  assumes len: "length st < 2 ^ 64"
  shows "log_of s = take i st \<Longrightarrow> i \<le> length st \<Longrightarrow>
    run_all open_at (put_store s st) [i..<length st] = Inr t \<longleftrightarrow> run_all step s (drop i st) = Inr t"
proof (induction "length st - i" arbitrary: i s)
  case 0
  then show ?case by (simp add: put_same)
next
  case (Suc n)
  then have i: "i < length st" by simp
  then have d: "drop i st = st ! i # drop (Suc i) st" "[i..<length st] = i # [Suc i..<length st]"
    by (simp_all add: Cons_nth_drop_Suc upt_conv_Cons)
  show ?case
  proof (cases "step s (st ! i)")
    case (Inl e)
    then show ?thesis using open_refuses [OF len i Suc.prems(1) Inl] by (auto simp: d)
  next
    case (Inr s')
    have "log_of s' = take (Suc i) st"
      using step_log [OF Inr] Suc.prems(1) i by (simp add: take_Suc_conv_app_nth)
    then show ?thesis
      using Suc.hyps(1) [of "Suc i" s'] Suc.hyps(2) i open_admits [OF len i Suc.prems(1) Inr] Inr by (simp add: d)
  qed
qed

lemma open_is_run:
  "length st < 2 ^ 64 \<Longrightarrow> log_of s = [] \<Longrightarrow>
     run_all open_at (put_store s st) [0..<length st] = Inr t \<longleftrightarrow> run_all step s st = Inr t"
  using open_run_from [of st s 0 t] by simp

end

text \<open>
  A log whose head is a hash chain over its records: the knowledge tree and the product catalog fold every accepted
  record's leaf into the head under a domain tag of their own. \<open>chained_log\<close> gives, for both, that the head
  is a function of the leaves in order, and that equal heads over logs of equal length have equal leaves when the
  encoder is unambiguous and no two of the hashed links collide.
\<close>

definition chain_link :: "crypto \<Rightarrow> string \<Rightarrow> b32 \<Rightarrow> bytes \<Rightarrow> bytes" where
  "chain_link c tag head leaf = canon_sum c tag [CBytes (b32_bytes head), CBytes leaf]"

definition chain_head :: "crypto \<Rightarrow> string \<Rightarrow> b32 \<Rightarrow> bytes list \<Rightarrow> b32" where
  "chain_head c tag = foldl (\<lambda>h leaf. sha256 c (chain_link c tag h leaf))"

fun chain_links :: "crypto \<Rightarrow> string \<Rightarrow> b32 \<Rightarrow> bytes list \<Rightarrow> bytes list" where
  "chain_links c tag h [] = []"
| "chain_links c tag h (leaf # leaves) = chain_link c tag h leaf # chain_links c tag (sha256 c (chain_link c tag h leaf)) leaves"

lemma chain_links_snoc: "chain_links c tag h (xs @ [x]) = chain_links c tag h xs @ [chain_link c tag (chain_head c tag h xs) x]"
  by (induction xs arbitrary: h) (simp_all add: chain_head_def)

lemma chain_head_snoc: "chain_head c tag h (xs @ [x]) = sha256 c (chain_link c tag (chain_head c tag h xs) x)"
  by (simp add: chain_head_def)

lemma chain_head_inject:
  assumes "canon_laws c"
  shows "length xs = length ys \<Longrightarrow> collision_free c (chain_links c tag h xs @ chain_links c tag h ys) \<Longrightarrow>
    chain_head c tag h xs = chain_head c tag h ys \<Longrightarrow> xs = ys"
proof (induction xs arbitrary: ys rule: rev_induct)
  case (snoc x xs)
  then obtain ys' y where ys: "ys = ys' @ [y]" by (metis length_0_conv append_is_Nil_conv not_Cons_self2 rev_exhaust)
  have "chain_link c tag (chain_head c tag h xs) x = chain_link c tag (chain_head c tag h ys') y"
    using snoc.prems(3) by (intro collision_freeD [OF snoc.prems(2)]) (simp_all add: ys chain_links_snoc chain_head_snoc)
  then have "[b32_bytes (chain_head c tag h xs), x] = [b32_bytes (chain_head c tag h ys'), y]"
    by (intro canon_bytesD [OF assms]) (simp_all add: chain_link_def)
  then have "chain_head c tag h xs = chain_head c tag h ys'" "x = y" by simp_all
  moreover have "collision_free c (chain_links c tag h xs @ chain_links c tag h ys')"
    using snoc.prems(2) by (rule collision_free_mono) (auto simp: ys chain_links_snoc)
  ultimately show ?case using snoc.IH [of ys'] snoc.prems(1) by (simp add: ys)
qed simp

locale chained_log = append_log step log_of
  for step :: "'s \<Rightarrow> 'r \<Rightarrow> 'e + 's" and log_of :: "'s \<Rightarrow> 'r list" +
  fixes c :: crypto and tag :: string and head_of :: "'s \<Rightarrow> b32" and leaf :: "'r \<Rightarrow> bytes"
  assumes step_head: "step s r = Inr s' \<Longrightarrow> head_of s' = sha256 c (chain_link c tag (head_of s) (leaf r))"
begin

lemma run_head: "run_all step s rs = Inr t \<Longrightarrow> head_of t = chain_head c tag (head_of s) (map leaf rs)"
  by (induction rs arbitrary: s) (auto simp: chain_head_def step_head split: sum.splits)

lemma head_of_log: "admits step s t \<Longrightarrow> log_of s = [] \<Longrightarrow> head_of t = chain_head c tag (head_of s) (map leaf (log_of t))"
  using run_head replay_rebuilds by blast

lemma head_determines_leaves:
  assumes "canon_laws c" and "admits step s t" "log_of s = []" and "admits step s' u" "log_of s' = []" and "head_of s = head_of s'"
    and "collision_free c (chain_links c tag (head_of s) (map leaf (log_of t)) @ chain_links c tag (head_of s) (map leaf (log_of u)))"
    and "length (log_of t) = length (log_of u)" and "head_of t = head_of u"
  shows "map leaf (log_of t) = map leaf (log_of u)"
  using chain_head_inject [OF assms(1) _ assms(7)] head_of_log [OF assms(2,3)] head_of_log [OF assms(4,5)] assms(6,8,9) by simp

end

lemma run_all_map: "run_all step s (map f rs) = run_all (\<lambda>s r. step s (f r)) s rs"
  by (induction rs arbitrary: s) (auto split: sum.splits)

lemma run_all_admits: "run_all step s rs = Inr t \<Longrightarrow> admits step s t"
proof (induction rs arbitrary: t rule: rev_induct)
  case Nil
  then show ?case by (simp add: admits_refl)
next
  case (snoc r rs)
  then obtain u where "run_all step s rs = Inr u" "step u r = Inr t"
    by (auto simp: run_all_snoc)
  then show ?case using snoc.IH by (blast intro: admits_step)
qed

text \<open>A replay loop that reports the index of a refused record accepts what the plain loop accepts.\<close>

lemma run_all_indexed:
  assumes "\<And>i s r s'. indexed s (i, r) = Inr s' \<longleftrightarrow> step s r = Inr s'"
  shows "length ns = length rs \<Longrightarrow> run_all indexed s (zip ns rs) = Inr s' \<longleftrightarrow> run_all step s rs = Inr s'"
proof (induction ns rs arbitrary: s rule: list_induct2)
  case (Cons n ns r rs)
  show ?case
  proof (cases "step s r")
    case (Inl e)
    then have "indexed s (n, r) \<noteq> Inr u" for u using assms [of s n r u] by simp
    then obtain e' where "indexed s (n, r) = Inl e'" by (metis sum.exhaust)
    with Inl show ?thesis by simp
  next
    case (Inr u)
    then have "indexed s (n, r) = Inr u" by (simp add: assms)
    with Inr Cons.IH show ?thesis by simp
  qed
qed simp

end
