(* ===== verification/Quorum.thy ===== *)
theory Quorum
  imports Prelude
begin

text \<open>
  Threshold signatures. \<open>PolicyChange.Verify\<close> (economy) and \<open>Ruling.Verify\<close> (dispute)
  are the same double loop over signatures and roster keys; it is modelled here once, with the
  set of keys already counted as a list. The lemmas bound the count by the number of distinct
  roster keys that really signed, and make the bound exact when no signature verifies under two
  roster keys.
\<close>

section \<open>The loop\<close>

text \<open>The inner loop: the first roster key, canonical and not yet counted, that verifies the
  signature. The length test precedes the call, so the call never panics.\<close>

fun quorum_pick :: "crypto \<Rightarrow> bytes \<Rightarrow> bytes \<Rightarrow> bytes list \<Rightarrow> bytes list \<Rightarrow> bytes option" where
  "quorum_pick c payload sig seen [] = None"
| "quorum_pick c payload sig seen (pub # pubs) =
     (if length pub \<noteq> PublicKeySize \<or> pub \<in> set seen then quorum_pick c payload sig seen pubs
      else if ed25519_Verify c pub payload sig = Some True then Some pub
      else quorum_pick c payload sig seen pubs)"

text \<open>The outer loop: \<open>seen\<close> and \<open>distinct\<close> after the remaining signatures.\<close>

fun quorum_scan ::
  "crypto \<Rightarrow> bytes \<Rightarrow> bytes list \<Rightarrow> bytes list \<Rightarrow> bytes list \<Rightarrow> int \<Rightarrow> bytes list \<times> int" where
  "quorum_scan c payload roster [] seen n = (seen, n)"
| "quorum_scan c payload roster (sig # sigs) seen n =
     (if length sig \<noteq> SignatureSize then quorum_scan c payload roster sigs seen n
      else (case quorum_pick c payload sig seen roster of
              None \<Rightarrow> quorum_scan c payload roster sigs seen n
            | Some pub \<Rightarrow> quorum_scan c payload roster sigs (pub # seen) (n + 1)))"

definition quorum_reached ::
  "crypto \<Rightarrow> bytes \<Rightarrow> bytes list \<Rightarrow> bytes list \<Rightarrow> int \<Rightarrow> bool" where
  "quorum_reached c payload roster sigs threshold \<longleftrightarrow>
     \<not> threshold < 1 \<and> threshold \<le> snd (quorum_scan c payload roster sigs [] 0)"

section \<open>What the loop counts\<close>

text \<open>The roster keys that have a valid signature in the list, and the property of a signature
  scheme that no signature of the list verifies under two of the keys.\<close>

definition signed_by :: "crypto \<Rightarrow> bytes \<Rightarrow> bytes \<Rightarrow> bytes \<Rightarrow> bool" where
  "signed_by c payload pub sig \<longleftrightarrow>
     length pub = PublicKeySize \<and> length sig = SignatureSize \<and> ed_verify c pub payload sig"

definition signers :: "crypto \<Rightarrow> bytes \<Rightarrow> bytes list \<Rightarrow> bytes list \<Rightarrow> bytes set" where
  "signers c payload roster sigs =
     {pub \<in> set roster. \<exists>sig \<in> set sigs. signed_by c payload pub sig}"

definition unique_signer :: "crypto \<Rightarrow> bytes \<Rightarrow> bytes list \<Rightarrow> bytes list \<Rightarrow> bool" where
  "unique_signer c payload roster sigs \<longleftrightarrow>
     (\<forall>sig \<in> set sigs. \<forall>p \<in> set roster. \<forall>q \<in> set roster.
        signed_by c payload p sig \<longrightarrow> signed_by c payload q sig \<longrightarrow> p = q)"

lemma quorum_pick_Some:
  "quorum_pick c payload sig seen roster = Some pub \<Longrightarrow>
     pub \<in> set roster \<and> pub \<notin> set seen \<and> signed_by c payload pub sig"
  by (induction roster) (auto simp: signed_by_def ed25519_Verify_def split: if_splits)

lemma quorum_pick_None:
  "quorum_pick c payload sig seen roster = None \<Longrightarrow> pub \<in> set roster \<Longrightarrow>
     signed_by c payload pub sig \<Longrightarrow> pub \<in> set seen"
  by (induction roster) (auto simp: signed_by_def ed25519_Verify_def split: if_splits)

lemma finite_signers [simp]: "finite (signers c payload roster sigs)"
  by (simp add: signers_def)

lemma signers_Cons:
  "signers c payload roster (sig # sigs) =
     {pub \<in> set roster. signed_by c payload pub sig} \<union> signers c payload roster sigs"
  by (auto simp: signers_def)

text \<open>The scan adds pairwise different signers and counts each once.\<close>

lemma quorum_scan_sound:
  assumes "quorum_scan c payload roster sigs seen n = (seen', n')" and "distinct seen"
  shows "distinct seen' \<and> set seen \<subseteq> set seen' \<and>
         set seen' \<subseteq> set seen \<union> signers c payload roster sigs \<and>
         n' = n + int (length seen') - int (length seen)"
  using assms
proof (induction sigs arbitrary: seen n)
  case Nil
  then show ?case by auto
next
  case (Cons sig sigs)
  show ?case
  proof (cases "length sig \<noteq> SignatureSize \<or> quorum_pick c payload sig seen roster = None")
    case True
    then have "quorum_scan c payload roster sigs seen n = (seen', n')"
      using Cons.prems(1) by (auto split: if_splits)
    from Cons.IH [OF this Cons.prems(2)] show ?thesis by (auto simp: signers_Cons)
  next
    case False
    then obtain pub where pub: "quorum_pick c payload sig seen roster = Some pub" by auto
    note p = quorum_pick_Some [OF pub]
    have "quorum_scan c payload roster sigs (pub # seen) (n + 1) = (seen', n')"
      using Cons.prems(1) False pub by simp
    from Cons.IH [OF this] p Cons.prems(2) show ?thesis by (auto simp: signers_Cons)
  qed
qed

lemma quorum_scan_complete:
  assumes "unique_signer c payload roster sigs"
  shows "signers c payload roster sigs \<subseteq> set (fst (quorum_scan c payload roster sigs seen n)) \<and>
         set seen \<subseteq> set (fst (quorum_scan c payload roster sigs seen n))"
  using assms
proof (induction sigs arbitrary: seen n)
  case Nil
  then show ?case by (simp add: signers_def)
next
  case (Cons sig sigs)
  have u: "unique_signer c payload roster sigs"
    using Cons.prems by (auto simp: unique_signer_def)
  note IH = Cons.IH [OF u]
  have here: "pub \<in> set seen \<or> quorum_pick c payload sig seen roster = Some pub"
    if "pub \<in> set roster" "signed_by c payload pub sig" for pub
  proof (cases "quorum_pick c payload sig seen roster")
    case None
    then show ?thesis using quorum_pick_None that by blast
  next
    case (Some p)
    then have "p = pub"
      using Cons.prems quorum_pick_Some [OF Some] that by (auto simp: unique_signer_def)
    with Some show ?thesis by simp
  qed
  have len: "length sig = SignatureSize" if "signed_by c payload pub sig" for pub
    using that by (simp add: signed_by_def)
  show ?case
  proof (cases "length sig \<noteq> SignatureSize \<or> quorum_pick c payload sig seen roster = None")
    case True
    then have eq: "quorum_scan c payload roster (sig # sigs) seen n
                 = quorum_scan c payload roster sigs seen n" by auto
    have "{pub \<in> set roster. signed_by c payload pub sig} \<subseteq> set seen"
      using here len True by fastforce
    with IH [of seen n] show ?thesis unfolding eq signers_Cons by blast
  next
    case False
    then obtain p where p: "quorum_pick c payload sig seen roster = Some p" by auto
    then have eq: "quorum_scan c payload roster (sig # sigs) seen n
                 = quorum_scan c payload roster sigs (p # seen) (n + 1)" using False by simp
    have "{pub \<in> set roster. signed_by c payload pub sig} \<subseteq> set (p # seen)"
      using here p by fastforce
    with IH [of "p # seen" "n + 1"] show ?thesis unfolding eq signers_Cons by auto
  qed
qed

lemma quorum_count_le: "snd (quorum_scan c payload roster sigs [] 0) \<le> int (card (signers c payload roster sigs))"
proof -
  obtain seen n where s: "quorum_scan c payload roster sigs [] 0 = (seen, n)" by fastforce
  from quorum_scan_sound [OF s] have d: "distinct seen" and sub: "set seen \<subseteq> signers c payload roster sigs"
    and n: "n = int (length seen)" by auto
  have "length seen = card (set seen)" using d by (simp add: distinct_card)
  also have "\<dots> \<le> card (signers c payload roster sigs)" using sub by (intro card_mono) simp
  finally show ?thesis using s n by simp
qed

lemma quorum_count_eq:
  assumes "unique_signer c payload roster sigs"
  shows "snd (quorum_scan c payload roster sigs [] 0) = int (card (signers c payload roster sigs))"
proof -
  obtain seen n where s: "quorum_scan c payload roster sigs [] 0 = (seen, n)" by fastforce
  from quorum_scan_sound [OF s] have d: "distinct seen" and sub: "set seen \<subseteq> signers c payload roster sigs"
    and n: "n = int (length seen)" by auto
  from quorum_scan_complete [OF assms, of "[]" 0] s sub have "set seen = signers c payload roster sigs" by auto
  then have "length seen = card (signers c payload roster sigs)" using d distinct_card by fastforce
  then show ?thesis using s n by simp
qed

lemma quorum_reached_sound:
  "quorum_reached c payload roster sigs threshold \<Longrightarrow>
     1 \<le> threshold \<and> threshold \<le> int (card (signers c payload roster sigs))"
  using quorum_count_le [of c payload roster sigs] by (simp add: quorum_reached_def)

lemma quorum_reached_iff:
  "unique_signer c payload roster sigs \<Longrightarrow>
     quorum_reached c payload roster sigs threshold \<longleftrightarrow>
       1 \<le> threshold \<and> threshold \<le> int (card (signers c payload roster sigs))"
  by (auto simp: quorum_reached_def quorum_count_eq)

end
