(* ===== verification/Sample.thy ===== *)
theory Sample
  imports Prelude
begin

text \<open>
  A concrete instance of the parameter record, on which the hypotheses of the development's
  theorems are shown to hold: a self-delimiting field encoder, a byte-sum digest and a
  signature scheme that stamps the signer's public key onto a prefix of the message. It is
  not cryptography and models no code; the theorems are about every instance.
\<close>

section \<open>The encoder\<close>

definition enc_nat :: "nat \<Rightarrow> bytes" where
  "enc_nat n = replicate n 1 @ [0]"

definition enc_bytes :: "bytes \<Rightarrow> bytes" where
  "enc_bytes bs = enc_nat (length bs) @ bs"

definition enc_str :: "string \<Rightarrow> bytes" where
  "enc_str s = enc_bytes (map (\<lambda>ch. word_of_nat (of_char ch)) s)"

definition enc_int :: "int \<Rightarrow> bytes" where
  "enc_int i = (if i < 0 then 1 else 0) # enc_nat (nat \<bar>i\<bar>)"

fun enc_field :: "canon_field \<Rightarrow> bytes" where
  "enc_field (CString s) = 1 # enc_str s"
| "enc_field (CBytes b) = 2 # enc_bytes b"
| "enc_field (CUint64 w) = 3 # enc_nat (unat w)"
| "enc_field (CInt64 w) = 4 # enc_nat (unat w)"
| "enc_field (CTime t) = 5 # enc_int t"
| "enc_field (CBool b) = 6 # [if b then 1 else 0]"
| "enc_field (CCount n) = 7 # enc_int n"

fun enc_fields :: "canon_field list \<Rightarrow> bytes" where
  "enc_fields [] = [0]"
| "enc_fields (f # fs) = enc_field f @ enc_fields fs"

definition sample_canon :: "string \<Rightarrow> canon_field list \<Rightarrow> bytes" where
  "sample_canon tag fs = enc_str tag @ enc_fields fs"

definition sample_sha :: "bytes \<Rightarrow> b32" where
  "sample_sha bs = sum_list (map ucast bs)"

definition sample_stamp :: "bytes \<Rightarrow> bytes" where
  "sample_stamp msg = take 32 (msg @ replicate 32 0)"

definition sample_crypto :: crypto where
  "sample_crypto =
     \<lparr>sha256 = sample_sha,
      ed_verify = (\<lambda>pub msg sig. sig = pub @ sample_stamp msg),
      ed_sign = (\<lambda>priv msg. drop 32 priv @ sample_stamp msg),
      ed_public = (\<lambda>priv. drop 32 priv),
      canon_sum = sample_canon\<rparr>"

text \<open>Two members' private keys: the second half is the public key.\<close>

definition sample_priv :: "byte \<Rightarrow> bytes" where
  "sample_priv b = replicate 32 0 @ replicate 32 b"

section \<open>It satisfies the hypotheses\<close>

lemma enc_nat_Suc: "enc_nat (Suc n) = 1 # enc_nat n"
  by (simp add: enc_nat_def)

lemma enc_nat_0: "enc_nat 0 = [0]"
  by (simp add: enc_nat_def)

lemma enc_nat_free: "enc_nat x @ r = enc_nat y @ s \<longleftrightarrow> x = y \<and> r = s"
proof (induction x arbitrary: y)
  case 0
  then show ?case by (cases y) (auto simp: enc_nat_0 enc_nat_Suc)
next
  case (Suc x)
  then show ?case by (cases y) (auto simp: enc_nat_0 enc_nat_Suc)
qed

lemma enc_bytes_free: "enc_bytes x @ r = enc_bytes y @ s \<longleftrightarrow> x = y \<and> r = s"
  unfolding enc_bytes_def append.assoc enc_nat_free by auto

lemma word_of_char_inj: "inj (\<lambda>ch. word_of_nat (of_char ch) :: byte)"
proof (rule injI)
  fix x y assume "word_of_nat (of_char x) = (word_of_nat (of_char y) :: byte)"
  then have "unat (word_of_nat (of_char x) :: byte) = unat (word_of_nat (of_char y) :: byte)" by simp
  moreover have "of_char x < (256 :: nat)" "of_char y < (256 :: nat)"
    using of_char_mod_256 [of x] of_char_mod_256 [of y]
    by (metis mod_less_divisor zero_less_numeral)+
  ultimately show "x = y" by (simp add: unsigned_of_nat take_bit_eq_mod)
qed

lemma enc_str_free: "enc_str x @ r = enc_str y @ s \<longleftrightarrow> x = y \<and> r = s"
  unfolding enc_str_def enc_bytes_free by (simp add: inj_map_eq_map [OF word_of_char_inj])

lemma enc_int_free: "enc_int x @ r = enc_int y @ s \<longleftrightarrow> x = y \<and> r = s"
  by (auto simp: enc_int_def enc_nat_free)

lemma enc_field_free: "enc_field x @ r = enc_field y @ s \<longleftrightarrow> x = y \<and> r = s"
  by (cases x; cases y)
     (auto simp: enc_str_free enc_bytes_free enc_nat_free enc_int_free word_unat_eq_iff)

lemma enc_fields_inj: "enc_fields x = enc_fields y \<Longrightarrow> x = y"
proof (induction x arbitrary: y)
  case Nil
  then show ?case by (cases y) (auto, case_tac a, auto)
next
  case (Cons f fs)
  show ?case
  proof (cases y)
    case Nil
    with Cons.prems show ?thesis by (cases f) auto
  next
    case (Cons g gs)
    with Cons.prems have "enc_field f @ enc_fields fs = enc_field g @ enc_fields gs" by simp
    then have "f = g" "enc_fields fs = enc_fields gs" by (simp_all add: enc_field_free)
    with Cons.IH Cons show ?thesis by simp
  qed
qed

lemma agrees_refl: "agrees f f"
  by (cases f) simp_all

lemma sample_canon_laws: "canon_laws sample_crypto"
  unfolding canon_laws_def sample_crypto_def sample_canon_def
  by (auto simp: enc_str_free agrees_refl intro!: list.rel_refl dest: enc_fields_inj)

lemma sample_sha_append [simp]: "sample_sha (xs @ ys) = sample_sha xs + sample_sha ys"
  by (simp add: sample_sha_def)

lemma sample_sha_Cons [simp]: "sample_sha (x # xs) = ucast x + sample_sha xs"
  by (simp add: sample_sha_def)

lemma sample_sha_Nil [simp]: "sample_sha [] = 0"
  by (simp add: sample_sha_def)

lemma sample_sha_replicate [simp]: "sample_sha (replicate n x) = of_nat n * ucast x"
  by (simp add: sample_sha_def sum_list_replicate)

lemma sample_sha_of [simp]: "sha256 sample_crypto = sample_sha"
  by (simp add: sample_crypto_def)

lemma sample_canon_of [simp]: "canon_sum sample_crypto = sample_canon"
  by (simp add: sample_crypto_def)

lemma length_sample_stamp [simp]: "length (sample_stamp msg) = 32"
  by (simp add: sample_stamp_def)

lemma sample_keypair: "keypair sample_crypto (sample_priv b)"
  by (simp add: keypair_def sample_crypto_def sample_priv_def
      PrivateKeySize_def PublicKeySize_def SignatureSize_def)

lemma sample_public [simp]: "ed_public sample_crypto (sample_priv b) = replicate 32 b"
  by (simp add: sample_crypto_def sample_priv_def)

lemma sample_verify [simp]:
  "ed_verify sample_crypto pub msg sig \<longleftrightarrow> sig = pub @ sample_stamp msg"
  by (simp add: sample_crypto_def)

lemmas sample_eval = sample_canon_def enc_str_def enc_bytes_def enc_nat_def enc_int_def

lemma sample_sha_of_nat: "sample_sha xs = word_of_nat (sum_list (map unat xs))"
  by (induction xs) simp_all

lemma sum_bytes_bound: "sum_list (map unat (xs :: bytes)) \<le> 255 * length xs"
proof (induction xs)
  case (Cons x xs)
  have "unat x < 256" using unsigned_less [of x, where 'a = nat] by simp
  then show ?case using Cons by simp
qed simp

lemma sample_sha_nonzero:
  assumes "length xs < 2 ^ 200" and "x \<in> set xs" and "x \<noteq> 0"
  shows "sample_sha xs \<noteq> 0"
proof
  assume z: "sample_sha xs = 0"
  have "sum_list (map unat xs) < 2 ^ 256" using sum_bytes_bound [of xs] assms(1) by simp
  then have "sum_list (map unat xs) = 0"
    using z unfolding sample_sha_of_nat by (simp add: word_unat_eq_iff unsigned_of_nat take_bit_eq_mod)
  then show False using assms(2,3) by (simp add: unsigned_eq_0_iff)
qed

end
