(* ===== verification/Economy.thy ===== *)
theory Economy
  imports Replay Quorum Sample
begin

text \<open>
  The member economy (\<open>src/internal/economy\<close>): policy and governance (\<open>policy.go\<close>), the
  payer-signed spend (\<open>spend.go\<close>), the conditional append-only store (\<open>store.go\<close>) and the
  ledger that folds the store into balances (\<open>ledger.go\<close>). Amounts, nonces and versions are
  64-bit words; a balance is the same word read as \<open>int64\<close>, so every addition, subtraction
  and comparison below wraps or does not wrap exactly as the code's does.
\<close>

section \<open>Errors and constants\<close>

text \<open>The sentinels of \<open>ledger.go\<close> and \<open>store.go\<close>, the descriptive non-sentinel errors by
  what they report, and \<open>EcoPanic\<close> for a run-time panic. \<open>ErrTampered\<close> carries the position and the
  cause its message prints.\<close>

datatype economy_error =
    ErrCreditDisabled | ErrLimit | ErrSignature | ErrReplay | ErrUnknownAccount | ErrQuorum
  | ErrTampered nat "economy_error option"
  | ErrConflict
  | EcoPlatformMismatch | EcoSelfTransfer | EcoZeroAmount | EcoAmountRange
  | EcoPayerMismatch | EcoPayeeMismatch | EcoPayeeOverflow
  | EcoUnknownMode | EcoCapRange
  | EcoEmptyPlatform | EcoBadThreshold | EcoNilDirectory | EcoNilStore
  | EcoPanic

definition domainAcct :: string where "domainAcct = ''cloudy/economy/acct/v0''"
definition domainSpend :: string where "domainSpend = ''cloudy/economy/spend/v0''"
definition domainPolicy :: string where "domainPolicy = ''cloudy/economy/policy/v0''"

definition ModeEscrow :: string where "ModeEscrow = ''escrow''"
definition ModeCredit :: string where "ModeCredit = ''credit''"

section \<open>Spends\<close>

type_synonym account_id = b32

definition AccountIDFor :: "crypto \<Rightarrow> string \<Rightarrow> bytes \<Rightarrow> account_id" where
  "AccountIDFor c platform pub = sha256 c (canon_sum c domainAcct [CString platform, CBytes pub])"

record spend =
  sp_Platform :: string
  sp_From :: account_id
  sp_To :: account_id
  sp_Amount :: u64
  sp_ExchangeHash :: b32
  sp_IssuedAt :: gotime
  sp_Nonce :: u64
  sp_Signature :: bytes

definition Spend_CanonicalBytes :: "crypto \<Rightarrow> spend \<Rightarrow> bytes" where
  "Spend_CanonicalBytes c s =
     canon_sum c domainSpend
       [CString (sp_Platform s), CBytes (b32_bytes (sp_From s)), CBytes (b32_bytes (sp_To s)),
        CUint64 (sp_Amount s), CBytes (b32_bytes (sp_ExchangeHash s)),
        CTime (sp_IssuedAt s), CUint64 (sp_Nonce s)]"

definition Spend_Sign :: "crypto \<Rightarrow> bytes \<Rightarrow> spend \<Rightarrow> spend option" where
  "Spend_Sign c priv s =
     map_option (\<lambda>sig. s\<lparr>sp_Signature := sig\<rparr>) (ed25519_Sign c priv (Spend_CanonicalBytes c s))"

definition Spend_Verify :: "crypto \<Rightarrow> spend \<Rightarrow> bytes \<Rightarrow> bool option" where
  "Spend_Verify c s pub =
     (if length (sp_Signature s) \<noteq> SignatureSize then Some False
      else ed25519_Verify c pub (Spend_CanonicalBytes c s) (sp_Signature s))"

section \<open>Policy and governance\<close>

definition validMode :: "string \<Rightarrow> bool" where
  "validMode m \<longleftrightarrow> m = ModeEscrow \<or> m = ModeCredit"

record policy =
  pol_Mode :: string
  pol_DebitCap :: u64

definition Policy_validate :: "policy \<Rightarrow> economy_error option" where
  "Policy_validate p =
     (if \<not> validMode (pol_Mode p) then Some EcoUnknownMode
      else if pol_DebitCap p > MaxInt64 then Some EcoCapRange
      else None)"

record genesis =
  gen_Platform :: string
  gen_Stewards :: "bytes list"
  gen_Threshold :: int
  gen_Policy :: policy

definition Genesis_validate :: "genesis \<Rightarrow> economy_error option" where
  "Genesis_validate g =
     (if gen_Platform g = '''' then Some EcoEmptyPlatform
      else if gen_Threshold g < 1 \<or> gen_Threshold g > int (length (gen_Stewards g))
        then Some EcoBadThreshold
      else Policy_validate (gen_Policy g))"

record policy_change =
  pc_Platform :: string
  pc_Policy :: policy
  pc_Version :: u64
  pc_At :: gotime
  pc_Sigs :: "bytes list"

definition PolicyChange_CanonicalBytes :: "crypto \<Rightarrow> policy_change \<Rightarrow> bytes" where
  "PolicyChange_CanonicalBytes c p =
     canon_sum c domainPolicy
       [CString (pc_Platform p), CString (pol_Mode (pc_Policy p)),
        CUint64 (pol_DebitCap (pc_Policy p)), CUint64 (pc_Version p), CTime (pc_At p)]"

definition PolicyChange_Sign :: "crypto \<Rightarrow> bytes \<Rightarrow> policy_change \<Rightarrow> policy_change option" where
  "PolicyChange_Sign c priv p =
     map_option (\<lambda>sig. p\<lparr>pc_Sigs := pc_Sigs p @ [sig]\<rparr>)
       (ed25519_Sign c priv (PolicyChange_CanonicalBytes c p))"

definition PolicyChange_Verify :: "crypto \<Rightarrow> policy_change \<Rightarrow> genesis \<Rightarrow> bool" where
  "PolicyChange_Verify c p g =
     quorum_reached c (PolicyChange_CanonicalBytes c p) (gen_Stewards g) (pc_Sigs p)
       (gen_Threshold g)"

section \<open>Records and the store\<close>

text \<open>The sealed union of records. A foreign struct that embeds a record satisfies the Go
  interface too; \<open>RForeign\<close> is such a value.\<close>

datatype ledger_record = RSpend spend | RPolicy policy_change | RForeign string

type_synonym store = "ledger_record list"

definition NewMemStore :: store where
  "NewMemStore = []"

definition cloneBytes :: "bytes \<Rightarrow> bytes" where
  "cloneBytes b = map (\<lambda>x. x) b"

fun cloneRecord :: "ledger_record \<Rightarrow> ledger_record" where
  "cloneRecord (RSpend s) = RSpend (s\<lparr>sp_Signature := cloneBytes (sp_Signature s)\<rparr>)"
| "cloneRecord (RPolicy p) = RPolicy (p\<lparr>pc_Sigs := map cloneBytes (pc_Sigs p)\<rparr>)"
| "cloneRecord (RForeign k) = RForeign k"

definition MemStore_Append :: "store \<Rightarrow> nat \<Rightarrow> ledger_record \<Rightarrow> economy_error + store" where
  "MemStore_Append st after r =
     (if length st \<noteq> after then Inl ErrConflict else Inr (st @ [cloneRecord r]))"

definition MemStore_All :: "store \<Rightarrow> ledger_record list" where
  "MemStore_All st = map cloneRecord st"

section \<open>The ledger\<close>

text \<open>The ledger's own state. Its store is shared between ledgers and is passed beside it.\<close>

record ledger =
  l_genesis :: genesis
  l_dir :: "account_id \<Rightarrow> bytes option"
  l_pol :: policy
  l_version :: u64
  l_applied :: nat
  l_balances :: "account_id \<rightharpoonup> u64"
  l_nonces :: "account_id \<rightharpoonup> u64"

definition admitSpend :: "crypto \<Rightarrow> ledger \<Rightarrow> spend \<Rightarrow> economy_error option" where
  "admitSpend c l s =
     (if pol_Mode (l_pol l) = ModeEscrow then Some ErrCreditDisabled
      else if sp_Platform s \<noteq> gen_Platform (l_genesis l) then Some EcoPlatformMismatch
      else if sp_From s = sp_To s then Some EcoSelfTransfer
      else if sp_Amount s = 0 then Some EcoZeroAmount
      else if sp_Amount s > MaxInt64 then Some EcoAmountRange
      else case l_dir l (sp_From s) of None \<Rightarrow> Some ErrUnknownAccount | Some fromKey \<Rightarrow>
        if length fromKey \<noteq> PublicKeySize then Some ErrSignature
        else if AccountIDFor c (gen_Platform (l_genesis l)) fromKey \<noteq> sp_From s
          then Some EcoPayerMismatch
        else case l_dir l (sp_To s) of None \<Rightarrow> Some ErrUnknownAccount | Some toKey \<Rightarrow>
          if length toKey \<noteq> PublicKeySize then Some ErrSignature
          else if AccountIDFor c (gen_Platform (l_genesis l)) toKey \<noteq> sp_To s
            then Some EcoPayeeMismatch
          else case Spend_Verify c s fromKey of None \<Rightarrow> Some EcoPanic | Some verified \<Rightarrow>
            if \<not> verified then Some ErrSignature
            else if sp_Nonce s \<le> map_get (l_nonces l) (sp_From s) 0 then Some ErrReplay
            else let amt = sp_Amount s; from = map_get (l_balances l) (sp_From s) 0 in
              if sint from < sint (MinInt64 + amt) then Some ErrLimit
              else if sint (from - amt) < sint (- pol_DebitCap (l_pol l)) then Some ErrLimit
              else if sint (map_get (l_balances l) (sp_To s) 0) > sint (MaxInt64 - amt)
                then Some EcoPayeeOverflow
              else None)"

definition applySpend :: "ledger \<Rightarrow> spend \<Rightarrow> ledger" where
  "applySpend l s =
     (let amt = sp_Amount s;
          b1 = (l_balances l)(sp_From s \<mapsto> map_get (l_balances l) (sp_From s) 0 - amt);
          b2 = b1(sp_To s \<mapsto> map_get b1 (sp_To s) 0 + amt)
      in l\<lparr>l_balances := b2, l_nonces := (l_nonces l)(sp_From s \<mapsto> sp_Nonce s)\<rparr>)"

definition admitPolicyChange :: "crypto \<Rightarrow> ledger \<Rightarrow> policy_change \<Rightarrow> economy_error option" where
  "admitPolicyChange c l p =
     (if pc_Platform p \<noteq> gen_Platform (l_genesis l) then Some EcoPlatformMismatch
      else if pc_Version p \<le> l_version l then Some ErrReplay
      else case Policy_validate (pc_Policy p) of Some e \<Rightarrow> Some e | None \<Rightarrow>
        if \<not> PolicyChange_Verify c p (l_genesis l) then Some ErrQuorum else None)"

definition applyPolicyChange :: "ledger \<Rightarrow> policy_change \<Rightarrow> ledger" where
  "applyPolicyChange l p = l\<lparr>l_pol := pc_Policy p, l_version := pc_Version p\<rparr>"

text \<open>\<open>replay\<close>, the fold step of \<open>Open\<close> and of catch-up; its position is the count of
  records applied so far, which is the index both loops pass.\<close>

definition replay :: "crypto \<Rightarrow> ledger \<Rightarrow> ledger_record \<Rightarrow> economy_error + ledger" where
  "replay c l r =
     (case r of
        RSpend s \<Rightarrow>
          (case admitSpend c l s of
             Some e \<Rightarrow> Inl (ErrTampered (l_applied l) (Some e))
           | None \<Rightarrow> let l' = applySpend l s in Inr (l'\<lparr>l_applied := l_applied l' + 1\<rparr>))
      | RPolicy p \<Rightarrow>
          (case admitPolicyChange c l p of
             Some e \<Rightarrow> Inl (ErrTampered (l_applied l) (Some e))
           | None \<Rightarrow> let l' = applyPolicyChange l p in Inr (l'\<lparr>l_applied := l_applied l' + 1\<rparr>))
      | RForeign k \<Rightarrow> Inl (ErrTampered (l_applied l) None))"

definition newLedger :: "genesis \<Rightarrow> (account_id \<Rightarrow> bytes option) \<Rightarrow> ledger" where
  "newLedger g dir =
     \<lparr>l_genesis = g, l_dir = dir, l_pol = gen_Policy g, l_version = 0, l_applied = 0,
      l_balances = Map.empty, l_nonces = Map.empty\<rparr>"

definition Open :: "crypto \<Rightarrow> genesis \<Rightarrow> (account_id \<Rightarrow> bytes option) option \<Rightarrow> store option
    \<Rightarrow> economy_error + ledger" where
  "Open c g dir s =
     (case Genesis_validate g of Some e \<Rightarrow> Inl e | None \<Rightarrow>
      case dir of None \<Rightarrow> Inl EcoNilDirectory | Some d \<Rightarrow>
      case s of None \<Rightarrow> Inl EcoNilStore | Some st \<Rightarrow>
        run_all (replay c) (newLedger g d) (MemStore_All st))"

text \<open>\<open>catchUp\<close> replays the records beyond \<open>applied\<close>; on an error the records before it
  stay applied, as the code mutates the ledger record by record.\<close>

definition catchUp :: "crypto \<Rightarrow> ledger \<Rightarrow> store \<Rightarrow> ledger \<times> economy_error option" where
  "catchUp c l st =
     (let recs = MemStore_All st in
      if length recs < l_applied l then (l, Some (ErrTampered (l_applied l) None))
      else run_until (replay c) l (drop (l_applied l) recs))"

text \<open>\<open>Post\<close> and \<open>Enact\<close> over a store no other writer changes during the call; the loop takes
  fuel and \<open>None\<close> means it ran out. The interleaved behaviour is the subject of
  \<open>Economy_Shared\<close>.\<close>

fun Post :: "crypto \<Rightarrow> nat \<Rightarrow> ledger \<Rightarrow> store \<Rightarrow> spend \<Rightarrow> (ledger \<times> store \<times> economy_error option) option"
where
  "Post c 0 l st s = None"
| "Post c (Suc fuel) l st s =
     (case admitSpend c l s of
        Some e \<Rightarrow> Some (l, st, Some e)
      | None \<Rightarrow>
          (case MemStore_Append st (l_applied l) (RSpend s) of
             Inr st' \<Rightarrow>
               (let l' = applySpend l s in Some (l'\<lparr>l_applied := l_applied l' + 1\<rparr>, st', None))
           | Inl e \<Rightarrow>
               if e \<noteq> ErrConflict then Some (l, st, Some e)
               else (case catchUp c l st of
                       (l', Some e') \<Rightarrow> Some (l', st, Some e')
                     | (l', None) \<Rightarrow> Post c fuel l' st s)))"

fun Enact :: "crypto \<Rightarrow> nat \<Rightarrow> ledger \<Rightarrow> store \<Rightarrow> policy_change
    \<Rightarrow> (ledger \<times> store \<times> economy_error option) option" where
  "Enact c 0 l st p = None"
| "Enact c (Suc fuel) l st p =
     (case admitPolicyChange c l p of
        Some e \<Rightarrow> Some (l, st, Some e)
      | None \<Rightarrow>
          (case MemStore_Append st (l_applied l) (RPolicy p) of
             Inr st' \<Rightarrow>
               (let l' = applyPolicyChange l p in
                Some (l'\<lparr>l_applied := l_applied l' + 1\<rparr>, st', None))
           | Inl e \<Rightarrow>
               if e \<noteq> ErrConflict then Some (l, st, Some e)
               else (case catchUp c l st of
                       (l', Some e') \<Rightarrow> Some (l', st, Some e')
                     | (l', None) \<Rightarrow> Enact c fuel l' st p)))"

definition Ledger_Policy :: "ledger \<Rightarrow> policy" where
  "Ledger_Policy l = l_pol l"

definition Ledger_Balance :: "ledger \<Rightarrow> account_id \<Rightarrow> int" where
  "Ledger_Balance l a = sint (map_get (l_balances l) a 0)"

section \<open>The invariant of a ledger\<close>

text \<open>Balances add up to zero as integers, not only modulo \<open>2 ^ 64\<close>, and the policy in force
  is one that \<open>validate\<close> accepts.\<close>

definition total_balance :: "ledger \<Rightarrow> int" where
  "total_balance l = (\<Sum>a \<in> dom (l_balances l). Ledger_Balance l a)"

definition ledger_inv :: "ledger \<Rightarrow> bool" where
  "ledger_inv l \<longleftrightarrow> finite (dom (l_balances l)) \<and> total_balance l = 0 \<and>
     Policy_validate (l_pol l) = None"

definition ledger_step :: "crypto \<Rightarrow> ledger \<times> store \<Rightarrow> ledger_record \<Rightarrow> economy_error + ledger \<times> store"
where
  "ledger_step c ls r =
     (case replay c (fst ls) r of Inl e \<Rightarrow> Inl e | Inr l \<Rightarrow> Inr (l, snd ls @ [r]))"

text \<open>\<open>follows\<close>: the ledger is the fold of the prefix of the store it has applied.
  \<open>store_ok\<close>: the whole store replays.\<close>

definition follows :: "crypto \<Rightarrow> genesis \<Rightarrow> (account_id \<Rightarrow> bytes option) \<Rightarrow> ledger \<Rightarrow> store \<Rightarrow> bool"
where
  "follows c g dir l st \<longleftrightarrow> l_applied l \<le> length st \<and>
     run_all (replay c) (newLedger g dir) (take (l_applied l) st) = Inr l"

definition store_ok :: "crypto \<Rightarrow> genesis \<Rightarrow> (account_id \<Rightarrow> bytes option) \<Rightarrow> store \<Rightarrow> bool" where
  "store_ok c g dir st \<longleftrightarrow> (\<exists>l. run_all (replay c) (newLedger g dir) st = Inr l)"

section \<open>Admission\<close>

lemma cloneRecord_id [simp]: "cloneRecord r = r"
  by (cases r) (simp_all add: cloneBytes_def map_idI)

lemma MemStore_All_id [simp]: "MemStore_All st = st"
  by (simp add: MemStore_All_def map_idI)

lemma Policy_validate_cap:
  "Policy_validate p = None \<Longrightarrow> sint (- pol_DebitCap p) = - int (unat (pol_DebitCap p))"
proof -
  assume "Policy_validate p = None"
  then have a: "sint (pol_DebitCap p) = int (unat (pol_DebitCap p))"
    by (intro sint64_nonneg) (auto simp: Policy_validate_def split: if_splits)
  then have "sint (pol_DebitCap p) \<noteq> - 9223372036854775808" by linarith
  from sint64_uminus [OF this] a show ?thesis by (simp only:)
qed

lemma Spend_Verify_canonical:
  "length pub = PublicKeySize \<Longrightarrow>
     Spend_Verify c s pub =
       Some (length (sp_Signature s) = SignatureSize \<and>
             ed_verify c pub (Spend_CanonicalBytes c s) (sp_Signature s))"
  by (simp add: Spend_Verify_def go_simps)

text \<open>The guards before the arithmetic make its wrap-around unreachable.\<close>

lemma spend_guards:
  assumes "\<not> MaxInt64 < amt" and "\<not> sint from < sint (MinInt64 + amt)"
    and "\<not> sint to > sint (MaxInt64 - amt)"
  shows "sint (from - amt) = sint from - int (unat amt)"
    and "sint (to + amt) = sint to + int (unat amt)"
proof -
  have a: "sint amt = int (unat amt)" using assms(1) by (rule sint64_nonneg)
  then have nn: "0 \<le> sint amt" by simp
  have lo: "sint (MinInt64 + amt) = sint MinInt64 + sint amt"
    using sint64_range [of amt] nn by (intro sint64_add) auto
  have hi: "sint (MaxInt64 - amt) = sint MaxInt64 - sint amt"
    using sint64_range [of amt] nn by (intro sint64_sub) auto
  show "sint (from - amt) = sint from - int (unat amt)"
    using assms(2) lo sint64_range [of "from"] nn unfolding a [symmetric] by (intro sint64_sub) auto
  show "sint (to + amt) = sint to + int (unat amt)"
    using assms(3) hi sint64_range [of to] nn unfolding a [symmetric] by (intro sint64_add) auto
qed

lemma admitSpend_mode: "admitSpend c l s = None \<Longrightarrow> pol_Mode (l_pol l) \<noteq> ModeEscrow"
  by (auto simp: admitSpend_def)

lemma admitSpend_checks [admission]:
  assumes "admitSpend c l s = None"
  shows "sp_Platform s = gen_Platform (l_genesis l)" "sp_From s \<noteq> sp_To s" "sp_Amount s \<noteq> 0"
    and "\<not> MaxInt64 < sp_Amount s"
    and "map_get (l_nonces l) (sp_From s) 0 < sp_Nonce s"
  using assms by (auto simp: admitSpend_def Let_def not_le split: if_splits option.splits)

lemma admitSpend_signed [admission]:
  assumes "admitSpend c l s = None"
  shows "\<exists>fromKey. l_dir l (sp_From s) = Some fromKey \<and> length fromKey = PublicKeySize \<and>
           AccountIDFor c (gen_Platform (l_genesis l)) fromKey = sp_From s \<and>
           ed25519_Verify c fromKey (Spend_CanonicalBytes c s) (sp_Signature s) = Some True"
  using assms
  by (auto simp: admitSpend_def Let_def Spend_Verify_canonical go_simps split: if_splits option.splits)

lemma admitSpend_arith:
  assumes "admitSpend c l s = None"
  shows "\<not> sint (map_get (l_balances l) (sp_From s) 0) < sint (MinInt64 + sp_Amount s)"
    and "\<not> sint (map_get (l_balances l) (sp_From s) 0 - sp_Amount s) < sint (- pol_DebitCap (l_pol l))"
    and "\<not> sint (map_get (l_balances l) (sp_To s) 0) > sint (MaxInt64 - sp_Amount s)"
  using assms by (auto simp: admitSpend_def Let_def split: if_splits option.splits)

lemma admitSpend_no_panic: "admitSpend c l s \<noteq> Some EcoPanic"
  by (auto simp: admitSpend_def Let_def Spend_Verify_canonical split: if_splits option.splits)

lemma applySpend_fields [simp]:
  "l_genesis (applySpend l s) = l_genesis l" "l_dir (applySpend l s) = l_dir l"
  "l_pol (applySpend l s) = l_pol l" "l_version (applySpend l s) = l_version l"
  "l_applied (applySpend l s) = l_applied l"
  "l_nonces (applySpend l s) = (l_nonces l)(sp_From s \<mapsto> sp_Nonce s)"
  "dom (l_balances (applySpend l s)) = insert (sp_To s) (insert (sp_From s) (dom (l_balances l)))"
  by (simp_all add: applySpend_def Let_def)

lemma Ledger_Balance_update [simp]:
  "Ledger_Balance (l\<lparr>l_applied := n\<rparr>) a = Ledger_Balance l a"
  "Ledger_Balance (l\<lparr>l_pol := p, l_version := v\<rparr>) a = Ledger_Balance l a"
  by (simp_all add: Ledger_Balance_def)

lemma applySpend_balance:
  assumes "admitSpend c l s = None"
  shows "Ledger_Balance (applySpend l s) a =
     (if a = sp_From s then Ledger_Balance l a - int (unat (sp_Amount s))
      else if a = sp_To s then Ledger_Balance l a + int (unat (sp_Amount s))
      else Ledger_Balance l a)"
  using spend_guards [OF admitSpend_checks(4) admitSpend_arith(1,3), OF assms assms assms]
    admitSpend_checks(2) [OF assms]
  by (auto simp: Ledger_Balance_def applySpend_def Let_def)

lemma admitSpend_floor:
  assumes "admitSpend c l s = None" and "Policy_validate (l_pol l) = None"
  shows "- int (unat (pol_DebitCap (l_pol l))) \<le> Ledger_Balance (applySpend l s) (sp_From s)"
  using admitSpend_arith(2) [OF assms(1)] Policy_validate_cap [OF assms(2)]
    spend_guards(1) [OF admitSpend_checks(4) admitSpend_arith(1,3), OF assms(1) assms(1) assms(1)]
    applySpend_balance [OF assms(1), of "sp_From s"]
  by (simp add: Ledger_Balance_def)

section \<open>The invariant is kept\<close>

lemma Ledger_Balance_outside: "a \<notin> dom (l_balances l) \<Longrightarrow> Ledger_Balance l a = 0"
  by (auto simp: Ledger_Balance_def map_get_def dom_def)

lemma total_balance_superset:
  "finite A \<Longrightarrow> dom (l_balances l) \<subseteq> A \<Longrightarrow> total_balance l = (\<Sum>a \<in> A. Ledger_Balance l a)"
  unfolding total_balance_def by (rule sum.mono_neutral_left) (auto simp: Ledger_Balance_outside)

lemma applySpend_total:
  assumes "admitSpend c l s = None" and "finite (dom (l_balances l))"
  shows "total_balance (applySpend l s) = total_balance l"
proof -
  let ?A = "insert (sp_To s) (insert (sp_From s) (dom (l_balances l)))"
  let ?n = "int (unat (sp_Amount s))"
  have fin: "finite ?A" using assms(2) by simp
  have ne: "sp_From s \<noteq> sp_To s" using admitSpend_checks(2) [OF assms(1)] .
  have "total_balance (applySpend l s) = (\<Sum>a \<in> ?A. Ledger_Balance (applySpend l s) a)"
    using fin by (intro total_balance_superset) auto
  also have "\<dots> = (\<Sum>a \<in> ?A. Ledger_Balance l a + ((if a = sp_To s then ?n else 0)
                         - (if a = sp_From s then ?n else 0)))"
    using ne by (intro sum.cong) (auto simp: applySpend_balance [OF assms(1)])
  also have "\<dots> = (\<Sum>a \<in> ?A. Ledger_Balance l a)"
    using fin by (simp add: sum.distrib sum_subtractf sum.delta)
  also have "\<dots> = total_balance l"
    using fin by (intro total_balance_superset [symmetric]) auto
  finally show ?thesis .
qed

lemma total_balance_update [simp]:
  "total_balance (l\<lparr>l_applied := n\<rparr>) = total_balance l"
  "total_balance (applyPolicyChange l p) = total_balance l"
  by (simp_all add: total_balance_def applyPolicyChange_def)

lemma replay_cases:
  assumes "replay c l r = Inr l'"
  obtains (spend) s where "r = RSpend s" "admitSpend c l s = None"
      "l' = (applySpend l s)\<lparr>l_applied := l_applied l + 1\<rparr>"
    | (change) p where "r = RPolicy p" "admitPolicyChange c l p = None"
      "l' = (applyPolicyChange l p)\<lparr>l_applied := l_applied l + 1\<rparr>"
  using assms
  by (auto simp: replay_def Let_def applyPolicyChange_def split: ledger_record.splits option.splits)

lemma admitPolicyChange_checks [admission]:
  assumes "admitPolicyChange c l p = None"
  shows "pc_Platform p = gen_Platform (l_genesis l)" "l_version l < pc_Version p"
    and "Policy_validate (pc_Policy p) = None" "PolicyChange_Verify c p (l_genesis l)"
  using assms by (auto simp: admitPolicyChange_def not_le split: if_splits option.splits)

lemma replay_inv: "ledger_inv l \<Longrightarrow> replay c l r = Inr l' \<Longrightarrow> ledger_inv l'"
proof (erule replay_cases)
  fix s assume "ledger_inv l" "admitSpend c l s = None"
    "l' = (applySpend l s)\<lparr>l_applied := l_applied l + 1\<rparr>"
  then show "ledger_inv l'" by (auto simp: ledger_inv_def applySpend_total)
next
  fix p assume "ledger_inv l" "admitPolicyChange c l p = None"
    "l' = (applyPolicyChange l p)\<lparr>l_applied := l_applied l + 1\<rparr>"
  then show "ledger_inv l'"
    by (auto simp: ledger_inv_def applyPolicyChange_def admission total_balance_def)
qed

lemma newLedger_inv: "Genesis_validate g = None \<Longrightarrow> ledger_inv (newLedger g dir)"
  by (auto simp: ledger_inv_def newLedger_def total_balance_def Genesis_validate_def split: if_splits)

lemma run_replay_inv:
  "run_all (replay c) (newLedger g dir) rs = Inr l \<Longrightarrow> Genesis_validate g = None \<Longrightarrow> ledger_inv l"
  by (rule run_all_invariant [of ledger_inv "replay c"]) (auto intro: replay_inv newLedger_inv)

lemma Open_inv:
  assumes "Open c g dir s = Inr l"
  shows "ledger_inv l"
  using assms run_replay_inv by (auto simp: Open_def split: option.splits)

section \<open>Replay and catch-up\<close>

lemma replay_applied: "replay c l r = Inr l' \<Longrightarrow> l_applied l' = l_applied l + 1"
  by (erule replay_cases) (auto simp: applyPolicyChange_def)

lemma run_replay_applied:
  "run_all (replay c) l rs = Inr l' \<Longrightarrow> l_applied l' = l_applied l + length rs"
  by (induction rs arbitrary: l) (auto split: sum.splits dest: replay_applied)

lemma ledger_step_log: "ledger_step c ls r = Inr ls' \<Longrightarrow> snd ls' = snd ls @ [r]"
  by (auto simp: ledger_step_def split: sum.splits)

interpretation eco: append_log "ledger_step c" snd for c
  by unfold_locales (rule ledger_step_log)

lemma run_ledger_step:
  "run_all (ledger_step c) (l, st) rs = Inr (l', st') \<longleftrightarrow>
     run_all (replay c) l rs = Inr l' \<and> st' = st @ rs"
  by (induction rs arbitrary: l st) (auto simp: ledger_step_def split: sum.splits)

lemma follows_append: "follows c g dir l st \<Longrightarrow> follows c g dir l (st @ rs)"
  by (simp add: follows_def)

lemma follows_step:
  assumes "follows c g dir l st" "l_applied l = length st" "replay c l r = Inr l'"
  shows "follows c g dir l' (st @ [r])"
  using assms by (simp add: follows_def replay_applied run_all_append)

lemma follows_ok: "follows c g dir l st \<Longrightarrow> l_applied l = length st \<Longrightarrow> store_ok c g dir st"
  by (auto simp: follows_def store_ok_def)

lemma catchUp_ok:
  assumes "follows c g dir l st" and "run_all (replay c) (newLedger g dir) st = Inr L"
  shows "catchUp c l st = (L, None)"
proof -
  have "run_all (replay c) (newLedger g dir) (take (l_applied l) st @ drop (l_applied l) st) = Inr L"
    using assms(2) by simp
  then have "run_all (replay c) l (drop (l_applied l) st) = Inr L"
    using assms(1) unfolding run_all_append follows_def by simp
  then show ?thesis
    using assms(1) by (simp add: catchUp_def follows_def run_until_run_all)
qed

lemma catchUp_applied:
  assumes "catchUp c l st = (l', None)"
  shows "l_applied l' = length st"
  using assms run_replay_applied
  by (fastforce simp: catchUp_def Let_def run_until_run_all split: if_splits)

lemma run_replay_follows:
  "run_all (replay c) (newLedger g dir) st = Inr L \<Longrightarrow> follows c g dir L st"
  using run_replay_applied [of c "newLedger g dir" st L] by (simp add: follows_def newLedger_def)

lemma replay_RSpend:
  "admitSpend c l s = None \<Longrightarrow>
     replay c l (RSpend s) = Inr ((applySpend l s)\<lparr>l_applied := l_applied l + 1\<rparr>)"
  by (simp add: replay_def Let_def)

lemma replay_RPolicy:
  "admitPolicyChange c l p = None \<Longrightarrow>
     replay c l (RPolicy p) = Inr ((applyPolicyChange l p)\<lparr>l_applied := l_applied l + 1\<rparr>)"
  by (simp add: replay_def Let_def applyPolicyChange_def)

section \<open>Post and Enact\<close>

lemma Open_run:
  "Genesis_validate g = None \<Longrightarrow>
     Open c g (Some dir) (Some st) = run_all (replay c) (newLedger g dir) st"
  by (simp add: Open_def)

lemma MemStore_Append_cases:
  "MemStore_Append st n r = (if length st \<noteq> n then Inl ErrConflict else Inr (st @ [r]))"
  by (simp add: MemStore_Append_def)

text \<open>One call of \<open>Post\<close> or \<open>Enact\<close> on a store that replays to \<open>L\<close>: it judges the record
  against the ledger's own state and, only when that admits it and the append loses, against \<open>L\<close>.\<close>

lemma Post_unfold:
  assumes "follows c g dir l st" and "run_all (replay c) (newLedger g dir) st = Inr L"
  shows "Post c (Suc (Suc fuel)) l st s =
     (case admitSpend c l s of
        Some e \<Rightarrow> Some (l, st, Some e)
      | None \<Rightarrow>
          if l_applied l = length st
          then Some ((applySpend l s)\<lparr>l_applied := l_applied l + 1\<rparr>, st @ [RSpend s], None)
          else (case admitSpend c L s of
                  Some e \<Rightarrow> Some (L, st, Some e)
                | None \<Rightarrow> Some ((applySpend L s)\<lparr>l_applied := l_applied L + 1\<rparr>, st @ [RSpend s], None)))"
  using catchUp_ok [OF assms] catchUp_applied [OF catchUp_ok [OF assms]]
  by (auto simp: MemStore_Append_cases Let_def split: option.splits)

lemma follows_full:
  "follows c g dir l st \<Longrightarrow> l_applied l = length st \<Longrightarrow>
     run_all (replay c) (newLedger g dir) st = Inr l"
  by (simp add: follows_def)

lemma Post_commit:
  assumes "follows c g dir l st" and "run_all (replay c) (newLedger g dir) st = Inr L"
    and "Post c (Suc (Suc fuel)) l st s = Some (l', st', None)"
  shows "admitSpend c L s = None \<and> l' = (applySpend L s)\<lparr>l_applied := l_applied L + 1\<rparr> \<and>
         st' = st @ [RSpend s]"
proof (cases "l_applied l = length st")
  case True
  then have "L = l" using follows_full [OF assms(1)] assms(2) by simp
  with assms(3) True show ?thesis
    unfolding Post_unfold [OF assms(1,2)] by (auto split: option.splits)
next
  case False
  with assms(3) show ?thesis
    unfolding Post_unfold [OF assms(1,2)] by (auto split: option.splits)
qed

lemma commit_reopens:
  assumes "Genesis_validate g = None" and "run_all (replay c) (newLedger g dir) st = Inr L"
    and "replay c L r = Inr l'"
  shows "Open c g (Some dir) (Some (st @ [r])) = Inr l'"
  using assms by (simp add: Open_run run_all_append)

section \<open>Sample ledger\<close>

text \<open>A platform with one steward and two members, on which the theorems are instantiated.\<close>

definition sample_key :: "byte \<Rightarrow> bytes" where
  "sample_key b = replicate 32 b"

definition sample_account :: "byte \<Rightarrow> account_id" where
  "sample_account b = AccountIDFor sample_crypto ''p'' (sample_key b)"

definition sample_genesis :: genesis where
  "sample_genesis = \<lparr>gen_Platform = ''p'', gen_Stewards = [sample_key 7], gen_Threshold = 1,
     gen_Policy = \<lparr>pol_Mode = ModeCredit, pol_DebitCap = 10\<rparr>\<rparr>"

definition sample_dir :: "account_id \<Rightarrow> bytes option" where
  "sample_dir = [sample_account 1 \<mapsto> sample_key 1, sample_account 2 \<mapsto> sample_key 2]"

definition sample_spend :: spend where
  "sample_spend =
     (let s = \<lparr>sp_Platform = ''p'', sp_From = sample_account 1, sp_To = sample_account 2,
               sp_Amount = 4, sp_ExchangeHash = 0, sp_IssuedAt = 0, sp_Nonce = 1, sp_Signature = []\<rparr>
      in s\<lparr>sp_Signature := sample_key 1 @ sample_stamp (Spend_CanonicalBytes sample_crypto s)\<rparr>)"

lemma sample_accounts_differ: "sample_account 1 \<noteq> sample_account 2"
  by (simp add: sample_account_def AccountIDFor_def sample_key_def sample_canon_def
      enc_bytes_def enc_nat_def)

lemma sample_dir_simps [simp]:
  "sample_dir (sample_account 1) = Some (sample_key 1)"
  "sample_dir (sample_account 2) = Some (sample_key 2)"
  using sample_accounts_differ by (simp_all add: sample_dir_def)

lemma length_sample_key [simp]: "length (sample_key b) = 32"
  by (simp add: sample_key_def)

lemma sample_genesis_valid: "Genesis_validate sample_genesis = None"
  by (simp add: Genesis_validate_def Policy_validate_def sample_genesis_def validMode_def MaxInt64_def)

lemma sample_spend_fields [simp]:
  "sp_Platform sample_spend = ''p''" "sp_From sample_spend = sample_account 1"
  "sp_To sample_spend = sample_account 2" "sp_Amount sample_spend = 4" "sp_Nonce sample_spend = 1"
  by (simp_all add: sample_spend_def Let_def)

lemma sample_spend_signed: "Spend_Verify sample_crypto sample_spend (sample_key 1) = Some True"
  by (simp add: Spend_Verify_def ed25519_Verify_def sample_spend_def Let_def Spend_CanonicalBytes_def
      SignatureSize_def PublicKeySize_def)

lemma sample_account_of [simp]:
  "AccountIDFor sample_crypto ''p'' (sample_key b) = sample_account b"
  by (simp add: sample_account_def)

lemma sample_admits: "admitSpend sample_crypto (newLedger sample_genesis sample_dir) sample_spend = None"
  using sample_accounts_differ sample_spend_signed
  by (simp add: admitSpend_def newLedger_def sample_genesis_def ModeCredit_def ModeEscrow_def
      MaxInt64_def MinInt64_def PublicKeySize_def)

lemma sample_follows: "follows c g dir (newLedger g dir) []"
  by (simp add: follows_def newLedger_def)

section \<open>Properties\<close>

text \<open>C1: a spend that \<open>Post\<close> accepts debits the payer and credits the payee by exactly the
  amount relative to the ledger that a fresh \<open>Open\<close> of the store gives, changes no other
  balance, leaves the payer at or above the uniform debit cap, keeps the sum of all balances at
  zero as integers, appends exactly that spend, and leaves a store that reopens to the same
  ledger. The ledger may lag behind the store when the call starts.\<close>

theorem Post_moves_credit:
  assumes "Genesis_validate g = None" and "follows c g dir l st"
    and "Open c g (Some dir) (Some st) = Inr L"
    and "Post c (Suc (Suc fuel)) l st s = Some (l', st', None)"
  shows "st' = st @ [RSpend s] \<and>
    (\<forall>a. Ledger_Balance l' a =
           Ledger_Balance L a + (if a = sp_To s then int (unat (sp_Amount s)) else 0)
                              - (if a = sp_From s then int (unat (sp_Amount s)) else 0)) \<and>
    - int (unat (pol_DebitCap (Ledger_Policy l'))) \<le> Ledger_Balance l' (sp_From s) \<and>
    total_balance l' = 0 \<and>
    Open c g (Some dir) (Some st') = Inr l'"
proof -
  have run: "run_all (replay c) (newLedger g dir) st = Inr L"
    using assms(1,3) by (simp add: Open_run)
  from Post_commit [OF assms(2) run assms(4)]
  have ad: "admitSpend c L s = None" and l': "l' = (applySpend L s)\<lparr>l_applied := l_applied L + 1\<rparr>"
    and st': "st' = st @ [RSpend s]" by auto
  have re: "replay c L (RSpend s) = Inr l'" using ad l' by (simp add: replay_RSpend)
  have inv: "ledger_inv L" using run_replay_inv [OF run assms(1)] .
  have bal: "\<forall>a. Ledger_Balance l' a =
           Ledger_Balance L a + (if a = sp_To s then int (unat (sp_Amount s)) else 0)
                              - (if a = sp_From s then int (unat (sp_Amount s)) else 0)"
    using admitSpend_checks(2) [OF ad] by (simp add: l' applySpend_balance [OF ad])
  have floor: "- int (unat (pol_DebitCap (Ledger_Policy l'))) \<le> Ledger_Balance l' (sp_From s)"
    using admitSpend_floor [OF ad] inv by (simp add: l' ledger_inv_def Ledger_Policy_def)
  have zero: "total_balance l' = 0" using replay_inv [OF inv re] by (simp add: ledger_inv_def)
  have "Open c g (Some dir) (Some st') = Inr l'"
    unfolding st' by (rule commit_reopens [OF assms(1) run re])
  with st' bal floor zero show ?thesis by blast
qed

theorem Post_moves_credit_witness:
  "let l0 = newLedger sample_genesis sample_dir;
       l1 = (applySpend l0 sample_spend)\<lparr>l_applied := 1\<rparr>
   in Post sample_crypto (Suc (Suc 0)) l0 [] sample_spend = Some (l1, [RSpend sample_spend], None) \<and>
      Ledger_Balance l1 (sample_account 1) = - 4 \<and> total_balance l1 = 0 \<and>
      Open sample_crypto sample_genesis (Some sample_dir) (Some [RSpend sample_spend]) = Inr l1"
proof -
  let ?l0 = "newLedger sample_genesis sample_dir"
  let ?l1 = "(applySpend ?l0 sample_spend)\<lparr>l_applied := 1\<rparr>"
  have o: "Open sample_crypto sample_genesis (Some sample_dir) (Some []) = Inr ?l0"
    by (simp add: Open_run sample_genesis_valid)
  have p: "Post sample_crypto (Suc (Suc 0)) ?l0 [] sample_spend
           = Some (?l1, [RSpend sample_spend], None)"
    using sample_admits by (simp add: MemStore_Append_cases Let_def newLedger_def)
  note th = Post_moves_credit [OF sample_genesis_valid sample_follows o p]
  have "Ledger_Balance ?l0 (sample_account 1) = 0" by (simp add: Ledger_Balance_def newLedger_def)
  then have "Ledger_Balance ?l1 (sample_account 1) = - 4"
    using th sample_accounts_differ by auto
  with th p show ?thesis by (simp add: Let_def)
qed

text \<open>\<open>Open\<close> succeeds exactly when every record of the store is a spend or a policy change
  that the live admission rules accept under the state the records before it give: admission is
  positional, and a foreign record or any record that would not be admitted at its position makes
  the store refuse to open.\<close>

theorem Open_positional:
  assumes "Genesis_validate g = None"
  shows "(\<exists>l. Open c g (Some dir) (Some st) = Inr l) \<longleftrightarrow>
    (\<forall>i < length st. \<exists>li. Open c g (Some dir) (Some (take i st)) = Inr li \<and>
       (case st ! i of RSpend s \<Rightarrow> admitSpend c li s = None
                     | RPolicy p \<Rightarrow> admitPolicyChange c li p = None
                     | RForeign k \<Rightarrow> False))"
proof (induction st rule: rev_induct)
  case Nil
  show ?case using assms by (simp add: Open_run)
next
  case (snoc r st)
  have step: "(\<exists>l. replay c L r = Inr l) \<longleftrightarrow>
      (case r of RSpend s \<Rightarrow> admitSpend c L s = None
               | RPolicy p \<Rightarrow> admitPolicyChange c L p = None | RForeign k \<Rightarrow> False)" for L
    by (auto simp: replay_def Let_def split: ledger_record.splits option.splits)
  have "(\<exists>l. Open c g (Some dir) (Some (st @ [r])) = Inr l) \<longleftrightarrow>
      (\<exists>L. Open c g (Some dir) (Some st) = Inr L \<and> (\<exists>l. replay c L r = Inr l))"
    using assms by (auto simp: Open_run run_all_snoc)
  with snoc.IH step show ?case
    by (auto simp: less_Suc_eq nth_append split: if_splits)
qed

theorem Open_positional_witness:
  "\<not> (\<exists>l. Open sample_crypto sample_genesis (Some sample_dir)
          (Some [RSpend sample_spend, RForeign ''mint'']) = Inr l)"
  unfolding Open_positional [OF sample_genesis_valid]
  by (auto intro!: exI [of _ "Suc 0"])

text \<open>One call of \<open>Post\<close> over a store that no other writer changes always returns: two
  rounds of its retry loop are enough, whatever the ledger, the store and the spend.\<close>

theorem Post_returns: "\<exists>r. Post c (Suc (Suc fuel)) l st s = Some r"
  using catchUp_applied [of c l st]
  by (auto simp: MemStore_Append_cases Let_def split: option.splits prod.splits)

text \<open>In escrow mode \<open>Post\<close> refuses every spend with \<open>ErrCreditDisabled\<close> and changes
  neither the ledger nor the store; and whatever error \<open>Post\<close> returns, the store is unchanged.\<close>

theorem Post_refusal_keeps_store:
  "(pol_Mode (Ledger_Policy l) = ModeEscrow \<longrightarrow>
      Post c (Suc fuel) l st s = Some (l, st, Some ErrCreditDisabled)) \<and>
   (Post c fuel l st s = Some (l', st', Some e) \<longrightarrow> st' = st)"
proof
  show "pol_Mode (Ledger_Policy l) = ModeEscrow \<longrightarrow>
      Post c (Suc fuel) l st s = Some (l, st, Some ErrCreditDisabled)"
    by (simp add: admitSpend_def Ledger_Policy_def)
  show "Post c fuel l st s = Some (l', st', Some e) \<longrightarrow> st' = st"
    by (induction c fuel l st s rule: Post.induct)
       (auto simp: Let_def split: option.splits sum.splits prod.splits if_splits)
qed

theorem Post_refusal_keeps_store_witness:
  "Post sample_crypto 1 ((newLedger sample_genesis sample_dir)\<lparr>l_pol := \<lparr>pol_Mode = ModeEscrow, pol_DebitCap = 1\<rparr>\<rparr>)
     [] sample_spend
   = Some ((newLedger sample_genesis sample_dir)\<lparr>l_pol := \<lparr>pol_Mode = ModeEscrow, pol_DebitCap = 1\<rparr>\<rparr>,
           [], Some ErrCreditDisabled)"
  using Post_refusal_keeps_store
    [of "(newLedger sample_genesis sample_dir)\<lparr>l_pol := \<lparr>pol_Mode = ModeEscrow, pol_DebitCap = 1\<rparr>\<rparr>"
        sample_crypto 0 "[]" sample_spend]
  by (simp add: Ledger_Policy_def)

text \<open>Admission never panics: whatever the directory answers, malformed keys included,
  \<open>admitSpend\<close> returns an ordinary result, and it accepts only a spend whose signature
  verifies under a canonical-length directory key that hashes to the payer's account.\<close>

theorem admitSpend_safe:
  "admitSpend c l s \<noteq> Some EcoPanic \<and>
   (admitSpend c l s = None \<longrightarrow>
      (\<exists>key. l_dir l (sp_From s) = Some key \<and> length key = PublicKeySize \<and>
         AccountIDFor c (gen_Platform (l_genesis l)) key = sp_From s \<and>
         ed25519_Verify c key (Spend_CanonicalBytes c s) (sp_Signature s) = Some True))"
  using admitSpend_no_panic admitSpend_signed by blast

theorem admitSpend_safe_witness:
  "\<exists>key. sample_dir (sample_account 1) = Some key \<and> length key = PublicKeySize \<and>
     ed25519_Verify sample_crypto key (Spend_CanonicalBytes sample_crypto sample_spend)
       (sp_Signature sample_spend) = Some True"
  using admitSpend_safe [of sample_crypto "newLedger sample_genesis sample_dir" sample_spend] sample_admits
  by (auto simp: newLedger_def)

text \<open>C2: \<open>PolicyChange.Verify\<close> accepts exactly when at least \<open>Threshold\<close> distinct steward keys
  of canonical length have a valid signature in \<open>Sigs\<close> (provided no signature verifies under two
  stewards' keys); without that proviso it still never accepts on fewer.\<close>

theorem PolicyChange_Verify_quorum:
  fixes c :: crypto and p :: policy_change and g :: genesis
  defines "S \<equiv> signers c (PolicyChange_CanonicalBytes c p) (gen_Stewards g) (pc_Sigs p)"
  shows "(PolicyChange_Verify c p g \<longrightarrow> 1 \<le> gen_Threshold g \<and> gen_Threshold g \<le> int (card S)) \<and>
         (unique_signer c (PolicyChange_CanonicalBytes c p) (gen_Stewards g) (pc_Sigs p) \<longrightarrow>
            PolicyChange_Verify c p g \<longleftrightarrow> 1 \<le> gen_Threshold g \<and> gen_Threshold g \<le> int (card S))"
  unfolding S_def PolicyChange_Verify_def using quorum_reached_sound quorum_reached_iff by blast

definition sample_change :: policy_change where
  "sample_change =
     (let p = \<lparr>pc_Platform = ''p'', pc_Policy = \<lparr>pol_Mode = ModeCredit, pol_DebitCap = 20\<rparr>,
               pc_Version = 1, pc_At = 0, pc_Sigs = []\<rparr>
      in p\<lparr>pc_Sigs := [sample_key 7 @ sample_stamp (PolicyChange_CanonicalBytes sample_crypto p)]\<rparr>)"

lemma sample_change_verifies: "PolicyChange_Verify sample_crypto sample_change sample_genesis"
  by (simp add: PolicyChange_Verify_def quorum_reached_def sample_genesis_def sample_change_def Let_def
      PolicyChange_CanonicalBytes_def ed25519_Verify_def SignatureSize_def PublicKeySize_def)

theorem PolicyChange_Verify_quorum_witness:
  "1 \<le> int (card (signers sample_crypto (PolicyChange_CanonicalBytes sample_crypto sample_change)
        [sample_key 7] (pc_Sigs sample_change)))"
  using PolicyChange_Verify_quorum [of sample_crypto sample_change sample_genesis] sample_change_verifies
  by (simp add: sample_genesis_def)

end
