(* ===== verification/Economy_Shared.thy ===== *)
theory Economy_Shared
  imports Economy
begin

text \<open>
  Several ledgers over one store (\<open>src/internal/economy/ledger.go\<close>, \<open>Post\<close>, \<open>Enact\<close> and
  \<open>catchUp\<close>, with the store contract of \<open>store.go\<close>). Each ledger runs one call at a time
  under its own mutex; calls of different ledgers interleave at the store operations, which are
  atomic. A call is the loop of \<open>Post\<close> or \<open>Enact\<close> cut at those points: admit and append
  (admission reads only the ledger's own state, so it may be taken together with the append that
  follows it), or, after a lost append, catch up and try again. The step relation has one rule
  per exit of each part.
\<close>

section \<open>The system\<close>

datatype eco_req = ReqPost spend | ReqEnact policy_change

datatype eco_pc = Idle | Trying eco_req | Conflicted eco_req

record eco_sys =
  es_store :: store
  es_ledger :: "nat \<Rightarrow> ledger"
  es_pc :: "nat \<Rightarrow> eco_pc"

fun req_record :: "eco_req \<Rightarrow> ledger_record" where
  "req_record (ReqPost s) = RSpend s"
| "req_record (ReqEnact p) = RPolicy p"

fun req_admit :: "crypto \<Rightarrow> ledger \<Rightarrow> eco_req \<Rightarrow> economy_error option" where
  "req_admit c l (ReqPost s) = admitSpend c l s"
| "req_admit c l (ReqEnact p) = admitPolicyChange c l p"

fun req_apply :: "ledger \<Rightarrow> eco_req \<Rightarrow> ledger" where
  "req_apply l (ReqPost s) = (let l' = applySpend l s in l'\<lparr>l_applied := l_applied l' + 1\<rparr>)"
| "req_apply l (ReqEnact p) = (let l' = applyPolicyChange l p in l'\<lparr>l_applied := l_applied l' + 1\<rparr>)"

inductive eco_step :: "crypto \<Rightarrow> eco_sys \<Rightarrow> eco_sys \<Rightarrow> bool" for c where
  call: "es_pc s i = Idle \<Longrightarrow> eco_step c s (s\<lparr>es_pc := (es_pc s)(i := Trying r)\<rparr>)"
| refuse: "es_pc s i = Trying r \<Longrightarrow> req_admit c (es_ledger s i) r = Some e \<Longrightarrow>
    eco_step c s (s\<lparr>es_pc := (es_pc s)(i := Idle)\<rparr>)"
| commit: "es_pc s i = Trying r \<Longrightarrow> req_admit c (es_ledger s i) r = None \<Longrightarrow>
    MemStore_Append (es_store s) (l_applied (es_ledger s i)) (req_record r) = Inr st' \<Longrightarrow>
    eco_step c s (s\<lparr>es_store := st', es_ledger := (es_ledger s)(i := req_apply (es_ledger s i) r),
                    es_pc := (es_pc s)(i := Idle)\<rparr>)"
| conflict: "es_pc s i = Trying r \<Longrightarrow> req_admit c (es_ledger s i) r = None \<Longrightarrow>
    MemStore_Append (es_store s) (l_applied (es_ledger s i)) (req_record r) = Inl ErrConflict \<Longrightarrow>
    eco_step c s (s\<lparr>es_pc := (es_pc s)(i := Conflicted r)\<rparr>)"
| caught_up: "es_pc s i = Conflicted r \<Longrightarrow> catchUp c (es_ledger s i) (es_store s) = (l', None) \<Longrightarrow>
    eco_step c s (s\<lparr>es_ledger := (es_ledger s)(i := l'), es_pc := (es_pc s)(i := Trying r)\<rparr>)"
| catch_failed: "es_pc s i = Conflicted r \<Longrightarrow> catchUp c (es_ledger s i) (es_store s) = (l', Some e) \<Longrightarrow>
    eco_step c s (s\<lparr>es_ledger := (es_ledger s)(i := l'), es_pc := (es_pc s)(i := Idle)\<rparr>)"

text \<open>The ledgers were opened over the store, possibly at different times, before any call.\<close>

definition eco_start :: "crypto \<Rightarrow> genesis \<Rightarrow> (account_id \<Rightarrow> bytes option) \<Rightarrow> eco_sys \<Rightarrow> bool" where
  "eco_start c g dir s \<longleftrightarrow> store_ok c g dir (es_store s) \<and>
     (\<forall>i. follows c g dir (es_ledger s i) (es_store s) \<and> es_pc s i = Idle)"

inductive eco_reach :: "crypto \<Rightarrow> genesis \<Rightarrow> (account_id \<Rightarrow> bytes option) \<Rightarrow> eco_sys \<Rightarrow> bool"
  for c g dir where
  reach_start: "eco_start c g dir s \<Longrightarrow> eco_reach c g dir s"
| reach_step: "eco_reach c g dir s \<Longrightarrow> eco_step c s t \<Longrightarrow> eco_reach c g dir t"

section \<open>The invariant\<close>

definition eco_inv :: "crypto \<Rightarrow> genesis \<Rightarrow> (account_id \<Rightarrow> bytes option) \<Rightarrow> eco_sys \<Rightarrow> bool" where
  "eco_inv c g dir s \<longleftrightarrow> store_ok c g dir (es_store s) \<and>
     (\<forall>i. follows c g dir (es_ledger s i) (es_store s))"

lemma req_admit_replay:
  "req_admit c l r = None \<Longrightarrow> replay c l (req_record r) = Inr (req_apply l r)"
  by (cases r) (simp_all add: replay_def Let_def)

lemma catchUp_of_follows:
  assumes "store_ok c g dir st" "follows c g dir l st"
  shows "\<exists>L. catchUp c l st = (L, None) \<and> follows c g dir L st"
  using assms catchUp_ok run_replay_follows unfolding store_ok_def by blast

lemma commit_follows:
  assumes "MemStore_Append st (l_applied l) (req_record r) = Inr st'"
    and "req_admit c l r = None" and "follows c g dir l st"
  shows "st' = st @ [req_record r] \<and> follows c g dir (req_apply l r) st' \<and> store_ok c g dir st'"
proof -
  have full: "l_applied l = length st" and st': "st' = st @ [req_record r]"
    using assms(1) by (simp_all add: MemStore_Append_cases split: if_splits)
  have step: "replay c l (req_record r) = Inr (req_apply l r)"
    using req_admit_replay [OF assms(2)] .
  have f: "follows c g dir (req_apply l r) st'"
    unfolding st' by (rule follows_step [OF assms(3) full step])
  moreover have "l_applied (req_apply l r) = length st'"
    using replay_applied [OF step] full st' by simp
  ultimately show ?thesis using st' follows_ok by blast
qed

lemma eco_step_inv: "eco_step c s t \<Longrightarrow> eco_inv c g dir s \<Longrightarrow> eco_inv c g dir t"
proof (induction rule: eco_step.induct)
  case (commit s i r st')
  then have "follows c g dir (es_ledger s i) (es_store s)" by (simp add: eco_inv_def)
  with commit commit_follows [of "es_store s" "es_ledger s i" r st' c g dir]
  show ?case by (auto simp: eco_inv_def follows_append)
next
  case (caught_up s i r l')
  then show ?case
    using catchUp_of_follows [of c g dir "es_store s" "es_ledger s i"] by (auto simp: eco_inv_def)
next
  case (catch_failed s i r l' e)
  then show ?case
    using catchUp_of_follows [of c g dir "es_store s" "es_ledger s i"] by (auto simp: eco_inv_def)
qed (auto simp: eco_inv_def)

lemma eco_reach_inv: "eco_reach c g dir s \<Longrightarrow> eco_inv c g dir s"
proof (induction rule: eco_reach.induct)
  case (reach_start s)
  then show ?case by (simp add: eco_start_def eco_inv_def)
next
  case (reach_step s t)
  then show ?case by (blast intro: eco_step_inv)
qed

lemma eco_step_appends: "eco_step c s t \<Longrightarrow> \<exists>rs. es_store t = es_store s @ rs"
  by (induction rule: eco_step.induct) (auto simp: MemStore_Append_cases split: if_splits)

section \<open>Nonces and versions along the store\<close>

text \<open>The ledger's nonce and version bound those of every record it has folded.\<close>

definition nonces_bound :: "ledger \<Rightarrow> store \<Rightarrow> bool" where
  "nonces_bound l st \<longleftrightarrow>
     (\<forall>s. RSpend s \<in> set st \<longrightarrow> sp_Nonce s \<le> map_get (l_nonces l) (sp_From s) 0) \<and>
     (\<forall>p. RPolicy p \<in> set st \<longrightarrow> pc_Version p \<le> l_version l)"

fun strictly_after :: "ledger_record \<Rightarrow> ledger_record \<Rightarrow> bool" where
  "strictly_after (RSpend s) (RSpend t) \<longleftrightarrow> (sp_From s = sp_From t \<longrightarrow> sp_Nonce s < sp_Nonce t)"
| "strictly_after (RPolicy p) (RPolicy q) \<longleftrightarrow> pc_Version p < pc_Version q"
| "strictly_after r r' \<longleftrightarrow> True"

lemma nonces_bound_step:
  assumes "nonces_bound l st" and "replay c l r = Inr l'"
  shows "nonces_bound l' (st @ [r]) \<and> (\<forall>q \<in> set st. strictly_after q r)"
  using assms(2)
proof (cases rule: replay_cases)
  case (spend s)
  have gt: "map_get (l_nonces l) (sp_From s) 0 < sp_Nonce s"
    using admitSpend_checks(5) [OF spend(2)] .
  have "strictly_after q r" if "q \<in> set st" for q
    using assms(1) that gt spend(1) by (cases q) (auto simp: nonces_bound_def intro: le_less_trans)
  moreover have "sp_Nonce t \<le> sp_Nonce s" if "RSpend t \<in> set st" "sp_From t = sp_From s" for t
  proof -
    have "sp_Nonce t \<le> map_get (l_nonces l) (sp_From s) 0"
      using assms(1) that unfolding nonces_bound_def by metis
    then show ?thesis using gt by simp
  qed
  ultimately show ?thesis using assms(1) spend by (auto simp: nonces_bound_def)
next
  case (change p)
  have gt: "l_version l < pc_Version p" using admitPolicyChange_checks(2) [OF change(2)] .
  have "strictly_after q r" if "q \<in> set st" for q
    using assms(1) that gt change(1) by (cases q) (auto simp: nonces_bound_def intro: le_less_trans)
  with assms(1) change gt show ?thesis
    by (auto simp: nonces_bound_def applyPolicyChange_def intro: order.trans less_imp_le)
qed

lemma replay_irreflexive: "replay c l r = Inr l' \<Longrightarrow> \<not> strictly_after r r"
  by (erule replay_cases) simp_all

lemma store_strictly_ordered:
  "run_all (replay c) (newLedger g dir) st = Inr l \<Longrightarrow>
     nonces_bound l st \<and> sorted_wrt strictly_after st \<and> distinct st"
proof (induction st arbitrary: l rule: rev_induct)
  case Nil
  then show ?case by (simp add: nonces_bound_def)
next
  case (snoc r st)
  then obtain l1 where l1: "run_all (replay c) (newLedger g dir) st = Inr l1" "replay c l1 r = Inr l"
    by (auto simp: run_all_snoc)
  with snoc.IH [OF l1(1)] nonces_bound_step [OF _ l1(2)] replay_irreflexive [OF l1(2)] show ?case
    by (auto simp: sorted_wrt_append)
qed

section \<open>Properties\<close>

text \<open>C3: however the calls of any number of ledgers over one store interleave, the store opens
  at every moment, and every ledger is exactly what \<open>Open\<close> gives on the prefix of the store it has
  applied: balances, nonces, policy and version are a function of the shared record, and ledgers
  that have applied the same number of records agree.\<close>

theorem shared_ledgers_agree:
  assumes "Genesis_validate g = None" and "eco_reach c g dir s"
  shows "(\<exists>L. Open c g (Some dir) (Some (es_store s)) = Inr L) \<and>
    (\<forall>i. Open c g (Some dir) (Some (take (l_applied (es_ledger s i)) (es_store s)))
         = Inr (es_ledger s i) \<and> total_balance (es_ledger s i) = 0)"
proof -
  have "total_balance l = 0" if "follows c g dir l st" for l st
    using that run_replay_inv [OF _ assms(1)] by (auto simp: follows_def ledger_inv_def)
  with eco_reach_inv [OF assms(2)] show ?thesis
    by (auto simp: eco_inv_def follows_def store_ok_def Open_run [OF assms(1)])
qed

definition sample_sys :: eco_sys where
  "sample_sys = \<lparr>es_store = [], es_ledger = (\<lambda>_. newLedger sample_genesis sample_dir),
     es_pc = (\<lambda>_. Idle)\<rparr>"

lemma sample_sys_start: "eco_start sample_crypto sample_genesis sample_dir sample_sys"
  by (simp add: eco_start_def sample_sys_def store_ok_def sample_follows)

definition sample_sys_posted :: eco_sys where
  "sample_sys_posted = sample_sys\<lparr>es_store := [RSpend sample_spend],
     es_ledger := (es_ledger sample_sys)(0 := req_apply (newLedger sample_genesis sample_dir) (ReqPost sample_spend)),
     es_pc := (es_pc sample_sys)(0 := Idle)\<rparr>"

lemma sample_sys_reach: "eco_reach sample_crypto sample_genesis sample_dir sample_sys_posted"
proof -
  let ?t = "sample_sys\<lparr>es_pc := (es_pc sample_sys)(0 := Trying (ReqPost sample_spend))\<rparr>"
  have 1: "eco_step sample_crypto sample_sys ?t"
    by (rule eco_step.call) (simp add: sample_sys_def)
  have 2: "eco_step sample_crypto ?t
     (?t\<lparr>es_store := [RSpend sample_spend],
         es_ledger := (es_ledger ?t)(0 := req_apply (es_ledger ?t 0) (ReqPost sample_spend)),
         es_pc := (es_pc ?t)(0 := Idle)\<rparr>)"
    using sample_admits
    by (intro eco_step.commit [where r = "ReqPost sample_spend"])
       (simp_all add: sample_sys_def MemStore_Append_cases newLedger_def)
  have "eco_reach sample_crypto sample_genesis sample_dir
     (?t\<lparr>es_store := [RSpend sample_spend],
         es_ledger := (es_ledger ?t)(0 := req_apply (es_ledger ?t 0) (ReqPost sample_spend)),
         es_pc := (es_pc ?t)(0 := Idle)\<rparr>)"
    using reach_step [OF reach_step [OF reach_start [OF sample_sys_start] 1] 2] .
  then show ?thesis by (simp add: sample_sys_posted_def sample_sys_def)
qed

theorem shared_ledgers_agree_witness:
  "\<exists>L. Open sample_crypto sample_genesis (Some sample_dir) (Some [RSpend sample_spend]) = Inr L"
  using shared_ledgers_agree [OF sample_genesis_valid sample_sys_reach]
  by (simp add: sample_sys_posted_def)

text \<open>C4: a nonce is spent once across all ledgers over a store: in every reachable state the
  spends of one account appear in the store with strictly increasing nonces, policy changes with
  strictly increasing versions, and so no record occurs twice; a lost append race never ends in an
  error of catch-up, and records already stored never change.\<close>

theorem shared_no_double_spend:
  assumes "eco_reach c g dir s"
  shows "sorted_wrt strictly_after (es_store s) \<and> distinct (es_store s) \<and>
    (\<forall>i. snd (catchUp c (es_ledger s i) (es_store s)) = None) \<and>
    (\<forall>t. eco_step c s t \<longrightarrow> (\<exists>rs. es_store t = es_store s @ rs))"
proof -
  from eco_reach_inv [OF assms] obtain L where
    L: "run_all (replay c) (newLedger g dir) (es_store s) = Inr L"
    by (auto simp: eco_inv_def store_ok_def)
  have "sorted_wrt strictly_after (es_store s) \<and> distinct (es_store s)"
    using store_strictly_ordered [OF L] by blast
  moreover have "snd (catchUp c (es_ledger s i) (es_store s)) = None" for i
    using eco_reach_inv [OF assms] catchUp_of_follows [of c g dir "es_store s" "es_ledger s i"]
    by (auto simp: eco_inv_def)
  ultimately show ?thesis using eco_step_appends by blast
qed

theorem shared_no_double_spend_witness:
  "sorted_wrt strictly_after [RSpend sample_spend] \<and> distinct (es_store sample_sys_posted) \<and>
   snd (catchUp sample_crypto (es_ledger sample_sys_posted 1) (es_store sample_sys_posted)) = None"
  using shared_no_double_spend [OF sample_sys_reach] by simp

definition sample_escrow_genesis :: genesis where
  "sample_escrow_genesis = sample_genesis\<lparr>gen_Policy := \<lparr>pol_Mode = ModeEscrow, pol_DebitCap = 10\<rparr>\<rparr>"

text \<open>A ledger that lags behind its store judges a spend against its stale state: here another
  ledger has enacted the switch to credit, a fresh \<open>Open\<close> of the store admits the spend, and the
  lagging ledger's \<open>Post\<close> still refuses it with \<open>ErrCreditDisabled\<close>, since catch-up runs only
  after a lost append.\<close>

theorem stale_ledger_refuses:
  "\<exists>L. Open sample_crypto sample_escrow_genesis (Some sample_dir) (Some [RPolicy sample_change]) = Inr L \<and>
     admitSpend sample_crypto L sample_spend = None \<and>
     Post sample_crypto (Suc (Suc fuel)) (newLedger sample_escrow_genesis sample_dir)
       [RPolicy sample_change] sample_spend
     = Some (newLedger sample_escrow_genesis sample_dir, [RPolicy sample_change], Some ErrCreditDisabled)"
proof -
  let ?l = "newLedger sample_escrow_genesis sample_dir"
  let ?L = "(applyPolicyChange ?l sample_change)\<lparr>l_applied := 1\<rparr>"
  have v: "Genesis_validate sample_escrow_genesis = None"
    by (simp add: sample_escrow_genesis_def sample_genesis_def Genesis_validate_def
        Policy_validate_def validMode_def MaxInt64_def)
  have "PolicyChange_Verify sample_crypto sample_change sample_escrow_genesis"
    using sample_change_verifies
    by (simp add: PolicyChange_Verify_def sample_escrow_genesis_def)
  then have "admitPolicyChange sample_crypto ?l sample_change = None"
    by (simp add: admitPolicyChange_def newLedger_def sample_escrow_genesis_def sample_genesis_def
        sample_change_def Let_def Policy_validate_def validMode_def MaxInt64_def)
  then have "Open sample_crypto sample_escrow_genesis (Some sample_dir) (Some [RPolicy sample_change]) = Inr ?L"
    by (simp add: Open_run [OF v] replay_RPolicy newLedger_def)
  moreover have "admitSpend sample_crypto ?L sample_spend = None"
    using sample_accounts_differ sample_spend_signed
    by (simp add: admitSpend_def newLedger_def sample_genesis_def sample_escrow_genesis_def ModeCredit_def
        ModeEscrow_def MaxInt64_def MinInt64_def PublicKeySize_def applyPolicyChange_def sample_change_def)
  moreover have "admitSpend sample_crypto ?l sample_spend = Some ErrCreditDisabled"
    by (simp add: admitSpend_def newLedger_def sample_escrow_genesis_def)
  ultimately show ?thesis by auto
qed

end
