(* ===== verification/Merkle.thy ===== *)
theory Merkle
  imports Sample
begin

text \<open>
  The Merkle tree of the record layer (\<open>src/internal/record/tree.go\<close>): tree heads, audit paths
  and consistency proofs in the shape of RFC 6962. Sizes and positions in the verifiers are
  \<open>uint64\<close> as in the code, and the split search is the code's shift loop, which does not end when the
  size exceeds \<open>2 ^ 63\<close>; such a result is \<open>None\<close>. The verifiers are related to versions over
  natural numbers (\<open>root_nat\<close>, \<open>cons_nat\<close>), about which soundness and completeness are proved.
\<close>

section \<open>Tree heads and proofs\<close>

definition domainNode :: string where "domainNode = ''drops/node/v1''"

definition node_payload :: "crypto \<Rightarrow> b32 \<Rightarrow> b32 \<Rightarrow> bytes" where
  "node_payload c left right =
     canon_sum c domainNode [CBytes (b32_bytes left), CBytes (b32_bytes right)]"

definition nodeHash :: "crypto \<Rightarrow> b32 \<Rightarrow> b32 \<Rightarrow> b32" where
  "nodeHash c left right = sha256 c (node_payload c left right)"

text \<open>The loop of \<open>largestPow2LT\<close> on 64-bit words, where a shift drops the top bit.\<close>

partial_function (option) pow2_loop :: "u64 \<Rightarrow> u64 \<Rightarrow> u64 option" where
  "pow2_loop k n = (if push_bit 1 k < n then pow2_loop (push_bit 1 k) n else Some k)"

definition largestPow2LT :: "u64 \<Rightarrow> u64 option" where
  "largestPow2LT n = pow2_loop 1 n"

text \<open>The same loop on natural numbers, used where the size is the length of a slice.\<close>

function lp2_loop :: "nat \<Rightarrow> nat \<Rightarrow> nat" where
  "lp2_loop k n = (if 0 < k \<and> 2 * k < n then lp2_loop (2 * k) n else k)"
  by pat_completeness auto
termination
  by (relation "measure (\<lambda>(k, n). n - k)") auto

declare lp2_loop.simps [simp del]

definition lp2 :: "nat \<Rightarrow> nat" where
  "lp2 n = lp2_loop 1 n"

lemma lp2_loop_spec:
  "k = 2 ^ i \<Longrightarrow> k < n \<Longrightarrow> \<exists>j \<ge> i. lp2_loop k n = 2 ^ j \<and> 2 ^ j < n \<and> n \<le> 2 * 2 ^ j"
proof (induction k n arbitrary: i rule: lp2_loop.induct)
  case (1 k n)
  show ?case
  proof (cases "2 * k < n")
    case True
    with "1.prems" have c: "0 < k \<and> 2 * k < n" by simp
    have "2 * k = 2 ^ Suc i" using "1.prems" by simp
    from "1.IH" [OF c this] c obtain j where "j \<ge> Suc i" "lp2_loop (2 * k) n = 2 ^ j"
      "2 ^ j < n" "n \<le> 2 * 2 ^ j" by blast
    then show ?thesis using c by (subst lp2_loop.simps) (auto intro: exI [of _ j])
  next
    case False
    then show ?thesis using "1.prems" by (subst lp2_loop.simps) (auto intro: exI [of _ i])
  qed
qed

lemma lp2_spec: "2 \<le> n \<Longrightarrow> \<exists>j. lp2 n = 2 ^ j \<and> 2 ^ j < n \<and> n \<le> 2 * 2 ^ j"
  using lp2_loop_spec [of 1 0 n] by (auto simp: lp2_def)

lemma lp2_bounds:
  assumes "2 \<le> n"
  shows "0 < lp2 n" "lp2 n < n" "n \<le> 2 * lp2 n"
  using lp2_spec [OF assms] by auto

lemma lp2_less [simp]: "2 \<le> n \<Longrightarrow> lp2 n < n" "2 \<le> n \<Longrightarrow> n - lp2 n < n"
  using lp2_bounds [of n] by auto

text \<open>
  \<open>mth\<close> and \<open>provePath\<close> are called on non-empty slices only (\<open>Log.Checkpoint\<close> and \<open>Log.Prove\<close>
  guard the size); on an empty slice the code's slice expression would panic, here the value is 0.
  A slice length fits an \<open>int\<close>, so the split of a slice is \<open>lp2\<close> of its length.
\<close>

function mth :: "crypto \<Rightarrow> b32 list \<Rightarrow> b32" where
  "mth c leaves =
     (if length leaves < 2 then (case leaves of [] \<Rightarrow> 0 | leaf # _ \<Rightarrow> leaf)
      else let k = lp2 (length leaves) in
        nodeHash c (mth c (take k leaves)) (mth c (drop k leaves)))"
  by pat_completeness auto
termination
  by (relation "measure (\<lambda>(c, leaves). length leaves)")
     (auto simp: not_less)

function provePath :: "crypto \<Rightarrow> nat \<Rightarrow> b32 list \<Rightarrow> b32 list" where
  "provePath c m leaves =
     (if length leaves < 2 then []
      else let k = lp2 (length leaves) in
        if m < k then provePath c m (take k leaves) @ [mth c (drop k leaves)]
        else provePath c (m - k) (drop k leaves) @ [mth c (take k leaves)])"
  by pat_completeness auto
termination
  by (relation "measure (\<lambda>(c, m, leaves). length leaves)")
     (auto simp: not_less)

text \<open>The code requires \<open>0 < m\<close>; then a single leaf is always the case \<open>m = n\<close>.\<close>

function subProof :: "crypto \<Rightarrow> nat \<Rightarrow> b32 list \<Rightarrow> bool \<Rightarrow> b32 list" where
  "subProof c m leaves complete =
     (if m = length leaves then (if complete then [] else [mth c leaves])
      else if length leaves < 2 then []
      else let k = lp2 (length leaves) in
        if m \<le> k then subProof c m (take k leaves) complete @ [mth c (drop k leaves)]
        else subProof c (m - k) (drop k leaves) False @ [mth c (take k leaves)])"
  by pat_completeness auto
termination
  by (relation "measure (\<lambda>(c, m, leaves, complete). length leaves)")
     (auto simp: not_less)

definition proveConsistency :: "crypto \<Rightarrow> nat \<Rightarrow> b32 list \<Rightarrow> b32 list" where
  "proveConsistency c m leaves = subProof c m leaves True"

section \<open>The verifiers\<close>

text \<open>\<open>rootFromPath\<close>: the outer \<open>None\<close> is a run that does not end, the inner one \<open>ok = false\<close>.\<close>

function rootFromPath :: "crypto \<Rightarrow> b32 \<Rightarrow> u64 \<Rightarrow> u64 \<Rightarrow> b32 list \<Rightarrow> b32 option option" where
  "rootFromPath c leaf seq sz path =
     (if sz = 0 \<or> seq \<ge> sz then Some None
      else if sz = 1 then (if path \<noteq> [] then Some None else Some (Some leaf))
      else if path = [] then Some None
      else case largestPow2LT sz of None \<Rightarrow> None | Some k \<Rightarrow>
        if seq < k then
          (case rootFromPath c leaf seq k (butlast path) of
             None \<Rightarrow> None | Some None \<Rightarrow> Some None
           | Some (Some sub) \<Rightarrow> Some (Some (nodeHash c sub (last path))))
        else
          (case rootFromPath c leaf (seq - k) (sz - k) (butlast path) of
             None \<Rightarrow> None | Some None \<Rightarrow> Some None
           | Some (Some sub) \<Rightarrow> Some (Some (nodeHash c (last path) sub))))"
  by pat_completeness auto
termination
  by (relation "measure (\<lambda>(c, leaf, seq, sz, path). length path)") auto

text \<open>\<open>consRoots\<close>: the older and newer heads a proof implies and the unconsumed rest.\<close>

function consRoots ::
  "crypto \<Rightarrow> u64 \<Rightarrow> u64 \<Rightarrow> bool \<Rightarrow> b32 list \<Rightarrow> b32 \<Rightarrow> (b32 \<times> b32 \<times> b32 list) option option" where
  "consRoots c m n complete hs seed =
     (if m = n then
        (if complete then Some (Some (seed, seed, hs))
         else if hs = [] then Some None
         else Some (Some (last hs, last hs, butlast hs)))
      else if m > n \<or> hs = [] then Some None
      else case largestPow2LT n of None \<Rightarrow> None | Some k \<Rightarrow>
        if m \<le> k then
          (case consRoots c m k complete (butlast hs) seed of
             None \<Rightarrow> None | Some None \<Rightarrow> Some None
           | Some (Some (oldR, newR, remaining)) \<Rightarrow>
               Some (Some (oldR, nodeHash c newR (last hs), remaining)))
        else
          (case consRoots c (m - k) (n - k) False (butlast hs) seed of
             None \<Rightarrow> None | Some None \<Rightarrow> Some None
           | Some (Some (oldR, newR, remaining)) \<Rightarrow>
               Some (Some (nodeHash c (last hs) oldR, nodeHash c (last hs) newR, remaining))))"
  by pat_completeness auto
termination
  by (relation "measure (\<lambda>(c, m, n, complete, hs, seed). length hs)") auto

declare mth.simps [simp del] provePath.simps [simp del] subProof.simps [simp del]
  rootFromPath.simps [simp del] consRoots.simps [simp del]

section \<open>The split search\<close>

lemma push_bit_1: "push_bit 1 (w :: u64) = 2 * w"
  by (simp add: push_bit_eq_mult)

lemma pow2_loop_nat:
  "0 < k \<Longrightarrow> k < n \<Longrightarrow> n \<le> 2 ^ 63 \<Longrightarrow>
     pow2_loop (word_of_nat k) (word_of_nat n) = Some (word_of_nat (lp2_loop k n))"
proof (induction k n rule: lp2_loop.induct)
  case (1 k n)
  have dbl: "push_bit 1 (word_of_nat k :: u64) = word_of_nat (2 * k)"
    by (simp add: push_bit_1)
  have lt: "(word_of_nat (2 * k) :: u64) < word_of_nat n \<longleftrightarrow> 2 * k < n"
  proof -
    have "2 * k < 2 ^ 64" "n < 2 ^ 64" using "1.prems" by auto
    then show ?thesis by (simp only: word_less_nat_alt unat_word_of_nat64)
  qed
  show ?case
  proof (cases "2 * k < n")
    case True
    with 1 have IH: "pow2_loop (word_of_nat (2 * k)) (word_of_nat n) = Some (word_of_nat (lp2_loop (2 * k) n))"
      by simp
    have "lp2_loop k n = lp2_loop (2 * k) n" using True "1.prems" by (subst lp2_loop.simps) simp
    with IH True lt show ?thesis by (subst pow2_loop.simps) (simp only: dbl if_True)
  next
    case False
    have "lp2_loop k n = k" using False by (subst lp2_loop.simps) simp
    with False lt show ?thesis by (subst pow2_loop.simps) (simp only: dbl if_False)
  qed
qed

lemma largestPow2LT_nat:
  assumes "2 \<le> unat n" and "unat n \<le> 2 ^ 63"
  shows "largestPow2LT n = Some (word_of_nat (lp2 (unat n)))"
    and "unat (word_of_nat (lp2 (unat n)) :: u64) = lp2 (unat n)"
proof -
  have "pow2_loop (word_of_nat 1) (word_of_nat (unat n)) = Some (word_of_nat (lp2_loop 1 (unat n)))"
    using assms by (intro pow2_loop_nat) auto
  then show "largestPow2LT n = Some (word_of_nat (lp2 (unat n)))"
    by (simp add: largestPow2LT_def lp2_def)
  show "unat (word_of_nat (lp2 (unat n)) :: u64) = lp2 (unat n)"
    using lp2_bounds [OF assms(1)] assms(2) by (intro unat_word_of_nat64) simp
qed

text \<open>Beyond \<open>2 ^ 63\<close> the shifted value drops to zero before it reaches the bound.\<close>

lemma pow2_loop_result:
  assumes "pow2_loop k n = Some r"
  shows "\<exists>j. r = push_bit j k \<and> \<not> push_bit 1 r < n"
proof (rule pow2_loop.raw_induct [where P = "\<lambda>k n r. \<exists>j. r = push_bit j k \<and> \<not> push_bit 1 r < n", OF _ assms])
  fix loop and k n r :: u64
  assume IH: "\<And>k n r. loop k n = Some r \<Longrightarrow> \<exists>j. r = push_bit j k \<and> \<not> push_bit 1 r < n"
    and eq: "(if push_bit 1 k < n then loop (push_bit 1 k) n else Some k) = Some r"
  show "\<exists>j. r = push_bit j k \<and> \<not> push_bit 1 r < (n :: u64)"
  proof (cases "push_bit 1 k < n")
    case True
    with eq have "loop (push_bit 1 k) n = Some r" by simp
    from IH [OF this] obtain j where "r = push_bit j (push_bit 1 k)" "\<not> push_bit 1 r < n" by blast
    moreover from this have "r = push_bit (j + 1) k" by (simp only: push_bit_push_bit)
    ultimately show ?thesis by blast
  next
    case False
    with eq have "r = push_bit 0 k \<and> \<not> push_bit 1 r < n" by simp
    then show ?thesis ..
  qed
qed

lemma largestPow2LT_diverges:
  assumes "2 ^ 63 < unat n"
  shows "largestPow2LT n = None"
proof (rule ccontr)
  assume "largestPow2LT n \<noteq> None"
  then obtain r where "pow2_loop 1 n = Some r" by (auto simp: largestPow2LT_def)
  from pow2_loop_result [OF this] obtain j where "\<not> push_bit 1 (push_bit j 1) < n" by blast
  then have ge: "n \<le> (2 :: u64) ^ (j + 1)"
    by (simp add: push_bit_push_bit push_bit_eq_mult not_less mult.commute)
  show False
  proof (cases "j + 1 < 64")
    case True
    then have le: "(2 :: nat) ^ (j + 1) \<le> 2 ^ 63" by (intro power_increasing) auto
    have "unat (word_of_nat (2 ^ (j + 1)) :: u64) = 2 ^ (j + 1)"
      using le by (intro unat_word_of_nat64) simp
    then have "unat ((2 :: u64) ^ (j + 1)) = 2 ^ (j + 1)" by simp
    with ge le assms show False by (simp only: word_le_nat_alt)
  next
    case False
    then have "(2 :: u64) ^ (j + 1) = 0" by (simp only: exp_eq_zero_iff) simp
    with ge assms show False by simp
  qed
qed

section \<open>The verifiers over natural numbers\<close>

function root_nat :: "crypto \<Rightarrow> b32 \<Rightarrow> nat \<Rightarrow> nat \<Rightarrow> b32 list \<Rightarrow> b32 option" where
  "root_nat c leaf seq sz path =
     (if sz \<le> seq then None
      else if sz = 1 then (if path \<noteq> [] then None else Some leaf)
      else if path = [] then None
      else let k = lp2 sz in
        if seq < k then map_option (\<lambda>sub. nodeHash c sub (last path)) (root_nat c leaf seq k (butlast path))
        else map_option (\<lambda>sub. nodeHash c (last path) sub)
               (root_nat c leaf (seq - k) (sz - k) (butlast path)))"
  by pat_completeness auto
termination
  by (relation "measure (\<lambda>(c, leaf, seq, sz, path). length path)") auto

function cons_nat ::
  "crypto \<Rightarrow> nat \<Rightarrow> nat \<Rightarrow> bool \<Rightarrow> b32 list \<Rightarrow> b32 \<Rightarrow> (b32 \<times> b32 \<times> b32 list) option" where
  "cons_nat c m n complete hs seed =
     (if m = n then
        (if complete then Some (seed, seed, hs)
         else if hs = [] then None else Some (last hs, last hs, butlast hs))
      else if m > n \<or> hs = [] then None
      else let k = lp2 n in
        if m \<le> k then
          map_option (\<lambda>(oldR, newR, rest). (oldR, nodeHash c newR (last hs), rest))
            (cons_nat c m k complete (butlast hs) seed)
        else
          map_option (\<lambda>(oldR, newR, rest). (nodeHash c (last hs) oldR, nodeHash c (last hs) newR, rest))
            (cons_nat c (m - k) (n - k) False (butlast hs) seed))"
  by pat_completeness auto
termination
  by (relation "measure (\<lambda>(c, m, n, complete, hs, seed). length hs)") auto

declare root_nat.simps [simp del] cons_nat.simps [simp del]

lemma u64_unat:
  fixes a b :: u64
  shows "a = 0 \<longleftrightarrow> unat a = 0" "a = 1 \<longleftrightarrow> unat a = 1" "a = b \<longleftrightarrow> unat a = unat b"
    "a \<le> b \<longleftrightarrow> unat a \<le> unat b" "a < b \<longleftrightarrow> unat a < unat b"
  by (simp_all only: word_unat_eq_iff unat_0 unat_1 word_le_nat_alt word_less_nat_alt)

lemma rootFromPath_nat:
  "unat sz \<le> 2 ^ 63 \<Longrightarrow> rootFromPath c leaf seq sz path = Some (root_nat c leaf (unat seq) (unat sz) path)"
proof (induction path arbitrary: seq sz rule: length_induct)
  case (1 path)
  have un: "sz = 0 \<longleftrightarrow> unat sz = 0" "sz = 1 \<longleftrightarrow> unat sz = 1" "seq \<ge> sz \<longleftrightarrow> unat sz \<le> unat seq"
    by (rule u64_unat)+
  show ?case
  proof (cases "sz = 0 \<or> seq \<ge> sz \<or> sz = 1 \<or> path = []")
    case True
    consider (out) "sz = 0 \<or> seq \<ge> sz" "unat sz \<le> unat seq"
      | (one) "sz \<noteq> 0" "\<not> seq \<ge> sz" "\<not> unat sz \<le> unat seq" "sz = 1" "unat sz = 1"
      | (nopath) "sz \<noteq> 0" "\<not> seq \<ge> sz" "\<not> unat sz \<le> unat seq" "sz \<noteq> 1" "unat sz \<noteq> 1" "path = []"
      using True un le0 by metis
    then show ?thesis
      by cases (simp_all add: rootFromPath.simps [of c leaf seq] root_nat.simps [of c leaf "unat seq"])
  next
    case False
    then have two: "2 \<le> unat sz" and ne: "path \<noteq> []" and lt: "unat seq < unat sz"
      and n1: "unat sz \<noteq> 1" using un by linarith+
    let ?k = "word_of_nat (lp2 (unat sz)) :: u64"
    note k = largestPow2LT_nat [OF two "1.prems"]
    have kb: "lp2 (unat sz) \<le> 2 ^ 63" "unat sz - lp2 (unat sz) \<le> 2 ^ 63"
      using lp2_bounds [OF two] "1.prems" by auto
    have cmp: "seq < ?k \<longleftrightarrow> unat seq < lp2 (unat sz)" by (simp add: word_less_nat_alt k(2))
    have szk: "unat (sz - ?k) = unat sz - lp2 (unat sz)"
      using lp2_bounds(2) [OF two] k(2) by (subst unat_sub) (simp_all add: word_le_nat_alt)
    have sqk: "\<not> seq < ?k \<Longrightarrow> unat (seq - ?k) = unat seq - lp2 (unat sz)"
      using k(2) by (subst unat_sub) (simp_all add: not_less)
    have IHl: "rootFromPath c leaf seq ?k (butlast path) = Some (root_nat c leaf (unat seq) (lp2 (unat sz)) (butlast path))"
      using "1.IH" ne kb k(2) by (metis length_butlast diff_less length_greater_0_conv less_numeral_extra(1))
    have IHr: "rootFromPath c leaf (seq - ?k) (sz - ?k) (butlast path)
        = Some (root_nat c leaf (unat (seq - ?k)) (unat (sz - ?k)) (butlast path))"
      using "1.IH" ne kb szk by (metis length_butlast diff_less length_greater_0_conv less_numeral_extra(1))
    have "rootFromPath c leaf seq sz path = (if seq < ?k then
          (case rootFromPath c leaf seq ?k (butlast path) of
             None \<Rightarrow> None | Some None \<Rightarrow> Some None
           | Some (Some sub) \<Rightarrow> Some (Some (nodeHash c sub (last path))))
        else
          (case rootFromPath c leaf (seq - ?k) (sz - ?k) (butlast path) of
             None \<Rightarrow> None | Some None \<Rightarrow> Some None
           | Some (Some sub) \<Rightarrow> Some (Some (nodeHash c (last path) sub))))"
      using False k(1) rootFromPath.simps [of c leaf seq sz path] by simp
    moreover have "root_nat c leaf (unat seq) (unat sz) path = (if unat seq < lp2 (unat sz)
        then map_option (\<lambda>sub. nodeHash c sub (last path)) (root_nat c leaf (unat seq) (lp2 (unat sz)) (butlast path))
        else map_option (\<lambda>sub. nodeHash c (last path) sub)
               (root_nat c leaf (unat seq - lp2 (unat sz)) (unat sz - lp2 (unat sz)) (butlast path)))"
      using lt n1 ne root_nat.simps [of c leaf "unat seq" "unat sz" path] by (simp add: Let_def)
    ultimately show ?thesis
      using IHl IHr cmp szk sqk by (simp split: option.splits)
  qed
qed

lemma consRoots_nat:
  "unat n \<le> 2 ^ 63 \<Longrightarrow> 0 < unat m \<Longrightarrow>
     consRoots c m n complete hs seed = Some (cons_nat c (unat m) (unat n) complete hs seed)"
proof (induction hs arbitrary: m n complete rule: length_induct)
  case (1 hs)
  have un: "m = n \<longleftrightarrow> unat m = unat n" "m > n \<longleftrightarrow> unat n < unat m"
    by (rule u64_unat)+
  show ?case
  proof (cases "m = n \<or> m > n \<or> hs = []")
    case True
    then consider (same) "m = n" "unat m = unat n" | (gt) "m \<noteq> n" "unat m \<noteq> unat n" "m > n" "unat n < unat m"
      | (nil) "m \<noteq> n" "unat m \<noteq> unat n" "hs = []" using un by metis
    then show ?thesis
      by cases (simp_all add: consRoots.simps [of c _ n] cons_nat.simps [of c _ "unat n"])
  next
    case False
    then have lt: "unat m < unat n" and ne: "hs \<noteq> []" using un by linarith+
    then have two: "2 \<le> unat n" using "1.prems"(2) by simp
    let ?k = "word_of_nat (lp2 (unat n)) :: u64"
    note k = largestPow2LT_nat [OF two "1.prems"(1)]
    have kb: "lp2 (unat n) \<le> 2 ^ 63" "unat n - lp2 (unat n) \<le> 2 ^ 63"
      using lp2_bounds [OF two] "1.prems" by auto
    have cmp: "m \<le> ?k \<longleftrightarrow> unat m \<le> lp2 (unat n)" by (simp add: word_le_nat_alt k(2))
    have nk: "unat (n - ?k) = unat n - lp2 (unat n)"
      using lp2_bounds(2) [OF two] k(2) by (subst unat_sub) (simp_all add: word_le_nat_alt)
    have mk: "\<not> m \<le> ?k \<Longrightarrow> unat (m - ?k) = unat m - lp2 (unat n)"
      using k(2) by (subst unat_sub) (simp_all add: not_le less_imp_le)
    have len: "length (butlast hs) < length hs" using ne by simp
    have IHl: "consRoots c m ?k b (butlast hs) seed = Some (cons_nat c (unat m) (lp2 (unat n)) b (butlast hs) seed)" for b
      using "1.IH" len kb k(2) "1.prems"(2) by metis
    have IHr: "\<not> m \<le> ?k \<Longrightarrow> consRoots c (m - ?k) (n - ?k) False (butlast hs) seed
        = Some (cons_nat c (unat m - lp2 (unat n)) (unat n - lp2 (unat n)) False (butlast hs) seed)"
      using "1.IH" len kb nk mk cmp by (metis not_le zero_less_diff)
    have l: "consRoots c m n complete hs seed = (if m \<le> ?k then
          (case consRoots c m ?k complete (butlast hs) seed of
             None \<Rightarrow> None | Some None \<Rightarrow> Some None
           | Some (Some (oldR, newR, remaining)) \<Rightarrow>
               Some (Some (oldR, nodeHash c newR (last hs), remaining)))
        else
          (case consRoots c (m - ?k) (n - ?k) False (butlast hs) seed of
             None \<Rightarrow> None | Some None \<Rightarrow> Some None
           | Some (Some (oldR, newR, remaining)) \<Rightarrow>
               Some (Some (nodeHash c (last hs) oldR, nodeHash c (last hs) newR, remaining))))"
      using False k(1) consRoots.simps [of c m n complete hs seed] by simp
    have r: "cons_nat c (unat m) (unat n) complete hs seed = (if unat m \<le> lp2 (unat n) then
          map_option (\<lambda>(oldR, newR, rest). (oldR, nodeHash c newR (last hs), rest))
            (cons_nat c (unat m) (lp2 (unat n)) complete (butlast hs) seed)
        else
          map_option (\<lambda>(oldR, newR, rest). (nodeHash c (last hs) oldR, nodeHash c (last hs) newR, rest))
            (cons_nat c (unat m - lp2 (unat n)) (unat n - lp2 (unat n)) False (butlast hs) seed))"
      using lt ne cons_nat.simps [of c "unat m" "unat n" complete hs seed] by (simp add: Let_def)
    show ?thesis
      unfolding l r using IHl IHr cmp by (simp split: option.splits)
  qed
qed

section \<open>Completeness: what the prover computes the verifier accepts\<close>

lemma mth_split:
  "2 \<le> length leaves \<Longrightarrow> mth c leaves =
     nodeHash c (mth c (take (lp2 (length leaves)) leaves)) (mth c (drop (lp2 (length leaves)) leaves))"
  by (subst mth.simps) (simp add: Let_def)

lemma mth_single [simp]: "mth c [leaf] = leaf"
  by (subst mth.simps) simp

lemma root_nat_provePath:
  "m < length leaves \<Longrightarrow> root_nat c (leaves ! m) m (length leaves) (provePath c m leaves) = Some (mth c leaves)"
proof (induction c m leaves rule: provePath.induct)
  case (1 c m leaves)
  show ?case
  proof (cases "length leaves < 2")
    case True
    with "1.prems" have "length leaves = 1" "m = 0" by auto
    then obtain leaf where "leaves = [leaf]" "m = 0" by (cases leaves) auto
    then show ?thesis by (simp add: provePath.simps root_nat.simps)
  next
    case two: False
    then have n: "2 \<le> length leaves" by simp
    let ?k = "lp2 (length leaves)"
    note kb = lp2_bounds [OF n]
    show ?thesis
    proof (cases "m < ?k")
      case True
      have "root_nat c (take ?k leaves ! m) m (length (take ?k leaves)) (provePath c m (take ?k leaves))
          = Some (mth c (take ?k leaves))"
        using "1.IH"(1) [OF two refl True] True kb by simp
      then show ?thesis
        using True kb n "1.prems" provePath.simps [of c m leaves]
        by (subst root_nat.simps) (simp add: Let_def min_absorb2 mth_split)
    next
      case False
      have "root_nat c (drop ?k leaves ! (m - ?k)) (m - ?k) (length (drop ?k leaves)) (provePath c (m - ?k) (drop ?k leaves))
          = Some (mth c (drop ?k leaves))"
        using "1.IH"(2) [OF two refl False] False kb "1.prems" by simp
      then show ?thesis
        using False kb n "1.prems" provePath.simps [of c m leaves]
        by (subst root_nat.simps) (simp add: Let_def mth_split)
    qed
  qed
qed

text \<open>The split of the old size agrees with the split of the new one once it is passed.\<close>

lemma lp2_unique:
  assumes "lp2 n < m" "m \<le> n" "2 \<le> n"
  shows "lp2 m = lp2 n"
proof -
  obtain j where j: "lp2 n = 2 ^ j" "2 ^ j < n" "n \<le> 2 * 2 ^ j" using lp2_spec [OF assms(3)] by auto
  have "2 \<le> m" using assms(1) j(1) by (cases "m = 1") auto
  then obtain i where i: "lp2 m = 2 ^ i" "2 ^ i < m" "m \<le> 2 * 2 ^ i" using lp2_spec by blast
  have "(2 :: nat) ^ i < 2 ^ Suc j" "(2 :: nat) ^ j < 2 ^ Suc i"
    using i j assms by simp_all
  then have "i < Suc j" "j < Suc i" by (simp_all only: power_strict_increasing_iff)
  then show ?thesis using i(1) j(1) by simp
qed

lemma mth_prefix_split:
  assumes "lp2 (length leaves) < m" "m \<le> length leaves" "2 \<le> length leaves"
  shows "mth c (take m leaves) =
    nodeHash c (mth c (take (lp2 (length leaves)) leaves))
      (mth c (take (m - lp2 (length leaves)) (drop (lp2 (length leaves)) leaves)))"
proof -
  have len: "length (take m leaves) = m" using assms by simp
  have k: "lp2 m = lp2 (length leaves)" by (rule lp2_unique [OF assms])
  have "2 \<le> m" using assms(1) lp2_bounds(1) [OF assms(3)] by simp
  then have "mth c (take m leaves) = nodeHash c (mth c (take (lp2 m) (take m leaves))) (mth c (drop (lp2 m) (take m leaves)))"
    using mth_split [of "take m leaves" c] len by simp
  then show ?thesis using assms k by (simp add: drop_take min_absorb1)
qed

lemma cons_nat_subProof:
  "0 < m \<Longrightarrow> m \<le> length leaves \<Longrightarrow> (complete \<Longrightarrow> seed = mth c (take m leaves)) \<Longrightarrow>
     cons_nat c m (length leaves) complete (pre @ subProof c m leaves complete) seed =
       Some (mth c (take m leaves), mth c leaves, pre)"
proof (induction c m leaves complete rule: subProof.induct)
  case (1 c m leaves complete)
  show ?case
  proof (cases "m = length leaves")
    case True
    then show ?thesis using "1.prems"
      by (simp add: subProof.simps [of c "length leaves"] cons_nat.simps [of c "length leaves"])
  next
    case neq: False
    then have n: "2 \<le> length leaves" and two: "\<not> length leaves < 2" using "1.prems" by auto
    let ?k = "lp2 (length leaves)"
    note kb = lp2_bounds [OF n]
    have lt: "m < length leaves" using neq "1.prems" by simp
    show ?thesis
    proof (cases "m \<le> ?k")
      case True
      have "cons_nat c m (length (take ?k leaves)) complete (pre @ subProof c m (take ?k leaves) complete) seed
          = Some (mth c (take m (take ?k leaves)), mth c (take ?k leaves), pre)"
        using "1.IH"(1) [OF neq two refl True] True kb "1.prems" by (simp add: min_absorb1)
      then show ?thesis
        using True kb n lt subProof.simps [of c m leaves complete]
        by (subst cons_nat.simps)
           (simp add: Let_def min_absorb1 min_absorb2 mth_split butlast_append)
    next
      case False
      have "cons_nat c (m - ?k) (length (drop ?k leaves)) False (pre @ subProof c (m - ?k) (drop ?k leaves) False) seed
          = Some (mth c (take (m - ?k) (drop ?k leaves)), mth c (drop ?k leaves), pre)"
        using "1.IH"(2) [OF neq two refl False] False kb "1.prems" by simp
      then show ?thesis
        using False kb n lt subProof.simps [of c m leaves complete] mth_prefix_split [of leaves m c]
        by (subst cons_nat.simps)
           (simp add: Let_def mth_split butlast_append)
    qed
  qed
qed

lemma provePath_length: "length leaves \<le> 2 ^ j \<Longrightarrow> length (provePath c m leaves) \<le> j"
proof (induction c m leaves arbitrary: j rule: provePath.induct)
  case (1 c m leaves)
  show ?case
  proof (cases "length leaves < 2")
    case True
    then show ?thesis by (simp add: provePath.simps)
  next
    case two: False
    then have n: "2 \<le> length leaves" by simp
    let ?k = "lp2 (length leaves)"
    note kb = lp2_bounds [OF n]
    obtain i where i: "?k = 2 ^ i" "2 ^ i < length leaves" using lp2_spec [OF n] by auto
    have "(2 :: nat) ^ i < 2 ^ j" using i(2) "1.prems" by (rule less_le_trans)
    then have "i < j" by (simp only: power_strict_increasing_iff)
    then obtain j' where j': "j = Suc j'" "i \<le> j'" by (cases j) auto
    then have "?k \<le> 2 ^ j'" using i by (simp add: power_increasing)
    then have kl: "length (take ?k leaves) \<le> 2 ^ j'" "length (drop ?k leaves) \<le> 2 ^ j'"
      using kb by simp_all
    show ?thesis
    proof (cases "m < ?k")
      case True
      with "1.IH"(1) [OF two refl True kl(1)] j' two show ?thesis
        by (subst provePath.simps) (simp add: Let_def)
    next
      case False
      with "1.IH"(2) [OF two refl False kl(2)] j' two show ?thesis
        by (subst provePath.simps) (simp add: Let_def)
    qed
  qed
qed

section \<open>Soundness: what the verifier accepts the tree contains\<close>

text \<open>
  The payloads hashed for a tree head, for a recomputed root and for the newer root of a
  consistency proof. The hypothesis on the hash is that it separates these finitely many payloads.
\<close>

function mth_pre :: "crypto \<Rightarrow> b32 list \<Rightarrow> bytes list" where
  "mth_pre c leaves =
     (if length leaves < 2 then []
      else let k = lp2 (length leaves) in
        node_payload c (mth c (take k leaves)) (mth c (drop k leaves)) #
        mth_pre c (take k leaves) @ mth_pre c (drop k leaves))"
  by pat_completeness auto
termination
  by (relation "measure (\<lambda>(c, leaves). length leaves)") (auto simp: not_less)

function root_pre :: "crypto \<Rightarrow> b32 \<Rightarrow> nat \<Rightarrow> nat \<Rightarrow> b32 list \<Rightarrow> bytes list" where
  "root_pre c leaf seq sz path =
     (if path = [] then []
      else let k = lp2 sz in
        if seq < k then
          (case root_nat c leaf seq k (butlast path) of None \<Rightarrow> []
           | Some sub \<Rightarrow> [node_payload c sub (last path)]) @ root_pre c leaf seq k (butlast path)
        else
          (case root_nat c leaf (seq - k) (sz - k) (butlast path) of None \<Rightarrow> []
           | Some sub \<Rightarrow> [node_payload c (last path) sub]) @ root_pre c leaf (seq - k) (sz - k) (butlast path))"
  by pat_completeness auto
termination
  by (relation "measure (\<lambda>(c, leaf, seq, sz, path). length path)") auto

function cons_pre :: "crypto \<Rightarrow> nat \<Rightarrow> nat \<Rightarrow> bool \<Rightarrow> b32 list \<Rightarrow> b32 \<Rightarrow> bytes list" where
  "cons_pre c m n complete hs seed =
     (if m = n \<or> hs = [] then []
      else let k = lp2 n in
        if m \<le> k then
          (case cons_nat c m k complete (butlast hs) seed of None \<Rightarrow> []
           | Some (oldR, newR, rest) \<Rightarrow> [node_payload c newR (last hs)]) @ cons_pre c m k complete (butlast hs) seed
        else
          (case cons_nat c (m - k) (n - k) False (butlast hs) seed of None \<Rightarrow> []
           | Some (oldR, newR, rest) \<Rightarrow> [node_payload c (last hs) newR]) @
          cons_pre c (m - k) (n - k) False (butlast hs) seed)"
  by pat_completeness auto
termination
  by (relation "measure (\<lambda>(c, m, n, complete, hs, seed). length hs)") auto

declare mth_pre.simps [simp del] root_pre.simps [simp del] cons_pre.simps [simp del]

lemma nodeHash_inject:
  assumes "canon_laws c" "collision_free c ps" "node_payload c a b \<in> set ps" "node_payload c a' b' \<in> set ps"
    and "nodeHash c a b = nodeHash c a' b'"
  shows "a = a'" "b = b'"
proof -
  have "node_payload c a b = node_payload c a' b'"
    using assms(2-5) by (auto simp: nodeHash_def dest: collision_freeD)
  then have "[b32_bytes a, b32_bytes b] = [b32_bytes a', b32_bytes b']"
    by (intro canon_bytesD [OF assms(1)]) (simp_all add: node_payload_def)
  then show "a = a'" "b = b'" by simp_all
qed

lemma mth_pre_split:
  assumes "2 \<le> length leaves"
  shows "node_payload c (mth c (take (lp2 (length leaves)) leaves)) (mth c (drop (lp2 (length leaves)) leaves))
      \<in> set (mth_pre c leaves)"
    and "set (mth_pre c (take (lp2 (length leaves)) leaves)) \<subseteq> set (mth_pre c leaves)"
    and "set (mth_pre c (drop (lp2 (length leaves)) leaves)) \<subseteq> set (mth_pre c leaves)"
  using assms mth_pre.simps [of c leaves] by (auto simp: Let_def)

lemma mth_inject:
  assumes "canon_laws c"
  shows "length xs = length ys \<Longrightarrow> xs \<noteq> [] \<Longrightarrow> mth c xs = mth c ys \<Longrightarrow>
     collision_free c ps \<Longrightarrow> set (mth_pre c xs) \<subseteq> set ps \<Longrightarrow> set (mth_pre c ys) \<subseteq> set ps \<Longrightarrow> xs = ys"
proof (induction "length xs" arbitrary: xs ys rule: less_induct)
  case less
  show ?case
  proof (cases "length xs < 2")
    case True
    with less.prems(1,2) obtain x y where "xs = [x]" "ys = [y]"
      by (cases xs; cases ys) auto
    with less.prems(3) show ?thesis by simp
  next
    case False
    then have nx: "2 \<le> length xs" and ny: "2 \<le> length ys" using less.prems(1) by auto
    let ?k = "lp2 (length xs)"
    note kb = lp2_bounds [OF nx]
    note px = mth_pre_split [OF nx, of c]
    note py = mth_pre_split [OF ny, of c, folded less.prems(1)]
    have "nodeHash c (mth c (take ?k xs)) (mth c (drop ?k xs)) = nodeHash c (mth c (take ?k ys)) (mth c (drop ?k ys))"
      using less.prems(1,3) nx ny by (simp add: mth_split)
    note eqs = nodeHash_inject [OF assms less.prems(4) subsetD [OF less.prems(5) px(1)]
        subsetD [OF less.prems(6) py(1)] this]
    have "length (take ?k xs) < length xs" "length (drop ?k xs) < length xs"
      "take ?k xs \<noteq> []" "drop ?k xs \<noteq> []" using kb by auto
    note IH = less.hyps [OF this(1) _ this(3) eqs(1) less.prems(4)] less.hyps [OF this(2) _ this(4) eqs(2) less.prems(4)]
    have "take ?k xs = take ?k ys"
      using less.prems(1) by (intro IH(1) subset_trans [OF px(2) less.prems(5)] subset_trans [OF py(2) less.prems(6)]) simp
    moreover have "drop ?k xs = drop ?k ys"
      using less.prems(1) by (intro IH(2) subset_trans [OF px(3) less.prems(5)] subset_trans [OF py(3) less.prems(6)]) simp
    ultimately show ?thesis by (metis append_take_drop_id)
  qed
qed

lemma root_nat_sound:
  assumes "canon_laws c" "collision_free c ps"
  shows "root_nat c leaf seq (length leaves) path = Some (mth c leaves) \<Longrightarrow>
     set (mth_pre c leaves) \<subseteq> set ps \<Longrightarrow> set (root_pre c leaf seq (length leaves) path) \<subseteq> set ps \<Longrightarrow>
     seq < length leaves \<and> leaf = leaves ! seq \<and> path = provePath c seq leaves"
proof (induction path arbitrary: seq leaves rule: length_induct)
  case (1 path)
  from "1.prems"(1) have lt: "seq < length leaves"
    by (subst (asm) root_nat.simps) (simp split: if_splits)
  show ?case
  proof (cases "length leaves = 1")
    case True
    then obtain l where "leaves = [l]" by (cases leaves) auto
    then show ?thesis using "1.prems"(1) lt
      by (subst (asm) root_nat.simps) (simp add: provePath.simps split: if_splits)
  next
    case False
    then have n: "2 \<le> length leaves" using lt by simp
    let ?k = "lp2 (length leaves)"
    note kb = lp2_bounds [OF n]
    note pm = mth_pre_split [OF n, of c]
    from "1.prems"(1) False lt have ne: "path \<noteq> []"
      by (subst (asm) root_nat.simps) (simp split: if_splits)
    then have len: "length (butlast path) < length path" by simp
    have eq: "(if seq < ?k then map_option (\<lambda>sub. nodeHash c sub (last path)) (root_nat c leaf seq ?k (butlast path))
        else map_option (\<lambda>sub. nodeHash c (last path) sub) (root_nat c leaf (seq - ?k) (length leaves - ?k) (butlast path)))
      = Some (nodeHash c (mth c (take ?k leaves)) (mth c (drop ?k leaves)))"
      using "1.prems"(1) False lt ne n root_nat.simps [of c leaf seq "length leaves" path]
      by (simp add: Let_def mth_split)
    show ?thesis
    proof (cases "seq < ?k")
      case True
      with eq obtain sub where sub: "root_nat c leaf seq ?k (butlast path) = Some sub"
        "nodeHash c sub (last path) = nodeHash c (mth c (take ?k leaves)) (mth c (drop ?k leaves))"
        by auto
      have pr: "node_payload c sub (last path) \<in> set ps" "set (root_pre c leaf seq ?k (butlast path)) \<subseteq> set ps"
        using "1.prems"(3) True sub(1) ne root_pre.simps [of c leaf seq "length leaves" path] by (auto simp: Let_def)
      have inj: "sub = mth c (take ?k leaves)" "last path = mth c (drop ?k leaves)"
        using nodeHash_inject [OF assms pr(1) _ sub(2)] pm(1) "1.prems"(2) by auto
      have "leaf = take ?k leaves ! seq \<and> butlast path = provePath c seq (take ?k leaves)"
        using "1.IH" [rule_format, OF len, of seq "take ?k leaves"] sub(1) inj(1) pr(2) pm(2) "1.prems"(2) kb
        by (simp add: min_absorb2)
      then show ?thesis
        using True lt ne inj(2) provePath.simps [of c seq leaves] n append_butlast_last_id [OF ne]
        by (simp add: Let_def)
    next
      case nlt: False
      with eq obtain sub where sub: "root_nat c leaf (seq - ?k) (length leaves - ?k) (butlast path) = Some sub"
        "nodeHash c (last path) sub = nodeHash c (mth c (take ?k leaves)) (mth c (drop ?k leaves))"
        by auto
      have pr: "node_payload c (last path) sub \<in> set ps"
        "set (root_pre c leaf (seq - ?k) (length leaves - ?k) (butlast path)) \<subseteq> set ps"
        using "1.prems"(3) nlt sub(1) ne root_pre.simps [of c leaf seq "length leaves" path] by (auto simp: Let_def)
      have inj: "last path = mth c (take ?k leaves)" "sub = mth c (drop ?k leaves)"
        using nodeHash_inject [OF assms pr(1) _ sub(2)] pm(1) "1.prems"(2) by auto
      have "leaf = drop ?k leaves ! (seq - ?k) \<and> butlast path = provePath c (seq - ?k) (drop ?k leaves)"
        using "1.IH" [rule_format, OF len, of "seq - ?k" "drop ?k leaves"] sub(1) inj(2) pr(2) pm(3) "1.prems"(2)
        by simp
      then show ?thesis
        using nlt lt ne inj(1) provePath.simps [of c seq leaves] n kb append_butlast_last_id [OF ne]
        by (simp add: Let_def)
    qed
  qed
qed

lemma cons_nat_sound:
  assumes "canon_laws c" "collision_free c ps"
  shows "cons_nat c m (length leaves) complete hs seed = Some (oldR, mth c leaves, rest) \<Longrightarrow> 0 < m \<Longrightarrow>
     set (mth_pre c leaves) \<subseteq> set ps \<Longrightarrow> set (cons_pre c m (length leaves) complete hs seed) \<subseteq> set ps \<Longrightarrow>
     m \<le> length leaves \<and> oldR = mth c (take m leaves)"
proof (induction hs arbitrary: m leaves complete oldR rest rule: length_induct)
  case (1 hs)
  show ?case
  proof (cases "m = length leaves")
    case True
    with "1.prems"(1) have "oldR = mth c leaves"
      by (subst (asm) cons_nat.simps) (auto split: if_splits)
    with True show ?thesis by simp
  next
    case neq: False
    with "1.prems"(1) have lt: "m < length leaves" and ne: "hs \<noteq> []"
      by (subst (asm) cons_nat.simps, simp split: if_splits)+
    then have n: "2 \<le> length leaves" using "1.prems"(2) by simp
    let ?k = "lp2 (length leaves)"
    note kb = lp2_bounds [OF n]
    note pm = mth_pre_split [OF n, of c]
    have len: "length (butlast hs) < length hs" using ne by simp
    show ?thesis
    proof (cases "m \<le> ?k")
      case True
      with "1.prems"(1) neq lt ne obtain newR where
        sub: "cons_nat c m ?k complete (butlast hs) seed = Some (oldR, newR, rest)"
        "nodeHash c newR (last hs) = nodeHash c (mth c (take ?k leaves)) (mth c (drop ?k leaves))"
        by (subst (asm) cons_nat.simps) (auto simp: Let_def mth_split n)
      have pr: "node_payload c newR (last hs) \<in> set ps" "set (cons_pre c m ?k complete (butlast hs) seed) \<subseteq> set ps"
        using "1.prems"(4) neq True sub(1) ne cons_pre.simps [of c m "length leaves" complete hs seed]
        by (auto simp: Let_def)
      have "newR = mth c (take ?k leaves)"
        using nodeHash_inject(1) [OF assms pr(1) _ sub(2)] pm(1) "1.prems"(3) by auto
      then have "oldR = mth c (take m (take ?k leaves))"
        using "1.IH" [rule_format, OF len, of m "take ?k leaves" complete oldR rest]
          sub(1) pr(2) pm(2) "1.prems"(2,3) kb True
        by (simp add: min_absorb1)
      then show ?thesis using True lt by (simp add: min_absorb1)
    next
      case nle: False
      with "1.prems"(1) neq lt ne obtain oldS newS where
        sub: "cons_nat c (m - ?k) (length leaves - ?k) False (butlast hs) seed = Some (oldS, newS, rest)"
        "nodeHash c (last hs) newS = nodeHash c (mth c (take ?k leaves)) (mth c (drop ?k leaves))"
        and old: "oldR = nodeHash c (last hs) oldS"
        by (subst (asm) cons_nat.simps) (auto simp: Let_def mth_split n)
      have pr: "node_payload c (last hs) newS \<in> set ps"
        "set (cons_pre c (m - ?k) (length leaves - ?k) False (butlast hs) seed) \<subseteq> set ps"
        using "1.prems"(4) neq nle sub(1) ne cons_pre.simps [of c m "length leaves" complete hs seed]
        by (auto simp: Let_def)
      have inj: "last hs = mth c (take ?k leaves)" "newS = mth c (drop ?k leaves)"
        using nodeHash_inject [OF assms pr(1) _ sub(2)] pm(1) "1.prems"(3) by auto
      then have "oldS = mth c (take (m - ?k) (drop ?k leaves))"
        using "1.IH" [rule_format, OF len, of "m - ?k" "drop ?k leaves"] sub(1) pr(2) pm(3) "1.prems"(3) nle
        by simp
      then show ?thesis
        using mth_prefix_split [of leaves m c] inj old lt n nle by simp
    qed
  qed
qed

section \<open>Properties\<close>

lemma length_word64: "length (xs :: b32 list) \<le> 2 ^ 63 \<Longrightarrow> unat (word_of_nat (length xs) :: u64) = length xs"
  by (intro unat_word_of_nat64) simp

lemma lp2_two: "lp2 (Suc (Suc 0)) = Suc 0" "lp2 2 = 1"
  by (simp_all add: lp2_def lp2_loop.simps)

lemma rootFromPath_complete:
  assumes "m < length leaves" and "length leaves \<le> 2 ^ 63"
  shows "rootFromPath c (leaves ! m) (word_of_nat m) (word_of_nat (length leaves)) (provePath c m leaves)
    = Some (Some (mth c leaves))"
  using assms rootFromPath_nat [of "word_of_nat (length leaves)"]
  by (simp add: length_word64 unat_word_of_nat64 root_nat_provePath)

lemma consRoots_complete:
  assumes "0 < m" and "m \<le> length leaves" and "length leaves \<le> 2 ^ 63"
  shows "consRoots c (word_of_nat m) (word_of_nat (length leaves)) True (proveConsistency c m leaves)
      (mth c (take m leaves)) = Some (Some (mth c (take m leaves), mth c leaves, []))"
  using assms consRoots_nat [of "word_of_nat (length leaves)" "word_of_nat m"]
    cons_nat_subProof [of m leaves True "mth c (take m leaves)" c "[]"]
  by (simp add: length_word64 unat_word_of_nat64 proveConsistency_def)

text \<open>The split search. For a size from 2 up to \<open>2 ^ 63\<close> the shift loop of \<open>largestPow2LT\<close> ends
  in the largest power of two below the size; beyond \<open>2 ^ 63\<close> the shifted value wraps to zero before
  it reaches the size and the loop never ends.\<close>

theorem largestPow2LT_correct:
  "(2 \<le> unat n \<and> unat n \<le> 2 ^ 63 \<longrightarrow>
      (\<exists>k j. largestPow2LT n = Some k \<and> unat k = 2 ^ j \<and> unat k < unat n \<and> unat n \<le> 2 * unat k)) \<and>
   (2 ^ 63 < unat n \<longrightarrow> largestPow2LT n = None)"
proof (intro conjI impI)
  assume n: "2 \<le> unat n \<and> unat n \<le> 2 ^ 63"
  then obtain j where j: "lp2 (unat n) = 2 ^ j" using lp2_spec by blast
  have "largestPow2LT n = Some (word_of_nat (lp2 (unat n))) \<and>
      unat (word_of_nat (lp2 (unat n)) :: u64) = 2 ^ j \<and>
      unat (word_of_nat (lp2 (unat n)) :: u64) < unat n \<and>
      unat n \<le> 2 * unat (word_of_nat (lp2 (unat n)) :: u64)"
    using largestPow2LT_nat [of n] lp2_bounds [of "unat n"] n j by metis
  then show "\<exists>k j. largestPow2LT n = Some k \<and> unat k = 2 ^ j \<and> unat k < unat n \<and> unat n \<le> 2 * unat k"
    by blast
next
  assume "2 ^ 63 < unat n"
  then show "largestPow2LT n = None" by (rule largestPow2LT_diverges)
qed

theorem largestPow2LT_correct_witness:
  "(\<exists>k j. largestPow2LT 5 = Some k \<and> unat k = 2 ^ j \<and> unat k < 5 \<and> 5 \<le> 2 * unat k) \<and>
   largestPow2LT 0x8000000000000001 = None"
  using largestPow2LT_correct [of 5] largestPow2LT_correct [of "0x8000000000000001"] by simp

text \<open>An audit path identifies its leaf. Against the head of a given tree of up to \<open>2 ^ 63\<close>
  leaves, \<open>rootFromPath\<close> accepts exactly one leaf and one path per position: the leaf at that
  position with the path \<open>provePath\<close> builds, provided the hash separates the payloads hashed on
  both sides. In particular the genuine path always verifies.\<close>

theorem rootFromPath_exact:
  assumes "canon_laws c" and "leaves \<noteq> []" and "length leaves \<le> 2 ^ 63"
    and "collision_free c (mth_pre c leaves @ root_pre c leaf (unat seq) (length leaves) path)"
  shows "rootFromPath c leaf seq (word_of_nat (length leaves)) path = Some (Some (mth c leaves)) \<longleftrightarrow>
     unat seq < length leaves \<and> leaf = leaves ! unat seq \<and> path = provePath c (unat seq) leaves"
proof -
  have rn: "rootFromPath c leaf seq (word_of_nat (length leaves)) path
      = Some (root_nat c leaf (unat seq) (length leaves) path)"
    using rootFromPath_nat [of "word_of_nat (length leaves)" c leaf seq path] assms(3)
    by (simp only: length_word64)
  show ?thesis
    unfolding rn using root_nat_sound [OF assms(1,4), of leaf "unat seq" leaves path]
      root_nat_provePath [of "unat seq" leaves c] by auto
qed

theorem rootFromPath_exact_witness:
  "rootFromPath sample_crypto 7 1 (word_of_nat (length [3, 7 :: b32])) [3] = Some (Some (mth sample_crypto [3, 7])) \<longleftrightarrow>
     unat (1 :: u64) < length [3, 7 :: b32] \<and> 7 = [3, 7 :: b32] ! unat (1 :: u64) \<and>
     [3] = provePath sample_crypto (unat (1 :: u64)) [3, 7]"
proof (rule rootFromPath_exact [OF sample_canon_laws])
  show "collision_free sample_crypto (mth_pre sample_crypto [3, 7] @
      root_pre sample_crypto 7 (unat (1 :: u64)) (length [3, 7 :: b32]) [3])"
    by (simp add: mth_pre.simps root_pre.simps root_nat.simps lp2_two Let_def collision_free_def)
qed simp_all

text \<open>A consistency proof pins the older tree. If the heads recomputed from a proof are the head
  of an older tree of \<open>m\<close> leaves and the head of a newer tree of \<open>n\<close> leaves, then the older leaves
  are exactly the first \<open>m\<close> newer ones, provided the hash separates the payloads involved.\<close>

theorem consRoots_prefix:
  assumes "canon_laws c" and "old \<noteq> []" and "length new \<le> 2 ^ 63" and "length old \<le> 2 ^ 63"
    and "consRoots c (word_of_nat (length old)) (word_of_nat (length new)) True hs (mth c old)
      = Some (Some (mth c old, mth c new, rest))"
    and "collision_free c (mth_pre c old @ mth_pre c (take (length old) new) @ mth_pre c new @
      cons_pre c (length old) (length new) True hs (mth c old))"
  shows "length old \<le> length new \<and> take (length old) new = old"
proof -
  have "cons_nat c (length old) (length new) True hs (mth c old) = Some (mth c old, mth c new, rest)"
    using consRoots_nat [of "word_of_nat (length new)" "word_of_nat (length old)" c True hs "mth c old"] assms(2-5)
    by (simp add: length_word64)
  then have "length old \<le> length new" "mth c old = mth c (take (length old) new)"
    using cons_nat_sound [OF assms(1,6), of "length old" new True hs "mth c old"] assms(2) by auto
  moreover from this have "old = take (length old) new"
    using mth_inject [OF assms(1) _ assms(2) _ assms(6), of "take (length old) new"] by auto
  ultimately show ?thesis by simp
qed

theorem consRoots_prefix_witness:
  "length [3 :: b32] \<le> length [3, 7 :: b32] \<and> take (length [3 :: b32]) [3, 7] = [3 :: b32]"
proof (rule consRoots_prefix [where c = sample_crypto and hs = "[7]" and rest = "[]", OF sample_canon_laws])
  have "proveConsistency sample_crypto 1 [3, 7] = [7]"
    by (simp add: proveConsistency_def subProof.simps lp2_two Let_def)
  then show "consRoots sample_crypto (word_of_nat (length [3 :: b32])) (word_of_nat (length [3, 7 :: b32])) True [7]
      (mth sample_crypto [3]) = Some (Some (mth sample_crypto [3], mth sample_crypto [3, 7], []))"
    using consRoots_complete [of 1 "[3, 7]" sample_crypto] by simp
  show "collision_free sample_crypto (mth_pre sample_crypto [3] @ mth_pre sample_crypto (take (length [3 :: b32]) [3, 7]) @
      mth_pre sample_crypto [3, 7] @ cons_pre sample_crypto (length [3 :: b32]) (length [3, 7 :: b32]) True [7] (mth sample_crypto [3]))"
    by (simp add: mth_pre.simps cons_pre.simps cons_nat.simps lp2_two Let_def collision_free_def)
qed simp_all

end
