(* ===== verification/Record_Log.thy ===== *)
theory Record_Log
  imports Merkle Replay
begin

text \<open>
  The dialog record (\<open>src/internal/record\<close>): dialog-sealed entries (\<open>entry.go\<close>), the operator's
  append-only log over a store (\<open>log.go\<close>), signed checkpoints (\<open>checkpoint.go\<close>) and the offline
  verifiers (\<open>verify.go\<close>). The interface \<open>tree_log\<close> states what the dialog log and the lifecycle log
  both offer a verifier; the round trips are proved once against it.
\<close>

section \<open>Errors and domain tags\<close>

datatype record_error =
    RecProposerMalformed | RecAcceptorMalformed | RecSelfDialog | RecNonceDraw
  | RecSealKeyMalformed | RecSealKeyNeither
  | RecOperatorMalformed | RecNilStore | RecStoreLen | RecStoreRead u64 | RecReplay u64 record_error
  | RecOutOfRange u64 u64 | RecSizeExceeds u64 u64
  | RecNotSealed | RecOtherLog | RecCorrectsMissing | RecDuplicate
  | RecPersist

definition domainContent :: string where "domainContent = ''drops/content/v0''"
definition domainEntry :: string where "domainEntry = ''drops/entry/v0''"
definition domainLeaf :: string where "domainLeaf = ''drops/leaf/v0''"
definition domainLogID :: string where "domainLogID = ''drops/logid/v1''"
definition domainCheckpoint :: string where "domainCheckpoint = ''drops/checkpoint/v1''"

text \<open>\<open>zeroHash\<close>, the absent reference.\<close>

definition zeroHash :: b32 where "zeroHash = 0"

section \<open>Entries\<close>

definition HashContent :: "crypto \<Rightarrow> bytes \<Rightarrow> b32" where
  "HashContent c content = sha256 c (canon_sum c domainContent [CBytes content])"

definition LogID :: "crypto \<Rightarrow> bytes \<Rightarrow> b32" where
  "LogID c operator = sha256 c (canon_sum c domainLogID [CBytes operator])"

record entry =
  e_Log :: b32
  e_Proposer :: bytes
  e_Acceptor :: bytes
  e_Content :: b32
  e_Corrects :: b32
  e_Nonce :: b32
  e_SealedAt :: gotime
  e_ProposerSeal :: bytes
  e_AcceptorSeal :: bytes

text \<open>\<open>NewEntry\<close>; the nonce is what \<open>crypto/rand\<close> returns, \<open>None\<close> for its error.\<close>

definition NewEntry :: "b32 \<Rightarrow> bytes \<Rightarrow> bytes \<Rightarrow> b32 \<Rightarrow> b32 \<Rightarrow> gotime \<Rightarrow> b32 option \<Rightarrow> record_error + entry"
where
  "NewEntry log proposer acceptor content corrects at rnd =
     (if length proposer \<noteq> PublicKeySize then Inl RecProposerMalformed
      else if length acceptor \<noteq> PublicKeySize then Inl RecAcceptorMalformed
      else if proposer = acceptor then Inl RecSelfDialog
      else case rnd of None \<Rightarrow> Inl RecNonceDraw | Some nonce \<Rightarrow>
        Inr \<lparr>e_Log = log, e_Proposer = proposer, e_Acceptor = acceptor, e_Content = content,
             e_Corrects = corrects, e_Nonce = nonce, e_SealedAt = at,
             e_ProposerSeal = [], e_AcceptorSeal = []\<rparr>)"

definition Entry_CanonicalBytes :: "crypto \<Rightarrow> entry \<Rightarrow> bytes" where
  "Entry_CanonicalBytes c e =
     canon_sum c domainEntry
       [CBytes (b32_bytes (e_Log e)), CBytes (e_Proposer e), CBytes (e_Acceptor e),
        CBytes (b32_bytes (e_Content e)), CBytes (b32_bytes (e_Corrects e)),
        CBytes (b32_bytes (e_Nonce e)), CTime (e_SealedAt e)]"

definition Entry_Seal :: "crypto \<Rightarrow> bytes \<Rightarrow> entry \<Rightarrow> record_error + entry" where
  "Entry_Seal c priv e =
     (if length priv \<noteq> PrivateKeySize then Inl RecSealKeyMalformed
      else let pub = ed_public c priv; sig = ed_sign c priv (Entry_CanonicalBytes c e) in
        if pub = e_Proposer e then Inr (e\<lparr>e_ProposerSeal := sig\<rparr>)
        else if pub = e_Acceptor e then Inr (e\<lparr>e_AcceptorSeal := sig\<rparr>)
        else Inl RecSealKeyNeither)"

definition Entry_Verify :: "crypto \<Rightarrow> entry \<Rightarrow> bool" where
  "Entry_Verify c e \<longleftrightarrow>
     length (e_Proposer e) = PublicKeySize \<and> length (e_Acceptor e) = PublicKeySize \<and>
     e_Proposer e \<noteq> e_Acceptor e \<and>
     length (e_ProposerSeal e) = SignatureSize \<and> length (e_AcceptorSeal e) = SignatureSize \<and>
     sig_ok c (e_Proposer e) (Entry_CanonicalBytes c e) (e_ProposerSeal e) \<and>
     sig_ok c (e_Acceptor e) (Entry_CanonicalBytes c e) (e_AcceptorSeal e)"

definition leaf_payload :: "crypto \<Rightarrow> entry \<Rightarrow> bytes" where
  "leaf_payload c e =
     canon_sum c domainLeaf
       [CBytes (Entry_CanonicalBytes c e), CBytes (e_ProposerSeal e), CBytes (e_AcceptorSeal e)]"

definition Entry_ID :: "crypto \<Rightarrow> entry \<Rightarrow> b32" where
  "Entry_ID c e = sha256 c (leaf_payload c e)"

section \<open>Checkpoints\<close>

record checkpoint =
  cp_Log :: b32
  cp_Size :: u64
  cp_Head :: b32
  cp_IssuedAt :: gotime
  cp_Signature :: bytes

definition Checkpoint_CanonicalBytes :: "crypto \<Rightarrow> checkpoint \<Rightarrow> bytes" where
  "Checkpoint_CanonicalBytes c cp =
     canon_sum c domainCheckpoint
       [CBytes (b32_bytes (cp_Log cp)), CUint64 (cp_Size cp), CBytes (b32_bytes (cp_Head cp)),
        CTime (cp_IssuedAt cp)]"

definition Checkpoint_Sign :: "crypto \<Rightarrow> bytes \<Rightarrow> checkpoint \<Rightarrow> checkpoint option" where
  "Checkpoint_Sign c priv cp =
     map_option (\<lambda>sig. cp\<lparr>cp_Signature := sig\<rparr>) (ed25519_Sign c priv (Checkpoint_CanonicalBytes c cp))"

definition Checkpoint_VerifyAs :: "crypto \<Rightarrow> checkpoint \<Rightarrow> bytes \<Rightarrow> b32 \<Rightarrow> bool" where
  "Checkpoint_VerifyAs c cp signer wantLog \<longleftrightarrow>
     length signer = PublicKeySize \<and> length (cp_Signature cp) = SignatureSize \<and>
     cp_Log cp = wantLog \<and> sig_ok c signer (Checkpoint_CanonicalBytes c cp) (cp_Signature cp)"

definition Checkpoint_Verify :: "crypto \<Rightarrow> checkpoint \<Rightarrow> bytes \<Rightarrow> bool" where
  "Checkpoint_Verify c cp operator = Checkpoint_VerifyAs c cp operator (LogID c operator)"

section \<open>The store and the log\<close>

type_synonym entry_store = "entry list"

definition EntryStore_New :: entry_store where "EntryStore_New = []"

definition cloneEntry :: "entry \<Rightarrow> entry" where
  "cloneEntry e = e\<lparr>e_Proposer := map id (e_Proposer e), e_Acceptor := map id (e_Acceptor e),
     e_ProposerSeal := map id (e_ProposerSeal e), e_AcceptorSeal := map id (e_AcceptorSeal e)\<rparr>"

definition EntryStore_Append :: "entry_store \<Rightarrow> entry \<Rightarrow> entry_store" where
  "EntryStore_Append s e = s @ [cloneEntry e]"

definition EntryStore_Len :: "entry_store \<Rightarrow> u64" where
  "EntryStore_Len s = word_of_nat (length s)"

definition EntryStore_At :: "entry_store \<Rightarrow> u64 \<Rightarrow> record_error + entry" where
  "EntryStore_At s seq =
     (if seq \<ge> word_of_nat (length s) then Inl (RecOutOfRange seq (word_of_nat (length s)))
      else Inr (cloneEntry (s ! unat seq)))"

record dialog_log =
  lg_id :: b32
  lg_store :: entry_store
  lg_leafs :: "b32 list"
  lg_index :: "b32 \<rightharpoonup> u64"

definition Log_check :: "crypto \<Rightarrow> dialog_log \<Rightarrow> entry \<Rightarrow> record_error + b32" where
  "Log_check c l e =
     (if \<not> Entry_Verify c e then Inl RecNotSealed
      else if e_Log e \<noteq> lg_id l then Inl RecOtherLog
      else if e_Corrects e \<noteq> zeroHash \<and> lg_index l (e_Corrects e) = None then Inl RecCorrectsMissing
      else let leaf = Entry_ID c e in
        if lg_index l leaf \<noteq> None then Inl RecDuplicate else Inr leaf)"

definition Log_admit :: "dialog_log \<Rightarrow> b32 \<Rightarrow> dialog_log" where
  "Log_admit l leaf =
     l\<lparr>lg_index := (lg_index l)(leaf \<mapsto> word_of_nat (length (lg_leafs l))), lg_leafs := lg_leafs l @ [leaf]\<rparr>"

text \<open>\<open>OpenLog\<close> reads the store by position and passes each entry through the admission gates.\<close>

definition open_step :: "crypto \<Rightarrow> dialog_log \<Rightarrow> u64 \<Rightarrow> record_error + dialog_log" where
  "open_step c l seq =
     (case EntryStore_At (lg_store l) seq of
        Inl _ \<Rightarrow> Inl (RecStoreRead seq)
      | Inr e \<Rightarrow> (case Log_check c l e of
          Inl err \<Rightarrow> Inl (RecReplay seq err) | Inr leaf \<Rightarrow> Inr (Log_admit l leaf)))"

definition OpenLog :: "crypto \<Rightarrow> bytes \<Rightarrow> entry_store option \<Rightarrow> record_error + dialog_log" where
  "OpenLog c operator s =
     (if length operator \<noteq> PublicKeySize then Inl RecOperatorMalformed
      else case s of None \<Rightarrow> Inl RecNilStore | Some st \<Rightarrow>
        run_all (open_step c)
          \<lparr>lg_id = LogID c operator, lg_store = st, lg_leafs = [], lg_index = Map.empty\<rparr>
          (map word_of_nat [0..<unat (EntryStore_Len st)]))"

definition Log_Append :: "crypto \<Rightarrow> dialog_log \<Rightarrow> entry \<Rightarrow> record_error + u64 \<times> dialog_log" where
  "Log_Append c l e =
     (case Log_check c l e of
        Inl err \<Rightarrow> Inl err
      | Inr leaf \<Rightarrow>
          (let l1 = l\<lparr>lg_store := EntryStore_Append (lg_store l) e\<rparr>;
               seq = word_of_nat (length (lg_leafs l1))
           in Inr (seq, Log_admit l1 leaf)))"

definition Log_Checkpoint :: "crypto \<Rightarrow> dialog_log \<Rightarrow> gotime \<Rightarrow> checkpoint" where
  "Log_Checkpoint c l at =
     (let sz = word_of_nat (length (lg_leafs l)); head = (if sz > 0 then mth c (lg_leafs l) else lg_id l)
      in \<lparr>cp_Log = lg_id l, cp_Size = sz, cp_Head = head, cp_IssuedAt = at, cp_Signature = []\<rparr>)"

text \<open>\<open>Proof\<close>: what a member keeps beside an entry.\<close>

record inclusion_proof =
  pf_Seq :: u64
  pf_Path :: "b32 list"

definition Log_Prove :: "crypto \<Rightarrow> dialog_log \<Rightarrow> u64 \<Rightarrow> record_error + inclusion_proof" where
  "Log_Prove c l seq =
     (let sz = word_of_nat (length (lg_leafs l)) in
      if seq \<ge> sz then Inl (RecOutOfRange seq sz)
      else Inr \<lparr>pf_Seq = seq, pf_Path = provePath c (unat seq) (lg_leafs l)\<rparr>)"

definition Log_ProveConsistency :: "crypto \<Rightarrow> dialog_log \<Rightarrow> u64 \<Rightarrow> record_error + b32 list" where
  "Log_ProveConsistency c l sz =
     (let current = word_of_nat (length (lg_leafs l)) in
      if sz > current then Inl (RecSizeExceeds sz current)
      else if sz = 0 \<or> sz = current then Inr []
      else Inr (proveConsistency c (unat sz) (lg_leafs l)))"

definition Log_LeavesSince :: "dialog_log \<Rightarrow> u64 \<Rightarrow> record_error + b32 list" where
  "Log_LeavesSince l sz =
     (let current = word_of_nat (length (lg_leafs l)) in
      if sz > current then Inl (RecSizeExceeds sz current) else Inr (drop (unat sz) (lg_leafs l)))"

section \<open>The verifiers\<close>

text \<open>\<open>None\<close> is a verifier that does not return (the split search beyond \<open>2 ^ 63\<close>).\<close>

definition VerifyInclusion ::
  "crypto \<Rightarrow> entry \<Rightarrow> inclusion_proof \<Rightarrow> checkpoint \<Rightarrow> bytes \<Rightarrow> bool option" where
  "VerifyInclusion c e p cp operator =
     (if \<not> Entry_Verify c e then Some False
      else if \<not> Checkpoint_Verify c cp operator then Some False
      else if e_Log e \<noteq> cp_Log cp then Some False
      else case rootFromPath c (Entry_ID c e) (pf_Seq p) (cp_Size cp) (pf_Path p) of
        None \<Rightarrow> None | Some r \<Rightarrow> Some (r = Some (cp_Head cp)))"

definition VerifyConsistencyAs ::
  "crypto \<Rightarrow> checkpoint \<Rightarrow> checkpoint \<Rightarrow> b32 list \<Rightarrow> bytes \<Rightarrow> b32 \<Rightarrow> bool option" where
  "VerifyConsistencyAs c older newer hs signer wantLog =
     (if \<not> Checkpoint_VerifyAs c older signer wantLog \<or> \<not> Checkpoint_VerifyAs c newer signer wantLog
        then Some False
      else if cp_Log older \<noteq> cp_Log newer then Some False
      else if cp_Size older > cp_Size newer then Some False
      else if cp_Size older = 0 then Some (hs = [])
      else if cp_Size older = cp_Size newer then Some (hs = [] \<and> cp_Head older = cp_Head newer)
      else case consRoots c (cp_Size older) (cp_Size newer) True hs (cp_Head older) of
        None \<Rightarrow> None
      | Some None \<Rightarrow> Some False
      | Some (Some (oldR, newR, rest)) \<Rightarrow>
          Some (rest = [] \<and> oldR = cp_Head older \<and> newR = cp_Head newer))"

definition VerifyConsistency ::
  "crypto \<Rightarrow> checkpoint \<Rightarrow> checkpoint \<Rightarrow> b32 list \<Rightarrow> bytes \<Rightarrow> bool option" where
  "VerifyConsistency c older newer hs operator =
     VerifyConsistencyAs c older newer hs operator (LogID c operator)"

section \<open>Signing\<close>

lemma Checkpoint_Sign_VerifyAs:
  assumes "keypair c priv" and "Checkpoint_Sign c priv cp = Some cp'"
  shows "Checkpoint_VerifyAs c cp' (ed_public c priv) (cp_Log cp)"
    and "cp_Log cp' = cp_Log cp" "cp_Size cp' = cp_Size cp" "cp_Head cp' = cp_Head cp"
proof -
  have cp': "cp' = cp\<lparr>cp_Signature := ed_sign c priv (Checkpoint_CanonicalBytes c cp)\<rparr>"
    using assms(2) by (auto simp: Checkpoint_Sign_def ed25519_Sign_def split: if_splits)
  have "Checkpoint_CanonicalBytes c cp' = Checkpoint_CanonicalBytes c cp"
    by (simp add: cp' Checkpoint_CanonicalBytes_def)
  then show "Checkpoint_VerifyAs c cp' (ed_public c priv) (cp_Log cp)"
    using assms(1) by (simp add: Checkpoint_VerifyAs_def cp' sig_ok_keypair keypair_verify)
  show "cp_Log cp' = cp_Log cp" "cp_Size cp' = cp_Size cp" "cp_Head cp' = cp_Head cp"
    by (simp_all add: cp')
qed

lemma Checkpoint_Sign_total: "keypair c priv \<Longrightarrow> \<exists>cp'. Checkpoint_Sign c priv cp = Some cp'"
  by (simp add: Checkpoint_Sign_def ed25519_Sign_def keypair_def)

lemma Entry_CanonicalBytes_seals [simp]:
  "Entry_CanonicalBytes c (e\<lparr>e_ProposerSeal := p\<rparr>) = Entry_CanonicalBytes c e"
  "Entry_CanonicalBytes c (e\<lparr>e_AcceptorSeal := p\<rparr>) = Entry_CanonicalBytes c e"
  by (simp_all add: Entry_CanonicalBytes_def)

text \<open>An entry built by \<open>NewEntry\<close> and sealed by both parties verifies.\<close>

lemma sealed_entry_verifies:
  assumes "keypair c p" "keypair c a" "ed_public c p \<noteq> ed_public c a"
    and "NewEntry log (ed_public c p) (ed_public c a) content corrects at (Some nonce) = Inr e"
  shows "\<exists>e1 e2. Entry_Seal c p e = Inr e1 \<and> Entry_Seal c a e1 = Inr e2 \<and> Entry_Verify c e2"
proof -
  let ?s1 = "ed_sign c p (Entry_CanonicalBytes c e)" and ?s2 = "ed_sign c a (Entry_CanonicalBytes c e)"
  have k: "length p = PrivateKeySize" "length a = PrivateKeySize"
    using assms(1,2) by (simp_all add: keypair_def)
  have parties: "e_Proposer e = ed_public c p" "e_Acceptor e = ed_public c a"
    using assms(4) by (auto simp: NewEntry_def split: if_splits)
  have "Entry_Seal c p e = Inr (e\<lparr>e_ProposerSeal := ?s1\<rparr>)"
    by (simp add: Entry_Seal_def k parties Let_def)
  moreover have "Entry_Seal c a (e\<lparr>e_ProposerSeal := ?s1\<rparr>) = Inr (e\<lparr>e_ProposerSeal := ?s1, e_AcceptorSeal := ?s2\<rparr>)"
    using assms(3) by (simp add: Entry_Seal_def k parties Let_def)
  moreover have "Entry_Verify c (e\<lparr>e_ProposerSeal := ?s1, e_AcceptorSeal := ?s2\<rparr>)"
    using assms(1-3) by (simp add: Entry_Verify_def parties sig_ok_keypair keypair_verify)
  ultimately show ?thesis by blast
qed

section \<open>The log a store stands for\<close>

lemma cloneEntry_id [simp]: "cloneEntry e = e"
  by (simp add: cloneEntry_def)

definition index_of :: "b32 list \<Rightarrow> b32 \<rightharpoonup> u64" where
  "index_of leafs = map_of (zip leafs (map word_of_nat [0..<length leafs]))"

definition log_of_store :: "crypto \<Rightarrow> b32 \<Rightarrow> entry_store \<Rightarrow> dialog_log" where
  "log_of_store c logid st =
     \<lparr>lg_id = logid, lg_store = st, lg_leafs = map (Entry_ID c) st, lg_index = index_of (map (Entry_ID c) st)\<rparr>"

lemma log_of_store_sel [simp]:
  "lg_id (log_of_store c logid st) = logid"
  "lg_store (log_of_store c logid st) = st"
  "lg_leafs (log_of_store c logid st) = map (Entry_ID c) st"
  "lg_index (log_of_store c logid st) = index_of (map (Entry_ID c) st)"
  by (simp_all add: log_of_store_def)

lemma index_of_None [simp]: "index_of leafs h = None \<longleftrightarrow> h \<notin> set leafs"
  by (simp add: index_of_def map_of_zip_is_None)

lemma index_of_snoc:
  assumes "leaf \<notin> set leafs"
  shows "index_of (leafs @ [leaf]) = (index_of leafs)(leaf \<mapsto> word_of_nat (length leafs))"
proof -
  let ?m = "map_of (zip leafs (map word_of_nat [0..<length leafs]))"
  have "?m leaf = None" using assms by (simp add: map_of_zip_is_None)
  then have "leaf \<notin> dom ?m" by blast
  then have "Map.empty(leaf \<mapsto> word_of_nat (length leafs)) ++ ?m = ?m(leaf \<mapsto> word_of_nat (length leafs) :: u64)"
    by (simp add: map_add_upd_left)
  then show ?thesis by (simp add: index_of_def map_of_append)
qed

text \<open>The admission gates, stated of an entry and the entries stored before it.\<close>

definition admissible_after :: "crypto \<Rightarrow> b32 \<Rightarrow> entry list \<Rightarrow> entry \<Rightarrow> bool" where
  "admissible_after c logid earlier e \<longleftrightarrow>
     Entry_Verify c e \<and> e_Log e = logid \<and>
     (e_Corrects e = zeroHash \<or> e_Corrects e \<in> Entry_ID c ` set earlier) \<and>
     Entry_ID c e \<notin> Entry_ID c ` set earlier"

definition log_step :: "crypto \<Rightarrow> dialog_log \<Rightarrow> entry \<Rightarrow> record_error + dialog_log" where
  "log_step c l e = (case Log_Append c l e of Inl err \<Rightarrow> Inl err | Inr (seq, l') \<Rightarrow> Inr l')"

lemma Log_check_store:
  "Log_check c (l\<lparr>lg_store := st\<rparr>) e = Log_check c l e"
  by (simp add: Log_check_def)

lemma Log_check_iff:
  "Log_check c (log_of_store c logid st) e = Inr leaf \<longleftrightarrow>
     admissible_after c logid st e \<and> leaf = Entry_ID c e"
  by (auto simp: Log_check_def admissible_after_def Let_def)

lemma Log_admit_log_of_store:
  "Entry_ID c e \<notin> Entry_ID c ` set st \<Longrightarrow>
     Log_admit (log_of_store c logid st\<lparr>lg_store := st @ [e]\<rparr>) (Entry_ID c e) = log_of_store c logid (st @ [e])"
  by (simp add: Log_admit_def log_of_store_def index_of_snoc)

lemma Log_Append_iff:
  "Log_Append c (log_of_store c logid st) e = Inr (seq, l') \<longleftrightarrow>
     admissible_after c logid st e \<and> seq = word_of_nat (length st) \<and> l' = log_of_store c logid (st @ [e])"
proof (cases "Log_check c (log_of_store c logid st) e")
  case (Inl err)
  then have "\<not> admissible_after c logid st e" using Log_check_iff [of c logid st e "Entry_ID c e"] by auto
  with Inl show ?thesis by (simp add: Log_Append_def)
next
  case (Inr leaf)
  then have "admissible_after c logid st e" "leaf = Entry_ID c e" by (simp_all add: Log_check_iff)
  with Inr show ?thesis
    by (auto simp: Log_Append_def Let_def EntryStore_Append_def admissible_after_def Log_admit_log_of_store)
qed

lemma log_step_iff:
  "log_step c (log_of_store c logid st) e = Inr l' \<longleftrightarrow>
     admissible_after c logid st e \<and> l' = log_of_store c logid (st @ [e])"
proof (cases "Log_Append c (log_of_store c logid st) e")
  case (Inl err)
  then show ?thesis
    using Log_Append_iff [of c logid st e "word_of_nat (length st)" l'] by (simp add: log_step_def)
next
  case (Inr r)
  obtain seq m where r: "r = (seq, m)" by (cases r)
  with Inr have "admissible_after c logid st e" "m = log_of_store c logid (st @ [e])"
    by (simp_all add: Log_Append_iff)
  then show ?thesis using Inr r by (auto simp: log_step_def)
qed

interpretation dlog: append_log "log_step c" lg_store for c
proof
  fix l e l'
  assume "log_step c l e = Inr l'"
  then show "lg_store l' = lg_store l @ [e]"
    by (auto simp: log_step_def Log_Append_def Log_admit_def EntryStore_Append_def Let_def split: sum.splits)
qed

definition admissible :: "crypto \<Rightarrow> b32 \<Rightarrow> entry_store \<Rightarrow> bool" where
  "admissible c logid st \<longleftrightarrow> (\<forall>i < length st. admissible_after c logid (take i st) (st ! i))"

lemma admissible_snoc:
  "admissible c logid (st @ [e]) \<longleftrightarrow> admissible c logid st \<and> admissible_after c logid st e"
  by (auto simp: admissible_def less_Suc_eq nth_append)

lemma run_log_step:
  "run_all (log_step c) (log_of_store c logid []) st = Inr l \<longleftrightarrow>
     admissible c logid st \<and> l = log_of_store c logid st"
proof (induction st arbitrary: l rule: rev_induct)
  case Nil
  then show ?case by (auto simp: admissible_def)
next
  case (snoc e st)
  then show ?case by (auto simp: run_all_snoc admissible_snoc log_step_iff)
qed

text \<open>Reopening a store is feeding its entries to a log that has none.\<close>

interpretation dlog_store: stored_log "log_step c" lg_store "\<lambda>l st. l\<lparr>lg_store := st\<rparr>" "\<lambda>l i. open_step c l (word_of_nat i)" for c
proof
  fix l :: dialog_log and st i e l'
  show "lg_store l = st \<Longrightarrow> l\<lparr>lg_store := st\<rparr> = l" by simp
  assume "length st < 2 ^ 64" "i < length st"
  then have "unat (word_of_nat i :: u64) = i" "unat (word_of_nat (length st) :: u64) = length st"
    by (simp_all add: unat_word_of_nat64)
  then have at: "EntryStore_At st (word_of_nat i) = Inr (st ! i)"
    using \<open>i < length st\<close> by (simp add: EntryStore_At_def word_le_nat_alt)
  show "log_step c l (st ! i) = Inl e \<Longrightarrow> \<exists>e'. open_step c (l\<lparr>lg_store := st\<rparr>) (word_of_nat i) = Inl e'"
    by (auto simp: log_step_def Log_Append_def open_step_def at Log_check_store Let_def split: sum.splits)
  show "log_step c l (st ! i) = Inr l' \<Longrightarrow>
      open_step c (l\<lparr>lg_store := st\<rparr>) (word_of_nat i) = Inr (l'\<lparr>lg_store := st\<rparr>)"
    by (auto simp: log_step_def Log_Append_def open_step_def at Log_check_store Log_admit_def Let_def split: sum.splits)
qed

lemma OpenLog_iff:
  assumes "length st < 2 ^ 64"
  shows "OpenLog c operator (Some st) = Inr l \<longleftrightarrow>
    length operator = PublicKeySize \<and> admissible c (LogID c operator) st \<and> l = log_of_store c (LogID c operator) st"
proof -
  have e: "\<lparr>lg_id = LogID c operator, lg_store = st, lg_leafs = [], lg_index = Map.empty\<rparr>
      = log_of_store c (LogID c operator) []\<lparr>lg_store := st\<rparr>"
    by (simp add: log_of_store_def index_of_def)
  have n: "unat (EntryStore_Len st) = length st" using assms by (simp add: EntryStore_Len_def unat_word_of_nat64)
  show ?thesis
    using dlog_store.open_is_run [OF assms, of "log_of_store c (LogID c operator) []" c l]
    by (simp add: OpenLog_def e n run_log_step run_all_map)
qed

section \<open>What a tree log offers a verifier\<close>

text \<open>
  The dialog log and the lifecycle log issue checkpoints and proofs over their leaf list in the same
  way. The laws say what the three operations return in terms of the leaves; the lemmas are
  the two round trips against the verifiers.
\<close>

locale tree_log =
  fixes id_of :: "'s \<Rightarrow> b32"
    and leafs_of :: "'s \<Rightarrow> b32 list"
    and head_at :: "crypto \<Rightarrow> 's \<Rightarrow> gotime \<Rightarrow> checkpoint"
    and path_for :: "crypto \<Rightarrow> 's \<Rightarrow> u64 \<Rightarrow> record_error + inclusion_proof"
    and extension_from :: "crypto \<Rightarrow> 's \<Rightarrow> u64 \<Rightarrow> record_error + b32 list"
  assumes head_fields: "length (leafs_of s) < 2 ^ 63 \<Longrightarrow>
      cp_Log (head_at c s t) = id_of s \<and> cp_Size (head_at c s t) = word_of_nat (length (leafs_of s)) \<and>
      cp_Head (head_at c s t) = (if leafs_of s = [] then id_of s else mth c (leafs_of s))"
    and path_result: "length (leafs_of s) < 2 ^ 63 \<Longrightarrow> path_for c s seq =
      (if unat seq < length (leafs_of s)
       then Inr \<lparr>pf_Seq = seq, pf_Path = provePath c (unat seq) (leafs_of s)\<rparr>
       else Inl (RecOutOfRange seq (word_of_nat (length (leafs_of s)))))"
    and extension_result: "length (leafs_of s) < 2 ^ 63 \<Longrightarrow> extension_from c s sz =
      (if unat sz > length (leafs_of s) then Inl (RecSizeExceeds sz (word_of_nat (length (leafs_of s))))
       else if unat sz = 0 \<or> unat sz = length (leafs_of s) then Inr []
       else Inr (proveConsistency c (unat sz) (leafs_of s)))"
begin

lemma inclusion_roundtrip:
  assumes "length (leafs_of s) < 2 ^ 63" and "unat seq < length (leafs_of s)"
  shows "\<exists>p. path_for c s seq = Inr p \<and>
    rootFromPath c (leafs_of s ! unat seq) (pf_Seq p) (cp_Size (head_at c s t)) (pf_Path p)
      = Some (Some (cp_Head (head_at c s t)))"
proof -
  have "rootFromPath c (leafs_of s ! unat seq) (word_of_nat (unat seq)) (word_of_nat (length (leafs_of s)))
      (provePath c (unat seq) (leafs_of s)) = Some (Some (mth c (leafs_of s)))"
    using assms by (intro rootFromPath_complete) auto
  moreover have "leafs_of s \<noteq> []" using assms(2) by auto
  ultimately show ?thesis
    using assms head_fields [OF assms(1), of c t] path_result [OF assms(1), of c seq] by simp
qed

lemma extension_roundtrip:
  assumes "length (leafs_of s) < 2 ^ 63" and "leafs_of s = leafs_of s0 @ ext" and "id_of s = id_of s0"
    and kp: "keypair c priv"
    and "Checkpoint_Sign c priv (head_at c s0 t0) = Some older" and "Checkpoint_Sign c priv (head_at c s t) = Some newer"
  shows "\<exists>hs. extension_from c s (cp_Size older) = Inr hs \<and>
    VerifyConsistencyAs c older newer hs (ed_public c priv) (id_of s) = Some True"
proof -
  let ?m = "length (leafs_of s0)"
  have len0: "length (leafs_of s0) < 2 ^ 63" using assms(1,2) by simp
  note h0 = head_fields [OF len0, of c t0] and h = head_fields [OF assms(1), of c t]
  note v0 = Checkpoint_Sign_VerifyAs [OF kp assms(5)] and v = Checkpoint_Sign_VerifyAs [OF kp assms(6)]
  have un: "unat (cp_Size older) = ?m" "unat (cp_Size newer) = length (leafs_of s)"
    using v0(3) v(3) h0 h len0 assms(1) by (simp_all add: unat_word_of_nat64)
  have ver: "Checkpoint_VerifyAs c older (ed_public c priv) (id_of s)" "Checkpoint_VerifyAs c newer (ed_public c priv) (id_of s)"
    using v0(1) v(1) h0 h assms(3) by simp_all
  have log: "cp_Log older = cp_Log newer" using v0(2) v(2) h0 h assms(3) by simp
  have le: "\<not> cp_Size newer < cp_Size older" using un assms(2) by (simp add: word_less_nat_alt)
  note ext = extension_result [OF assms(1), of c "cp_Size older"]
  show ?thesis
  proof (cases "?m = 0 \<or> ext = []")
    case True
    have "cp_Size older = 0 \<or> cp_Size older = cp_Size newer \<and> cp_Head older = cp_Head newer"
      using True v0(3,4) v(3,4) h0 h assms(2,3) by auto
    moreover have "extension_from c s (cp_Size older) = Inr []"
      using True ext un assms(2) by auto
    ultimately show ?thesis using ver log le by (auto simp: VerifyConsistencyAs_def)
  next
    case False
    then have m: "0 < ?m" "?m < length (leafs_of s)" using assms(2) by auto
    have hd: "cp_Head older = mth c (take ?m (leafs_of s))" "cp_Head newer = mth c (leafs_of s)"
      using m v0(4) v(4) h0 h assms(2) by auto
    have "consRoots c (cp_Size older) (cp_Size newer) True (proveConsistency c ?m (leafs_of s)) (cp_Head older)
        = Some (Some (cp_Head older, cp_Head newer, []))"
      using consRoots_complete [of ?m "leafs_of s" c] m assms(1) v0(3) v(3) h0 h hd by simp
    moreover have "cp_Size older \<noteq> 0" "cp_Size older \<noteq> cp_Size newer" using m un by auto
    moreover have "extension_from c s (cp_Size older) = Inr (proveConsistency c ?m (leafs_of s))"
      using ext un m by simp
    ultimately show ?thesis using ver log le by (simp add: VerifyConsistencyAs_def)
  qed
qed

end

interpretation dialog: tree_log lg_id lg_leafs Log_Checkpoint Log_Prove Log_ProveConsistency
proof
  fix l :: dialog_log and c t seq sz
  assume len: "length (lg_leafs l) < 2 ^ 63"
  then have un: "unat (word_of_nat (length (lg_leafs l)) :: u64) = length (lg_leafs l)"
    by (intro unat_word_of_nat64) simp
  then have z: "(word_of_nat (length (lg_leafs l)) :: u64) > 0 \<longleftrightarrow> lg_leafs l \<noteq> []"
    by (metis length_0_conv unat_eq_0 word_neq_0_conv)
  show "cp_Log (Log_Checkpoint c l t) = lg_id l \<and>
      cp_Size (Log_Checkpoint c l t) = word_of_nat (length (lg_leafs l)) \<and>
      cp_Head (Log_Checkpoint c l t) = (if lg_leafs l = [] then lg_id l else mth c (lg_leafs l))"
    using z by (simp add: Log_Checkpoint_def Let_def)
  show "Log_Prove c l seq = (if unat seq < length (lg_leafs l)
       then Inr \<lparr>pf_Seq = seq, pf_Path = provePath c (unat seq) (lg_leafs l)\<rparr>
       else Inl (RecOutOfRange seq (word_of_nat (length (lg_leafs l)))))"
    using un by (simp add: Log_Prove_def Let_def word_le_nat_alt)
  show "Log_ProveConsistency c l sz =
      (if unat sz > length (lg_leafs l) then Inl (RecSizeExceeds sz (word_of_nat (length (lg_leafs l))))
       else if unat sz = 0 \<or> unat sz = length (lg_leafs l) then Inr []
       else Inr (proveConsistency c (unat sz) (lg_leafs l)))"
    by (simp only: Log_ProveConsistency_def Let_def u64_unat un unat_0)
qed

section \<open>A concrete log\<close>

definition sample_draft :: "b32 \<Rightarrow> entry" where
  "sample_draft nonce =
     \<lparr>e_Log = LogID sample_crypto (replicate 32 9), e_Proposer = replicate 32 1, e_Acceptor = replicate 32 2,
      e_Content = 0, e_Corrects = 0, e_Nonce = nonce, e_SealedAt = 0, e_ProposerSeal = [], e_AcceptorSeal = []\<rparr>"

definition sample_entry :: "b32 \<Rightarrow> entry" where
  "sample_entry n =
     sample_draft n\<lparr>e_ProposerSeal := ed_sign sample_crypto (sample_priv 1) (Entry_CanonicalBytes sample_crypto (sample_draft n)),
       e_AcceptorSeal := ed_sign sample_crypto (sample_priv 2) (Entry_CanonicalBytes sample_crypto (sample_draft n))\<rparr>"

lemma sample_draft_sel [simp]:
  "e_Log (sample_draft n) = LogID sample_crypto (replicate 32 9)" "e_Corrects (sample_draft n) = 0"
  "e_Proposer (sample_draft n) = replicate 32 1" "e_Acceptor (sample_draft n) = replicate 32 2"
  by (simp_all add: sample_draft_def)

lemma sample_entry_sel [simp]:
  "e_Log (sample_entry n) = LogID sample_crypto (replicate 32 9)" "e_Corrects (sample_entry n) = 0"
  by (simp_all add: sample_entry_def)

lemma sample_entry_verifies: "Entry_Verify sample_crypto (sample_entry n)"
  using sig_ok_keypair [OF sample_keypair, of 1] sig_ok_keypair [OF sample_keypair, of 2]
    keypair_verify(2) [OF sample_keypair, of 1] keypair_verify(2) [OF sample_keypair, of 2]
  by (simp add: Entry_Verify_def sample_entry_def PublicKeySize_def)

lemma sample_admissible:
  "admissible_after sample_crypto (LogID sample_crypto (replicate 32 9)) [] (sample_entry n)"
  by (simp add: admissible_after_def sample_entry_verifies zeroHash_def)

lemma sample_open:
  "OpenLog sample_crypto (replicate 32 9) (Some [sample_entry n]) =
     Inr (log_of_store sample_crypto (LogID sample_crypto (replicate 32 9)) [sample_entry n])"
  by (subst OpenLog_iff) (simp_all add: admissible_def sample_admissible PublicKeySize_def)

lemma sample_open_empty:
  "OpenLog sample_crypto (replicate 32 9) (Some []) =
     Inr (log_of_store sample_crypto (LogID sample_crypto (replicate 32 9)) [])"
  by (subst OpenLog_iff) (simp_all add: admissible_def PublicKeySize_def)

text \<open>The digests of the concrete entries, evaluated, so that a two-entry tree can be exhibited.\<close>

lemma sample_logid: "LogID sample_crypto (replicate 32 9) = 1676"
  by (simp add: LogID_def sample_eval domainLogID_def)

lemma sample_b32_sums:
  "sample_sha (b32_bytes 0) = 0" "sample_sha (b32_bytes 1) = 1" "sample_sha (b32_bytes 2) = 2"
  "sample_sha (b32_bytes 1676) = 146" "sample_sha (b32_bytes 6516) = 141" "sample_sha (b32_bytes 6517) = 142"
  by (simp_all add: b32_bytes_def upt_rec)

lemma sample_entry_stamp:
  "sample_stamp (Entry_CanonicalBytes sample_crypto (sample_draft n)) =
     replicate 14 1 @ 0 # map (\<lambda>ch. word_of_nat (of_char ch)) domainEntry @ [2, 1, 1]"
  by (simp add: sample_stamp_def Entry_CanonicalBytes_def sample_eval domainEntry_def numeral_eq_Suc)

lemma sample_entry_length: "length (Entry_CanonicalBytes sample_crypto (sample_draft n)) = 429"
  by (simp add: Entry_CanonicalBytes_def sample_draft_def sample_logid sample_eval domainEntry_def)

lemma sample_entry_sum:
  "sample_sha (Entry_CanonicalBytes sample_crypto (sample_draft n)) = 1839 + sample_sha (b32_bytes n)"
  by (simp add: Entry_CanonicalBytes_def sample_draft_def sample_logid sample_b32_sums sample_eval domainEntry_def)

lemma sample_leaf_sum:
  "sample_sha (leaf_payload sample_crypto (sample_entry n)) = 6515 + sample_sha (b32_bytes n)"
proof -
  have seal: "ed_sign sample_crypto (sample_priv b) msg = replicate 32 b @ sample_stamp msg" for b msg
    by (simp add: sample_crypto_def sample_priv_def)
  show ?thesis
    by (simp add: leaf_payload_def sample_entry_def seal sample_entry_stamp sample_entry_length sample_entry_sum
        sample_eval domainLeaf_def domainEntry_def)
qed

lemma sample_ids: "Entry_ID sample_crypto (sample_entry 1) = 6516" "Entry_ID sample_crypto (sample_entry 2) = 6517"
  by (simp_all add: Entry_ID_def sample_leaf_sum sample_b32_sums)

lemma sample_node_sum: "sample_sha (node_payload sample_crypto 6516 6517) = 1599"
  by (simp add: node_payload_def sample_b32_sums sample_eval domainNode_def)

lemma sample_open_two:
  "OpenLog sample_crypto (replicate 32 9) (Some [sample_entry 1, sample_entry 2]) =
     Inr (log_of_store sample_crypto (LogID sample_crypto (replicate 32 9)) [sample_entry 1, sample_entry 2])"
proof -
  have "admissible_after sample_crypto (LogID sample_crypto (replicate 32 9)) [sample_entry 1] (sample_entry 2)"
    by (simp add: admissible_after_def sample_entry_verifies zeroHash_def sample_ids)
  then have "admissible sample_crypto (LogID sample_crypto (replicate 32 9)) ([sample_entry 1] @ [sample_entry 2])"
    unfolding admissible_snoc by (simp add: admissible_def sample_admissible)
  then show ?thesis by (subst OpenLog_iff) (simp_all add: PublicKeySize_def)
qed

section \<open>Properties\<close>

text \<open>Two entries with the same fields and seals whose sealing instants have the same 64-bit reading: what the signed
  bytes, and so the leaf, can tell apart. With instants that fit 64 bits they are the same entry.\<close>

definition same_sealed :: "entry \<Rightarrow> entry \<Rightarrow> bool" where
  "same_sealed e e' \<longleftrightarrow> UnixNano (e_SealedAt e) = UnixNano (e_SealedAt e') \<and> e\<lparr>e_SealedAt := 0\<rparr> = e'\<lparr>e_SealedAt := 0\<rparr>"

definition sealed_in_range :: "entry \<Rightarrow> bool" where
  "sealed_in_range e \<longleftrightarrow> nano_range (e_SealedAt e)"

lemma same_sealed_exact:
  assumes "same_sealed e e'" "sealed_in_range e" "sealed_in_range e'"
  shows "e = e'"
  using assms UnixNano_exact [of "e_SealedAt e" "e_SealedAt e'"] unfolding same_sealed_def sealed_in_range_def by (cases e; cases e') simp

lemma list_same_sealed_exact:
  "list_all2 same_sealed xs ys \<Longrightarrow> list_all sealed_in_range xs \<Longrightarrow> list_all sealed_in_range ys \<Longrightarrow> xs = ys"
  by (induction rule: list_all2_induct) (auto dest: same_sealed_exact)

lemma Entry_ID_same:
  assumes "canon_laws c" "collision_free c ps" "leaf_payload c e \<in> set ps" "leaf_payload c e' \<in> set ps"
    and "Entry_ID c e = Entry_ID c e'"
  shows "same_sealed e e'"
proof -
  have "leaf_payload c e = leaf_payload c e'"
    using assms(2-5) unfolding Entry_ID_def by (blast dest: collision_freeD)
  then have "[Entry_CanonicalBytes c e, e_ProposerSeal e, e_AcceptorSeal e] = [Entry_CanonicalBytes c e', e_ProposerSeal e', e_AcceptorSeal e']"
    by (intro canon_bytesD [OF assms(1)]) (simp_all add: leaf_payload_def)
  then have eq: "Entry_CanonicalBytes c e = Entry_CanonicalBytes c e'" "e_ProposerSeal e = e_ProposerSeal e'" "e_AcceptorSeal e = e_AcceptorSeal e'"
    by simp_all
  from canon_fieldsD [OF assms(1) eq(1) [unfolded Entry_CanonicalBytes_def]] eq(2,3) show ?thesis
    unfolding same_sealed_def by (cases e; cases e') simp
qed

lemma map_Entry_ID_same:
  assumes "canon_laws c" "collision_free c ps"
    and "set (map (leaf_payload c) xs) \<subseteq> set ps" "set (map (leaf_payload c) ys) \<subseteq> set ps"
    and "map (Entry_ID c) xs = map (Entry_ID c) ys"
  shows "list_all2 same_sealed xs ys"
  using map_eq_imp_length_eq [OF assms(5)] assms(3-5)
  by (induction rule: list_induct2) (auto intro: Entry_ID_same [OF assms(1,2)])

text \<open>Appending is reopening with one more entry. For the log \<open>OpenLog\<close> builds from a store,
  \<open>Append\<close> admits an entry exactly when both seals verify, it is bound to this log, what it corrects is
  already stored and its ID is new; it then returns the position after the last entry and the very log that
  \<open>OpenLog\<close> builds from the store with the entry added.\<close>

theorem Append_reopens:
  assumes "OpenLog c operator (Some st) = Inr l" and "length st + 1 < 2 ^ 63"
  shows "Log_Append c l e = Inr (seq, l') \<longleftrightarrow>
    admissible_after c (LogID c operator) st e \<and> seq = word_of_nat (length st) \<and>
    OpenLog c operator (Some (st @ [e])) = Inr l'"
proof -
  have "length st < 2 ^ 64" "length (st @ [e]) < 2 ^ 64" using assms(2) by simp_all
  note open_iff = this [THEN OpenLog_iff]
  from assms(1) have "length operator = PublicKeySize" "admissible c (LogID c operator) st"
    "l = log_of_store c (LogID c operator) st" by (simp_all add: open_iff(1))
  then show ?thesis by (auto simp: Log_Append_iff open_iff(2) admissible_snoc)
qed

theorem Append_reopens_witness:
  "Log_Append sample_crypto (log_of_store sample_crypto (LogID sample_crypto (replicate 32 9)) [sample_entry 1]) (sample_entry 2)
     = Inr (1, log_of_store sample_crypto (LogID sample_crypto (replicate 32 9)) [sample_entry 1, sample_entry 2])"
proof -
  have "admissible_after sample_crypto (LogID sample_crypto (replicate 32 9)) [sample_entry 1] (sample_entry 2)"
    by (simp add: admissible_after_def sample_entry_verifies zeroHash_def sample_ids)
  then show ?thesis
    using Append_reopens [OF sample_open [of 1], of "sample_entry 2"] sample_open_two by simp
qed

text \<open>C8: an appended entry is provable. For every position of an opened log, \<open>Prove\<close> returns a proof
  that \<open>VerifyInclusion\<close> accepts for the entry stored there, under the operator-signed checkpoint of
  the same state; the proof has at most \<open>j\<close> hashes when the log has at most \<open>2 ^ j\<close> entries.\<close>

theorem VerifyInclusion_complete:
  assumes "keypair c priv" and "OpenLog c (ed_public c priv) (Some st) = Inr l" and "length st < 2 ^ 63"
    and "i < length st" and "Checkpoint_Sign c priv (Log_Checkpoint c l t) = Some cp"
  shows "\<exists>p. Log_Prove c l (word_of_nat i) = Inr p \<and>
    VerifyInclusion c (st ! i) p cp (ed_public c priv) = Some True \<and>
    (\<forall>j. length st \<le> 2 ^ j \<longrightarrow> length (pf_Path p) \<le> j)"
proof -
  have st64: "length st < 2 ^ 64" using assms(3) by simp
  have l: "admissible c (LogID c (ed_public c priv)) st" "l = log_of_store c (LogID c (ed_public c priv)) st"
    using assms(2) by (simp_all add: OpenLog_iff [OF st64])
  have i: "unat (word_of_nat i :: u64) = i" using assms(3,4) by (intro unat_word_of_nat64) simp
  have len: "length (lg_leafs l) < 2 ^ 63" using assms(3) l(2) by simp
  obtain p where p: "Log_Prove c l (word_of_nat i) = Inr p"
    "rootFromPath c (Entry_ID c (st ! i)) (pf_Seq p) (cp_Size (Log_Checkpoint c l t)) (pf_Path p)
      = Some (Some (cp_Head (Log_Checkpoint c l t)))"
    using dialog.inclusion_roundtrip [OF len, of "word_of_nat i" c t] i assms(4) l(2) by auto
  note sg = Checkpoint_Sign_VerifyAs [OF assms(1,5)]
  have e: "Entry_Verify c (st ! i)" "e_Log (st ! i) = LogID c (ed_public c priv)"
    using l(1) assms(4) by (simp_all add: admissible_def admissible_after_def)
  have "cp_Log (Log_Checkpoint c l t) = LogID c (ed_public c priv)"
    using dialog.head_fields [OF len, of c t] l(2) by simp
  then have "VerifyInclusion c (st ! i) p cp (ed_public c priv) = Some True"
    using sg e p(2) by (simp add: VerifyInclusion_def Checkpoint_Verify_def)
  moreover have "pf_Path p = provePath c i (lg_leafs l)"
    using p(1) dialog.path_result [OF len, of c "word_of_nat i"] i assms(4) l(2) by auto
  ultimately show ?thesis using p(1) provePath_length [of "lg_leafs l"] l(2) by auto
qed

theorem VerifyInclusion_complete_witness:
  "\<exists>cp p. Log_Prove sample_crypto (log_of_store sample_crypto (LogID sample_crypto (replicate 32 9)) [sample_entry 1, sample_entry 2]) 1 = Inr p \<and>
     VerifyInclusion sample_crypto (sample_entry 2) p cp (replicate 32 9) = Some True \<and> length (pf_Path p) \<le> 1"
proof -
  let ?l = "log_of_store sample_crypto (LogID sample_crypto (replicate 32 9)) [sample_entry 1, sample_entry 2]"
  obtain cp where cp: "Checkpoint_Sign sample_crypto (sample_priv 9) (Log_Checkpoint sample_crypto ?l 0) = Some cp"
    using Checkpoint_Sign_total [OF sample_keypair] by blast
  have "OpenLog sample_crypto (ed_public sample_crypto (sample_priv 9)) (Some [sample_entry 1, sample_entry 2]) = Inr ?l"
    using sample_open_two by simp
  from VerifyInclusion_complete [OF sample_keypair this _ _ cp, of 1] obtain p where
    "Log_Prove sample_crypto ?l 1 = Inr p" "VerifyInclusion sample_crypto (sample_entry 2) p cp (replicate 32 9) = Some True"
    "\<forall>j. length [sample_entry 1, sample_entry 2] \<le> 2 ^ j \<longrightarrow> length (pf_Path p) \<le> j"
    by auto
  moreover from this(3) have "length (pf_Path p) \<le> 1" by (auto dest: spec [of _ 1])
  ultimately show ?thesis by blast
qed

text \<open>C6: what verifies is stored. If \<open>VerifyInclusion\<close> accepts an entry under a checkpoint that commits to
  the head of an opened log, then at the position the proof names the store holds an entry with the same parties, content,
  correction, nonce and seals and the same sealing instant as the 64-bit nanosecond count that is signed, provided the hash separates the payloads the
  log and the verifier hash. If both instants fit 64 bits, it is that very entry.\<close>

theorem VerifyInclusion_sound:
  assumes "canon_laws c" and "OpenLog c operator (Some st) = Inr l" and "st \<noteq> []" and "length st < 2 ^ 63"
    and "cp_Size cp = cp_Size (Log_Checkpoint c l t)" and "cp_Head cp = cp_Head (Log_Checkpoint c l t)"
    and "VerifyInclusion c e p cp operator = Some True"
    and "collision_free c (leaf_payload c e # map (leaf_payload c) st @ mth_pre c (lg_leafs l) @
      root_pre c (Entry_ID c e) (unat (pf_Seq p)) (length st) (pf_Path p))"
  shows "unat (pf_Seq p) < length st \<and> same_sealed e (st ! unat (pf_Seq p)) \<and>
    (sealed_in_range e \<and> sealed_in_range (st ! unat (pf_Seq p)) \<longrightarrow> e = st ! unat (pf_Seq p))"
proof -
  have st64: "length st < 2 ^ 64" using assms(4) by simp
  have l: "l = log_of_store c (LogID c operator) st" using assms(2) by (simp add: OpenLog_iff [OF st64])
  have len: "length (lg_leafs l) < 2 ^ 63" using assms(4) l by simp
  note hf = dialog.head_fields [OF len, of c t]
  have ne: "lg_leafs l \<noteq> []" and ll: "length (lg_leafs l) = length st" using assms(3) l by simp_all
  have "rootFromPath c (Entry_ID c e) (pf_Seq p) (word_of_nat (length (lg_leafs l))) (pf_Path p)
      = Some (Some (mth c (lg_leafs l)))"
    using assms(5-7) hf ne by (auto simp: VerifyInclusion_def split: if_splits option.splits)
  then have "root_nat c (Entry_ID c e) (unat (pf_Seq p)) (length (lg_leafs l)) (pf_Path p) = Some (mth c (lg_leafs l))"
    using rootFromPath_nat [of "word_of_nat (length (lg_leafs l))"] len by (simp add: unat_word_of_nat64)
  from root_nat_sound [OF assms(1,8) this] ll
  have i: "unat (pf_Seq p) < length st" and id: "Entry_ID c e = lg_leafs l ! unat (pf_Seq p)" by auto
  then have "Entry_ID c e = Entry_ID c (st ! unat (pf_Seq p))" using l by simp
  then have "same_sealed e (st ! unat (pf_Seq p))"
    using i by (intro Entry_ID_same [OF assms(1,8)]) auto
  with i show ?thesis using same_sealed_exact by blast
qed

theorem VerifyInclusion_sound_witness:
  "unat (1 :: u64) < length [sample_entry 1, sample_entry 2] \<and>
   same_sealed (sample_entry 2) ([sample_entry 1, sample_entry 2] ! unat (1 :: u64))"
proof -
  let ?st = "[sample_entry 1, sample_entry 2]"
  let ?l = "log_of_store sample_crypto (LogID sample_crypto (replicate 32 9)) ?st"
  let ?p = "\<lparr>pf_Seq = 1, pf_Path = [6516]\<rparr>"
  obtain cp where cp: "Checkpoint_Sign sample_crypto (sample_priv 9) (Log_Checkpoint sample_crypto ?l 0) = Some cp"
    using Checkpoint_Sign_total [OF sample_keypair] by blast
  note f = Checkpoint_Sign_VerifyAs [OF sample_keypair cp]
  have o: "OpenLog sample_crypto (ed_public sample_crypto (sample_priv 9)) (Some ?st) = Inr ?l"
    using sample_open_two by simp
  have v: "VerifyInclusion sample_crypto (sample_entry 2) ?p cp (ed_public sample_crypto (sample_priv 9)) = Some True"
  proof -
    have "rootFromPath sample_crypto 6517 1 2 [6516] = Some (Some (mth sample_crypto [6516, 6517]))"
      using rootFromPath_complete [of 1 "[6516, 6517]" sample_crypto] by (simp add: provePath.simps lp2_two)
    then show ?thesis
      using f by (simp add: VerifyInclusion_def Checkpoint_Verify_def sample_entry_verifies Log_Checkpoint_def sample_ids Let_def)
  qed
  have cf: "collision_free sample_crypto (leaf_payload sample_crypto (sample_entry 2) # map (leaf_payload sample_crypto) ?st @
      mth_pre sample_crypto (lg_leafs ?l) @ root_pre sample_crypto (Entry_ID sample_crypto (sample_entry 2))
        (unat (pf_Seq ?p)) (length ?st) (pf_Path ?p))"
    by (simp add: collision_free_def inj_on_def mth_pre.simps root_pre.simps root_nat.simps lp2_two sample_ids Let_def
        sample_leaf_sum sample_node_sum sample_b32_sums)
  have "unat (pf_Seq ?p) < length ?st \<and> same_sealed (sample_entry 2) (?st ! unat (pf_Seq ?p)) \<and>
    (sealed_in_range (sample_entry 2) \<and> sealed_in_range (?st ! unat (pf_Seq ?p)) \<longrightarrow> sample_entry 2 = ?st ! unat (pf_Seq ?p))"
    by (rule VerifyInclusion_sound [OF sample_canon_laws o _ _ f(3,4) v cf]) simp_all
  then show ?thesis by simp
qed

text \<open>A checkpoint commits to a leaf list; the head of the empty tree is the log identity and is not
  constrained here.\<close>

definition commits :: "crypto \<Rightarrow> checkpoint \<Rightarrow> b32 list \<Rightarrow> bool" where
  "commits c cp leaves \<longleftrightarrow> length leaves < 2 ^ 63 \<and> cp_Size cp = word_of_nat (length leaves) \<and>
     (leaves \<noteq> [] \<longrightarrow> cp_Head cp = mth c leaves)"

text \<open>Only the newer checkpoint has to commit to a leaf list: an accepted proof makes the older one commit to its initial part.\<close>

lemma consistency_commits:
  assumes "canon_laws c" "collision_free c ps" and new: "commits c newer ys"
    and v: "VerifyConsistencyAs c older newer hs signer logid = Some True"
    and "set (mth_pre c ys) \<subseteq> set ps" "set (cons_pre c (unat (cp_Size older)) (length ys) True hs (cp_Head older)) \<subseteq> set ps"
  shows "unat (cp_Size older) \<le> length ys \<and> commits c older (take (unat (cp_Size older)) ys)"
proof -
  let ?m = "unat (cp_Size older)"
  have un: "unat (cp_Size newer) = length ys" and len: "length ys < 2 ^ 63" using new by (simp_all add: commits_def unat_word_of_nat64)
  have le: "?m \<le> length ys"
    using v un by (auto simp: VerifyConsistencyAs_def word_less_nat_alt not_less split: if_splits)
  have "cp_Head older = mth c (take ?m ys)" if m: "?m \<noteq> 0"
  proof -
    have ne: "ys \<noteq> []" using le m by auto
    then have head: "cp_Head newer = mth c ys" using new by (simp add: commits_def)
    have nz: "cp_Size older \<noteq> 0" using m by (metis unat_0)
    show ?thesis
    proof (cases "cp_Size older = cp_Size newer")
      case True
      then have "cp_Head older = cp_Head newer" using v nz by (auto simp: VerifyConsistencyAs_def split: if_splits)
      then show ?thesis using True un head by simp
    next
      case False
      have "consRoots c (cp_Size older) (cp_Size newer) True hs (cp_Head older) = Some (Some (cp_Head older, cp_Head newer, []))"
        using v False nz by (auto simp: VerifyConsistencyAs_def split: if_splits option.splits)
      then have "cons_nat c ?m (length ys) True hs (cp_Head older) = Some (cp_Head older, mth c ys, [])"
        using consRoots_nat [of "cp_Size newer" "cp_Size older" c True hs "cp_Head older"] un head len nz by (simp add: unat_gt_0)
      from cons_nat_sound [OF assms(1,2) this _ assms(5,6)] m show ?thesis by simp
    qed
  qed
  then show ?thesis using le len by (auto simp: commits_def)
qed

lemma consistency_prefix:
  assumes "canon_laws c" "collision_free c ps" and old: "commits c older xs" and new: "commits c newer ys"
    and v: "VerifyConsistencyAs c older newer hs signer logid = Some True"
    and "set (mth_pre c xs) \<subseteq> set ps" "set (mth_pre c (take (length xs) ys)) \<subseteq> set ps" "set (mth_pre c ys) \<subseteq> set ps"
      "set (cons_pre c (length xs) (length ys) True hs (cp_Head older)) \<subseteq> set ps"
  shows "take (length xs) ys = xs"
proof (cases "xs = []")
  case True
  then show ?thesis by simp
next
  case ne: False
  have un: "unat (cp_Size older) = length xs" "unat (cp_Size newer) = length ys"
    using old new by (simp_all add: commits_def unat_word_of_nat64)
  have nz: "cp_Size older \<noteq> 0" using un ne by auto
  have lt: "\<not> cp_Size newer < cp_Size older"
    using v nz by (auto simp: VerifyConsistencyAs_def split: if_splits)
  then have le: "length xs \<le> length ys" using un by (simp add: word_less_nat_alt not_less)
  have heads: "cp_Head older = mth c xs" "cp_Head newer = mth c ys"
    using old new ne le by (auto simp: commits_def)
  have "mth c xs = mth c (take (length xs) ys)"
  proof (cases "cp_Size older = cp_Size newer")
    case True
    then have "length xs = length ys" using un by simp
    moreover have "cp_Head older = cp_Head newer"
      using v True nz by (auto simp: VerifyConsistencyAs_def split: if_splits)
    ultimately show ?thesis using heads by simp
  next
    case False
    have "consRoots c (cp_Size older) (cp_Size newer) True hs (cp_Head older) = Some (Some (cp_Head older, cp_Head newer, []))"
      using v False nz lt by (auto simp: VerifyConsistencyAs_def split: if_splits option.splits)
    then have "cons_nat c (length xs) (length ys) True hs (cp_Head older) = Some (cp_Head older, mth c ys, [])"
      using consRoots_nat [of "cp_Size newer" "cp_Size older" c True hs "cp_Head older"] un heads ne new
      by (simp add: commits_def)
    from cons_nat_sound [OF assms(1,2) this _ assms(8,9)] ne heads show ?thesis by auto
  qed
  then have "xs = take (length xs) ys"
    using ne le assms(6,7) by (intro mth_inject [OF assms(1) _ _ _ assms(2)]) auto
  then show ?thesis by simp
qed

text \<open>An honest extension always verifies. For a log opened on a store and the log opened on that
  store with further entries, \<open>ProveConsistency\<close> of the newer log at the older checkpoint's size returns a
  proof that \<open>VerifyConsistency\<close> accepts between the two signed checkpoints.\<close>

theorem VerifyConsistency_complete:
  assumes "keypair c priv" and "OpenLog c (ed_public c priv) (Some st) = Inr l0"
    and "OpenLog c (ed_public c priv) (Some (st @ ext)) = Inr l" and "length (st @ ext) < 2 ^ 63"
    and "Checkpoint_Sign c priv (Log_Checkpoint c l0 t0) = Some older"
    and "Checkpoint_Sign c priv (Log_Checkpoint c l t) = Some newer"
  shows "\<exists>hs. Log_ProveConsistency c l (cp_Size older) = Inr hs \<and>
    VerifyConsistency c older newer hs (ed_public c priv) = Some True"
proof -
  have "length st < 2 ^ 64" "length (st @ ext) < 2 ^ 64" using assms(4) by simp_all
  note o = this [THEN OpenLog_iff]
  have l0: "l0 = log_of_store c (LogID c (ed_public c priv)) st"
    and l: "l = log_of_store c (LogID c (ed_public c priv)) (st @ ext)"
    using assms(2,3) by (simp_all add: o)
  have "length (lg_leafs l) < 2 ^ 63" using assms(4) l by simp
  from dialog.extension_roundtrip [OF this _ _ assms(1,5,6), of "map (Entry_ID c) ext"] show ?thesis
    by (simp add: l l0 VerifyConsistency_def)
qed

theorem VerifyConsistency_complete_witness:
  "\<exists>older newer hs. Log_ProveConsistency sample_crypto
      (log_of_store sample_crypto (LogID sample_crypto (replicate 32 9)) [sample_entry 1, sample_entry 2]) 1 = Inr hs \<and>
    VerifyConsistency sample_crypto older newer hs (replicate 32 9) = Some True"
proof -
  let ?log = "log_of_store sample_crypto (LogID sample_crypto (replicate 32 9))"
  obtain older newer where s:
    "Checkpoint_Sign sample_crypto (sample_priv 9) (Log_Checkpoint sample_crypto (?log [sample_entry 1]) 0) = Some older"
    "Checkpoint_Sign sample_crypto (sample_priv 9) (Log_Checkpoint sample_crypto (?log [sample_entry 1, sample_entry 2]) 0) = Some newer"
    using Checkpoint_Sign_total [OF sample_keypair] by blast
  have sz: "cp_Size older = 1" using Checkpoint_Sign_VerifyAs(3) [OF sample_keypair s(1)] by (simp add: Log_Checkpoint_def)
  have o: "OpenLog sample_crypto (ed_public sample_crypto (sample_priv 9)) (Some [sample_entry 1]) = Inr (?log [sample_entry 1])"
    "OpenLog sample_crypto (ed_public sample_crypto (sample_priv 9)) (Some ([sample_entry 1] @ [sample_entry 2]))
      = Inr (?log [sample_entry 1, sample_entry 2])"
    using sample_open sample_open_two by simp_all
  from VerifyConsistency_complete [OF sample_keypair o _ s] sz show ?thesis by auto
qed

text \<open>C7: consistency pins history. If \<open>VerifyConsistency\<close> accepts two checkpoints that commit to the heads of
  two opened stores, then the newer store starts with the older one entry by entry, each with the same signed fields and seals (instants
  as the 64-bit nanosecond counts that are signed), provided the hash separates the payloads involved: nothing was edited, removed or reordered. If
  all instants fit 64 bits, the older store is a prefix of the newer one.\<close>

theorem VerifyConsistency_sound:
  assumes "canon_laws c" and "OpenLog c operator (Some st) = Inr l" and "OpenLog c operator (Some st') = Inr l'"
    and "length st < 2 ^ 63" and "length st' < 2 ^ 63"
    and "cp_Size older = cp_Size (Log_Checkpoint c l t) \<and> cp_Head older = cp_Head (Log_Checkpoint c l t)"
    and "cp_Size newer = cp_Size (Log_Checkpoint c l' t') \<and> cp_Head newer = cp_Head (Log_Checkpoint c l' t')"
    and "VerifyConsistency c older newer hs operator = Some True"
    and "collision_free c (map (leaf_payload c) (st @ st') @ mth_pre c (lg_leafs l) @
      mth_pre c (take (length st) (lg_leafs l')) @ mth_pre c (lg_leafs l') @
      cons_pre c (length st) (length st') True hs (cp_Head older))"
  shows "list_all2 same_sealed st (take (length st) st') \<and>
    (list_all sealed_in_range st \<and> list_all sealed_in_range st' \<longrightarrow> take (length st) st' = st)"
proof -
  have "length st < 2 ^ 64" "length st' < 2 ^ 64" using assms(4,5) by simp_all
  note o = this [THEN OpenLog_iff]
  have l: "l = log_of_store c (LogID c operator) st" and l': "l' = log_of_store c (LogID c operator) st'"
    using assms(2,3) by (simp_all add: o)
  have "length (lg_leafs l) < 2 ^ 63" "length (lg_leafs l') < 2 ^ 63" using assms(4,5) l l' by simp_all
  then have "commits c older (lg_leafs l)" "commits c newer (lg_leafs l')"
    using dialog.head_fields [of l c t] dialog.head_fields [of l' c t'] assms(6,7) by (auto simp: commits_def)
  from consistency_prefix [OF assms(1,9) this assms(8) [unfolded VerifyConsistency_def]]
  have "take (length st) (lg_leafs l') = lg_leafs l" using l l' by auto
  then have "map (Entry_ID c) st = map (Entry_ID c) (take (length st) st')" using l l' by (simp add: take_map)
  then have same: "list_all2 same_sealed st (take (length st) st')"
    by (intro map_Entry_ID_same [OF assms(1,9)]) (auto dest: in_set_takeD)
  moreover have "list_all sealed_in_range st' \<Longrightarrow> list_all sealed_in_range (take (length st) st')" by (auto simp: list_all_iff dest: in_set_takeD)
  ultimately show ?thesis using list_same_sealed_exact [OF same] by metis
qed

theorem VerifyConsistency_sound_witness:
  "list_all2 same_sealed [sample_entry 1] (take (length [sample_entry 1]) [sample_entry 1, sample_entry 2])"
proof -
  let ?log = "log_of_store sample_crypto (LogID sample_crypto (replicate 32 9))"
  obtain older newer where s:
    "Checkpoint_Sign sample_crypto (sample_priv 9) (Log_Checkpoint sample_crypto (?log [sample_entry 1]) 0) = Some older"
    "Checkpoint_Sign sample_crypto (sample_priv 9) (Log_Checkpoint sample_crypto (?log [sample_entry 1, sample_entry 2]) 0) = Some newer"
    using Checkpoint_Sign_total [OF sample_keypair] by blast
  note f = Checkpoint_Sign_VerifyAs [OF sample_keypair s(1)] and g = Checkpoint_Sign_VerifyAs [OF sample_keypair s(2)]
  have "consRoots sample_crypto 1 2 True [6517] 6516 = Some (Some (6516, mth sample_crypto [6516, 6517], []))"
    using consRoots_complete [of 1 "[6516, 6517]" sample_crypto]
    by (simp add: proveConsistency_def subProof.simps lp2_two)
  moreover have "\<not> (2 :: u64) < 1" by simp
  ultimately have v: "VerifyConsistency sample_crypto older newer [6517] (replicate 32 9) = Some True"
    using f g by (simp add: VerifyConsistency_def VerifyConsistencyAs_def Log_Checkpoint_def sample_ids Let_def)
  have cf: "collision_free sample_crypto (map (leaf_payload sample_crypto) ([sample_entry 1] @ [sample_entry 1, sample_entry 2]) @
      mth_pre sample_crypto (lg_leafs (?log [sample_entry 1])) @
      mth_pre sample_crypto (take (length [sample_entry 1]) (lg_leafs (?log [sample_entry 1, sample_entry 2]))) @
      mth_pre sample_crypto (lg_leafs (?log [sample_entry 1, sample_entry 2])) @
      cons_pre sample_crypto (length [sample_entry 1]) (length [sample_entry 1, sample_entry 2]) True [6517] (cp_Head older))"
    using f by (simp add: collision_free_def inj_on_def mth_pre.simps cons_pre.simps cons_nat.simps lp2_two sample_ids Let_def
        sample_leaf_sum sample_node_sum sample_b32_sums Log_Checkpoint_def)
  show ?thesis
    by (rule conjunct1 [OF VerifyConsistency_sound [OF sample_canon_laws sample_open sample_open_two _ _ _ _ v cf]]) (use f g in simp_all)
qed

end
