(* ===== verification/Record_Witness.thy ===== *)
theory Record_Witness
  imports Record_Log "HOL-Library.Sublist"
begin

text \<open>
  Independent witnesses (\<open>src/internal/record/witness.go\<close>), the filing intake at a witness
  (\<open>filing.go\<close>) and the erasable content locker (\<open>locker.go\<close>). A witness keeps the last
  checkpoint it cosigned per log; the theorems follow one witness through a whole sequence of
  requests.
\<close>

section \<open>Countersignatures\<close>

datatype witness_error = WitKeyMalformed | WitOwnOperator | WitBadCheckpoint | WitForkRefused

definition domainWitness :: string where "domainWitness = ''drops/witness/v1''"

definition witnessPayload :: "crypto \<Rightarrow> checkpoint \<Rightarrow> bytes" where
  "witnessPayload c cp = canon_sum c domainWitness [CBytes (Checkpoint_CanonicalBytes c cp)]"

record countersignature =
  cs_Witness :: bytes
  cs_Signature :: bytes

definition Countersignature_Verify :: "crypto \<Rightarrow> countersignature \<Rightarrow> checkpoint \<Rightarrow> bool" where
  "Countersignature_Verify c cs cp \<longleftrightarrow>
     length (cs_Witness cs) = PublicKeySize \<and> length (cs_Signature cs) = SignatureSize \<and>
     sig_ok c (cs_Witness cs) (witnessPayload c cp) (cs_Signature cs)"

record witness =
  w_priv :: bytes
  w_pub :: bytes
  w_last :: "b32 \<rightharpoonup> checkpoint"

definition NewWitness :: "crypto \<Rightarrow> bytes \<Rightarrow> witness" where
  "NewWitness c priv =
     \<lparr>w_priv = priv, w_pub = (if length priv = PrivateKeySize then ed_public c priv else []), w_last = Map.empty\<rparr>"

definition Witness_Key :: "witness \<Rightarrow> bytes" where
  "Witness_Key w = w_pub w"

text \<open>\<open>None\<close> is a call that does not return.\<close>

definition CountersignAs ::
  "crypto \<Rightarrow> witness \<Rightarrow> checkpoint \<Rightarrow> bytes \<Rightarrow> b32 \<Rightarrow> b32 list
     \<Rightarrow> (witness_error + countersignature \<times> witness) option" where
  "CountersignAs c w cp operator wantLog hs =
     (if length (w_priv w) \<noteq> PrivateKeySize then Some (Inl WitKeyMalformed)
      else if operator = w_pub w then Some (Inl WitOwnOperator)
      else if \<not> Checkpoint_VerifyAs c cp operator wantLog then Some (Inl WitBadCheckpoint)
      else
        let accept = Some (Inr (\<lparr>cs_Witness = w_pub w, cs_Signature = ed_sign c (w_priv w) (witnessPayload c cp)\<rparr>,
                                w\<lparr>w_last := (w_last w)(cp_Log cp \<mapsto> cp)\<rparr>))
        in case w_last w (cp_Log cp) of
             None \<Rightarrow> accept
           | Some prev \<Rightarrow>
               (case VerifyConsistencyAs c prev cp hs operator wantLog of
                  None \<Rightarrow> None | Some False \<Rightarrow> Some (Inl WitForkRefused) | Some True \<Rightarrow> accept))"

definition Countersign ::
  "crypto \<Rightarrow> witness \<Rightarrow> checkpoint \<Rightarrow> bytes \<Rightarrow> b32 list \<Rightarrow> (witness_error + countersignature \<times> witness) option"
where
  "Countersign c w cp operator hs = CountersignAs c w cp operator (LogID c operator) hs"

section \<open>Witnessed checkpoints\<close>

record witnessed_checkpoint =
  wc_Checkpoint :: checkpoint
  wc_Countersignatures :: "countersignature list"

text \<open>The loop of \<open>WitnessedCheckpoint.Verify\<close>, with the keys seen so far.\<close>

fun wc_scan :: "crypto \<Rightarrow> checkpoint \<Rightarrow> bytes \<Rightarrow> string set \<Rightarrow> countersignature list \<Rightarrow> bool" where
  "wc_scan c cp operator seen [] = True"
| "wc_scan c cp operator seen (cs # rest) =
     (if \<not> Countersignature_Verify c cs cp then False
      else if cs_Witness cs = operator then False
      else let k = str_of_bytes (cs_Witness cs) in
        if k \<in> seen then False else wc_scan c cp operator (insert k seen) rest)"

definition WitnessedCheckpoint_Verify :: "crypto \<Rightarrow> witnessed_checkpoint \<Rightarrow> bytes \<Rightarrow> bool" where
  "WitnessedCheckpoint_Verify c w operator \<longleftrightarrow>
     Checkpoint_Verify c (wc_Checkpoint w) operator \<and>
     wc_scan c (wc_Checkpoint w) operator {} (wc_Countersignatures w)"

fun standin_scan :: "crypto \<Rightarrow> checkpoint \<Rightarrow> bytes \<Rightarrow> string set \<Rightarrow> countersignature list \<Rightarrow> string set" where
  "standin_scan c cp operator distinct_keys [] = distinct_keys"
| "standin_scan c cp operator distinct_keys (cs # rest) =
     (if \<not> Countersignature_Verify c cs cp \<or> cs_Witness cs = operator
      then standin_scan c cp operator distinct_keys rest
      else standin_scan c cp operator (insert (str_of_bytes (cs_Witness cs)) distinct_keys) rest)"

definition StandIn :: "crypto \<Rightarrow> witnessed_checkpoint \<Rightarrow> bytes \<Rightarrow> bool" where
  "StandIn c w operator \<longleftrightarrow>
     card (standin_scan c (wc_Checkpoint w) operator {} (wc_Countersignatures w)) < 2"

section \<open>Filing intake\<close>

datatype filing_error = FilKeyMalformed | FilBadCommitment | FilOwnFiling

definition domainFiling :: string where "domainFiling = ''drops/lifecycle-filing/v1''"
definition domainFilingReceipt :: string where "domainFilingReceipt = ''drops/lifecycle-filing-receipt/v1''"

record filing_commitment =
  fc_Claim :: b32
  fc_Exchange :: b32
  fc_TypeHash :: b32
  fc_At :: gotime
  fc_Filer :: bytes
  fc_Signature :: bytes

definition FilingCommitment_CanonicalBytes :: "crypto \<Rightarrow> filing_commitment \<Rightarrow> bytes" where
  "FilingCommitment_CanonicalBytes c f =
     canon_sum c domainFiling
       [CBytes (b32_bytes (fc_Claim f)), CBytes (b32_bytes (fc_Exchange f)), CBytes (b32_bytes (fc_TypeHash f)),
        CTime (fc_At f), CBytes (fc_Filer f)]"

definition FilingCommitment_Sign :: "crypto \<Rightarrow> bytes \<Rightarrow> filing_commitment \<Rightarrow> filing_commitment option" where
  "FilingCommitment_Sign c priv f =
     map_option (\<lambda>sig. f\<lparr>fc_Signature := sig\<rparr>) (ed25519_Sign c priv (FilingCommitment_CanonicalBytes c f))"

definition FilingCommitment_Verify :: "crypto \<Rightarrow> filing_commitment \<Rightarrow> bool" where
  "FilingCommitment_Verify c f \<longleftrightarrow>
     length (fc_Filer f) = PublicKeySize \<and> length (fc_Signature f) = SignatureSize \<and>
     fc_Claim f \<noteq> zeroHash \<and> fc_Exchange f \<noteq> zeroHash \<and>
     sig_ok c (fc_Filer f) (FilingCommitment_CanonicalBytes c f) (fc_Signature f)"

record filing_receipt =
  fr_Commitment :: filing_commitment
  fr_Witness :: bytes
  fr_ReceivedAt :: gotime
  fr_Signature :: bytes

definition FilingReceipt_CanonicalBytes :: "crypto \<Rightarrow> filing_receipt \<Rightarrow> bytes" where
  "FilingReceipt_CanonicalBytes c r =
     canon_sum c domainFilingReceipt
       [CBytes (FilingCommitment_CanonicalBytes c (fr_Commitment r)), CBytes (fr_Witness r), CTime (fr_ReceivedAt r)]"

definition FilingReceipt_Verify :: "crypto \<Rightarrow> filing_receipt \<Rightarrow> bool" where
  "FilingReceipt_Verify c r \<longleftrightarrow>
     FilingCommitment_Verify c (fr_Commitment r) \<and>
     length (fr_Witness r) = PublicKeySize \<and> length (fr_Signature r) = SignatureSize \<and>
     str_of_bytes (fr_Witness r) \<noteq> str_of_bytes (fc_Filer (fr_Commitment r)) \<and>
     sig_ok c (fr_Witness r) (FilingReceipt_CanonicalBytes c r) (fr_Signature r)"

definition IndependentOf :: "filing_receipt \<Rightarrow> bytes \<Rightarrow> bool" where
  "IndependentOf r operator \<longleftrightarrow>
     length operator = PublicKeySize \<and> str_of_bytes (fr_Witness r) \<noteq> str_of_bytes operator"

record filing_intake =
  fi_priv :: bytes
  fi_pub :: bytes

definition NewFilingIntake :: "crypto \<Rightarrow> bytes \<Rightarrow> filing_intake" where
  "NewFilingIntake c priv =
     \<lparr>fi_priv = priv, fi_pub = (if length priv = PrivateKeySize then ed_public c priv else [])\<rparr>"

definition FilingIntake_Key :: "filing_intake \<Rightarrow> bytes" where
  "FilingIntake_Key fi = fi_pub fi"

definition FilingIntake_Accept ::
  "crypto \<Rightarrow> filing_intake \<Rightarrow> filing_commitment \<Rightarrow> gotime \<Rightarrow> filing_error + filing_receipt" where
  "FilingIntake_Accept c fi f at =
     (if length (fi_priv fi) \<noteq> PrivateKeySize then Inl FilKeyMalformed
      else if \<not> FilingCommitment_Verify c f then Inl FilBadCommitment
      else if str_of_bytes (fc_Filer f) = str_of_bytes (fi_pub fi) then Inl FilOwnFiling
      else let r = \<lparr>fr_Commitment = f, fr_Witness = fi_pub fi, fr_ReceivedAt = at, fr_Signature = []\<rparr>
           in Inr (r\<lparr>fr_Signature := ed_sign c (fi_priv fi) (FilingReceipt_CanonicalBytes c r)\<rparr>))"

section \<open>The locker\<close>

type_synonym locker = "b32 \<rightharpoonup> bytes"

definition NewMemLocker :: locker where "NewMemLocker = Map.empty"

definition Locker_Put :: "crypto \<Rightarrow> locker \<Rightarrow> bytes \<Rightarrow> b32 \<times> locker" where
  "Locker_Put c m content = (let h = HashContent c content in (h, m(h \<mapsto> content)))"

definition Locker_Get :: "locker \<Rightarrow> b32 \<Rightarrow> bytes option" where
  "Locker_Get m h = m h"

definition Locker_Erase :: "locker \<Rightarrow> b32 \<Rightarrow> locker" where
  "Locker_Erase m h = m(h := None)"

section \<open>A witness over time\<close>

text \<open>One request to \<open>CountersignAs\<close>, and a witness serving a list of requests; the result lists the
  checkpoints it cosigned, in order, and its final state. A request that does not return ends the
  run with \<open>None\<close>.\<close>

record cosign_request =
  rq_cp :: checkpoint
  rq_operator :: bytes
  rq_log :: b32
  rq_proof :: "b32 list"

fun witness_run :: "crypto \<Rightarrow> witness \<Rightarrow> cosign_request list \<Rightarrow> (checkpoint list \<times> witness) option" where
  "witness_run c w [] = Some ([], w)"
| "witness_run c w (r # rs) =
     (case CountersignAs c w (rq_cp r) (rq_operator r) (rq_log r) (rq_proof r) of
        None \<Rightarrow> None
      | Some (Inl e) \<Rightarrow> witness_run c w rs
      | Some (Inr (cs, w')) \<Rightarrow> map_option (\<lambda>(cps, w2). (rq_cp r # cps, w2)) (witness_run c w' rs))"

text \<open>The payloads hashed in the trees of a leaf list's initial parts and in the consistency checks of a list of requests.\<close>

definition run_payloads :: "crypto \<Rightarrow> b32 list \<Rightarrow> cosign_request list \<Rightarrow> bytes list" where
  "run_payloads c leaves rs =
     concat (map (\<lambda>n. mth_pre c (take n leaves)) [0..<Suc (length leaves)]) @
     concat (map (\<lambda>r. concat (map (\<lambda>q. cons_pre c (unat (cp_Size (rq_cp q))) (unat (cp_Size (rq_cp r))) True (rq_proof r) (cp_Head (rq_cp q))) rs)) rs)"

lemma run_payloads_tree: "set (mth_pre c (take n leaves)) \<subseteq> set (run_payloads c leaves rs)"
proof -
  have eq: "take n leaves = take (min n (length leaves)) leaves" by (simp add: min_def)
  show ?thesis unfolding run_payloads_def by (subst eq) (force simp: min_def)
qed

lemma run_payloads_cons:
  "r \<in> set rs \<Longrightarrow> q \<in> set rs \<Longrightarrow>
     set (cons_pre c (unat (cp_Size (rq_cp q))) (unat (cp_Size (rq_cp r))) True (rq_proof r) (cp_Head (rq_cp q))) \<subseteq> set (run_payloads c leaves rs)"
  by (force simp: run_payloads_def)

lemma run_payloads_take: "set (run_payloads c (take n leaves) rs) \<subseteq> set (run_payloads c leaves rs)"
proof -
  have "x \<in> set (mth_pre c (take k (take n leaves))) \<Longrightarrow> x \<in> set (run_payloads c leaves rs)" for k x
    using run_payloads_tree [of c "min k n" leaves rs] by (auto simp: take_take)
  then show ?thesis
    unfolding run_payloads_def [of c "take n leaves"] by (auto simp del: take_take upt_Suc intro: subsetD [OF run_payloads_cons])
qed

text \<open>The later checkpoint continues the earlier one: it is no smaller, at the same size it has the same head, and whatever leaf list it
  commits to, the earlier one commits to the initial part of it, provided the hash separates the payloads involved.\<close>

definition continues :: "crypto \<Rightarrow> cosign_request list \<Rightarrow> checkpoint \<Rightarrow> checkpoint \<Rightarrow> bool" where
  "continues c rs a b \<longleftrightarrow> cp_Size a \<le> cp_Size b \<and> (cp_Size a = cp_Size b \<and> cp_Size a \<noteq> 0 \<longrightarrow> cp_Head a = cp_Head b) \<and>
     (\<forall>leaves. commits c b leaves \<and> collision_free c (run_payloads c leaves rs) \<longrightarrow> commits c a (take (unat (cp_Size a)) leaves))"

lemma continues_trans:
  assumes "continues c rs x y" "continues c rs y z"
  shows "continues c rs x z"
  unfolding continues_def
proof (intro conjI allI impI)
  have "cp_Size x \<le> cp_Size y" "cp_Size y \<le> cp_Size z" using assms by (simp_all add: continues_def)
  then show "cp_Size x \<le> cp_Size z" by (rule order.trans)
next
  assume e: "cp_Size x = cp_Size z \<and> cp_Size x \<noteq> 0"
  then have "cp_Size x = cp_Size y" "cp_Size y = cp_Size z" using assms by (auto simp: continues_def)
  then have "cp_Head x = cp_Head y" "cp_Head y = cp_Head z" using assms e unfolding continues_def by auto
  then show "cp_Head x = cp_Head z" by simp
next
  fix leaves assume z: "commits c z leaves \<and> collision_free c (run_payloads c leaves rs)"
  let ?n = "unat (cp_Size y)"
  have "commits c y (take ?n leaves)" using assms(2) z unfolding continues_def by blast
  moreover have "collision_free c (run_payloads c (take ?n leaves) rs)" using z run_payloads_take by (blast intro: collision_free_mono)
  ultimately have "commits c x (take (unat (cp_Size x)) (take ?n leaves))" using assms(1) unfolding continues_def by blast
  moreover have "unat (cp_Size x) \<le> ?n" using assms(1) by (simp add: continues_def word_le_nat_alt)
  ultimately show "commits c x (take (unat (cp_Size x)) leaves)" by (simp add: min_absorb1)
qed

lemma CountersignAs_accepts:
  assumes "CountersignAs c w cp operator wantLog hs = Some (Inr (cs, w'))"
  shows "Checkpoint_VerifyAs c cp operator wantLog" "cs_Witness cs = w_pub w"
    "w' = w\<lparr>w_last := (w_last w)(cp_Log cp \<mapsto> cp)\<rparr>"
    "w_last w (cp_Log cp) = Some prev \<Longrightarrow> VerifyConsistencyAs c prev cp hs operator wantLog = Some True"
  using assms by (auto simp: CountersignAs_def Let_def split: if_splits option.splits bool.splits)

lemma accepted_continues:
  assumes "canon_laws c" and "VerifyConsistencyAs c (rq_cp q) (rq_cp r) (rq_proof r) operator wantLog = Some True"
    and "q \<in> set rs" "r \<in> set rs"
  shows "continues c rs (rq_cp q) (rq_cp r)"
  unfolding continues_def
proof (intro conjI allI impI)
  show "cp_Size (rq_cp q) \<le> cp_Size (rq_cp r)" using assms(2) by (auto simp: VerifyConsistencyAs_def split: if_splits)
  show "cp_Head (rq_cp q) = cp_Head (rq_cp r)" if "cp_Size (rq_cp q) = cp_Size (rq_cp r) \<and> cp_Size (rq_cp q) \<noteq> 0"
    using assms(2) that by (auto simp: VerifyConsistencyAs_def split: if_splits)
  fix leaves assume a: "commits c (rq_cp r) leaves \<and> collision_free c (run_payloads c leaves rs)"
  then have "unat (cp_Size (rq_cp r)) = length leaves" by (simp add: commits_def unat_word_of_nat64)
  then show "commits c (rq_cp q) (take (unat (cp_Size (rq_cp q))) leaves)"
    using a run_payloads_tree [of c "length leaves" leaves rs] run_payloads_cons [OF assms(4,3), of c leaves]
    by (intro conjunct2 [OF consistency_commits [OF assms(1) conjunct2 [OF a] conjunct1 [OF a] assms(2)]]) simp_all
qed

lemma witness_run_chain:
  assumes "canon_laws c"
  shows "witness_run c w rs = Some (cps, w') \<Longrightarrow> set rs \<subseteq> set all \<Longrightarrow>
    (\<forall>prev. w_last w logid = Some prev \<longrightarrow> prev \<in> rq_cp ` set all) \<Longrightarrow>
    sorted_wrt (continues c all) (filter (\<lambda>cp. cp_Log cp = logid) cps) \<and>
    (\<forall>prev cp. w_last w logid = Some prev \<longrightarrow> cp \<in> set cps \<longrightarrow> cp_Log cp = logid \<longrightarrow> continues c all prev cp)"
proof (induction rs arbitrary: w cps)
  case Nil
  then show ?case by simp
next
  case (Cons r rs)
  let ?res = "CountersignAs c w (rq_cp r) (rq_operator r) (rq_log r) (rq_proof r)"
  from Cons.prems(1) consider (refused) e where "?res = Some (Inl e)" "witness_run c w rs = Some (cps, w')"
    | (signed) cs w1 cps1 where "?res = Some (Inr (cs, w1))" "witness_run c w1 rs = Some (cps1, w')" "cps = rq_cp r # cps1"
    by (auto split: option.splits sum.splits)
  then show ?case
  proof cases
    case refused
    then show ?thesis using Cons by simp
  next
    case signed
    note acc = CountersignAs_accepts [OF signed(1)]
    have r: "r \<in> set all" using Cons.prems(2) by simp
    have IH: "sorted_wrt (continues c all) (filter (\<lambda>cp. cp_Log cp = logid) cps1) \<and>
      (\<forall>prev cp. w_last w1 logid = Some prev \<longrightarrow> cp \<in> set cps1 \<longrightarrow> cp_Log cp = logid \<longrightarrow> continues c all prev cp)"
      using Cons.IH [OF signed(2)] Cons.prems(2,3) acc(3) by auto
    show ?thesis
    proof (cases "cp_Log (rq_cp r) = logid")
      case False
      with IH acc(3) signed(3) show ?thesis by auto
    next
      case True
      have step: "continues c all prev (rq_cp r)" if prev: "w_last w logid = Some prev" for prev
      proof -
        obtain q where q: "q \<in> set all" "prev = rq_cp q" using Cons.prems(3) prev by auto
        then show ?thesis using accepted_continues [OF assms acc(4) q(1) r] prev True by simp
      qed
      have "w_last w1 logid = Some (rq_cp r)" using acc(3) True by simp
      with IH have "\<forall>cp \<in> set cps1. cp_Log cp = logid \<longrightarrow> continues c all (rq_cp r) cp" by blast
      with IH step signed(3) True show ?thesis by (auto dest: continues_trans)
    qed
  qed
qed

section \<open>Properties\<close>

text \<open>C5: a witness never cosigns a fork. Follow one witness through any sequence of requests, from any
  operators and for any logs, however they are interleaved and whatever their heads are: the checkpoints it cosigned for one log never shrink,
  two non-empty ones of the same size have the same head, and if a later one is the head of a list of leaves, every earlier one is
  the head of the initial part of that list, provided the hash separates the payloads involved.\<close>

theorem witness_never_forks:
  assumes "canon_laws c" and "witness_run c (NewWitness c priv) rs = Some (cps, w)"
  shows "sorted_wrt (\<lambda>a b. cp_Size a \<le> cp_Size b \<and> (cp_Size a = cp_Size b \<and> cp_Size a \<noteq> 0 \<longrightarrow> cp_Head a = cp_Head b) \<and>
     (\<forall>leaves. commits c b leaves \<and> collision_free c (run_payloads c leaves rs) \<longrightarrow> commits c a (take (unat (cp_Size a)) leaves)))
    (filter (\<lambda>cp. cp_Log cp = logid) cps)"
  using witness_run_chain [OF assms order.refl, of logid] by (simp add: NewWitness_def continues_def [abs_def])

lemma sample_signed_head:
  assumes "Checkpoint_Sign sample_crypto (sample_priv 9) (Log_Checkpoint sample_crypto
      (log_of_store sample_crypto (LogID sample_crypto (replicate 32 9)) st) t) = Some cp"
    and "length st < 2 ^ 63"
  shows "Checkpoint_VerifyAs sample_crypto cp (replicate 32 9) 1676"
    and "commits sample_crypto cp (map (Entry_ID sample_crypto) st)"
    and "cp_Log cp = 1676"
proof -
  let ?l = "log_of_store sample_crypto (LogID sample_crypto (replicate 32 9)) st"
  have len: "length (lg_leafs ?l) < 2 ^ 63" using assms(2) by simp
  note f = Checkpoint_Sign_VerifyAs [OF sample_keypair assms(1)] and h = dialog.head_fields [OF len, of sample_crypto t]
  show "Checkpoint_VerifyAs sample_crypto cp (replicate 32 9) 1676" "cp_Log cp = 1676"
    using f(1,2) h by (simp_all add: sample_logid)
  show "commits sample_crypto cp (map (Entry_ID sample_crypto) st)"
    using f h assms(2) by (auto simp: commits_def)
qed

text \<open>Two checkpoints of one log, the second extending the first, as an operator publishes them.\<close>

lemma sample_two:
  obtains older newer where "Checkpoint_VerifyAs sample_crypto older (replicate 32 9) 1676" "Checkpoint_VerifyAs sample_crypto newer (replicate 32 9) 1676"
    "commits sample_crypto older [6516]" "commits sample_crypto newer [6516, 6517]" "cp_Log older = 1676" "cp_Log newer = 1676"
    "cp_Size older = 1" "cp_Size newer = 2" "cp_IssuedAt older = 0" "cp_IssuedAt newer = 0"
    "VerifyConsistencyAs sample_crypto older newer [6517] (replicate 32 9) 1676 = Some True"
proof -
  let ?log = "log_of_store sample_crypto (LogID sample_crypto (replicate 32 9))"
  obtain older newer where s:
    "Checkpoint_Sign sample_crypto (sample_priv 9) (Log_Checkpoint sample_crypto (?log [sample_entry 1]) 0) = Some older"
    "Checkpoint_Sign sample_crypto (sample_priv 9) (Log_Checkpoint sample_crypto (?log [sample_entry 1, sample_entry 2]) 0) = Some newer"
    using Checkpoint_Sign_total [OF sample_keypair] by blast
  note f = sample_signed_head [OF s(1)] and g = sample_signed_head [OF s(2)]
  have com: "commits sample_crypto older [6516]" "commits sample_crypto newer [6516, 6517]"
    using f(2) g(2) by (simp_all add: sample_ids)
  then have sizes: "cp_Size older = 1" "cp_Size newer = 2" "cp_Head older = 6516" "cp_Head newer = mth sample_crypto [6516, 6517]"
    by (simp_all add: commits_def)
  have "consRoots sample_crypto 1 2 True [6517] 6516 = Some (Some (6516, mth sample_crypto [6516, 6517], []))"
    using consRoots_complete [of 1 "[6516, 6517]" sample_crypto]
    by (simp add: proveConsistency_def subProof.simps lp2_two)
  moreover have "\<not> (2 :: u64) < 1" by simp
  ultimately have "VerifyConsistencyAs sample_crypto older newer [6517] (replicate 32 9) 1676 = Some True"
    using f g sizes by (simp add: VerifyConsistencyAs_def)
  moreover have "cp_IssuedAt older = 0" "cp_IssuedAt newer = 0"
    using s by (auto simp: Checkpoint_Sign_def Log_Checkpoint_def Let_def)
  ultimately show ?thesis using that f(1,3) g(1,3) com sizes by simp
qed

definition sample_pair :: "checkpoint \<Rightarrow> checkpoint \<Rightarrow> cosign_request list" where
  "sample_pair older newer = [\<lparr>rq_cp = older, rq_operator = replicate 32 9, rq_log = 1676, rq_proof = []\<rparr>,
     \<lparr>rq_cp = newer, rq_operator = replicate 32 9, rq_log = 1676, rq_proof = [6517]\<rparr>]"

lemma sample_pair_free:
  assumes "commits sample_crypto older [6516]" "commits sample_crypto newer [6516, 6517]"
  shows "collision_free sample_crypto (run_payloads sample_crypto [6516, 6517] (sample_pair older newer))"
proof -
  have "cp_Head older = 6516" "cp_Head newer = mth sample_crypto [6516, 6517]" "cp_Size older = 1" "cp_Size newer = 2"
    using assms by (simp_all add: commits_def)
  then show ?thesis
    by (simp add: sample_pair_def run_payloads_def mth_pre.simps cons_pre.simps cons_nat.simps lp2_two collision_free_def inj_on_def Let_def)
qed

theorem witness_never_forks_witness:
  "\<exists>older newer w. cp_Log older = 1676 \<and> cp_Log newer = 1676 \<and> older \<noteq> newer \<and> commits sample_crypto newer [6516, 6517] \<and>
     witness_run sample_crypto (NewWitness sample_crypto (sample_priv 5)) (sample_pair older newer) = Some ([older, newer], w) \<and>
     commits sample_crypto older (take (unat (cp_Size older)) [6516, 6517])"
proof -
  obtain older newer where two: "Checkpoint_VerifyAs sample_crypto older (replicate 32 9) 1676" "Checkpoint_VerifyAs sample_crypto newer (replicate 32 9) 1676"
    "commits sample_crypto older [6516]" "commits sample_crypto newer [6516, 6517]" "cp_Log older = 1676" "cp_Log newer = 1676"
    "cp_Size older = 1" "cp_Size newer = 2" "VerifyConsistencyAs sample_crypto older newer [6517] (replicate 32 9) 1676 = Some True" by (rule sample_two)
  then have ne: "older \<noteq> newer" by auto
  obtain w where run: "witness_run sample_crypto (NewWitness sample_crypto (sample_priv 5)) (sample_pair older newer) = Some ([older, newer], w)"
    using two by (simp add: sample_pair_def CountersignAs_def NewWitness_def Let_def sample_priv_def [of 5] PrivateKeySize_def
        sample_crypto_def [THEN arg_cong, of ed_public])
  have "commits sample_crypto older (take (unat (cp_Size older)) [6516, 6517])"
    using witness_never_forks [OF sample_canon_laws run, of 1676] sample_pair_free [OF two(3,4)] two(4-6) by simp
  with run ne two(4-6) show ?thesis by blast
qed

text \<open>C10: a witness answers every checkpoint of at most \<open>2 ^ 63\<close> entries, and hangs on a larger one. If
  an operator other than the witness signs a checkpoint of more than \<open>2 ^ 63\<close> entries for a log of which the witness, its key well formed, remembers
  a smaller, non-empty checkpoint of that operator, and sends a non-empty proof, the call does not return.\<close>

theorem CountersignAs_returns:
  "(unat (cp_Size cp) \<le> 2 ^ 63 \<longrightarrow> CountersignAs c w cp operator wantLog hs \<noteq> None) \<and>
   (2 ^ 63 < unat (cp_Size cp) \<and> length (w_priv w) = PrivateKeySize \<and> operator \<noteq> w_pub w \<and>
    Checkpoint_VerifyAs c cp operator wantLog \<and> hs \<noteq> [] \<and>
    (\<exists>prev. w_last w (cp_Log cp) = Some prev \<and> Checkpoint_VerifyAs c prev operator wantLog \<and>
       0 < cp_Size prev \<and> cp_Size prev < cp_Size cp)
    \<longrightarrow> CountersignAs c w cp operator wantLog hs = None)"
proof (intro conjI impI)
  assume sz: "unat (cp_Size cp) \<le> 2 ^ 63"
  have "VerifyConsistencyAs c prev cp hs operator wantLog \<noteq> None" for prev
  proof -
    have "cp_Size prev \<noteq> 0 \<Longrightarrow> consRoots c (cp_Size prev) (cp_Size cp) True hs (cp_Head prev) \<noteq> None"
      using consRoots_nat [OF sz, of "cp_Size prev"] by (simp add: unat_gt_0)
    then show ?thesis by (auto simp: VerifyConsistencyAs_def split: option.splits)
  qed
  then have "\<And>prev. VerifyConsistencyAs c prev cp hs operator wantLog = None \<Longrightarrow> False" by blast
  then show "CountersignAs c w cp operator wantLog hs \<noteq> None"
    by (auto simp: CountersignAs_def Let_def split: option.splits bool.splits)
next
  assume "2 ^ 63 < unat (cp_Size cp) \<and> length (w_priv w) = PrivateKeySize \<and> operator \<noteq> w_pub w \<and>
    Checkpoint_VerifyAs c cp operator wantLog \<and> hs \<noteq> [] \<and>
    (\<exists>prev. w_last w (cp_Log cp) = Some prev \<and> Checkpoint_VerifyAs c prev operator wantLog \<and>
       0 < cp_Size prev \<and> cp_Size prev < cp_Size cp)"
  then obtain prev where h: "2 ^ 63 < unat (cp_Size cp)" "length (w_priv w) = PrivateKeySize" "operator \<noteq> w_pub w"
    "Checkpoint_VerifyAs c cp operator wantLog" "hs \<noteq> []" "w_last w (cp_Log cp) = Some prev"
    "Checkpoint_VerifyAs c prev operator wantLog" "0 < cp_Size prev" "cp_Size prev < cp_Size cp" by blast
  have "consRoots c (cp_Size prev) (cp_Size cp) True hs (cp_Head prev) = None"
    using h(5,9) largestPow2LT_diverges [OF h(1)] by (subst consRoots.simps) auto
  then have "VerifyConsistencyAs c prev cp hs operator wantLog = None"
    using h(4,7-9) by (auto simp: VerifyConsistencyAs_def Checkpoint_VerifyAs_def)
  then show "CountersignAs c w cp operator wantLog hs = None"
    using h(2-4,6) by (simp add: CountersignAs_def Let_def)
qed

theorem CountersignAs_returns_witness:
  "\<exists>w cp. w_pub w = replicate 32 5 \<and> Checkpoint_VerifyAs sample_crypto cp (replicate 32 9) 7 \<and>
     CountersignAs sample_crypto w cp (replicate 32 9) 7 [0] = None"
proof -
  let ?head = "\<lambda>n. \<lparr>cp_Log = 7, cp_Size = n, cp_Head = 0, cp_IssuedAt = 0, cp_Signature = []\<rparr>"
  obtain prev cp where s: "Checkpoint_Sign sample_crypto (sample_priv 9) (?head 1) = Some prev"
    "Checkpoint_Sign sample_crypto (sample_priv 9) (?head 0x8000000000000001) = Some cp"
    using Checkpoint_Sign_total [OF sample_keypair] by blast
  note f = Checkpoint_Sign_VerifyAs [OF sample_keypair s(1)] and g = Checkpoint_Sign_VerifyAs [OF sample_keypair s(2)]
  let ?w = "\<lparr>w_priv = sample_priv 5, w_pub = replicate 32 5, w_last = [7 \<mapsto> prev]\<rparr>"
  have "CountersignAs sample_crypto ?w cp (replicate 32 9) 7 [0] = None"
    using CountersignAs_returns [of cp sample_crypto ?w "replicate 32 9" 7 "[0]"] f g
    by (simp add: sample_priv_def [of 5] PrivateKeySize_def)
  then show ?thesis using g by (intro exI [of _ ?w] exI [of _ cp]) simp
qed

lemma standin_scan_set:
  "standin_scan c cp operator ks css =
     ks \<union> str_of_bytes ` cs_Witness ` {cs \<in> set css. Countersignature_Verify c cs cp \<and> cs_Witness cs \<noteq> operator}"
  by (induction css arbitrary: ks) auto

lemma wc_scan_iff:
  "wc_scan c cp operator seen css \<longleftrightarrow>
     (\<forall>cs \<in> set css. Countersignature_Verify c cs cp \<and> cs_Witness cs \<noteq> operator \<and> str_of_bytes (cs_Witness cs) \<notin> seen) \<and>
     distinct (map cs_Witness css)"
  by (induction css arbitrary: seen) (auto simp: Let_def image_iff)

text \<open>The stand-in label counts independent witnesses. A bundle is a stand-in exactly when fewer than
  two distinct keys other than the operator's carry a valid countersignature, whatever else the
  bundle holds; on a bundle that verifies, that is exactly when it has fewer than two countersignatures.\<close>

theorem StandIn_counts:
  "(StandIn c w operator \<longleftrightarrow>
      card (cs_Witness ` {cs \<in> set (wc_Countersignatures w).
              Countersignature_Verify c cs (wc_Checkpoint w) \<and> cs_Witness cs \<noteq> operator}) < 2) \<and>
   (WitnessedCheckpoint_Verify c w operator \<longrightarrow>
      (StandIn c w operator \<longleftrightarrow> length (wc_Countersignatures w) < 2))"
proof -
  let ?ok = "{cs \<in> set (wc_Countersignatures w). Countersignature_Verify c cs (wc_Checkpoint w) \<and> cs_Witness cs \<noteq> operator}"
  have "card (str_of_bytes ` cs_Witness ` ?ok) = card (cs_Witness ` ?ok)"
    by (rule card_image) (simp add: inj_on_def)
  then have st: "StandIn c w operator \<longleftrightarrow> card (cs_Witness ` ?ok) < 2"
    by (simp add: StandIn_def standin_scan_set)
  moreover have "card (cs_Witness ` ?ok) = length (wc_Countersignatures w)" if "WitnessedCheckpoint_Verify c w operator"
  proof -
    have "?ok = set (wc_Countersignatures w)" "distinct (map cs_Witness (wc_Countersignatures w))"
      using that by (auto simp: WitnessedCheckpoint_Verify_def wc_scan_iff)
    then show ?thesis using distinct_card [of "map cs_Witness (wc_Countersignatures w)"] by simp
  qed
  ultimately show ?thesis by auto
qed

theorem StandIn_counts_witness:
  "\<exists>w. WitnessedCheckpoint_Verify sample_crypto w (replicate 32 9) \<and> wc_Countersignatures w \<noteq> [] \<and>
     StandIn sample_crypto w (replicate 32 9)"
proof -
  let ?head = "\<lparr>cp_Log = LogID sample_crypto (replicate 32 9), cp_Size = 0, cp_Head = 0, cp_IssuedAt = 0, cp_Signature = []\<rparr>"
  obtain cp where s: "Checkpoint_Sign sample_crypto (sample_priv 9) ?head = Some cp"
    using Checkpoint_Sign_total [OF sample_keypair] by blast
  let ?cs = "\<lparr>cs_Witness = replicate 32 5, cs_Signature = ed_sign sample_crypto (sample_priv 5) (witnessPayload sample_crypto cp)\<rparr>"
  let ?w = "\<lparr>wc_Checkpoint = cp, wc_Countersignatures = [?cs]\<rparr>"
  have "Countersignature_Verify sample_crypto ?cs cp"
    using sig_ok_keypair [OF sample_keypair, of 5] keypair_verify [OF sample_keypair, of 5]
    by (simp add: Countersignature_Verify_def)
  then have v: "WitnessedCheckpoint_Verify sample_crypto ?w (replicate 32 9)"
    using Checkpoint_Sign_VerifyAs [OF sample_keypair s]
    by (simp add: WitnessedCheckpoint_Verify_def Checkpoint_Verify_def Let_def)
  then have "StandIn sample_crypto ?w (replicate 32 9)"
    using StandIn_counts [of sample_crypto ?w "replicate 32 9", THEN conjunct2, rule_format, OF v] by simp
  with v show ?thesis by (intro exI [of _ ?w]) simp
qed

text \<open>Filing intake. A witness holding a key pair accepts exactly the well-formed, filer-signed
  commitments it did not file itself, and the receipt it returns carries that commitment and instant and
  verifies; it reads as independent of an operator exactly when the operator's key is another one.\<close>

theorem FilingIntake_receipts:
  assumes "keypair c priv"
  shows "((\<exists>r. FilingIntake_Accept c (NewFilingIntake c priv) f at = Inr r) \<longleftrightarrow>
      FilingCommitment_Verify c f \<and> fc_Filer f \<noteq> ed_public c priv) \<and>
    (\<forall>r. FilingIntake_Accept c (NewFilingIntake c priv) f at = Inr r \<longrightarrow>
       FilingReceipt_Verify c r \<and> fr_Commitment r = f \<and> fr_ReceivedAt r = at \<and>
       (\<forall>operator. IndependentOf r operator \<longleftrightarrow> length operator = PublicKeySize \<and> operator \<noteq> ed_public c priv))"
proof -
  let ?fi = "NewFilingIntake c priv"
  let ?d = "\<lparr>fr_Commitment = f, fr_Witness = ed_public c priv, fr_ReceivedAt = at, fr_Signature = []\<rparr>"
  let ?r = "?d\<lparr>fr_Signature := ed_sign c priv (FilingReceipt_CanonicalBytes c ?d)\<rparr>"
  have fi: "fi_priv ?fi = priv" "fi_pub ?fi = ed_public c priv" "length priv = PrivateKeySize"
    using assms by (simp_all add: NewFilingIntake_def keypair_def)
  have acc: "FilingIntake_Accept c ?fi f at = (if \<not> FilingCommitment_Verify c f then Inl FilBadCommitment
      else if fc_Filer f = ed_public c priv then Inl FilOwnFiling else Inr ?r)"
    by (simp add: FilingIntake_Accept_def fi Let_def)
  have "FilingReceipt_CanonicalBytes c ?r = FilingReceipt_CanonicalBytes c ?d"
    by (simp add: FilingReceipt_CanonicalBytes_def)
  then have "FilingCommitment_Verify c f \<and> fc_Filer f \<noteq> ed_public c priv \<Longrightarrow> FilingReceipt_Verify c ?r"
    using sig_ok_keypair [OF assms] keypair_verify [OF assms] by (auto simp: FilingReceipt_Verify_def)
  moreover have "IndependentOf ?r operator \<longleftrightarrow> length operator = PublicKeySize \<and> operator \<noteq> ed_public c priv" for operator
    by (auto simp: IndependentOf_def)
  ultimately show ?thesis unfolding acc by auto
qed

theorem FilingIntake_receipts_witness:
  "\<exists>f r. FilingIntake_Accept sample_crypto (NewFilingIntake sample_crypto (sample_priv 5)) f 3 = Inr r \<and>
     FilingReceipt_Verify sample_crypto r \<and> fc_Filer (fr_Commitment r) = replicate 32 1 \<and> IndependentOf r (replicate 32 9)"
proof -
  let ?d = "\<lparr>fc_Claim = 1, fc_Exchange = 2, fc_TypeHash = 3, fc_At = 0, fc_Filer = replicate 32 1, fc_Signature = []\<rparr>"
  let ?f = "?d\<lparr>fc_Signature := ed_sign sample_crypto (sample_priv 1) (FilingCommitment_CanonicalBytes sample_crypto ?d)\<rparr>"
  have "FilingCommitment_CanonicalBytes sample_crypto ?f = FilingCommitment_CanonicalBytes sample_crypto ?d"
    by (simp add: FilingCommitment_CanonicalBytes_def)
  then have "FilingCommitment_Verify sample_crypto ?f"
    using sig_ok_keypair [OF sample_keypair, of 1] keypair_verify [OF sample_keypair, of 1]
    by (simp add: FilingCommitment_Verify_def zeroHash_def)
  moreover have "fc_Filer ?f \<noteq> ed_public sample_crypto (sample_priv 5)" by simp
  ultimately obtain r where "FilingIntake_Accept sample_crypto (NewFilingIntake sample_crypto (sample_priv 5)) ?f 3 = Inr r"
    using FilingIntake_receipts [OF sample_keypair, of 5 ?f 3] by blast
  moreover from this have "FilingReceipt_Verify sample_crypto r" "fr_Commitment r = ?f" "IndependentOf r (replicate 32 9)"
    using FilingIntake_receipts [OF sample_keypair, of 5 ?f 3] by (simp_all add: PublicKeySize_def)
  ultimately show ?thesis by (intro exI [of _ ?f] exI [of _ r]) simp
qed

text \<open>Content put in the locker is read back under its commons hash until it is erased, and an erasure
  touches no other content.\<close>

lemma locker_roundtrip:
  "Locker_Put c m content = (h, m') \<Longrightarrow> h = HashContent c content \<and> Locker_Get m' h = Some content \<and>
     Locker_Get (Locker_Erase m' h) h = None \<and>
     (\<forall>g. g \<noteq> h \<longrightarrow> Locker_Get (Locker_Erase m' h) g = Locker_Get m g)"
  by (auto simp: Locker_Put_def Locker_Get_def Locker_Erase_def Let_def)

end
