(* ===== verification/Record_Lifecycle.thy ===== *)
theory Record_Lifecycle
  imports Record_Log
begin

text \<open>
  The claim-lifecycle log (\<open>src/internal/record/lifecycle.go\<close>): an operator's second Merkle log, over the
  transitions of harm claims, which enforces per claim the order filed, adjudicated (any number of
  times), resolved, sealed. It provides the interfaces \<open>append_log\<close> and \<open>tree_log\<close> like the dialog log.
\<close>

section \<open>Transitions\<close>

datatype lifecycle_error =
    LifOperatorMalformed | LifNilStore | LifStoreRead u64 | LifReplay u64 lifecycle_error
  | LifTransitionRange u64 u64
  | LifOtherLog | LifBadKind | LifNoClaim | LifNoExchange | LifDuplicate
  | LifFirstNotFiling | LifFilesOnce | LifAdjudicationAfter | LifNotMonotonic | LifSealBeforeResolve

definition domainLifeLogID :: string where "domainLifeLogID = ''drops/lifecycle-logid/v1''"
definition domainLifeTransition :: string where "domainLifeTransition = ''drops/lifecycle-transition/v1''"
definition domainLifeLeaf :: string where "domainLifeLeaf = ''drops/lifecycle-leaf/v1''"

definition LifecycleLogID :: "crypto \<Rightarrow> bytes \<Rightarrow> b32" where
  "LifecycleLogID c operator = sha256 c (canon_sum c domainLifeLogID [CBytes operator])"

type_synonym transition_kind = byte

definition KindFiled :: transition_kind where "KindFiled = 1"
definition KindAdjudicated :: transition_kind where "KindAdjudicated = 2"
definition KindResolved :: transition_kind where "KindResolved = 3"
definition KindSealed :: transition_kind where "KindSealed = 4"

lemmas kind_defs = KindFiled_def KindAdjudicated_def KindResolved_def KindSealed_def

definition TransitionKind_String :: "transition_kind \<Rightarrow> string" where
  "TransitionKind_String k =
     (if k = KindFiled then ''filed'' else if k = KindAdjudicated then ''adjudicated''
      else if k = KindResolved then ''resolved'' else if k = KindSealed then ''sealed'' else ''invalid'')"

record transition =
  t_Log :: b32
  t_Claim :: b32
  t_Kind :: transition_kind
  t_Artifact :: b32
  t_Exchange :: b32
  t_At :: gotime

definition Transition_CanonicalBytes :: "crypto \<Rightarrow> transition \<Rightarrow> bytes" where
  "Transition_CanonicalBytes c t =
     canon_sum c domainLifeTransition
       [CBytes (b32_bytes (t_Log t)), CBytes (b32_bytes (t_Claim t)), CUint64 (ucast (t_Kind t)),
        CBytes (b32_bytes (t_Artifact t)), CBytes (b32_bytes (t_Exchange t)), CTime (t_At t)]"

definition Transition_ID :: "crypto \<Rightarrow> transition \<Rightarrow> b32" where
  "Transition_ID c t = sha256 c (canon_sum c domainLifeLeaf [CBytes (Transition_CanonicalBytes c t)])"

section \<open>The store and the log\<close>

type_synonym transition_store = "transition list"

definition NewMemTransitionStore :: transition_store where "NewMemTransitionStore = []"

definition TransitionStore_Append :: "transition_store \<Rightarrow> transition \<Rightarrow> transition_store" where
  "TransitionStore_Append s t = s @ [t]"

definition TransitionStore_At :: "transition_store \<Rightarrow> u64 \<Rightarrow> lifecycle_error + transition" where
  "TransitionStore_At s seq =
     (if seq \<ge> word_of_nat (length s) then Inl (LifTransitionRange seq (word_of_nat (length s)))
      else Inr (s ! unat seq))"

definition TransitionStore_Len :: "transition_store \<Rightarrow> u64" where
  "TransitionStore_Len s = word_of_nat (length s)"

record lifecycle_log =
  ll_id :: b32
  ll_store :: transition_store
  ll_leafs :: "b32 list"
  ll_index :: "b32 \<rightharpoonup> u64"
  ll_state :: "b32 \<rightharpoonup> transition_kind"
  ll_claim :: "b32 \<rightharpoonup> u64 list"
  ll_kinds :: "b32 \<rightharpoonup> (transition_kind \<rightharpoonup> int)"

definition Lifecycle_check :: "crypto \<Rightarrow> lifecycle_log \<Rightarrow> transition \<Rightarrow> lifecycle_error option" where
  "Lifecycle_check c l t =
     (if t_Log t \<noteq> ll_id l then Some LifOtherLog
      else if t_Kind t < KindFiled \<or> t_Kind t > KindSealed then Some LifBadKind
      else if t_Claim t = zeroHash then Some LifNoClaim
      else if t_Exchange t = zeroHash then Some LifNoExchange
      else if ll_index l (Transition_ID c t) \<noteq> None then Some LifDuplicate
      else case ll_state l (t_Claim t) of
        None \<Rightarrow> if t_Kind t \<noteq> KindFiled then Some LifFirstNotFiling else None
      | Some furthest \<Rightarrow>
          if t_Kind t = KindFiled then Some LifFilesOnce
          else if t_Kind t = KindAdjudicated then
            (if furthest \<ge> KindResolved then Some LifAdjudicationAfter else None)
          else if t_Kind t \<le> furthest then Some LifNotMonotonic
          else if t_Kind t = KindSealed \<and> furthest < KindResolved then Some LifSealBeforeResolve
          else None)"

definition Lifecycle_admit :: "crypto \<Rightarrow> lifecycle_log \<Rightarrow> transition \<Rightarrow> lifecycle_log" where
  "Lifecycle_admit c l t =
     (let seq = word_of_nat (length (ll_leafs l)); leaf = Transition_ID c t;
          kc = map_get (ll_kinds l) (t_Claim t) Map.empty
      in l\<lparr>ll_index := (ll_index l)(leaf \<mapsto> seq),
           ll_leafs := ll_leafs l @ [leaf],
           ll_claim := (ll_claim l)(t_Claim t \<mapsto> map_get (ll_claim l) (t_Claim t) [] @ [seq]),
           ll_state := (if t_Kind t > map_get (ll_state l) (t_Claim t) 0
                        then (ll_state l)(t_Claim t \<mapsto> t_Kind t) else ll_state l),
           ll_kinds := (ll_kinds l)(t_Claim t \<mapsto> kc(t_Kind t \<mapsto> map_get kc (t_Kind t) 0 + 1))\<rparr>)"

definition life_open_step :: "crypto \<Rightarrow> lifecycle_log \<Rightarrow> u64 \<Rightarrow> lifecycle_error + lifecycle_log" where
  "life_open_step c l seq =
     (case TransitionStore_At (ll_store l) seq of
        Inl _ \<Rightarrow> Inl (LifStoreRead seq)
      | Inr t \<Rightarrow> (case Lifecycle_check c l t of
          Some err \<Rightarrow> Inl (LifReplay seq err) | None \<Rightarrow> Inr (Lifecycle_admit c l t)))"

definition OpenLifecycleLog :: "crypto \<Rightarrow> bytes \<Rightarrow> transition_store option \<Rightarrow> lifecycle_error + lifecycle_log" where
  "OpenLifecycleLog c operator s =
     (if length operator \<noteq> PublicKeySize then Inl LifOperatorMalformed
      else case s of None \<Rightarrow> Inl LifNilStore | Some st \<Rightarrow>
        run_all (life_open_step c)
          \<lparr>ll_id = LifecycleLogID c operator, ll_store = st, ll_leafs = [], ll_index = Map.empty,
           ll_state = Map.empty, ll_claim = Map.empty, ll_kinds = Map.empty\<rparr>
          (map word_of_nat [0..<unat (TransitionStore_Len st)]))"

definition Lifecycle_Append :: "crypto \<Rightarrow> lifecycle_log \<Rightarrow> transition \<Rightarrow> lifecycle_error + u64 \<times> lifecycle_log" where
  "Lifecycle_Append c l t =
     (case Lifecycle_check c l t of
        Some err \<Rightarrow> Inl err
      | None \<Rightarrow>
          (let l1 = l\<lparr>ll_store := TransitionStore_Append (ll_store l) t\<rparr>;
               seq = word_of_nat (length (ll_leafs l1))
           in Inr (seq, Lifecycle_admit c l1 t)))"

definition Lifecycle_Checkpoint :: "crypto \<Rightarrow> lifecycle_log \<Rightarrow> gotime \<Rightarrow> checkpoint" where
  "Lifecycle_Checkpoint c l at =
     (let sz = word_of_nat (length (ll_leafs l)); head = (if sz > 0 then mth c (ll_leafs l) else ll_id l)
      in \<lparr>cp_Log = ll_id l, cp_Size = sz, cp_Head = head, cp_IssuedAt = at, cp_Signature = []\<rparr>)"

definition Lifecycle_Prove :: "crypto \<Rightarrow> lifecycle_log \<Rightarrow> u64 \<Rightarrow> record_error + inclusion_proof" where
  "Lifecycle_Prove c l seq =
     (let sz = word_of_nat (length (ll_leafs l)) in
      if seq \<ge> sz then Inl (RecOutOfRange seq sz)
      else Inr \<lparr>pf_Seq = seq, pf_Path = provePath c (unat seq) (ll_leafs l)\<rparr>)"

definition Lifecycle_ProveConsistency :: "crypto \<Rightarrow> lifecycle_log \<Rightarrow> u64 \<Rightarrow> record_error + b32 list" where
  "Lifecycle_ProveConsistency c l sz =
     (let current = word_of_nat (length (ll_leafs l)) in
      if sz > current then Inl (RecSizeExceeds sz current)
      else if sz = 0 \<or> sz = current then Inr []
      else Inr (proveConsistency c (unat sz) (ll_leafs l)))"

definition Lifecycle_Claim :: "lifecycle_log \<Rightarrow> b32 \<Rightarrow> u64 list" where
  "Lifecycle_Claim l claim = map_get (ll_claim l) claim []"

definition Lifecycle_State :: "lifecycle_log \<Rightarrow> b32 \<Rightarrow> transition_kind option" where
  "Lifecycle_State l claim = ll_state l claim"

interpretation life: tree_log ll_id ll_leafs Lifecycle_Checkpoint Lifecycle_Prove Lifecycle_ProveConsistency
proof
  fix l :: lifecycle_log and c t seq sz
  assume len: "length (ll_leafs l) < 2 ^ 63"
  then have un: "unat (word_of_nat (length (ll_leafs l)) :: u64) = length (ll_leafs l)"
    by (intro unat_word_of_nat64) simp
  then have z: "(word_of_nat (length (ll_leafs l)) :: u64) > 0 \<longleftrightarrow> ll_leafs l \<noteq> []"
    by (metis length_0_conv unat_eq_0 word_neq_0_conv)
  show "cp_Log (Lifecycle_Checkpoint c l t) = ll_id l \<and>
      cp_Size (Lifecycle_Checkpoint c l t) = word_of_nat (length (ll_leafs l)) \<and>
      cp_Head (Lifecycle_Checkpoint c l t) = (if ll_leafs l = [] then ll_id l else mth c (ll_leafs l))"
    using z by (simp add: Lifecycle_Checkpoint_def Let_def)
  show "Lifecycle_Prove c l seq = (if unat seq < length (ll_leafs l)
       then Inr \<lparr>pf_Seq = seq, pf_Path = provePath c (unat seq) (ll_leafs l)\<rparr>
       else Inl (RecOutOfRange seq (word_of_nat (length (ll_leafs l)))))"
    using un by (simp add: Lifecycle_Prove_def Let_def word_le_nat_alt)
  show "Lifecycle_ProveConsistency c l sz =
      (if unat sz > length (ll_leafs l) then Inl (RecSizeExceeds sz (word_of_nat (length (ll_leafs l))))
       else if unat sz = 0 \<or> unat sz = length (ll_leafs l) then Inr []
       else Inr (proveConsistency c (unat sz) (ll_leafs l)))"
    by (simp only: Lifecycle_ProveConsistency_def Let_def u64_unat un unat_0)
qed

section \<open>The log a store stands for\<close>

text \<open>The kinds one claim went through, and the traces the pipeline allows.\<close>

definition kinds_of :: "transition_store \<Rightarrow> b32 \<Rightarrow> transition_kind list" where
  "kinds_of st claim = map t_Kind (filter (\<lambda>t. t_Claim t = claim) st)"

definition seqs_of :: "transition_store \<Rightarrow> b32 \<Rightarrow> u64 list" where
  "seqs_of st claim = map word_of_nat (filter (\<lambda>i. t_Claim (st ! i) = claim) [0..<length st])"

fun after_filing :: "transition_kind list \<Rightarrow> bool" where
  "after_filing [] = True"
| "after_filing (k # ks) =
     (if k = KindAdjudicated then after_filing ks
      else k = KindResolved \<and> (ks = [] \<or> ks = [KindSealed]))"

fun pipeline :: "transition_kind list \<Rightarrow> bool" where
  "pipeline [] = True"
| "pipeline (k # ks) = (k = KindFiled \<and> after_filing ks)"

text \<open>One more step of a trace is possible exactly under the conditions \<open>check\<close> tests on the last kind.\<close>

lemma after_filing_snoc:
  "after_filing (ks @ [k]) \<longleftrightarrow> after_filing ks \<and>
     (case rev ks of [] \<Rightarrow> k = KindAdjudicated \<or> k = KindResolved
      | j # _ \<Rightarrow> (j = KindAdjudicated \<and> (k = KindAdjudicated \<or> k = KindResolved)) \<or> (j = KindResolved \<and> k = KindSealed))"
proof (induction ks)
  case Nil
  then show ?case by (auto simp: kind_defs)
next
  case (Cons a ks)
  show ?case
  proof (cases ks rule: rev_cases)
    case Nil
    then show ?thesis by (auto simp: kind_defs)
  next
    case (snoc js j)
    then show ?thesis using Cons by (auto simp: kind_defs append_eq_Cons_conv)
  qed
qed

lemma pipeline_snoc:
  "pipeline (ks @ [k]) \<longleftrightarrow> pipeline ks \<and>
     (if ks = [] then k = KindFiled
      else if k = KindAdjudicated then last ks < KindResolved
      else k = KindResolved \<and> last ks < KindResolved \<or> k = KindSealed \<and> last ks = KindResolved)"
proof (cases ks)
  case Nil
  then show ?thesis by (simp add: kind_defs)
next
  case (Cons a js)
  show ?thesis
  proof (cases js rule: rev_cases)
    case Nil
    then show ?thesis using Cons by (auto simp: kind_defs)
  next
    case (snoc ms j)
    have "after_filing js \<Longrightarrow> j = KindAdjudicated \<or> j = KindResolved \<or> j = KindSealed"
      using snoc after_filing_snoc [of ms j] by (auto split: list.splits)
    then show ?thesis using Cons snoc after_filing_snoc [of js k] by (auto simp: kind_defs)
  qed
qed

lemma pipeline_last: "pipeline ks \<Longrightarrow> ks \<noteq> [] \<Longrightarrow> KindFiled \<le> last ks \<and> last ks \<le> KindSealed"
proof (induction ks rule: rev_induct)
  case (snoc k ks)
  then show ?case by (auto simp: pipeline_snoc kind_defs split: if_splits)
qed simp

definition lifecycle_of_store :: "crypto \<Rightarrow> b32 \<Rightarrow> transition_store \<Rightarrow> lifecycle_log" where
  "lifecycle_of_store c logid st =
     \<lparr>ll_id = logid, ll_store = st, ll_leafs = map (Transition_ID c) st, ll_index = index_of (map (Transition_ID c) st),
      ll_state = (\<lambda>claim. if kinds_of st claim = [] then None else Some (last (kinds_of st claim))),
      ll_claim = (\<lambda>claim. if kinds_of st claim = [] then None else Some (seqs_of st claim)),
      ll_kinds = (\<lambda>claim. if kinds_of st claim = [] then None
        else Some (\<lambda>k. if k \<in> set (kinds_of st claim) then Some (int (count_list (kinds_of st claim) k)) else None))\<rparr>"

lemma kinds_of_snoc:
  "kinds_of (st @ [t]) claim = kinds_of st claim @ (if t_Claim t = claim then [t_Kind t] else [])"
  by (simp add: kinds_of_def)

lemma seqs_of_snoc:
  "seqs_of (st @ [t]) claim = seqs_of st claim @ (if t_Claim t = claim then [word_of_nat (length st)] else [])"
proof -
  have "filter (\<lambda>i. t_Claim ((st @ [t]) ! i) = claim) [0..<length st] = filter (\<lambda>i. t_Claim (st ! i) = claim) [0..<length st]"
    by (rule filter_cong) (simp_all add: nth_append)
  then show ?thesis by (simp add: seqs_of_def)
qed

lemma seqs_of_kinds_Nil: "kinds_of st claim = [] \<Longrightarrow> seqs_of st claim = []"
proof (induction st rule: rev_induct)
  case Nil
  then show ?case by (simp add: seqs_of_def)
next
  case (snoc t st)
  then show ?case by (simp add: kinds_of_snoc seqs_of_snoc split: if_splits)
qed

definition life_step :: "crypto \<Rightarrow> lifecycle_log \<Rightarrow> transition \<Rightarrow> lifecycle_error + lifecycle_log" where
  "life_step c l t = (case Lifecycle_Append c l t of Inl err \<Rightarrow> Inl err | Inr (seq, l') \<Rightarrow> Inr l')"

text \<open>The admission gates, stated of a transition and the transitions stored before it.\<close>

definition life_admissible_after :: "crypto \<Rightarrow> b32 \<Rightarrow> transition list \<Rightarrow> transition \<Rightarrow> bool" where
  "life_admissible_after c logid earlier t \<longleftrightarrow>
     t_Log t = logid \<and> t_Claim t \<noteq> zeroHash \<and> t_Exchange t \<noteq> zeroHash \<and>
     Transition_ID c t \<notin> Transition_ID c ` set earlier \<and>
     pipeline (kinds_of earlier (t_Claim t) @ [t_Kind t])"

lemma Lifecycle_check_iff:
  assumes "pipeline (kinds_of st (t_Claim t))"
  shows "Lifecycle_check c (lifecycle_of_store c logid st) t = None \<longleftrightarrow> life_admissible_after c logid st t"
proof (cases "kinds_of st (t_Claim t) = []")
  case True
  then show ?thesis
    by (auto simp: Lifecycle_check_def lifecycle_of_store_def life_admissible_after_def pipeline_snoc kind_defs)
next
  case False
  have "KindFiled \<le> last (kinds_of st (t_Claim t))" "last (kinds_of st (t_Claim t)) \<le> KindSealed"
    using pipeline_last [OF assms False] by blast+
  then have "last (kinds_of st (t_Claim t)) \<in> {1, 2, 3, 4}" "t_Kind t < 1 \<or> t_Kind t \<in> {1, 2, 3, 4} \<or> t_Kind t > 4"
    unfolding kind_defs by (simp_all, unat_arith+)
  then show ?thesis
    using False assms
    by (auto simp: Lifecycle_check_def lifecycle_of_store_def life_admissible_after_def pipeline_snoc kind_defs)
qed

lemma count_list_snoc: "count_list (ks @ [k]) j = count_list ks j + (if k = j then 1 else 0)"
  by (induction ks) auto

lemma Lifecycle_admit_store:
  assumes adm: "life_admissible_after c logid st t" and pipe: "pipeline (kinds_of st (t_Claim t))"
  shows "Lifecycle_admit c (lifecycle_of_store c logid st\<lparr>ll_store := st @ [t]\<rparr>) t = lifecycle_of_store c logid (st @ [t])"
    (is "?a = ?b")
proof (rule lifecycle_log.equality)
  let ?ks = "kinds_of st (t_Claim t)"
  have new: "Transition_ID c t \<notin> set (map (Transition_ID c) st)" and step: "pipeline (?ks @ [t_Kind t])"
    using adm by (simp_all add: life_admissible_after_def)
  show "ll_id ?a = ll_id ?b" "ll_store ?a = ll_store ?b" "ll_leafs ?a = ll_leafs ?b"
    by (simp_all add: Lifecycle_admit_def lifecycle_of_store_def Let_def)
  show "ll_index ?a = ll_index ?b"
    using index_of_snoc [OF new] by (simp add: Lifecycle_admit_def lifecycle_of_store_def Let_def)
  show "ll_claim ?a = ll_claim ?b"
    using seqs_of_kinds_Nil [of st]
    by (auto simp: Lifecycle_admit_def lifecycle_of_store_def Let_def map_get_def kinds_of_snoc seqs_of_snoc fun_eq_iff)
  show "ll_kinds ?a = ll_kinds ?b"
    by (auto simp: Lifecycle_admit_def lifecycle_of_store_def Let_def map_get_def kinds_of_snoc count_list_snoc
        fun_eq_iff count_list_0_iff)
  have "?ks \<noteq> [] \<Longrightarrow> \<not> last ?ks < t_Kind t \<Longrightarrow> last ?ks = t_Kind t"
  proof -
    assume ne: "?ks \<noteq> []" and nlt: "\<not> last ?ks < t_Kind t"
    have "KindFiled \<le> last ?ks" "last ?ks < KindResolved \<and> (t_Kind t = KindAdjudicated \<or> t_Kind t = KindResolved) \<or>
        last ?ks = KindResolved \<and> t_Kind t = KindSealed"
      using step ne pipeline_last [OF pipe ne] by (auto simp: pipeline_snoc split: if_splits)
    with nlt show "last ?ks = t_Kind t"
      unfolding kind_defs by (auto simp: word_less_nat_alt word_le_nat_alt word_unat_eq_iff)
  qed
  moreover have "?ks = [] \<Longrightarrow> 0 < t_Kind t" using step by (simp add: kind_defs)
  ultimately show "ll_state ?a = ll_state ?b"
    by (auto simp: Lifecycle_admit_def lifecycle_of_store_def Let_def map_get_def kinds_of_snoc fun_eq_iff)
  show "lifecycle_log.more ?a = lifecycle_log.more ?b" by simp
qed

lemma Lifecycle_Append_iff:
  assumes "pipeline (kinds_of st (t_Claim t))"
  shows "Lifecycle_Append c (lifecycle_of_store c logid st) t = Inr (seq, l') \<longleftrightarrow>
    life_admissible_after c logid st t \<and> seq = word_of_nat (length st) \<and> l' = lifecycle_of_store c logid (st @ [t])"
proof (cases "life_admissible_after c logid st t")
  case True
  then have "Lifecycle_check c (lifecycle_of_store c logid st) t = None" by (simp add: Lifecycle_check_iff [OF assms])
  then show ?thesis using True Lifecycle_admit_store [OF True assms]
    by (auto simp: Lifecycle_Append_def Let_def TransitionStore_Append_def lifecycle_of_store_def)
next
  case False
  then obtain e where "Lifecycle_check c (lifecycle_of_store c logid st) t = Some e"
    using Lifecycle_check_iff [OF assms, of c logid] by (cases "Lifecycle_check c (lifecycle_of_store c logid st) t") auto
  then show ?thesis using False by (simp add: Lifecycle_Append_def)
qed

lemma life_step_iff:
  assumes "pipeline (kinds_of st (t_Claim t))"
  shows "life_step c (lifecycle_of_store c logid st) t = Inr l' \<longleftrightarrow>
    life_admissible_after c logid st t \<and> l' = lifecycle_of_store c logid (st @ [t])"
proof (cases "Lifecycle_Append c (lifecycle_of_store c logid st) t")
  case (Inl err)
  then show ?thesis
    using Lifecycle_Append_iff [OF assms, of c logid "word_of_nat (length st)" l'] by (simp add: life_step_def)
next
  case (Inr r)
  obtain seq m where r: "r = (seq, m)" by (cases r)
  with Inr have "life_admissible_after c logid st t" "m = lifecycle_of_store c logid (st @ [t])"
    by (simp_all add: Lifecycle_Append_iff [OF assms])
  then show ?thesis using Inr r by (auto simp: life_step_def)
qed

definition life_admissible :: "crypto \<Rightarrow> b32 \<Rightarrow> transition_store \<Rightarrow> bool" where
  "life_admissible c logid st \<longleftrightarrow> (\<forall>i < length st. life_admissible_after c logid (take i st) (st ! i))"

lemma life_admissible_snoc:
  "life_admissible c logid (st @ [t]) \<longleftrightarrow> life_admissible c logid st \<and> life_admissible_after c logid st t"
  by (auto simp: life_admissible_def less_Suc_eq nth_append)

lemma life_admissible_pipeline: "life_admissible c logid st \<Longrightarrow> pipeline (kinds_of st claim)"
proof (induction st rule: rev_induct)
  case Nil
  then show ?case by (simp add: kinds_of_def)
next
  case (snoc t st)
  then show ?case by (auto simp: life_admissible_snoc kinds_of_snoc life_admissible_after_def)
qed

text \<open>Admissible stores, without positions: the structural gates hold, no leaf occurs twice, and every
  claim's kinds form a pipeline trace.\<close>

lemma life_admissible_iff:
  "life_admissible c logid st \<longleftrightarrow>
     (\<forall>t \<in> set st. t_Log t = logid \<and> t_Claim t \<noteq> zeroHash \<and> t_Exchange t \<noteq> zeroHash) \<and>
     distinct (map (Transition_ID c) st) \<and> (\<forall>claim. pipeline (kinds_of st claim))"
proof (induction st rule: rev_induct)
  case Nil
  then show ?case by (simp add: life_admissible_def kinds_of_def)
next
  case (snoc t st)
  have "(\<forall>claim. pipeline (kinds_of (st @ [t]) claim)) \<longleftrightarrow>
      (\<forall>claim. pipeline (kinds_of st claim)) \<and> pipeline (kinds_of st (t_Claim t) @ [t_Kind t])"
    (is "(\<forall>claim. ?new claim) \<longleftrightarrow> ?old \<and> ?step")
  proof
    assume new: "\<forall>claim. ?new claim"
    have "pipeline (kinds_of st claim)" for claim
      using new [rule_format, of claim] by (cases "t_Claim t = claim") (simp_all add: kinds_of_snoc pipeline_snoc)
    moreover have ?step using new [rule_format, of "t_Claim t"] by (simp add: kinds_of_snoc)
    ultimately show "?old \<and> ?step" by blast
  next
    assume "?old \<and> ?step"
    then show "\<forall>claim. ?new claim" by (simp add: kinds_of_snoc)
  qed
  then show ?case using snoc.IH by (auto simp: life_admissible_snoc life_admissible_after_def)
qed

interpretation llog_store: stored_log "life_step c" ll_store "\<lambda>l st. l\<lparr>ll_store := st\<rparr>"
    "\<lambda>l i. life_open_step c l (word_of_nat i)" for c
proof
  fix l :: lifecycle_log and t l'
  assume "life_step c l t = Inr l'"
  then show "ll_store l' = ll_store l @ [t]"
    by (auto simp: life_step_def Lifecycle_Append_def Lifecycle_admit_def TransitionStore_Append_def Let_def
        split: option.splits)
next
  fix l :: lifecycle_log and st i e l'
  show "ll_store l = st \<Longrightarrow> l\<lparr>ll_store := st\<rparr> = l" by simp
  assume "length st < 2 ^ 64" "i < length st"
  then have "unat (word_of_nat i :: u64) = i" "unat (word_of_nat (length st) :: u64) = length st"
    by (simp_all add: unat_word_of_nat64)
  then have at: "TransitionStore_At st (word_of_nat i) = Inr (st ! i)"
    using \<open>i < length st\<close> by (simp add: TransitionStore_At_def word_le_nat_alt)
  have chk: "Lifecycle_check c (l\<lparr>ll_store := st\<rparr>) (st ! i) = Lifecycle_check c l (st ! i)"
    by (simp add: Lifecycle_check_def)
  show "life_step c l (st ! i) = Inl e \<Longrightarrow> \<exists>e'. life_open_step c (l\<lparr>ll_store := st\<rparr>) (word_of_nat i) = Inl e'"
    by (auto simp: life_step_def Lifecycle_Append_def life_open_step_def at chk Let_def split: option.splits)
  show "life_step c l (st ! i) = Inr l' \<Longrightarrow>
      life_open_step c (l\<lparr>ll_store := st\<rparr>) (word_of_nat i) = Inr (l'\<lparr>ll_store := st\<rparr>)"
    by (auto simp: life_step_def Lifecycle_Append_def life_open_step_def at chk Lifecycle_admit_def Let_def split: option.splits)
qed

lemma run_life_step:
  "run_all (life_step c) (lifecycle_of_store c logid []) st = Inr l \<longleftrightarrow>
     life_admissible c logid st \<and> l = lifecycle_of_store c logid st"
proof (induction st arbitrary: l rule: rev_induct)
  case Nil
  then show ?case by (auto simp: life_admissible_def)
next
  case (snoc t st)
  then show ?case
    by (auto simp: run_all_snoc life_admissible_snoc life_step_iff [OF life_admissible_pipeline])
qed

lemma OpenLifecycleLog_iff:
  assumes "length st < 2 ^ 64"
  shows "OpenLifecycleLog c operator (Some st) = Inr l \<longleftrightarrow>
    length operator = PublicKeySize \<and> life_admissible c (LifecycleLogID c operator) st \<and>
    l = lifecycle_of_store c (LifecycleLogID c operator) st"
proof -
  have e: "\<lparr>ll_id = LifecycleLogID c operator, ll_store = st, ll_leafs = [], ll_index = Map.empty,
        ll_state = Map.empty, ll_claim = Map.empty, ll_kinds = Map.empty\<rparr>
      = lifecycle_of_store c (LifecycleLogID c operator) []\<lparr>ll_store := st\<rparr>"
    by (simp add: lifecycle_of_store_def index_of_def kinds_of_def)
  have n: "unat (TransitionStore_Len st) = length st" using assms by (simp add: TransitionStore_Len_def unat_word_of_nat64)
  have s: "ll_store (lifecycle_of_store c (LifecycleLogID c operator) []) = []" by (simp add: lifecycle_of_store_def)
  show ?thesis
    using llog_store.open_is_run [OF assms s, of c l]
    by (simp add: OpenLifecycleLog_def e n run_life_step run_all_map)
qed

section \<open>A concrete lifecycle\<close>

definition sample_transition :: "transition_kind \<Rightarrow> transition" where
  "sample_transition k =
     \<lparr>t_Log = LifecycleLogID sample_crypto (replicate 32 9), t_Claim = 1, t_Kind = k, t_Artifact = 0, t_Exchange = 1, t_At = 0\<rparr>"

lemma sample_transition_sel [simp]:
  "t_Log (sample_transition k) = LifecycleLogID sample_crypto (replicate 32 9)" "t_Claim (sample_transition k) = 1"
  "t_Kind (sample_transition k) = k" "t_Exchange (sample_transition k) = 1"
  by (simp_all add: sample_transition_def)

lemma sample_lifelogid: "LifecycleLogID sample_crypto (replicate 32 9) = 2675"
  by (simp add: LifecycleLogID_def sample_eval domainLifeLogID_def)

lemma sample_transition_ids:
  "Transition_ID sample_crypto (sample_transition 1) \<noteq> Transition_ID sample_crypto (sample_transition 3)"
proof -
  have "sample_sha (b32_bytes 2675) = 125" by (simp add: b32_bytes_def upt_rec)
  then show ?thesis
    by (simp add: Transition_ID_def Transition_CanonicalBytes_def sample_transition_def sample_lifelogid sample_b32_sums
        sample_eval domainLifeLeaf_def domainLifeTransition_def)
qed

lemma sample_lifecycle:
  "OpenLifecycleLog sample_crypto (replicate 32 9) (Some [sample_transition 1]) =
     Inr (lifecycle_of_store sample_crypto (LifecycleLogID sample_crypto (replicate 32 9)) [sample_transition 1])"
  "OpenLifecycleLog sample_crypto (replicate 32 9) (Some [sample_transition 1, sample_transition 3]) =
     Inr (lifecycle_of_store sample_crypto (LifecycleLogID sample_crypto (replicate 32 9)) [sample_transition 1, sample_transition 3])"
  using sample_transition_ids
  by (simp_all add: OpenLifecycleLog_iff life_admissible_iff PublicKeySize_def zeroHash_def kinds_of_def kind_defs)

section \<open>Properties\<close>

text \<open>C9: the lifecycle log accepts exactly the lifecycle. \<open>OpenLifecycleLog\<close> accepts a store iff every
  transition names this log, a claim and an exchange, no leaf repeats, and the kinds of each claim, read in
  log order, are filed, then any number of adjudications, then possibly resolved, then possibly
  sealed. In the log it builds, \<open>State\<close> is the last kind of the claim and \<open>Claim\<close> its positions.\<close>

theorem OpenLifecycleLog_exact:
  assumes "length operator = PublicKeySize" and "length st < 2 ^ 63"
  shows "((\<exists>l. OpenLifecycleLog c operator (Some st) = Inr l) \<longleftrightarrow>
      (\<forall>t \<in> set st. t_Log t = LifecycleLogID c operator \<and> t_Claim t \<noteq> zeroHash \<and> t_Exchange t \<noteq> zeroHash) \<and>
      distinct (map (Transition_ID c) st) \<and> (\<forall>claim. pipeline (kinds_of st claim))) \<and>
    (\<forall>l. OpenLifecycleLog c operator (Some st) = Inr l \<longrightarrow>
      (\<forall>claim. Lifecycle_State l claim = (if kinds_of st claim = [] then None else Some (last (kinds_of st claim))) \<and>
         Lifecycle_Claim l claim = seqs_of st claim))"
proof -
  have len: "length st < 2 ^ 64" using assms(2) by simp
  show ?thesis
    using assms(1) seqs_of_kinds_Nil [of st]
    by (auto simp: OpenLifecycleLog_iff [OF len] life_admissible_iff Lifecycle_State_def Lifecycle_Claim_def
        lifecycle_of_store_def map_get_def)
qed

theorem OpenLifecycleLog_exact_witness:
  "(\<exists>l. OpenLifecycleLog sample_crypto (replicate 32 9) (Some [sample_transition 1, sample_transition 3]) = Inr l \<and>
      Lifecycle_State l 1 = Some KindResolved \<and> Lifecycle_Claim l 1 = [0, 1] \<and> Lifecycle_State l 2 = None) \<and>
   \<not> (\<exists>l. OpenLifecycleLog sample_crypto (replicate 32 9) (Some [sample_transition 4]) = Inr l)"
proof -
  let ?l = "lifecycle_of_store sample_crypto (LifecycleLogID sample_crypto (replicate 32 9)) [sample_transition 1, sample_transition 3]"
  have op: "length (replicate 32 9 :: bytes) = PublicKeySize" by (simp add: PublicKeySize_def)
  have "\<not> (\<exists>l. OpenLifecycleLog sample_crypto (replicate 32 9) (Some [sample_transition 4]) = Inr l)"
    using OpenLifecycleLog_exact [OF op, of "[sample_transition 4]" sample_crypto]
    by (auto simp: kinds_of_def kind_defs)
  moreover have "Lifecycle_State ?l 1 = Some KindResolved" "Lifecycle_Claim ?l 1 = [0, 1]" "Lifecycle_State ?l 2 = None"
    using OpenLifecycleLog_exact [OF op, of "[sample_transition 1, sample_transition 3]" sample_crypto] sample_lifecycle(2)
    by (simp_all add: kinds_of_def kind_defs seqs_of_def)
  ultimately show ?thesis using sample_lifecycle(2) by blast
qed

text \<open>Appending a transition is reopening with it. For the log opened on a store, \<open>Append\<close> admits a
  transition exactly when the store with it added opens, and returns the position after the last one and the
  log so opened; and the operator-signed heads before and after are joined by a consistency proof that
  verifies under the lifecycle log's own identity.\<close>

theorem Lifecycle_Append_reopens:
  assumes "keypair c priv" and "OpenLifecycleLog c (ed_public c priv) (Some st) = Inr l" and "length st + 1 < 2 ^ 63"
  shows "(Lifecycle_Append c l t = Inr (seq, l') \<longleftrightarrow>
      seq = word_of_nat (length st) \<and> OpenLifecycleLog c (ed_public c priv) (Some (st @ [t])) = Inr l') \<and>
    (Lifecycle_Append c l t = Inr (seq, l') \<longrightarrow>
      (\<exists>older newer hs. Checkpoint_Sign c priv (Lifecycle_Checkpoint c l t0) = Some older \<and>
         Checkpoint_Sign c priv (Lifecycle_Checkpoint c l' t1) = Some newer \<and>
         Lifecycle_ProveConsistency c l' (cp_Size older) = Inr hs \<and>
         VerifyConsistencyAs c older newer hs (ed_public c priv) (LifecycleLogID c (ed_public c priv)) = Some True))"
proof -
  have "length st < 2 ^ 64" "length (st @ [t]) < 2 ^ 64" using assms(3) by simp_all
  note o = this [THEN OpenLifecycleLog_iff]
  let ?id = "LifecycleLogID c (ed_public c priv)"
  have l: "life_admissible c ?id st" "l = lifecycle_of_store c ?id st" using assms(2) by (simp_all add: o)
  have iff: "Lifecycle_Append c l t = Inr (seq, l') \<longleftrightarrow>
      seq = word_of_nat (length st) \<and> OpenLifecycleLog c (ed_public c priv) (Some (st @ [t])) = Inr l'"
    using l keypair_verify(3) [OF assms(1)]
    by (auto simp: o life_admissible_snoc Lifecycle_Append_iff [OF life_admissible_pipeline [OF l(1)]])
  obtain older newer where s: "Checkpoint_Sign c priv (Lifecycle_Checkpoint c l t0) = Some older"
    "Checkpoint_Sign c priv (Lifecycle_Checkpoint c l' t1) = Some newer"
    using Checkpoint_Sign_total [OF assms(1)] by blast
  have "\<exists>hs. Lifecycle_ProveConsistency c l' (cp_Size older) = Inr hs \<and>
      VerifyConsistencyAs c older newer hs (ed_public c priv) ?id = Some True"
    if app: "Lifecycle_Append c l t = Inr (seq, l')"
  proof -
    have l': "l' = lifecycle_of_store c ?id (st @ [t])" using app iff by (simp add: o)
    have "length (ll_leafs l') < 2 ^ 63" using assms(3) l' by (simp add: lifecycle_of_store_def)
    from life.extension_roundtrip [OF this _ _ assms(1) s, of "[Transition_ID c t]"] show ?thesis
      by (simp add: l l' lifecycle_of_store_def)
  qed
  with iff s show ?thesis by blast
qed

theorem Lifecycle_Append_reopens_witness:
  "\<exists>l l'. OpenLifecycleLog sample_crypto (replicate 32 9) (Some [sample_transition 1]) = Inr l \<and>
     Lifecycle_Append sample_crypto l (sample_transition 3) = Inr (1, l') \<and>
     (\<exists>older newer hs. Checkpoint_Sign sample_crypto (sample_priv 9) (Lifecycle_Checkpoint sample_crypto l 0) = Some older \<and>
         Checkpoint_Sign sample_crypto (sample_priv 9) (Lifecycle_Checkpoint sample_crypto l' 1) = Some newer \<and>
         VerifyConsistencyAs sample_crypto older newer hs (replicate 32 9) (LifecycleLogID sample_crypto (replicate 32 9)) = Some True)"
proof -
  let ?log = "lifecycle_of_store sample_crypto (LifecycleLogID sample_crypto (replicate 32 9))"
  have o: "OpenLifecycleLog sample_crypto (ed_public sample_crypto (sample_priv 9)) (Some [sample_transition 1]) = Inr (?log [sample_transition 1])"
    using sample_lifecycle(1) by simp
  note t = Lifecycle_Append_reopens [OF sample_keypair o, of "sample_transition 3" 1 "?log [sample_transition 1, sample_transition 3]" 0 1]
  have "Lifecycle_Append sample_crypto (?log [sample_transition 1]) (sample_transition 3) = Inr (1, ?log [sample_transition 1, sample_transition 3])"
    using t sample_lifecycle(2) by simp
  with t show ?thesis
    using sample_lifecycle(1) by (intro exI [of _ "?log [sample_transition 1]"] exI [of _ "?log [sample_transition 1, sample_transition 3]"]) auto
qed

end
