(* ===== verification/Dispute.thy ===== *)
theory Dispute
  imports Quorum Replay Sample
begin

text \<open>
  The dispute layer (\<open>src/internal/dispute\<close>): complainant-signed openings (\<open>opening.go\<close>), quorum-signed
  rulings with their remedies (\<open>ruling.go\<close>), withdrawals (\<open>withdrawal.go\<close>), the in-memory store
  (\<open>memstore.go\<close>), the case read model (\<open>case.go\<close>) and the registry (\<open>registry.go\<close>). A registry call
  is its checks followed by one append to the store; \<open>Rule_checks\<close> and \<open>Withdraw_checks\<close> name the
  part before the append, so that calls can also be interleaved.
\<close>

section \<open>Errors, modes, findings\<close>

datatype dispute_error =
    ErrInvalid | ErrDuplicate | ErrClosed | ErrUnauthorized | ErrAdjudicated
  | DisComplainantMalformed | DisRespondentMalformed | DisSameParties | DisZeroExchange | DisNonceDraw
  | DisKeyMalformed | DisKeyNotComplainant
  | DisEmptyPlatform | DisEmptyRoster | DisBadThreshold | DisBadAdjudicator nat | DisNilAnchors | DisNilStore

definition domainOpening :: string where "domainOpening = ''cloudy/dispute/opening/v0''"
definition domainRuling :: string where "domainRuling = ''cloudy/dispute/ruling/v0''"
definition domainWithdrawal :: string where "domainWithdrawal = ''cloudy/dispute/withdrawal/v0''"
definition domainID :: string where "domainID = ''cloudy/dispute/id/v0''"

type_synonym dispute_id = b32
type_synonym exchange_ref = b32
type_synonym dispute_mode = byte
type_synonym finding = byte
type_synonym harm_disposition = byte
type_synonym coordinator_action = byte

definition DisputeModeEscrow :: dispute_mode where "DisputeModeEscrow = 1"
definition DisputeModeCredit :: dispute_mode where "DisputeModeCredit = 2"

definition dispute_validMode :: "dispute_mode \<Rightarrow> bool" where
  "dispute_validMode m \<longleftrightarrow> m = DisputeModeEscrow \<or> m = DisputeModeCredit"

definition FindingForComplainant :: finding where "FindingForComplainant = 1"
definition FindingForRespondent :: finding where "FindingForRespondent = 2"
definition FindingSplit :: finding where "FindingSplit = 3"
definition FindingNoFault :: finding where "FindingNoFault = 4"

definition validFinding :: "finding \<Rightarrow> bool" where
  "validFinding f \<longleftrightarrow> f = FindingForComplainant \<or> f = FindingForRespondent \<or> f = FindingSplit \<or> f = FindingNoFault"

definition HarmUpheld :: harm_disposition where "HarmUpheld = 1"
definition HarmExpunged :: harm_disposition where "HarmExpunged = 2"

definition validHarm :: "harm_disposition \<Rightarrow> bool" where
  "validHarm h \<longleftrightarrow> h = HarmUpheld \<or> h = HarmExpunged"

definition ActionRefundComplainant :: coordinator_action where "ActionRefundComplainant = 1"
definition ActionReleaseRespondent :: coordinator_action where "ActionReleaseRespondent = 2"
definition ActionSplit :: coordinator_action where "ActionSplit = 3"

definition validCoordinatorAction :: "coordinator_action \<Rightarrow> bool" where
  "validCoordinatorAction a \<longleftrightarrow> a = ActionRefundComplainant \<or> a = ActionReleaseRespondent \<or> a = ActionSplit"

section \<open>Openings\<close>

record dispute_opening =
  op_Platform :: string
  op_Complainant :: bytes
  op_Respondent :: bytes
  op_Exchange :: exchange_ref
  op_ReasonHash :: b32
  op_Nonce :: b32
  op_OpenedAt :: gotime
  op_Signature :: bytes

definition NewOpening ::
  "string \<Rightarrow> bytes \<Rightarrow> bytes \<Rightarrow> exchange_ref \<Rightarrow> b32 \<Rightarrow> gotime \<Rightarrow> b32 option \<Rightarrow> dispute_error + dispute_opening" where
  "NewOpening platform complainant respondent exchange reasonHash at rnd =
     (if length complainant \<noteq> PublicKeySize then Inl DisComplainantMalformed
      else if length respondent \<noteq> PublicKeySize then Inl DisRespondentMalformed
      else if complainant = respondent then Inl DisSameParties
      else if exchange = 0 then Inl DisZeroExchange
      else case rnd of None \<Rightarrow> Inl DisNonceDraw | Some nonce \<Rightarrow>
        Inr \<lparr>op_Platform = platform, op_Complainant = complainant, op_Respondent = respondent,
             op_Exchange = exchange, op_ReasonHash = reasonHash, op_Nonce = nonce, op_OpenedAt = at,
             op_Signature = []\<rparr>)"

definition Opening_CanonicalBytes :: "crypto \<Rightarrow> dispute_opening \<Rightarrow> bytes" where
  "Opening_CanonicalBytes c o' =
     canon_sum c domainOpening
       [CString (op_Platform o'), CBytes (op_Complainant o'), CBytes (op_Respondent o'),
        CBytes (b32_bytes (op_Exchange o')), CBytes (b32_bytes (op_ReasonHash o')),
        CBytes (b32_bytes (op_Nonce o')), CTime (op_OpenedAt o')]"

definition Opening_Sign :: "crypto \<Rightarrow> bytes \<Rightarrow> dispute_opening \<Rightarrow> dispute_error + dispute_opening" where
  "Opening_Sign c priv o' =
     (if length priv \<noteq> PrivateKeySize then Inl DisKeyMalformed
      else if ed_public c priv \<noteq> op_Complainant o' then Inl DisKeyNotComplainant
      else Inr (o'\<lparr>op_Signature := ed_sign c priv (Opening_CanonicalBytes c o')\<rparr>))"

definition Opening_Verify :: "crypto \<Rightarrow> dispute_opening \<Rightarrow> bool" where
  "Opening_Verify c o' \<longleftrightarrow>
     length (op_Complainant o') = PublicKeySize \<and> length (op_Respondent o') = PublicKeySize \<and>
     op_Complainant o' \<noteq> op_Respondent o' \<and> op_Exchange o' \<noteq> 0 \<and>
     length (op_Signature o') = SignatureSize \<and>
     sig_ok c (op_Complainant o') (Opening_CanonicalBytes c o') (op_Signature o')"

definition Opening_ID :: "crypto \<Rightarrow> dispute_opening \<Rightarrow> dispute_id" where
  "Opening_ID c o' =
     sha256 c (canon_sum c domainID [CBytes (Opening_CanonicalBytes c o'), CBytes (op_Signature o')])"

definition Opening_clone :: "dispute_opening \<Rightarrow> dispute_opening" where
  "Opening_clone o' = o'\<lparr>op_Complainant := map id (op_Complainant o'),
     op_Respondent := map id (op_Respondent o'), op_Signature := map id (op_Signature o')\<rparr>"

section \<open>Rulings\<close>

record escalation =
  es_Action :: coordinator_action
  es_Units :: u64

record refund_directive =
  rd_Units :: u64

text \<open>A nil pointer is \<open>None\<close>.\<close>

record remedy =
  rm_Escalation :: "escalation option"
  rm_Harm :: harm_disposition
  rm_Refund :: "refund_directive option"

definition Remedy_validate :: "remedy \<Rightarrow> dispute_mode \<Rightarrow> dispute_error option" where
  "Remedy_validate r m =
     (if m = DisputeModeEscrow then
        (case rm_Escalation r of None \<Rightarrow> Some ErrInvalid | Some e \<Rightarrow>
           if \<not> validCoordinatorAction (es_Action e) then Some ErrInvalid
           else if rm_Harm r \<noteq> 0 \<or> rm_Refund r \<noteq> None then Some ErrInvalid
           else None)
      else if m = DisputeModeCredit then
        (if rm_Escalation r \<noteq> None then Some ErrInvalid
         else if \<not> validHarm (rm_Harm r) then Some ErrInvalid
         else None)
      else Some ErrInvalid)"

definition Remedy_clone :: "remedy \<Rightarrow> remedy" where
  "Remedy_clone r =
     \<lparr>rm_Escalation = map_option (\<lambda>e. e) (rm_Escalation r), rm_Harm = rm_Harm r,
      rm_Refund = map_option (\<lambda>f. f) (rm_Refund r)\<rparr>"

record ruling =
  ru_Platform :: string
  ru_Dispute :: dispute_id
  ru_Exchange :: exchange_ref
  ru_Mode :: dispute_mode
  ru_Finding :: finding
  ru_Remedy :: remedy
  ru_RationaleHash :: b32
  ru_RuledAt :: gotime
  ru_Sigs :: "bytes list"

definition NewEscrowRuling ::
  "string \<Rightarrow> dispute_id \<Rightarrow> exchange_ref \<Rightarrow> finding \<Rightarrow> coordinator_action \<Rightarrow> u64 \<Rightarrow> b32 \<Rightarrow> gotime \<Rightarrow> ruling" where
  "NewEscrowRuling platform dispute exchange finding action units rationaleHash at =
     \<lparr>ru_Platform = platform, ru_Dispute = dispute, ru_Exchange = exchange, ru_Mode = DisputeModeEscrow,
      ru_Finding = finding,
      ru_Remedy = \<lparr>rm_Escalation = Some \<lparr>es_Action = action, es_Units = units\<rparr>, rm_Harm = 0, rm_Refund = None\<rparr>,
      ru_RationaleHash = rationaleHash, ru_RuledAt = at, ru_Sigs = []\<rparr>"

definition NewCreditRuling ::
  "string \<Rightarrow> dispute_id \<Rightarrow> exchange_ref \<Rightarrow> finding \<Rightarrow> harm_disposition \<Rightarrow> refund_directive option \<Rightarrow> b32 \<Rightarrow> gotime \<Rightarrow> ruling"
where
  "NewCreditRuling platform dispute exchange finding harm refund rationaleHash at =
     \<lparr>ru_Platform = platform, ru_Dispute = dispute, ru_Exchange = exchange, ru_Mode = DisputeModeCredit,
      ru_Finding = finding, ru_Remedy = \<lparr>rm_Escalation = None, rm_Harm = harm, rm_Refund = refund\<rparr>,
      ru_RationaleHash = rationaleHash, ru_RuledAt = at, ru_Sigs = []\<rparr>"

definition Ruling_CanonicalBytes :: "crypto \<Rightarrow> ruling \<Rightarrow> bytes" where
  "Ruling_CanonicalBytes c r =
     canon_sum c domainRuling
       ([CString (ru_Platform r), CBytes (b32_bytes (ru_Dispute r)), CBytes (b32_bytes (ru_Exchange r)),
         CUint64 (ucast (ru_Mode r)), CUint64 (ucast (ru_Finding r))] @
        (case rm_Escalation (ru_Remedy r) of
           Some e \<Rightarrow> [CBool True, CUint64 (ucast (es_Action e)), CUint64 (es_Units e)]
         | None \<Rightarrow> [CBool False]) @
        [CUint64 (ucast (rm_Harm (ru_Remedy r)))] @
        (case rm_Refund (ru_Remedy r) of
           Some f \<Rightarrow> [CBool True, CUint64 (rd_Units f)]
         | None \<Rightarrow> [CBool False]) @
        [CBytes (b32_bytes (ru_RationaleHash r)), CTime (ru_RuledAt r)])"

definition Ruling_Sign :: "crypto \<Rightarrow> bytes \<Rightarrow> ruling \<Rightarrow> ruling option" where
  "Ruling_Sign c priv r =
     map_option (\<lambda>sig. r\<lparr>ru_Sigs := ru_Sigs r @ [sig]\<rparr>) (ed25519_Sign c priv (Ruling_CanonicalBytes c r))"

record charter =
  ch_Platform :: string
  ch_Adjudicators :: "bytes list"
  ch_Threshold :: int

definition Ruling_Verify :: "crypto \<Rightarrow> ruling \<Rightarrow> charter \<Rightarrow> bool" where
  "Ruling_Verify c r ch =
     quorum_reached c (Ruling_CanonicalBytes c r) (ch_Adjudicators ch) (ru_Sigs r) (ch_Threshold ch)"

definition Ruling_ID :: "crypto \<Rightarrow> ruling \<Rightarrow> dispute_id" where
  "Ruling_ID c r =
     sha256 c (canon_sum c domainID
       ([CBytes (Ruling_CanonicalBytes c r), CCount (int (length (ru_Sigs r)))] @ map CBytes (ru_Sigs r)))"

definition Ruling_clone :: "ruling \<Rightarrow> ruling" where
  "Ruling_clone r = r\<lparr>ru_Remedy := Remedy_clone (ru_Remedy r), ru_Sigs := map (map id) (ru_Sigs r)\<rparr>"

section \<open>Withdrawals\<close>

record withdrawal =
  wd_Platform :: string
  wd_Dispute :: dispute_id
  wd_WithdrawnAt :: gotime
  wd_Signature :: bytes

definition Withdrawal_CanonicalBytes :: "crypto \<Rightarrow> withdrawal \<Rightarrow> bytes" where
  "Withdrawal_CanonicalBytes c w =
     canon_sum c domainWithdrawal
       [CString (wd_Platform w), CBytes (b32_bytes (wd_Dispute w)), CTime (wd_WithdrawnAt w)]"

definition Withdrawal_Sign :: "crypto \<Rightarrow> bytes \<Rightarrow> withdrawal \<Rightarrow> withdrawal option" where
  "Withdrawal_Sign c priv w =
     map_option (\<lambda>sig. w\<lparr>wd_Signature := sig\<rparr>) (ed25519_Sign c priv (Withdrawal_CanonicalBytes c w))"

definition Withdrawal_Verify :: "crypto \<Rightarrow> withdrawal \<Rightarrow> bytes \<Rightarrow> bool" where
  "Withdrawal_Verify c w complainant \<longleftrightarrow>
     length complainant = PublicKeySize \<and> length (wd_Signature w) = SignatureSize \<and>
     sig_ok c complainant (Withdrawal_CanonicalBytes c w) (wd_Signature w)"

definition Withdrawal_leafID :: "crypto \<Rightarrow> withdrawal \<Rightarrow> dispute_id" where
  "Withdrawal_leafID c w =
     sha256 c (canon_sum c domainID [CBytes (Withdrawal_CanonicalBytes c w), CBytes (wd_Signature w)])"

definition Withdrawal_clone :: "withdrawal \<Rightarrow> withdrawal" where
  "Withdrawal_clone w = w\<lparr>wd_Signature := map id (wd_Signature w)\<rparr>"

section \<open>Admitted artifacts and the store\<close>

text \<open>Exactly one of the three artifacts is present in an admitted value the registry makes.\<close>

record admitted =
  ad_dispute :: dispute_id
  ad_id :: dispute_id
  ad_opening :: "dispute_opening option"
  ad_ruling :: "ruling option"
  ad_withdrawal :: "withdrawal option"

definition Admitted_Opening :: "admitted \<Rightarrow> dispute_opening option" where
  "Admitted_Opening a = map_option Opening_clone (ad_opening a)"

definition Admitted_Ruling :: "admitted \<Rightarrow> ruling option" where
  "Admitted_Ruling a = map_option Ruling_clone (ad_ruling a)"

definition Admitted_Withdrawal :: "admitted \<Rightarrow> withdrawal option" where
  "Admitted_Withdrawal a = map_option Withdrawal_clone (ad_withdrawal a)"

text \<open>The key of a case: exchange, complainant and respondent, joined by zero bytes.\<close>

definition tuple_key :: "exchange_ref \<Rightarrow> bytes \<Rightarrow> bytes \<Rightarrow> string" where
  "tuple_key exchange complainant respondent =
     str_of_bytes (b32_bytes exchange) @ [CHR 0x00] @ str_of_bytes complainant @ [CHR 0x00] @ str_of_bytes respondent"

definition opensCase :: "admitted \<Rightarrow> string option" where
  "opensCase a =
     (case ad_opening a of None \<Rightarrow> None
      | Some o' \<Rightarrow> Some (tuple_key (op_Exchange o') (op_Complainant o') (op_Respondent o')))"

record dispute_store =
  ds_ids :: "dispute_id set"
  ds_byDispute :: "dispute_id \<rightharpoonup> admitted list"
  ds_openTuple :: "string \<rightharpoonup> dispute_id"
  ds_disputeTuple :: "dispute_id \<rightharpoonup> string"
  ds_adjudicated :: "string set"

definition DisputeStore_New :: dispute_store where
  "DisputeStore_New = \<lparr>ds_ids = {}, ds_byDispute = Map.empty, ds_openTuple = Map.empty,
     ds_disputeTuple = Map.empty, ds_adjudicated = {}\<rparr>"

definition DisputeStore_Append :: "dispute_store \<Rightarrow> admitted \<Rightarrow> dispute_error + dispute_store" where
  "DisputeStore_Append s a =
     (if ad_dispute a = 0 \<or> (ad_opening a = None \<and> ad_ruling a = None \<and> ad_withdrawal a = None) then Inl ErrInvalid
      else if ad_id a \<in> ds_ids s then Inl ErrDuplicate
      else
        let finish = \<lambda>s1. Inr (s1\<lparr>ds_ids := insert (ad_id a) (ds_ids s1),
              ds_byDispute := (ds_byDispute s1)(ad_dispute a \<mapsto> map_get (ds_byDispute s1) (ad_dispute a) [] @ [a])\<rparr>)
        in case opensCase a of
             Some key \<Rightarrow>
               if key \<in> ds_adjudicated s then Inl ErrAdjudicated
               else if ds_openTuple s key \<noteq> None then Inl ErrDuplicate
               else finish (s\<lparr>ds_openTuple := (ds_openTuple s)(key \<mapsto> ad_dispute a),
                              ds_disputeTuple := (ds_disputeTuple s)(ad_dispute a \<mapsto> key)\<rparr>)
           | None \<Rightarrow>
               (case ds_disputeTuple s (ad_dispute a) of
                  Some key \<Rightarrow>
                    finish (s\<lparr>ds_openTuple := (ds_openTuple s)(key := None),
                              ds_adjudicated := (if ad_ruling a \<noteq> None then insert key (ds_adjudicated s)
                                                 else ds_adjudicated s)\<rparr>)
                | None \<Rightarrow> finish s))"

definition ByDispute :: "dispute_store \<Rightarrow> dispute_id \<Rightarrow> admitted list" where
  "ByDispute s d = map_get (ds_byDispute s) d []"

section \<open>Cases\<close>

type_synonym dispute_state = byte

definition StateOpen :: dispute_state where "StateOpen = 1"
definition StateResolved :: dispute_state where "StateResolved = 2"
definition StateWithdrawn :: dispute_state where "StateWithdrawn = 3"

lemmas state_defs = StateOpen_def StateResolved_def StateWithdrawn_def

definition State_String :: "dispute_state \<Rightarrow> string" where
  "State_String s =
     (if s = StateOpen then ''open'' else if s = StateResolved then ''resolved''
      else if s = StateWithdrawn then ''withdrawn'' else ''invalid'')"

record dispute_case =
  ca_id :: dispute_id
  ca_exchange :: exchange_ref
  ca_complainant :: bytes
  ca_respondent :: bytes
  ca_state :: dispute_state
  ca_finding :: finding
  ca_remedy :: remedy

definition Case_Finding :: "dispute_case \<Rightarrow> finding option" where
  "Case_Finding c = (if ca_state c \<noteq> StateResolved then None else Some (ca_finding c))"

definition Case_Remedy :: "dispute_case \<Rightarrow> remedy option" where
  "Case_Remedy c = (if ca_state c \<noteq> StateResolved then None else Some (Remedy_clone (ca_remedy c)))"

section \<open>The registry\<close>

record registry =
  rg_charter :: charter
  rg_anchors :: "exchange_ref \<Rightarrow> bytes \<Rightarrow> bytes \<Rightarrow> bool"

text \<open>\<open>NewRegistry\<close>; the store it is given is passed beside the registry.\<close>

definition bad_adjudicator :: "bytes list \<Rightarrow> nat option" where
  "bad_adjudicator ks = find (\<lambda>i. length (ks ! i) \<noteq> PublicKeySize) [0..<length ks]"

definition NewRegistry ::
  "charter \<Rightarrow> (exchange_ref \<Rightarrow> bytes \<Rightarrow> bytes \<Rightarrow> bool) option \<Rightarrow> dispute_store option \<Rightarrow> dispute_error + registry" where
  "NewRegistry ch anchors store =
     (if ch_Platform ch = '''' then Inl DisEmptyPlatform
      else if ch_Adjudicators ch = [] then Inl DisEmptyRoster
      else if ch_Threshold ch < 1 \<or> ch_Threshold ch > int (length (ch_Adjudicators ch)) then Inl DisBadThreshold
      else case bad_adjudicator (ch_Adjudicators ch) of Some i \<Rightarrow> Inl (DisBadAdjudicator i) | None \<Rightarrow>
        case anchors of None \<Rightarrow> Inl DisNilAnchors | Some an \<Rightarrow>
        case store of None \<Rightarrow> Inl DisNilStore | Some _ \<Rightarrow>
          Inr \<lparr>rg_charter = ch, rg_anchors = an\<rparr>)"

text \<open>\<open>Case\<close>: the loop over the artifacts with their index and the \<open>seenOpening\<close> flag.\<close>

fun case_fold :: "dispute_case \<Rightarrow> bool \<Rightarrow> nat \<Rightarrow> admitted list \<Rightarrow> dispute_error + dispute_case" where
  "case_fold c seenOpening i [] = (if \<not> seenOpening then Inl ErrInvalid else Inr c)"
| "case_fold c seenOpening i (ad # ads) =
     (case ad_opening ad of
        Some o' \<Rightarrow>
          if i \<noteq> 0 \<or> seenOpening then Inl ErrInvalid
          else case_fold (c\<lparr>ca_exchange := op_Exchange o', ca_complainant := op_Complainant o',
                 ca_respondent := op_Respondent o', ca_state := StateOpen\<rparr>) True (i + 1) ads
      | None \<Rightarrow>
          (case ad_ruling ad of
             Some r \<Rightarrow>
               case_fold (c\<lparr>ca_state := StateResolved, ca_finding := ru_Finding r,
                 ca_remedy := Remedy_clone (ru_Remedy r)\<rparr>) seenOpening (i + 1) ads
           | None \<Rightarrow>
               (case ad_withdrawal ad of
                  Some w \<Rightarrow> case_fold (c\<lparr>ca_state := StateWithdrawn\<rparr>) seenOpening (i + 1) ads
                | None \<Rightarrow> case_fold c seenOpening (i + 1) ads)))"

definition zeroRemedy :: remedy where
  "zeroRemedy = \<lparr>rm_Escalation = None, rm_Harm = 0, rm_Refund = None\<rparr>"

definition zeroCase :: "dispute_id \<Rightarrow> dispute_case" where
  "zeroCase d = \<lparr>ca_id = d, ca_exchange = 0, ca_complainant = [], ca_respondent = [], ca_state = 0,
     ca_finding = 0, ca_remedy = zeroRemedy\<rparr>"

definition Registry_Case :: "dispute_store \<Rightarrow> dispute_id \<Rightarrow> dispute_error + dispute_case" where
  "Registry_Case s d =
     (let ads = ByDispute s d in
      if ads = [] then Inl ErrInvalid else case_fold (zeroCase d) False 0 ads)"

definition Open_checks :: "crypto \<Rightarrow> registry \<Rightarrow> dispute_opening \<Rightarrow> dispute_error + admitted" where
  "Open_checks c r o' =
     (if \<not> Opening_Verify c o' then Inl ErrInvalid
      else if op_Platform o' \<noteq> ch_Platform (rg_charter r) then Inl ErrInvalid
      else if \<not> rg_anchors r (op_Exchange o') (op_Complainant o') (op_Respondent o') then Inl ErrInvalid
      else let d = Opening_ID c o' in
        Inr \<lparr>ad_dispute = d, ad_id = d, ad_opening = Some (Opening_clone o'), ad_ruling = None, ad_withdrawal = None\<rparr>)"

definition Registry_Open ::
  "crypto \<Rightarrow> registry \<Rightarrow> dispute_store \<Rightarrow> dispute_opening \<Rightarrow> dispute_error + dispute_id \<times> dispute_store" where
  "Registry_Open c r s o' =
     (case Open_checks c r o' of Inl e \<Rightarrow> Inl e | Inr a \<Rightarrow>
      case DisputeStore_Append s a of Inl e \<Rightarrow> Inl e | Inr s' \<Rightarrow> Inr (ad_dispute a, s'))"

definition Rule_checks :: "crypto \<Rightarrow> registry \<Rightarrow> dispute_store \<Rightarrow> ruling \<Rightarrow> dispute_error + admitted" where
  "Rule_checks c r s ru =
     (if ru_Platform ru \<noteq> ch_Platform (rg_charter r) then Inl ErrInvalid
      else if \<not> dispute_validMode (ru_Mode ru) then Inl ErrInvalid
      else if \<not> validFinding (ru_Finding ru) then Inl ErrInvalid
      else case Remedy_validate (ru_Remedy ru) (ru_Mode ru) of Some e \<Rightarrow> Inl e | None \<Rightarrow>
        if \<not> Ruling_Verify c ru (rg_charter r) then Inl ErrUnauthorized
        else case Registry_Case s (ru_Dispute ru) of Inl e \<Rightarrow> Inl e | Inr ca \<Rightarrow>
          if ca_state ca \<noteq> StateOpen then Inl ErrClosed
          else if ru_Exchange ru \<noteq> ca_exchange ca then Inl ErrInvalid
          else Inr \<lparr>ad_dispute = ru_Dispute ru, ad_id = Ruling_ID c ru, ad_opening = None,
                    ad_ruling = Some (Ruling_clone ru), ad_withdrawal = None\<rparr>)"

definition Registry_Rule ::
  "crypto \<Rightarrow> registry \<Rightarrow> dispute_store \<Rightarrow> ruling \<Rightarrow> dispute_error + dispute_store" where
  "Registry_Rule c r s ru =
     (case Rule_checks c r s ru of Inl e \<Rightarrow> Inl e | Inr a \<Rightarrow> DisputeStore_Append s a)"

definition Withdraw_checks :: "crypto \<Rightarrow> registry \<Rightarrow> dispute_store \<Rightarrow> withdrawal \<Rightarrow> dispute_error + admitted" where
  "Withdraw_checks c r s w =
     (if wd_Platform w \<noteq> ch_Platform (rg_charter r) then Inl ErrInvalid
      else case Registry_Case s (wd_Dispute w) of Inl e \<Rightarrow> Inl e | Inr ca \<Rightarrow>
        if ca_state ca \<noteq> StateOpen then Inl ErrClosed
        else if \<not> Withdrawal_Verify c w (ca_complainant ca) then Inl ErrUnauthorized
        else Inr \<lparr>ad_dispute = wd_Dispute w, ad_id = Withdrawal_leafID c w, ad_opening = None,
                  ad_ruling = None, ad_withdrawal = Some (Withdrawal_clone w)\<rparr>)"

definition Registry_Withdraw ::
  "crypto \<Rightarrow> registry \<Rightarrow> dispute_store \<Rightarrow> withdrawal \<Rightarrow> dispute_error + dispute_store" where
  "Registry_Withdraw c r s w =
     (case Withdraw_checks c r s w of Inl e \<Rightarrow> Inl e | Inr a \<Rightarrow> DisputeStore_Append s a)"

section \<open>Calls in sequence\<close>

datatype dispute_call = CallOpen dispute_opening | CallRule ruling | CallWithdraw withdrawal

definition dispute_do :: "crypto \<Rightarrow> registry \<Rightarrow> dispute_store \<Rightarrow> dispute_call \<Rightarrow> dispute_error + dispute_store" where
  "dispute_do c r s call =
     (case call of
        CallOpen o' \<Rightarrow> (case Registry_Open c r s o' of Inl e \<Rightarrow> Inl e | Inr (d, s') \<Rightarrow> Inr s')
      | CallRule ru \<Rightarrow> Registry_Rule c r s ru
      | CallWithdraw w \<Rightarrow> Registry_Withdraw c r s w)"

text \<open>The abstract state of a case, read off its artifacts. \<open>Broken\<close> is any other list of artifacts.\<close>

datatype case_status =
    Unknown | Live dispute_opening | Ruled dispute_opening ruling | Gone dispute_opening withdrawal | Broken

fun status_of :: "admitted list \<Rightarrow> case_status" where
  "status_of [] = Unknown"
| "status_of [a] = (case ad_opening a of Some o' \<Rightarrow> Live o' | None \<Rightarrow> Broken)"
| "status_of [a, b] =
     (case ad_opening a of None \<Rightarrow> Broken | Some o' \<Rightarrow>
      if ad_opening b \<noteq> None then Broken
      else case ad_ruling b of Some ru \<Rightarrow> Ruled o' ru | None \<Rightarrow>
        (case ad_withdrawal b of Some w \<Rightarrow> Gone o' w | None \<Rightarrow> Broken))"
| "status_of (a # b # d # ads) = Broken"

abbreviation status :: "dispute_store \<Rightarrow> dispute_id \<Rightarrow> case_status" where
  "status s d \<equiv> status_of (ByDispute s d)"

fun status_opening :: "case_status \<Rightarrow> dispute_opening option" where
  "status_opening (Live o') = Some o'"
| "status_opening (Ruled o' ru) = Some o'"
| "status_opening (Gone o' w) = Some o'"
| "status_opening _ = None"

definition key_of :: "dispute_opening \<Rightarrow> string" where
  "key_of o' = tuple_key (op_Exchange o') (op_Complainant o') (op_Respondent o')"

lemma clone_id [simp]:
  "Opening_clone o' = o'" "Remedy_clone r = r" "Ruling_clone ru = ru" "Withdrawal_clone w = w"
proof -
  have "map (map id) xs = xs" for xs :: "bytes list" by (simp add: map_idI)
  then show "Opening_clone o' = o'" "Remedy_clone r = r" "Ruling_clone ru = ru" "Withdrawal_clone w = w"
    by (simp_all add: Opening_clone_def Remedy_clone_def Ruling_clone_def Withdrawal_clone_def option.map_ident)
qed

lemma status_Live_snoc:
  assumes "status_of ads = Live o'" "ad_opening b = None"
  shows "status_of (ads @ [b]) = (case ad_ruling b of Some ru \<Rightarrow> Ruled o' ru | None \<Rightarrow>
    (case ad_withdrawal b of Some w \<Rightarrow> Gone o' w | None \<Rightarrow> Broken))"
  using assms by (cases ads rule: status_of.cases) (auto split: option.splits if_splits)

lemma status_Unknown: "status_of ads = Unknown \<longleftrightarrow> ads = []"
  by (cases ads rule: status_of.cases) (auto split: option.splits)

text \<open>The read model of a case follows its status.\<close>

fun case_of :: "dispute_id \<Rightarrow> case_status \<Rightarrow> dispute_error + dispute_case" where
  "case_of d (Live o') = Inr (zeroCase d\<lparr>ca_exchange := op_Exchange o', ca_complainant := op_Complainant o',
     ca_respondent := op_Respondent o', ca_state := StateOpen\<rparr>)"
| "case_of d (Ruled o' ru) = Inr (zeroCase d\<lparr>ca_exchange := op_Exchange o', ca_complainant := op_Complainant o',
     ca_respondent := op_Respondent o', ca_state := StateResolved, ca_finding := ru_Finding ru, ca_remedy := ru_Remedy ru\<rparr>)"
| "case_of d (Gone o' w) = Inr (zeroCase d\<lparr>ca_exchange := op_Exchange o', ca_complainant := op_Complainant o',
     ca_respondent := op_Respondent o', ca_state := StateWithdrawn\<rparr>)"
| "case_of d _ = Inl ErrInvalid"

lemma Registry_Case_status: "status s d \<noteq> Broken \<Longrightarrow> Registry_Case s d = case_of d (status s d)"
  by (cases "ByDispute s d" rule: status_of.cases)
     (auto simp: Registry_Case_def Let_def split: option.splits if_splits)

lemma case_of_open: "case_of d st = Inr ca \<Longrightarrow> ca_state ca = StateOpen \<longleftrightarrow> (\<exists>o'. st = Live o')"
  by (cases st) (auto simp: state_defs)

section \<open>The store's indexes agree with the cases\<close>

definition dispute_inv :: "dispute_store \<Rightarrow> bool" where
  "dispute_inv s \<longleftrightarrow>
     (\<forall>d. status s d \<noteq> Broken) \<and>
     (\<forall>d. ds_disputeTuple s d = map_option key_of (status_opening (status s d))) \<and>
     (\<forall>key d. ds_openTuple s key = Some d \<longleftrightarrow> (\<exists>o'. status s d = Live o' \<and> key_of o' = key)) \<and>
     (\<forall>key. key \<in> ds_adjudicated s \<longleftrightarrow> (\<exists>d o' ru. status s d = Ruled o' ru \<and> key_of o' = key)) \<and>
     (\<forall>d. status s d \<noteq> Unknown \<longrightarrow> d \<in> ds_ids s) \<and>
     (\<forall>d d' o' ru o2. status s d = Ruled o' ru \<longrightarrow> status s d' = Live o2 \<longrightarrow> key_of o' \<noteq> key_of o2) \<and>
     (\<forall>d d' o' ru o2 ru2. status s d = Ruled o' ru \<longrightarrow> status s d' = Ruled o2 ru2 \<longrightarrow> key_of o' = key_of o2 \<longrightarrow> d = d')"

lemma dispute_invD:
  assumes "dispute_inv s"
  shows "status s d \<noteq> Broken"
    and "ds_disputeTuple s d = map_option key_of (status_opening (status s d))"
    and "ds_openTuple s key = Some d \<longleftrightarrow> (\<exists>o'. status s d = Live o' \<and> key_of o' = key)"
    and "key \<in> ds_adjudicated s \<longleftrightarrow> (\<exists>d o' ru. status s d = Ruled o' ru \<and> key_of o' = key)"
    and "status s d \<noteq> Unknown \<Longrightarrow> d \<in> ds_ids s"
    and "status s d = Ruled o' ru \<Longrightarrow> status s d' = Live o2 \<Longrightarrow> key_of o' \<noteq> key_of o2"
    and "status s d = Ruled o' ru \<Longrightarrow> status s d' = Ruled o2 ru2 \<Longrightarrow> key_of o' = key_of o2 \<Longrightarrow> d = d'"
proof -
  note I = assms [unfolded dispute_inv_def]
  show "status s d \<noteq> Broken" "ds_disputeTuple s d = map_option key_of (status_opening (status s d))"
    "ds_openTuple s key = Some d \<longleftrightarrow> (\<exists>o'. status s d = Live o' \<and> key_of o' = key)"
    "key \<in> ds_adjudicated s \<longleftrightarrow> (\<exists>d o' ru. status s d = Ruled o' ru \<and> key_of o' = key)"
    using I by simp_all
  show "status s d \<noteq> Unknown \<Longrightarrow> d \<in> ds_ids s"
    "status s d = Ruled o' ru \<Longrightarrow> status s d' = Live o2 \<Longrightarrow> key_of o' \<noteq> key_of o2"
    "status s d = Ruled o' ru \<Longrightarrow> status s d' = Ruled o2 ru2 \<Longrightarrow> key_of o' = key_of o2 \<Longrightarrow> d = d'"
    using I by meson+
qed

lemma dispute_inv_New: "dispute_inv DisputeStore_New"
  by (simp add: dispute_inv_def DisputeStore_New_def ByDispute_def)

lemma inv_live_unique:
  assumes "dispute_inv s" "status s d = Live o'" "status s d' = Live o2" "key_of o' = key_of o2"
  shows "d = d'"
proof -
  have "ds_openTuple s (key_of o') = Some d" "ds_openTuple s (key_of o') = Some d'"
    using dispute_invD(3) [OF assms(1)] assms(2-4) by auto
  then show ?thesis by simp
qed

text \<open>What the three kinds of append do to the statuses.\<close>

lemma append_opening:
  assumes "dispute_inv s" and "DisputeStore_Append s \<lparr>ad_dispute = d, ad_id = d, ad_opening = Some o',
      ad_ruling = None, ad_withdrawal = None\<rparr> = Inr s'"
  shows "d \<notin> ds_ids s" "d \<noteq> 0" "key_of o' \<notin> ds_adjudicated s" "ds_openTuple s (key_of o') = None"
    and "status s' = (status s)(d := Live o')" "ds_ids s' = insert d (ds_ids s)"
    and "ds_disputeTuple s' = (ds_disputeTuple s)(d \<mapsto> key_of o')"
    and "ds_openTuple s' = (ds_openTuple s)(key_of o' \<mapsto> d)" "ds_adjudicated s' = ds_adjudicated s"
proof -
  show c: "d \<notin> ds_ids s" "d \<noteq> 0" "key_of o' \<notin> ds_adjudicated s" "ds_openTuple s (key_of o') = None"
    using assms(2) by (auto simp: DisputeStore_Append_def opensCase_def key_of_def Let_def split: if_splits)
  have "ByDispute s d = []" using dispute_invD(5) [OF assms(1), of d] c(1) status_Unknown by blast
  then show "status s' = (status s)(d := Live o')"
    using assms(2) c by (auto simp: DisputeStore_Append_def opensCase_def ByDispute_def Let_def key_of_def fun_eq_iff)
  show "ds_ids s' = insert d (ds_ids s)" "ds_disputeTuple s' = (ds_disputeTuple s)(d \<mapsto> key_of o')"
    "ds_openTuple s' = (ds_openTuple s)(key_of o' \<mapsto> d)" "ds_adjudicated s' = ds_adjudicated s"
    using assms(2) c by (auto simp: DisputeStore_Append_def opensCase_def Let_def key_of_def)
qed

lemma append_terminal:
  assumes "dispute_inv s" and "status s d = Live o'" and "ad_dispute a = d" "ad_opening a = None"
    and "DisputeStore_Append s a = Inr s'"
  shows "status s' = (status s)(d := (case ad_ruling a of Some ru \<Rightarrow> Ruled o' ru | None \<Rightarrow>
      (case ad_withdrawal a of Some w \<Rightarrow> Gone o' w | None \<Rightarrow> Broken)))"
    and "ad_ruling a \<noteq> None \<or> ad_withdrawal a \<noteq> None"
    and "ds_ids s' = insert (ad_id a) (ds_ids s)" "ds_disputeTuple s' = ds_disputeTuple s"
    and "ds_openTuple s' = (ds_openTuple s)(key_of o' := None)"
    and "ds_adjudicated s' = (if ad_ruling a \<noteq> None then insert (key_of o') (ds_adjudicated s) else ds_adjudicated s)"
proof -
  have t: "ds_disputeTuple s d = Some (key_of o')" using dispute_invD(2) [OF assms(1), of d] assms(2) by simp
  have by': "ByDispute s' = (ByDispute s)(d := ByDispute s d @ [a])"
    using assms(3-5) t by (auto simp: DisputeStore_Append_def opensCase_def ByDispute_def Let_def fun_eq_iff split: if_splits)
  show "status s' = (status s)(d := (case ad_ruling a of Some ru \<Rightarrow> Ruled o' ru | None \<Rightarrow>
      (case ad_withdrawal a of Some w \<Rightarrow> Gone o' w | None \<Rightarrow> Broken)))"
    using status_Live_snoc [OF assms(2,4)] by (simp add: by' fun_eq_iff)
  show "ad_ruling a \<noteq> None \<or> ad_withdrawal a \<noteq> None"
    using assms(4,5) by (auto simp: DisputeStore_Append_def split: if_splits)
  show "ds_ids s' = insert (ad_id a) (ds_ids s)" "ds_disputeTuple s' = ds_disputeTuple s"
    "ds_openTuple s' = (ds_openTuple s)(key_of o' := None)"
    "ds_adjudicated s' = (if ad_ruling a \<noteq> None then insert (key_of o') (ds_adjudicated s) else ds_adjudicated s)"
    using assms(3-5) t by (auto simp: DisputeStore_Append_def opensCase_def Let_def split: if_splits)
qed

lemma dispute_inv_opening:
  assumes inv: "dispute_inv s" and app: "DisputeStore_Append s \<lparr>ad_dispute = d, ad_id = d, ad_opening = Some o',
      ad_ruling = None, ad_withdrawal = None\<rparr> = Inr s'"
  shows "dispute_inv s'"
proof -
  note a = append_opening [OF inv app] and I = dispute_invD [OF inv]
  have S: "status s' e = (if e = d then Live o' else status s e)" for e using fun_cong [OF a(5), of e] by simp
  have U: "status s d = Unknown" using I(5) [of d] a(1) by blast
  have nolive: "status s e = Live o2 \<Longrightarrow> key_of o2 \<noteq> key_of o'" for e o2 using I(3) [of "key_of o'" e] a(4) by auto
  have noruled: "status s e = Ruled o2 ru \<Longrightarrow> key_of o2 \<noteq> key_of o'" for e o2 ru using I(4) [of "key_of o'"] a(3) by auto
  show ?thesis
    unfolding dispute_inv_def
  proof (intro conjI allI impI)
    fix e e' key o1 o2 ru ru2
    show "status s' e \<noteq> Broken" using I(1) S by simp
    show "ds_disputeTuple s' e = map_option key_of (status_opening (status s' e))" using I(2) [of e] S a(7) by simp
    show "ds_openTuple s' key = Some e \<longleftrightarrow> (\<exists>o1. status s' e = Live o1 \<and> key_of o1 = key)"
      using I(3) [of key e] S a(8) U nolive [of e] by auto
    show "key \<in> ds_adjudicated s' \<longleftrightarrow> (\<exists>e o1 ru. status s' e = Ruled o1 ru \<and> key_of o1 = key)"
      using I(4) [of key] S a(9) U by (metis case_status.distinct(1) case_status.distinct(3) case_status.distinct(9))
    show "status s' e \<noteq> Unknown \<Longrightarrow> e \<in> ds_ids s'" using I(5) [of e] S a(6) by auto
    show "status s' e = Ruled o1 ru \<Longrightarrow> status s' e' = Live o2 \<Longrightarrow> key_of o1 \<noteq> key_of o2"
      using I(6) [of e o1 ru e' o2] S noruled [of e o1 ru] by (auto split: if_splits)
    show "status s' e = Ruled o1 ru \<Longrightarrow> status s' e' = Ruled o2 ru2 \<Longrightarrow> key_of o1 = key_of o2 \<Longrightarrow> e = e'"
      using I(7) [of e o1 ru e' o2 ru2] S by (auto split: if_splits)
  qed
qed

lemma dispute_inv_terminal:
  assumes inv: "dispute_inv s" and live: "status s d = Live o'" and ad: "ad_dispute a = d" "ad_opening a = None"
    and app: "DisputeStore_Append s a = Inr s'"
  shows "dispute_inv s'"
proof -
  note a = append_terminal [OF inv live ad app] and I = dispute_invD [OF inv]
  define new where "new = (case ad_ruling a of Some ru \<Rightarrow> Ruled o' ru | None \<Rightarrow>
      (case ad_withdrawal a of Some w \<Rightarrow> Gone o' w | None \<Rightarrow> Broken))"
  have S: "status s' e = (if e = d then new else status s e)" for e
    using fun_cong [OF a(1), of e] by (simp add: new_def)
  have N: "(\<exists>ru. new = Ruled o' ru \<and> ad_ruling a = Some ru) \<or> (\<exists>w. new = Gone o' w \<and> ad_ruling a = None)"
    using a(2) by (cases "ad_ruling a"; cases "ad_withdrawal a") (simp_all add: new_def)
  have only: "status s e = Live o2 \<Longrightarrow> key_of o2 = key_of o' \<Longrightarrow> e = d" for e o2
    using inv_live_unique [OF inv _ live] by blast
  have noruled: "status s e = Ruled o2 ru \<Longrightarrow> key_of o2 \<noteq> key_of o'" for e o2 ru using I(6) [of e o2 ru d o'] live by blast
  show ?thesis
    unfolding dispute_inv_def
  proof (intro conjI allI impI)
    fix e e' key o1 o2 ru ru2
    show "status s' e \<noteq> Broken" using I(1) [of e] S N by auto
    show "ds_disputeTuple s' e = map_option key_of (status_opening (status s' e))"
      using I(2) [of e] S a(4) N live by auto
    show "ds_openTuple s' key = Some e \<longleftrightarrow> (\<exists>o1. status s' e = Live o1 \<and> key_of o1 = key)"
    proof (cases "e = d")
      case True
      have "new \<noteq> Live o1" for o1 using N by auto
      moreover have "ds_openTuple s key = Some d \<Longrightarrow> key = key_of o'" using I(3) [of key d] live by auto
      ultimately show ?thesis using True S [of d] a(5) by auto
    next
      case False
      then have "ds_openTuple s (key_of o') \<noteq> Some e" using I(3) [of "key_of o'" e] only [of e] by blast
      then have "ds_openTuple s' key = Some e \<longleftrightarrow> ds_openTuple s key = Some e" using a(5) by auto
      then show ?thesis using I(3) [of key e] S [of e] False by simp
    qed
    show "key \<in> ds_adjudicated s' \<longleftrightarrow> (\<exists>e o1 ru. status s' e = Ruled o1 ru \<and> key_of o1 = key)"
    proof -
      have "(\<exists>e o1 ru. status s' e = Ruled o1 ru \<and> key_of o1 = key) \<longleftrightarrow>
          (\<exists>ru. new = Ruled o' ru) \<and> key = key_of o' \<or> (\<exists>e o1 ru. status s e = Ruled o1 ru \<and> key_of o1 = key)"
        (is "?l \<longleftrightarrow> ?r1 \<or> ?r2")
      proof
        assume ?l
        then obtain e o1 ru where e: "status s' e = Ruled o1 ru" "key_of o1 = key" by blast
        show "?r1 \<or> ?r2"
        proof (cases "e = d")
          case True then show ?thesis using e S [of e] N by auto
        next
          case False then have "status s e = Ruled o1 ru" using e(1) S [of e] by simp
          with e(2) show ?thesis by blast
        qed
      next
        assume "?r1 \<or> ?r2"
        then show ?l
        proof
          assume ?r1 then show ?l using S [of d] by auto
        next
          assume ?r2
          then obtain e o1 ru where "status s e = Ruled o1 ru" "key_of o1 = key" by blast
          then show ?l using S [of e] live by (cases "e = d") auto
        qed
      qed
      moreover have "key \<in> ds_adjudicated s' \<longleftrightarrow> (\<exists>ru. new = Ruled o' ru) \<and> key = key_of o' \<or> key \<in> ds_adjudicated s"
        using a(6) N by auto
      ultimately show ?thesis using I(4) [of key] by blast
    qed
    show "status s' e \<noteq> Unknown \<Longrightarrow> e \<in> ds_ids s'" using I(5) [of e] S a(3) live by (auto split: if_splits)
    show "status s' e = Ruled o1 ru \<Longrightarrow> status s' e' = Live o2 \<Longrightarrow> key_of o1 \<noteq> key_of o2"
      using I(6) [of e o1 ru e' o2] S N only [of e' o2] by (auto split: if_splits)
    show "status s' e = Ruled o1 ru \<Longrightarrow> status s' e' = Ruled o2 ru2 \<Longrightarrow> key_of o1 = key_of o2 \<Longrightarrow> e = e'"
      using I(7) [of e o1 ru e' o2 ru2] S N noruled [of e o1 ru] noruled [of e' o2 ru2] by (auto split: if_splits)
  qed
qed

lemma Rule_checks_Inr:
  assumes "dispute_inv s" and "Rule_checks c r s ru = Inr a"
  obtains o' where "status s (ru_Dispute ru) = Live o'" "op_Exchange o' = ru_Exchange ru"
    "a = \<lparr>ad_dispute = ru_Dispute ru, ad_id = Ruling_ID c ru, ad_opening = None, ad_ruling = Some ru, ad_withdrawal = None\<rparr>"
    "ru_Platform ru = ch_Platform (rg_charter r)" "validFinding (ru_Finding ru)"
    "Remedy_validate (ru_Remedy ru) (ru_Mode ru) = None" "Ruling_Verify c ru (rg_charter r)"
proof -
  note cs = Registry_Case_status [OF dispute_invD(1) [OF assms(1), of "ru_Dispute ru"]]
  from assms(2) obtain ca where ca: "Registry_Case s (ru_Dispute ru) = Inr ca" "ca_state ca = StateOpen"
    "ru_Exchange ru = ca_exchange ca"
    by (auto simp: Rule_checks_def split: if_splits option.splits sum.splits)
  then obtain o' where o': "status s (ru_Dispute ru) = Live o'" using case_of_open [of "ru_Dispute ru"] cs by auto
  with ca cs have "op_Exchange o' = ru_Exchange ru" by auto
  with o' assms(2) show ?thesis
    by (intro that [OF o']) (auto simp: Rule_checks_def split: if_splits option.splits sum.splits)
qed

lemma Withdraw_checks_Inr:
  assumes "dispute_inv s" and "Withdraw_checks c r s w = Inr a"
  obtains o' where "status s (wd_Dispute w) = Live o'" "Withdrawal_Verify c w (op_Complainant o')"
    "a = \<lparr>ad_dispute = wd_Dispute w, ad_id = Withdrawal_leafID c w, ad_opening = None, ad_ruling = None, ad_withdrawal = Some w\<rparr>"
proof -
  note cs = Registry_Case_status [OF dispute_invD(1) [OF assms(1), of "wd_Dispute w"]]
  from assms(2) obtain ca where ca: "Registry_Case s (wd_Dispute w) = Inr ca" "ca_state ca = StateOpen"
    "Withdrawal_Verify c w (ca_complainant ca)"
    by (auto simp: Withdraw_checks_def split: if_splits sum.splits)
  then obtain o' where o': "status s (wd_Dispute w) = Live o'" using case_of_open [of "wd_Dispute w"] cs by auto
  with ca cs have "Withdrawal_Verify c w (op_Complainant o')" by auto
  with o' assms(2) show ?thesis
    by (intro that [OF o']) (auto simp: Withdraw_checks_def split: if_splits sum.splits)
qed

lemma Open_checks_Inr:
  "Open_checks c r o' = Inr a \<longleftrightarrow> Opening_Verify c o' \<and> op_Platform o' = ch_Platform (rg_charter r) \<and>
     rg_anchors r (op_Exchange o') (op_Complainant o') (op_Respondent o') \<and>
     a = \<lparr>ad_dispute = Opening_ID c o', ad_id = Opening_ID c o', ad_opening = Some o', ad_ruling = None, ad_withdrawal = None\<rparr>"
  by (auto simp: Open_checks_def Let_def)

text \<open>Each accepted call changes the status of exactly one case.\<close>

lemma dispute_do_status:
  assumes inv: "dispute_inv s" and "dispute_do c r s call = Inr s'"
  shows "dispute_inv s' \<and>
    (\<exists>d. (\<forall>e. e \<noteq> d \<longrightarrow> status s' e = status s e) \<and>
      ((\<exists>o'. call = CallOpen o' \<and> d = Opening_ID c o' \<and> status s d = Unknown \<and> status s' d = Live o') \<or>
       (\<exists>o' ru. call = CallRule ru \<and> d = ru_Dispute ru \<and> status s d = Live o' \<and> status s' d = Ruled o' ru) \<or>
       (\<exists>o' w. call = CallWithdraw w \<and> d = wd_Dispute w \<and> status s d = Live o' \<and> status s' d = Gone o' w)))"
proof (cases call)
  case (CallOpen o')
  let ?d = "Opening_ID c o'"
  have app: "DisputeStore_Append s \<lparr>ad_dispute = ?d, ad_id = ?d, ad_opening = Some o', ad_ruling = None, ad_withdrawal = None\<rparr> = Inr s'"
    using assms(2) CallOpen by (auto simp: dispute_do_def Registry_Open_def Open_checks_Inr split: sum.splits)
  note a = append_opening [OF inv app]
  have "status s ?d = Unknown" using dispute_invD(5) [OF inv, of ?d] a(1) by blast
  then show ?thesis
    using dispute_inv_opening [OF inv app] fun_cong [OF a(5)] CallOpen by (intro conjI exI [of _ ?d]) auto
next
  case (CallRule ru)
  with assms(2) obtain a where a: "Rule_checks c r s ru = Inr a" "DisputeStore_Append s a = Inr s'"
    by (auto simp: dispute_do_def Registry_Rule_def split: sum.splits)
  from Rule_checks_Inr [OF inv a(1)] obtain o' where o': "status s (ru_Dispute ru) = Live o'"
    "a = \<lparr>ad_dispute = ru_Dispute ru, ad_id = Ruling_ID c ru, ad_opening = None, ad_ruling = Some ru, ad_withdrawal = None\<rparr>"
    by blast
  have ad: "ad_dispute a = ru_Dispute ru" "ad_opening a = None" using o'(2) by simp_all
  note t = append_terminal(1) [OF inv o'(1) ad a(2)]
  show ?thesis
    using dispute_inv_terminal [OF inv o'(1) ad a(2)] fun_cong [OF t] CallRule o'
    by (intro conjI exI [of _ "ru_Dispute ru"]) auto
next
  case (CallWithdraw w)
  with assms(2) obtain a where a: "Withdraw_checks c r s w = Inr a" "DisputeStore_Append s a = Inr s'"
    by (auto simp: dispute_do_def Registry_Withdraw_def split: sum.splits)
  from Withdraw_checks_Inr [OF inv a(1)] obtain o' where o': "status s (wd_Dispute w) = Live o'"
    "a = \<lparr>ad_dispute = wd_Dispute w, ad_id = Withdrawal_leafID c w, ad_opening = None, ad_ruling = None, ad_withdrawal = Some w\<rparr>"
    by blast
  have ad: "ad_dispute a = wd_Dispute w" "ad_opening a = None" using o'(2) by simp_all
  note t = append_terminal(1) [OF inv o'(1) ad a(2)]
  show ?thesis
    using dispute_inv_terminal [OF inv o'(1) ad a(2)] fun_cong [OF t] CallWithdraw o'
    by (intro conjI exI [of _ "wd_Dispute w"]) auto
qed

lemma dispute_reach_inv: "admits (dispute_do c r) s t \<Longrightarrow> dispute_inv s \<Longrightarrow> dispute_inv t"
proof (induction rule: admits.induct)
  case (admits_step s t call u)
  then show ?case using dispute_do_status [of t c r call u] by blast
qed

lemma status_terminal_stays:
  assumes "dispute_inv s" and "dispute_do c r s call = Inr s'" and "status s d = Ruled o' ru \<or> status s d = Gone o' w"
  shows "status s' d = status s d"
proof -
  obtain e where e: "\<forall>e'. e' \<noteq> e \<longrightarrow> status s' e' = status s e'"
    "status s e = Unknown \<or> (\<exists>o'. status s e = Live o')"
    using dispute_do_status [OF assms(1,2)] by blast
  then have "e \<noteq> d" using assms(3) by auto
  with e(1) show ?thesis by simp
qed

lemma status_of_case:
  assumes "dispute_inv s" and "Registry_Case s d = Inr ca"
  obtains (live) o' where "status s d = Live o'" "ca_state ca = StateOpen"
    "ca_exchange ca = op_Exchange o'" "ca_complainant ca = op_Complainant o'" "ca_respondent ca = op_Respondent o'"
  | (ruled) o' ru where "status s d = Ruled o' ru" "ca_state ca = StateResolved"
    "ca_exchange ca = op_Exchange o'" "ca_complainant ca = op_Complainant o'" "ca_respondent ca = op_Respondent o'"
  | (gone) o' w where "status s d = Gone o' w" "ca_state ca = StateWithdrawn"
    "ca_exchange ca = op_Exchange o'" "ca_complainant ca = op_Complainant o'" "ca_respondent ca = op_Respondent o'"
proof -
  have eq: "case_of d (status s d) = Inr ca"
    using assms(2) Registry_Case_status [OF dispute_invD(1) [OF assms(1), of d]] by simp
  show ?thesis
  proof (cases "status s d")
    case (Live o') then show ?thesis using eq by (intro live [OF Live]) auto
  next
    case (Ruled o' ru) then show ?thesis using eq by (intro ruled [OF Ruled]) auto
  next
    case (Gone o' w) then show ?thesis using eq by (intro gone [OF Gone]) auto
  qed (use eq in simp_all)
qed

section \<open>A concrete registry\<close>

definition sample_charter :: charter where
  "sample_charter = \<lparr>ch_Platform = ''p'', ch_Adjudicators = [replicate 32 7], ch_Threshold = 1\<rparr>"

definition sample_registry :: registry where
  "sample_registry = \<lparr>rg_charter = sample_charter, rg_anchors = (\<lambda>x a b. True)\<rparr>"

definition sample_opening_draft :: "byte \<Rightarrow> byte \<Rightarrow> b32 \<Rightarrow> dispute_opening" where
  "sample_opening_draft a b n =
     \<lparr>op_Platform = ''p'', op_Complainant = replicate 32 a, op_Respondent = replicate 32 b, op_Exchange = 1,
      op_ReasonHash = 0, op_Nonce = n, op_OpenedAt = 0, op_Signature = []\<rparr>"

definition sample_opening :: "byte \<Rightarrow> byte \<Rightarrow> b32 \<Rightarrow> dispute_opening" where
  "sample_opening a b n = sample_opening_draft a b n\<lparr>op_Signature :=
     ed_sign sample_crypto (sample_priv a) (Opening_CanonicalBytes sample_crypto (sample_opening_draft a b n))\<rparr>"

lemma sample_opening_sel [simp]:
  "op_Platform (sample_opening a b n) = ''p''" "op_Complainant (sample_opening a b n) = replicate 32 a"
  "op_Respondent (sample_opening a b n) = replicate 32 b" "op_Exchange (sample_opening a b n) = 1"
  by (simp_all add: sample_opening_def sample_opening_draft_def)

lemma sample_opening_verifies: "a \<noteq> b \<Longrightarrow> Opening_Verify sample_crypto (sample_opening a b n)"
proof -
  assume "a \<noteq> b"
  have "Opening_CanonicalBytes sample_crypto (sample_opening a b n) = Opening_CanonicalBytes sample_crypto (sample_opening_draft a b n)"
    by (simp add: Opening_CanonicalBytes_def sample_opening_def)
  moreover have "(replicate 32 a :: bytes) \<noteq> replicate 32 b" using \<open>a \<noteq> b\<close> by simp
  ultimately show ?thesis
    using sig_ok_keypair [OF sample_keypair, of a] keypair_verify(2) [OF sample_keypair, of a]
    by (simp add: Opening_Verify_def PublicKeySize_def sample_opening_def [of a b n] sample_opening_draft_def)
qed

definition sample_ruling_draft :: "dispute_id \<Rightarrow> u64 \<Rightarrow> ruling" where
  "sample_ruling_draft d units = NewCreditRuling ''p'' d 1 FindingForComplainant HarmUpheld (Some \<lparr>rd_Units = units\<rparr>) 0 0"

definition sample_ruling :: "dispute_id \<Rightarrow> u64 \<Rightarrow> ruling" where
  "sample_ruling d units = sample_ruling_draft d units\<lparr>ru_Sigs :=
     [ed_sign sample_crypto (sample_priv 7) (Ruling_CanonicalBytes sample_crypto (sample_ruling_draft d units))]\<rparr>"

lemma sample_ruling_sel [simp]:
  "ru_Dispute (sample_ruling d n) = d" "ru_Exchange (sample_ruling d n) = 1" "ru_Platform (sample_ruling d n) = ''p''"
  "ru_Mode (sample_ruling d n) = DisputeModeCredit" "ru_Finding (sample_ruling d n) = FindingForComplainant"
  "ru_Remedy (sample_ruling d n) = \<lparr>rm_Escalation = None, rm_Harm = HarmUpheld, rm_Refund = Some \<lparr>rd_Units = n\<rparr>\<rparr>"
  by (simp_all add: sample_ruling_def sample_ruling_draft_def NewCreditRuling_def)

lemma sample_ruling_verifies: "Ruling_Verify sample_crypto (sample_ruling d n) sample_charter"
proof -
  have b: "Ruling_CanonicalBytes sample_crypto (sample_ruling d n) = Ruling_CanonicalBytes sample_crypto (sample_ruling_draft d n)"
    by (simp add: Ruling_CanonicalBytes_def sample_ruling_def)
  have v: "ed25519_Verify sample_crypto (replicate 32 7) msg (ed_sign sample_crypto (sample_priv 7) msg) = Some True" for msg
    using keypair_verify(1) [OF sample_keypair, of 7] by simp
  have s: "ru_Sigs (sample_ruling d n) = [ed_sign sample_crypto (sample_priv 7) (Ruling_CanonicalBytes sample_crypto (sample_ruling_draft d n))]"
    by (simp add: sample_ruling_def)
  show ?thesis
    using keypair_verify(2) [OF sample_keypair, of 7]
    by (simp add: Ruling_Verify_def b s quorum_reached_def sample_charter_def v PublicKeySize_def)
qed

lemma sample_rule_checks:
  assumes "status s d = Live o'" "op_Exchange o' = 1"
  shows "Rule_checks sample_crypto sample_registry s (sample_ruling d n) =
    Inr \<lparr>ad_dispute = d, ad_id = Ruling_ID sample_crypto (sample_ruling d n), ad_opening = None,
         ad_ruling = Some (sample_ruling d n), ad_withdrawal = None\<rparr>"
proof -
  have "Registry_Case s d = case_of d (Live o')" using Registry_Case_status [of s d] assms(1) by simp
  then show ?thesis
    using assms(2) sample_ruling_verifies [of d n]
    by (simp add: Rule_checks_def sample_registry_def sample_charter_def [THEN arg_cong, of ch_Platform] dispute_validMode_def
        validFinding_def Remedy_validate_def validHarm_def DisputeModeEscrow_def DisputeModeCredit_def state_defs)
qed

lemma sample_dispute_sums:
  "sample_sha (b32_bytes 0) = 0" "sample_sha (b32_bytes 1) = 1" "sample_sha (b32_bytes 6016) = 151"
  "sample_sha (b32_bytes 6048) = 183"
  by (simp_all add: b32_bytes_def upt_rec)

lemma sample_seal: "ed_sign sample_crypto (sample_priv b) msg = replicate 32 b @ sample_stamp msg"
  by (simp add: sample_crypto_def sample_priv_def)

lemma sample_opening_stamp:
  "sample_stamp (Opening_CanonicalBytes sample_crypto o') =
     replicate 25 1 @ 0 # map (\<lambda>ch. word_of_nat (of_char ch)) ''cloudy''"
  by (simp add: sample_stamp_def Opening_CanonicalBytes_def sample_eval domainOpening_def numeral_eq_Suc)

lemma sample_opening_length: "length (Opening_CanonicalBytes sample_crypto (sample_opening a b n)) = 389"
  by (simp add: Opening_CanonicalBytes_def sample_opening_def sample_opening_draft_def sample_eval domainOpening_def)

lemma sample_opening_ids:
  "Opening_ID sample_crypto (sample_opening 1 2 0) = 6016" "Opening_ID sample_crypto (sample_opening 1 2 1) = 6017"
  "Opening_ID sample_crypto (sample_opening 2 1 0) = 6048"
proof -
  have sum: "sample_sha (Opening_CanonicalBytes sample_crypto (sample_opening 1 2 0)) = 2892"
    "sample_sha (Opening_CanonicalBytes sample_crypto (sample_opening 1 2 1)) = 2893"
    "sample_sha (Opening_CanonicalBytes sample_crypto (sample_opening 2 1 0)) = 2892"
    by (simp_all add: Opening_CanonicalBytes_def sample_opening_def sample_opening_draft_def sample_eval domainOpening_def
        sample_dispute_sums)
  have sig: "op_Signature (sample_opening a b n) = replicate 32 a @ replicate 25 1 @ 0 # map (\<lambda>ch. word_of_nat (of_char ch)) ''cloudy''" for a b n
    by (simp add: sample_opening_def sample_seal sample_opening_stamp)
  show "Opening_ID sample_crypto (sample_opening 1 2 0) = 6016" "Opening_ID sample_crypto (sample_opening 1 2 1) = 6017"
    "Opening_ID sample_crypto (sample_opening 2 1 0) = 6048"
    by (simp_all add: Opening_ID_def sum sig sample_opening_length sample_eval domainID_def sample_dispute_sums)
qed

lemma sample_ruling_ids:
  "Ruling_ID sample_crypto (sample_ruling 6016 5) = 6074" "Ruling_ID sample_crypto (sample_ruling 6016 6) = 6076"
  "Ruling_ID sample_crypto (sample_ruling 6048 5) = 6106"
proof -
  have st: "sample_stamp (Ruling_CanonicalBytes sample_crypto r) =
      replicate 24 1 @ 0 # map (\<lambda>ch. word_of_nat (of_char ch)) ''cloudy/''" for r
    by (simp add: sample_stamp_def Ruling_CanonicalBytes_def sample_eval domainRuling_def numeral_eq_Suc)
  have len: "length (Ruling_CanonicalBytes sample_crypto (sample_ruling d n)) = 271 + unat n" for d n
    by (simp add: Ruling_CanonicalBytes_def sample_eval domainRuling_def sample_ruling_def sample_ruling_draft_def
        NewCreditRuling_def DisputeModeCredit_def FindingForComplainant_def HarmUpheld_def)
  have sum: "sample_sha (Ruling_CanonicalBytes sample_crypto (sample_ruling 6016 5)) = 2817"
    "sample_sha (Ruling_CanonicalBytes sample_crypto (sample_ruling 6016 6)) = 2818"
    "sample_sha (Ruling_CanonicalBytes sample_crypto (sample_ruling 6048 5)) = 2849"
    by (simp_all add: Ruling_CanonicalBytes_def sample_eval domainRuling_def sample_ruling_def sample_ruling_draft_def
        NewCreditRuling_def DisputeModeCredit_def FindingForComplainant_def HarmUpheld_def sample_dispute_sums)
  have sig: "ru_Sigs (sample_ruling d n) = [replicate 32 7 @ replicate 24 1 @ 0 # map (\<lambda>ch. word_of_nat (of_char ch)) ''cloudy/'']" for d n
    by (simp add: sample_ruling_def sample_seal st)
  show "Ruling_ID sample_crypto (sample_ruling 6016 5) = 6074" "Ruling_ID sample_crypto (sample_ruling 6016 6) = 6076"
    "Ruling_ID sample_crypto (sample_ruling 6048 5) = 6106"
    by (simp_all add: Ruling_ID_def sum sig len sample_eval domainID_def sample_dispute_sums)
qed

end
