(* ===== verification/Dispute_Cases.thy ===== *)
theory Dispute_Cases
  imports Dispute
begin

text \<open>
  What the dispute registry guarantees and what it does not. Calls made one after another keep at most one
  unwithdrawn case per exchange, complainant and respondent, and never change a closed case. The same exchange
  can be disputed in both directions, and two calls whose checks both run before either append can both
  settle one case; both behaviours are exhibited on a concrete registry.
\<close>

section \<open>Accepted calls\<close>

lemma tuple_key_inject:
  assumes "length a = PublicKeySize" "length a' = PublicKeySize"
  shows "tuple_key x a b = tuple_key x' a' b' \<longleftrightarrow> x = x' \<and> a = a' \<and> b = b'"
  using assms by (simp add: tuple_key_def append_eq_append_conv)

lemma case_shape:
  assumes "dispute_inv s" and "Registry_Case s d = Inr ca"
  shows "\<exists>o'. (status s d = Live o' \<and> ca_state ca = StateOpen \<or> (\<exists>ru. status s d = Ruled o' ru) \<and> ca_state ca = StateResolved \<or>
      (\<exists>w. status s d = Gone o' w) \<and> ca_state ca = StateWithdrawn) \<and>
    ca_exchange ca = op_Exchange o' \<and> ca_complainant ca = op_Complainant o' \<and> ca_respondent ca = op_Respondent o'"
  by (rule status_of_case [OF assms]; blast)

text \<open>Every stored opening was verified when it was admitted.\<close>

lemma openings_verified:
  "admits (dispute_do c r) s t \<Longrightarrow> dispute_inv s \<Longrightarrow> (\<And>d o'. status_opening (status s d) = Some o' \<Longrightarrow> Opening_Verify c o') \<Longrightarrow>
     status_opening (status t d) = Some o' \<Longrightarrow> Opening_Verify c o'"
proof (induction arbitrary: d o' rule: admits.induct)
  case (admits_refl s)
  then show ?case by blast
next
  case (admits_step s t call u)
  have inv: "dispute_inv t" by (rule dispute_reach_inv [OF admits_step.hyps(1) admits_step.prems(1)])
  have IH: "\<And>d o'. status_opening (status t d) = Some o' \<Longrightarrow> Opening_Verify c o'"
    using admits_step.IH admits_step.prems(1,2) by blast
  obtain e where e: "\<And>e'. e' \<noteq> e \<Longrightarrow> status u e' = status t e'"
    "(\<exists>o2. call = CallOpen o2 \<and> status u e = Live o2) \<or> status_opening (status u e) = status_opening (status t e)"
    using dispute_do_status [OF inv admits_step.hyps(2)] by fastforce
  have new: "call = CallOpen o2 \<Longrightarrow> Opening_Verify c o2" for o2
    using admits_step.hyps(2) by (auto simp: dispute_do_def Registry_Open_def Open_checks_Inr split: sum.splits)
  show ?case
  proof (cases "d = e")
    case True
    then show ?thesis using e(2) new IH [of e o'] admits_step.prems(3) by auto
  next
    case False
    then show ?thesis using e(1) IH [of d o'] admits_step.prems(3) by simp
  qed
qed

lemma append_opening_ok:
  assumes "d \<notin> ds_ids s" "d \<noteq> 0" "key_of o' \<notin> ds_adjudicated s" "ds_openTuple s (key_of o') = None"
  shows "\<exists>s'. DisputeStore_Append s \<lparr>ad_dispute = d, ad_id = d, ad_opening = Some o', ad_ruling = None, ad_withdrawal = None\<rparr> = Inr s'"
  using assms by (simp add: DisputeStore_Append_def opensCase_def key_of_def Let_def)

lemma append_terminal_ok:
  assumes "ad_id a \<notin> ds_ids s" "ad_dispute a \<noteq> 0" "ad_opening a = None" "ad_ruling a \<noteq> None \<or> ad_withdrawal a \<noteq> None"
  shows "\<exists>s'. DisputeStore_Append s a = Inr s'"
  using assms by (auto simp: DisputeStore_Append_def opensCase_def Let_def split: option.splits)

lemma sample_open_step:
  assumes "dispute_inv s" and "a \<noteq> b" and "Opening_ID sample_crypto (sample_opening a b n) = d"
    and "d \<notin> ds_ids s" "d \<noteq> 0" "key_of (sample_opening a b n) \<notin> ds_adjudicated s"
    "ds_openTuple s (key_of (sample_opening a b n)) = None"
  shows "\<exists>s'. dispute_do sample_crypto sample_registry s (CallOpen (sample_opening a b n)) = Inr s' \<and>
    dispute_inv s' \<and> (\<forall>e. status s' e = (if e = d then Live (sample_opening a b n) else status s e)) \<and>
    ds_ids s' = insert d (ds_ids s) \<and> ds_openTuple s' = (ds_openTuple s)(key_of (sample_opening a b n) \<mapsto> d) \<and>
    ds_adjudicated s' = ds_adjudicated s"
proof -
  from append_opening_ok [OF assms(4-7)] obtain s' where app:
    "DisputeStore_Append s \<lparr>ad_dispute = d, ad_id = d, ad_opening = Some (sample_opening a b n), ad_ruling = None,
       ad_withdrawal = None\<rparr> = Inr s'" by blast
  have "Open_checks sample_crypto sample_registry (sample_opening a b n) = Inr \<lparr>ad_dispute = d, ad_id = d,
      ad_opening = Some (sample_opening a b n), ad_ruling = None, ad_withdrawal = None\<rparr>"
    using assms(2,3) by (simp add: Open_checks_Inr sample_opening_verifies sample_registry_def sample_charter_def)
  then have "dispute_do sample_crypto sample_registry s (CallOpen (sample_opening a b n)) = Inr s'"
    using app by (simp add: dispute_do_def Registry_Open_def)
  then show ?thesis
    using dispute_inv_opening [OF assms(1) app] append_opening [OF assms(1) app] fun_cong [OF append_opening(5) [OF assms(1) app]]
    by auto
qed

lemma sample_rule_step:
  assumes "dispute_inv s" and "status s d = Live o'" "op_Exchange o' = 1" "d \<noteq> 0"
    and "Ruling_ID sample_crypto (sample_ruling d n) \<notin> ds_ids s"
  shows "\<exists>s'. dispute_do sample_crypto sample_registry s (CallRule (sample_ruling d n)) = Inr s' \<and>
    dispute_inv s' \<and> (\<forall>e. status s' e = (if e = d then Ruled o' (sample_ruling d n) else status s e)) \<and>
    ds_ids s' = insert (Ruling_ID sample_crypto (sample_ruling d n)) (ds_ids s) \<and>
    ds_openTuple s' = (ds_openTuple s)(key_of o' := None) \<and> ds_adjudicated s' = insert (key_of o') (ds_adjudicated s)"
proof -
  let ?a = "\<lparr>ad_dispute = d, ad_id = Ruling_ID sample_crypto (sample_ruling d n), ad_opening = None,
         ad_ruling = Some (sample_ruling d n), ad_withdrawal = None\<rparr>"
  obtain s' where app: "DisputeStore_Append s ?a = Inr s'"
    using append_terminal_ok [of ?a s] assms(4,5) by auto
  have "dispute_do sample_crypto sample_registry s (CallRule (sample_ruling d n)) = Inr s'"
    using app sample_rule_checks [OF assms(2,3), of n] by (simp add: dispute_do_def Registry_Rule_def)
  moreover have ad: "ad_dispute ?a = d" "ad_opening ?a = None" by simp_all
  ultimately show ?thesis
    using dispute_inv_terminal [OF assms(1,2) ad app] append_terminal [OF assms(1,2) ad app]
      fun_cong [OF append_terminal(1) [OF assms(1,2) ad app]]
    by auto
qed

definition sample_withdrawal_draft :: "dispute_id \<Rightarrow> withdrawal" where
  "sample_withdrawal_draft d = \<lparr>wd_Platform = ''p'', wd_Dispute = d, wd_WithdrawnAt = 0, wd_Signature = []\<rparr>"

definition sample_withdrawal :: "dispute_id \<Rightarrow> withdrawal" where
  "sample_withdrawal d = sample_withdrawal_draft d\<lparr>wd_Signature :=
     ed_sign sample_crypto (sample_priv 1) (Withdrawal_CanonicalBytes sample_crypto (sample_withdrawal_draft d))\<rparr>"

lemma sample_withdrawal_id: "Withdrawal_leafID sample_crypto (sample_withdrawal 6016) = 5671"
proof -
  have st: "sample_stamp (Withdrawal_CanonicalBytes sample_crypto w) =
      replicate 28 1 @ 0 # map (\<lambda>ch. word_of_nat (of_char ch)) ''clo''" for w
    by (simp add: sample_stamp_def Withdrawal_CanonicalBytes_def sample_eval domainWithdrawal_def numeral_eq_Suc)
  have "length (Withdrawal_CanonicalBytes sample_crypto (sample_withdrawal 6016)) = 131"
    "sample_sha (Withdrawal_CanonicalBytes sample_crypto (sample_withdrawal 6016)) = 3140"
    by (simp_all add: Withdrawal_CanonicalBytes_def sample_withdrawal_def sample_withdrawal_draft_def sample_eval
        domainWithdrawal_def sample_dispute_sums)
  moreover have "wd_Signature (sample_withdrawal 6016) = replicate 32 1 @ replicate 28 1 @ 0 # map (\<lambda>ch. word_of_nat (of_char ch)) ''clo''"
    by (simp add: sample_withdrawal_def sample_seal st)
  ultimately show ?thesis by (simp add: Withdrawal_leafID_def sample_eval domainID_def)
qed

lemma sample_withdraw_step:
  assumes "dispute_inv s" and "status s 6016 = Live o'" "op_Complainant o' = replicate 32 1" and "5671 \<notin> ds_ids s"
  shows "\<exists>s'. dispute_do sample_crypto sample_registry s (CallWithdraw (sample_withdrawal 6016)) = Inr s' \<and>
    dispute_inv s' \<and> (\<forall>e. status s' e = (if e = 6016 then Gone o' (sample_withdrawal 6016) else status s e)) \<and>
    ds_ids s' = insert 5671 (ds_ids s) \<and> ds_openTuple s' = (ds_openTuple s)(key_of o' := None) \<and>
    ds_adjudicated s' = ds_adjudicated s"
proof -
  let ?w = "sample_withdrawal 6016"
  let ?a = "\<lparr>ad_dispute = 6016, ad_id = 5671, ad_opening = None, ad_ruling = None, ad_withdrawal = Some ?w\<rparr>"
  obtain s' where app: "DisputeStore_Append s ?a = Inr s'"
    using append_terminal_ok [of ?a s] assms(4) by auto
  have b: "Withdrawal_CanonicalBytes sample_crypto ?w = Withdrawal_CanonicalBytes sample_crypto (sample_withdrawal_draft 6016)"
    by (simp add: Withdrawal_CanonicalBytes_def sample_withdrawal_def)
  have "Withdrawal_Verify sample_crypto ?w (op_Complainant o')"
    using sig_ok_keypair [OF sample_keypair, of 1] keypair_verify(2) [OF sample_keypair, of 1]
    by (simp add: Withdrawal_Verify_def assms(3) b PublicKeySize_def) (simp add: sample_withdrawal_def)
  moreover have "Registry_Case s 6016 = case_of 6016 (Live o')" using Registry_Case_status [of s 6016] assms(2) by simp
  moreover have "wd_Platform ?w = ''p''" "wd_Dispute ?w = 6016" by (simp_all add: sample_withdrawal_def sample_withdrawal_draft_def)
  ultimately have "Withdraw_checks sample_crypto sample_registry s ?w = Inr ?a"
    by (simp add: Withdraw_checks_def sample_registry_def sample_charter_def sample_withdrawal_id state_defs)
  then have "dispute_do sample_crypto sample_registry s (CallWithdraw ?w) = Inr s'"
    using app by (simp add: dispute_do_def Registry_Withdraw_def)
  moreover have ad: "ad_dispute ?a = 6016" "ad_opening ?a = None" by simp_all
  ultimately show ?thesis
    using dispute_inv_terminal [OF assms(1,2) ad app] append_terminal [OF assms(1,2) ad app]
      fun_cong [OF append_terminal(1) [OF assms(1,2) ad app]]
    by auto
qed

lemma new_store [simp]:
  "status DisputeStore_New d = Unknown" "ds_ids DisputeStore_New = {}" "ds_openTuple DisputeStore_New = Map.empty"
  "ds_adjudicated DisputeStore_New = {}"
  by (simp_all add: DisputeStore_New_def ByDispute_def)

lemma sample_opened:
  "\<exists>s. dispute_do sample_crypto sample_registry DisputeStore_New (CallOpen (sample_opening 1 2 0)) = Inr s \<and> dispute_inv s \<and>
     (\<forall>e. status s e = (if e = 6016 then Live (sample_opening 1 2 0) else Unknown)) \<and> ds_ids s = {6016} \<and>
     ds_openTuple s = [key_of (sample_opening 1 2 0) \<mapsto> 6016] \<and> ds_adjudicated s = {}"
  using sample_open_step [OF dispute_inv_New, of 1 2 0 6016] sample_opening_ids by (simp cong: if_cong)

lemma sample_keys:
  "key_of (sample_opening 2 1 0) \<noteq> key_of (sample_opening 1 2 0)" "key_of (sample_opening 1 2 1) = key_of (sample_opening 1 2 0)"
  by (simp_all add: key_of_def tuple_key_inject PublicKeySize_def)

lemma sample_ruled:
  "\<exists>s. run_all (dispute_do sample_crypto sample_registry) DisputeStore_New
       [CallOpen (sample_opening 1 2 0), CallRule (sample_ruling 6016 5)] = Inr s \<and> dispute_inv s \<and>
     (\<forall>e. status s e = (if e = 6016 then Ruled (sample_opening 1 2 0) (sample_ruling 6016 5) else Unknown)) \<and>
     ds_ids s = {6074, 6016} \<and> ds_openTuple s = Map.empty \<and> ds_adjudicated s = {key_of (sample_opening 1 2 0)}"
proof -
  obtain s1 where s1: "dispute_do sample_crypto sample_registry DisputeStore_New (CallOpen (sample_opening 1 2 0)) = Inr s1"
    "dispute_inv s1" "\<And>e. status s1 e = (if e = 6016 then Live (sample_opening 1 2 0) else Unknown)" "ds_ids s1 = {6016}"
    "ds_openTuple s1 = [key_of (sample_opening 1 2 0) \<mapsto> 6016]" "ds_adjudicated s1 = {}"
    using sample_opened by blast
  obtain s2 where "dispute_do sample_crypto sample_registry s1 (CallRule (sample_ruling 6016 5)) = Inr s2" "dispute_inv s2"
    "\<And>e. status s2 e = (if e = 6016 then Ruled (sample_opening 1 2 0) (sample_ruling 6016 5) else status s1 e)"
    "ds_ids s2 = insert 6074 (ds_ids s1)" "ds_openTuple s2 = (ds_openTuple s1)(key_of (sample_opening 1 2 0) := None)"
    "ds_adjudicated s2 = insert (key_of (sample_opening 1 2 0)) (ds_adjudicated s1)"
    using sample_rule_step [OF s1(2), of 6016 "sample_opening 1 2 0" 5] s1(3,4) sample_ruling_ids by auto
  then show ?thesis using s1 by (intro exI [of _ s2]) auto
qed

section \<open>Concurrent calls\<close>

text \<open>
  The registry takes no lock: \<open>Rule\<close> and \<open>Withdraw\<close> read the case and then append, and only the append runs
  under the store's mutex. A system is a store and the artifacts whose checks have passed and whose append is
  still to come; each step is one check or one append.
\<close>

inductive dispute_race :: "crypto \<Rightarrow> registry \<Rightarrow> dispute_store \<times> admitted list \<Rightarrow> dispute_store \<times> admitted list \<Rightarrow> bool"
  for c r where
  race_open: "Open_checks c r o' = Inr a \<Longrightarrow> dispute_race c r (s, pend) (s, a # pend)"
| race_rule: "Rule_checks c r s ru = Inr a \<Longrightarrow> dispute_race c r (s, pend) (s, a # pend)"
| race_withdraw: "Withdraw_checks c r s w = Inr a \<Longrightarrow> dispute_race c r (s, pend) (s, a # pend)"
| race_append: "DisputeStore_Append s a = Inr s' \<Longrightarrow> dispute_race c r (s, xs @ a # ys) (s', xs @ ys)"
| race_refused: "DisputeStore_Append s a = Inl e \<Longrightarrow> dispute_race c r (s, xs @ a # ys) (s, xs @ ys)"

inductive race_reach :: "crypto \<Rightarrow> registry \<Rightarrow> dispute_store \<times> admitted list \<Rightarrow> bool" for c r where
  race_init: "race_reach c r (DisputeStore_New, [])"
| race_next: "race_reach c r x \<Longrightarrow> dispute_race c r x y \<Longrightarrow> race_reach c r y"

text \<open>What survives interleaving. A stored case starts with its one opening, verified, anchored and stored under its own identity, and is
  indexed under its tuple; every further artifact is a ruling the charter's adjudicators signed or a withdrawal the complainant signed, made out to that
  case; and a stored ruling has settled the tuple.\<close>

definition opened :: "crypto \<Rightarrow> registry \<Rightarrow> dispute_id \<Rightarrow> dispute_opening \<Rightarrow> admitted \<Rightarrow> bool" where
  "opened c r d o' a \<longleftrightarrow> a = \<lparr>ad_dispute = d, ad_id = d, ad_opening = Some o', ad_ruling = None, ad_withdrawal = None\<rparr> \<and>
     d = Opening_ID c o' \<and> Opening_Verify c o' \<and> op_Platform o' = ch_Platform (rg_charter r) \<and>
     rg_anchors r (op_Exchange o') (op_Complainant o') (op_Respondent o')"

definition ruled_by :: "crypto \<Rightarrow> registry \<Rightarrow> dispute_id \<Rightarrow> dispute_opening \<Rightarrow> admitted \<Rightarrow> bool" where
  "ruled_by c r d o' a \<longleftrightarrow> (\<exists>ru. a = \<lparr>ad_dispute = d, ad_id = Ruling_ID c ru, ad_opening = None, ad_ruling = Some ru, ad_withdrawal = None\<rparr> \<and>
     ru_Dispute ru = d \<and> ru_Exchange ru = op_Exchange o' \<and> ru_Platform ru = ch_Platform (rg_charter r) \<and>
     validFinding (ru_Finding ru) \<and> Remedy_validate (ru_Remedy ru) (ru_Mode ru) = None \<and> Ruling_Verify c ru (rg_charter r))"

definition withdrawn_by :: "crypto \<Rightarrow> registry \<Rightarrow> dispute_id \<Rightarrow> dispute_opening \<Rightarrow> admitted \<Rightarrow> bool" where
  "withdrawn_by c r d o' a \<longleftrightarrow> (\<exists>w. a = \<lparr>ad_dispute = d, ad_id = Withdrawal_leafID c w, ad_opening = None, ad_ruling = None, ad_withdrawal = Some w\<rparr> \<and>
     wd_Dispute w = d \<and> wd_Platform w = ch_Platform (rg_charter r) \<and> Withdrawal_Verify c w (op_Complainant o'))"

abbreviation authorized :: "crypto \<Rightarrow> registry \<Rightarrow> dispute_id \<Rightarrow> dispute_opening \<Rightarrow> admitted \<Rightarrow> bool" where
  "authorized c r d o' a \<equiv> ruled_by c r d o' a \<or> withdrawn_by c r d o' a"

definition case_ok :: "crypto \<Rightarrow> registry \<Rightarrow> dispute_store \<Rightarrow> dispute_id \<Rightarrow> bool" where
  "case_ok c r s d \<longleftrightarrow>
     (case ByDispute s d of
        [] \<Rightarrow> True
      | a # rest \<Rightarrow> d \<in> ds_ids s \<and>
          (\<exists>o'. opened c r d o' a \<and> ds_disputeTuple s d = Some (key_of o') \<and>
             (\<forall>b \<in> set rest. authorized c r d o' b \<and> (ad_ruling b \<noteq> None \<longrightarrow> key_of o' \<in> ds_adjudicated s))))"

definition pending_ok :: "crypto \<Rightarrow> registry \<Rightarrow> dispute_store \<Rightarrow> admitted \<Rightarrow> bool" where
  "pending_ok c r s a \<longleftrightarrow> (\<exists>o'. opened c r (ad_dispute a) o' a) \<or>
     (\<exists>o' x rest. ByDispute s (ad_dispute a) = x # rest \<and> ad_opening x = Some o' \<and> authorized c r (ad_dispute a) o' a)"

definition race_inv :: "crypto \<Rightarrow> registry \<Rightarrow> dispute_store \<times> admitted list \<Rightarrow> bool" where
  "race_inv c r x \<longleftrightarrow> (\<forall>d. case_ok c r (fst x) d) \<and> (\<forall>a \<in> set (snd x). pending_ok c r (fst x) a)"

lemma authorized_opening: "authorized c r d o' a \<Longrightarrow> ad_opening a = None"
  by (auto simp: ruled_by_def withdrawn_by_def)

lemma case_okD:
  assumes "case_ok c r s d" "ByDispute s d = a # rest"
  shows "\<exists>o'. d \<in> ds_ids s \<and> opened c r d o' a \<and> ad_opening a = Some o' \<and> ds_disputeTuple s d = Some (key_of o') \<and>
    (\<forall>b \<in> set rest. authorized c r d o' b) \<and> (\<forall>b \<in> set rest. ad_ruling b \<noteq> None \<longrightarrow> key_of o' \<in> ds_adjudicated s)"
proof -
  from assms obtain o' where o': "d \<in> ds_ids s" "opened c r d o' a" "ds_disputeTuple s d = Some (key_of o')"
    "\<forall>b \<in> set rest. authorized c r d o' b \<and> (ad_ruling b \<noteq> None \<longrightarrow> key_of o' \<in> ds_adjudicated s)"
    unfolding case_ok_def by auto
  then have "ad_opening a = Some o'" by (simp add: opened_def)
  then show ?thesis using o' by (intro exI [of _ o'] conjI) simp_all
qed

lemma case_fold_rest:
  "\<forall>b \<in> set ads. ad_opening b = None \<Longrightarrow> \<exists>ca. case_fold ca0 True i ads = Inr ca \<and> ca_exchange ca = ca_exchange ca0 \<and>
     ca_complainant ca = ca_complainant ca0 \<and> ca_respondent ca = ca_respondent ca0"
proof (induction ads arbitrary: ca0 i)
  case (Cons b ads)
  then show ?case by (cases "ad_ruling b"; cases "ad_withdrawal b") fastforce+
qed simp

text \<open>The read model of a stored case is defined and tells the tuple of its opening.\<close>

lemma case_ok_read:
  assumes "case_ok c r s d" "ByDispute s d = a # rest" "ad_opening a = Some o'"
  shows "\<exists>ca. Registry_Case s d = Inr ca \<and> ca_exchange ca = op_Exchange o' \<and> ca_complainant ca = op_Complainant o' \<and> ca_respondent ca = op_Respondent o'"
proof -
  from case_okD [OF assms(1,2)] obtain o2 where "\<forall>b \<in> set rest. authorized c r d o2 b" by (elim exE conjE)
  then have "\<forall>b \<in> set rest. ad_opening b = None" using authorized_opening by blast
  from case_fold_rest [OF this, of "zeroCase d\<lparr>ca_exchange := op_Exchange o', ca_complainant := op_Complainant o',
      ca_respondent := op_Respondent o', ca_state := StateOpen\<rparr>" 1]
  show ?thesis using assms(2,3) by (simp add: Registry_Case_def)
qed

lemma Append_effect:
  assumes "DisputeStore_Append s a = Inr s'"
  shows "ByDispute s' = (ByDispute s)(ad_dispute a := ByDispute s (ad_dispute a) @ [a])"
    and "ad_id a \<notin> ds_ids s" "ds_ids s' = insert (ad_id a) (ds_ids s)" "ds_adjudicated s \<subseteq> ds_adjudicated s'"
    and "ad_opening a = Some o' \<Longrightarrow> ds_disputeTuple s' = (ds_disputeTuple s)(ad_dispute a \<mapsto> key_of o')"
    and "ad_opening a = None \<Longrightarrow> ds_disputeTuple s' = ds_disputeTuple s"
    and "ad_opening a = None \<Longrightarrow> ds_disputeTuple s (ad_dispute a) = Some key \<Longrightarrow> ad_ruling a \<noteq> None \<Longrightarrow> key \<in> ds_adjudicated s'"
  using assms
  by (auto simp: DisputeStore_Append_def ByDispute_def opensCase_def key_of_def Let_def fun_eq_iff split: if_splits option.splits)

lemma case_ok_append:
  assumes "DisputeStore_Append s a = Inr s'" and ok: "\<And>d. case_ok c r s d" and pend: "pending_ok c r s a"
  shows "case_ok c r s' d"
proof (cases "d = ad_dispute a")
  case False
  note e = Append_effect [OF assms(1)]
  have "ByDispute s' d = ByDispute s d" using e(1) False by simp
  moreover have "ds_disputeTuple s' d = ds_disputeTuple s d"
    using e(5,6) False by (cases "ad_opening a") (simp_all)
  ultimately show ?thesis
    using ok [of d] e(3) subsetD [OF e(4)] unfolding case_ok_def by (cases "ByDispute s d") auto
next
  case True
  note e = Append_effect [OF assms(1)]
  show ?thesis
  proof (cases "ad_opening a")
    case None
    then obtain o' b rest where b: "ByDispute s d = b # rest" "ad_opening b = Some o'" "authorized c r d o' a"
      using pend True by (auto simp: pending_ok_def opened_def)
    from case_okD [OF ok [of d] b(1)] obtain o2 where o2: "d \<in> ds_ids s" "opened c r d o2 b" "ad_opening b = Some o2" "ds_disputeTuple s d = Some (key_of o2)"
      "\<forall>x \<in> set rest. authorized c r d o2 x" "\<forall>x \<in> set rest. ad_ruling x \<noteq> None \<longrightarrow> key_of o2 \<in> ds_adjudicated s" by (elim exE conjE)
    have "o2 = o'" using o2(3) b(2) by simp
    note o' = o2(1,2,4-6) [unfolded this]
    have n: "ByDispute s' d = b # rest @ [a]" "ds_disputeTuple s' d = Some (key_of o')" "d \<in> ds_ids s'" using e(1,3) e(6) [OF None] True b(1) o'(1,3) by simp_all
    have "ad_ruling a \<noteq> None \<Longrightarrow> key_of o' \<in> ds_adjudicated s'" using e(7) [OF None] o'(3) True by blast
    then have "\<forall>x \<in> set (rest @ [a]). authorized c r d o' x \<and> (ad_ruling x \<noteq> None \<longrightarrow> key_of o' \<in> ds_adjudicated s')"
      using b(3) o'(4,5) e(4) by (intro ballI conjI) (auto simp del: not_None_eq)
    then show ?thesis unfolding case_ok_def n(1) using n(2,3) o'(2) by auto
  next
    case (Some o')
    from pend consider (one) o2 where "opened c r (ad_dispute a) o2 a" | (two) o2 where "authorized c r (ad_dispute a) o2 a"
      unfolding pending_ok_def by blast
    then have o: "opened c r d o' a"
    proof cases
      case one
      then have "ad_opening a = Some o2" unfolding opened_def by (metis admitted.select_convs(3))
      then have "o2 = o'" using Some by simp
      then show ?thesis using one True by simp
    next
      case two
      then show ?thesis using authorized_opening [OF two] Some by simp
    qed
    then have "ad_id a = d" by (simp add: opened_def)
    then have "ByDispute s d = []" using e(2) ok [of d] by (auto simp: case_ok_def split: list.splits)
    then show ?thesis using e(1,3) e(5) [OF Some] o True \<open>ad_id a = d\<close> by (auto simp: case_ok_def)
  qed
qed

lemma checked_case:
  assumes "Registry_Case s d = Inr ca" and "\<And>d. case_ok c r s d"
  obtains x rest o' where "ByDispute s d = x # rest" "ad_opening x = Some o'" "ca_exchange ca = op_Exchange o'" "ca_complainant ca = op_Complainant o'"
proof -
  have "ByDispute s d \<noteq> []" using assms(1) by (auto simp: Registry_Case_def Let_def)
  then obtain x rest where x: "ByDispute s d = x # rest" by (cases "ByDispute s d") auto
  from case_okD [OF assms(2) x] obtain o' where o': "ad_opening x = Some o'" by (elim exE conjE)
  obtain ca2 where "Registry_Case s d = Inr ca2" "ca_exchange ca2 = op_Exchange o'" "ca_complainant ca2 = op_Complainant o'"
    using case_ok_read [OF assms(2) x o'] by blast
  then show ?thesis using that [OF x o'] assms(1) by simp
qed

lemma race_step_inv:
  assumes "dispute_race c r x y" and "race_inv c r x"
  shows "race_inv c r y"
  using assms
proof (induction rule: dispute_race.induct)
  case (race_open o' a s pend)
  then show ?case by (auto simp: race_inv_def pending_ok_def Open_checks_Inr opened_def)
next
  case (race_rule s ru a pend)
  then obtain ca where ca: "Registry_Case s (ru_Dispute ru) = Inr ca" "ru_Exchange ru = ca_exchange ca"
    "a = \<lparr>ad_dispute = ru_Dispute ru, ad_id = Ruling_ID c ru, ad_opening = None, ad_ruling = Some ru, ad_withdrawal = None\<rparr>"
    "ru_Platform ru = ch_Platform (rg_charter r)" "validFinding (ru_Finding ru)" "Remedy_validate (ru_Remedy ru) (ru_Mode ru) = None" "Ruling_Verify c ru (rg_charter r)"
    by (auto simp: Rule_checks_def Let_def split: if_splits option.splits sum.splits)
  have "\<And>d. case_ok c r s d" using race_rule(2) by (simp add: race_inv_def)
  from checked_case [OF ca(1) this] obtain x rest o' where x: "ByDispute s (ru_Dispute ru) = x # rest" "ad_opening x = Some o'" "ca_exchange ca = op_Exchange o'" by blast
  have "ruled_by c r (ad_dispute a) o' a" using ca x(3) by (simp add: ruled_by_def)
  then have "pending_ok c r s a" unfolding pending_ok_def using x ca(3) by auto
  then show ?case using race_rule(2) by (simp add: race_inv_def)
next
  case (race_withdraw s w a pend)
  then obtain ca where ca: "Registry_Case s (wd_Dispute w) = Inr ca" "Withdrawal_Verify c w (ca_complainant ca)" "wd_Platform w = ch_Platform (rg_charter r)"
    "a = \<lparr>ad_dispute = wd_Dispute w, ad_id = Withdrawal_leafID c w, ad_opening = None, ad_ruling = None, ad_withdrawal = Some w\<rparr>"
    by (auto simp: Withdraw_checks_def Let_def split: if_splits sum.splits)
  have "\<And>d. case_ok c r s d" using race_withdraw(2) by (simp add: race_inv_def)
  from checked_case [OF ca(1) this] obtain x rest o' where x: "ByDispute s (wd_Dispute w) = x # rest" "ad_opening x = Some o'" "ca_complainant ca = op_Complainant o'" by blast
  have "withdrawn_by c r (ad_dispute a) o' a" using ca x(3) by (simp add: withdrawn_by_def)
  then have "pending_ok c r s a" unfolding pending_ok_def using x ca(4) by auto
  then show ?case using race_withdraw(2) by (simp add: race_inv_def)
next
  case (race_append s a s' xs ys)
  have "pending_ok c r s p \<Longrightarrow> pending_ok c r s' p" for p using Append_effect(1) [OF race_append(1)] by (fastforce simp: pending_ok_def)
  moreover have "case_ok c r s' d" for d using case_ok_append [OF race_append(1)] race_append(2) by (simp add: race_inv_def)
  ultimately show ?case using race_append(2) by (auto simp: race_inv_def)
next
  case (race_refused s a e xs ys)
  then show ?case by (auto simp: race_inv_def)
qed

lemma race_reach_inv: "race_reach c r x \<Longrightarrow> race_inv c r x"
proof (induction rule: race_reach.induct)
  case race_init
  then show ?case by (simp add: race_inv_def case_ok_def DisputeStore_New_def ByDispute_def)
next
  case (race_next x y)
  then show ?case using race_step_inv by blast
qed

text \<open>Calls made one after another are a special interleaving: every check is followed by its append.\<close>

lemma race_call:
  assumes "race_reach c r (s, [])" "dispute_race c r (s, []) (s, [a])" "DisputeStore_Append s a = Inr s'"
  shows "race_reach c r (s', [])"
  using race_next [OF race_next [OF assms(1,2)] race_append [OF assms(3), of _ _ "[]" "[]", unfolded append_Nil]] by simp

lemma sequential_race: "admits (dispute_do c r) s0 s \<Longrightarrow> race_reach c r (s0, []) \<Longrightarrow> race_reach c r (s, [])"
proof (induction rule: admits.induct)
  case (admits_step s t call u)
  then have t: "race_reach c r (t, [])" by simp
  have "\<exists>a. dispute_race c r (t, []) (t, [a]) \<and> DisputeStore_Append t a = Inr u"
    using admits_step.hyps(2) dispute_race.intros(1-3) [of c r]
    by (cases call) (fastforce simp: dispute_do_def Registry_Open_def Registry_Rule_def Registry_Withdraw_def split: sum.splits)+
  then show ?case using race_call [OF t] by blast
qed

section \<open>Properties\<close>

lemma case_artifacts:
  assumes "admits (dispute_do c r) DisputeStore_New s" and "Registry_Case s d = Inr ca"
  shows "\<exists>a rest. ByDispute s d = a # rest \<and> ad_opening a \<noteq> None \<and> ad_ruling a = None \<and> ad_withdrawal a = None \<and>
     (ca_state ca = StateOpen \<and> rest = [] \<or>
      ca_state ca = StateResolved \<and> (\<exists>b. rest = [b] \<and> ad_opening b = None \<and> ad_ruling b \<noteq> None) \<or>
      ca_state ca = StateWithdrawn \<and> (\<exists>b. rest = [b] \<and> ad_opening b = None \<and> ad_ruling b = None \<and> ad_withdrawal b \<noteq> None))"
proof -
  have inv: "dispute_inv s" by (rule dispute_reach_inv [OF assms(1) dispute_inv_New])
  have ok: "case_ok c r s d" using race_reach_inv [OF sequential_race [OF assms(1) race_init]] by (simp add: race_inv_def)
  obtain a rest where ads: "ByDispute s d = a # rest" using assms(2) by (cases "ByDispute s d") (auto simp: Registry_Case_def)
  from case_okD [OF ok ads] obtain o' where a: "opened c r d o' a" by (elim exE conjE)
  have st: "status s d \<noteq> Broken" "Registry_Case s d = case_of d (status s d)"
    using dispute_invD(1) [OF inv] Registry_Case_status [OF dispute_invD(1) [OF inv]] by blast+
  have "(rest = [] \<and> status s d = Live o') \<or> (\<exists>b. rest = [b] \<and> ad_opening b = None \<and>
      ((\<exists>ru. ad_ruling b = Some ru \<and> status s d = Ruled o' ru) \<or> (\<exists>w. ad_ruling b = None \<and> ad_withdrawal b = Some w \<and> status s d = Gone o' w)))"
    using st(1) a unfolding ads opened_def by (cases "a # rest" rule: status_of.cases) (auto split: option.splits if_splits)
  then show ?thesis using a ads st(2) assms(2) unfolding opened_def by (elim disjE exE conjE) (simp_all, auto)
qed

lemma tuple_settled:
  assumes "admits (dispute_do c r) DisputeStore_New s"
    and "Registry_Case s d = Inr ca" and "Registry_Case s d' = Inr ca'" and "d \<noteq> d'"
    and "ca_exchange ca = ca_exchange ca'" and "ca_complainant ca = ca_complainant ca'" and "ca_respondent ca = ca_respondent ca'"
  shows "ca_state ca = StateWithdrawn \<or> ca_state ca' = StateWithdrawn"
proof -
  have inv: "dispute_inv s" by (rule dispute_reach_inv [OF assms(1) dispute_inv_New])
  note I = dispute_invD [OF inv]
  obtain o1 where o1: "status s d = Live o1 \<or> (\<exists>ru. status s d = Ruled o1 ru) \<or> ca_state ca = StateWithdrawn"
    "ca_exchange ca = op_Exchange o1" "ca_complainant ca = op_Complainant o1" "ca_respondent ca = op_Respondent o1"
    using case_shape [OF inv assms(2)] by blast
  obtain o2 where o2: "status s d' = Live o2 \<or> (\<exists>ru. status s d' = Ruled o2 ru) \<or> ca_state ca' = StateWithdrawn"
    "ca_exchange ca' = op_Exchange o2" "ca_complainant ca' = op_Complainant o2" "ca_respondent ca' = op_Respondent o2"
    using case_shape [OF inv assms(3)] by blast
  have key: "key_of o1 = key_of o2" using o1(2-4) o2(2-4) assms(5-7) by (simp add: key_of_def)
  show ?thesis
    using o1(1) o2(1) key assms(4) inv_live_unique [OF inv] I(6) I(7) by metis
qed

text \<open>C11: one settlement per case and per tuple. After any sequence of calls on a fresh registry, a stored case is its opening followed by nothing while
  it is open, by exactly one ruling once it is resolved, and by exactly one withdrawal once it is withdrawn: no second ruling is ever admitted on a case. And of two different cases
  between the same complainant and respondent over the same exchange at least one is withdrawn: no
  exchange is ruled on twice in one direction, and none is disputed again in that direction once ruled.\<close>

theorem dispute_settles_once:
  assumes "admits (dispute_do c r) DisputeStore_New s"
  shows "(\<forall>d ca. Registry_Case s d = Inr ca \<longrightarrow>
      (\<exists>a rest. ByDispute s d = a # rest \<and> ad_opening a \<noteq> None \<and> ad_ruling a = None \<and> ad_withdrawal a = None \<and>
         (ca_state ca = StateOpen \<and> rest = [] \<or>
          ca_state ca = StateResolved \<and> (\<exists>b. rest = [b] \<and> ad_opening b = None \<and> ad_ruling b \<noteq> None) \<or>
          ca_state ca = StateWithdrawn \<and> (\<exists>b. rest = [b] \<and> ad_opening b = None \<and> ad_ruling b = None \<and> ad_withdrawal b \<noteq> None)))) \<and>
    (\<forall>d d' ca ca'. Registry_Case s d = Inr ca \<and> Registry_Case s d' = Inr ca' \<and> d \<noteq> d' \<and> ca_exchange ca = ca_exchange ca' \<and>
      ca_complainant ca = ca_complainant ca' \<and> ca_respondent ca = ca_respondent ca' \<longrightarrow>
      ca_state ca = StateWithdrawn \<or> ca_state ca' = StateWithdrawn)"
proof (intro conjI allI impI)
  fix d ca assume "Registry_Case s d = Inr ca"
  then show "\<exists>a rest. ByDispute s d = a # rest \<and> ad_opening a \<noteq> None \<and> ad_ruling a = None \<and> ad_withdrawal a = None \<and>
         (ca_state ca = StateOpen \<and> rest = [] \<or>
          ca_state ca = StateResolved \<and> (\<exists>b. rest = [b] \<and> ad_opening b = None \<and> ad_ruling b \<noteq> None) \<or>
          ca_state ca = StateWithdrawn \<and> (\<exists>b. rest = [b] \<and> ad_opening b = None \<and> ad_ruling b = None \<and> ad_withdrawal b \<noteq> None))"
    by (rule case_artifacts [OF assms])
next
  fix d d' ca ca' assume h: "Registry_Case s d = Inr ca \<and> Registry_Case s d' = Inr ca' \<and> d \<noteq> d' \<and> ca_exchange ca = ca_exchange ca' \<and>
      ca_complainant ca = ca_complainant ca' \<and> ca_respondent ca = ca_respondent ca'"
  then show "ca_state ca = StateWithdrawn \<or> ca_state ca' = StateWithdrawn"
    by (intro tuple_settled [OF assms, of d ca d' ca']) auto
qed

theorem dispute_settles_once_witness:
  "\<exists>s ca ca'. admits (dispute_do sample_crypto sample_registry) DisputeStore_New s \<and>
     Registry_Case s 6016 = Inr ca \<and> Registry_Case s 6017 = Inr ca' \<and> ca_exchange ca = ca_exchange ca' \<and> length (ByDispute s 6016) \<le> 2 \<and>
     (ca_state ca = StateWithdrawn \<or> ca_state ca' = StateWithdrawn)"
proof -
  let ?do = "dispute_do sample_crypto sample_registry"
  obtain s1 where s1: "?do DisputeStore_New (CallOpen (sample_opening 1 2 0)) = Inr s1"
    "dispute_inv s1" "\<And>e. status s1 e = (if e = 6016 then Live (sample_opening 1 2 0) else Unknown)" "ds_ids s1 = {6016}"
    "ds_openTuple s1 = [key_of (sample_opening 1 2 0) \<mapsto> 6016]" "ds_adjudicated s1 = {}"
    using sample_opened by blast
  obtain s2 where s2: "?do s1 (CallWithdraw (sample_withdrawal 6016)) = Inr s2" "dispute_inv s2"
    "\<And>e. status s2 e = (if e = 6016 then Gone (sample_opening 1 2 0) (sample_withdrawal 6016) else status s1 e)"
    "ds_ids s2 = insert 5671 (ds_ids s1)" "ds_openTuple s2 = (ds_openTuple s1)(key_of (sample_opening 1 2 0) := None)"
    "ds_adjudicated s2 = ds_adjudicated s1"
    using sample_withdraw_step [OF s1(2), of "sample_opening 1 2 0"] s1(3,4) by auto
  obtain s3 where s3: "?do s2 (CallOpen (sample_opening 1 2 1)) = Inr s3" "dispute_inv s3"
    "\<And>e. status s3 e = (if e = 6017 then Live (sample_opening 1 2 1) else status s2 e)"
    using sample_open_step [OF s2(2), of 1 2 1 6017] sample_opening_ids s1 s2 sample_keys(2) by auto
  have reach: "admits ?do DisputeStore_New s3"
    by (rule run_all_admits [of _ _ "[CallOpen (sample_opening 1 2 0), CallWithdraw (sample_withdrawal 6016),
          CallOpen (sample_opening 1 2 1)]"]) (simp add: s1(1) s2(1) s3(1))
  obtain ca ca' where c: "Registry_Case s3 6016 = Inr ca" "Registry_Case s3 6017 = Inr ca'"
    "ca_exchange ca = ca_exchange ca'" "ca_complainant ca = ca_complainant ca'" "ca_respondent ca = ca_respondent ca'"
    using Registry_Case_status [of s3 6016] Registry_Case_status [of s3 6017] s2(3) s3(3) by auto
  have "length (ByDispute s3 6016) \<le> 2" using conjunct1 [OF dispute_settles_once [OF reach], rule_format, OF c(1)] by auto
  moreover have "ca_state ca = StateWithdrawn \<or> ca_state ca' = StateWithdrawn"
    using conjunct2 [OF dispute_settles_once [OF reach], rule_format, of 6016 ca 6017 ca'] c by simp
  ultimately show ?thesis using reach c by blast
qed

text \<open>A closed case is final. Once a case is resolved or withdrawn, no later sequence of calls changes anything
  in its read model: state, finding and remedy stay what they were.\<close>

theorem closed_case_final:
  assumes "admits (dispute_do c r) DisputeStore_New s" and "Registry_Case s d = Inr ca" and "ca_state ca \<noteq> StateOpen"
    and "admits (dispute_do c r) s s'"
  shows "Registry_Case s' d = Inr ca"
proof -
  have inv: "dispute_inv s" by (rule dispute_reach_inv [OF assms(1) dispute_inv_New])
  obtain o' ru w where closed: "status s d = Ruled o' ru \<or> status s d = Gone o' w"
    using case_shape [OF inv assms(2)] assms(3) by blast
  have "status s' d = status s d \<and> dispute_inv s'"
    using assms(4) inv closed
  proof (induction rule: admits.induct)
    case (admits_refl s)
    then show ?case by simp
  next
    case (admits_step s t call u)
    then have t: "status t d = status s d" "dispute_inv t" by blast+
    then show ?case
      using status_terminal_stays [OF t(2) admits_step.hyps(2), of d o' ru w] dispute_do_status [OF t(2) admits_step.hyps(2)]
        admits_step.prems(2) by auto
  qed
  then show ?thesis
    using assms(2) Registry_Case_status [of s d] Registry_Case_status [of s' d] dispute_invD(1) [OF inv, of d] by simp
qed

theorem closed_case_final_witness:
  "\<exists>s s' ca. admits (dispute_do sample_crypto sample_registry) s s' \<and> s \<noteq> s' \<and> ca_state ca = StateResolved \<and>
     Registry_Case s 6016 = Inr ca \<and> Registry_Case s' 6016 = Inr ca"
proof -
  let ?do = "dispute_do sample_crypto sample_registry"
  obtain s where s: "run_all ?do DisputeStore_New [CallOpen (sample_opening 1 2 0), CallRule (sample_ruling 6016 5)] = Inr s"
    "dispute_inv s" "\<And>e. status s e = (if e = 6016 then Ruled (sample_opening 1 2 0) (sample_ruling 6016 5) else Unknown)"
    "ds_ids s = {6074, 6016}" "ds_openTuple s = Map.empty" "ds_adjudicated s = {key_of (sample_opening 1 2 0)}"
    using sample_ruled by blast
  obtain s' where s': "?do s (CallOpen (sample_opening 2 1 0)) = Inr s'" "ds_ids s' = insert 6048 (ds_ids s)"
    using sample_open_step [OF s(2), of 2 1 0 6048] sample_opening_ids s sample_keys(1) by auto
  have "6048 \<in> ds_ids s'" "6048 \<notin> ds_ids s" using s'(2) s(4) by simp_all
  then have "s \<noteq> s'" by blast
  moreover obtain ca where ca: "Registry_Case s 6016 = Inr ca" "ca_state ca = StateResolved"
    using Registry_Case_status [of s 6016] s(3) by auto
  moreover have "admits ?do s s'" by (rule run_all_admits [of _ _ "[CallOpen (sample_opening 2 1 0)]"]) (simp add: s'(1))
  moreover from this have "Registry_Case s' 6016 = Inr ca"
    using closed_case_final [OF run_all_admits [OF s(1)] ca(1)] ca(2) by (simp add: state_defs)
  ultimately show ?thesis by blast
qed

text \<open>What \<open>Open\<close> admits. After any sequence of calls, an opening is admitted exactly when it verifies, is for
  this platform, its exchange is anchored between the two members, its identity is new, and no case of the
  same exchange, complainant and respondent is open or resolved; a withdrawn one does not bar it.\<close>

theorem Open_admits_iff:
  assumes "admits (dispute_do c r) DisputeStore_New s"
  shows "(\<exists>d s'. Registry_Open c r s o' = Inr (d, s')) \<longleftrightarrow>
    Opening_Verify c o' \<and> op_Platform o' = ch_Platform (rg_charter r) \<and>
    rg_anchors r (op_Exchange o') (op_Complainant o') (op_Respondent o') \<and>
    Opening_ID c o' \<noteq> 0 \<and> Opening_ID c o' \<notin> ds_ids s \<and>
    \<not> (\<exists>d ca. Registry_Case s d = Inr ca \<and> ca_state ca \<noteq> StateWithdrawn \<and> ca_exchange ca = op_Exchange o' \<and>
         ca_complainant ca = op_Complainant o' \<and> ca_respondent ca = op_Respondent o')"
proof -
  have inv: "dispute_inv s" by (rule dispute_reach_inv [OF assms dispute_inv_New])
  note I = dispute_invD [OF inv]
  have ver: "status_opening (status s d) = Some o2 \<Longrightarrow> Opening_Verify c o2" for d o2
    using openings_verified [OF assms dispute_inv_New] by simp
  have barred: "key_of o' \<in> ds_adjudicated s \<or> ds_openTuple s (key_of o') \<noteq> None \<longleftrightarrow>
      (\<exists>d ca. Registry_Case s d = Inr ca \<and> ca_state ca \<noteq> StateWithdrawn \<and> ca_exchange ca = op_Exchange o' \<and>
         ca_complainant ca = op_Complainant o' \<and> ca_respondent ca = op_Respondent o')" (is "?l \<longleftrightarrow> ?r")
    if v: "Opening_Verify c o'"
  proof
    assume ?l
    then obtain d o2 where d: "(\<exists>ru. status s d = Ruled o2 ru) \<or> status s d = Live o2" "key_of o2 = key_of o'"
      using I(3,4) by (metis not_None_eq)
    then have "length (op_Complainant o2) = PublicKeySize" using ver [of d o2] by (auto simp: Opening_Verify_def)
    then have "op_Exchange o2 = op_Exchange o' \<and> op_Complainant o2 = op_Complainant o' \<and> op_Respondent o2 = op_Respondent o'"
      using d(2) v by (simp add: key_of_def tuple_key_inject Opening_Verify_def)
    moreover obtain ca where "Registry_Case s d = Inr ca" "ca_state ca \<noteq> StateWithdrawn" "ca_exchange ca = op_Exchange o2"
      "ca_complainant ca = op_Complainant o2" "ca_respondent ca = op_Respondent o2"
      using d(1) Registry_Case_status [of s d] I(1) [of d] by (auto simp: state_defs)
    ultimately show ?r by metis
  next
    assume ?r
    then obtain d ca where ca: "Registry_Case s d = Inr ca" "ca_state ca \<noteq> StateWithdrawn" "ca_exchange ca = op_Exchange o'"
      "ca_complainant ca = op_Complainant o'" "ca_respondent ca = op_Respondent o'" by blast
    then obtain o2 where "status s d = Live o2 \<or> (\<exists>ru. status s d = Ruled o2 ru)" "key_of o2 = key_of o'"
      using case_shape [OF inv ca(1)] by (auto simp: key_of_def)
    then show ?l using I(3) [of "key_of o'" d] I(4) [of "key_of o'"] by auto
  qed
  show ?thesis
  proof (cases "\<exists>a. Open_checks c r o' = Inr a")
    case False
    then show ?thesis by (auto simp: Registry_Open_def Open_checks_Inr split: sum.splits)
  next
    case True
    then have c: "Open_checks c r o' = Inr \<lparr>ad_dispute = Opening_ID c o', ad_id = Opening_ID c o', ad_opening = Some o',
        ad_ruling = None, ad_withdrawal = None\<rparr>" (is "_ = Inr ?a") and v: "Opening_Verify c o'"
      by (simp_all add: Open_checks_Inr)
    have "(\<exists>d s'. Registry_Open c r s o' = Inr (d, s')) \<longleftrightarrow> (\<exists>s'. DisputeStore_Append s ?a = Inr s')"
      by (auto simp: Registry_Open_def c split: sum.splits)
    also have "\<dots> \<longleftrightarrow> Opening_ID c o' \<noteq> 0 \<and> Opening_ID c o' \<notin> ds_ids s \<and>
        \<not> (key_of o' \<in> ds_adjudicated s \<or> ds_openTuple s (key_of o') \<noteq> None)"
    proof
      assume "\<exists>s'. DisputeStore_Append s ?a = Inr s'"
      then obtain s' where "DisputeStore_Append s ?a = Inr s'" ..
      note a = append_opening(1-4) [OF inv this]
      show "Opening_ID c o' \<noteq> 0 \<and> Opening_ID c o' \<notin> ds_ids s \<and>
          \<not> (key_of o' \<in> ds_adjudicated s \<or> ds_openTuple s (key_of o') \<noteq> None)" using a by simp
    next
      assume "Opening_ID c o' \<noteq> 0 \<and> Opening_ID c o' \<notin> ds_ids s \<and>
          \<not> (key_of o' \<in> ds_adjudicated s \<or> ds_openTuple s (key_of o') \<noteq> None)"
      then show "\<exists>s'. DisputeStore_Append s ?a = Inr s'" by (intro append_opening_ok) simp_all
    qed
    finally have f: "(\<exists>d s'. Registry_Open c r s o' = Inr (d, s')) \<longleftrightarrow> Opening_ID c o' \<noteq> 0 \<and> Opening_ID c o' \<notin> ds_ids s \<and>
        \<not> (key_of o' \<in> ds_adjudicated s \<or> ds_openTuple s (key_of o') \<noteq> None)" .
    show ?thesis using f [unfolded barred [OF v]] c [unfolded Open_checks_Inr] by blast
  qed
qed

theorem Open_admits_iff_witness:
  "\<exists>s. admits (dispute_do sample_crypto sample_registry) DisputeStore_New s \<and>
     (\<exists>d s'. Registry_Open sample_crypto sample_registry s (sample_opening 2 1 0) = Inr (d, s')) \<and>
     \<not> (\<exists>d s'. Registry_Open sample_crypto sample_registry s (sample_opening 1 2 1) = Inr (d, s'))"
proof -
  let ?do = "dispute_do sample_crypto sample_registry"
  obtain s where s: "run_all ?do DisputeStore_New [CallOpen (sample_opening 1 2 0), CallRule (sample_ruling 6016 5)] = Inr s"
    "dispute_inv s" "\<And>e. status s e = (if e = 6016 then Ruled (sample_opening 1 2 0) (sample_ruling 6016 5) else Unknown)"
    "ds_ids s = {6074, 6016}" using sample_ruled by blast
  have reach: "admits ?do DisputeStore_New s" by (rule run_all_admits [OF s(1)])
  have only: "Registry_Case s d = Inr ca \<Longrightarrow> ca_complainant ca = replicate 32 1 \<and> ca_state ca = StateResolved" for d ca
    using Registry_Case_status [of s d] s(3) [of d] by (auto split: if_splits)
  obtain ca where ca: "Registry_Case s 6016 = Inr ca" "ca_state ca = StateResolved" "ca_exchange ca = 1"
    "ca_complainant ca = replicate 32 1" "ca_respondent ca = replicate 32 2"
    using Registry_Case_status [of s 6016] s(3) [of 6016] by auto
  have "\<not> (\<exists>d ca. Registry_Case s d = Inr ca \<and> ca_complainant ca = replicate 32 2)" using only by fastforce
  then have "\<exists>d s'. Registry_Open sample_crypto sample_registry s (sample_opening 2 1 0) = Inr (d, s')"
    using Open_admits_iff [OF reach, of "sample_opening 2 1 0"] sample_opening_verifies [of 2 1 0] s(4) sample_opening_ids
    by (auto simp: sample_registry_def sample_charter_def)
  moreover have "\<not> (\<exists>d s'. Registry_Open sample_crypto sample_registry s (sample_opening 1 2 1) = Inr (d, s'))"
  proof -
    have "\<exists>d ca. Registry_Case s d = Inr ca \<and> ca_state ca \<noteq> StateWithdrawn \<and> ca_exchange ca = op_Exchange (sample_opening 1 2 1) \<and>
        ca_complainant ca = op_Complainant (sample_opening 1 2 1) \<and> ca_respondent ca = op_Respondent (sample_opening 1 2 1)"
      using ca by (intro exI [of _ 6016] exI [of _ ca]) (simp add: state_defs)
    then show ?thesis using Open_admits_iff [OF reach, of "sample_opening 1 2 1"] by blast
  qed
  ultimately show ?thesis using reach by blast
qed

text \<open>C31: the two directions are separate cases. On a registry with a quorum of one, the calls open, rule, open
  by the other party, rule are all accepted for one exchange: it ends with two resolved cases, each with a
  refund directive, although the sources say that a resolved exchange cannot be disputed again.\<close>

theorem exchange_ruled_twice:
  "\<exists>s ca ca'. run_all (dispute_do sample_crypto sample_registry) DisputeStore_New
       [CallOpen (sample_opening 1 2 0), CallRule (sample_ruling 6016 5),
        CallOpen (sample_opening 2 1 0), CallRule (sample_ruling 6048 5)] = Inr s \<and>
     Registry_Case s 6016 = Inr ca \<and> Registry_Case s 6048 = Inr ca' \<and> ca_exchange ca = ca_exchange ca' \<and>
     ca_complainant ca = ca_respondent ca' \<and> ca_respondent ca = ca_complainant ca' \<and>
     ca_state ca = StateResolved \<and> ca_state ca' = StateResolved \<and>
     rm_Refund (ca_remedy ca) = Some \<lparr>rd_Units = 5\<rparr> \<and> rm_Refund (ca_remedy ca') = Some \<lparr>rd_Units = 5\<rparr>"
proof -
  let ?do = "dispute_do sample_crypto sample_registry"
  obtain s where s: "run_all ?do DisputeStore_New [CallOpen (sample_opening 1 2 0), CallRule (sample_ruling 6016 5)] = Inr s"
    "dispute_inv s" "\<And>e. status s e = (if e = 6016 then Ruled (sample_opening 1 2 0) (sample_ruling 6016 5) else Unknown)"
    "ds_ids s = {6074, 6016}" "ds_openTuple s = Map.empty" "ds_adjudicated s = {key_of (sample_opening 1 2 0)}"
    using sample_ruled by blast
  obtain s3 where s3: "?do s (CallOpen (sample_opening 2 1 0)) = Inr s3" "dispute_inv s3"
    "\<And>e. status s3 e = (if e = 6048 then Live (sample_opening 2 1 0) else status s e)" "ds_ids s3 = insert 6048 (ds_ids s)"
    using sample_open_step [OF s(2), of 2 1 0 6048] sample_opening_ids s sample_keys(1) by auto
  obtain s4 where s4: "?do s3 (CallRule (sample_ruling 6048 5)) = Inr s4" "dispute_inv s4"
    "\<And>e. status s4 e = (if e = 6048 then Ruled (sample_opening 2 1 0) (sample_ruling 6048 5) else status s3 e)"
    using sample_rule_step [OF s3(2), of 6048 "sample_opening 2 1 0" 5] s3(3,4) s(4) sample_ruling_ids by auto
  have "run_all ?do s [CallOpen (sample_opening 2 1 0), CallRule (sample_ruling 6048 5)] = Inr s4"
    using s3(1) s4(1) by simp
  then have run: "run_all ?do DisputeStore_New ([CallOpen (sample_opening 1 2 0), CallRule (sample_ruling 6016 5)] @
      [CallOpen (sample_opening 2 1 0), CallRule (sample_ruling 6048 5)]) = Inr s4"
    using s(1) by (subst run_all_append) simp
  have "status s4 6016 = Ruled (sample_opening 1 2 0) (sample_ruling 6016 5)"
    "status s4 6048 = Ruled (sample_opening 2 1 0) (sample_ruling 6048 5)" using s(3) s3(3) s4(3) by simp_all
  then have "Registry_Case s4 6016 = case_of 6016 (Ruled (sample_opening 1 2 0) (sample_ruling 6016 5))"
    "Registry_Case s4 6048 = case_of 6048 (Ruled (sample_opening 2 1 0) (sample_ruling 6048 5))"
    using Registry_Case_status [of s4 6016] Registry_Case_status [of s4 6048] by simp_all
  with run show ?thesis by (intro exI [of _ s4]) simp
qed

section \<open>Races\<close>

text \<open>C32: two rulings on one case. Two calls to \<open>Rule\<close> on one open case whose checks both run before either append
  are both accepted: the case then holds its opening and two rulings with different refunds, and its read model
  reports the second. The comments promise one ruling per exchange.\<close>

theorem race_admits_two_rulings:
  "\<exists>s ca. race_reach sample_crypto sample_registry (s, []) \<and>
     map ad_ruling (ByDispute s 6016) = [None, Some (sample_ruling 6016 5), Some (sample_ruling 6016 6)] \<and>
     Registry_Case s 6016 = Inr ca \<and> rm_Refund (ca_remedy ca) = Some \<lparr>rd_Units = 6\<rparr>"
proof -
  let ?R = "race_reach sample_crypto sample_registry"
  let ?o = "\<lparr>ad_dispute = 6016, ad_id = 6016, ad_opening = Some (sample_opening 1 2 0), ad_ruling = None, ad_withdrawal = None\<rparr>"
  let ?r = "\<lambda>i n. \<lparr>ad_dispute = 6016, ad_id = i, ad_opening = None, ad_ruling = Some (sample_ruling 6016 n), ad_withdrawal = None\<rparr>"
  obtain s1 where o: "Open_checks sample_crypto sample_registry (sample_opening 1 2 0) = Inr ?o"
    and app: "DisputeStore_Append DisputeStore_New ?o = Inr s1"
    using sample_opened sample_opening_ids(1) sample_opening_verifies [of 1 2 0]
    by (auto simp: dispute_do_def Registry_Open_def Open_checks_Inr sample_registry_def sample_charter_def split: sum.splits)
  note a = append_opening [OF dispute_inv_New app]
  have r1: "?R (s1, [])"
    using race_next [OF race_next [OF race_init race_open [OF o]] race_append [OF app, of _ _ "[]" "[]", unfolded append_Nil]] by simp
  have live: "status s1 6016 = Live (sample_opening 1 2 0)" using fun_cong [OF a(5), of 6016] by simp
  have chk: "Rule_checks sample_crypto sample_registry s1 (sample_ruling 6016 5) = Inr (?r 6074 5)"
    "Rule_checks sample_crypto sample_registry s1 (sample_ruling 6016 6) = Inr (?r 6076 6)"
    using sample_rule_checks [OF live, of 5] sample_rule_checks [OF live, of 6] sample_ruling_ids by simp_all
  have r2: "?R (s1, [?r 6076 6, ?r 6074 5])"
    by (rule race_next [OF race_next [OF r1 race_rule [OF chk(1)]] race_rule [OF chk(2)]])
  obtain s2 where app2: "DisputeStore_Append s1 (?r 6074 5) = Inr s2"
    using append_terminal_ok [of "?r 6074 5" s1] a(6) by auto
  note b = append_terminal [OF dispute_inv_opening [OF dispute_inv_New app] live _ _ app2]
  have r3: "?R (s2, [?r 6076 6])" using race_next [OF r2 race_append [OF app2, of _ _ "[?r 6076 6]" "[]", unfolded append_Cons append_Nil]] by simp
  obtain s3 where app3: "DisputeStore_Append s2 (?r 6076 6) = Inr s3"
    using append_terminal_ok [of "?r 6076 6" s2] a(6) b(3) by auto
  have r4: "?R (s3, [])" using race_next [OF r3 race_append [OF app3, of _ _ "[]" "[]", unfolded append_Nil]] by simp
  have "ByDispute s1 6016 = [?o]" "ByDispute s2 6016 = ByDispute s1 6016 @ [?r 6074 5]" "ByDispute s3 6016 = ByDispute s2 6016 @ [?r 6076 6]"
    using app app2 app3 by (auto simp: DisputeStore_Append_def ByDispute_def DisputeStore_New_def Let_def split: if_splits option.splits)
  then have "ByDispute s3 6016 = [?o, ?r 6074 5, ?r 6076 6]" by simp
  with r4 show ?thesis by (intro exI [of _ s3]) (simp add: Registry_Case_def)
qed

text \<open>C33: what interleaving cannot break. However the checks and appends of concurrent calls interleave, a stored case has a defined read model and
  consists of one opening first, verified, anchored between the two members and of the case's own identity, and then only of rulings for that case and
  exchange that enough of the charter's adjudicators signed, with a valid remedy, and of withdrawals the complainant signed; and once a
  ruling is stored for a case, no opening for the same exchange, complainant and respondent is ever
  appended again.\<close>

theorem interleaved_cases_sound:
  assumes "race_reach c r (s, pend)" and "ByDispute s d = a # rest"
  shows "(\<exists>ca. Registry_Case s d = Inr ca) \<and>
    (\<exists>o'. ad_opening a = Some o' \<and> ad_ruling a = None \<and> ad_withdrawal a = None \<and> d = Opening_ID c o' \<and> Opening_Verify c o' \<and>
       rg_anchors r (op_Exchange o') (op_Complainant o') (op_Respondent o') \<and>
       (\<forall>b \<in> set rest. ad_opening b = None \<and>
          ((\<exists>ru. ad_ruling b = Some ru \<and> ad_withdrawal b = None \<and> ru_Dispute ru = d \<and> ru_Exchange ru = op_Exchange o' \<and>
              Remedy_validate (ru_Remedy ru) (ru_Mode ru) = None \<and> Ruling_Verify c ru (rg_charter r)) \<or>
           (\<exists>w. ad_withdrawal b = Some w \<and> ad_ruling b = None \<and> wd_Dispute w = d \<and> Withdrawal_Verify c w (op_Complainant o')))) \<and>
       (\<forall>p o2. (\<exists>b \<in> set rest. ad_ruling b \<noteq> None) \<and> ad_opening p = Some o2 \<and> op_Exchange o2 = op_Exchange o' \<and>
          op_Complainant o2 = op_Complainant o' \<and> op_Respondent o2 = op_Respondent o' \<longrightarrow> (\<exists>e. DisputeStore_Append s p = Inl e)))"
proof -
  have ok: "case_ok c r s d" using race_reach_inv [OF assms(1)] by (simp add: race_inv_def)
  from case_okD [OF ok assms(2)] obtain o' where o': "opened c r d o' a" "ad_opening a = Some o'"
    "\<forall>b \<in> set rest. authorized c r d o' b" "\<forall>b \<in> set rest. ad_ruling b \<noteq> None \<longrightarrow> key_of o' \<in> ds_adjudicated s" by (elim exE conjE)
  have "\<exists>e. DisputeStore_Append s p = Inl e"
    if "(\<exists>b \<in> set rest. ad_ruling b \<noteq> None) \<and> ad_opening p = Some o2 \<and> op_Exchange o2 = op_Exchange o' \<and>
          op_Complainant o2 = op_Complainant o' \<and> op_Respondent o2 = op_Respondent o'" for p o2
  proof -
    have "key_of o2 \<in> ds_adjudicated s" using that o'(4) by (auto simp: key_of_def)
    then show ?thesis using that by (auto simp: DisputeStore_Append_def opensCase_def key_of_def Let_def)
  qed
  then have barred: "\<forall>p o2. (\<exists>b \<in> set rest. ad_ruling b \<noteq> None) \<and> ad_opening p = Some o2 \<and> op_Exchange o2 = op_Exchange o' \<and>
          op_Complainant o2 = op_Complainant o' \<and> op_Respondent o2 = op_Respondent o' \<longrightarrow> (\<exists>e. DisputeStore_Append s p = Inl e)" by blast
  have auth: "\<forall>b \<in> set rest. ad_opening b = None \<and> ((\<exists>ru. ad_ruling b = Some ru \<and> ad_withdrawal b = None \<and> ru_Dispute ru = d \<and> ru_Exchange ru = op_Exchange o' \<and>
              Remedy_validate (ru_Remedy ru) (ru_Mode ru) = None \<and> Ruling_Verify c ru (rg_charter r)) \<or>
           (\<exists>w. ad_withdrawal b = Some w \<and> ad_ruling b = None \<and> wd_Dispute w = d \<and> Withdrawal_Verify c w (op_Complainant o')))"
  proof
    fix b assume "b \<in> set rest"
    from bspec [OF o'(3) this] show "ad_opening b = None \<and> ((\<exists>ru. ad_ruling b = Some ru \<and> ad_withdrawal b = None \<and> ru_Dispute ru = d \<and> ru_Exchange ru = op_Exchange o' \<and>
              Remedy_validate (ru_Remedy ru) (ru_Mode ru) = None \<and> Ruling_Verify c ru (rg_charter r)) \<or>
           (\<exists>w. ad_withdrawal b = Some w \<and> ad_ruling b = None \<and> wd_Dispute w = d \<and> Withdrawal_Verify c w (op_Complainant o')))"
      by (auto simp: ruled_by_def withdrawn_by_def)
  qed
  have read: "\<exists>ca. Registry_Case s d = Inr ca" using case_ok_read [OF ok assms(2) o'(2)] by blast
  have "ad_ruling a = None" "ad_withdrawal a = None" "d = Opening_ID c o'" "Opening_Verify c o'"
    "rg_anchors r (op_Exchange o') (op_Complainant o') (op_Respondent o')" using o'(1) unfolding opened_def by auto
  with read o'(2) barred auth show ?thesis by (intro conjI exI [of _ o']) assumption+
qed

theorem interleaved_cases_sound_witness:
  "\<exists>s a. race_reach sample_crypto sample_registry (s, [a]) \<and> ByDispute s 6016 \<noteq> [] \<and>
     (\<exists>ca. Registry_Case s 6016 = Inr ca) \<and> (\<exists>o'. ad_opening (hd (ByDispute s 6016)) = Some o' \<and> Opening_Verify sample_crypto o')"
proof -
  let ?R = "race_reach sample_crypto sample_registry"
  let ?o = "\<lparr>ad_dispute = 6016, ad_id = 6016, ad_opening = Some (sample_opening 1 2 0), ad_ruling = None, ad_withdrawal = None\<rparr>"
  obtain s1 where o: "Open_checks sample_crypto sample_registry (sample_opening 1 2 0) = Inr ?o"
    and app: "DisputeStore_Append DisputeStore_New ?o = Inr s1"
    using sample_opened sample_opening_ids(1) sample_opening_verifies [of 1 2 0]
    by (auto simp: dispute_do_def Registry_Open_def Open_checks_Inr sample_registry_def sample_charter_def split: sum.splits)
  have "?R (s1, [])"
    using race_next [OF race_next [OF race_init race_open [OF o]] race_append [OF app, of _ _ "[]" "[]", unfolded append_Nil]] by simp
  from race_next [OF this race_open [OF o]] have r: "?R (s1, [?o])" .
  moreover obtain x rest where x: "ByDispute s1 6016 = x # rest" using Append_effect(1) [OF app] by (cases "ByDispute s1 6016") auto
  ultimately show ?thesis using interleaved_cases_sound [OF r x] by (intro exI [of _ s1] exI [of _ ?o]) (auto simp: x)
qed

end
