(* ===== verification/Wire.thy ===== *)
theory Wire
  imports Prelude
begin

text \<open>
  Wire forms the packages share: \<open>encoding/hex\<close>, the copy of 32 decoded bytes into a fixed array, and the conversions between
  Go strings and byte slices. A Go string is a byte sequence, so both directions keep every byte.
\<close>

unbundle bit_operations_syntax

text \<open>\<open>hex.EncodeToString\<close>: two lowercase digits per byte.\<close>

definition hex_digit :: "byte \<Rightarrow> char" where
  "hex_digit n = ''0123456789abcdef'' ! (unat n mod 16)"

definition hex_EncodeToString :: "bytes \<Rightarrow> string" where
  "hex_EncodeToString bs = concat (map (\<lambda>b. [hex_digit (drop_bit 4 b), hex_digit (take_bit 4 b)]) bs)"

text \<open>\<open>hex.DecodeString\<close>: digits of either case; an odd length or another character is the error.\<close>

definition hex_value :: "char \<Rightarrow> byte option" where
  "hex_value ch = (let n = (of_char ch :: nat) in
     if 48 \<le> n \<and> n \<le> 57 then Some (word_of_nat (n - 48))
     else if 97 \<le> n \<and> n \<le> 102 then Some (word_of_nat (n - 87))
     else if 65 \<le> n \<and> n \<le> 70 then Some (word_of_nat (n - 55))
     else None)"

fun hex_DecodeString :: "string \<Rightarrow> bytes option" where
  "hex_DecodeString [] = Some []"
| "hex_DecodeString [x] = None"
| "hex_DecodeString (x # y # rest) =
     (case (hex_value x, hex_value y) of
        (Some hi, Some lo) \<Rightarrow> map_option ((#) (push_bit 4 hi OR lo)) (hex_DecodeString rest)
      | _ \<Rightarrow> None)"

text \<open>\<open>copy(out[:], b)\<close> for 32 bytes, most significant first.\<close>

definition b32_of_bytes :: "bytes \<Rightarrow> b32" where
  "b32_of_bytes bs = foldl (\<lambda>a b. push_bit 8 a OR ucast b) 0 bs"

text \<open>\<open>[]byte(s)\<close>.\<close>

definition bytes_of_str :: "string \<Rightarrow> bytes" where
  "bytes_of_str s = map (\<lambda>ch. word_of_nat (of_char ch)) s"

text \<open>\<open>time.Parse\<close> and \<open>Format\<close> with the layout \<open>time.RFC3339Nano\<close>, and the clock.\<close>

record wire =
  parse_time :: "string \<Rightarrow> gotime option"
  format_time :: "gotime \<Rightarrow> string"
  wire_now :: gotime

section \<open>Lemmas\<close>

lemma hex_digit_valid: "(of_char (hex_digit n) :: nat) \<in> {48..57} \<union> {97..102}"
proof -
  have "hex_digit n \<in> set ''0123456789abcdef''"
    unfolding hex_digit_def by (rule nth_mem) simp
  then show ?thesis by auto
qed

lemma length_hex: "length (hex_EncodeToString bs) = 2 * length bs"
  by (induction bs) (simp_all add: hex_EncodeToString_def)

lemma hex_digit_inject: "hex_digit m = hex_digit n \<longleftrightarrow> unat m mod 16 = unat n mod 16"
  unfolding hex_digit_def by (rule nth_eq_iff_index_eq) simp_all

lemma hex_byte_inject:
  assumes "hex_digit (drop_bit 4 a) = hex_digit (drop_bit 4 b)" "hex_digit (take_bit 4 a) = hex_digit (take_bit 4 b)"
  shows "a = b"
proof -
  have u: "unat (x :: byte) < 256" for x using unsigned_less [of x, where 'a = nat] by simp
  have d: "unat (drop_bit 4 x) = unat x div 16" for x :: byte
    using u [of x] by (simp only: unsigned_drop_bit_eq) (simp add: drop_bit_eq_div take_bit_eq_mod)
  have t: "unat (take_bit 4 x) = unat x mod 16" for x :: byte
    by (simp only: unsigned_take_bit_eq) (simp add: take_bit_eq_mod)
  have "unat a div 16 mod 16 = unat b div 16 mod 16" "unat a mod 16 = unat b mod 16"
    using assms unfolding hex_digit_inject d t by simp_all
  moreover have "unat x div 16 mod 16 = unat x div 16" for x :: byte using u [of x] by simp
  ultimately have "unat a = unat b" by (metis div_mult_mod_eq)
  then show ?thesis by (simp add: word_unat_eq_iff)
qed

lemma hex_inject: "length xs = length ys \<Longrightarrow> hex_EncodeToString xs = hex_EncodeToString ys \<longleftrightarrow> xs = ys"
proof (induction xs ys rule: list_induct2)
  case (Cons x xs y ys)
  then show ?case using hex_byte_inject [of x y] by (auto simp: hex_EncodeToString_def)
qed simp

lemma hex_value_digit: "hex_value (hex_digit n) = Some (take_bit 4 n)"
proof -
  have "\<forall>k < 16. hex_value (''0123456789abcdef'' ! k) = Some (word_of_nat k)"
    by (simp add: hex_value_def numeral_eq_Suc All_less_Suc)
  then have "hex_value (hex_digit n) = Some (word_of_nat (unat n mod 16))" by (simp add: hex_digit_def)
  also have "word_of_nat (unat n mod 16) = take_bit 4 n"
    by (simp only: word_unat_eq_iff unsigned_take_bit_eq) (simp add: unsigned_of_nat take_bit_eq_mod)
  finally show ?thesis .
qed

lemma nibbles: "push_bit 4 (take_bit 4 (drop_bit 4 (b :: byte))) OR take_bit 4 b = b"
  by (rule bit_word_eqI) (auto simp: bit_simps)

lemma hex_roundtrip [simp]: "hex_DecodeString (hex_EncodeToString bs) = Some bs"
proof (induction bs)
  case (Cons b bs)
  then show ?case by (simp add: hex_EncodeToString_def hex_value_digit nibbles)
qed (simp add: hex_EncodeToString_def)

lemma hex_decode_length: "hex_DecodeString s = Some bs \<Longrightarrow> length s = 2 * length bs"
  by (induction s arbitrary: bs rule: hex_DecodeString.induct) (auto split: option.splits prod.splits)

lemma b32_of_bytes_prefix: "k \<le> 32 \<Longrightarrow> b32_of_bytes (take k (b32_bytes h)) = drop_bit (8 * (32 - k)) h"
proof (induction k)
  case 0
  have "drop_bit 256 h = 0" by (rule bit_word_eqI) (simp add: bit_simps)
  then show ?case by (simp add: b32_of_bytes_def)
next
  case (Suc k)
  then have "take (Suc k) (b32_bytes h) = take k (b32_bytes h) @ [ucast (drop_bit (8 * (31 - k)) h)]"
    by (simp add: take_Suc_conv_app_nth b32_bytes_def nth_map_upt)
  moreover obtain m where m: "8 * (31 - k) = m" "8 * (32 - k) = m + 8" using Suc.prems by fastforce
  moreover have "push_bit 8 (drop_bit (m + 8) h) OR ucast (ucast (drop_bit m h) :: byte) = drop_bit m h"
    by (rule bit_word_eqI) (auto simp: bit_simps)
  ultimately show ?case using Suc by (simp add: b32_of_bytes_def)
qed

lemma b32_of_bytes_b32_bytes [simp]: "b32_of_bytes (b32_bytes h) = h"
  using b32_of_bytes_prefix [of 32 h] by simp

lemma str_of_bytes_of_str [simp]: "str_of_bytes (bytes_of_str s) = s"
proof -
  have "char_of (unat (word_of_nat (of_char ch) :: byte)) = ch" for ch
  proof -
    have "of_char ch < (256 :: nat)" using of_char_mod_256 [of ch] by (metis mod_less_divisor zero_less_numeral)
    then have "unat (word_of_nat (of_char ch) :: byte) = of_char ch" by (simp add: unsigned_of_nat take_bit_eq_mod)
    then show ?thesis by simp
  qed
  then show ?thesis by (simp add: str_of_bytes_def bytes_of_str_def map_idI)
qed

lemma bytes_of_str_inject [simp]: "bytes_of_str s = bytes_of_str t \<longleftrightarrow> s = t"
  by (metis str_of_bytes_of_str)

lemma bytes_of_str_of_bytes [simp]: "bytes_of_str (str_of_bytes b) = b"
  using str_of_bytes_of_str [of "str_of_bytes b"] by (simp only: str_of_bytes_inject)

end
