(* ===== verification/Covenant.thy ===== *)
theory Covenant
  imports Replay Sample Wire
begin

text \<open>
  The covenant (\<open>src/internal/covenant\<close>): signed assessments and answers (\<open>assessment.go\<close>), the book that
  admits them and reads standing (\<open>book.go\<close>), the in-memory store (\<open>memstore.go\<close>) and the read views
  (\<open>standing.go\<close>, \<open>distribution.go\<close>). Standing is modelled over the list of admitted assessments any store
  may return, since the code does not trust its store's indexing. Counters are Go \<open>int\<close>s that only ever
  increase by one per stored verdict and are modelled as unbounded.
\<close>

section \<open>Identifiers, levels, relations\<close>

datatype covenant_reason =
    BadAssessor | BadSubject | SelfAssessment | ZeroExchange | BadRelation | BadLevel | BadCategory
  | NoTrustWithoutComment | ZeroIssuedAt | UnknownAssessorKey | AssessorKeyLength | AssessorKeyMismatch
  | BadSignature | UnknownSubjectKey | SubjectKeyLength | SubjectKeyMismatch | NotSealedBetween | NotAdjudicatedBy
  | ZeroAdmitted | NoAssessmentNamed | BadAnswerer | ZeroAnswerHash | NotRatedParty
  | UnknownAnswererKey | AnswererKeyLength | AnswererKeyMismatch

datatype covenant_error =
    CovInvalid covenant_reason | CovDuplicate | CovUnknownAssessment | CovStoreViolation
  | CovEmptyPlatform | CovNilDirectory | CovNilAnchors | CovNilStore | CovEmptyCategory | CovDuplicateCategory string
  | CovPanic

definition domainAssessment :: string where "domainAssessment = ''cloudy/covenant/assessment/v1''"
definition domainAssessmentID :: string where "domainAssessmentID = ''cloudy/covenant/assessment-id/v1''"
definition domainAnswer :: string where "domainAnswer = ''cloudy/covenant/answer/v1''"
definition domainMember :: string where "domainMember = ''cloudy/covenant/member/v0''"

type_synonym member_id = string

definition MemberIDFor :: "crypto \<Rightarrow> string \<Rightarrow> bytes \<Rightarrow> member_id" where
  "MemberIDFor c platform pub =
     hex_EncodeToString (b32_bytes (sha256 c (canon_sum c domainMember [CString platform, CBytes pub])))"

definition validMemberID :: "member_id \<Rightarrow> bool" where
  "validMemberID m \<longleftrightarrow> length m = 64 \<and>
     (\<forall>ch \<in> set m. let n = (of_char ch :: nat) in \<not> ((n < 48 \<or> n > 57) \<and> (n < 97 \<or> n > 102)))"

type_synonym level = byte

definition LevelNoTrust :: level where "LevelNoTrust = -1"
definition LevelCynicalSatisfaction :: level where "LevelCynicalSatisfaction = 0"
definition LevelBasicPromise :: level where "LevelBasicPromise = 1"
definition LevelBasicSatisfaction :: level where "LevelBasicSatisfaction = 2"
definition LevelNoNegativeConsequences :: level where "LevelNoNegativeConsequences = 3"
definition LevelDelight :: level where "LevelDelight = 4"

definition Level_String :: "level \<Rightarrow> string" where
  "Level_String l =
     (if l = LevelNoTrust then ''No Trust''
      else if l = LevelCynicalSatisfaction then ''Cynical Satisfaction''
      else if l = LevelBasicPromise then ''Basic Promise''
      else if l = LevelBasicSatisfaction then ''Basic Satisfaction''
      else if l = LevelNoNegativeConsequences then ''No Negative Consequences''
      else if l = LevelDelight then ''Delight''
      else ''invalid level '' @ strconv_Itoa (sint l))"

definition Levels :: "level list" where
  "Levels = [LevelDelight, LevelNoNegativeConsequences, LevelBasicSatisfaction, LevelBasicPromise,
     LevelCynicalSatisfaction, LevelNoTrust]"

definition validLevel :: "level \<Rightarrow> bool" where
  "validLevel l \<longleftrightarrow> l = LevelNoTrust \<or> l = LevelCynicalSatisfaction \<or> l = LevelBasicPromise \<or>
     l = LevelBasicSatisfaction \<or> l = LevelNoNegativeConsequences \<or> l = LevelDelight"

type_synonym relation = string

definition RelationTrade :: relation where "RelationTrade = ''trade''"
definition RelationAdjudicationConduct :: relation where "RelationAdjudicationConduct = ''adjudication-conduct''"
definition RelationVerdictSatisfaction :: relation where "RelationVerdictSatisfaction = ''verdict-satisfaction''"

definition validRelation :: "relation \<Rightarrow> bool" where
  "validRelation r \<longleftrightarrow> r = RelationTrade \<or> r = RelationAdjudicationConduct \<or> r = RelationVerdictSatisfaction"

definition Relations :: "relation list" where
  "Relations = [RelationTrade, RelationAdjudicationConduct, RelationVerdictSatisfaction]"

section \<open>Assessments and answers\<close>

record assessment =
  as_Assessor :: member_id
  as_Subject :: member_id
  as_Exchange :: b32
  as_Relation :: relation
  as_Category :: string
  as_Level :: level
  as_CommentHash :: b32
  as_IssuedAt :: gotime
  as_Signature :: bytes

definition Assessment_CanonicalBytes :: "crypto \<Rightarrow> assessment \<Rightarrow> bytes" where
  "Assessment_CanonicalBytes c a =
     canon_sum c domainAssessment
       [CString (as_Assessor a), CString (as_Subject a), CBytes (b32_bytes (as_Exchange a)),
        CString (as_Relation a), CString (as_Category a), CInt64 (scast (as_Level a)),
        CBytes (b32_bytes (as_CommentHash a)), CTime (as_IssuedAt a)]"

definition Assessment_ID :: "crypto \<Rightarrow> assessment \<Rightarrow> b32" where
  "Assessment_ID c a =
     sha256 c (canon_sum c domainAssessmentID [CBytes (Assessment_CanonicalBytes c a), CBytes (as_Signature a)])"

definition Assessment_Sign :: "crypto \<Rightarrow> bytes \<Rightarrow> assessment \<Rightarrow> assessment option" where
  "Assessment_Sign c priv a =
     map_option (\<lambda>sig. a\<lparr>as_Signature := sig\<rparr>) (ed25519_Sign c priv (Assessment_CanonicalBytes c a))"

text \<open>\<open>None\<close> is the panic of \<open>ed25519.Verify\<close> on a key of the wrong length.\<close>

definition Assessment_Verify :: "crypto \<Rightarrow> assessment \<Rightarrow> bytes \<Rightarrow> bool option" where
  "Assessment_Verify c a pub =
     (if length (as_Signature a) \<noteq> SignatureSize then Some False
      else ed25519_Verify c pub (Assessment_CanonicalBytes c a) (as_Signature a))"

record answer =
  an_Assessment :: b32
  an_Answerer :: member_id
  an_AnswerHash :: b32
  an_IssuedAt :: gotime
  an_Signature :: bytes

definition Answer_CanonicalBytes :: "crypto \<Rightarrow> answer \<Rightarrow> bytes" where
  "Answer_CanonicalBytes c an =
     canon_sum c domainAnswer
       [CBytes (b32_bytes (an_Assessment an)), CString (an_Answerer an), CBytes (b32_bytes (an_AnswerHash an)),
        CTime (an_IssuedAt an)]"

definition Answer_Sign :: "crypto \<Rightarrow> bytes \<Rightarrow> answer \<Rightarrow> answer option" where
  "Answer_Sign c priv an =
     map_option (\<lambda>sig. an\<lparr>an_Signature := sig\<rparr>) (ed25519_Sign c priv (Answer_CanonicalBytes c an))"

definition Answer_Verify :: "crypto \<Rightarrow> answer \<Rightarrow> bytes \<Rightarrow> bool option" where
  "Answer_Verify c an pub =
     (if length (an_Signature an) \<noteq> SignatureSize then Some False
      else ed25519_Verify c pub (Answer_CanonicalBytes c an) (an_Signature an))"

section \<open>The store\<close>

text \<open>\<open>Admitted\<close> and \<open>AdmittedAnswer\<close> wrap a verified assessment or answer; their accessors copy it.\<close>

datatype cov_admitted = Adm assessment
datatype admitted_answer = AdmAnswer answer

fun Admitted_Assessment :: "cov_admitted \<Rightarrow> assessment" where
  "Admitted_Assessment (Adm a) = a\<lparr>as_Signature := map id (as_Signature a)\<rparr>"

fun AdmittedAnswer_Answer :: "admitted_answer \<Rightarrow> answer" where
  "AdmittedAnswer_Answer (AdmAnswer an) = an\<lparr>an_Signature := map id (an_Signature an)\<rparr>"

definition verdict_key :: "assessment \<Rightarrow> string" where
  "verdict_key a = as_Assessor a @ [CHR 0x00] @ str_of_bytes (b32_bytes (as_Exchange a)) @ [CHR 0x00] @
     as_Relation a @ [CHR 0x00] @ as_Category a"

record cov_store =
  cv_seen :: "string set"
  cv_bySubject :: "member_id \<rightharpoonup> cov_admitted list"
  cv_byID :: "b32 \<rightharpoonup> cov_admitted"
  cv_answers :: "b32 \<rightharpoonup> admitted_answer"

definition CovStore_New :: cov_store where
  "CovStore_New = \<lparr>cv_seen = {}, cv_bySubject = Map.empty, cv_byID = Map.empty, cv_answers = Map.empty\<rparr>"

definition CovStore_Append :: "crypto \<Rightarrow> cov_store \<Rightarrow> cov_admitted \<Rightarrow> covenant_error + cov_store" where
  "CovStore_Append c s ad =
     (let a = Admitted_Assessment ad in
      if as_Assessor a = '''' then Inl (CovInvalid ZeroAdmitted)
      else let key = verdict_key a in
        if key \<in> cv_seen s then Inl CovDuplicate
        else Inr (s\<lparr>cv_seen := insert key (cv_seen s),
                    cv_bySubject := (cv_bySubject s)(as_Subject a \<mapsto> map_get (cv_bySubject s) (as_Subject a) [] @ [ad]),
                    cv_byID := (cv_byID s)(Assessment_ID c a \<mapsto> ad)\<rparr>))"

definition CovStore_ByID :: "cov_store \<Rightarrow> b32 \<Rightarrow> cov_admitted option" where
  "CovStore_ByID s i = cv_byID s i"

definition CovStore_AppendAnswer :: "cov_store \<Rightarrow> admitted_answer \<Rightarrow> covenant_error + cov_store" where
  "CovStore_AppendAnswer s aa =
     (let an = AdmittedAnswer_Answer aa in
      if an_Answerer an = '''' then Inl (CovInvalid ZeroAdmitted)
      else if cv_answers s (an_Assessment an) \<noteq> None then Inl CovDuplicate
      else Inr (s\<lparr>cv_answers := (cv_answers s)(an_Assessment an \<mapsto> aa)\<rparr>))"

definition CovStore_AnswerFor :: "cov_store \<Rightarrow> b32 \<Rightarrow> admitted_answer option" where
  "CovStore_AnswerFor s i = cv_answers s i"

definition CovStore_BySubject :: "cov_store \<Rightarrow> member_id \<Rightarrow> cov_admitted list" where
  "CovStore_BySubject s subject = map_get (cv_bySubject s) subject []"

section \<open>Distributions and standing\<close>

record distribution =
  di_counts :: "level \<rightharpoonup> int"
  di_total :: int

definition zeroDistribution :: distribution where
  "zeroDistribution = \<lparr>di_counts = Map.empty, di_total = 0\<rparr>"

definition Distribution_Count :: "distribution \<Rightarrow> level \<Rightarrow> int" where
  "Distribution_Count d l = map_get (di_counts d) l 0"

definition Distribution_Total :: "distribution \<Rightarrow> int" where
  "Distribution_Total d = di_total d"

record relation_standing =
  rs_byCategory :: "string \<rightharpoonup> distribution"
  rs_overall :: distribution

definition zeroRelationStanding :: relation_standing where
  "zeroRelationStanding = \<lparr>rs_byCategory = Map.empty, rs_overall = zeroDistribution\<rparr>"

definition RelationStanding_Category :: "relation_standing \<Rightarrow> string \<Rightarrow> distribution" where
  "RelationStanding_Category rs name = map_get (rs_byCategory rs) name zeroDistribution"

definition RelationStanding_Overall :: "relation_standing \<Rightarrow> distribution" where
  "RelationStanding_Overall rs = rs_overall rs"

definition RelationStanding_Total :: "relation_standing \<Rightarrow> int" where
  "RelationStanding_Total rs = Distribution_Total (rs_overall rs)"

definition RelationStanding_Harm :: "relation_standing \<Rightarrow> int" where
  "RelationStanding_Harm rs = Distribution_Count (rs_overall rs) LevelNoTrust"

type_synonym standing = "relation \<rightharpoonup> relation_standing"

definition Standing_Relation :: "standing \<Rightarrow> relation \<Rightarrow> relation_standing" where
  "Standing_Relation s r = map_get s r zeroRelationStanding"

definition bump :: "distribution \<Rightarrow> level \<Rightarrow> distribution" where
  "bump d l = d\<lparr>di_counts := (di_counts d)(l \<mapsto> map_get (di_counts d) l 0 + 1), di_total := di_total d + 1\<rparr>"

text \<open>One turn of the loop of \<open>Book.Standing\<close>.\<close>

definition standing_step ::
  "member_id \<Rightarrow> standing \<times> string set \<Rightarrow> cov_admitted \<Rightarrow> covenant_error + standing \<times> string set" where
  "standing_step subject st ad =
     (let (s, seen) = st; a = Admitted_Assessment ad in
      if as_Subject a \<noteq> subject then Inl CovStoreViolation
      else let key = verdict_key a in
        if key \<in> seen then Inr (s, seen)
        else
          let rs = map_get s (as_Relation a) zeroRelationStanding;
              d = map_get (rs_byCategory rs) (as_Category a) zeroDistribution;
              rs' = rs\<lparr>rs_byCategory := (rs_byCategory rs)(as_Category a \<mapsto> bump d (as_Level a)),
                       rs_overall := bump (rs_overall rs) (as_Level a)\<rparr>
          in Inr (s(as_Relation a \<mapsto> rs'), insert key seen))"

definition Standing_over :: "member_id \<Rightarrow> cov_admitted list \<Rightarrow> covenant_error + standing" where
  "Standing_over subject ads =
     (if \<not> validMemberID subject then Inl (CovInvalid BadSubject)
      else case run_all (standing_step subject) (Map.empty, {}) ads of Inl e \<Rightarrow> Inl e | Inr (s, seen) \<Rightarrow> Inr s)"

section \<open>The book\<close>

definition lbtasDefaultCategories :: "string list" where
  "lbtasDefaultCategories = [''reliability'', ''usability'', ''performance'', ''support'']"

record book =
  bk_platform :: string
  bk_categories :: "string set"
  bk_directory :: "member_id \<Rightarrow> bytes option"
  bk_sealed :: "b32 \<Rightarrow> member_id \<Rightarrow> member_id \<Rightarrow> bool"
  bk_adjudicated :: "b32 \<Rightarrow> member_id \<Rightarrow> member_id \<Rightarrow> bool"

fun category_set :: "string set \<Rightarrow> string list \<Rightarrow> covenant_error + string set" where
  "category_set seen [] = Inr seen"
| "category_set seen (cat # cats) =
     (if cat = '''' then Inl CovEmptyCategory
      else if cat \<in> seen then Inl (CovDuplicateCategory cat)
      else category_set (insert cat seen) cats)"

text \<open>\<open>NewBook\<close>; the anchors are the pair of predicates \<open>Sealed\<close> and \<open>Adjudicated\<close>.\<close>

definition NewBook ::
  "string \<Rightarrow> string list \<Rightarrow> (member_id \<Rightarrow> bytes option) option
     \<Rightarrow> ((b32 \<Rightarrow> member_id \<Rightarrow> member_id \<Rightarrow> bool) \<times> (b32 \<Rightarrow> member_id \<Rightarrow> member_id \<Rightarrow> bool)) option
     \<Rightarrow> cov_store option \<Rightarrow> covenant_error + book" where
  "NewBook platform categories directory anchors store =
     (if platform = '''' then Inl CovEmptyPlatform
      else case directory of None \<Rightarrow> Inl CovNilDirectory | Some dir \<Rightarrow>
      case anchors of None \<Rightarrow> Inl CovNilAnchors | Some (sealed, adjudicated) \<Rightarrow>
      case store of None \<Rightarrow> Inl CovNilStore | Some _ \<Rightarrow>
      case category_set {} (if categories = [] then lbtasDefaultCategories else categories) of
        Inl e \<Rightarrow> Inl e
      | Inr cats \<Rightarrow> Inr \<lparr>bk_platform = platform, bk_categories = cats, bk_directory = dir,
                          bk_sealed = sealed, bk_adjudicated = adjudicated\<rparr>)"

definition Book_Record :: "crypto \<Rightarrow> book \<Rightarrow> cov_store \<Rightarrow> assessment \<Rightarrow> covenant_error + cov_store" where
  "Book_Record c b s a =
     (if \<not> validMemberID (as_Assessor a) then Inl (CovInvalid BadAssessor)
      else if \<not> validMemberID (as_Subject a) then Inl (CovInvalid BadSubject)
      else if as_Assessor a = as_Subject a then Inl (CovInvalid SelfAssessment)
      else if as_Exchange a = 0 then Inl (CovInvalid ZeroExchange)
      else if \<not> validRelation (as_Relation a) then Inl (CovInvalid BadRelation)
      else if \<not> validLevel (as_Level a) then Inl (CovInvalid BadLevel)
      else if as_Category a \<notin> bk_categories b then Inl (CovInvalid BadCategory)
      else if as_Level a = LevelNoTrust \<and> as_CommentHash a = 0 then Inl (CovInvalid NoTrustWithoutComment)
      else if as_IssuedAt a = zeroTime then Inl (CovInvalid ZeroIssuedAt)
      else case bk_directory b (as_Assessor a) of None \<Rightarrow> Inl (CovInvalid UnknownAssessorKey) | Some pub \<Rightarrow>
        if length pub \<noteq> PublicKeySize then Inl (CovInvalid AssessorKeyLength)
        else if MemberIDFor c (bk_platform b) pub \<noteq> as_Assessor a then Inl (CovInvalid AssessorKeyMismatch)
        else case Assessment_Verify c a pub of None \<Rightarrow> Inl CovPanic | Some verified \<Rightarrow>
          if \<not> verified then Inl (CovInvalid BadSignature)
          else case bk_directory b (as_Subject a) of None \<Rightarrow> Inl (CovInvalid UnknownSubjectKey) | Some subjectPub \<Rightarrow>
            if length subjectPub \<noteq> PublicKeySize then Inl (CovInvalid SubjectKeyLength)
            else if MemberIDFor c (bk_platform b) subjectPub \<noteq> as_Subject a then Inl (CovInvalid SubjectKeyMismatch)
            else if as_Relation a = RelationTrade \<and> \<not> bk_sealed b (as_Exchange a) (as_Assessor a) (as_Subject a)
              then Inl (CovInvalid NotSealedBetween)
            else if as_Relation a \<noteq> RelationTrade \<and> \<not> bk_adjudicated b (as_Exchange a) (as_Assessor a) (as_Subject a)
              then Inl (CovInvalid NotAdjudicatedBy)
            else CovStore_Append c s (Adm (a\<lparr>as_Signature := map id (as_Signature a)\<rparr>)))"

definition Book_Standing :: "cov_store \<Rightarrow> member_id \<Rightarrow> covenant_error + standing" where
  "Book_Standing s subject = Standing_over subject (CovStore_BySubject s subject)"

definition RecordAnswer :: "crypto \<Rightarrow> book \<Rightarrow> cov_store \<Rightarrow> answer \<Rightarrow> covenant_error + cov_store" where
  "RecordAnswer c b s an =
     (if an_Assessment an = 0 then Inl (CovInvalid NoAssessmentNamed)
      else if \<not> validMemberID (an_Answerer an) then Inl (CovInvalid BadAnswerer)
      else if an_AnswerHash an = 0 then Inl (CovInvalid ZeroAnswerHash)
      else if an_IssuedAt an = zeroTime then Inl (CovInvalid ZeroIssuedAt)
      else case CovStore_ByID s (an_Assessment an) of None \<Rightarrow> Inl CovUnknownAssessment | Some ad \<Rightarrow>
        if an_Answerer an \<noteq> as_Subject (Admitted_Assessment ad) then Inl (CovInvalid NotRatedParty)
        else case bk_directory b (an_Answerer an) of None \<Rightarrow> Inl (CovInvalid UnknownAnswererKey) | Some pub \<Rightarrow>
          if length pub \<noteq> PublicKeySize then Inl (CovInvalid AnswererKeyLength)
          else if MemberIDFor c (bk_platform b) pub \<noteq> an_Answerer an then Inl (CovInvalid AnswererKeyMismatch)
          else case Answer_Verify c an pub of None \<Rightarrow> Inl CovPanic | Some verified \<Rightarrow>
            if \<not> verified then Inl (CovInvalid BadSignature)
            else CovStore_AppendAnswer s (AdmAnswer (an\<lparr>an_Signature := map id (an_Signature an)\<rparr>)))"

definition Book_AnswerFor :: "cov_store \<Rightarrow> b32 \<Rightarrow> answer option" where
  "Book_AnswerFor s i = map_option AdmittedAnswer_Answer (CovStore_AnswerFor s i)"

section \<open>What the standing loop counts\<close>

lemma Admitted_Assessment_id [simp]: "Admitted_Assessment (Adm a) = a" "AdmittedAnswer_Answer (AdmAnswer an) = an"
  by simp_all

text \<open>The readings of a standing, and the verdicts that count: the first of each key.\<close>

definition tally :: "standing \<Rightarrow> relation \<Rightarrow> string \<Rightarrow> level \<Rightarrow> int" where
  "tally s r cat l = Distribution_Count (RelationStanding_Category (Standing_Relation s r) cat) l"

definition pooled :: "standing \<Rightarrow> relation \<Rightarrow> level \<Rightarrow> int" where
  "pooled s r l = Distribution_Count (RelationStanding_Overall (Standing_Relation s r)) l"

fun first_keyed :: "string set \<Rightarrow> assessment list \<Rightarrow> assessment list" where
  "first_keyed seen [] = []"
| "first_keyed seen (a # as) =
     (if verdict_key a \<in> seen then first_keyed seen as
      else a # first_keyed (insert (verdict_key a) seen) as)"

text \<open>The reference for it: the first assessment of each (assessor, exchange, relation, category), compared as a tuple.\<close>

definition verdict_tuple :: "assessment \<Rightarrow> member_id \<times> b32 \<times> relation \<times> string" where
  "verdict_tuple a = (as_Assessor a, as_Exchange a, as_Relation a, as_Category a)"

fun first_verdicts :: "(member_id \<times> b32 \<times> relation \<times> string) set \<Rightarrow> assessment list \<Rightarrow> assessment list" where
  "first_verdicts seen [] = []"
| "first_verdicts seen (a # as) =
     (if verdict_tuple a \<in> seen then first_verdicts seen as
      else a # first_verdicts (insert (verdict_tuple a) seen) as)"

definition under :: "relation \<Rightarrow> string \<Rightarrow> level \<Rightarrow> assessment \<Rightarrow> bool" where
  "under r cat l a \<longleftrightarrow> as_Relation a = r \<and> as_Category a = cat \<and> as_Level a = l"

lemma bump_count:
  "Distribution_Count (bump d l) k = Distribution_Count d k + (if l = k then 1 else 0)"
  "Distribution_Total (bump d l) = Distribution_Total d + 1"
  by (simp_all add: bump_def Distribution_Count_def Distribution_Total_def)

lemma category_update:
  "RelationStanding_Category (rs\<lparr>rs_byCategory := (rs_byCategory rs)(k \<mapsto> d), rs_overall := ov\<rparr>) j =
     (if j = k then d else RelationStanding_Category rs j)"
  by (simp add: RelationStanding_Category_def)

lemma standing_step_counts:
  assumes "standing_step subject (s, seen) ad = Inr (s', seen')" and "verdict_key (Admitted_Assessment ad) \<notin> seen"
  defines "a \<equiv> Admitted_Assessment ad"
  shows "tally s' r cat l = tally s r cat l + (if under r cat l a then 1 else 0)"
    and "pooled s' r l = pooled s r l + (if as_Relation a = r \<and> as_Level a = l then 1 else 0)"
    and "RelationStanding_Total (Standing_Relation s' r) = RelationStanding_Total (Standing_Relation s r) + (if as_Relation a = r then 1 else 0)"
    and "seen' = insert (verdict_key a) seen"
proof -
  let ?rs = "Standing_Relation s (as_Relation a)"
  let ?rs' = "?rs\<lparr>rs_byCategory := (rs_byCategory ?rs)(as_Category a \<mapsto> bump (RelationStanding_Category ?rs (as_Category a)) (as_Level a)),
      rs_overall := bump (rs_overall ?rs) (as_Level a)\<rparr>"
  have s': "s' = s(as_Relation a \<mapsto> ?rs')"
    using assms(1,2)
    by (auto simp: standing_step_def Let_def a_def Standing_Relation_def RelationStanding_Category_def split: if_splits)
  show "seen' = insert (verdict_key a) seen"
    using assms(1,2) by (auto simp: standing_step_def Let_def a_def split: if_splits)
  have rel: "Standing_Relation s' r = (if r = as_Relation a then ?rs' else Standing_Relation s r)"
    by (simp add: s' Standing_Relation_def)
  show "tally s' r cat l = tally s r cat l + (if under r cat l a then 1 else 0)"
    by (simp add: tally_def rel category_update bump_count under_def)
  show "pooled s' r l = pooled s r l + (if as_Relation a = r \<and> as_Level a = l then 1 else 0)"
    by (simp add: pooled_def rel RelationStanding_Overall_def bump_count)
  show "RelationStanding_Total (Standing_Relation s' r) = RelationStanding_Total (Standing_Relation s r) + (if as_Relation a = r then 1 else 0)"
    by (simp add: RelationStanding_Total_def rel bump_count)
qed

lemma standing_step_seen:
  "standing_step subject (s, seen) ad = Inr (s', seen') \<Longrightarrow> verdict_key (Admitted_Assessment ad) \<in> seen \<Longrightarrow> s' = s \<and> seen' = seen"
  by (auto simp: standing_step_def Let_def split: if_splits)

lemma standing_step_total: "as_Subject (Admitted_Assessment ad) = subject \<Longrightarrow> \<exists>s' seen'. standing_step subject (s, seen) ad = Inr (s', seen')"
  by (auto simp: standing_step_def Let_def)

lemma standing_run:
  assumes "\<forall>ad \<in> set ads. as_Subject (Admitted_Assessment ad) = subject"
  shows "\<exists>s' seen'. run_all (standing_step subject) (s, seen) ads = Inr (s', seen') \<and>
    (\<forall>r cat l. tally s' r cat l = tally s r cat l +
       int (length (filter (under r cat l) (first_keyed seen (map Admitted_Assessment ads))))) \<and>
    (\<forall>r l. pooled s' r l = pooled s r l +
       int (length (filter (\<lambda>a. as_Relation a = r \<and> as_Level a = l) (first_keyed seen (map Admitted_Assessment ads))))) \<and>
    (\<forall>r. RelationStanding_Total (Standing_Relation s' r) = RelationStanding_Total (Standing_Relation s r) +
       int (length (filter (\<lambda>a. as_Relation a = r) (first_keyed seen (map Admitted_Assessment ads)))))"
  using assms
proof (induction ads arbitrary: s seen)
  case Nil
  then show ?case by simp
next
  case (Cons ad ads)
  obtain s1 seen1 where st: "standing_step subject (s, seen) ad = Inr (s1, seen1)"
    using standing_step_total [of ad subject s seen] Cons.prems by auto
  have rest: "\<forall>ad \<in> set ads. as_Subject (Admitted_Assessment ad) = subject" using Cons.prems by simp
  note IH = Cons.IH [OF rest, of s1 seen1]
  show ?case
  proof (cases "verdict_key (Admitted_Assessment ad) \<in> seen")
    case True
    with IH standing_step_seen [OF st True] st show ?thesis by simp
  next
    case False
    note c = standing_step_counts [OF st False]
    from IH obtain s' seen' where run: "run_all (standing_step subject) (s1, seen1) ads = Inr (s', seen')"
      "\<And>r cat l. tally s' r cat l = tally s1 r cat l + int (length (filter (under r cat l) (first_keyed seen1 (map Admitted_Assessment ads))))"
      "\<And>r l. pooled s' r l = pooled s1 r l + int (length (filter (\<lambda>a. as_Relation a = r \<and> as_Level a = l) (first_keyed seen1 (map Admitted_Assessment ads))))"
      "\<And>r. RelationStanding_Total (Standing_Relation s' r) = RelationStanding_Total (Standing_Relation s1 r) +
         int (length (filter (\<lambda>a. as_Relation a = r) (first_keyed seen1 (map Admitted_Assessment ads))))"
      by blast
    show ?thesis
      using run(1) st False run(2-4) c by (intro exI [of _ s'] exI [of _ seen']) simp
  qed
qed

lemma standing_run_violation:
  "\<exists>ad \<in> set ads. as_Subject (Admitted_Assessment ad) \<noteq> subject \<Longrightarrow>
     run_all (standing_step subject) st ads = Inl CovStoreViolation"
proof (induction ads arbitrary: st)
  case (Cons ad ads)
  show ?case
  proof (cases "as_Subject (Admitted_Assessment ad) = subject")
    case True
    then show ?thesis using Cons standing_step_total [OF True, of "fst st" "snd st"] by auto
  next
    case False
    then show ?thesis by (cases st) (simp add: standing_step_def Let_def)
  qed
qed simp

lemma empty_standing [simp]:
  "tally Map.empty r cat l = 0" "pooled Map.empty r l = 0" "RelationStanding_Total (Standing_Relation Map.empty r) = 0"
  by (simp_all add: tally_def pooled_def Standing_Relation_def RelationStanding_Category_def RelationStanding_Overall_def
      RelationStanding_Total_def zeroRelationStanding_def zeroDistribution_def Distribution_Count_def Distribution_Total_def)

section \<open>Keys\<close>

lemma valid_relation_sep:
  assumes "validRelation r" "validRelation r'"
  shows "r @ CHR 0x00 # cat = r' @ CHR 0x00 # cat' \<longleftrightarrow> r = r' \<and> cat = cat'"
  using assms
  by (auto simp: validRelation_def RelationTrade_def RelationAdjudicationConduct_def RelationVerdictSatisfaction_def)

lemma verdict_key_inject:
  assumes "length (as_Assessor a) = 64" "length (as_Assessor a') = 64" "validRelation (as_Relation a)" "validRelation (as_Relation a')"
  shows "verdict_key a = verdict_key a' \<longleftrightarrow> as_Assessor a = as_Assessor a' \<and> as_Exchange a = as_Exchange a' \<and>
    as_Relation a = as_Relation a' \<and> as_Category a = as_Category a'"
proof -
  have "verdict_key a = verdict_key a' \<longleftrightarrow> as_Assessor a = as_Assessor a' \<and> as_Exchange a = as_Exchange a' \<and>
      as_Relation a @ CHR 0x00 # as_Category a = as_Relation a' @ CHR 0x00 # as_Category a'"
    using assms(1,2) by (simp add: verdict_key_def)
  then show ?thesis using valid_relation_sep [OF assms(3,4)] by simp
qed

text \<open>On assessments by minted members in known relations, the byte key is as good as the tuple.\<close>

lemma first_keyed_verdicts:
  "\<forall>a \<in> set as. validMemberID (as_Assessor a) \<and> validRelation (as_Relation a) \<Longrightarrow>
     \<forall>a \<in> set as. verdict_key a \<in> keys \<longleftrightarrow> verdict_tuple a \<in> seen \<Longrightarrow> first_keyed keys as = first_verdicts seen as"
proof (induction as arbitrary: keys seen)
  case (Cons a as)
  have "verdict_key x = verdict_key a \<longleftrightarrow> verdict_tuple x = verdict_tuple a" if "x \<in> set as" for x
    using Cons.prems(1) that verdict_key_inject [of x a] by (auto simp: verdict_tuple_def validMemberID_def)
  then have "\<forall>x \<in> set as. verdict_key x \<in> insert (verdict_key a) keys \<longleftrightarrow> verdict_tuple x \<in> insert (verdict_tuple a) seen"
    using Cons.prems(2) by simp
  then show ?case using Cons.IH Cons.prems by simp
qed simp

section \<open>The store over time\<close>

datatype cov_call = CallRecord assessment | CallAnswer answer

definition cov_do :: "crypto \<Rightarrow> book \<Rightarrow> cov_store \<Rightarrow> cov_call \<Rightarrow> covenant_error + cov_store" where
  "cov_do c b s call = (case call of CallRecord a \<Rightarrow> Book_Record c b s a | CallAnswer an \<Rightarrow> RecordAnswer c b s an)"

definition verdicts :: "cov_store \<Rightarrow> assessment set" where
  "verdicts s = {a. \<exists>subject. Adm a \<in> set (CovStore_BySubject s subject)}"

definition cov_inv :: "cov_store \<Rightarrow> bool" where
  "cov_inv s \<longleftrightarrow> cv_seen s = verdict_key ` verdicts s \<and>
     (\<forall>subject. \<forall>ad \<in> set (CovStore_BySubject s subject). as_Subject (Admitted_Assessment ad) = subject) \<and>
     (\<forall>a \<in> verdicts s. validMemberID (as_Assessor a) \<and> validRelation (as_Relation a)) \<and>
     (\<forall>subject. distinct (map (verdict_key \<circ> Admitted_Assessment) (CovStore_BySubject s subject)))"

lemma cov_inv_New: "cov_inv CovStore_New"
  by (simp add: cov_inv_def verdicts_def CovStore_New_def CovStore_BySubject_def)

text \<open>What the gates of \<open>Record\<close> require of an assessment, the duplicate check apart.\<close>

definition record_gates :: "crypto \<Rightarrow> book \<Rightarrow> assessment \<Rightarrow> bool" where
  "record_gates c b a \<longleftrightarrow>
     validMemberID (as_Assessor a) \<and> validMemberID (as_Subject a) \<and> as_Assessor a \<noteq> as_Subject a \<and>
     as_Exchange a \<noteq> 0 \<and> validRelation (as_Relation a) \<and> validLevel (as_Level a) \<and> as_Category a \<in> bk_categories b \<and>
     (as_Level a = LevelNoTrust \<longrightarrow> as_CommentHash a \<noteq> 0) \<and> as_IssuedAt a \<noteq> zeroTime \<and>
     (\<exists>pub. bk_directory b (as_Assessor a) = Some pub \<and> MemberIDFor c (bk_platform b) pub = as_Assessor a \<and>
        length pub = PublicKeySize \<and> length (as_Signature a) = SignatureSize \<and>
        ed_verify c pub (Assessment_CanonicalBytes c a) (as_Signature a)) \<and>
     (\<exists>pub. bk_directory b (as_Subject a) = Some pub \<and> length pub = PublicKeySize \<and>
        MemberIDFor c (bk_platform b) pub = as_Subject a) \<and>
     (if as_Relation a = RelationTrade then bk_sealed b (as_Exchange a) (as_Assessor a) (as_Subject a)
      else bk_adjudicated b (as_Exchange a) (as_Assessor a) (as_Subject a))"

lemma Assessment_Verify_cases:
  "length pub = PublicKeySize \<Longrightarrow> Assessment_Verify c a pub =
     Some (length (as_Signature a) = SignatureSize \<and> ed_verify c pub (Assessment_CanonicalBytes c a) (as_Signature a))"
  by (simp add: Assessment_Verify_def ed25519_Verify_def)

lemma Book_Record_cases:
  "Book_Record c b s a = (if record_gates c b a then CovStore_Append c s (Adm a) else Book_Record c b s a) \<and>
   (\<not> record_gates c b a \<longrightarrow> (\<exists>reason. Book_Record c b s a = Inl (CovInvalid reason)))"
proof (cases "\<exists>pub. bk_directory b (as_Assessor a) = Some pub \<and> length pub = PublicKeySize")
  case True
  then obtain pub where "bk_directory b (as_Assessor a) = Some pub" "length pub = PublicKeySize" by blast
  then show ?thesis
    by (auto simp: Book_Record_def record_gates_def Assessment_Verify_cases split: option.splits)
next
  case False
  then show ?thesis by (auto simp: Book_Record_def record_gates_def split: option.splits)
qed

lemma Book_Record_Inr:
  assumes "Book_Record c b s a = Inr s'"
  shows "record_gates c b a" and "verdict_key a \<notin> cv_seen s"
    and "s' = s\<lparr>cv_seen := insert (verdict_key a) (cv_seen s),
      cv_bySubject := (cv_bySubject s)(as_Subject a \<mapsto> CovStore_BySubject s (as_Subject a) @ [Adm a]),
      cv_byID := (cv_byID s)(Assessment_ID c a \<mapsto> Adm a)\<rparr>"
proof -
  show g: "record_gates c b a" using Book_Record_cases [of c b s a] assms by auto
  then have "CovStore_Append c s (Adm a) = Inr s'" using Book_Record_cases [of c b s a] assms by simp
  then show "verdict_key a \<notin> cv_seen s" and "s' = s\<lparr>cv_seen := insert (verdict_key a) (cv_seen s),
      cv_bySubject := (cv_bySubject s)(as_Subject a \<mapsto> CovStore_BySubject s (as_Subject a) @ [Adm a]),
      cv_byID := (cv_byID s)(Assessment_ID c a \<mapsto> Adm a)\<rparr>"
    by (auto simp: CovStore_Append_def Let_def CovStore_BySubject_def split: if_splits)
qed

lemma record_gates_nonempty: "record_gates c b a \<Longrightarrow> as_Assessor a \<noteq> ''''"
  by (auto simp: record_gates_def validMemberID_def)

lemma RecordAnswer_Inr:
  assumes "RecordAnswer c b s an = Inr s'"
  shows "s' = s\<lparr>cv_answers := (cv_answers s)(an_Assessment an \<mapsto> AdmAnswer an)\<rparr>" and "cv_answers s (an_Assessment an) = None"
    and "\<exists>ad pub. cv_byID s (an_Assessment an) = Some ad \<and> as_Subject (Admitted_Assessment ad) = an_Answerer an \<and>
      bk_directory b (an_Answerer an) = Some pub \<and> MemberIDFor c (bk_platform b) pub = an_Answerer an \<and>
      length pub = PublicKeySize \<and> Answer_Verify c an pub = Some True"
  using assms
  by (auto simp: RecordAnswer_def CovStore_AppendAnswer_def CovStore_ByID_def Let_def split: if_splits option.splits)

lemma record_by_subject:
  assumes "Book_Record c b s a = Inr s'"
  shows "CovStore_BySubject s' subject = CovStore_BySubject s subject @ (if subject = as_Subject a then [Adm a] else [])"
  using Book_Record_Inr(3) [OF assms] by (simp add: CovStore_BySubject_def)

lemma cov_step_inv:
  assumes "cov_inv s" and "cov_do c b s call = Inr s'"
  shows "cov_inv s'"
proof (cases call)
  case (CallAnswer an)
  then have "cv_bySubject s' = cv_bySubject s" "cv_seen s' = cv_seen s"
    using assms(2) RecordAnswer_Inr(1) [of c b s an s'] by (simp_all add: cov_do_def)
  then have "CovStore_BySubject s' = CovStore_BySubject s" "cv_seen s' = cv_seen s" by (simp_all add: CovStore_BySubject_def [abs_def])
  then show ?thesis using assms(1) by (simp add: cov_inv_def verdicts_def)
next
  case (CallRecord a)
  then have rec: "Book_Record c b s a = Inr s'" using assms(2) by (simp add: cov_do_def)
  note r = Book_Record_Inr [OF rec] and by' = record_by_subject [OF rec]
  have v: "verdicts s' = insert a (verdicts s)" by (auto simp: verdicts_def by')
  have seen: "cv_seen s' = insert (verdict_key a) (cv_seen s)" using r(3) by simp
  note I = assms(1) [unfolded cov_inv_def]
  have notin: "verdict_key a \<notin> verdict_key ` verdicts s" using I r(2) by simp
  have fresh: "verdict_key a \<notin> set (map (verdict_key \<circ> Admitted_Assessment) (CovStore_BySubject s (as_Subject a)))"
  proof
    assume "verdict_key a \<in> set (map (verdict_key \<circ> Admitted_Assessment) (CovStore_BySubject s (as_Subject a)))"
    then obtain ad where ad: "ad \<in> set (CovStore_BySubject s (as_Subject a))" "verdict_key a = verdict_key (Admitted_Assessment ad)"
      by auto
    obtain x where "ad = Adm x" by (cases ad)
    with ad have "x \<in> verdicts s" "verdict_key a = verdict_key x" by (auto simp: verdicts_def)
    with notin show False by blast
  qed
  show ?thesis
    unfolding cov_inv_def
  proof (intro conjI allI ballI)
    show "cv_seen s' = verdict_key ` verdicts s'" using I seen v by simp
  next
    fix subject ad assume "ad \<in> set (CovStore_BySubject s' subject)"
    then show "as_Subject (Admitted_Assessment ad) = subject" using I by (auto simp: by' split: if_splits)
  next
    fix x assume "x \<in> verdicts s'"
    then show "validMemberID (as_Assessor x)" "validRelation (as_Relation x)"
      using I r(1) by (auto simp: v record_gates_def)
  next
    fix subject
    show "distinct (map (verdict_key \<circ> Admitted_Assessment) (CovStore_BySubject s' subject))"
      using I fresh by (auto simp: by')
  qed
qed

lemma cov_reach_inv: "admits (cov_do c b) s t \<Longrightarrow> cov_inv s \<Longrightarrow> cov_inv t"
  by (induction rule: admits.induct) (auto dest: cov_step_inv)

lemma first_keyed_distinct:
  "distinct (map verdict_key as) \<Longrightarrow> set (map verdict_key as) \<inter> seen = {} \<Longrightarrow> first_keyed seen as = as"
  by (induction as arbitrary: seen) auto

lemma Standing_over_counts:
  assumes "validMemberID subject" "\<forall>ad \<in> set ads. as_Subject (Admitted_Assessment ad) = subject"
  shows "\<exists>st. Standing_over subject ads = Inr st \<and>
    (\<forall>r cat l. tally st r cat l = int (length (filter (under r cat l) (first_keyed {} (map Admitted_Assessment ads))))) \<and>
    (\<forall>r l. pooled st r l = int (length (filter (\<lambda>a. as_Relation a = r \<and> as_Level a = l) (first_keyed {} (map Admitted_Assessment ads))))) \<and>
    (\<forall>r. RelationStanding_Total (Standing_Relation st r) =
       int (length (filter (\<lambda>a. as_Relation a = r) (first_keyed {} (map Admitted_Assessment ads)))))"
  using standing_run [OF assms(2), of Map.empty "{}"] assms(1) by (auto simp: Standing_over_def)

section \<open>Minted member identifiers\<close>

lemma MemberIDFor_valid: "validMemberID (MemberIDFor c platform pub)"
proof -
  have "\<not> ((of_char ch < (48 :: nat) \<or> of_char ch > (57 :: nat)) \<and> (of_char ch < (97 :: nat) \<or> of_char ch > (102 :: nat)))"
    if "ch \<in> set (hex_EncodeToString bs)" for ch bs
  proof -
    obtain n where "ch = hex_digit n" using \<open>ch \<in> set (hex_EncodeToString bs)\<close> by (auto simp: hex_EncodeToString_def)
    then show ?thesis using hex_digit_valid [of n] by auto
  qed
  then show ?thesis by (simp add: validMemberID_def MemberIDFor_def length_hex Let_def)
qed

lemma MemberIDFor_inject:
  "MemberIDFor c p pub = MemberIDFor c p' pub' \<longleftrightarrow>
     sha256 c (canon_sum c domainMember [CString p, CBytes pub]) = sha256 c (canon_sum c domainMember [CString p', CBytes pub'])"
  by (simp add: MemberIDFor_def hex_inject)

section \<open>A concrete book\<close>

definition sample_member :: "byte \<Rightarrow> member_id" where
  "sample_member b = MemberIDFor sample_crypto ''p'' (replicate 32 b)"

lemma sample_member_distinct: "sample_member 1 \<noteq> sample_member 2"
  by (simp add: sample_member_def MemberIDFor_inject sample_eval domainMember_def)

lemma sample_member_valid: "validMemberID (sample_member b)"
  by (simp add: sample_member_def MemberIDFor_valid)

definition sample_book :: book where
  "sample_book = \<lparr>bk_platform = ''p'', bk_categories = {''support''},
     bk_directory = [sample_member 1 \<mapsto> replicate 32 1, sample_member 2 \<mapsto> replicate 32 2],
     bk_sealed = (\<lambda>x a b. True), bk_adjudicated = (\<lambda>x a b. True)\<rparr>"

definition sample_assessment_draft :: "relation \<Rightarrow> level \<Rightarrow> assessment" where
  "sample_assessment_draft r l = \<lparr>as_Assessor = sample_member 1, as_Subject = sample_member 2, as_Exchange = 1,
     as_Relation = r, as_Category = ''support'', as_Level = l, as_CommentHash = 5, as_IssuedAt = 0, as_Signature = []\<rparr>"

definition sample_assessment :: "relation \<Rightarrow> level \<Rightarrow> assessment" where
  "sample_assessment r l = sample_assessment_draft r l\<lparr>as_Signature :=
     ed_sign sample_crypto (sample_priv 1) (Assessment_CanonicalBytes sample_crypto (sample_assessment_draft r l))\<rparr>"

lemma sample_assessment_sel [simp]:
  "as_Assessor (sample_assessment r l) = sample_member 1" "as_Subject (sample_assessment r l) = sample_member 2"
  "as_Exchange (sample_assessment r l) = 1" "as_Relation (sample_assessment r l) = r"
  "as_Category (sample_assessment r l) = ''support''" "as_Level (sample_assessment r l) = l"
  "as_CommentHash (sample_assessment r l) = 5" "as_IssuedAt (sample_assessment r l) = 0"
  by (simp_all add: sample_assessment_def sample_assessment_draft_def)

lemma sample_gates:
  assumes "validRelation r" "validLevel l"
  shows "record_gates sample_crypto sample_book (sample_assessment r l)"
proof -
  have b: "Assessment_CanonicalBytes sample_crypto (sample_assessment r l) = Assessment_CanonicalBytes sample_crypto (sample_assessment_draft r l)"
    by (simp add: Assessment_CanonicalBytes_def sample_assessment_def)
  have sig: "as_Signature (sample_assessment r l) = ed_sign sample_crypto (sample_priv 1) (Assessment_CanonicalBytes sample_crypto (sample_assessment_draft r l))"
    by (simp add: sample_assessment_def)
  have pub: "ed_public sample_crypto (sample_priv 1) = replicate 32 1" by (simp add: sample_crypto_def sample_priv_def)
  have "length (as_Signature (sample_assessment r l)) = SignatureSize"
    "ed_verify sample_crypto (replicate 32 1) (Assessment_CanonicalBytes sample_crypto (sample_assessment r l)) (as_Signature (sample_assessment r l))"
    using sample_keypair [of 1] unfolding b sig keypair_def pub by (blast, blast)
  then show ?thesis
    using assms sample_member_valid sample_member_distinct
    by (simp add: record_gates_def sample_book_def zeroTime_def PublicKeySize_def sample_member_def [symmetric] del: sample_verify)
qed

lemma sample_recorded:
  assumes "validRelation r" "validLevel l"
  shows "\<exists>s. Book_Record sample_crypto sample_book CovStore_New (sample_assessment r l) = Inr s"
proof -
  have "CovStore_Append sample_crypto CovStore_New (Adm (sample_assessment r l)) \<noteq> Inl e" for e
    using record_gates_nonempty [OF sample_gates [OF assms]] by (simp add: CovStore_Append_def CovStore_New_def Let_def)
  then show ?thesis
    using Book_Record_cases [of sample_crypto sample_book CovStore_New "sample_assessment r l"] sample_gates [OF assms]
    by (metis sum.exhaust)
qed

section \<open>Properties\<close>

text \<open>C34: standing is the histogram of distinct verdicts. Whatever list of assessments, by minted members and in known relations as \<open>Record\<close> admits
  them, a store returns for a member, \<open>Standing\<close> fails if one of them is about another member; otherwise each relation, category and
  level counts the first assessment of each tuple of assessor, exchange, relation and category exactly once,
  however often the store repeats it, and the pooled counts and totals of a relation count only that relation.\<close>

theorem Standing_exact:
  assumes "validMemberID subject"
    and "\<forall>ad \<in> set ads. validMemberID (as_Assessor (Admitted_Assessment ad)) \<and> validRelation (as_Relation (Admitted_Assessment ad))"
  shows "((\<exists>ad \<in> set ads. as_Subject (Admitted_Assessment ad) \<noteq> subject) \<longrightarrow> Standing_over subject ads = Inl CovStoreViolation) \<and>
    ((\<forall>ad \<in> set ads. as_Subject (Admitted_Assessment ad) = subject) \<longrightarrow>
      (\<exists>st. Standing_over subject ads = Inr st \<and>
        (\<forall>r cat l. tally st r cat l = int (length (filter (under r cat l) (first_verdicts {} (map Admitted_Assessment ads))))) \<and>
        (\<forall>r l. pooled st r l = int (length (filter (\<lambda>a. as_Relation a = r \<and> as_Level a = l) (first_verdicts {} (map Admitted_Assessment ads))))) \<and>
        (\<forall>r. RelationStanding_Total (Standing_Relation st r) =
           int (length (filter (\<lambda>a. as_Relation a = r) (first_verdicts {} (map Admitted_Assessment ads)))))))"
proof -
  have "first_keyed {} (map Admitted_Assessment ads) = first_verdicts {} (map Admitted_Assessment ads)"
    using assms(2) by (intro first_keyed_verdicts) auto
  then show ?thesis
    using Standing_over_counts [OF assms(1), of ads] standing_run_violation [of ads subject] assms(1) by (auto simp: Standing_over_def)
qed

theorem Standing_exact_witness:
  "\<exists>st. Standing_over (sample_member 2) [Adm (sample_assessment RelationTrade 4), Adm (sample_assessment RelationTrade 4)] = Inr st \<and>
     tally st RelationTrade ''support'' 4 = 1 \<and> pooled st RelationAdjudicationConduct 4 = 0"
proof -
  let ?a = "sample_assessment RelationTrade 4"
  have "\<forall>ad \<in> set [Adm ?a, Adm ?a]. as_Subject (Admitted_Assessment ad) = sample_member 2" by simp
  moreover have valid: "validMemberID (as_Assessor ?a)" "validRelation (as_Relation ?a)" by (simp_all add: sample_member_valid validRelation_def)
  moreover have "RelationTrade \<noteq> RelationAdjudicationConduct" by (simp add: RelationTrade_def RelationAdjudicationConduct_def)
  ultimately show ?thesis
    using Standing_exact [OF sample_member_valid, of "[Adm ?a, Adm ?a]" 2] valid by (auto simp: under_def)
qed

text \<open>What \<open>Record\<close> admits. After any sequence of calls, \<open>Record\<close> never panics whatever the directory answers,
  and admits an assessment exactly when it passes the gates (minted distinct members, sealed or adjudicated
  exchange, closed vocabularies, justified harm, verified signature under the key that mints the assessor) and no
  stored verdict has the same assessor, exchange, relation and category.\<close>

theorem Record_admits_iff:
  assumes "admits (cov_do c b) CovStore_New s"
  shows "((\<exists>s'. Book_Record c b s a = Inr s') \<longleftrightarrow> record_gates c b a \<and>
      \<not> (\<exists>v \<in> verdicts s. as_Assessor v = as_Assessor a \<and> as_Exchange v = as_Exchange a \<and>
           as_Relation v = as_Relation a \<and> as_Category v = as_Category a)) \<and>
    Book_Record c b s a \<noteq> Inl CovPanic"
proof -
  have inv: "cov_inv s" by (rule cov_reach_inv [OF assms cov_inv_New])
  note cases = Book_Record_cases [of c b s a]
  show ?thesis
  proof (cases "record_gates c b a")
    case False
    then show ?thesis using cases by auto
  next
    case True
    have key: "verdict_key v = verdict_key a \<longleftrightarrow> as_Assessor v = as_Assessor a \<and> as_Exchange v = as_Exchange a \<and>
        as_Relation v = as_Relation a \<and> as_Category v = as_Category a" if "v \<in> verdicts s" for v
      using that inv True by (intro verdict_key_inject) (auto simp: cov_inv_def record_gates_def validMemberID_def)
    have "Book_Record c b s a = CovStore_Append c s (Adm a)" using cases True by simp
    also have "\<dots> = (if verdict_key a \<in> verdict_key ` verdicts s then Inl CovDuplicate
        else Inr (s\<lparr>cv_seen := insert (verdict_key a) (cv_seen s),
            cv_bySubject := (cv_bySubject s)(as_Subject a \<mapsto> map_get (cv_bySubject s) (as_Subject a) [] @ [Adm a]),
            cv_byID := (cv_byID s)(Assessment_ID c a \<mapsto> Adm a)\<rparr>))"
      using record_gates_nonempty [OF True] inv by (simp add: CovStore_Append_def Let_def cov_inv_def)
    finally have "(\<exists>s'. Book_Record c b s a = Inr s') \<longleftrightarrow> verdict_key a \<notin> verdict_key ` verdicts s"
      "Book_Record c b s a \<noteq> Inl CovPanic" by simp_all
    moreover have "verdict_key a \<in> verdict_key ` verdicts s \<longleftrightarrow> (\<exists>v \<in> verdicts s. verdict_key v = verdict_key a)"
      by (metis imageE imageI)
    ultimately show ?thesis using True key by simp
  qed
qed

theorem Record_admits_iff_witness:
  "\<exists>s. admits (cov_do sample_crypto sample_book) CovStore_New s \<and> sample_assessment RelationTrade 4 \<in> verdicts s \<and>
     (\<exists>s'. Book_Record sample_crypto sample_book s (sample_assessment RelationVerdictSatisfaction 4) = Inr s') \<and>
     \<not> (\<exists>s'. Book_Record sample_crypto sample_book s (sample_assessment RelationTrade (-1)) = Inr s')"
proof -
  have valid: "validRelation RelationTrade" "validRelation RelationVerdictSatisfaction" "validLevel 4" "validLevel (-1)"
    by (simp_all add: validRelation_def validLevel_def LevelDelight_def LevelNoTrust_def)
  obtain s where s: "Book_Record sample_crypto sample_book CovStore_New (sample_assessment RelationTrade 4) = Inr s"
    using sample_recorded [OF valid(1,3)] by blast
  have reach: "admits (cov_do sample_crypto sample_book) CovStore_New s"
    by (rule run_all_admits [of _ _ "[CallRecord (sample_assessment RelationTrade 4)]"]) (simp add: cov_do_def s)
  have v: "verdicts s = {sample_assessment RelationTrade 4}"
    using record_by_subject [OF s] by (auto simp: verdicts_def CovStore_New_def CovStore_BySubject_def)
  have "RelationTrade \<noteq> RelationVerdictSatisfaction" by (simp add: RelationTrade_def RelationVerdictSatisfaction_def)
  then have "\<exists>s'. Book_Record sample_crypto sample_book s (sample_assessment RelationVerdictSatisfaction 4) = Inr s'"
    using Record_admits_iff [OF reach, of "sample_assessment RelationVerdictSatisfaction 4"] v sample_gates [OF valid(2,3)] by simp
  moreover have "\<not> (\<exists>s'. Book_Record sample_crypto sample_book s (sample_assessment RelationTrade (-1)) = Inr s')"
    using Record_admits_iff [OF reach, of "sample_assessment RelationTrade (-1)"] v by simp
  ultimately show ?thesis using reach v by blast
qed

lemma cov_inv_standing:
  assumes "cov_inv s" and "validMemberID subject"
  shows "\<exists>st. Book_Standing s subject = Inr st \<and>
    (\<forall>r cat l. tally st r cat l = int (length (filter (under r cat l) (map Admitted_Assessment (CovStore_BySubject s subject))))) \<and>
    (\<forall>r l. pooled st r l =
       int (length (filter (\<lambda>a. as_Relation a = r \<and> as_Level a = l) (map Admitted_Assessment (CovStore_BySubject s subject)))))"
proof -
  note I = assms(1) [unfolded cov_inv_def]
  have "first_keyed {} (map Admitted_Assessment (CovStore_BySubject s subject)) = map Admitted_Assessment (CovStore_BySubject s subject)"
    using I by (intro first_keyed_distinct) simp_all
  then show ?thesis
    using Standing_over_counts [OF assms(2), of "CovStore_BySubject s subject"] I unfolding Book_Standing_def by auto
qed

text \<open>A recorded verdict counts once. Whenever \<open>Record\<close> admits an assessment, the rated member's count under that
  relation, category and level grows by one, as does the pooled count of the relation and level, and no other
  count of any member changes; the standing of a minted member is always computable.\<close>

theorem Record_counts_once:
  assumes "admits (cov_do c b) CovStore_New s" and "Book_Record c b s a = Inr s'" and "validMemberID subject"
  shows "\<exists>st st'. Book_Standing s subject = Inr st \<and> Book_Standing s' subject = Inr st' \<and>
    (\<forall>r cat l. tally st' r cat l = tally st r cat l + (if subject = as_Subject a \<and> under r cat l a then 1 else 0)) \<and>
    (\<forall>r l. pooled st' r l = pooled st r l + (if subject = as_Subject a \<and> as_Relation a = r \<and> as_Level a = l then 1 else 0))"
proof -
  have inv: "cov_inv s" by (rule cov_reach_inv [OF assms(1) cov_inv_New])
  have inv': "cov_inv s'" by (rule cov_step_inv [OF inv, of c b "CallRecord a"]) (simp add: cov_do_def assms(2))
  obtain st where st: "Book_Standing s subject = Inr st"
    "\<And>r cat l. tally st r cat l = int (length (filter (under r cat l) (map Admitted_Assessment (CovStore_BySubject s subject))))"
    "\<And>r l. pooled st r l = int (length (filter (\<lambda>a. as_Relation a = r \<and> as_Level a = l) (map Admitted_Assessment (CovStore_BySubject s subject))))"
    using cov_inv_standing [OF inv assms(3)] by blast
  obtain st' where st': "Book_Standing s' subject = Inr st'"
    "\<And>r cat l. tally st' r cat l = int (length (filter (under r cat l) (map Admitted_Assessment (CovStore_BySubject s' subject))))"
    "\<And>r l. pooled st' r l = int (length (filter (\<lambda>a. as_Relation a = r \<and> as_Level a = l) (map Admitted_Assessment (CovStore_BySubject s' subject))))"
    using cov_inv_standing [OF inv' assms(3)] by blast
  show ?thesis
    by (intro exI [of _ st] exI [of _ st'] conjI allI) (simp_all add: st st' record_by_subject [OF assms(2)])
qed

theorem Record_counts_once_witness:
  "\<exists>s st. Book_Record sample_crypto sample_book CovStore_New (sample_assessment RelationTrade 4) = Inr s \<and>
     Book_Standing s (sample_member 2) = Inr st \<and> tally st RelationTrade ''support'' 4 = 1 \<and> tally st RelationTrade ''support'' 3 = 0"
proof -
  let ?a = "sample_assessment RelationTrade 4"
  have "validRelation RelationTrade" "validLevel 4" by (simp_all add: validRelation_def validLevel_def LevelDelight_def)
  then obtain s where s: "Book_Record sample_crypto sample_book CovStore_New ?a = Inr s" using sample_recorded by blast
  have e: "Book_Standing CovStore_New (sample_member 2) = Inr Map.empty"
    by (simp add: Book_Standing_def Standing_over_def sample_member_valid CovStore_BySubject_def CovStore_New_def)
  obtain st' where "Book_Standing s (sample_member 2) = Inr st'"
    "\<forall>r cat l. tally st' r cat l = (if under r cat l ?a then 1 else 0)"
    using Record_counts_once [OF admits_refl s sample_member_valid, of 2] e by auto
  then show ?thesis using s by (auto simp: under_def)
qed

lemma answer_kept:
  assumes "admits (cov_do c b) s t" and "cv_answers s i = Some aa"
  shows "cv_answers t i = Some aa"
  using assms
proof (induction rule: admits.induct)
  case (admits_step s t x t')
  show ?case
  proof (cases x)
    case (CallRecord a)
    then have "cv_answers t' = cv_answers t" using Book_Record_Inr(3) [of c b t a t'] admits_step.hyps(2) by (simp add: cov_do_def)
    then show ?thesis using admits_step by simp
  next
    case (CallAnswer an)
    then show ?thesis
      using RecordAnswer_Inr(1,2) [of c b t an t'] admits_step.hyps(2) admits_step.IH [OF admits_step.prems]
      by (auto simp: cov_do_def)
  qed
qed simp

text \<open>Answers annotate. An answer \<open>RecordAnswer\<close> admits comes from the rated party of a recorded assessment, signed under
  the key that mints it; it changes no member's standing and no stored assessment, is the answer \<open>AnswerFor\<close> returns
  after any later calls, and no second answer to that assessment is ever admitted.\<close>

theorem answers_annotate:
  assumes "RecordAnswer c b s an = Inr s'" and "admits (cov_do c b) s' t"
  shows "(\<exists>ad pub. CovStore_ByID s (an_Assessment an) = Some ad \<and> as_Subject (Admitted_Assessment ad) = an_Answerer an \<and>
        MemberIDFor c (bk_platform b) pub = an_Answerer an \<and> Answer_Verify c an pub = Some True) \<and>
    Book_Standing s' = Book_Standing s \<and> CovStore_ByID s' = CovStore_ByID s \<and> CovStore_BySubject s' = CovStore_BySubject s \<and>
    Book_AnswerFor t (an_Assessment an) = Some an \<and>
    (\<forall>an'. an_Assessment an' = an_Assessment an \<longrightarrow> (\<forall>t'. RecordAnswer c b t an' \<noteq> Inr t'))"
proof -
  note r = RecordAnswer_Inr [OF assms(1)]
  have by': "CovStore_BySubject s' = CovStore_BySubject s" by (simp add: fun_eq_iff CovStore_BySubject_def r(1))
  have kept: "cv_answers t (an_Assessment an) = Some (AdmAnswer an)"
    by (rule answer_kept [OF assms(2)]) (simp add: r(1))
  then have "RecordAnswer c b t an' \<noteq> Inr t'" if "an_Assessment an' = an_Assessment an" for an' t'
    using RecordAnswer_Inr(2) [of c b t an' t'] that by auto
  moreover have "Book_Standing s' = Book_Standing s" by (simp add: fun_eq_iff Book_Standing_def by')
  moreover have "CovStore_ByID s' = CovStore_ByID s" by (simp add: fun_eq_iff CovStore_ByID_def r(1))
  ultimately show ?thesis
    using r(3) kept by' by (auto simp: Book_AnswerFor_def CovStore_AnswerFor_def CovStore_ByID_def)
qed

definition sample_answer :: answer where
  "sample_answer = (let an = \<lparr>an_Assessment = Assessment_ID sample_crypto (sample_assessment RelationTrade 4), an_Answerer = sample_member 2,
     an_AnswerHash = 9, an_IssuedAt = 0, an_Signature = []\<rparr>
   in an\<lparr>an_Signature := ed_sign sample_crypto (sample_priv 2) (Answer_CanonicalBytes sample_crypto an)\<rparr>)"

lemma sample_id_nonzero: "Assessment_ID sample_crypto (sample_assessment RelationTrade 4) \<noteq> 0"
proof -
  have m: "length (sample_member b) = 64" for b using sample_member_valid [of b] by (simp add: validMemberID_def)
  have "length (Assessment_CanonicalBytes sample_crypto (sample_assessment RelationTrade 4)) < 2 ^ 20"
    by (simp add: Assessment_CanonicalBytes_def sample_eval m domainAssessment_def RelationTrade_def)
  moreover have "length (as_Signature (sample_assessment RelationTrade 4)) = 64"
    by (simp add: sample_assessment_def sample_crypto_def sample_priv_def)
  ultimately show ?thesis
    unfolding Assessment_ID_def sample_sha_of
    by (intro sample_sha_nonzero [of _ 1]) (simp_all add: sample_eval domainAssessmentID_def)
qed

lemma sample_answer_admitted:
  assumes "Book_Record sample_crypto sample_book CovStore_New (sample_assessment RelationTrade 4) = Inr s"
  shows "\<exists>s'. RecordAnswer sample_crypto sample_book s sample_answer = Inr s'"
proof -
  have sel: "an_Assessment sample_answer = Assessment_ID sample_crypto (sample_assessment RelationTrade 4)"
    "an_Answerer sample_answer = sample_member 2" "an_AnswerHash sample_answer = 9" "an_IssuedAt sample_answer = 0"
    by (simp_all add: sample_answer_def Let_def)
  have pub: "ed_public sample_crypto (sample_priv 2) = replicate 32 2" by simp
  have v: "Answer_Verify sample_crypto sample_answer (replicate 32 2) = Some True"
    using keypair_verify [OF sample_keypair [of 2]] unfolding pub
    by (simp add: Answer_Verify_def sample_answer_def Let_def Answer_CanonicalBytes_def del: sample_verify)
  note s = Book_Record_Inr(3) [OF assms]
  have "sample_member 2 \<noteq> ''''" using sample_member_valid [of 2] by (auto simp: validMemberID_def)
  then show ?thesis
    using sample_id_nonzero sample_member_valid [of 2] v
    by (simp add: RecordAnswer_def sel s CovStore_ByID_def CovStore_New_def CovStore_AppendAnswer_def Let_def zeroTime_def
        sample_book_def sample_member_def [symmetric] PublicKeySize_def)
qed

theorem answers_annotate_witness:
  "\<exists>s. admits (cov_do sample_crypto sample_book) CovStore_New s \<and>
     Book_AnswerFor s (Assessment_ID sample_crypto (sample_assessment RelationTrade 4)) = Some sample_answer"
proof -
  have "validRelation RelationTrade" "validLevel 4" by (simp_all add: validRelation_def validLevel_def LevelDelight_def)
  then obtain s where s: "Book_Record sample_crypto sample_book CovStore_New (sample_assessment RelationTrade 4) = Inr s"
    using sample_recorded by blast
  then obtain s' where s': "RecordAnswer sample_crypto sample_book s sample_answer = Inr s'" using sample_answer_admitted by blast
  have "admits (cov_do sample_crypto sample_book) CovStore_New s'"
    by (rule run_all_admits [of _ _ "[CallRecord (sample_assessment RelationTrade 4), CallAnswer sample_answer]"]) (simp add: cov_do_def s s')
  moreover have "an_Assessment sample_answer = Assessment_ID sample_crypto (sample_assessment RelationTrade 4)"
    by (simp add: sample_answer_def Let_def)
  ultimately show ?thesis using answers_annotate [OF s' admits_refl] by auto
qed

end
