(* ===== verification/Tech_Tree.thy ===== *)
theory Tech_Tree
  imports Replay Sample
begin

text \<open>
  The knowledge tree of \<open>internal/techtree\<close>: claims and typed references signed by one member each
  (\<open>claim.go\<close>, \<open>reference.go\<close>), the append-only hash-chained tree that admits them (\<open>tree.go\<close>) and the
  citation weight read off its log (\<open>weight.go\<close>). The depth-first search that guards \<open>builds_on\<close> edges is
  the loop of the source, with its stack and its seen set, and a termination proof. The nonce drawn from
  \<open>crypto/rand\<close> is an argument, \<open>None\<close> where the draw fails.
\<close>

section \<open>Claims\<close>

datatype tech_error =
    ErrWrongPlatform | ErrBadSignature | ErrTechDuplicate | ErrUnknownClaim | ErrNotAsserter | ErrBuildsOnCycle | ErrEmptyPlatform
  | TechPlatformUnset | TechClaimantMalformed | TechUnknownKind | TechNonceDraw | TechKeyMalformed | TechKeyNotClaimant
  | TechAsserterMalformed | TechSelfEdge | TechKeyNotAsserter
  | TechItemBoth nat | TechItemEmpty nat | TechReplayClaim nat tech_error | TechReplayReference nat tech_error

definition domainClaim :: string where "domainClaim = ''cloudy/techtree/claim/v0''"
definition domainReference :: string where "domainReference = ''cloudy/techtree/reference/v0''"
definition domainTechID :: string where "domainTechID = ''cloudy/techtree/id/v0''"
definition domainChain :: string where "domainChain = ''cloudy/techtree/chain/v0''"

type_synonym claim_id = b32
type_synonym claim_kind = string

definition KindFact :: claim_kind where "KindFact = ''fact''"
definition KindTechnique :: claim_kind where "KindTechnique = ''technique''"
definition KindProductSpec :: claim_kind where "KindProductSpec = ''product_spec''"

definition validKind :: "claim_kind \<Rightarrow> bool" where
  "validKind k \<longleftrightarrow> k = KindFact \<or> k = KindTechnique \<or> k = KindProductSpec"

record claim =
  cl_Platform :: string
  cl_Claimant :: bytes
  cl_Kind :: claim_kind
  cl_InputsHash :: b32
  cl_MethodHash :: b32
  cl_ResultHash :: b32
  cl_Nonce :: b32
  cl_AssertedAt :: gotime
  cl_Signature :: bytes

definition NewClaim ::
  "string \<Rightarrow> bytes \<Rightarrow> claim_kind \<Rightarrow> b32 \<Rightarrow> b32 \<Rightarrow> b32 \<Rightarrow> gotime \<Rightarrow> b32 option \<Rightarrow> tech_error + claim" where
  "NewClaim platform claimant kind inputs meth result at rnd =
     (if platform = '''' then Inl TechPlatformUnset
      else if length claimant \<noteq> PublicKeySize then Inl TechClaimantMalformed
      else if \<not> validKind kind then Inl TechUnknownKind
      else case rnd of None \<Rightarrow> Inl TechNonceDraw | Some nonce \<Rightarrow>
        Inr \<lparr>cl_Platform = platform, cl_Claimant = map id claimant, cl_Kind = kind, cl_InputsHash = inputs,
             cl_MethodHash = meth, cl_ResultHash = result, cl_Nonce = nonce, cl_AssertedAt = at, cl_Signature = []\<rparr>)"

definition HashNarrative :: "crypto \<Rightarrow> bytes \<Rightarrow> b32" where
  "HashNarrative c narrative = sha256 c (canon_sum c domainClaim [CBytes narrative])"

definition Claim_CanonicalBytes :: "crypto \<Rightarrow> claim \<Rightarrow> bytes" where
  "Claim_CanonicalBytes c cl =
     canon_sum c domainClaim
       [CString (cl_Platform cl), CBytes (cl_Claimant cl), CString (cl_Kind cl), CBytes (b32_bytes (cl_InputsHash cl)),
        CBytes (b32_bytes (cl_MethodHash cl)), CBytes (b32_bytes (cl_ResultHash cl)), CBytes (b32_bytes (cl_Nonce cl)),
        CTime (cl_AssertedAt cl)]"

definition Claim_Sign :: "crypto \<Rightarrow> bytes \<Rightarrow> claim \<Rightarrow> tech_error + claim" where
  "Claim_Sign c priv cl =
     (if length priv \<noteq> PrivateKeySize then Inl TechKeyMalformed
      else if ed_public c priv \<noteq> cl_Claimant cl then Inl TechKeyNotClaimant
      else Inr (cl\<lparr>cl_Signature := ed_sign c priv (Claim_CanonicalBytes c cl)\<rparr>))"

definition Claim_Verify :: "crypto \<Rightarrow> claim \<Rightarrow> bool" where
  "Claim_Verify c cl \<longleftrightarrow>
     cl_Platform cl \<noteq> '''' \<and> validKind (cl_Kind cl) \<and>
     length (cl_Claimant cl) = PublicKeySize \<and> length (cl_Signature cl) = SignatureSize \<and>
     sig_ok c (cl_Claimant cl) (Claim_CanonicalBytes c cl) (cl_Signature cl)"

definition Claim_ID :: "crypto \<Rightarrow> claim \<Rightarrow> claim_id" where
  "Claim_ID c cl =
     sha256 c (canon_sum c domainTechID [CString ''claim'', CBytes (Claim_CanonicalBytes c cl), CBytes (cl_Signature cl)])"

section \<open>References\<close>

type_synonym ref_id = b32
type_synonym ref_kind = string

definition RefBuildsOn :: ref_kind where "RefBuildsOn = ''builds_on''"
definition RefCites :: ref_kind where "RefCites = ''cites''"
definition RefContests :: ref_kind where "RefContests = ''contests''"
definition RefReproduces :: ref_kind where "RefReproduces = ''reproduces''"
definition RefRefutes :: ref_kind where "RefRefutes = ''refutes''"

lemmas ref_kind_defs = RefBuildsOn_def RefCites_def RefContests_def RefReproduces_def RefRefutes_def

definition validRefKind :: "ref_kind \<Rightarrow> bool" where
  "validRefKind k \<longleftrightarrow> k = RefBuildsOn \<or> k = RefCites \<or> k = RefContests \<or> k = RefReproduces \<or> k = RefRefutes"

record reference =
  rf_Platform :: string
  rf_Asserter :: bytes
  rf_Kind :: ref_kind
  rf_From :: claim_id
  rf_To :: claim_id
  rf_Nonce :: b32
  rf_AssertedAt :: gotime
  rf_Signature :: bytes

definition NewReference ::
  "string \<Rightarrow> bytes \<Rightarrow> ref_kind \<Rightarrow> claim_id \<Rightarrow> claim_id \<Rightarrow> gotime \<Rightarrow> b32 option \<Rightarrow> tech_error + reference" where
  "NewReference platform asserter kind from to at rnd =
     (if platform = '''' then Inl TechPlatformUnset
      else if length asserter \<noteq> PublicKeySize then Inl TechAsserterMalformed
      else if \<not> validRefKind kind then Inl TechUnknownKind
      else if from = to then Inl TechSelfEdge
      else case rnd of None \<Rightarrow> Inl TechNonceDraw | Some nonce \<Rightarrow>
        Inr \<lparr>rf_Platform = platform, rf_Asserter = map id asserter, rf_Kind = kind, rf_From = from, rf_To = to,
             rf_Nonce = nonce, rf_AssertedAt = at, rf_Signature = []\<rparr>)"

definition Reference_CanonicalBytes :: "crypto \<Rightarrow> reference \<Rightarrow> bytes" where
  "Reference_CanonicalBytes c r =
     canon_sum c domainReference
       [CString (rf_Platform r), CBytes (rf_Asserter r), CString (rf_Kind r), CBytes (b32_bytes (rf_From r)),
        CBytes (b32_bytes (rf_To r)), CBytes (b32_bytes (rf_Nonce r)), CTime (rf_AssertedAt r)]"

definition Reference_Sign :: "crypto \<Rightarrow> bytes \<Rightarrow> reference \<Rightarrow> tech_error + reference" where
  "Reference_Sign c priv r =
     (if length priv \<noteq> PrivateKeySize then Inl TechKeyMalformed
      else if ed_public c priv \<noteq> rf_Asserter r then Inl TechKeyNotAsserter
      else Inr (r\<lparr>rf_Signature := ed_sign c priv (Reference_CanonicalBytes c r)\<rparr>))"

definition Reference_Verify :: "crypto \<Rightarrow> reference \<Rightarrow> bool" where
  "Reference_Verify c r \<longleftrightarrow>
     rf_Platform r \<noteq> '''' \<and> validRefKind (rf_Kind r) \<and> rf_From r \<noteq> rf_To r \<and>
     length (rf_Asserter r) = PublicKeySize \<and> length (rf_Signature r) = SignatureSize \<and>
     sig_ok c (rf_Asserter r) (Reference_CanonicalBytes c r) (rf_Signature r)"

definition Reference_ID :: "crypto \<Rightarrow> reference \<Rightarrow> ref_id" where
  "Reference_ID c r =
     sha256 c (canon_sum c domainTechID [CString ''reference'', CBytes (Reference_CanonicalBytes c r), CBytes (rf_Signature r)])"

section \<open>The tree\<close>

text \<open>A log item has two pointers, of which an item the tree appends sets exactly one.\<close>

record item =
  it_Claim :: "claim option"
  it_Reference :: "reference option"

record tech_tree =
  tr_platform :: string
  tr_claims :: "claim_id \<rightharpoonup> claim"
  tr_refs :: "ref_id \<rightharpoonup> reference"
  tr_log :: "item list"
  tr_head :: b32

definition NewTree :: "string \<Rightarrow> tech_error + tech_tree" where
  "NewTree platform =
     (if platform = '''' then Inl ErrEmptyPlatform
      else Inr \<lparr>tr_platform = platform, tr_claims = Map.empty, tr_refs = Map.empty, tr_log = [], tr_head = 0\<rparr>)"

definition Tree_Platform :: "tech_tree \<Rightarrow> string" where "Tree_Platform t = tr_platform t"
definition Tree_Head :: "tech_tree \<Rightarrow> b32" where "Tree_Head t = tr_head t"

definition tree_fold :: "crypto \<Rightarrow> tech_tree \<Rightarrow> bytes \<Rightarrow> tech_tree" where
  "tree_fold c t leaf = t\<lparr>tr_head := sha256 c (canon_sum c domainChain [CBytes (b32_bytes (tr_head t)), CBytes leaf])\<rparr>"

definition cloneClaim :: "claim \<Rightarrow> claim" where
  "cloneClaim cl = cl\<lparr>cl_Claimant := map id (cl_Claimant cl), cl_Signature := map id (cl_Signature cl)\<rparr>"

definition cloneRef :: "reference \<Rightarrow> reference" where
  "cloneRef r = r\<lparr>rf_Asserter := map id (rf_Asserter r), rf_Signature := map id (rf_Signature r)\<rparr>"

definition AddClaim :: "crypto \<Rightarrow> tech_tree \<Rightarrow> claim \<Rightarrow> tech_error + claim_id \<times> tech_tree" where
  "AddClaim c t cl =
     (if cl_Platform cl \<noteq> tr_platform t then Inl ErrWrongPlatform
      else if \<not> Claim_Verify c cl then Inl ErrBadSignature
      else let i = Claim_ID c cl in
        if tr_claims t i \<noteq> None then Inl ErrTechDuplicate
        else Inr (i, tree_fold c
               (t\<lparr>tr_claims := (tr_claims t)(i \<mapsto> cloneClaim cl),
                  tr_log := tr_log t @ [\<lparr>it_Claim = Some (cloneClaim cl), it_Reference = None\<rparr>]\<rparr>) (b32_bytes i)))"

text \<open>
  The search of \<open>buildsOnReaches\<close>. The inner loop scans the whole log for \<open>builds_on\<close> edges out of the popped claim
  and pushes their targets; \<open>None\<close> is its early return \<open>true\<close>. The top of the stack is its last element.
\<close>

fun reach_scan :: "item list \<Rightarrow> claim_id \<Rightarrow> claim_id \<Rightarrow> claim_id list \<Rightarrow> claim_id list option" where
  "reach_scan [] n target stack = Some stack"
| "reach_scan (it # items) n target stack =
     (case it_Reference it of None \<Rightarrow> reach_scan items n target stack
      | Some r \<Rightarrow>
          if rf_Kind r \<noteq> RefBuildsOn \<or> rf_From r \<noteq> n then reach_scan items n target stack
          else if rf_To r = target then None
          else reach_scan items n target (stack @ [rf_To r]))"

text \<open>The targets of the \<open>builds_on\<close> edges out of a claim, in log order, and the relation they make.\<close>

fun builds_from :: "item list \<Rightarrow> claim_id \<Rightarrow> claim_id list" where
  "builds_from [] n = []"
| "builds_from (it # items) n =
     (case it_Reference it of None \<Rightarrow> builds_from items n
      | Some r \<Rightarrow> (if rf_Kind r \<noteq> RefBuildsOn \<or> rf_From r \<noteq> n then [] else [rf_To r]) @ builds_from items n)"

definition builds_on :: "item list \<Rightarrow> (claim_id \<times> claim_id) set" where
  "builds_on items = {(n, m). m \<in> set (builds_from items n)}"

lemma reach_scan_eq:
  "reach_scan items n target stack =
     (if target \<in> set (builds_from items n) then None else Some (stack @ builds_from items n))"
  by (induction items arbitrary: stack) (auto split: option.splits)

definition mentioned :: "item list \<Rightarrow> claim_id set" where
  "mentioned items = (\<Union>n. set (builds_from items n))"

lemma builds_from_refs: "set (builds_from items n) \<subseteq> rf_To ` {r. \<exists>it \<in> set items. it_Reference it = Some r}"
  by (induction items) (auto split: option.splits if_splits)

lemma finite_mentioned: "finite (mentioned items)"
proof -
  have "{r. \<exists>it \<in> set items. it_Reference it = Some r} \<subseteq> (\<lambda>it. the (it_Reference it)) ` set items" by force
  then have "finite {r. \<exists>it \<in> set items. it_Reference it = Some r}" using finite_subset by blast
  moreover have "mentioned items \<subseteq> rf_To ` {r. \<exists>it \<in> set items. it_Reference it = Some r}"
    using builds_from_refs [of items] unfolding mentioned_def by blast
  ultimately show ?thesis using finite_subset by blast
qed

function reach_loop :: "item list \<Rightarrow> claim_id \<Rightarrow> claim_id set \<Rightarrow> claim_id list \<Rightarrow> bool" where
  "reach_loop items target seen stack =
     (if stack = [] then False
      else let n = last stack; rest = butlast stack in
        if n \<in> seen then reach_loop items target seen rest
        else case reach_scan items n target rest of
            None \<Rightarrow> True
          | Some stack' \<Rightarrow> reach_loop items target (insert n seen) stack')"
  by pat_completeness auto

definition unvisited :: "item list \<times> claim_id \<times> claim_id set \<times> claim_id list \<Rightarrow> nat" where
  "unvisited = (\<lambda>(items, target, seen, stack). card ((mentioned items \<union> set stack) - seen))"

lemma unvisited_pop: "stack \<noteq> [] \<Longrightarrow> unvisited (items, target, seen, butlast stack) \<le> unvisited (items, target, seen, stack)"
  unfolding unvisited_def by (auto intro!: card_mono simp: finite_mentioned dest: in_set_butlastD)

lemma unvisited_push:
  assumes "stack \<noteq> []" "last stack \<notin> seen" "set stack' \<subseteq> set stack \<union> mentioned items"
  shows "unvisited (items, target, insert (last stack) seen, stack') < unvisited (items, target, seen, stack)"
proof -
  have "(mentioned items \<union> set stack') - insert (last stack) seen \<subset> (mentioned items \<union> set stack) - seen"
    using assms by auto
  then show ?thesis unfolding unvisited_def by (auto intro!: psubset_card_mono simp: finite_mentioned)
qed

termination reach_loop
proof (relation "measures [unvisited, \<lambda>(items, target, seen, stack). length stack]")
  fix items and target :: claim_id and seen and stack :: "claim_id list" and n rest
  assume s: "stack \<noteq> []" "n = last stack" "rest = butlast stack"
  show "((items, target, seen, rest), items, target, seen, stack)
      \<in> measures [unvisited, \<lambda>(items, target, seen, stack). length stack]"
    using s unvisited_pop [OF s(1), of items target seen] by (auto simp: le_less)
  fix stack' assume "n \<notin> seen" "reach_scan items n target rest = Some stack'"
  then have "set stack' \<subseteq> set stack \<union> mentioned items"
    using s by (auto simp: reach_scan_eq mentioned_def split: if_splits dest: in_set_butlastD)
  then show "((items, target, insert n seen, stack'), items, target, seen, stack)
      \<in> measures [unvisited, \<lambda>(items, target, seen, stack). length stack]"
    using unvisited_push [OF s(1)] \<open>n \<notin> seen\<close> s(2) by simp
qed simp

declare reach_loop.simps [simp del]

definition buildsOnReaches :: "tech_tree \<Rightarrow> claim_id \<Rightarrow> claim_id \<Rightarrow> bool" where
  "buildsOnReaches t start target = (if start = target then True else reach_loop (tr_log t) target {} [start])"

definition AddReference :: "crypto \<Rightarrow> tech_tree \<Rightarrow> reference \<Rightarrow> tech_error + ref_id \<times> tech_tree" where
  "AddReference c t r =
     (if rf_Platform r \<noteq> tr_platform t then Inl ErrWrongPlatform
      else if \<not> Reference_Verify c r then Inl ErrBadSignature
      else case tr_claims t (rf_From r) of None \<Rightarrow> Inl ErrUnknownClaim | Some from \<Rightarrow>
        if tr_claims t (rf_To r) = None then Inl ErrUnknownClaim
        else if rf_Asserter r \<noteq> cl_Claimant from then Inl ErrNotAsserter
        else if rf_Kind r = RefBuildsOn \<and> buildsOnReaches t (rf_To r) (rf_From r) then Inl ErrBuildsOnCycle
        else let i = Reference_ID c r in
          if tr_refs t i \<noteq> None then Inl ErrTechDuplicate
          else Inr (i, tree_fold c
                 (t\<lparr>tr_refs := (tr_refs t)(i \<mapsto> cloneRef r),
                    tr_log := tr_log t @ [\<lparr>it_Claim = None, it_Reference = Some (cloneRef r)\<rparr>]\<rparr>) (b32_bytes i)))"

definition Tree_Claim :: "tech_tree \<Rightarrow> claim_id \<Rightarrow> claim option" where
  "Tree_Claim t i = map_option cloneClaim (tr_claims t i)"

definition Tree_Log :: "tech_tree \<Rightarrow> item list" where
  "Tree_Log t = map (\<lambda>it. if it_Claim it \<noteq> None then \<lparr>it_Claim = map_option cloneClaim (it_Claim it), it_Reference = None\<rparr>
     else \<lparr>it_Claim = None, it_Reference = map_option cloneRef (it_Reference it)\<rparr>) (tr_log t)"

definition tree_replay :: "crypto \<Rightarrow> tech_tree \<Rightarrow> nat \<times> item \<Rightarrow> tech_error + tech_tree" where
  "tree_replay c t = (\<lambda>(i, it).
     case (it_Claim it, it_Reference it) of
       (Some _, Some _) \<Rightarrow> Inl (TechItemBoth i)
     | (Some cl, None) \<Rightarrow> (case AddClaim c t cl of Inl e \<Rightarrow> Inl (TechReplayClaim i e) | Inr (_, t') \<Rightarrow> Inr t')
     | (None, Some r) \<Rightarrow> (case AddReference c t r of Inl e \<Rightarrow> Inl (TechReplayReference i e) | Inr (_, t') \<Rightarrow> Inr t')
     | (None, None) \<Rightarrow> Inl (TechItemEmpty i))"

definition Tree_OpenLog :: "crypto \<Rightarrow> string \<Rightarrow> item list \<Rightarrow> tech_error + tech_tree" where
  "Tree_OpenLog c platform items =
     (case NewTree platform of Inl e \<Rightarrow> Inl e
      | Inr t \<Rightarrow> run_all (tree_replay c) t (zip [0..<length items] items))"

section \<open>Citation weight\<close>

record weight =
  wt_Cites :: int
  wt_BuildsOn :: int
  wt_Reproduces :: int
  wt_Refutes :: int
  wt_Contests :: int

text \<open>\<open>seen\<close>: per kind, the set of asserter keys; \<open>len\<close> of a missing set is zero.\<close>

definition weight_mark :: "(ref_kind \<rightharpoonup> string set) \<Rightarrow> ref_kind \<Rightarrow> string \<Rightarrow> (ref_kind \<rightharpoonup> string set)" where
  "weight_mark seen k asserter = seen(k \<mapsto> insert asserter (map_get seen k {}))"

fun weight_scan :: "claim_id \<Rightarrow> (ref_kind \<rightharpoonup> string set) \<Rightarrow> item list \<Rightarrow> (ref_kind \<rightharpoonup> string set)" where
  "weight_scan i seen [] = seen"
| "weight_scan i seen (it # items) =
     (case it_Reference it of None \<Rightarrow> weight_scan i seen items
      | Some r \<Rightarrow> if rf_To r \<noteq> i then weight_scan i seen items
                  else weight_scan i (weight_mark seen (rf_Kind r) (str_of_bytes (rf_Asserter r))) items)"

definition CitationWeight :: "tech_tree \<Rightarrow> claim_id \<Rightarrow> weight" where
  "CitationWeight t i =
     (let seen = weight_scan i Map.empty (tr_log t); len = (\<lambda>k. int (card (map_get seen k {}))) in
      \<lparr>wt_Cites = len RefCites, wt_BuildsOn = len RefBuildsOn, wt_Reproduces = len RefReproduces,
       wt_Refutes = len RefRefutes, wt_Contests = len RefContests\<rparr>)"

section \<open>The search decides reachability\<close>

lemma exit_seen:
  assumes "(n, target) \<in> E\<^sup>*" and "n \<in> seen" and "target \<notin> seen"
    and closed: "\<forall>n \<in> seen. E `` {n} \<subseteq> seen \<union> set stack"
  shows "\<exists>m \<in> set stack - seen. (m, target) \<in> E\<^sup>*"
  using assms(1-3)
proof (induction rule: converse_rtrancl_induct)
  case (step y z)
  show ?case
  proof (cases "z \<in> seen")
    case True
    with step show ?thesis by blast
  next
    case False
    then have "z \<in> set stack" using step.hyps(1) step.prems(1) closed by blast
    with False step.hyps(2) show ?thesis by blast
  qed
qed blast

lemma reach_loop_correct:
  assumes "\<forall>n \<in> seen. builds_on items `` {n} \<subseteq> seen \<union> set stack" and "target \<notin> seen \<union> set stack"
  shows "reach_loop items target seen stack \<longleftrightarrow> (\<exists>n \<in> set stack. (n, target) \<in> (builds_on items)\<^sup>*)"
  using assms
proof (induction items target seen stack rule: reach_loop.induct)
  case (1 items target seen stack)
  let ?E = "builds_on items"
  show ?case
  proof (cases "stack = []")
    case True
    then show ?thesis by (simp add: reach_loop.simps)
  next
    case ne: False
    obtain rest n where st: "stack = rest @ [n]" using ne by (metis append_butlast_last_id)
    show ?thesis
    proof (cases "n \<in> seen")
      case True
      have "reach_loop items target seen rest \<longleftrightarrow> (\<exists>m \<in> set rest. (m, target) \<in> ?E\<^sup>*)"
        using 1(1) [OF ne refl refl] True 1(3,4) by (auto simp: st)
      moreover have "\<exists>m \<in> set rest. (m, target) \<in> ?E\<^sup>*" if "(n, target) \<in> ?E\<^sup>*"
        using exit_seen [OF that True _ 1(3)] 1(4) True by (auto simp: st)
      ultimately show ?thesis using ne True by (auto simp: reach_loop.simps [of items target seen "rest @ [n]"] st)
    next
      case False
      have E: "?E `` {n} = set (builds_from items n)" by (auto simp: builds_on_def)
      show ?thesis
      proof (cases "target \<in> set (builds_from items n)")
        case True
        then have "(n, target) \<in> ?E\<^sup>*" using E by blast
        then show ?thesis using True False ne by (auto simp: reach_loop.simps [of items target seen "rest @ [n]"] reach_scan_eq st)
      next
        case out: False
        let ?stack = "rest @ builds_from items n"
        have "reach_loop items target (insert n seen) ?stack \<longleftrightarrow> (\<exists>m \<in> set ?stack. (m, target) \<in> ?E\<^sup>*)"
          using 1(2) [OF ne refl refl, of ?stack] False out 1(3,4) E by (auto simp: st reach_scan_eq)
        moreover have "(n, target) \<in> ?E\<^sup>* \<longleftrightarrow> (\<exists>m \<in> set (builds_from items n). (m, target) \<in> ?E\<^sup>*)"
        proof
          assume "(n, target) \<in> ?E\<^sup>*"
          then show "\<exists>m \<in> set (builds_from items n). (m, target) \<in> ?E\<^sup>*"
            by (rule converse_rtranclE) (use E 1(4) st in auto)
        qed (use E in \<open>blast intro: converse_rtrancl_into_rtrancl\<close>)
        ultimately show ?thesis
          using False out ne by (auto simp: reach_loop.simps [of items target seen "rest @ [n]"] reach_scan_eq st)
      qed
    qed
  qed
qed

lemma buildsOnReaches_correct: "buildsOnReaches t start target \<longleftrightarrow> (start, target) \<in> (builds_on (tr_log t))\<^sup>*"
  using reach_loop_correct [of "{}" "tr_log t" "[start]" target] by (auto simp: buildsOnReaches_def)

section \<open>Admission\<close>

lemma tech_clone_id [simp]: "cloneClaim cl = cl" "cloneRef r = r"
  by (simp_all add: cloneClaim_def cloneRef_def)

definition claim_item :: "claim \<Rightarrow> item" where
  "claim_item cl = \<lparr>it_Claim = Some cl, it_Reference = None\<rparr>"

definition ref_item :: "reference \<Rightarrow> item" where
  "ref_item r = \<lparr>it_Claim = None, it_Reference = Some r\<rparr>"

definition leaf_of :: "crypto \<Rightarrow> item \<Rightarrow> b32" where
  "leaf_of c it = (case it_Claim it of Some cl \<Rightarrow> Claim_ID c cl | None \<Rightarrow>
     case it_Reference it of Some r \<Rightarrow> Reference_ID c r | None \<Rightarrow> 0)"

lemma item_sel [simp]:
  "it_Claim (claim_item cl) = Some cl" "it_Reference (claim_item cl) = None"
  "it_Claim (ref_item r) = None" "it_Reference (ref_item r) = Some r"
  "leaf_of c (claim_item cl) = Claim_ID c cl" "leaf_of c (ref_item r) = Reference_ID c r"
  by (simp_all add: claim_item_def ref_item_def leaf_of_def)

definition claim_gates :: "crypto \<Rightarrow> tech_tree \<Rightarrow> claim \<Rightarrow> bool" where
  "claim_gates c t cl \<longleftrightarrow> cl_Platform cl = tr_platform t \<and> Claim_Verify c cl \<and> tr_claims t (Claim_ID c cl) = None"

definition ref_gates :: "crypto \<Rightarrow> tech_tree \<Rightarrow> reference \<Rightarrow> bool" where
  "ref_gates c t r \<longleftrightarrow> rf_Platform r = tr_platform t \<and> Reference_Verify c r \<and>
     (\<exists>from. tr_claims t (rf_From r) = Some from \<and> cl_Claimant from = rf_Asserter r) \<and> tr_claims t (rf_To r) \<noteq> None \<and>
     (rf_Kind r = RefBuildsOn \<longrightarrow> (rf_To r, rf_From r) \<notin> (builds_on (tr_log t))\<^sup>*) \<and> tr_refs t (Reference_ID c r) = None"

lemma AddClaim_Inr:
  "AddClaim c t cl = Inr (i, t') \<longleftrightarrow> claim_gates c t cl \<and> i = Claim_ID c cl \<and>
     t' = t\<lparr>tr_claims := (tr_claims t)(i \<mapsto> cl), tr_log := tr_log t @ [claim_item cl],
            tr_head := sha256 c (chain_link c domainChain (tr_head t) (b32_bytes i))\<rparr>"
  by (auto simp: AddClaim_def claim_gates_def tree_fold_def chain_link_def claim_item_def Let_def)

lemma AddReference_Inr:
  "AddReference c t r = Inr (i, t') \<longleftrightarrow> ref_gates c t r \<and> i = Reference_ID c r \<and>
     t' = t\<lparr>tr_refs := (tr_refs t)(i \<mapsto> r), tr_log := tr_log t @ [ref_item r],
            tr_head := sha256 c (chain_link c domainChain (tr_head t) (b32_bytes i))\<rparr>"
  by (auto simp: AddReference_def ref_gates_def tree_fold_def chain_link_def ref_item_def Let_def buildsOnReaches_correct split: option.splits)

text \<open>One call on a tree: its two operations as a step over log items.\<close>

definition tree_do :: "crypto \<Rightarrow> tech_tree \<Rightarrow> item \<Rightarrow> tech_error + tech_tree" where
  "tree_do c t it = tree_replay c t (0, it)"

lemma tree_do_claim: "tree_do c t (claim_item cl) = Inr t' \<longleftrightarrow> AddClaim c t cl = Inr (Claim_ID c cl, t')"
proof (cases "AddClaim c t cl")
  case (Inr p)
  then have "fst p = Claim_ID c cl" using AddClaim_Inr [of c t cl "fst p" "snd p"] by simp
  with Inr show ?thesis by (cases p) (auto simp: tree_do_def tree_replay_def)
qed (simp add: tree_do_def tree_replay_def)

lemma tree_do_ref: "tree_do c t (ref_item r) = Inr t' \<longleftrightarrow> AddReference c t r = Inr (Reference_ID c r, t')"
proof (cases "AddReference c t r")
  case (Inr p)
  then have "fst p = Reference_ID c r" using AddReference_Inr [of c t r "fst p" "snd p"] by simp
  with Inr show ?thesis by (cases p) (auto simp: tree_do_def tree_replay_def)
qed (simp add: tree_do_def tree_replay_def)

lemma tree_do_cases:
  assumes "tree_do c t it = Inr t'"
  obtains (claim) cl where "it = claim_item cl" "AddClaim c t cl = Inr (Claim_ID c cl, t')"
    | (ref) r where "it = ref_item r" "AddReference c t r = Inr (Reference_ID c r, t')"
  using assms
  by (cases it) (auto simp: tree_do_def tree_replay_def AddClaim_Inr AddReference_Inr claim_item_def ref_item_def
      split: option.splits sum.splits)

lemma tree_do_log:
  "tree_do c t it = Inr t' \<Longrightarrow> tr_log t' = tr_log t @ [it] \<and> tr_platform t' = tr_platform t \<and>
     tr_head t' = sha256 c (chain_link c domainChain (tr_head t) (b32_bytes (leaf_of c it)))"
  by (erule tree_do_cases) (auto simp: AddClaim_Inr AddReference_Inr)

interpretation tech: chained_log "tree_do c" tr_log c domainChain tr_head "\<lambda>it. b32_bytes (leaf_of c it)" for c
  by unfold_locales (simp_all add: tree_do_log)

section \<open>What every reachable tree satisfies\<close>

definition refs_of :: "item list \<Rightarrow> reference list" where
  "refs_of items = List.map_filter it_Reference items"

definition claims_of :: "item list \<Rightarrow> claim list" where
  "claims_of items = List.map_filter it_Claim items"

lemma of_append [simp]:
  "refs_of (items @ [claim_item cl]) = refs_of items" "claims_of (items @ [claim_item cl]) = claims_of items @ [cl]"
  "refs_of (items @ [ref_item r]) = refs_of items @ [r]" "claims_of (items @ [ref_item r]) = claims_of items"
  "refs_of [] = []" "claims_of [] = []"
  by (simp_all add: refs_of_def claims_of_def map_filter_def)

lemma builds_from_append [simp]: "builds_from (xs @ ys) n = builds_from xs n @ builds_from ys n"
  by (induction xs) (auto split: option.splits)

lemma builds_on_append:
  "builds_on (items @ [claim_item cl]) = builds_on items"
  "builds_on (items @ [ref_item r]) =
     (if rf_Kind r = RefBuildsOn then insert (rf_From r, rf_To r) (builds_on items) else builds_on items)"
  by (auto simp: builds_on_def split: if_splits)

definition tree_inv :: "crypto \<Rightarrow> tech_tree \<Rightarrow> bool" where
  "tree_inv c t \<longleftrightarrow> acyclic (builds_on (tr_log t)) \<and>
     (\<forall>i cl. tr_claims t i = Some cl \<longleftrightarrow> cl \<in> set (claims_of (tr_log t)) \<and> i = Claim_ID c cl) \<and>
     (\<forall>i r. tr_refs t i = Some r \<longleftrightarrow> r \<in> set (refs_of (tr_log t)) \<and> i = Reference_ID c r) \<and>
     distinct (map (Claim_ID c) (claims_of (tr_log t))) \<and> distinct (map (Reference_ID c) (refs_of (tr_log t))) \<and>
     (\<forall>cl \<in> set (claims_of (tr_log t)). Claim_Verify c cl \<and> cl_Platform cl = tr_platform t) \<and>
     (\<forall>r \<in> set (refs_of (tr_log t)). Reference_Verify c r \<and> rf_Platform r = tr_platform t \<and>
        (\<exists>cl \<in> set (claims_of (tr_log t)). Claim_ID c cl = rf_From r \<and> cl_Claimant cl = rf_Asserter r) \<and>
        (\<exists>cl \<in> set (claims_of (tr_log t)). Claim_ID c cl = rf_To r))"

lemma tree_inv_New: "NewTree p = Inr t \<Longrightarrow> tree_inv c t"
  by (auto simp: NewTree_def tree_inv_def builds_on_def acyclic_def split: if_splits)

lemma tree_inv_claim:
  assumes inv: "tree_inv c t" and add: "AddClaim c t cl = Inr (i, t')"
  shows "tree_inv c t'"
proof -
  have g: "claim_gates c t cl" and t': "t' = t\<lparr>tr_claims := (tr_claims t)(i \<mapsto> cl), tr_log := tr_log t @ [claim_item cl],
      tr_head := sha256 c (chain_link c domainChain (tr_head t) (b32_bytes i))\<rparr>" and i: "i = Claim_ID c cl"
    using add by (auto simp: AddClaim_Inr)
  note I = inv [unfolded tree_inv_def]
  have new: "\<forall>cl' \<in> set (claims_of (tr_log t)). Claim_ID c cl' \<noteq> i"
    using g I i unfolding claim_gates_def by (metis option.distinct(1))
  show ?thesis
    unfolding tree_inv_def
  proof (intro conjI)
    show "\<forall>j cl'. tr_claims t' j = Some cl' \<longleftrightarrow> cl' \<in> set (claims_of (tr_log t')) \<and> j = Claim_ID c cl'"
      using I new i by (auto simp: t')
    show "distinct (map (Claim_ID c) (claims_of (tr_log t')))" using I new i by (auto simp: t')
    show "\<forall>cl \<in> set (claims_of (tr_log t')). Claim_Verify c cl \<and> cl_Platform cl = tr_platform t'"
      using I g by (auto simp: t' claim_gates_def)
  qed (use I in \<open>simp_all add: t' builds_on_append, blast?\<close>)
qed

lemma tree_inv_ref:
  assumes inv: "tree_inv c t" and add: "AddReference c t r = Inr (i, t')"
  shows "tree_inv c t'"
proof -
  have g: "ref_gates c t r" and t': "t' = t\<lparr>tr_refs := (tr_refs t)(i \<mapsto> r), tr_log := tr_log t @ [ref_item r],
      tr_head := sha256 c (chain_link c domainChain (tr_head t) (b32_bytes i))\<rparr>" and i: "i = Reference_ID c r"
    using add by (auto simp: AddReference_Inr)
  note I = inv [unfolded tree_inv_def] and G = g [unfolded ref_gates_def]
  have new: "\<forall>r' \<in> set (refs_of (tr_log t)). Reference_ID c r' \<noteq> i" using G I i by (metis option.distinct(1))
  obtain fr dst where ft: "tr_claims t (rf_From r) = Some fr" "cl_Claimant fr = rf_Asserter r" "tr_claims t (rf_To r) = Some dst"
    using G by auto
  show ?thesis
    unfolding tree_inv_def
  proof (intro conjI)
    show "acyclic (builds_on (tr_log t'))" using I G by (simp add: t' builds_on_append acyclic_insert)
    show "\<forall>j r'. tr_refs t' j = Some r' \<longleftrightarrow> r' \<in> set (refs_of (tr_log t')) \<and> j = Reference_ID c r'"
      using I new i by (auto simp: t')
    show "distinct (map (Reference_ID c) (refs_of (tr_log t')))" using I new i by (auto simp: t')
    have "fr \<in> set (claims_of (tr_log t)) \<and> rf_From r = Claim_ID c fr" "dst \<in> set (claims_of (tr_log t)) \<and> rf_To r = Claim_ID c dst"
      using I ft by blast+
    then show "\<forall>r \<in> set (refs_of (tr_log t')). Reference_Verify c r \<and> rf_Platform r = tr_platform t' \<and>
        (\<exists>cl \<in> set (claims_of (tr_log t')). Claim_ID c cl = rf_From r \<and> cl_Claimant cl = rf_Asserter r) \<and>
        (\<exists>cl \<in> set (claims_of (tr_log t')). Claim_ID c cl = rf_To r)"
      using I G ft(2) by (auto simp: t')
  qed (use I in \<open>simp_all add: t'\<close>)
qed

lemma tree_reach_inv: "admits (tree_do c) s t \<Longrightarrow> tree_inv c s \<Longrightarrow> tree_inv c t"
proof (induction rule: admits.induct)
  case (admits_step s t it u)
  from admits_step.hyps(2) show ?case
    by (rule tree_do_cases) (use admits_step tree_inv_claim tree_inv_ref in blast)+
qed simp

lemma Tree_Log_eq: "(\<forall>it \<in> set (tr_log t). \<exists>cl r. it = claim_item cl \<or> it = ref_item r) \<Longrightarrow> Tree_Log t = tr_log t"
  unfolding Tree_Log_def by (rule map_idI) (auto simp: claim_item_def ref_item_def)

lemma reach_items:
  assumes "admits (tree_do c) t0 t" and "tr_log t0 = []"
  shows "\<forall>it \<in> set (tr_log t). \<exists>cl r. it = claim_item cl \<or> it = ref_item r"
  using assms
proof (induction rule: admits.induct)
  case (admits_step s t it u)
  then show ?case using tree_do_log [OF admits_step.hyps(2)] tree_do_cases [OF admits_step.hyps(2)] by auto metis
qed simp

lemmas reach_Log = Tree_Log_eq [OF reach_items]

lemma tree_replay_do: "tree_replay c t (i, it) = Inr t' \<longleftrightarrow> tree_do c t it = Inr t'"
  by (auto simp: tree_do_def tree_replay_def split: option.splits sum.splits)

lemmas run_replay = run_all_indexed [of "tree_replay c" "tree_do c" for c, OF tree_replay_do]

section \<open>The head commits to the log\<close>

definition item_payload :: "crypto \<Rightarrow> item \<Rightarrow> bytes" where
  "item_payload c it = (case it_Claim it of
     Some cl \<Rightarrow> canon_sum c domainTechID [CString ''claim'', CBytes (Claim_CanonicalBytes c cl), CBytes (cl_Signature cl)]
   | None \<Rightarrow> (case it_Reference it of
       Some r \<Rightarrow> canon_sum c domainTechID [CString ''reference'', CBytes (Reference_CanonicalBytes c r), CBytes (rf_Signature r)]
     | None \<Rightarrow> []))"

text \<open>Everything hashed on the way from an item list to its head.\<close>

definition head_payloads :: "crypto \<Rightarrow> item list \<Rightarrow> bytes list" where
  "head_payloads c items = map (item_payload c) items @ chain_links c domainChain 0 (map (\<lambda>it. b32_bytes (leaf_of c it)) items)"

text \<open>Items that the signed bytes cannot tell apart: the same up to the multiple of \<open>2 ^ 64\<close> ns by which their instants may differ.\<close>

definition same_item :: "item \<Rightarrow> item \<Rightarrow> bool" where
  "same_item a b \<longleftrightarrow>
     (\<exists>x y. a = claim_item x \<and> b = claim_item y \<and> UnixNano (cl_AssertedAt x) = UnixNano (cl_AssertedAt y) \<and> x\<lparr>cl_AssertedAt := 0\<rparr> = y\<lparr>cl_AssertedAt := 0\<rparr>) \<or>
     (\<exists>x y. a = ref_item x \<and> b = ref_item y \<and> UnixNano (rf_AssertedAt x) = UnixNano (rf_AssertedAt y) \<and> x\<lparr>rf_AssertedAt := 0\<rparr> = y\<lparr>rf_AssertedAt := 0\<rparr>)"

lemma claim_payload_same:
  assumes "canon_laws c" "Claim_CanonicalBytes c a = Claim_CanonicalBytes c b" "cl_Signature a = cl_Signature b"
  shows "UnixNano (cl_AssertedAt a) = UnixNano (cl_AssertedAt b) \<and> a\<lparr>cl_AssertedAt := 0\<rparr> = b\<lparr>cl_AssertedAt := 0\<rparr>"
  using canon_fieldsD [OF assms(1) assms(2) [unfolded Claim_CanonicalBytes_def]] assms(3) by (cases a; cases b) simp

lemma ref_payload_same:
  assumes "canon_laws c" "Reference_CanonicalBytes c a = Reference_CanonicalBytes c b" "rf_Signature a = rf_Signature b"
  shows "UnixNano (rf_AssertedAt a) = UnixNano (rf_AssertedAt b) \<and> a\<lparr>rf_AssertedAt := 0\<rparr> = b\<lparr>rf_AssertedAt := 0\<rparr>"
  using canon_fieldsD [OF assms(1) assms(2) [unfolded Reference_CanonicalBytes_def]] assms(3) by (cases a; cases b) simp

lemma item_payload_same:
  assumes "canon_laws c" "item_payload c a = item_payload c b"
    "\<exists>cl r. a = claim_item cl \<or> a = ref_item r" "\<exists>cl r. b = claim_item cl \<or> b = ref_item r"
  shows "same_item a b"
proof -
  have fields: "list_all2 agrees [CString k, CBytes x, CBytes y] [CString k', CBytes x', CBytes y']"
    if "canon_sum c domainTechID [CString k, CBytes x, CBytes y] = canon_sum c domainTechID [CString k', CBytes x', CBytes y']" for k k' x x' y y'
    by (rule canon_fieldsD [OF assms(1) that]) simp
  consider x y where "a = claim_item x" "b = claim_item y" | x y where "a = claim_item x" "b = ref_item y"
    | x y where "a = ref_item x" "b = claim_item y" | x y where "a = ref_item x" "b = ref_item y"
    using assms(3,4) by blast
  then show ?thesis
  proof cases
    case (1 x y)
    then have "Claim_CanonicalBytes c x = Claim_CanonicalBytes c y" "cl_Signature x = cl_Signature y"
      using assms(2) by (auto simp: item_payload_def dest!: fields)
    then show ?thesis using claim_payload_same [OF assms(1)] 1 unfolding same_item_def by blast
  next
    case (4 x y)
    then have "Reference_CanonicalBytes c x = Reference_CanonicalBytes c y" "rf_Signature x = rf_Signature y"
      using assms(2) by (auto simp: item_payload_def dest!: fields)
    then show ?thesis using ref_payload_same [OF assms(1)] 4 unfolding same_item_def by blast
  qed (use assms(2) in \<open>auto simp: item_payload_def dest!: fields\<close>)
qed

lemma leaf_of_payload: "\<exists>cl r. it = claim_item cl \<or> it = ref_item r \<Longrightarrow> leaf_of c it = sha256 c (item_payload c it)"
  by (elim exE disjE) (simp_all add: item_payload_def Claim_ID_def Reference_ID_def)

lemma items_same:
  assumes "canon_laws c" "collision_free c (map (item_payload c) xs @ map (item_payload c) ys)"
    and "\<forall>it \<in> set xs \<union> set ys. \<exists>cl r. it = claim_item cl \<or> it = ref_item r"
    and "map (leaf_of c) xs = map (leaf_of c) ys"
  shows "list_all2 same_item xs ys"
  unfolding list_all2_conv_all_nth
proof (intro conjI allI impI)
  show len: "length xs = length ys" using assms(4) by (rule map_eq_imp_length_eq)
  fix i assume i: "i < length xs"
  then have mem: "xs ! i \<in> set xs" "ys ! i \<in> set ys" using len by simp_all
  have "leaf_of c (xs ! i) = leaf_of c (ys ! i)" using assms(4) i len by (metis nth_map)
  then have "sha256 c (item_payload c (xs ! i)) = sha256 c (item_payload c (ys ! i))"
    using assms(3) mem by (simp add: leaf_of_payload)
  then have "item_payload c (xs ! i) = item_payload c (ys ! i)" using mem by (intro collision_freeD [OF assms(2)]) auto
  moreover have "\<exists>cl r. xs ! i = claim_item cl \<or> xs ! i = ref_item r" "\<exists>cl r. ys ! i = claim_item cl \<or> ys ! i = ref_item r"
    using assms(3) mem by simp_all
  ultimately show "same_item (xs ! i) (ys ! i)" by (rule item_payload_same [OF assms(1)])
qed

section \<open>Weights\<close>

definition asserters :: "item list \<Rightarrow> claim_id \<Rightarrow> ref_kind \<Rightarrow> bytes set" where
  "asserters items i k = {rf_Asserter r | r. r \<in> set (refs_of items) \<and> rf_To r = i \<and> rf_Kind r = k}"

lemma refs_of_Cons: "refs_of (it # items) = (case it_Reference it of None \<Rightarrow> refs_of items | Some r \<Rightarrow> r # refs_of items)"
  by (simp add: refs_of_def map_filter_def split: option.splits)

lemma weight_mark_get: "map_get (weight_mark seen k a) j {} = (if j = k then insert a (map_get seen j {}) else map_get seen j {})"
  by (simp add: weight_mark_def)

lemma weight_scan_set:
  "map_get (weight_scan i seen items) k {} = map_get seen k {} \<union> str_of_bytes ` asserters items i k"
proof (induction items arbitrary: seen)
  case Nil
  then show ?case by (simp add: asserters_def)
next
  case (Cons it items)
  have "asserters (it # items) i k = asserters items i k \<union>
      {rf_Asserter r | r. it_Reference it = Some r \<and> rf_To r = i \<and> rf_Kind r = k}"
    by (auto simp: asserters_def refs_of_Cons split: option.splits)
  note u = this
  show ?case
  proof (cases "it_Reference it")
    case None
    then show ?thesis using u Cons.IH [of seen] by simp
  next
    case (Some r)
    show ?thesis
    proof (cases "rf_To r = i")
      case False
      then show ?thesis using u Some Cons.IH [of seen] by simp
    next
      case True
      then have "asserters (it # items) i k = (if rf_Kind r = k then {rf_Asserter r} else {}) \<union> asserters items i k"
        using u Some by auto
      then show ?thesis using True Some Cons.IH [of "weight_mark seen (rf_Kind r) (str_of_bytes (rf_Asserter r))"]
        by (simp add: weight_mark_get)
    qed
  qed
qed

definition weight_count :: "weight \<Rightarrow> ref_kind \<Rightarrow> int" where
  "weight_count w k =
     (if k = RefCites then wt_Cites w else if k = RefBuildsOn then wt_BuildsOn w else if k = RefReproduces then wt_Reproduces w
      else if k = RefRefutes then wt_Refutes w else if k = RefContests then wt_Contests w else 0)"

lemma CitationWeight_card:
  "weight_count (CitationWeight t i) k = (if validRefKind k then int (card (asserters (tr_log t) i k)) else 0)"
proof -
  have "card (str_of_bytes ` A) = card A" for A by (intro card_image inj_onI) simp
  then show ?thesis by (simp add: weight_count_def CitationWeight_def Let_def weight_scan_set validRefKind_def ref_kind_defs)
qed

lemma finite_asserters: "finite (asserters items i k)"
  unfolding asserters_def by (rule finite_subset [of _ "rf_Asserter ` set (refs_of items)"]) auto

lemma asserters_append:
  "asserters (items @ [claim_item cl]) i k = asserters items i k"
  "asserters (items @ [ref_item r]) i k =
     (if rf_To r = i \<and> rf_Kind r = k then insert (rf_Asserter r) (asserters items i k) else asserters items i k)"
  by (auto simp: asserters_def)

section \<open>A concrete tree\<close>

definition sample_claim_draft :: "b32 \<Rightarrow> claim" where
  "sample_claim_draft n = \<lparr>cl_Platform = ''p'', cl_Claimant = replicate 32 1, cl_Kind = KindFact, cl_InputsHash = 0, cl_MethodHash = 0,
     cl_ResultHash = 0, cl_Nonce = n, cl_AssertedAt = 0, cl_Signature = []\<rparr>"

definition sample_claim :: "b32 \<Rightarrow> claim" where
  "sample_claim n = sample_claim_draft n\<lparr>cl_Signature :=
     ed_sign sample_crypto (sample_priv 1) (Claim_CanonicalBytes sample_crypto (sample_claim_draft n))\<rparr>"

definition sample_edge_draft :: "b32 \<Rightarrow> reference" where
  "sample_edge_draft n = \<lparr>rf_Platform = ''p'', rf_Asserter = replicate 32 1, rf_Kind = RefBuildsOn,
     rf_From = Claim_ID sample_crypto (sample_claim 1), rf_To = Claim_ID sample_crypto (sample_claim 0),
     rf_Nonce = n, rf_AssertedAt = 0, rf_Signature = []\<rparr>"

definition sample_edge :: "b32 \<Rightarrow> reference" where
  "sample_edge n = sample_edge_draft n\<lparr>rf_Signature :=
     ed_sign sample_crypto (sample_priv 1) (Reference_CanonicalBytes sample_crypto (sample_edge_draft n))\<rparr>"

lemma sample_claim_ids: "Claim_ID sample_crypto (sample_claim 0) = 6886" "Claim_ID sample_crypto (sample_claim 1) = 6887"
proof -
  have z: "sample_sha (b32_bytes 0) = 0" "sample_sha (b32_bytes 1) = 1" by (simp_all add: b32_bytes_def upt_rec)
  have st: "sample_stamp (Claim_CanonicalBytes sample_crypto cl) = replicate 24 1 @ 0 # map (\<lambda>ch. word_of_nat (of_char ch)) ''cloudy/''" for cl
    by (simp add: sample_stamp_def Claim_CanonicalBytes_def sample_eval domainClaim_def numeral_eq_Suc)
  have sig: "cl_Signature (sample_claim n) = replicate 32 1 @ replicate 24 1 @ 0 # map (\<lambda>ch. word_of_nat (of_char ch)) ''cloudy/''" for n
    using st [of "sample_claim_draft n"] by (simp add: sample_claim_def sample_crypto_def sample_priv_def)
  have len: "length (Claim_CanonicalBytes sample_crypto (sample_claim n)) = 397" for n
    by (simp add: Claim_CanonicalBytes_def sample_claim_def sample_claim_draft_def sample_eval domainClaim_def KindFact_def)
  have sum: "sample_sha (Claim_CanonicalBytes sample_crypto (sample_claim 0)) = 3097"
    "sample_sha (Claim_CanonicalBytes sample_crypto (sample_claim 1)) = 3098"
    by (simp_all add: Claim_CanonicalBytes_def sample_claim_def sample_claim_draft_def sample_eval domainClaim_def KindFact_def z)
  show "Claim_ID sample_crypto (sample_claim 0) = 6886" "Claim_ID sample_crypto (sample_claim 1) = 6887"
    by (simp_all add: Claim_ID_def sum sig len sample_eval domainTechID_def)
qed

lemma sample_claim_verifies: "Claim_Verify sample_crypto (sample_claim n)"
proof -
  have "Claim_CanonicalBytes sample_crypto (sample_claim n) = Claim_CanonicalBytes sample_crypto (sample_claim_draft n)"
    by (simp add: Claim_CanonicalBytes_def sample_claim_def)
  then show ?thesis
    using sig_ok_keypair [OF sample_keypair, of 1] keypair_verify(2) [OF sample_keypair, of 1]
    by (simp add: Claim_Verify_def PublicKeySize_def sample_claim_def [of n] sample_claim_draft_def validKind_def)
qed

lemma sample_edge_verifies: "Reference_Verify sample_crypto (sample_edge n)"
proof -
  have "Reference_CanonicalBytes sample_crypto (sample_edge n) = Reference_CanonicalBytes sample_crypto (sample_edge_draft n)"
    by (simp add: Reference_CanonicalBytes_def sample_edge_def)
  then show ?thesis
    using sig_ok_keypair [OF sample_keypair, of 1] keypair_verify(2) [OF sample_keypair, of 1]
    by (simp add: Reference_Verify_def PublicKeySize_def sample_edge_def [of n] sample_edge_draft_def validRefKind_def sample_claim_ids)
qed

definition sample_tree0 :: tech_tree where
  "sample_tree0 = \<lparr>tr_platform = ''p'', tr_claims = Map.empty, tr_refs = Map.empty, tr_log = [], tr_head = 0\<rparr>"

lemma sample_tree0_new: "NewTree ''p'' = Inr sample_tree0"
  by (simp add: NewTree_def sample_tree0_def)

lemma sample_tree_built:
  "\<exists>t1 t2 t3. AddClaim sample_crypto sample_tree0 (sample_claim 0) = Inr (6886, t1) \<and>
     AddClaim sample_crypto t1 (sample_claim 1) = Inr (6887, t2) \<and>
     AddReference sample_crypto t2 (sample_edge 0) = Inr (Reference_ID sample_crypto (sample_edge 0), t3) \<and>
     tr_log t1 = [claim_item (sample_claim 0)] \<and> tr_log t2 = [claim_item (sample_claim 0), claim_item (sample_claim 1)]"
proof -
  have p: "cl_Platform (sample_claim n) = ''p''" "cl_Claimant (sample_claim n) = replicate 32 1" for n
    by (simp_all add: sample_claim_def sample_claim_draft_def)
  have e: "rf_Platform (sample_edge n) = ''p''" "rf_From (sample_edge n) = 6887"
    "rf_To (sample_edge n) = 6886" "rf_Asserter (sample_edge n) = replicate 32 1" for n
    by (simp_all add: sample_edge_def sample_edge_draft_def sample_claim_ids)
  show ?thesis
    by (simp add: AddClaim_Inr AddReference_Inr claim_gates_def ref_gates_def sample_claim_verifies sample_edge_verifies
        sample_claim_ids p e sample_tree0_def builds_on_def claim_item_def)
qed

lemma sample_tree_reach:
  "\<exists>t1 t2 t3. AddClaim sample_crypto sample_tree0 (sample_claim 0) = Inr (6886, t1) \<and>
     AddReference sample_crypto t2 (sample_edge 0) = Inr (Reference_ID sample_crypto (sample_edge 0), t3) \<and>
     Tree_Log t1 = [claim_item (sample_claim 0)] \<and> tr_log t2 = [claim_item (sample_claim 0), claim_item (sample_claim 1)] \<and>
     admits (tree_do sample_crypto) sample_tree0 t1 \<and> admits (tree_do sample_crypto) sample_tree0 t3 \<and>
     Tree_Log t3 = [claim_item (sample_claim 0), claim_item (sample_claim 1), ref_item (sample_edge 0)]"
proof -
  obtain t1 t2 t3 where b: "AddClaim sample_crypto sample_tree0 (sample_claim 0) = Inr (6886, t1)"
    "AddClaim sample_crypto t1 (sample_claim 1) = Inr (6887, t2)"
    "AddReference sample_crypto t2 (sample_edge 0) = Inr (Reference_ID sample_crypto (sample_edge 0), t3)"
    "tr_log t1 = [claim_item (sample_claim 0)]" "tr_log t2 = [claim_item (sample_claim 0), claim_item (sample_claim 1)]"
    using sample_tree_built by blast
  have d: "tree_do sample_crypto sample_tree0 (claim_item (sample_claim 0)) = Inr t1"
    "tree_do sample_crypto t1 (claim_item (sample_claim 1)) = Inr t2" "tree_do sample_crypto t2 (ref_item (sample_edge 0)) = Inr t3"
    using b by (simp_all add: tree_do_claim tree_do_ref sample_claim_ids)
  have r: "admits (tree_do sample_crypto) sample_tree0 t1" "admits (tree_do sample_crypto) sample_tree0 t3"
    by (rule run_all_admits [of _ _ "[claim_item (sample_claim 0)]"], simp add: d)
       (rule run_all_admits [of _ _ "[claim_item (sample_claim 0), claim_item (sample_claim 1), ref_item (sample_edge 0)]"], simp add: d)
  have e: "tr_log sample_tree0 = []" by (simp add: sample_tree0_def)
  show ?thesis using b r reach_Log [OF r(1) e] reach_Log [OF r(2) e] tree_do_log [OF d(3)] by auto
qed

section \<open>Properties\<close>

text \<open>What \<open>AddReference\<close> admits. An edge is admitted exactly when it is bound to the tree's platform, verifies, joins two
  stored claims, is asserted by the claimant of its source, is new, and, if it is a \<open>builds_on\<close> edge, its target does
  not already build on its source through any chain of stored \<open>builds_on\<close> edges; the depth-first search terminates
  and decides exactly that.\<close>

theorem AddReference_admits_iff:
  "(\<exists>i t'. AddReference c t r = Inr (i, t')) \<longleftrightarrow>
     rf_Platform r = tr_platform t \<and> Reference_Verify c r \<and>
     (\<exists>from. tr_claims t (rf_From r) = Some from \<and> cl_Claimant from = rf_Asserter r) \<and> tr_claims t (rf_To r) \<noteq> None \<and>
     \<not> (rf_Kind r = RefBuildsOn \<and> (rf_To r, rf_From r) \<in> (builds_on (tr_log t))\<^sup>*) \<and> tr_refs t (Reference_ID c r) = None"
  by (auto simp: AddReference_Inr ref_gates_def)

text \<open>C35: the invariants of every tree built by \<open>AddClaim\<close> and \<open>AddReference\<close>: the \<open>builds_on\<close> edges of its log are acyclic, no
  claim or reference occurs twice, every claim verifies for the platform and is returned under its identifier, and
  every edge verifies, joins two claims of the log and is drawn by the claimant of its source.\<close>

theorem tech_tree_sound:
  assumes "NewTree p = Inr t0" and "admits (tree_do c) t0 t"
  shows "acyclic (builds_on (Tree_Log t)) \<and>
    distinct (map (Claim_ID c) (claims_of (Tree_Log t))) \<and> distinct (map (Reference_ID c) (refs_of (Tree_Log t))) \<and>
    list_all (\<lambda>cl. Claim_Verify c cl \<and> cl_Platform cl = p \<and> Tree_Claim t (Claim_ID c cl) = Some cl) (claims_of (Tree_Log t)) \<and>
    list_all (\<lambda>r. Reference_Verify c r \<and> rf_Platform r = p \<and> Tree_Claim t (rf_To r) \<noteq> None \<and>
      (\<exists>cl. Tree_Claim t (rf_From r) = Some cl \<and> cl_Claimant cl = rf_Asserter r)) (refs_of (Tree_Log t))"
proof -
  have e: "tr_log t0 = []" "tr_platform t0 = p" using assms(1) by (auto simp: NewTree_def split: if_splits)
  note log = reach_Log [OF assms(2) e(1)]
  have inv: "tree_inv c t" by (rule tree_reach_inv [OF assms(2) tree_inv_New [OF assms(1)]])
  note I = inv [unfolded tree_inv_def]
  have p: "tr_platform t = p"
    using assms(2) e(2) by (induction rule: admits.induct) (auto dest: tree_do_log)
  have cl: "Tree_Claim t i = Some cl \<longleftrightarrow> cl \<in> set (claims_of (tr_log t)) \<and> i = Claim_ID c cl" for i cl
    using I by (simp add: Tree_Claim_def option.map_comp)
  have "list_all (\<lambda>r. Reference_Verify c r \<and> rf_Platform r = p \<and> Tree_Claim t (rf_To r) \<noteq> None \<and>
      (\<exists>cl. Tree_Claim t (rf_From r) = Some cl \<and> cl_Claimant cl = rf_Asserter r)) (refs_of (tr_log t))"
    unfolding list_all_iff
  proof
    fix r assume r: "r \<in> set (refs_of (tr_log t))"
    then obtain fr dst where "fr \<in> set (claims_of (tr_log t))" "Claim_ID c fr = rf_From r" "cl_Claimant fr = rf_Asserter r"
      "dst \<in> set (claims_of (tr_log t))" "Claim_ID c dst = rf_To r" using I by blast
    then show "Reference_Verify c r \<and> rf_Platform r = p \<and> Tree_Claim t (rf_To r) \<noteq> None \<and>
        (\<exists>cl. Tree_Claim t (rf_From r) = Some cl \<and> cl_Claimant cl = rf_Asserter r)"
      using I r p cl [of "rf_To r" dst] cl [of "rf_From r" fr] by auto
  qed
  moreover have "list_all (\<lambda>cl. Claim_Verify c cl \<and> cl_Platform cl = p \<and> Tree_Claim t (Claim_ID c cl) = Some cl) (claims_of (tr_log t))"
    using I p cl by (simp add: list_all_iff)
  ultimately show ?thesis using I unfolding log by blast
qed

theorem tech_tree_sound_witness:
  "\<exists>t. admits (tree_do sample_crypto) sample_tree0 t \<and> refs_of (Tree_Log t) = [sample_edge 0] \<and> acyclic (builds_on (Tree_Log t)) \<and>
     Tree_Claim t (rf_To (sample_edge 0)) \<noteq> None"
proof -
  obtain t3 where t: "admits (tree_do sample_crypto) sample_tree0 t3"
    "Tree_Log t3 = [claim_item (sample_claim 0), claim_item (sample_claim 1), ref_item (sample_edge 0)]"
    using sample_tree_reach by blast
  have "refs_of (Tree_Log t3) = [sample_edge 0]" by (simp add: t(2) refs_of_def map_filter_def)
  with t(1) tech_tree_sound [OF sample_tree0_new t(1)] show ?thesis by (intro exI [of _ t3]) simp
qed

text \<open>\<open>OpenLog\<close> is exact. It accepts a platform and a list of items exactly when some tree built for that platform by
  the live \<open>AddClaim\<close> and \<open>AddReference\<close> calls has that list as its log, and it then returns that very tree, claims,
  references, log and head.\<close>

theorem Tree_OpenLog_exact:
  "Tree_OpenLog c p items = Inr t \<longleftrightarrow>
     (\<exists>t0. NewTree p = Inr t0 \<and> admits (tree_do c) t0 t \<and> Tree_Log t = items)"
proof -
  have "run_all (tree_do c) t0 items = Inr t \<longleftrightarrow> admits (tree_do c) t0 t \<and> Tree_Log t = items" if "NewTree p = Inr t0" for t0
  proof -
    have e: "tr_log t0 = []" using that by (auto simp: NewTree_def split: if_splits)
    show ?thesis
    proof
      assume run: "run_all (tree_do c) t0 items = Inr t"
      have adm: "admits (tree_do c) t0 t" by (rule run_all_admits [OF run])
      then show "admits (tree_do c) t0 t \<and> Tree_Log t = items" using tech.run_log [OF run] reach_Log [OF adm e] e by simp
    next
      assume "admits (tree_do c) t0 t \<and> Tree_Log t = items"
      then show "run_all (tree_do c) t0 items = Inr t" using tech.replay_rebuilds [of c t0 t] reach_Log [of c t0 t] e by simp
    qed
  qed
  then show ?thesis by (auto simp: Tree_OpenLog_def run_replay split: sum.splits)
qed

text \<open>The chain head commits to the log. Two trees with logs of equal length and equal heads have the same log, item by
  item up to the wire width of their instants, when the hash has no collision among the payloads of the two logs: reordering
  or altering an artifact changes the head.\<close>

theorem Tree_Head_commits:
  assumes "canon_laws c" and "collision_free c (head_payloads c (Tree_Log t) @ head_payloads c (Tree_Log u))"
    and "NewTree p = Inr t0" and "admits (tree_do c) t0 t" and "NewTree q = Inr u0" and "admits (tree_do c) u0 u"
    and "length (Tree_Log t) = length (Tree_Log u)" and "Tree_Head t = Tree_Head u"
  shows "list_all2 same_item (Tree_Log t) (Tree_Log u)"
proof -
  have e: "tr_log t0 = []" "tr_log u0 = []" "tr_head t0 = 0" "tr_head u0 = 0"
    using assms(3,5) by (auto simp: NewTree_def split: if_splits)
  have t: "Tree_Log t = tr_log t" and u: "Tree_Log u = tr_log u" using reach_Log assms(4,6) e by blast+
  let ?leaf = "\<lambda>it. b32_bytes (leaf_of c it)"
  have "collision_free c (chain_links c domainChain (tr_head t0) (map ?leaf (tr_log t)) @ chain_links c domainChain (tr_head t0) (map ?leaf (tr_log u)))"
    by (rule collision_free_mono [OF assms(2)]) (auto simp: t u e head_payloads_def)
  from tech.head_determines_leaves [OF assms(1,4) e(1) assms(6) e(2) _ this] have "map ?leaf (tr_log t) = map ?leaf (tr_log u)"
    using assms(7,8) by (simp add: t u e Tree_Head_def)
  then have "map b32_bytes (map (leaf_of c) (tr_log t)) = map b32_bytes (map (leaf_of c) (tr_log u))" by (simp add: comp_def)
  then have "map (leaf_of c) (tr_log t) = map (leaf_of c) (tr_log u)" by (rule map_injective) (simp add: inj_def)
  moreover have "collision_free c (map (item_payload c) (tr_log t) @ map (item_payload c) (tr_log u))"
    by (rule collision_free_mono [OF assms(2)]) (auto simp: t u head_payloads_def)
  ultimately show ?thesis
    unfolding t u using reach_items [OF assms(4) e(1)] reach_items [OF assms(6) e(2)] by (intro items_same [OF assms(1)]) auto
qed

theorem Tree_Head_commits_witness:
  "\<exists>t u. admits (tree_do sample_crypto) sample_tree0 t \<and> Tree_OpenLog sample_crypto ''p'' (Tree_Log t) = Inr u \<and>
     Tree_Log t = [claim_item (sample_claim 0)] \<and> Tree_Head t = Tree_Head u \<and> list_all2 same_item (Tree_Log t) (Tree_Log u)"
proof -
  obtain t where t: "admits (tree_do sample_crypto) sample_tree0 t" "Tree_Log t = [claim_item (sample_claim 0)]"
    using sample_tree_reach by blast
  have e: "tr_log sample_tree0 = []" by (simp add: sample_tree0_def)
  have "run_all (tree_do sample_crypto) sample_tree0 (Tree_Log t) = Inr t"
    using tech.replay_rebuilds [OF t(1) e] reach_Log [OF t(1) e] by simp
  then have o: "Tree_OpenLog sample_crypto ''p'' (Tree_Log t) = Inr t" by (simp add: Tree_OpenLog_def sample_tree0_new run_replay)
  have pay: "sha256 sample_crypto (item_payload sample_crypto (claim_item (sample_claim 0))) = 6886"
    using sample_claim_ids(1) by (simp add: item_payload_def Claim_ID_def)
  have chain: "sha256 sample_crypto (chain_link sample_crypto domainChain 0 (b32_bytes 6886)) = 2678"
    by (simp add: chain_link_def sample_eval domainChain_def b32_bytes_def upt_rec)
  have "collision_free sample_crypto (head_payloads sample_crypto (Tree_Log t) @ head_payloads sample_crypto (Tree_Log t))"
    using pay chain by (auto simp: t(2) head_payloads_def sample_claim_ids collision_free_def inj_on_def)
  then have "list_all2 same_item (Tree_Log t) (Tree_Log t)"
    using Tree_Head_commits [OF sample_canon_laws _ sample_tree0_new t(1) sample_tree0_new t(1)] by blast
  then show ?thesis using t o by blast
qed

text \<open>Citation weight counts distinct members. Admitting a reference adds one to the weight of its target under its kind
  if no earlier edge of that kind to that claim has the same asserter, and changes nothing else, so repeating an edge
  from one member never inflates a weight.\<close>

theorem CitationWeight_step:
  assumes "AddReference c t r = Inr (i, t')"
  shows "\<forall>j k. weight_count (CitationWeight t' j) k = weight_count (CitationWeight t j) k +
    (if j = rf_To r \<and> k = rf_Kind r \<and> \<not> (\<exists>r' \<in> set (refs_of (tr_log t)). rf_To r' = j \<and> rf_Kind r' = k \<and> rf_Asserter r' = rf_Asserter r)
     then 1 else 0)"
proof (intro allI)
  fix j k
  have log: "tr_log t' = tr_log t @ [ref_item r]" and v: "validRefKind (rf_Kind r)"
    using assms by (auto simp: AddReference_Inr ref_gates_def Reference_Verify_def)
  have mem: "(\<exists>r' \<in> set (refs_of (tr_log t)). rf_To r' = j \<and> rf_Kind r' = k \<and> rf_Asserter r' = rf_Asserter r) \<longleftrightarrow>
      rf_Asserter r \<in> asserters (tr_log t) j k"
    by (auto simp: asserters_def intro: sym)
  show "weight_count (CitationWeight t' j) k = weight_count (CitationWeight t j) k +
    (if j = rf_To r \<and> k = rf_Kind r \<and> \<not> (\<exists>r' \<in> set (refs_of (tr_log t)). rf_To r' = j \<and> rf_Kind r' = k \<and> rf_Asserter r' = rf_Asserter r)
     then 1 else 0)"
    unfolding mem using v by (auto simp: CitationWeight_card log asserters_append finite_asserters insert_absorb)
qed

theorem CitationWeight_step_witness:
  "\<exists>t t'. AddReference sample_crypto t (sample_edge 0) = Inr (Reference_ID sample_crypto (sample_edge 0), t') \<and>
     wt_BuildsOn (CitationWeight t 6886) = 0 \<and> wt_BuildsOn (CitationWeight t' 6886) = 1 \<and> wt_Cites (CitationWeight t' 6886) = 0"
proof -
  obtain t2 t3 where t: "AddReference sample_crypto t2 (sample_edge 0) = Inr (Reference_ID sample_crypto (sample_edge 0), t3)"
    "tr_log t2 = [claim_item (sample_claim 0), claim_item (sample_claim 1)]"
    using sample_tree_reach by blast
  have sel: "rf_To (sample_edge 0) = 6886" "rf_Kind (sample_edge 0) = RefBuildsOn"
    by (simp_all add: sample_edge_def sample_edge_draft_def sample_claim_ids)
  have z: "CitationWeight t2 6886 = \<lparr>wt_Cites = 0, wt_BuildsOn = 0, wt_Reproduces = 0, wt_Refutes = 0, wt_Contests = 0\<rparr>"
    by (simp add: CitationWeight_def t(2))
  have r: "refs_of (tr_log t2) = []" by (simp add: t(2) refs_of_def map_filter_def)
  note step = CitationWeight_step [OF t(1), unfolded sel r, simplified, rule_format, of 6886]
  have "wt_BuildsOn (CitationWeight t3 6886) = 1" "wt_Cites (CitationWeight t3 6886) = 0"
    using step [of RefBuildsOn] step [of RefCites] by (simp_all add: weight_count_def ref_kind_defs z)
  then show ?thesis using t(1) z by (intro exI [of _ t2] exI [of _ t3]) simp
qed

end
