(* ===== verification/Market.thy ===== *)
theory Market
  imports Replay Sample
begin

text \<open>
  The product catalog of \<open>internal/market\<close>: the hardware allowlist (\<open>category.go\<close>), accepted settlement rails
  (\<open>rails.go\<close>), maker-signed listings (\<open>listing.go\<close>) and the append-only hash-chained catalog of listings and
  recorded sales (\<open>catalog.go\<close>). A sale's leaf is the canonical encoding itself, a listing's the 32 bytes of its
  identifier, as in the source.
\<close>

section \<open>Categories and rails\<close>

datatype market_error =
    MktWrongPlatform | MktBadSignature | MktDuplicate | MktUnknownListing | MktZeroExchange | MktEmptyPlatform
  | MktPlatformUnset | MktMakerMalformed | MktBadCategory | MktZeroSpec | MktNoRail | MktNonceDraw | MktKeyMalformed | MktKeyNotMaker
  | MktItemBoth nat | MktItemEmpty nat | MktReplayListing nat market_error | MktReplaySale nat market_error

type_synonym category = string

definition CategoryComputer :: category where "CategoryComputer = ''computer''"
definition CategoryMobilePhone :: category where "CategoryMobilePhone = ''mobile_phone''"
definition CategoryTablet :: category where "CategoryTablet = ''tablet''"
definition CategorySmartTV :: category where "CategorySmartTV = ''smart_tv''"
definition CategoryTVStreamingStick :: category where "CategoryTVStreamingStick = ''tv_streaming_stick''"
definition CategoryNASStorage :: category where "CategoryNASStorage = ''nas_storage''"

definition validCategory :: "category \<Rightarrow> bool" where
  "validCategory k \<longleftrightarrow> k = CategoryComputer \<or> k = CategoryMobilePhone \<or> k = CategoryTablet \<or>
     k = CategorySmartTV \<or> k = CategoryTVStreamingStick \<or> k = CategoryNASStorage"

definition Categories :: "category list" where
  "Categories = [CategoryComputer, CategoryMobilePhone, CategoryTablet, CategorySmartTV, CategoryTVStreamingStick, CategoryNASStorage]"

record accepted_rails =
  ra_Fiat :: bool
  ra_MemberCredit :: bool

definition AcceptedRails_Valid :: "accepted_rails \<Rightarrow> bool" where
  "AcceptedRails_Valid r \<longleftrightarrow> ra_Fiat r \<or> ra_MemberCredit r"

unbundle bit_operations_syntax

definition canonByte :: "accepted_rails \<Rightarrow> byte" where
  "canonByte r = (let b = (0 :: byte); b = (if ra_Fiat r then b OR 1 else b) in if ra_MemberCredit r then b OR 2 else b)"

section \<open>Listings\<close>

definition domainListing :: string where "domainListing = ''cloudy/market/listing/v0''"
definition domainMarketID :: string where "domainMarketID = ''cloudy/market/id/v0''"
definition domainMarketChain :: string where "domainMarketChain = ''cloudy/market/chain/v0''"

type_synonym spec_ref = b32
type_synonym sale_ref = b32
type_synonym listing_id = b32

record listing =
  li_Platform :: string
  li_Maker :: bytes
  li_Category :: category
  li_Spec :: spec_ref
  li_Rails :: accepted_rails
  li_Nonce :: b32
  li_ListedAt :: gotime
  li_Signature :: bytes

definition NewListing ::
  "string \<Rightarrow> bytes \<Rightarrow> category \<Rightarrow> spec_ref \<Rightarrow> accepted_rails \<Rightarrow> gotime \<Rightarrow> b32 option \<Rightarrow> market_error + listing" where
  "NewListing platform maker cat spec rails at rnd =
     (if platform = '''' then Inl MktPlatformUnset
      else if length maker \<noteq> PublicKeySize then Inl MktMakerMalformed
      else if \<not> validCategory cat then Inl MktBadCategory
      else if spec = 0 then Inl MktZeroSpec
      else if \<not> AcceptedRails_Valid rails then Inl MktNoRail
      else case rnd of None \<Rightarrow> Inl MktNonceDraw | Some nonce \<Rightarrow>
        Inr \<lparr>li_Platform = platform, li_Maker = map id maker, li_Category = cat, li_Spec = spec, li_Rails = rails,
             li_Nonce = nonce, li_ListedAt = at, li_Signature = []\<rparr>)"

definition Listing_CanonicalBytes :: "crypto \<Rightarrow> listing \<Rightarrow> bytes" where
  "Listing_CanonicalBytes c l =
     canon_sum c domainListing
       [CString (li_Platform l), CBytes (li_Maker l), CString (li_Category l), CBytes (b32_bytes (li_Spec l)),
        CBytes [canonByte (li_Rails l)], CBytes (b32_bytes (li_Nonce l)), CTime (li_ListedAt l)]"

definition Listing_Sign :: "crypto \<Rightarrow> bytes \<Rightarrow> listing \<Rightarrow> market_error + listing" where
  "Listing_Sign c priv l =
     (if length priv \<noteq> PrivateKeySize then Inl MktKeyMalformed
      else if ed_public c priv \<noteq> li_Maker l then Inl MktKeyNotMaker
      else Inr (l\<lparr>li_Signature := ed_sign c priv (Listing_CanonicalBytes c l)\<rparr>))"

definition Listing_Verify :: "crypto \<Rightarrow> listing \<Rightarrow> bool" where
  "Listing_Verify c l \<longleftrightarrow>
     li_Platform l \<noteq> '''' \<and> validCategory (li_Category l) \<and> li_Spec l \<noteq> 0 \<and> AcceptedRails_Valid (li_Rails l) \<and>
     length (li_Maker l) = PublicKeySize \<and> length (li_Signature l) = SignatureSize \<and>
     sig_ok c (li_Maker l) (Listing_CanonicalBytes c l) (li_Signature l)"

definition Listing_ID :: "crypto \<Rightarrow> listing \<Rightarrow> listing_id" where
  "Listing_ID c l =
     sha256 c (canon_sum c domainMarketID [CString ''listing'', CBytes (Listing_CanonicalBytes c l), CBytes (li_Signature l)])"

section \<open>The catalog\<close>

record sale =
  sa_Listing :: listing_id
  sa_Exchange :: sale_ref
  sa_RecordedAt :: gotime

definition Sale_leaf :: "crypto \<Rightarrow> sale \<Rightarrow> bytes" where
  "Sale_leaf c s =
     canon_sum c domainMarketID [CString ''sale'', CBytes (b32_bytes (sa_Listing s)), CBytes (b32_bytes (sa_Exchange s)), CTime (sa_RecordedAt s)]"

record market_item =
  mi_Listing :: "listing option"
  mi_Sale :: "sale option"

record catalog =
  ct_platform :: string
  ct_listings :: "listing_id \<rightharpoonup> listing"
  ct_sales :: "listing_id \<rightharpoonup> sale_ref list"
  ct_log :: "market_item list"
  ct_head :: b32

definition NewCatalog :: "string \<Rightarrow> market_error + catalog" where
  "NewCatalog platform =
     (if platform = '''' then Inl MktEmptyPlatform
      else Inr \<lparr>ct_platform = platform, ct_listings = Map.empty, ct_sales = Map.empty, ct_log = [], ct_head = 0\<rparr>)"

definition Catalog_Platform :: "catalog \<Rightarrow> string" where "Catalog_Platform ct = ct_platform ct"
definition Catalog_Head :: "catalog \<Rightarrow> b32" where "Catalog_Head ct = ct_head ct"

definition catalog_fold :: "crypto \<Rightarrow> catalog \<Rightarrow> bytes \<Rightarrow> catalog" where
  "catalog_fold c ct leaf = ct\<lparr>ct_head := sha256 c (canon_sum c domainMarketChain [CBytes (b32_bytes (ct_head ct)), CBytes leaf])\<rparr>"

definition cloneListing :: "listing \<Rightarrow> listing" where
  "cloneListing l = l\<lparr>li_Maker := map id (li_Maker l), li_Signature := map id (li_Signature l)\<rparr>"

definition AddListing :: "crypto \<Rightarrow> catalog \<Rightarrow> listing \<Rightarrow> market_error + listing_id \<times> catalog" where
  "AddListing c ct l =
     (if li_Platform l \<noteq> ct_platform ct then Inl MktWrongPlatform
      else if \<not> Listing_Verify c l then Inl MktBadSignature
      else let i = Listing_ID c l in
        if ct_listings ct i \<noteq> None then Inl MktDuplicate
        else Inr (i, catalog_fold c
               (ct\<lparr>ct_listings := (ct_listings ct)(i \<mapsto> cloneListing l),
                   ct_log := ct_log ct @ [\<lparr>mi_Listing = Some (cloneListing l), mi_Sale = None\<rparr>]\<rparr>) (b32_bytes i)))"

definition RecordSale :: "crypto \<Rightarrow> catalog \<Rightarrow> listing_id \<Rightarrow> sale_ref \<Rightarrow> gotime \<Rightarrow> market_error + catalog" where
  "RecordSale c ct li exchange at =
     (if ct_listings ct li = None then Inl MktUnknownListing
      else if exchange = 0 then Inl MktZeroExchange
      else if list_ex (\<lambda>e. e = exchange) (map_get (ct_sales ct) li []) then Inl MktDuplicate
      else let s = \<lparr>sa_Listing = li, sa_Exchange = exchange, sa_RecordedAt = at\<rparr> in
        Inr (catalog_fold c
          (ct\<lparr>ct_sales := (ct_sales ct)(li \<mapsto> map_get (ct_sales ct) li [] @ [exchange]),
              ct_log := ct_log ct @ [\<lparr>mi_Listing = None, mi_Sale = Some s\<rparr>]\<rparr>) (Sale_leaf c s)))"

definition Catalog_Listing :: "catalog \<Rightarrow> listing_id \<Rightarrow> listing option" where
  "Catalog_Listing ct i = map_option cloneListing (ct_listings ct i)"

definition SalesOf :: "catalog \<Rightarrow> listing_id \<Rightarrow> sale_ref list" where
  "SalesOf ct i = map_get (ct_sales ct) i []"

fun by_category :: "crypto \<Rightarrow> category \<Rightarrow> market_item list \<Rightarrow> listing_id list" where
  "by_category c cat [] = []"
| "by_category c cat (it # items) =
     (case mi_Listing it of None \<Rightarrow> by_category c cat items
      | Some l \<Rightarrow> (if li_Category l = cat then [Listing_ID c l] else []) @ by_category c cat items)"

definition ByCategory :: "crypto \<Rightarrow> catalog \<Rightarrow> category \<Rightarrow> listing_id list" where
  "ByCategory c ct cat = by_category c cat (ct_log ct)"

definition Catalog_Log :: "catalog \<Rightarrow> market_item list" where
  "Catalog_Log ct = map (\<lambda>it. if mi_Listing it \<noteq> None then \<lparr>mi_Listing = map_option cloneListing (mi_Listing it), mi_Sale = None\<rparr>
     else \<lparr>mi_Listing = None, mi_Sale = mi_Sale it\<rparr>) (ct_log ct)"

definition catalog_replay :: "crypto \<Rightarrow> catalog \<Rightarrow> nat \<times> market_item \<Rightarrow> market_error + catalog" where
  "catalog_replay c ct = (\<lambda>(i, it).
     case (mi_Listing it, mi_Sale it) of
       (Some _, Some _) \<Rightarrow> Inl (MktItemBoth i)
     | (Some l, None) \<Rightarrow> (case AddListing c ct l of Inl e \<Rightarrow> Inl (MktReplayListing i e) | Inr (_, ct') \<Rightarrow> Inr ct')
     | (None, Some s) \<Rightarrow> (case RecordSale c ct (sa_Listing s) (sa_Exchange s) (sa_RecordedAt s) of
         Inl e \<Rightarrow> Inl (MktReplaySale i e) | Inr ct' \<Rightarrow> Inr ct')
     | (None, None) \<Rightarrow> Inl (MktItemEmpty i))"

definition Catalog_OpenLog :: "crypto \<Rightarrow> string \<Rightarrow> market_item list \<Rightarrow> market_error + catalog" where
  "Catalog_OpenLog c platform items =
     (case NewCatalog platform of Inl e \<Rightarrow> Inl e
      | Inr ct \<Rightarrow> run_all (catalog_replay c) ct (zip [0..<length items] items))"

section \<open>Admission\<close>

lemma cloneListing_id [simp]: "cloneListing l = l"
  by (simp add: cloneListing_def)

lemma canonByte_inject: "canonByte r = canonByte r' \<longleftrightarrow> r = r'"
  by (cases r; cases r') (simp add: canonByte_def Let_def)

definition listing_item :: "listing \<Rightarrow> market_item" where
  "listing_item l = \<lparr>mi_Listing = Some l, mi_Sale = None\<rparr>"

definition sale_item :: "sale \<Rightarrow> market_item" where
  "sale_item s = \<lparr>mi_Listing = None, mi_Sale = Some s\<rparr>"

definition market_leaf :: "crypto \<Rightarrow> market_item \<Rightarrow> bytes" where
  "market_leaf c it = (case mi_Listing it of Some l \<Rightarrow> b32_bytes (Listing_ID c l) | None \<Rightarrow>
     case mi_Sale it of Some s \<Rightarrow> Sale_leaf c s | None \<Rightarrow> [])"

lemma market_item_sel [simp]:
  "mi_Listing (listing_item l) = Some l" "mi_Sale (listing_item l) = None"
  "mi_Listing (sale_item s) = None" "mi_Sale (sale_item s) = Some s"
  "market_leaf c (listing_item l) = b32_bytes (Listing_ID c l)" "market_leaf c (sale_item s) = Sale_leaf c s"
  by (simp_all add: listing_item_def sale_item_def market_leaf_def)

lemma AddListing_Inr:
  "AddListing c ct l = Inr (i, ct') \<longleftrightarrow>
     li_Platform l = ct_platform ct \<and> Listing_Verify c l \<and> ct_listings ct (Listing_ID c l) = None \<and> i = Listing_ID c l \<and>
     ct' = ct\<lparr>ct_listings := (ct_listings ct)(i \<mapsto> l), ct_log := ct_log ct @ [listing_item l],
              ct_head := sha256 c (chain_link c domainMarketChain (ct_head ct) (b32_bytes i))\<rparr>"
  by (auto simp: AddListing_def catalog_fold_def chain_link_def listing_item_def Let_def)

lemma RecordSale_Inr:
  "RecordSale c ct li ex at = Inr ct' \<longleftrightarrow>
     ct_listings ct li \<noteq> None \<and> ex \<noteq> 0 \<and> ex \<notin> set (SalesOf ct li) \<and>
     ct' = ct\<lparr>ct_sales := (ct_sales ct)(li \<mapsto> SalesOf ct li @ [ex]),
              ct_log := ct_log ct @ [sale_item \<lparr>sa_Listing = li, sa_Exchange = ex, sa_RecordedAt = at\<rparr>],
              ct_head := sha256 c (chain_link c domainMarketChain (ct_head ct) (Sale_leaf c \<lparr>sa_Listing = li, sa_Exchange = ex, sa_RecordedAt = at\<rparr>))\<rparr>"
  by (auto simp: RecordSale_def catalog_fold_def chain_link_def sale_item_def SalesOf_def Let_def list_ex_iff)

text \<open>One call on a catalog: its two operations as a step over log items.\<close>

definition catalog_do :: "crypto \<Rightarrow> catalog \<Rightarrow> market_item \<Rightarrow> market_error + catalog" where
  "catalog_do c ct it = catalog_replay c ct (0, it)"

lemma catalog_do_cases:
  assumes "catalog_do c ct it = Inr ct'"
  obtains (listing) l where "it = listing_item l" "AddListing c ct l = Inr (Listing_ID c l, ct')"
    | (sale) s where "it = sale_item s" "RecordSale c ct (sa_Listing s) (sa_Exchange s) (sa_RecordedAt s) = Inr ct'"
  using assms
  by (cases it) (auto simp: catalog_do_def catalog_replay_def AddListing_Inr listing_item_def sale_item_def
      split: option.splits sum.splits)

lemma catalog_do_log:
  assumes "catalog_do c ct it = Inr ct'"
  shows "ct_log ct' = ct_log ct @ [it] \<and> ct_platform ct' = ct_platform ct \<and>
     ct_head ct' = sha256 c (chain_link c domainMarketChain (ct_head ct) (market_leaf c it))"
  using assms
proof (cases rule: catalog_do_cases)
  case (sale s)
  then show ?thesis by (cases s) (auto simp: RecordSale_Inr)
qed (auto simp: AddListing_Inr)

interpretation mkt: chained_log "catalog_do c" ct_log c domainMarketChain ct_head "market_leaf c" for c
  by unfold_locales (simp_all add: catalog_do_log)

section \<open>What every reachable catalog satisfies\<close>

definition listings_of :: "market_item list \<Rightarrow> listing list" where
  "listings_of items = List.map_filter mi_Listing items"

definition sales_of :: "market_item list \<Rightarrow> sale list" where
  "sales_of items = List.map_filter mi_Sale items"

lemma market_of_append [simp]:
  "listings_of (items @ [listing_item l]) = listings_of items @ [l]" "sales_of (items @ [listing_item l]) = sales_of items"
  "listings_of (items @ [sale_item s]) = listings_of items" "sales_of (items @ [sale_item s]) = sales_of items @ [s]"
  "listings_of [] = []" "sales_of [] = []"
  by (simp_all add: listings_of_def sales_of_def map_filter_def)

lemma by_category_filter: "by_category c cat items = map (Listing_ID c) (filter (\<lambda>l. li_Category l = cat) (listings_of items))"
  by (induction items) (auto simp: listings_of_def map_filter_def split: option.splits)

definition sales_for :: "listing_id \<Rightarrow> sale list \<Rightarrow> sale_ref list" where
  "sales_for i ss = map sa_Exchange (filter (\<lambda>s. sa_Listing s = i) ss)"

definition catalog_inv :: "crypto \<Rightarrow> catalog \<Rightarrow> bool" where
  "catalog_inv c ct \<longleftrightarrow>
     (\<forall>i l. ct_listings ct i = Some l \<longleftrightarrow> l \<in> set (listings_of (ct_log ct)) \<and> i = Listing_ID c l) \<and>
     distinct (map (Listing_ID c) (listings_of (ct_log ct))) \<and>
     (\<forall>l \<in> set (listings_of (ct_log ct)). Listing_Verify c l \<and> li_Platform l = ct_platform ct) \<and>
     (\<forall>s \<in> set (sales_of (ct_log ct)). sa_Exchange s \<noteq> 0 \<and> ct_listings ct (sa_Listing s) \<noteq> None) \<and>
     (\<forall>i. SalesOf ct i = sales_for i (sales_of (ct_log ct)) \<and> distinct (sales_for i (sales_of (ct_log ct))))"

lemma catalog_inv_New: "NewCatalog p = Inr ct \<Longrightarrow> catalog_inv c ct"
  by (auto simp: NewCatalog_def catalog_inv_def SalesOf_def sales_for_def split: if_splits)

lemma catalog_inv_listing:
  assumes inv: "catalog_inv c ct" and add: "AddListing c ct l = Inr (i, ct')"
  shows "catalog_inv c ct'"
proof -
  have i: "i = Listing_ID c l" and g: "ct_listings ct i = None" "Listing_Verify c l" "li_Platform l = ct_platform ct"
    and ct': "ct' = ct\<lparr>ct_listings := (ct_listings ct)(i \<mapsto> l), ct_log := ct_log ct @ [listing_item l],
        ct_head := sha256 c (chain_link c domainMarketChain (ct_head ct) (b32_bytes i))\<rparr>"
    using add by (auto simp: AddListing_Inr)
  note I = inv [unfolded catalog_inv_def]
  have new: "\<forall>l' \<in> set (listings_of (ct_log ct)). Listing_ID c l' \<noteq> i" using g(1) I by (metis option.distinct(1))
  show ?thesis
    unfolding catalog_inv_def
  proof (intro conjI)
    show "\<forall>j l'. ct_listings ct' j = Some l' \<longleftrightarrow> l' \<in> set (listings_of (ct_log ct')) \<and> j = Listing_ID c l'"
      using I new i by (auto simp: ct')
    show "distinct (map (Listing_ID c) (listings_of (ct_log ct')))" using I new i by (auto simp: ct')
    show "\<forall>i. SalesOf ct' i = sales_for i (sales_of (ct_log ct')) \<and> distinct (sales_for i (sales_of (ct_log ct')))"
      using I by (simp add: ct' SalesOf_def)
  qed (use I g in \<open>auto simp: ct'\<close>)
qed

lemma catalog_inv_sale:
  assumes inv: "catalog_inv c ct" and add: "RecordSale c ct li ex at = Inr ct'"
  shows "catalog_inv c ct'"
proof -
  let ?s = "\<lparr>sa_Listing = li, sa_Exchange = ex, sa_RecordedAt = at\<rparr>"
  have g: "ct_listings ct li \<noteq> None" "ex \<noteq> 0" "ex \<notin> set (SalesOf ct li)"
    and ct': "ct' = ct\<lparr>ct_sales := (ct_sales ct)(li \<mapsto> SalesOf ct li @ [ex]), ct_log := ct_log ct @ [sale_item ?s],
        ct_head := sha256 c (chain_link c domainMarketChain (ct_head ct) (Sale_leaf c ?s))\<rparr>"
    using add by (auto simp: RecordSale_Inr)
  note I = inv [unfolded catalog_inv_def]
  have s: "SalesOf ct' i = (if i = li then SalesOf ct li @ [ex] else SalesOf ct i)" for i by (simp add: ct' SalesOf_def)
  have l: "sales_for i (sales_of (ct_log ct')) = sales_for i (sales_of (ct_log ct)) @ (if i = li then [ex] else [])" for i
    by (simp add: ct' sales_for_def)
  show ?thesis
    unfolding catalog_inv_def
  proof (intro conjI)
    show "\<forall>i. SalesOf ct' i = sales_for i (sales_of (ct_log ct')) \<and> distinct (sales_for i (sales_of (ct_log ct')))" using I g(3) by (auto simp: s l)
    show "\<forall>s \<in> set (sales_of (ct_log ct')). sa_Exchange s \<noteq> 0 \<and> ct_listings ct' (sa_Listing s) \<noteq> None"
      using I g by (auto simp: ct')
  qed (use I in \<open>simp_all add: ct', blast?\<close>)
qed

lemma catalog_reach_inv: "admits (catalog_do c) s t \<Longrightarrow> catalog_inv c s \<Longrightarrow> catalog_inv c t"
proof (induction rule: admits.induct)
  case (admits_step s t it u)
  from admits_step.hyps(2) show ?case
    by (rule catalog_do_cases) (use admits_step catalog_inv_listing catalog_inv_sale in blast)+
qed simp

lemma catalog_items:
  assumes "admits (catalog_do c) ct0 ct" and "ct_log ct0 = []"
  shows "\<forall>it \<in> set (ct_log ct). \<exists>l s. it = listing_item l \<or> it = sale_item s"
  using assms
proof (induction rule: admits.induct)
  case (admits_step s t it u)
  then show ?case using catalog_do_log [OF admits_step.hyps(2)] catalog_do_cases [OF admits_step.hyps(2)] by auto metis
qed simp

lemma catalog_reach_log:
  assumes "admits (catalog_do c) ct0 ct" and "ct_log ct0 = []"
  shows "Catalog_Log ct = ct_log ct"
  unfolding Catalog_Log_def using catalog_items [OF assms] by (intro map_idI) (auto simp: listing_item_def sale_item_def)

lemma catalog_replay_do: "catalog_replay c ct (i, it) = Inr ct' \<longleftrightarrow> catalog_do c ct it = Inr ct'"
  by (auto simp: catalog_do_def catalog_replay_def split: option.splits sum.splits)

section \<open>Properties\<close>

text \<open>What every catalog holds. In any catalog built by \<open>AddListing\<close> and \<open>RecordSale\<close> every listing verifies for the
  platform, occurs once and is returned under its identifier; \<open>SalesOf\<close> is the sales of that listing in the log, in
  append order, non-zero and without repetition, of a listing that exists; \<open>ByCategory\<close> returns exactly the listings of
  the category, each once, in append order.\<close>

theorem catalog_sound:
  assumes "NewCatalog p = Inr ct0" and "admits (catalog_do c) ct0 ct"
  shows "list_all (\<lambda>l. Listing_Verify c l \<and> li_Platform l = p \<and> Catalog_Listing ct (Listing_ID c l) = Some l) (listings_of (Catalog_Log ct)) \<and>
    list_all (\<lambda>s. sa_Exchange s \<noteq> 0 \<and> Catalog_Listing ct (sa_Listing s) \<noteq> None) (sales_of (Catalog_Log ct)) \<and>
    (\<forall>i. SalesOf ct i = map sa_Exchange (filter (\<lambda>s. sa_Listing s = i) (sales_of (Catalog_Log ct))) \<and> distinct (SalesOf ct i)) \<and>
    (\<forall>cat. ByCategory c ct cat = map (Listing_ID c) (filter (\<lambda>l. li_Category l = cat) (listings_of (Catalog_Log ct))) \<and>
       distinct (ByCategory c ct cat))"
proof -
  have e: "ct_log ct0 = []" "ct_platform ct0 = p" using assms(1) by (auto simp: NewCatalog_def split: if_splits)
  note log = catalog_reach_log [OF assms(2) e(1)]
  have p: "ct_platform ct = p" using assms(2) e(2) by (induction rule: admits.induct) (auto dest: catalog_do_log)
  have I: "catalog_inv c ct" by (rule catalog_reach_inv [OF assms(2) catalog_inv_New [OF assms(1)]])
  have "distinct (ByCategory c ct cat)" for cat
    using I unfolding ByCategory_def by_category_filter catalog_inv_def by (meson distinct_map_filter)
  then show ?thesis
    using I p by (simp add: log catalog_inv_def list_all_iff ByCategory_def by_category_filter sales_for_def Catalog_Listing_def) metis
qed

definition sample_listing_draft :: listing where
  "sample_listing_draft = \<lparr>li_Platform = ''p'', li_Maker = replicate 32 1, li_Category = CategoryTablet, li_Spec = 7,
     li_Rails = \<lparr>ra_Fiat = True, ra_MemberCredit = False\<rparr>, li_Nonce = 3, li_ListedAt = 0, li_Signature = []\<rparr>"

definition sample_listing :: listing where
  "sample_listing = sample_listing_draft\<lparr>li_Signature :=
     ed_sign sample_crypto (sample_priv 1) (Listing_CanonicalBytes sample_crypto sample_listing_draft)\<rparr>"

lemma sample_listing_verifies: "Listing_Verify sample_crypto sample_listing"
proof -
  have "Listing_CanonicalBytes sample_crypto sample_listing = Listing_CanonicalBytes sample_crypto sample_listing_draft"
    by (simp add: Listing_CanonicalBytes_def sample_listing_def)
  then show ?thesis
    using sig_ok_keypair [OF sample_keypair, of 1] keypair_verify(2) [OF sample_keypair, of 1]
    by (simp add: Listing_Verify_def PublicKeySize_def sample_listing_def sample_listing_draft_def validCategory_def AcceptedRails_Valid_def)
qed

theorem catalog_sound_witness:
  "\<exists>ct0 ct. NewCatalog ''p'' = Inr ct0 \<and> admits (catalog_do sample_crypto) ct0 ct \<and>
     SalesOf ct (Listing_ID sample_crypto sample_listing) = [5] \<and>
     ByCategory sample_crypto ct CategoryTablet = [Listing_ID sample_crypto sample_listing]"
proof -
  let ?i = "Listing_ID sample_crypto sample_listing"
  let ?s = "\<lparr>sa_Listing = ?i, sa_Exchange = 5, sa_RecordedAt = 0\<rparr>"
  obtain ct0 where n: "NewCatalog ''p'' = Inr ct0" "ct_log ct0 = []" "ct_platform ct0 = ''p''" "ct_listings ct0 = Map.empty" "ct_sales ct0 = Map.empty"
    by (simp add: NewCatalog_def)
  have pl: "li_Platform sample_listing = ''p''" by (simp add: sample_listing_def sample_listing_draft_def)
  obtain ct1 where a: "AddListing sample_crypto ct0 sample_listing = Inr (?i, ct1)" "ct_sales ct1 = Map.empty" "ct_listings ct1 ?i \<noteq> None"
    using n sample_listing_verifies pl by (simp add: AddListing_Inr)
  obtain ct2 where b: "RecordSale sample_crypto ct1 ?i 5 0 = Inr ct2" using a by (auto simp: RecordSale_Inr SalesOf_def)
  have "run_all (catalog_do sample_crypto) ct0 [listing_item sample_listing, sale_item ?s] = Inr ct2"
    using a(1) b by (simp add: catalog_do_def catalog_replay_def)
  then have r: "admits (catalog_do sample_crypto) ct0 ct2" and l: "ct_log ct2 = [listing_item sample_listing, sale_item ?s]"
    using run_all_admits mkt.run_log n(2) by fastforce+
  have "Catalog_Log ct2 = [listing_item sample_listing, sale_item ?s]" using catalog_reach_log [OF r n(2)] l by simp
  moreover from this have "sales_of (Catalog_Log ct2) = [?s]" "listings_of (Catalog_Log ct2) = [sample_listing]"
    by (simp_all add: sales_of_def listings_of_def map_filter_def)
  ultimately show ?thesis
    using catalog_sound [OF n(1) r] n(1) r
    by (intro exI [of _ ct0] exI [of _ ct2]) (simp add: sample_listing_def sample_listing_draft_def)
qed

text \<open>\<open>OpenLog\<close> of the catalog is exact. It accepts a platform and a list of items exactly when a catalog built for that
  platform by the live calls has that log, and returns that very catalog, head included.\<close>

theorem Catalog_OpenLog_exact:
  "Catalog_OpenLog c p items = Inr ct \<longleftrightarrow>
     (\<exists>ct0. NewCatalog p = Inr ct0 \<and> admits (catalog_do c) ct0 ct \<and> Catalog_Log ct = items)"
proof -
  have "run_all (catalog_do c) ct0 items = Inr ct \<longleftrightarrow> admits (catalog_do c) ct0 ct \<and> Catalog_Log ct = items" if "NewCatalog p = Inr ct0" for ct0
  proof -
    have e: "ct_log ct0 = []" using that by (auto simp: NewCatalog_def split: if_splits)
    show ?thesis
    proof
      assume run: "run_all (catalog_do c) ct0 items = Inr ct"
      have adm: "admits (catalog_do c) ct0 ct" by (rule run_all_admits [OF run])
      then show "admits (catalog_do c) ct0 ct \<and> Catalog_Log ct = items" using mkt.run_log [OF run] catalog_reach_log [OF adm e] e by simp
    next
      assume "admits (catalog_do c) ct0 ct \<and> Catalog_Log ct = items"
      then show "run_all (catalog_do c) ct0 items = Inr ct" using mkt.replay_rebuilds [of c ct0 ct] catalog_reach_log [of c ct0 ct] e by simp
    qed
  qed
  then show ?thesis
    by (auto simp: Catalog_OpenLog_def run_all_indexed [of "catalog_replay c" "catalog_do c", OF catalog_replay_do] split: sum.splits)
qed

end
