(* ===== verification/Entropy.thy ===== *)
theory Entropy
  imports Prelude "HOL-Library.Multiset"
begin

text \<open>
  Randomness and big-endian integers of \<open>internal/storage\<close> (\<open>rand.go\<close>, the sampler of \<open>placement.go\<close>). An
  \<open>io.Reader\<close> of entropy is the list of bytes it will yield: \<open>io.ReadFull\<close> takes a prefix, and a list that is too short is
  the read error. \<open>randOr\<close> only chooses the reader, so every function here takes the reader it uses and returns what is
  left of it. The rejection loop consumes eight bytes a round, so it ends on every finite stream.
\<close>

type_synonym entropy = bytes

datatype storage_error =
    EntropyRead | UniformBound | ErrObjectTooLarge | ErrCorruptFrame | BadShardK | EncodeLength | BadShardCount | ErrShardMissing nat
  | ErrOpenShard nat | ErrInsufficientHosts | BadWindow | BadMean | BadChallengeCount | ErrBadChallenge | ErrTableExhausted
  | StoragePanic

definition io_ReadFull :: "nat \<Rightarrow> entropy \<Rightarrow> storage_error + bytes \<times> entropy" where
  "io_ReadFull n e = (if length e < n then Inl EntropyRead else Inr (take n e, drop n e))"

unbundle bit_operations_syntax

text \<open>\<open>binary.BigEndian\<close>: the most significant byte first.\<close>

primrec be_bytes :: "nat \<Rightarrow> u64 \<Rightarrow> bytes" where
  "be_bytes 0 v = []"
| "be_bytes (Suc k) v = be_bytes k (drop_bit 8 v) @ [ucast v]"

definition BigEndian_PutUint64 :: "u64 \<Rightarrow> bytes" where
  "BigEndian_PutUint64 v = be_bytes 8 v"

definition BigEndian_Uint64 :: "bytes \<Rightarrow> u64" where
  "BigEndian_Uint64 bs = foldl (\<lambda>a b. push_bit 8 a OR ucast b) 0 bs"

lemma length_be_bytes [simp]: "length (be_bytes k v) = k"
  by (induction k arbitrary: v) simp_all

lemma length_PutUint64 [simp]: "length (BigEndian_PutUint64 v) = 8"
  by (simp add: BigEndian_PutUint64_def)

lemma Uint64_be_bytes: "BigEndian_Uint64 (be_bytes k v) = take_bit (8 * k) v"
proof (induction k arbitrary: v)
  case 0
  then show ?case by (simp add: BigEndian_Uint64_def)
next
  case (Suc k)
  have "BigEndian_Uint64 (be_bytes (Suc k) v) = push_bit 8 (take_bit (8 * k) (drop_bit 8 v)) OR ucast (ucast v :: byte)"
    using Suc.IH [of "drop_bit 8 v"] by (simp add: BigEndian_Uint64_def)
  also have "\<dots> = take_bit (8 * Suc k) v"
    by (rule bit_word_eqI) (auto simp: bit_simps)
  finally show ?case .
qed

lemma Uint64_PutUint64 [simp]: "BigEndian_Uint64 (BigEndian_PutUint64 v) = v"
  by (simp add: BigEndian_PutUint64_def Uint64_be_bytes take_bit_word_eq_self)

lemma PutUint64_inject [simp]: "BigEndian_PutUint64 v = BigEndian_PutUint64 w \<longleftrightarrow> v = w"
  by (metis Uint64_PutUint64)

section \<open>The sampler\<close>

function uniform_loop :: "u64 \<Rightarrow> u64 \<Rightarrow> entropy \<Rightarrow> storage_error + u64 \<times> entropy" where
  "uniform_loop limit n e =
     (case io_ReadFull 8 e of
        Inl err \<Rightarrow> Inl err
      | Inr (buf, e') \<Rightarrow> (let v = BigEndian_Uint64 buf in
          if v < limit then Inr (v mod n, e') else uniform_loop limit n e'))"
  by pat_completeness auto

termination uniform_loop
  by (relation "measure (\<lambda>(limit, n, e). length e)") (auto simp: io_ReadFull_def split: if_splits)

declare uniform_loop.simps [simp del]

definition uniform_limit :: "int \<Rightarrow> u64" where
  "uniform_limit n = (let mx = (- 1 :: u64) in mx - mx mod word_of_int n)"

definition uniformInt :: "entropy \<Rightarrow> int \<Rightarrow> storage_error + int \<times> entropy" where
  "uniformInt e n =
     (if n \<le> 0 then Inl UniformBound
      else case uniform_loop (uniform_limit n) (word_of_int n) e of
        Inl err \<Rightarrow> Inl err | Inr (r, e') \<Rightarrow> Inr (uint r, e'))"

text \<open>\<open>shuffle\<close> from index \<open>i\<close> downwards; the swap reads both positions before writing them.\<close>

fun shuffle_from :: "nat \<Rightarrow> 'a list \<Rightarrow> entropy \<Rightarrow> storage_error + 'a list \<times> entropy" where
  "shuffle_from 0 hs e = Inr (hs, e)"
| "shuffle_from (Suc i) hs e =
     (case uniformInt e (int (Suc i) + 1) of
        Inl err \<Rightarrow> Inl err
      | Inr (j, e') \<Rightarrow> shuffle_from i (hs[Suc i := hs ! nat j, nat j := hs ! Suc i]) e')"

definition shuffle :: "'a list \<Rightarrow> entropy \<Rightarrow> storage_error + 'a list \<times> entropy" where
  "shuffle hs e = shuffle_from (length hs - 1) hs e"

section \<open>Bounds\<close>

lemma uint_word64 [simp]: "0 \<le> n \<Longrightarrow> n < 2 ^ 63 \<Longrightarrow> uint (word_of_int n :: u64) = n"
  by (simp add: unsigned_of_int take_bit_int_eq_self)

lemma uint_max: "uint (- 1 :: u64) = 2 ^ 64 - 1"
  by (simp add: unsigned_minus_1_eq_mask mask_eq_exp_minus_1)

lemma uint_uniform_limit:
  assumes "0 < n" "n < 2 ^ 63"
  shows "uint (uniform_limit n) = n * ((2 ^ 64 - 1) div n)"
proof -
  let ?m = "- 1 :: u64"
  have u: "uint (?m mod word_of_int n) = (2 ^ 64 - 1) mod n" using assms by (simp add: uint_mod uint_max)
  have "uint (?m mod word_of_int n) \<le> uint ?m" unfolding u uint_max using assms by (intro zmod_le_nonneg_dividend) simp
  then have "uint (?m - ?m mod word_of_int n) = uint ?m - uint (?m mod word_of_int n)"
    by (simp add: uint_sub_lem word_le_def)
  also have "\<dots> = n * ((2 ^ 64 - 1) div n)"
    unfolding u uint_max by (simp add: minus_mod_eq_mult_div)
  finally show ?thesis by (simp add: uniform_limit_def Let_def)
qed

lemma uniform_loop_range:
  "uniform_loop limit n e = Inr (r, e') \<Longrightarrow> \<exists>v < limit. r = v mod n"
  by (induction limit n e rule: uniform_loop.induct)
     (subst (asm) uniform_loop.simps, auto simp: Let_def split: sum.splits if_splits)

lemma uniform_loop_error: "uniform_loop limit n e = Inl err \<Longrightarrow> err = EntropyRead"
  by (induction limit n e rule: uniform_loop.induct)
     (subst (asm) uniform_loop.simps, auto simp: Let_def io_ReadFull_def split: sum.splits if_splits)

lemma uniformInt_bound:
  assumes "uniformInt e n = Inr (j, e')" and "n < 2 ^ 63"
  shows "0 \<le> j \<and> j < n"
proof -
  have n: "0 < n" using assms(1) by (simp add: uniformInt_def split: if_splits)
  obtain r where r: "uniform_loop (uniform_limit n) (word_of_int n) e = Inr (r, e')" "j = uint r"
    using assms(1) by (auto simp: uniformInt_def split: if_splits sum.splits)
  then obtain v :: u64 where "r = v mod word_of_int n" using uniform_loop_range by blast
  then have "j = uint v mod n" using r(2) n assms(2) by (simp add: uint_mod)
  then show ?thesis using n by simp
qed

lemma uniform_loop_suffix: "uniform_loop limit n e = Inr (r, e') \<Longrightarrow> length e' + 8 \<le> length e"
proof (induction limit n e rule: uniform_loop.induct)
  case (1 limit n e)
  then show ?case
    by (subst (asm) (2) uniform_loop.simps) (fastforce simp: io_ReadFull_def Let_def split: if_splits)
qed

lemma shuffle_from_perm:
  "shuffle_from i hs e = Inr (hs', e') \<Longrightarrow> i < length hs \<Longrightarrow> length hs < 2 ^ 62 \<Longrightarrow> mset hs' = mset hs"
proof (induction i hs e rule: shuffle_from.induct)
  case (2 i hs e)
  then obtain j e1 where j: "uniformInt e (int (Suc i) + 1) = Inr (j, e1)"
    "shuffle_from i (hs[Suc i := hs ! nat j, nat j := hs ! Suc i]) e1 = Inr (hs', e')"
    by (auto split: sum.splits)
  have "Suc i < 2 ^ 62" using 2(3,4) by (rule less_trans)
  then have "int (Suc i) + 1 < 2 ^ 63" by simp
  then have "0 \<le> j \<and> j < int (Suc i) + 1" by (rule uniformInt_bound [OF j(1)])
  then have "nat j < length hs" using 2(3) by linarith
  then have "mset (hs[Suc i := hs ! nat j, nat j := hs ! Suc i]) = mset hs" using 2(3) mset_swap [of "nat j" hs "Suc i"] by (simp add: list_update_swap)
  then show ?case using 2(1) [OF j(1)] j(2) 2(3,4) by simp
qed simp

lemma shuffle_perm: "shuffle hs e = Inr (hs', e') \<Longrightarrow> length hs < 2 ^ 62 \<Longrightarrow> mset hs' = mset hs"
  by (cases "hs = []") (auto simp: shuffle_def intro: shuffle_from_perm)

section \<open>The sampler is unbiased\<close>

lemma Uint64_snoc: "BigEndian_Uint64 (bs @ [b]) = push_bit 8 (BigEndian_Uint64 bs) OR ucast b"
  by (simp add: BigEndian_Uint64_def)

lemma Uint64_small: "bit (BigEndian_Uint64 bs) n \<Longrightarrow> n < 8 * length bs"
  by (induction bs arbitrary: n rule: rev_induct)
     (force simp: Uint64_snoc bit_simps BigEndian_Uint64_def dest: bit_imp_le_length)+

lemma be_bytes_Uint64: "length bs \<le> 8 \<Longrightarrow> be_bytes (length bs) (BigEndian_Uint64 bs) = bs"
proof (induction bs rule: rev_induct)
  case (snoc b bs)
  let ?v = "push_bit 8 (BigEndian_Uint64 bs) OR ucast b :: u64"
  have "drop_bit 8 ?v = BigEndian_Uint64 bs"
  proof (rule bit_word_eqI)
    fix n assume "n < LENGTH(64)"
    show "bit (drop_bit 8 ?v) n \<longleftrightarrow> bit (BigEndian_Uint64 bs) n"
      using Uint64_small [of bs n] snoc.prems by (auto simp: bit_simps dest: bit_imp_le_length)
  qed
  moreover have "ucast ?v = b"
    by (rule bit_word_eqI) (simp add: bit_simps)
  ultimately show ?case using snoc by (simp add: Uint64_snoc)
qed simp

lemma Uint64_bij: "bij_betw BigEndian_Uint64 {buf. length buf = 8} UNIV"
proof (rule bij_betw_byWitness [where f' = BigEndian_PutUint64])
  show "\<forall>buf \<in> {buf. length buf = 8}. BigEndian_PutUint64 (BigEndian_Uint64 buf) = buf"
  proof
    fix buf :: bytes assume "buf \<in> {buf. length buf = 8}"
    then show "BigEndian_PutUint64 (BigEndian_Uint64 buf) = buf" using be_bytes_Uint64 [of buf] by (simp add: BigEndian_PutUint64_def)
  qed
qed auto

lemma int_mult_div_le: "0 < (n :: int) \<Longrightarrow> n * (x div n) \<le> x"
proof -
  assume "0 < n"
  then have "0 \<le> x mod n" by simp
  then show ?thesis using mult_div_mod_eq [of n x] by linarith
qed

lemma residue_count:
  assumes "0 < (n :: int)" "0 \<le> r" "r < n" "0 \<le> q"
  shows "card {x. 0 \<le> x \<and> x < n * q \<and> x mod n = r} = nat q"
proof -
  have "{x. 0 \<le> x \<and> x < n * q \<and> x mod n = r} = (\<lambda>k. n * k + r) ` {0..<q}"
  proof (intro equalityI subsetI)
    fix x assume x: "x \<in> {x. 0 \<le> x \<and> x < n * q \<and> x mod n = r}"
    then have "x = n * (x div n) + r" by (metis (mono_tags, lifting) mem_Collect_eq mult_div_mod_eq)
    moreover have "0 \<le> x div n" using x assms(1) by (simp add: pos_imp_zdiv_nonneg_iff)
    moreover have "x div n < q"
    proof (rule ccontr)
      assume "\<not> x div n < q"
      then have "n * q \<le> n * (x div n)" using assms(1) by (intro mult_left_mono) simp_all
      also have "\<dots> \<le> x" by (rule int_mult_div_le [OF assms(1)])
      finally show False using x by simp
    qed
    ultimately show "x \<in> (\<lambda>k. n * k + r) ` {0..<q}" by auto
  next
    fix x assume "x \<in> (\<lambda>k. n * k + r) ` {0..<q}"
    then obtain k where "k \<in> {0..<q}" and kx: "x = n * k + r" by (rule imageE) blast
    then have k: "x = n * k + r" "0 \<le> k" "k < q" by simp_all
    have "n * k + r < n * (k + 1)" using assms(3) by (simp add: distrib_left)
    also have "\<dots> \<le> n * q" using k(3) assms(1) by (intro mult_left_mono) simp_all
    finally show "x \<in> {x. 0 \<le> x \<and> x < n * q \<and> x mod n = r}" using k assms by simp
  qed
  moreover have "inj_on (\<lambda>k. n * k + r) {0..<q}" using assms(1) by (intro inj_onI) simp
  ultimately show ?thesis by (simp add: card_image)
qed

lemma uniformInt_block:
  assumes "length buf = 8"
  shows "uniformInt (buf @ e) n =
    (if n \<le> 0 then Inl UniformBound
     else if BigEndian_Uint64 buf < uniform_limit n then Inr (uint (BigEndian_Uint64 buf mod word_of_int n), e)
     else uniformInt e n)"
  using assms by (simp add: uniformInt_def uniform_loop.simps [of "uniform_limit n" "word_of_int n" "buf @ e"] io_ReadFull_def Let_def)

lemma uniformInt_empty: "0 < n \<Longrightarrow> uniformInt [] n = Inl EntropyRead"
  by (simp add: uniformInt_def uniform_loop.simps io_ReadFull_def)

lemma accepted_words:
  assumes "0 < n" "n < 2 ^ 63" "0 \<le> r" "r < n"
  shows "card {v :: u64. v < uniform_limit n \<and> uint (v mod word_of_int n) = r} = nat ((2 ^ 64 - 1) div n)"
proof -
  let ?X = "{x. 0 \<le> x \<and> x < n * ((2 ^ 64 - 1) div n) \<and> x mod n = r}"
  have lt: "n * ((2 ^ 64 - 1) div n) \<le> 2 ^ 64 - 1" by (rule int_mult_div_le [OF assms(1)])
  have "bij_betw uint {v :: u64. v < uniform_limit n \<and> uint (v mod word_of_int n) = r} ?X"
  proof (rule bij_betw_byWitness [where f' = word_of_int])
    show "uint ` {v :: u64. v < uniform_limit n \<and> uint (v mod word_of_int n) = r} \<subseteq> ?X"
      using assms by (auto simp: word_less_def uint_uniform_limit uint_mod)
    show "word_of_int ` ?X \<subseteq> {v :: u64. v < uniform_limit n \<and> uint (v mod word_of_int n) = r}"
      using assms lt by (auto simp: word_less_def uint_uniform_limit uint_mod unsigned_of_int take_bit_int_eq_self)
    show "\<forall>x \<in> ?X. uint (word_of_int x :: u64) = x"
      using lt by (auto simp: unsigned_of_int take_bit_int_eq_self)
  qed simp
  then show ?thesis using residue_count [OF assms(1,3,4), of "(2 ^ 64 - 1) div n"] assms(1)
    by (simp add: bij_betw_same_card pos_imp_zdiv_nonneg_iff)
qed

text \<open>\<open>uniformInt\<close> is unbiased. For every bound up to \<open>2 ^ 63\<close> each of the results \<open>0, \<dots>, n - 1\<close> is drawn from exactly the
  same number of eight-byte blocks; a block that yields no result is skipped and the next block decides as if it
  came first; and every result lies in the range.\<close>

theorem uniformInt_unbiased:
  assumes "0 < n" and "n < 2 ^ 63"
  shows "(\<forall>r \<in> {0..<n}. card {buf. length buf = 8 \<and> uniformInt buf n = Inr (r, [])} = nat ((2 ^ 64 - 1) div n)) \<and>
    (\<forall>buf e. length buf = 8 \<longrightarrow> uniformInt buf n = Inl EntropyRead \<longrightarrow> uniformInt (buf @ e) n = uniformInt e n) \<and>
    (\<forall>e j e'. uniformInt e n = Inr (j, e') \<longrightarrow> 0 \<le> j \<and> j < n)"
proof (intro conjI allI ballI impI)
  fix r assume r: "r \<in> {0..<n}"
  let ?ok = "\<lambda>v :: u64. v < uniform_limit n \<and> uint (v mod word_of_int n) = r"
  have "{buf. length buf = 8 \<and> uniformInt buf n = Inr (r, [])} = {buf \<in> {buf. length buf = 8}. ?ok (BigEndian_Uint64 buf)}"
    using assms uniformInt_block [of _ "[]" n] by (auto simp: uniformInt_empty split: if_splits)
  moreover have "bij_betw BigEndian_Uint64 {buf \<in> {buf. length buf = 8}. ?ok (BigEndian_Uint64 buf)} {v. ?ok v}"
    using Uint64_bij by (auto simp: bij_betw_def inj_on_def image_iff)
  ultimately show "card {buf. length buf = 8 \<and> uniformInt buf n = Inr (r, [])} = nat ((2 ^ 64 - 1) div n)"
    using accepted_words [of n r] assms r by (simp add: bij_betw_same_card)
next
  fix buf e assume "length buf = 8" "uniformInt buf n = Inl EntropyRead"
  then show "uniformInt (buf @ e) n = uniformInt e n"
    using uniformInt_block [of buf e n] uniformInt_block [of buf "[]" n] assms(1) by (auto split: if_splits)
qed (use uniformInt_bound assms(2) in blast)+

theorem uniformInt_unbiased_witness:
  "card {buf. length buf = 8 \<and> uniformInt buf 3 = Inr (2, [])} = 6148914691236517205 \<and>
   uniformInt (replicate 8 255 @ [0, 0, 0, 0, 0, 0, 0, 5]) 3 = Inr (2, [])"
proof -
  have b: "(replicate 8 255 :: bytes) = [255, 255, 255, 255, 255, 255, 255, 255]" by (simp add: numeral_eq_Suc)
  have u: "BigEndian_Uint64 (replicate 8 255) = - 1" "BigEndian_Uint64 [0, 0, 0, 0, 0, 0, 0, 5] = 5" "uniform_limit 3 = - 1"
    unfolding b by (simp_all add: BigEndian_Uint64_def uniform_limit_def)
  have rej: "uniformInt (replicate 8 255) 3 = Inl EntropyRead" "uniformInt [0, 0, 0, 0, 0, 0, 0, 5] 3 = Inr (2, [])"
    using uniformInt_block [of "replicate 8 255" "[]" 3] uniformInt_block [of "[0, 0, 0, 0, 0, 0, 0, 5]" "[]" 3]
    by (simp_all add: uniformInt_empty u)
  show ?thesis using uniformInt_unbiased [of 3] rej by simp
qed

end
