(* ===== verification/Storage_Objects.thy ===== *)
theory Storage_Objects
  imports Entropy Sample Wire
begin

text \<open>
  The member-side object pipeline of \<open>internal/storage\<close>: size classes and padding (\<open>quantize.go\<close>), the coder seam and the
  parity-free splitter behind it (\<open>erasure.go\<close>), shard sealing (\<open>seal.go\<close>) and whole objects (\<open>object.go\<close>). AES-GCM is a
  parameter; \<open>aead_ok\<close> names what the code relies on. \<open>Coder\<close> is a Go interface, so it is a record of functions here and
  its contract is the locale \<open>erasure_coder\<close>, interpreted on the splitter. A nil shard is \<open>None\<close>.
\<close>

section \<open>Size classes and padding\<close>

type_synonym size_class = u64

definition ClassSmall :: size_class where "ClassSmall = push_bit 20 1"
definition ClassMedium :: size_class where "ClassMedium = push_bit 20 16"
definition ClassLarge :: size_class where "ClassLarge = push_bit 20 64"

definition classes :: "size_class list" where "classes = [ClassSmall, ClassMedium, ClassLarge]"

definition frameOverhead :: nat where "frameOverhead = 8"

fun class_loop :: "u64 \<Rightarrow> u64 \<Rightarrow> size_class list \<Rightarrow> storage_error + size_class" where
  "class_loop framed dataShards [] = Inl ErrObjectTooLarge"
| "class_loop framed dataShards (k # ks) =
     (if sint framed \<le> sint (k * dataShards) then Inr k else class_loop framed dataShards ks)"

definition classFor :: "int \<Rightarrow> int \<Rightarrow> storage_error + size_class" where
  "classFor n dataShards = class_loop (word_of_int n + word_of_nat frameOverhead) (word_of_int dataShards) classes"

text \<open>\<open>make\<close>, then the length prefix, the plaintext and the random tail: the output written left to right.\<close>

definition pad :: "bytes \<Rightarrow> u64 \<Rightarrow> entropy \<Rightarrow> storage_error + bytes \<times> entropy" where
  "pad plain tot e =
     (let framed = (word_of_nat (length plain) + word_of_nat frameOverhead :: u64) in
      if sint framed > sint tot then Inl ErrObjectTooLarge
      else case io_ReadFull (nat (sint tot - sint framed)) e of
        Inl err \<Rightarrow> Inl err
      | Inr (tail, e') \<Rightarrow> Inr (BigEndian_PutUint64 (word_of_nat (length plain)) @ plain @ tail, e'))"

definition unpad :: "bytes \<Rightarrow> storage_error + bytes" where
  "unpad padded =
     (if length padded < frameOverhead then Inl ErrCorruptFrame
      else let n = BigEndian_Uint64 (take frameOverhead padded) in
        if n > word_of_nat (length padded - frameOverhead) then Inl ErrCorruptFrame
        else Inr (take (unat n) (drop frameOverhead padded)))"

section \<open>The coder\<close>

record coder =
  DataShards :: int
  TotalShards :: int
  Encode :: "bytes \<Rightarrow> int \<Rightarrow> storage_error + bytes list"
  Reconstruct :: "bytes option list \<Rightarrow> storage_error + bytes"

definition Splitter_Encode :: "int \<Rightarrow> bytes \<Rightarrow> int \<Rightarrow> storage_error + bytes list" where
  "Splitter_Encode K data shardSize =
     (if K < 1 then Inl BadShardK
      else if int (length data) \<noteq> K * shardSize then Inl EncodeLength
      else Inr (map (\<lambda>i. take (nat shardSize) (drop (i * nat shardSize) data)) [0..<nat K]))"

fun missing_shard :: "nat \<Rightarrow> bytes option list \<Rightarrow> nat option" where
  "missing_shard i [] = None"
| "missing_shard i (None # shards) = Some i"
| "missing_shard i (Some sh # shards) = missing_shard (Suc i) shards"

definition Splitter_Reconstruct :: "int \<Rightarrow> bytes option list \<Rightarrow> storage_error + bytes" where
  "Splitter_Reconstruct K shards =
     (if int (length shards) \<noteq> K then Inl BadShardCount
      else case missing_shard 0 shards of
        Some i \<Rightarrow> Inl (ErrShardMissing i)
      | None \<Rightarrow> Inr (concat (map the shards)))"

definition StandInSplitter :: "int \<Rightarrow> coder" where
  "StandInSplitter K = \<lparr>DataShards = K, TotalShards = K, Encode = Splitter_Encode K, Reconstruct = Splitter_Reconstruct K\<rparr>"

section \<open>Sealing\<close>

record aead =
  gcm_seal :: "b32 \<Rightarrow> bytes \<Rightarrow> bytes \<Rightarrow> bytes \<Rightarrow> bytes"
  gcm_open :: "b32 \<Rightarrow> bytes \<Rightarrow> bytes \<Rightarrow> bytes \<Rightarrow> bytes option"

text \<open>AES-GCM as documented: opening what was sealed under the same key, nonce and associated data returns the plaintext,
  and the ciphertext is the plaintext's length plus a sixteen-byte tag.\<close>

definition aead_ok :: "aead \<Rightarrow> bool" where
  "aead_ok a \<longleftrightarrow> (\<forall>key nonce plain aad. gcm_open a key nonce (gcm_seal a key nonce plain aad) aad = Some plain \<and>
     length (gcm_seal a key nonce plain aad) = length plain + 16)"

type_synonym object_key = b32
type_synonym object_id = b32

record shard =
  sh_Ref :: b32
  sh_Sealed :: bytes

definition NewObjectKey :: "entropy \<Rightarrow> storage_error + object_key \<times> entropy" where
  "NewObjectKey e = (case io_ReadFull 32 e of Inl err \<Rightarrow> Inl err | Inr (k, e') \<Rightarrow> Inr (b32_of_bytes k, e'))"

definition NewObjectID :: "entropy \<Rightarrow> storage_error + object_id \<times> entropy" where
  "NewObjectID e = (case io_ReadFull 32 e of Inl err \<Rightarrow> Inl err | Inr (k, e') \<Rightarrow> Inr (b32_of_bytes k, e'))"

definition nonceLen :: nat where "nonceLen = 12"

definition shardAAD :: "object_id \<Rightarrow> nat \<Rightarrow> bytes" where
  "shardAAD objectID index = b32_bytes objectID @ BigEndian_PutUint64 (word_of_nat index)"

definition sealShard ::
  "crypto \<Rightarrow> aead \<Rightarrow> entropy \<Rightarrow> object_key \<Rightarrow> object_id \<Rightarrow> nat \<Rightarrow> bytes \<Rightarrow> storage_error + shard \<times> entropy" where
  "sealShard c a e key objectID index payload =
     (case io_ReadFull nonceLen e of
        Inl err \<Rightarrow> Inl err
      | Inr (nonce, e') \<Rightarrow>
          (let sealed = nonce @ gcm_seal a key nonce payload (shardAAD objectID index)
           in Inr (\<lparr>sh_Ref = sha256 c sealed, sh_Sealed = sealed\<rparr>, e')))"

definition openShard :: "aead \<Rightarrow> object_key \<Rightarrow> object_id \<Rightarrow> nat \<Rightarrow> bytes \<Rightarrow> storage_error + bytes" where
  "openShard a key objectID index sealed =
     (if length sealed < nonceLen then Inl (ErrOpenShard index)
      else let nonce = take nonceLen sealed; ct = drop nonceLen sealed in
        case gcm_open a key nonce ct (shardAAD objectID index) of
          None \<Rightarrow> Inl (ErrOpenShard index)
        | Some payload \<Rightarrow> Inr payload)"

section \<open>Objects\<close>

record sealed_object =
  so_ID :: object_id
  so_Class :: size_class
  so_Shards :: "shard list"

fun seal_shards ::
  "crypto \<Rightarrow> aead \<Rightarrow> object_key \<Rightarrow> object_id \<Rightarrow> nat \<Rightarrow> bytes list \<Rightarrow> entropy \<Rightarrow> storage_error + shard list" where
  "seal_shards c a key objectID i [] e = Inr []"
| "seal_shards c a key objectID i (payload # payloads) e =
     (case sealShard c a e key objectID i payload of
        Inl err \<Rightarrow> Inl err
      | Inr (sh, e') \<Rightarrow> (case seal_shards c a key objectID (Suc i) payloads e' of
          Inl err \<Rightarrow> Inl err | Inr shs \<Rightarrow> Inr (sh # shs)))"

definition SealObject ::
  "crypto \<Rightarrow> aead \<Rightarrow> object_key \<Rightarrow> object_id \<Rightarrow> bytes \<Rightarrow> coder \<Rightarrow> entropy \<Rightarrow> storage_error + sealed_object" where
  "SealObject c a key objectID plain cd e =
     (case classFor (int (length plain)) (DataShards cd) of
        Inl err \<Rightarrow> Inl err
      | Inr cls \<Rightarrow> (case pad plain (cls * word_of_int (DataShards cd)) e of
          Inl err \<Rightarrow> Inl err
        | Inr (padded, e') \<Rightarrow> (case Encode cd padded (sint cls) of
            Inl err \<Rightarrow> Inl err
          | Inr raw \<Rightarrow> (case seal_shards c a key objectID 0 raw e' of
              Inl err \<Rightarrow> Inl err
            | Inr shards \<Rightarrow> Inr \<lparr>so_ID = objectID, so_Class = cls, so_Shards = shards\<rparr>))))"

fun open_shards :: "aead \<Rightarrow> object_key \<Rightarrow> object_id \<Rightarrow> nat \<Rightarrow> bytes option list \<Rightarrow> storage_error + bytes option list" where
  "open_shards a key objectID i [] = Inr []"
| "open_shards a key objectID i (s # sealed) =
     (case (case s of None \<Rightarrow> Inr None
            | Some bs \<Rightarrow> (case openShard a key objectID i bs of Inl err \<Rightarrow> Inl err | Inr p \<Rightarrow> Inr (Some p))) of
        Inl err \<Rightarrow> Inl err
      | Inr r \<Rightarrow> (case open_shards a key objectID (Suc i) sealed of Inl err \<Rightarrow> Inl err | Inr rs \<Rightarrow> Inr (r # rs)))"

definition OpenObject :: "aead \<Rightarrow> object_key \<Rightarrow> object_id \<Rightarrow> bytes option list \<Rightarrow> coder \<Rightarrow> storage_error + bytes" where
  "OpenObject a key objectID sealed cd =
     (case open_shards a key objectID 0 sealed of
        Inl err \<Rightarrow> Inl err
      | Inr raw \<Rightarrow> (case Reconstruct cd raw of Inl err \<Rightarrow> Inl err | Inr padded \<Rightarrow> unpad padded))"

section \<open>The contract of a coder\<close>

text \<open>
  What sealing and opening rely on: encoding succeeds on an input of the right length, yields \<open>TotalShards\<close> shards of the
  shard size, and reconstruction from all of them returns the input.
\<close>

locale erasure_coder =
  fixes cd :: coder
  assumes data_shards: "0 < DataShards cd"
    and encode_ok: "int (length data) = DataShards cd * sz \<Longrightarrow> 0 < sz \<Longrightarrow> \<exists>shards. Encode cd data sz = Inr shards"
    and encode_shape: "Encode cd data sz = Inr shards \<Longrightarrow> 0 < sz \<Longrightarrow>
      int (length shards) = TotalShards cd \<and> (\<forall>sh \<in> set shards. int (length sh) = sz)"
    and reconstruct_all: "Encode cd data sz = Inr shards \<Longrightarrow> 0 < sz \<Longrightarrow> Reconstruct cd (map Some shards) = Inr data"

section \<open>The splitter meets it\<close>

lemma missing_shard_Some: "missing_shard i (map (\<lambda>x. Some (f x)) xs) = None"
  by (induction xs arbitrary: i) simp_all

lemma missing_shard_gap:
  "k < length shards \<Longrightarrow> missing_shard i ((map Some shards)[k := None]) = Some (i + k)"
proof (induction shards arbitrary: i k)
  case (Cons sh shards)
  then show ?case by (cases k) simp_all
qed simp

lemma concat_chunks: "length data = k * n \<Longrightarrow> concat (map (\<lambda>i. take n (drop (i * n) data)) [0..<k]) = data"
proof (induction k arbitrary: data)
  case (Suc k)
  have "concat (map (\<lambda>i. take n (drop (i * n) data)) [0..<Suc k]) = concat (map (\<lambda>i. take n (drop (i * n) (take (k * n) data))) [0..<k]) @ take n (drop (k * n) data)"
  proof -
    have "take n (drop (i * n) data) = take n (drop (i * n) (take (k * n) data))" if "i < k" for i
    proof -
      have "i * n + n \<le> k * n" using that by (metis Suc_leI add.commute mult_Suc mult_le_mono1)
      then show ?thesis by (simp add: drop_take min_def)
    qed
    then have "map (\<lambda>i. take n (drop (i * n) data)) [0..<k] = map (\<lambda>i. take n (drop (i * n) (take (k * n) data))) [0..<k]"
      by (intro map_cong) simp_all
    then have c: "concat (map (\<lambda>i. take n (drop (i * n) data)) [0..<k]) = concat (map (\<lambda>i. take n (drop (i * n) (take (k * n) data))) [0..<k])"
      by (rule arg_cong)
    show ?thesis by (simp add: c)
  qed
  also have "concat (map (\<lambda>i. take n (drop (i * n) (take (k * n) data))) [0..<k]) = take (k * n) data"
    using Suc.prems by (intro Suc.IH) simp
  also have "take n (drop (k * n) data) = drop (k * n) data" using Suc.prems by simp
  finally show ?case by (simp only: append_take_drop_id)
qed simp

lemma Splitter_coder:
  assumes "0 < K"
  shows "erasure_coder (StandInSplitter K)"
proof
  show "0 < DataShards (StandInSplitter K)" using assms by (simp_all add: StandInSplitter_def)
  fix data :: bytes and sz :: int and shards assume sz: "0 < sz"
  show "\<exists>shards. Encode (StandInSplitter K) data sz = Inr shards" if "int (length data) = DataShards (StandInSplitter K) * sz"
    using that assms by (simp add: StandInSplitter_def Splitter_Encode_def)
  assume enc: "Encode (StandInSplitter K) data sz = Inr shards"
  have len: "length data = nat K * nat sz" and sh: "shards = map (\<lambda>i. take (nat sz) (drop (i * nat sz) data)) [0..<nat K]"
    using enc assms sz by (auto simp: StandInSplitter_def Splitter_Encode_def nat_mult_distrib [symmetric] split: if_splits)
  have "length (take (nat sz) (drop (i * nat sz) data)) = nat sz" if "i < nat K" for i
  proof -
    have "i * nat sz + nat sz \<le> nat K * nat sz" using that by (metis Suc_leI add.commute mult_Suc mult_le_mono1)
    then show ?thesis using len by (simp only: length_take length_drop) linarith
  qed
  then show "int (length shards) = TotalShards (StandInSplitter K) \<and> (\<forall>sh \<in> set shards. int (length sh) = sz)"
    using assms sz by (auto simp: sh StandInSplitter_def)
  show "Reconstruct (StandInSplitter K) (map Some shards) = Inr data"
    using assms concat_chunks [OF len] by (simp add: StandInSplitter_def Splitter_Reconstruct_def missing_shard_Some sh comp_def)
qed

interpretation splitter: erasure_coder "StandInSplitter (int (Suc k))" for k
  by (rule Splitter_coder) simp

section \<open>Padding and classes\<close>

lemma class_values: "sint ClassSmall = 2 ^ 20" "sint ClassMedium = 2 ^ 24" "sint ClassLarge = 2 ^ 26"
  by (simp_all add: ClassSmall_def ClassMedium_def ClassLarge_def)

lemma sint64_mult:
  assumes "0 \<le> sint a" "0 \<le> sint (b :: u64)" "sint a * sint b \<le> 9223372036854775807"
  shows "sint (a * b) = sint a * sint b"
proof -
  have "sint (word_of_int (sint a * sint b) :: u64) = sint a * sint b"
    using assms by (intro sint64_of_int) (auto intro: order_trans [OF _ mult_nonneg_nonneg])
  then show ?thesis by simp
qed

text \<open>The class the loop picks, over the integers: no product of a class and fewer than \<open>2 ^ 36\<close> shards overflows.\<close>

definition fits :: "nat \<Rightarrow> int \<Rightarrow> size_class \<Rightarrow> bool" where
  "fits n d k \<longleftrightarrow> int n + 8 \<le> sint k * d"

lemma class_test:
  assumes "n < 2 ^ 62" "0 < d" "d < 2 ^ 36" "k \<in> set classes"
  shows "sint (word_of_int (int n) + word_of_nat frameOverhead :: u64) \<le> sint (k * word_of_int d) \<longleftrightarrow> fits n d k"
    and "sint (k * word_of_int d) = sint k * d" and "sint (word_of_nat n + word_of_nat frameOverhead :: u64) = int n + 8"
proof -
  have d: "sint (word_of_int d :: u64) = d" using assms by (intro sint64_of_int) simp_all
  have k: "0 \<le> sint k" "sint k \<le> 2 ^ 26" using assms(4) by (auto simp: classes_def class_values)
  have "sint k * d \<le> 2 ^ 26 * 2 ^ 36" using k assms by (intro mult_mono) simp_all
  then show m: "sint (k * word_of_int d) = sint k * d" using k assms sint64_mult [of k "word_of_int d"] by (simp add: d)
  have n: "int n < 2 ^ 62" using assms(1) by (metis of_nat_less_iff of_nat_numeral of_nat_power)
  have "sint (word_of_int (int n + 8) :: u64) = int n + 8" using n by (intro sint64_of_int) simp_all
  then show f: "sint (word_of_nat n + word_of_nat frameOverhead :: u64) = int n + 8" by (simp add: frameOverhead_def)
  show "sint (word_of_int (int n) + word_of_nat frameOverhead :: u64) \<le> sint (k * word_of_int d) \<longleftrightarrow> fits n d k"
    using f m by (simp add: fits_def)
qed

lemma classFor_exact:
  assumes "n < 2 ^ 62" "0 < d" "d < 2 ^ 36"
  shows "classFor (int n) d =
    (if fits n d ClassSmall then Inr ClassSmall else if fits n d ClassMedium then Inr ClassMedium
     else if fits n d ClassLarge then Inr ClassLarge else Inl ErrObjectTooLarge)"
  unfolding classFor_def using class_test(1) [OF assms] by (simp add: classes_def)

lemma pad_exact:
  assumes "length plain < 2 ^ 62" "int (length plain) + 8 \<le> sint tot"
  shows "pad plain tot e =
    (case io_ReadFull (nat (sint tot) - (length plain + 8)) e of Inl err \<Rightarrow> Inl err
     | Inr (tail, e') \<Rightarrow> Inr (BigEndian_PutUint64 (word_of_nat (length plain)) @ plain @ tail, e'))"
proof -
  have f: "sint (word_of_nat (length plain) + word_of_nat frameOverhead :: u64) = int (length plain) + 8"
    using class_test(3) [OF assms(1), of 1 ClassSmall] by (simp add: classes_def)
  have "nat (sint tot - (int (length plain) + 8)) = nat (sint tot) - (length plain + 8)" using assms(2) by linarith
  then show ?thesis using assms(2) by (simp add: pad_def Let_def f)
qed

lemma unpad_frame:
  assumes "length plain < 2 ^ 62" "length tail < 2 ^ 63"
  shows "unpad (BigEndian_PutUint64 (word_of_nat (length plain)) @ plain @ tail) = Inr plain"
proof -
  have "unat (word_of_nat (length plain) :: u64) = length plain"
    using assms by (intro unat_word_of_nat64) simp
  moreover have "unat (word_of_nat (length plain + length tail) :: u64) = length plain + length tail"
    using assms by (intro unat_word_of_nat64) simp
  ultimately show ?thesis by (simp add: unpad_def frameOverhead_def Let_def word_less_nat_alt del: of_nat_add)
qed

section \<open>Sealing and opening\<close>

definition sealed_of :: "crypto \<Rightarrow> aead \<Rightarrow> object_key \<Rightarrow> object_id \<Rightarrow> nat \<Rightarrow> bytes \<Rightarrow> bytes \<Rightarrow> shard" where
  "sealed_of c a key objectID i nonce payload =
     (let sealed = nonce @ gcm_seal a key nonce payload (shardAAD objectID i) in \<lparr>sh_Ref = sha256 c sealed, sh_Sealed = sealed\<rparr>)"

lemma open_sealed:
  "aead_ok a \<Longrightarrow> length nonce = nonceLen \<Longrightarrow> openShard a key objectID i (sh_Sealed (sealed_of c a key objectID i nonce payload)) = Inr payload"
  by (simp add: openShard_def sealed_of_def Let_def aead_ok_def)

fun sealed_list :: "crypto \<Rightarrow> aead \<Rightarrow> object_key \<Rightarrow> object_id \<Rightarrow> nat \<Rightarrow> bytes list \<Rightarrow> bytes list \<Rightarrow> shard list" where
  "sealed_list c a key objectID i (n # ns) (p # ps) = sealed_of c a key objectID i n p # sealed_list c a key objectID (Suc i) ns ps"
| "sealed_list c a key objectID i _ _ = []"

lemma seal_shards_Inr:
  "seal_shards c a key objectID i payloads e = Inr shs \<Longrightarrow>
     \<exists>nonces. length nonces = length payloads \<and> (\<forall>n \<in> set nonces. length n = nonceLen) \<and>
       shs = sealed_list c a key objectID i nonces payloads"
proof (induction payloads arbitrary: i e shs)
  case (Cons p ps)
  then obtain nonce e' shs' where n: "io_ReadFull nonceLen e = Inr (nonce, e')" and rec: "seal_shards c a key objectID (Suc i) ps e' = Inr shs'"
    and shs: "shs = sealed_of c a key objectID i nonce p # shs'"
    by (auto simp: sealShard_def sealed_of_def Let_def split: sum.splits)
  from Cons.IH [OF rec] obtain nonces where IH: "length nonces = length ps" "\<forall>n \<in> set nonces. length n = nonceLen"
    "shs' = sealed_list c a key objectID (Suc i) nonces ps" by blast
  have "length nonce = nonceLen" using n by (auto simp: io_ReadFull_def split: if_splits)
  then show ?case using IH shs by (intro exI [of _ "nonce # nonces"]) simp
qed simp

lemma seal_shards_ok:
  "nonceLen * length payloads \<le> length e \<Longrightarrow> \<exists>shs. seal_shards c a key objectID i payloads e = Inr shs"
proof (induction payloads arbitrary: i e)
  case (Cons p ps)
  have r: "io_ReadFull nonceLen e = Inr (take nonceLen e, drop nonceLen e)" using Cons.prems by (simp add: io_ReadFull_def)
  have "nonceLen * length ps \<le> length (drop nonceLen e)" using Cons.prems by simp
  then obtain shs where "seal_shards c a key objectID (Suc i) ps (drop nonceLen e) = Inr shs" using Cons.IH by blast
  then show ?case by (simp add: sealShard_def r Let_def)
qed simp

lemma sealed_list_shape:
  assumes "aead_ok a" "length nonces = length payloads" "\<forall>n \<in> set nonces. length n = nonceLen"
  shows "length (sealed_list c a key objectID i nonces payloads) = length payloads \<and>
    (\<forall>sh \<in> set (sealed_list c a key objectID i nonces payloads). sh_Ref sh = sha256 c (sh_Sealed sh) \<and>
       (\<exists>p \<in> set payloads. length (sh_Sealed sh) = nonceLen + length p + 16))"
  using assms(2,3) assms(1)
proof (induction nonces payloads arbitrary: i rule: list_induct2)
  case (Cons n ns p ps)
  have "length (sh_Sealed (sealed_of c a key objectID i n p)) = nonceLen + length p + 16"
    "sh_Ref (sealed_of c a key objectID i n p) = sha256 c (sh_Sealed (sealed_of c a key objectID i n p))"
    using Cons.prems by (simp_all add: sealed_of_def Let_def aead_ok_def)
  then show ?case using Cons.IH [of "Suc i"] Cons.prems by auto
qed simp

lemma open_sealed_list:
  assumes "aead_ok a" "length nonces = length payloads" "\<forall>n \<in> set nonces. length n = nonceLen"
  shows "open_shards a key objectID i (map (Some \<circ> sh_Sealed) (sealed_list c a key objectID i nonces payloads)) = Inr (map Some payloads)"
  using assms(2,3)
  by (induction nonces payloads arbitrary: i rule: list_induct2) (simp_all add: open_sealed [OF assms(1)])

lemma open_sealed_gap:
  assumes "aead_ok a" "length nonces = length payloads" "\<forall>n \<in> set nonces. length n = nonceLen" "k < length payloads"
  shows "open_shards a key objectID i ((map (Some \<circ> sh_Sealed) (sealed_list c a key objectID i nonces payloads))[k := None]) =
    Inr ((map Some payloads)[k := None])"
  using assms(2-4)
proof (induction nonces payloads arbitrary: i k rule: list_induct2)
  case (Cons n ns p ps)
  then show ?case
    using open_sealed_list [OF assms(1), of ns ps key objectID "Suc i" c, unfolded comp_def] by (cases k) (simp_all add: open_sealed [OF assms(1)])
qed simp

section \<open>Objects, for any coder that meets the contract\<close>

context erasure_coder
begin

lemma seal_cases:
  assumes "length plain < 2 ^ 62" "DataShards cd < 2 ^ 36" "SealObject c a key objectID plain cd e = Inr so"
  obtains cls tail raw nonces where "classFor (int (length plain)) (DataShards cd) = Inr cls" "cls \<in> set classes" "fits (length plain) (DataShards cd) cls"
    "Encode cd (BigEndian_PutUint64 (word_of_nat (length plain)) @ plain @ tail) (sint cls) = Inr raw"
    "length tail < 2 ^ 63" "length nonces = length raw" "\<forall>n \<in> set nonces. length n = nonceLen"
    "so = \<lparr>so_ID = objectID, so_Class = cls, so_Shards = sealed_list c a key objectID 0 nonces raw\<rparr>"
proof -
  obtain cls padded e' raw shards where s: "classFor (int (length plain)) (DataShards cd) = Inr cls"
    "pad plain (cls * word_of_int (DataShards cd)) e = Inr (padded, e')" "Encode cd padded (sint cls) = Inr raw"
    "seal_shards c a key objectID 0 raw e' = Inr shards" "so = \<lparr>so_ID = objectID, so_Class = cls, so_Shards = shards\<rparr>"
    using assms(3) by (auto simp: SealObject_def split: sum.splits)
  have cls: "cls \<in> set classes" "fits (length plain) (DataShards cd) cls"
    using s(1) unfolding classFor_exact [OF assms(1) data_shards assms(2)] by (auto simp: classes_def split: if_splits)
  have tot: "sint (cls * word_of_int (DataShards cd)) = sint cls * DataShards cd"
    by (rule class_test(2) [OF assms(1) data_shards assms(2) cls(1)])
  have "\<exists>tail. padded = BigEndian_PutUint64 (word_of_nat (length plain)) @ plain @ tail \<and> length tail < 2 ^ 63"
  proof -
    have "sint (cls * word_of_int (DataShards cd)) < 2 ^ 63" using sint64_range [of "cls * word_of_int (DataShards cd)"] by simp
    then show ?thesis
      using s(2) pad_exact [OF assms(1), of "cls * word_of_int (DataShards cd)" e] cls(2)
      by (auto simp: tot fits_def io_ReadFull_def split: if_splits)
  qed
  moreover obtain nonces where "length nonces = length raw" "\<forall>n \<in> set nonces. length n = nonceLen" "shards = sealed_list c a key objectID 0 nonces raw"
    using seal_shards_Inr [OF s(4)] by blast
  ultimately show thesis using that s cls by blast
qed

lemma seal_open:
  assumes "aead_ok a" "length plain < 2 ^ 62" "DataShards cd < 2 ^ 36" "SealObject c a key objectID plain cd e = Inr so"
  shows "OpenObject a key objectID (map (Some \<circ> sh_Sealed) (so_Shards so)) cd = Inr plain"
proof -
  obtain cls tail raw nonces where s: "cls \<in> set classes"
    "Encode cd (BigEndian_PutUint64 (word_of_nat (length plain)) @ plain @ tail) (sint cls) = Inr raw" "length tail < 2 ^ 63"
    "length nonces = length raw" "\<forall>n \<in> set nonces. length n = nonceLen"
    "so = \<lparr>so_ID = objectID, so_Class = cls, so_Shards = sealed_list c a key objectID 0 nonces raw\<rparr>"
    by (rule seal_cases [OF assms(2,3,4)]) blast
  have "0 < sint cls" using s(1) by (auto simp: classes_def class_values)
  then show ?thesis
    using reconstruct_all [OF s(2)] unpad_frame [OF assms(2) s(3)] open_sealed_list [OF assms(1) s(4,5), of key objectID 0 c]
    by (simp add: OpenObject_def s(6))
qed

lemma seal_shape:
  assumes "aead_ok a" "length plain < 2 ^ 62" "DataShards cd < 2 ^ 36" "SealObject c a key objectID plain cd e = Inr so"
  shows "int (length (so_Shards so)) = TotalShards cd \<and> classFor (int (length plain)) (DataShards cd) = Inr (so_Class so) \<and>
    (\<forall>sh \<in> set (so_Shards so). sh_Ref sh = sha256 c (sh_Sealed sh) \<and> int (length (sh_Sealed sh)) = 28 + sint (so_Class so))"
proof -
  obtain cls tail raw nonces where s: "classFor (int (length plain)) (DataShards cd) = Inr cls" "cls \<in> set classes"
    "Encode cd (BigEndian_PutUint64 (word_of_nat (length plain)) @ plain @ tail) (sint cls) = Inr raw"
    "length nonces = length raw" "\<forall>n \<in> set nonces. length n = nonceLen"
    "so = \<lparr>so_ID = objectID, so_Class = cls, so_Shards = sealed_list c a key objectID 0 nonces raw\<rparr>"
    by (rule seal_cases [OF assms(2,3,4)]) blast
  have "0 < sint cls" using s(2) by (auto simp: classes_def class_values)
  then show ?thesis
    using encode_shape [OF s(3)] sealed_list_shape [OF assms(1) s(4,5), of c key objectID 0] s(1)
    by (fastforce simp: s(6) nonceLen_def)
qed

lemma seal_ok:
  assumes "length plain < 2 ^ 62" "DataShards cd < 2 ^ 36" "classFor (int (length plain)) (DataShards cd) = Inr cls"
    and "nat (sint cls * DataShards cd) + nonceLen * nat (TotalShards cd) \<le> length e"
  shows "\<exists>so. SealObject c a key objectID plain cd e = Inr so"
proof -
  have cls: "cls \<in> set classes" "fits (length plain) (DataShards cd) cls"
    using assms(3) unfolding classFor_exact [OF assms(1) data_shards assms(2)] by (auto simp: classes_def split: if_splits)
  have tot: "sint (cls * word_of_int (DataShards cd)) = sint cls * DataShards cd"
    by (rule class_test(2) [OF assms(1) data_shards assms(2) cls(1)])
  let ?n = "nat (sint cls * DataShards cd) - (length plain + 8)"
  let ?padded = "BigEndian_PutUint64 (word_of_nat (length plain)) @ plain @ take ?n e"
  have n: "length plain + 8 + ?n = nat (sint cls * DataShards cd)" using cls(2) unfolding fits_def by linarith
  then have p: "pad plain (cls * word_of_int (DataShards cd)) e = Inr (?padded, drop ?n e)"
    using pad_exact [OF assms(1), of "cls * word_of_int (DataShards cd)" e] cls(2) assms(4) by (simp add: tot fits_def io_ReadFull_def)
  have pos: "0 < sint cls" using cls(1) by (auto simp: classes_def class_values)
  have "int (length ?padded) = DataShards cd * sint cls"
  proof -
    have "length ?padded = nat (sint cls * DataShards cd)" using n assms(4) by simp
    then show ?thesis using pos data_shards by (simp add: mult.commute)
  qed
  then obtain raw where raw: "Encode cd ?padded (sint cls) = Inr raw" using encode_ok pos by blast
  have "length raw = nat (TotalShards cd)" using encode_shape [OF raw pos] by linarith
  then have "nonceLen * length raw \<le> length (drop ?n e)" using assms(4) n by simp
  then obtain shs where "seal_shards c a key objectID 0 raw (drop ?n e) = Inr shs" using seal_shards_ok by blast
  then show ?thesis using assms(3) p raw by (simp add: SealObject_def)
qed

end

section \<open>Properties\<close>

text \<open>C36: sealing and opening an object. With the splitter of \<open>K\<close> shards an object that \<open>SealObject\<close> accepts is opened by \<open>OpenObject\<close> to
  the same bytes; it has exactly \<open>K\<close> shards, every one named by its own digest and of one length fixed by the size
  class, which is the smallest class whose \<open>K\<close> shards hold the framed object; and if a single shard is missing,
  opening fails with that shard's index instead of returning wrong data. Sealing succeeds on every object that fits
  the largest class when the entropy suffices.\<close>

theorem SealObject_roundtrip:
  assumes "aead_ok a" and "length plain < 2 ^ 62" and "k < 2 ^ 35"
  shows "(\<forall>so. SealObject c a key objectID plain (StandInSplitter (int (Suc k))) e = Inr so \<longrightarrow>
      OpenObject a key objectID (map (Some \<circ> sh_Sealed) (so_Shards so)) (StandInSplitter (int (Suc k))) = Inr plain \<and>
      length (so_Shards so) = Suc k \<and>
      (\<forall>sh \<in> set (so_Shards so). sh_Ref sh = sha256 c (sh_Sealed sh) \<and> int (length (sh_Sealed sh)) = 28 + sint (so_Class so)) \<and>
      int (length plain) + 8 \<le> sint (so_Class so) * int (Suc k) \<and>
      (\<forall>cls \<in> {2 ^ 20, 2 ^ 24, 2 ^ 26}. cls < sint (so_Class so) \<longrightarrow> cls * int (Suc k) < int (length plain) + 8) \<and>
      (\<forall>i \<le> k. OpenObject a key objectID ((map (Some \<circ> sh_Sealed) (so_Shards so))[i := None]) (StandInSplitter (int (Suc k))) =
        Inl (ErrShardMissing i))) \<and>
    (int (length plain) + 8 \<le> 2 ^ 26 * int (Suc k) \<longrightarrow> (2 ^ 26 + 12) * Suc k \<le> length e \<longrightarrow>
      (\<exists>so. SealObject c a key objectID plain (StandInSplitter (int (Suc k))) e = Inr so))"
proof -
  let ?cd = "StandInSplitter (int (Suc k))"
  have d: "DataShards ?cd = int (Suc k)" "TotalShards ?cd = int (Suc k)" by (simp_all add: StandInSplitter_def)
  have dr: "DataShards ?cd < 2 ^ 36" unfolding d using assms(3) by simp
  note exact = classFor_exact [OF assms(2) splitter.data_shards dr, unfolded d]
  have shape: "OpenObject a key objectID (map (Some \<circ> sh_Sealed) (so_Shards so)) ?cd = Inr plain \<and> length (so_Shards so) = Suc k \<and>
      (\<forall>sh \<in> set (so_Shards so). sh_Ref sh = sha256 c (sh_Sealed sh) \<and> int (length (sh_Sealed sh)) = 28 + sint (so_Class so)) \<and>
      classFor (int (length plain)) (int (Suc k)) = Inr (so_Class so)"
    if "SealObject c a key objectID plain ?cd e = Inr so" for so
    using splitter.seal_open [OF assms(1,2) dr that] splitter.seal_shape [OF assms(1,2) dr that] unfolding d by linarith
  have least: "int (length plain) + 8 \<le> sint cl * int (Suc k) \<and>
      (\<forall>cls \<in> {2 ^ 20, 2 ^ 24, 2 ^ 26}. cls < sint cl \<longrightarrow> cls * int (Suc k) < int (length plain) + 8)"
    if "classFor (int (length plain)) (int (Suc k)) = Inr cl" for cl
    using that unfolding exact fits_def class_values by (auto simp: class_values split: if_splits)
  have gap: "OpenObject a key objectID ((map (Some \<circ> sh_Sealed) (so_Shards so))[i := None]) ?cd = Inl (ErrShardMissing i)"
    if sealed: "SealObject c a key objectID plain ?cd e = Inr so" and i: "i \<le> k" for so i
  proof -
    obtain raw nonces where s: "length nonces = length raw" "\<forall>n \<in> set nonces. length n = nonceLen"
      "so_Shards so = sealed_list c a key objectID 0 nonces raw"
      by (rule splitter.seal_cases [OF assms(2) dr sealed]) simp
    have "length raw = Suc k" using shape [OF sealed] sealed_list_shape [OF assms(1) s(1,2), of c key objectID 0] s(3) by simp
    then show ?thesis
      using i open_sealed_gap [OF assms(1) s(1,2), of i key objectID 0 c] missing_shard_gap [of i raw 0]
      by (simp add: OpenObject_def s(3) StandInSplitter_def Splitter_Reconstruct_def)
  qed
  have ok: "\<exists>so. SealObject c a key objectID plain ?cd e = Inr so"
    if f: "int (length plain) + 8 \<le> 2 ^ 26 * int (Suc k)" and l: "(2 ^ 26 + 12) * Suc k \<le> length e"
  proof -
    have "fits (length plain) (int (Suc k)) ClassLarge" using f by (simp add: fits_def class_values)
    then have "\<exists>cls. classFor (int (length plain)) (int (Suc k)) = Inr cls \<and> sint cls \<le> 2 ^ 26 \<and> 0 < sint cls"
      unfolding exact by (simp add: class_values)
    then obtain cls where cls: "classFor (int (length plain)) (int (Suc k)) = Inr cls" "sint cls \<le> 2 ^ 26" "0 < sint cls" by blast
    have "sint cls * int (Suc k) \<le> 2 ^ 26 * int (Suc k)" using cls(2) by (intro mult_right_mono) simp_all
    then have "nat (sint cls * int (Suc k)) + nonceLen * nat (int (Suc k)) \<le> length e"
      using l by (simp add: nonceLen_def)
    then show ?thesis using splitter.seal_ok [OF assms(2) dr, unfolded d, OF cls(1)] by blast
  qed
  show ?thesis using shape least gap ok by blast
qed

definition sample_aead :: aead where
  "sample_aead = \<lparr>gcm_seal = (\<lambda>key nonce plain aad. plain @ replicate 16 0), gcm_open = (\<lambda>key nonce ct aad. Some (take (length ct - 16) ct))\<rparr>"

lemma sample_aead_ok: "aead_ok sample_aead"
  by (simp add: aead_ok_def sample_aead_def)

theorem SealObject_roundtrip_witness:
  "\<exists>so. SealObject sample_crypto sample_aead 1 2 [7, 8, 9] (StandInSplitter (int (Suc 1))) (replicate 134217752 0) = Inr so \<and>
     OpenObject sample_aead 1 2 (map (Some \<circ> sh_Sealed) (so_Shards so)) (StandInSplitter (int (Suc 1))) = Inr [7, 8, 9] \<and>
     length (so_Shards so) = 2"
proof -
  note t = SealObject_roundtrip [OF sample_aead_ok, of "[7, 8, 9]" 1 sample_crypto 1 2 "replicate 134217752 0"]
  have "\<exists>so. SealObject sample_crypto sample_aead 1 2 [7, 8, 9] (StandInSplitter (int (Suc 1))) (replicate 134217752 0) = Inr so"
    by (rule t [THEN conjunct2, rule_format]) simp_all
  then obtain so where so: "SealObject sample_crypto sample_aead 1 2 [7, 8, 9] (StandInSplitter (int (Suc 1))) (replicate 134217752 0) = Inr so" ..
  moreover have "OpenObject sample_aead 1 2 (map (Some \<circ> sh_Sealed) (so_Shards so)) (StandInSplitter (int (Suc 1))) = Inr [7, 8, 9]"
    "length (so_Shards so) = Suc 1"
    using t [THEN conjunct1, rule_format, OF _ _ so] by simp_all
  ultimately show ?thesis by (intro exI [of _ so]) simp
qed

end
