(* ===== verification/Storage_Hosts.thy ===== *)
theory Storage_Hosts
  imports Entropy Sample "HOL-Library.Product_Lexorder"
begin

text \<open>
  What the member asks of hosts in \<open>internal/storage\<close>: shard placement (\<open>placement.go\<close>), retrieval plans (\<open>fetch.go\<close>),
  proof-of-storage challenges (\<open>audit.go\<close>) and the cover-traffic cadence (\<open>cover.go\<close>). Offsets, lengths and durations are
  64-bit words read as signed, because their sums and products are compared without an overflow check. The float
  expression of \<open>interval\<close>, the exponential draw, is a parameter: the clamp around it is what bounds the result.
\<close>

section \<open>Placement\<close>

record host =
  ho_ID :: string
  ho_Owner :: string

fun place_pass1 :: "nat \<Rightarrow> host list \<Rightarrow> host list \<times> string set \<times> string set \<Rightarrow> host list \<times> string set \<times> string set" where
  "place_pass1 n [] st = st"
| "place_pass1 n (h # hs) (assigned, usedHost, usedOwner) =
     (if length assigned = n then (assigned, usedHost, usedOwner)
      else if ho_ID h \<in> usedHost \<or> ho_Owner h \<in> usedOwner then place_pass1 n hs (assigned, usedHost, usedOwner)
      else place_pass1 n hs (assigned @ [h], insert (ho_ID h) usedHost, insert (ho_Owner h) usedOwner))"

fun place_pass2 :: "nat \<Rightarrow> host list \<Rightarrow> host list \<times> string set \<Rightarrow> host list \<times> string set" where
  "place_pass2 n [] st = st"
| "place_pass2 n (h # hs) (assigned, usedHost) =
     (if length assigned = n then (assigned, usedHost)
      else if ho_ID h \<in> usedHost then place_pass2 n hs (assigned, usedHost)
      else place_pass2 n hs (assigned @ [h], insert (ho_ID h) usedHost))"

definition PlaceShards :: "int \<Rightarrow> host list \<Rightarrow> entropy \<Rightarrow> storage_error + host list" where
  "PlaceShards shardCount hosts e =
     (if shardCount < 1 then Inl BadShardCount
      else if int (length hosts) < shardCount then Inl ErrInsufficientHosts
      else case shuffle hosts e of
        Inl err \<Rightarrow> Inl err
      | Inr (shuffled, e') \<Rightarrow>
          (let (assigned, usedHost, usedOwner) = place_pass1 (nat shardCount) shuffled ([], {}, {});
               (assigned', usedHost') = place_pass2 (nat shardCount) shuffled (assigned, usedHost)
           in if int (length assigned') \<noteq> shardCount then Inl ErrInsufficientHosts else Inr assigned'))"

section \<open>Retrieval plans\<close>

record fetch_step =
  fs_Index :: nat
  fs_Delay :: int

fun fetch_draw :: "nat list \<Rightarrow> int \<Rightarrow> entropy \<Rightarrow> storage_error + fetch_step list" where
  "fetch_draw [] window e = Inr []"
| "fetch_draw (i # is) window e =
     (if window > 0
      then case uniformInt e window of
          Inl err \<Rightarrow> Inl err
        | Inr (j, e') \<Rightarrow> (case fetch_draw is window e' of
            Inl err \<Rightarrow> Inl err | Inr steps \<Rightarrow> Inr (\<lparr>fs_Index = i, fs_Delay = j\<rparr> # steps))
      else case fetch_draw is window e of
          Inl err \<Rightarrow> Inl err | Inr steps \<Rightarrow> Inr (\<lparr>fs_Index = i, fs_Delay = 0\<rparr> # steps))"

text \<open>The comparison of \<open>sort.Slice\<close> is a strict total order on steps with distinct indices, so the sorted slice is unique.\<close>

definition FetchPlan :: "int \<Rightarrow> int \<Rightarrow> entropy \<Rightarrow> storage_error + fetch_step list" where
  "FetchPlan shardCount window e =
     (if shardCount < 1 then Inl BadShardCount
      else if window < 0 then Inl BadWindow
      else case fetch_draw [0..<nat shardCount] window e of
        Inl err \<Rightarrow> Inl err
      | Inr steps \<Rightarrow> Inr (sort_key (\<lambda>s. (fs_Delay s, fs_Index s)) steps))"

section \<open>Challenges\<close>

record challenge =
  cg_Offset :: u64
  cg_Length :: u64
  cg_Nonce :: bytes

record challenge_table =
  tb_Challenges :: "challenge list"
  tb_Expected :: "b32 list"
  tb_next :: nat

definition challenge_payload :: "bytes \<Rightarrow> challenge \<Rightarrow> bytes" where
  "challenge_payload sealed ch =
     cg_Nonce ch @ BigEndian_PutUint64 (cg_Offset ch) @ BigEndian_PutUint64 (cg_Length ch) @
     take (nat (sint (cg_Length ch))) (drop (nat (sint (cg_Offset ch))) sealed)"

text \<open>The guard adds offset and length on \<open>int64\<close>; the slice expression behind it panics when the wrapped sum lies below
  the offset.\<close>

definition Respond :: "crypto \<Rightarrow> bytes \<Rightarrow> challenge \<Rightarrow> storage_error + b32" where
  "Respond c sealed ch =
     (if sint (cg_Offset ch) < 0 \<or> sint (cg_Length ch) < 1 \<or> sint (cg_Offset ch + cg_Length ch) > int (length sealed)
      then Inl ErrBadChallenge
      else if sint (cg_Offset ch) > sint (cg_Offset ch + cg_Length ch) then Inl StoragePanic
      else Inr (sha256 c (challenge_payload sealed ch)))"

fun build_challenges :: "crypto \<Rightarrow> bytes \<Rightarrow> nat \<Rightarrow> entropy \<Rightarrow> storage_error + (challenge \<times> b32) list" where
  "build_challenges c sealed 0 e = Inr []"
| "build_challenges c sealed (Suc m) e =
     (case uniformInt e (int (length sealed)) of
        Inl err \<Rightarrow> Inl err
      | Inr (off, e1) \<Rightarrow> (case uniformInt e1 (int (length sealed) - off) of
          Inl err \<Rightarrow> Inl err
        | Inr (span, e2) \<Rightarrow> (case io_ReadFull 16 e2 of
            Inl err \<Rightarrow> Inl err
          | Inr (nonce, e3) \<Rightarrow>
              (let ch = \<lparr>cg_Offset = word_of_int off, cg_Length = word_of_int span + 1, cg_Nonce = nonce\<rparr> in
               case Respond c sealed ch of
                 Inl err \<Rightarrow> Inl err
               | Inr digest \<Rightarrow> (case build_challenges c sealed m e3 of
                   Inl err \<Rightarrow> Inl err | Inr rest \<Rightarrow> Inr ((ch, digest) # rest))))))"

definition BuildChallengeTable :: "crypto \<Rightarrow> bytes \<Rightarrow> int \<Rightarrow> entropy \<Rightarrow> storage_error + challenge_table" where
  "BuildChallengeTable c sealed m e =
     (if m < 1 then Inl BadChallengeCount
      else if length sealed = 0 then Inl ErrBadChallenge
      else case build_challenges c sealed (nat m) e of
        Inl err \<Rightarrow> Inl err
      | Inr cs \<Rightarrow> Inr \<lparr>tb_Challenges = map fst cs, tb_Expected = map snd cs, tb_next = 0\<rparr>)"

definition ChallengeTable_Next :: "challenge_table \<Rightarrow> (storage_error + challenge \<times> b32) \<times> challenge_table" where
  "ChallengeTable_Next t =
     (if tb_next t \<ge> length (tb_Challenges t) then (Inl ErrTableExhausted, t)
      else (Inr (tb_Challenges t ! tb_next t, tb_Expected t ! tb_next t), t\<lparr>tb_next := tb_next t + 1\<rparr>))"

definition ChallengeTable_Remaining :: "challenge_table \<Rightarrow> int" where
  "ChallengeTable_Remaining t = int (length (tb_Challenges t)) - int (tb_next t)"

definition VerifyProof :: "b32 \<Rightarrow> b32 \<Rightarrow> bool" where
  "VerifyProof expected response \<longleftrightarrow> b32_bytes expected = b32_bytes response"

section \<open>Cover traffic\<close>

text \<open>\<open>draw mean v\<close> stands for \<open>time.Duration(-float64(mean) * math.Log((float64(v) + 1) / 2^62))\<close>.\<close>

record cover_scheduler =
  cs_mean :: u64
  cs_entropy :: entropy
  cs_nextAt :: gotime

definition cover_interval :: "(u64 \<Rightarrow> int \<Rightarrow> u64) \<Rightarrow> cover_scheduler \<Rightarrow> storage_error + u64 \<times> cover_scheduler" where
  "cover_interval draw s =
     (case uniformInt (cs_entropy s) (2 ^ 62) of
        Inl err \<Rightarrow> Inl err
      | Inr (v, e') \<Rightarrow>
          (let d = draw (cs_mean s) v;
               mn = word_of_int (sint (cs_mean s) div 20);
               d = (if sint d < sint (mn :: u64) then mn else d);
               mx = cs_mean s * 10;
               d = (if sint d > sint mx then mx else d)
           in Inr (d, s\<lparr>cs_entropy := e'\<rparr>)))"

definition NewCoverScheduler :: "(u64 \<Rightarrow> int \<Rightarrow> u64) \<Rightarrow> u64 \<Rightarrow> gotime \<Rightarrow> entropy \<Rightarrow> storage_error + cover_scheduler" where
  "NewCoverScheduler draw mean now e =
     (if sint mean \<le> 0 then Inl BadMean
      else case cover_interval draw \<lparr>cs_mean = mean, cs_entropy = e, cs_nextAt = zeroTime\<rparr> of
        Inl err \<Rightarrow> Inl err
      | Inr (first, s) \<Rightarrow> Inr (s\<lparr>cs_nextAt := now + sint first\<rparr>))"

definition NextProbe :: "cover_scheduler \<Rightarrow> gotime" where
  "NextProbe s = cs_nextAt s"

definition Cover_Claim :: "(u64 \<Rightarrow> int \<Rightarrow> u64) \<Rightarrow> cover_scheduler \<Rightarrow> gotime \<Rightarrow> storage_error + gotime \<times> cover_scheduler" where
  "Cover_Claim draw s now =
     (let slot = (if cs_nextAt s < now then now else cs_nextAt s) in
      case cover_interval draw s of
        Inl err \<Rightarrow> Inl err
      | Inr (next, s') \<Rightarrow> Inr (slot, s'\<lparr>cs_nextAt := slot + sint next\<rparr>))"

section \<open>The two placement passes\<close>

lemma pass1_spec:
  assumes "usedHost = ho_ID ` set assigned" "usedOwner = ho_Owner ` set assigned" "distinct (map ho_ID assigned)"
    "distinct (map ho_Owner assigned)" "length assigned \<le> n" "place_pass1 n hs (assigned, usedHost, usedOwner) = (as, uh, uo)"
  shows "uh = ho_ID ` set as \<and> uo = ho_Owner ` set as \<and> distinct (map ho_ID as) \<and> distinct (map ho_Owner as) \<and> length as \<le> n \<and>
    set assigned \<subseteq> set as \<and> set as \<subseteq> set assigned \<union> set hs \<and> (length as < n \<longrightarrow> (\<forall>h \<in> set hs. ho_ID h \<in> uh \<or> ho_Owner h \<in> uo))"
  using assms
proof (induction hs arbitrary: assigned usedHost usedOwner)
  case (Cons h hs)
  show ?case
  proof (cases "length assigned = n")
    case True
    then show ?thesis using Cons.prems by auto
  next
    case False
    show ?thesis
    proof (cases "ho_ID h \<in> usedHost \<or> ho_Owner h \<in> usedOwner")
      case True
      then have "place_pass1 n hs (assigned, usedHost, usedOwner) = (as, uh, uo)" using Cons.prems(6) False by simp
      from Cons.IH [OF Cons.prems(1-5) this] show ?thesis using True Cons.prems(1,2) by auto
    next
      case new: False
      then have "place_pass1 n hs (assigned @ [h], insert (ho_ID h) usedHost, insert (ho_Owner h) usedOwner) = (as, uh, uo)"
        using Cons.prems(6) False by simp
      from Cons.IH [OF _ _ _ _ _ this] new False Cons.prems show ?thesis by auto
    qed
  qed
qed simp

lemma pass2_spec:
  assumes "usedHost = ho_ID ` set assigned" "distinct (map ho_ID assigned)" "length assigned \<le> n"
    "place_pass2 n hs (assigned, usedHost) = (as, uh)"
  shows "uh = ho_ID ` set as \<and> distinct (map ho_ID as) \<and> length as \<le> n \<and> length assigned \<le> length as \<and>
    set assigned \<subseteq> set as \<and> set as \<subseteq> set assigned \<union> set hs \<and> (length as < n \<longrightarrow> ho_ID ` set hs \<subseteq> uh)"
  using assms
proof (induction hs arbitrary: assigned usedHost)
  case (Cons h hs)
  show ?case
  proof (cases "length assigned = n")
    case True
    then show ?thesis using Cons.prems by auto
  next
    case False
    show ?thesis
    proof (cases "ho_ID h \<in> usedHost")
      case True
      then have "place_pass2 n hs (assigned, usedHost) = (as, uh)" using Cons.prems(4) False by simp
      from Cons.IH [OF Cons.prems(1-3) this] show ?thesis using True Cons.prems(1) by auto
    next
      case new: False
      then have "place_pass2 n hs (assigned @ [h], insert (ho_ID h) usedHost) = (as, uh)" using Cons.prems(4) False by simp
      from Cons.IH [OF _ _ _ this] new False Cons.prems show ?thesis by auto
    qed
  qed
qed simp

lemma distinct_IDs_card: "distinct (map f xs) \<Longrightarrow> card (f ` set xs) = length xs"
  by (metis distinct_card length_map set_map)

text \<open>What both passes yield over a shuffled host list.\<close>

lemma passes_spec:
  assumes "place_pass1 n hs ([], {}, {}) = (as1, uh1, uo1)" "place_pass2 n hs (as1, uh1) = (as, uh)"
  shows "distinct (map ho_ID as)" and "set as \<subseteq> set hs" and "length as = min n (card (ho_ID ` set hs))"
    and "(\<forall>h \<in> set hs. \<forall>h' \<in> set hs. ho_ID h = ho_ID h' \<longrightarrow> ho_Owner h = ho_Owner h') \<Longrightarrow>
      n \<le> card (ho_ID ` set hs) \<Longrightarrow> card (ho_Owner ` set as) = min n (card (ho_Owner ` set hs))"
proof -
  note p1 = pass1_spec [OF _ _ _ _ _ assms(1), simplified]
  have p2: "uh = ho_ID ` set as \<and> distinct (map ho_ID as) \<and> length as \<le> n \<and> length as1 \<le> length as \<and>
    set as1 \<subseteq> set as \<and> set as \<subseteq> set as1 \<union> set hs \<and> (length as < n \<longrightarrow> ho_ID ` set hs \<subseteq> uh)"
    by (rule pass2_spec [OF _ _ _ assms(2)]) (use p1 in auto)
  show d: "distinct (map ho_ID as)" using p2 by blast
  show sub: "set as \<subseteq> set hs" using p1 p2 by auto
  have len: "length as = card (ho_ID ` set as)" using distinct_IDs_card [OF d] by simp
  have le: "card (ho_ID ` set as) \<le> card (ho_ID ` set hs)" using sub by (intro card_mono) auto
  show "length as = min n (card (ho_ID ` set hs))"
  proof (cases "length as < n")
    case True
    then have "ho_ID ` set hs = ho_ID ` set as" using p2 sub by auto
    then show ?thesis using len True by simp
  next
    case False
    then show ?thesis using p2 len le by simp
  qed
  assume fn: "\<forall>h \<in> set hs. \<forall>h' \<in> set hs. ho_ID h = ho_ID h' \<longrightarrow> ho_Owner h = ho_Owner h'" and n: "n \<le> card (ho_ID ` set hs)"
  have owners: "card (ho_Owner ` set as1) = length as1" using distinct_IDs_card p1 by blast
  have sub1: "ho_Owner ` set as1 \<subseteq> ho_Owner ` set as" "ho_Owner ` set as \<subseteq> ho_Owner ` set hs" using p2 sub by auto
  then have le1: "length as1 \<le> card (ho_Owner ` set as)" "card (ho_Owner ` set as) \<le> card (ho_Owner ` set hs)"
    using owners card_mono [of "ho_Owner ` set as" "ho_Owner ` set as1"] card_mono [of "ho_Owner ` set hs" "ho_Owner ` set as"] by auto
  have le2: "card (ho_Owner ` set as) \<le> n" using card_image_le [of "set as" ho_Owner] card_length [of as] p2 by (simp add: le_trans)
  show "card (ho_Owner ` set as) = min n (card (ho_Owner ` set hs))"
  proof (cases "length as1 < n")
    case True
    have "ho_Owner h \<in> ho_Owner ` set as1" if h: "h \<in> set hs" for h
    proof -
      from True h p1 consider "ho_ID h \<in> ho_ID ` set as1" | "ho_Owner h \<in> ho_Owner ` set as1" by auto
      then show ?thesis
      proof cases
        case 1
        then obtain h' where "h' \<in> set as1" "ho_ID h = ho_ID h'" by auto
        moreover have "h' \<in> set hs" using \<open>h' \<in> set as1\<close> p1 by blast
        ultimately have "ho_Owner h = ho_Owner h'" using fn h by blast
        then show ?thesis using \<open>h' \<in> set as1\<close> by simp
      qed
    qed
    then have "ho_Owner ` set as = ho_Owner ` set hs" using sub1 by auto
    then show ?thesis using le2 by simp
  next
    case False
    then show ?thesis using p1 le1 le2 by simp
  qed
qed

text \<open>C37: placement separates shards. \<open>PlaceShards\<close> succeeds exactly when at least one shard is asked for, the hosts have that many
  distinct identifiers and the entropy suffices for the shuffle; then it assigns every shard to a candidate, no two
  to the same host, and, when a host identifier has one owner, over as many distinct owners as there are, up to
  the number of shards. It never doubles up to make an object fit.\<close>

theorem PlaceShards_exact:
  assumes "length hosts < 2 ^ 62"
  shows "((\<exists>assigned. PlaceShards n hosts e = Inr assigned) \<longleftrightarrow>
      1 \<le> n \<and> n \<le> int (card (ho_ID ` set hosts)) \<and> (\<exists>r. shuffle hosts e = Inr r)) \<and>
    (\<forall>assigned. PlaceShards n hosts e = Inr assigned \<longrightarrow>
      int (length assigned) = n \<and> distinct (map ho_ID assigned) \<and> set assigned \<subseteq> set hosts \<and>
      ((\<forall>h \<in> set hosts. \<forall>h' \<in> set hosts. ho_ID h = ho_ID h' \<longrightarrow> ho_Owner h = ho_Owner h') \<longrightarrow>
        card (ho_Owner ` set assigned) = min (nat n) (card (ho_Owner ` set hosts))))"
proof (cases "\<exists>hs e'. shuffle hosts e = Inr (hs, e')")
  case True
  then obtain hs e' where s: "shuffle hosts e = Inr (hs, e')" by blast
  have "mset hs = mset hosts" by (rule shuffle_perm [OF s assms])
  then have set: "set hs = set hosts" by (metis set_mset_mset)
  obtain as1 uh1 uo1 where p1: "place_pass1 (nat n) hs ([], {}, {}) = (as1, uh1, uo1)" by (metis prod_cases3)
  obtain as uh where p2: "place_pass2 (nat n) hs (as1, uh1) = (as, uh)" by (metis prod.exhaust)
  note spec = passes_spec [OF p1 p2, unfolded set]
  have card: "card (ho_ID ` set hosts) \<le> length hosts" using card_image_le [of "set hosts" ho_ID] card_length [of hosts] by simp
  have eq: "PlaceShards n hosts e = (if n < 1 then Inl BadShardCount else if int (length hosts) < n then Inl ErrInsufficientHosts
      else if int (length as) \<noteq> n then Inl ErrInsufficientHosts else Inr as)"
    by (simp add: PlaceShards_def s p1 p2)
  show ?thesis
  proof (cases "1 \<le> n \<and> n \<le> int (card (ho_ID ` set hosts))")
    case True
    then have len: "int (length as) = n" using spec(3) by linarith
    have "nat n \<le> card (ho_ID ` set hosts)" using True by linarith
    then have own: "(\<forall>h \<in> set hosts. \<forall>h' \<in> set hosts. ho_ID h = ho_ID h' \<longrightarrow> ho_Owner h = ho_Owner h') \<longrightarrow>
        card (ho_Owner ` set as) = min (nat n) (card (ho_Owner ` set hosts))" using spec(4) by blast
    have ok: "PlaceShards n hosts e = Inr as" unfolding eq using True len card by simp
    have all: "int (length as) = n \<and> distinct (map ho_ID as) \<and> set as \<subseteq> set hosts \<and>
        ((\<forall>h \<in> set hosts. \<forall>h' \<in> set hosts. ho_ID h = ho_ID h' \<longrightarrow> ho_Owner h = ho_Owner h') \<longrightarrow>
          card (ho_Owner ` set as) = min (nat n) (card (ho_Owner ` set hosts)))"
      by (intro conjI len spec(1,2) own)
    show ?thesis
      unfolding ok sum.inject(2) using True s all by (intro conjI allI impI) (blast | simp only:)+
  next
    case False
    then have "PlaceShards n hosts e \<noteq> Inr r" for r unfolding eq using spec(3) by auto
    then show ?thesis using False by blast
  qed
next
  case False
  then obtain err where err: "shuffle hosts e = Inl err" by (metis sum.exhaust prod.exhaust)
  then have "PlaceShards n hosts e \<noteq> Inr r" for r by (simp add: PlaceShards_def)
  moreover have "shuffle hosts e \<noteq> Inr r" for r by (simp add: err)
  ultimately show ?thesis by blast
qed

theorem PlaceShards_exact_witness:
  "\<exists>assigned. PlaceShards 2 [\<lparr>ho_ID = ''a'', ho_Owner = ''m''\<rparr>, \<lparr>ho_ID = ''b'', ho_Owner = ''n''\<rparr>] [0, 0, 0, 0, 0, 0, 0, 1] = Inr assigned \<and>
     distinct (map ho_ID assigned) \<and> card (ho_Owner ` set assigned) = 2"
proof -
  let ?hosts = "[\<lparr>ho_ID = ''a'', ho_Owner = ''m''\<rparr>, \<lparr>ho_ID = ''b'', ho_Owner = ''n''\<rparr>]"
  let ?e = "[0, 0, 0, 0, 0, 0, 0, 1] :: bytes"
  have "BigEndian_Uint64 ?e = 1" "uniform_limit 2 = 18446744073709551614"
    by (simp_all add: BigEndian_Uint64_def uniform_limit_def)
  then have "uniformInt ?e 2 = Inr (1, [])" using uniformInt_block [of ?e "[]" 2] by simp
  then have "\<exists>r. shuffle ?hosts ?e = Inr r" by (simp add: shuffle_def)
  then obtain assigned where a: "PlaceShards 2 ?hosts ?e = Inr assigned" using PlaceShards_exact [of ?hosts 2 ?e] by auto
  then show ?thesis using PlaceShards_exact [of ?hosts 2 ?e] by (intro exI [of _ assigned]) simp
qed

section \<open>Retrieval plans\<close>

lemma fetch_draw_spec:
  "fetch_draw is window e = Inr steps \<Longrightarrow> window < 2 ^ 63 \<Longrightarrow>
     map fs_Index steps = is \<and> (\<forall>s \<in> set steps. 0 \<le> fs_Delay s \<and> (fs_Delay s < window \<or> fs_Delay s = 0))"
proof (induction "is" window e arbitrary: steps rule: fetch_draw.induct)
  case (2 i "is" window e)
  show ?case
  proof (cases "window > 0")
    case True
    then obtain j e' rest where d: "uniformInt e window = Inr (j, e')" "fetch_draw is window e' = Inr rest"
      "steps = \<lparr>fs_Index = i, fs_Delay = j\<rparr> # rest" using 2(3) by (auto split: sum.splits)
    then show ?thesis using 2(1) [OF True d(1) refl d(2) 2(4)] uniformInt_bound [OF d(1) 2(4)] by auto
  next
    case False
    then obtain rest where "fetch_draw is window e = Inr rest" "steps = \<lparr>fs_Index = i, fs_Delay = 0\<rparr> # rest"
      using 2(3) by (auto split: sum.splits)
    then show ?thesis using 2(2) [OF False _ 2(4)] by auto
  qed
qed simp

lemma FetchPlan_complete:
  assumes "FetchPlan n window e = Inr steps" and "window < 2 ^ 63"
  shows "distinct (map fs_Index steps)" and "set (map fs_Index steps) = {0..<nat n}" and "sorted (map fs_Delay steps)"
    and "\<forall>s \<in> set steps. 0 \<le> fs_Delay s \<and> (fs_Delay s < window \<or> fs_Delay s = 0)"
proof -
  obtain raw where raw: "fetch_draw [0..<nat n] window e = Inr raw" "steps = sort_key (\<lambda>s. (fs_Delay s, fs_Index s)) raw"
    using assms(1) by (auto simp: FetchPlan_def split: if_splits sum.splits)
  note spec = fetch_draw_spec [OF raw(1) assms(2)]
  have "mset (map fs_Index steps) = mset [0..<nat n]" using spec by (metis mset_map mset_sort raw(2))
  then show "distinct (map fs_Index steps)" "set (map fs_Index steps) = {0..<nat n}"
    by (metis distinct_upt mset_eq_imp_distinct_iff, metis atLeastLessThan_upt mset_eq_setD)
  have "sorted (map (\<lambda>s. (fs_Delay s, fs_Index s)) steps)" by (simp add: raw(2))
  then have "sorted (map fst (map (\<lambda>s. (fs_Delay s, fs_Index s)) steps))"
    by (rule sorted_map_mono) (auto simp: mono_on_def less_eq_prod_def)
  then show "sorted (map fs_Delay steps)" by (simp add: comp_def)
  show "\<forall>s \<in> set steps. 0 \<le> fs_Delay s \<and> (fs_Delay s < window \<or> fs_Delay s = 0)" using spec by (simp add: raw(2))
qed

section \<open>Challenges\<close>

lemma challenge_in_range:
  fixes nonce :: bytes
  assumes "0 \<le> off" "0 \<le> span" "off + span < int (length sealed)" "length sealed < 2 ^ 62"
  defines "ch \<equiv> \<lparr>cg_Offset = word_of_int off, cg_Length = word_of_int span + 1, cg_Nonce = nonce\<rparr>"
  shows "Respond c sealed ch = Inr (sha256 c (challenge_payload sealed ch))"
proof -
  have l: "int (length sealed) < 2 ^ 62" using assms(4) by (metis of_nat_less_iff of_nat_numeral of_nat_power)
  have s: "word_of_int span + 1 = (word_of_int (span + 1) :: u64)" by simp
  have o: "sint (cg_Offset ch) = off" using assms(1-3) l by (simp add: ch_def sint64_of_int)
  have n: "sint (cg_Length ch) = span + 1" unfolding ch_def challenge.simps s using assms(1-3) l by (intro sint64_of_int) simp_all
  have "sint (cg_Offset ch + cg_Length ch) = off + (span + 1)" using sint64_add [of "cg_Offset ch" "cg_Length ch"] assms(1-3) l by (simp add: o n)
  then show ?thesis using assms(1-3) by (simp add: Respond_def o n)
qed

text \<open>Building a table fails only on a short entropy stream: every drawn range lies inside the shard.\<close>

lemma build_challenges_error:
  assumes "length sealed < 2 ^ 62" "sealed \<noteq> []"
  shows "build_challenges c sealed m e = Inl err \<Longrightarrow> err = EntropyRead"
proof (induction m arbitrary: e)
  case (Suc m)
  have l: "int (length sealed) < 2 ^ 62" using assms(1) by (metis of_nat_less_iff of_nat_numeral of_nat_power)
  have u: "uniformInt e n = Inl x \<Longrightarrow> 0 < n \<Longrightarrow> x = EntropyRead" for e n x
    by (auto simp: uniformInt_def split: if_splits sum.splits dest: uniform_loop_error)
  show ?case
  proof (cases "uniformInt e (int (length sealed))")
    case (Inl x)
    then show ?thesis using Suc.prems u [OF Inl] assms(2) by simp
  next
    case (Inr p)
    obtain off e1 where p: "uniformInt e (int (length sealed)) = Inr (off, e1)" using Inr by (cases p) simp
    have off: "0 \<le> off \<and> off < int (length sealed)" using uniformInt_bound [OF p] l by simp
    show ?thesis
    proof (cases "uniformInt e1 (int (length sealed) - off)")
      case (Inl x)
      then show ?thesis using Suc.prems p u [OF Inl] off by simp
    next
      case (Inr q)
      obtain span e2 where q: "uniformInt e1 (int (length sealed) - off) = Inr (span, e2)" using Inr by (cases q) simp
      have "0 \<le> span \<and> span < int (length sealed) - off" using uniformInt_bound [OF q] l off by simp
      then have "Respond c sealed \<lparr>cg_Offset = word_of_int off, cg_Length = word_of_int span + 1, cg_Nonce = nonce\<rparr> \<noteq> Inl x" for nonce x
        using challenge_in_range [of off span sealed c nonce] off assms(1) by simp
      then show ?thesis
        using Suc.prems p q Suc.IH by (auto simp: Let_def io_ReadFull_def split: sum.splits if_splits)
    qed
  qed
qed simp

lemma build_challenges_spec:
  "build_challenges c sealed m e = Inr cs \<Longrightarrow> length cs = m \<and> (\<forall>(ch, d) \<in> set cs. Respond c sealed ch = Inr d)"
proof (induction m arbitrary: e cs)
  case (Suc m)
  then obtain ch d rest e3 where "Respond c sealed ch = Inr d" "build_challenges c sealed m e3 = Inr rest" "cs = (ch, d) # rest"
    by (auto simp: Let_def split: sum.splits)
  then show ?case using Suc.IH by auto
qed simp

lemma Next_run:
  assumes "tb_next t = 0"
  shows "fst (ChallengeTable_Next (((snd \<circ> ChallengeTable_Next) ^^ i) t)) =
    (if i < length (tb_Challenges t) then Inr (tb_Challenges t ! i, tb_Expected t ! i) else Inl ErrTableExhausted)"
proof -
  have "((snd \<circ> ChallengeTable_Next) ^^ i) t = t\<lparr>tb_next := min i (length (tb_Challenges t))\<rparr>"
    using assms by (induction i) (auto simp: ChallengeTable_Next_def min_def)
  then show ?thesis by (simp add: ChallengeTable_Next_def)
qed

text \<open>C38: proof of storage. Every table \<open>BuildChallengeTable\<close> returns hands out exactly its \<open>m\<close> challenges, each once and in order, and
  then reports exhaustion; a host that holds the shard answers each with the expected digest. A host whose answer
  verifies held, in the challenged range, the very bytes of the sealed shard, unless two different payloads collide.\<close>

theorem audit_possession:
  assumes "BuildChallengeTable c sealed m e = Inr t"
  shows "length (tb_Challenges t) = nat m \<and>
    (\<forall>i. fst (ChallengeTable_Next (((snd \<circ> ChallengeTable_Next) ^^ i) t)) =
      (if i < nat m then Inr (tb_Challenges t ! i, tb_Expected t ! i) else Inl ErrTableExhausted)) \<and>
    (\<forall>i < nat m. Respond c sealed (tb_Challenges t ! i) = Inr (tb_Expected t ! i)) \<and>
    (\<forall>i < nat m. \<forall>held resp. Respond c held (tb_Challenges t ! i) = Inr resp \<and> VerifyProof (tb_Expected t ! i) resp \<and>
      collision_free c [challenge_payload sealed (tb_Challenges t ! i), challenge_payload held (tb_Challenges t ! i)] \<longrightarrow>
      (let off = nat (sint (cg_Offset (tb_Challenges t ! i))); len = nat (sint (cg_Length (tb_Challenges t ! i)))
       in take len (drop off held) = take len (drop off sealed)))"
proof -
  obtain cs where cs: "build_challenges c sealed (nat m) e = Inr cs" "t = \<lparr>tb_Challenges = map fst cs, tb_Expected = map snd cs, tb_next = 0\<rparr>"
    using assms(1) by (auto simp: BuildChallengeTable_def split: if_splits sum.splits)
  note spec = build_challenges_spec [OF cs(1)]
  have len: "length (tb_Challenges t) = nat m" using spec by (simp add: cs(2))
  have honest: "Respond c sealed (tb_Challenges t ! i) = Inr (tb_Expected t ! i)" if "i < nat m" for i
    using spec that nth_mem [of i cs] by (fastforce simp: cs(2))
  have bound: "take (nat (sint (cg_Length ch))) (drop (nat (sint (cg_Offset ch))) held) = take (nat (sint (cg_Length ch))) (drop (nat (sint (cg_Offset ch))) sealed)"
    if r: "Respond c held ch = Inr resp" "VerifyProof d resp" "Respond c sealed ch = Inr d"
      and cf: "collision_free c [challenge_payload sealed ch, challenge_payload held ch]" for ch held resp d
  proof -
    have "sha256 c (challenge_payload sealed ch) = sha256 c (challenge_payload held ch)"
      using r by (auto simp: Respond_def VerifyProof_def split: if_splits)
    then have "challenge_payload sealed ch = challenge_payload held ch" by (rule collision_freeD [OF cf]) simp_all
    then show ?thesis by (simp add: challenge_payload_def)
  qed
  have nxt: "tb_next t = 0" by (simp add: cs(2))
  show ?thesis
    unfolding Let_def
  proof (intro conjI allI impI)
    show "length (tb_Challenges t) = nat m" by (rule len)
    show "fst (ChallengeTable_Next (((snd \<circ> ChallengeTable_Next) ^^ i) t)) =
        (if i < nat m then Inr (tb_Challenges t ! i, tb_Expected t ! i) else Inl ErrTableExhausted)" for i
      using Next_run [OF nxt, of i] unfolding len .
    fix i assume i: "i < nat m"
    show "Respond c sealed (tb_Challenges t ! i) = Inr (tb_Expected t ! i)" by (rule honest [OF i])
    fix held resp
    assume "Respond c held (tb_Challenges t ! i) = Inr resp \<and> VerifyProof (tb_Expected t ! i) resp \<and>
      collision_free c [challenge_payload sealed (tb_Challenges t ! i), challenge_payload held (tb_Challenges t ! i)]"
    then show "take (nat (sint (cg_Length (tb_Challenges t ! i)))) (drop (nat (sint (cg_Offset (tb_Challenges t ! i)))) held) =
        take (nat (sint (cg_Length (tb_Challenges t ! i)))) (drop (nat (sint (cg_Offset (tb_Challenges t ! i)))) sealed)"
      by (elim conjE) (rule bound [OF _ _ honest [OF i]])
  qed
qed

theorem audit_possession_witness:
  "\<exists>t. BuildChallengeTable sample_crypto [9, 9] 1 (replicate 32 0) = Inr t \<and> Respond sample_crypto [9, 9] (tb_Challenges t ! 0) = Inr (tb_Expected t ! 0) \<and>
     fst (ChallengeTable_Next t) = Inr (tb_Challenges t ! 0, tb_Expected t ! 0)"
proof -
  have z: "BigEndian_Uint64 (replicate 8 0) = 0" by (simp add: BigEndian_Uint64_def numeral_eq_Suc)
  have r: "replicate 32 0 = replicate 8 0 @ replicate 8 0 @ (replicate 16 0 :: bytes)" by (simp only: replicate_add [symmetric]) simp
  have lim: "uniform_limit 2 = 18446744073709551614" by (simp add: uniform_limit_def)
  have u: "uniformInt (replicate 8 0 @ e) 2 = Inr (0, e)" for e
    using uniformInt_block [of "replicate 8 0" e 2] by (simp add: z lim)
  have io: "io_ReadFull 16 (replicate 16 0) = Inr (replicate 16 0, [])" by (simp add: io_ReadFull_def)
  have "\<exists>t. BuildChallengeTable sample_crypto [9, 9] 1 (replicate 32 0) = Inr t"
    unfolding BuildChallengeTable_def r by (simp add: u io Respond_def Let_def)
  then obtain t where t: "BuildChallengeTable sample_crypto [9, 9] 1 (replicate 32 0) = Inr t" ..
  show ?thesis using audit_possession [OF t] t by (intro exI [of _ t]) (auto dest: spec [of _ 0])
qed

text \<open>C39: the challenge guard and overflow. Over a shard of realistic size \<open>Respond\<close> panics exactly when offset and length are positive
  but their \<open>int64\<close> sum overflows: the wrapped sum passes the range check and the slice expression fails. Every other
  challenge outside the shard is refused with the documented error.\<close>

theorem Respond_panic_iff:
  assumes "length sealed < 2 ^ 62"
  shows "(Respond c sealed ch = Inl StoragePanic \<longleftrightarrow>
      0 \<le> sint (cg_Offset ch) \<and> 1 \<le> sint (cg_Length ch) \<and> sint (cg_Offset ch) + sint (cg_Length ch) > 9223372036854775807) \<and>
    ((\<exists>d. Respond c sealed ch = Inr d) \<longleftrightarrow>
      0 \<le> sint (cg_Offset ch) \<and> 1 \<le> sint (cg_Length ch) \<and> sint (cg_Offset ch) + sint (cg_Length ch) \<le> int (length sealed))"
proof -
  have l: "int (length sealed) < 2 ^ 62" using assms by (metis of_nat_less_iff of_nat_numeral of_nat_power)
  define o' where "o' = sint (cg_Offset ch)"
  define n where "n = sint (cg_Length ch)"
  have rng: "o' \<le> 9223372036854775807" "n \<le> 9223372036854775807" using sint64_range by (simp_all add: o'_def n_def)
  show ?thesis
  proof (cases "0 \<le> o' \<and> 1 \<le> n")
    case True
    show ?thesis
    proof (cases "o' + n \<le> 9223372036854775807")
      case fits: True
      then have "sint (cg_Offset ch + cg_Length ch) = o' + n" using sint64_add [of "cg_Offset ch" "cg_Length ch"] True by (simp add: o'_def n_def)
      then show ?thesis using True fits l by (simp add: Respond_def o'_def [symmetric] n_def [symmetric])
    next
      case False
      have "sint (cg_Offset ch + cg_Length ch) = o' + n - 2 ^ 64"
      proof -
        have "sint (word_of_int (o' + n - 2 ^ 64) :: u64) = o' + n - 2 ^ 64" using rng False by (intro sint64_of_int) simp_all
        moreover have "(word_of_int (o' + n - 2 ^ 64) :: u64) = cg_Offset ch + cg_Length ch"
          by (simp add: o'_def n_def)
        ultimately show ?thesis by simp
      qed
      then show ?thesis using True False rng l by (simp add: Respond_def o'_def [symmetric] n_def [symmetric])
    qed
  next
    case False
    then show ?thesis by (auto simp: Respond_def o'_def [symmetric] n_def [symmetric])
  qed
qed

theorem Respond_panic_iff_witness:
  "Respond sample_crypto [1, 2, 3] \<lparr>cg_Offset = 1, cg_Length = MaxInt64, cg_Nonce = []\<rparr> = Inl StoragePanic \<and>
   (\<exists>d. Respond sample_crypto [1, 2, 3] \<lparr>cg_Offset = 1, cg_Length = 2, cg_Nonce = []\<rparr> = Inr d)"
  using Respond_panic_iff [of "[1, 2, 3]" sample_crypto "\<lparr>cg_Offset = 1, cg_Length = MaxInt64, cg_Nonce = []\<rparr>"]
    Respond_panic_iff [of "[1, 2, 3]" sample_crypto "\<lparr>cg_Offset = 1, cg_Length = 2, cg_Nonce = []\<rparr>"] by simp

section \<open>Cover traffic\<close>

text \<open>The cadence is bounded whatever is drawn. For every mean up to a tenth of the largest duration and whatever the
  exponential draw yields, \<open>Claim\<close> hands out the later of the scheduled instant and the present, keeps the mean, and
  schedules the next probe between a twentieth and ten times the mean after that slot.\<close>

theorem Cover_Claim_bounds:
  assumes "Cover_Claim draw s now = Inr (slot, s')" and "0 < sint (cs_mean s)" and "sint (cs_mean s) \<le> 922337203685477580"
  shows "slot = max now (NextProbe s) \<and> cs_mean s' = cs_mean s \<and>
    slot + sint (cs_mean s) div 20 \<le> NextProbe s' \<and> NextProbe s' \<le> slot + 10 * sint (cs_mean s)"
proof -
  obtain d s1 where i: "cover_interval draw s = Inr (d, s1)" and c: "slot = (if cs_nextAt s < now then now else cs_nextAt s)" "s' = s1\<lparr>cs_nextAt := slot + sint d\<rparr>"
    using assms(1) by (auto simp: Cover_Claim_def Let_def split: sum.splits)
  have mn: "sint (word_of_int (sint (cs_mean s) div 20) :: u64) = sint (cs_mean s) div 20" using assms(2,3) by (intro sint64_of_int) simp_all
  have mx: "sint (cs_mean s * 10) = 10 * sint (cs_mean s)"
  proof -
    have "sint (word_of_int (sint (cs_mean s) * 10) :: u64) = sint (cs_mean s) * 10" using assms(2,3) by (intro sint64_of_int) simp_all
    then show ?thesis by simp
  qed
  have "sint (cs_mean s) div 20 \<le> sint (cs_mean s)" using assms(2) int_mult_div_le [of 20 "sint (cs_mean s)"] pos_imp_zdiv_nonneg_iff [of 20 "sint (cs_mean s)"] by linarith
  then have "sint (cs_mean s) div 20 \<le> sint d \<and> sint d \<le> 10 * sint (cs_mean s) \<and> cs_mean s1 = cs_mean s"
    using i assms(2) by (auto simp: cover_interval_def Let_def mn mx split: sum.splits if_splits)
  then show ?thesis using c by (simp add: NextProbe_def)
qed

theorem Cover_Claim_bounds_witness:
  "\<exists>s'. Cover_Claim (\<lambda>mean v. 0) \<lparr>cs_mean = 100, cs_entropy = replicate 8 0, cs_nextAt = 50\<rparr> 70 = Inr (70, s') \<and> 75 \<le> NextProbe s' \<and> NextProbe s' \<le> 1070"
proof -
  let ?s = "\<lparr>cs_mean = 100, cs_entropy = replicate 8 0, cs_nextAt = 50\<rparr>"
  have z: "BigEndian_Uint64 (replicate 8 0) = 0" by (simp add: BigEndian_Uint64_def numeral_eq_Suc)
  have lim: "uniform_limit 4611686018427387904 = 13835058055282163712" by (simp add: uniform_limit_def)
  have "uniformInt (replicate 8 0) 4611686018427387904 = Inr (0, [])"
    using uniformInt_block [of "replicate 8 0" "[]" 4611686018427387904] by (simp add: z lim)
  then obtain s' where s': "Cover_Claim (\<lambda>mean v. 0) ?s 70 = Inr (70, s')" by (simp add: Cover_Claim_def cover_interval_def Let_def)
  show ?thesis using Cover_Claim_bounds [OF s'] s' by (intro exI [of _ s']) simp
qed

end
