(* ===== verification/Opcred.thy ===== *)
theory Opcred
  imports Sample Entropy "HOL-Library.Signed_Division"
begin

text \<open>
  Operator credentials of \<open>internal/opcred\<close>: the seven-key keyset and its custody on disk (\<open>keyset.go\<close>), the rotating
  transmission signer (\<open>signer.go\<close>), conformance answers (\<open>conformance.go\<close>) and root delegations (\<open>root.go\<close>,
  \<open>root_file.go\<close>). The protocol module's constants, canonical bytes and signing are the parameter record \<open>op_proto\<close>;
  \<open>proto_ok\<close> names what its documentation says of them. Deriving a key from a seed is a parameter too, with \<open>seeds_ok\<close>.
  The file system is a map from a directory and a file name to contents; the faults a call may meet are an argument.
\<close>

section \<open>What the protocol module provides\<close>

record transmission =
  tx_OperatorID :: string
  tx_TsUnixNano :: u64
  tx_Nonce :: bytes
  tx_Seq :: u64
  tx_Algo :: string
  tx_Idx0 :: int
  tx_Idx1 :: int
  tx_Sig0 :: bytes
  tx_Sig1 :: bytes

record conf_response =
  cr_OperatorID :: string
  cr_Challenge :: bytes
  cr_Algo :: string
  cr_Idx0 :: int
  cr_Idx1 :: int
  cr_Sig0 :: bytes
  cr_Sig1 :: bytes

record op_proto =
  KeyIndexCount :: nat
  MinNonceLen :: nat
  AlgoEd25519 :: string
  tx_CanonicalBytes :: "transmission \<Rightarrow> bytes"
  tx_Sign :: "transmission \<Rightarrow> bytes \<Rightarrow> bytes \<Rightarrow> int \<Rightarrow> int \<Rightarrow> transmission"
  cr_Sign :: "conf_response \<Rightarrow> bytes \<Rightarrow> bytes \<Rightarrow> int \<Rightarrow> int \<Rightarrow> conf_response"

text \<open>Seven keys; signing sets the two indices and signatures and touches nothing else.\<close>

definition proto_ok :: "op_proto \<Rightarrow> bool" where
  "proto_ok P \<longleftrightarrow> KeyIndexCount P = 7 \<and>
     (\<forall>tx p q i j. \<exists>s s'. tx_Sign P tx p q i j = tx\<lparr>tx_Idx0 := i, tx_Idx1 := j, tx_Sig0 := s, tx_Sig1 := s'\<rparr>) \<and>
     (\<forall>cr p q i j. \<exists>s s'. cr_Sign P cr p q i j = cr\<lparr>cr_Idx0 := i, cr_Idx1 := j, cr_Sig0 := s, cr_Sig1 := s'\<rparr>)"

definition SeedSize :: nat where "SeedSize = 32"

text \<open>\<open>ed25519.NewKeyFromSeed\<close>: a key pair whose first half is the seed.\<close>

definition seeds_ok :: "crypto \<Rightarrow> (bytes \<Rightarrow> bytes) \<Rightarrow> bool" where
  "seeds_ok c newKey \<longleftrightarrow> (\<forall>seed. length seed = SeedSize \<longrightarrow> keypair c (newKey seed) \<and> take SeedSize (newKey seed) = seed)"

section \<open>The keyset\<close>

datatype opcred_error =
    ErrKeysetFileExists "string \<times> string" | ErrDuplicateKey nat nat | ErrBadSeed "string \<times> string" | OpGenerate nat | OpMkdir | OpStat "string \<times> string"
  | OpCreate "string \<times> string" | OpWrite "string \<times> string" | OpClose "string \<times> string" | OpReadSeed nat
  | ErrDelegationBadSignature | ErrDelegationKeysetMismatch | ErrDelegationNotYetValid | ErrDelegationExpired | ErrDelegationWindow | ErrDelegationTTL
  | OpNonce | ErrNonceTooShort | ErrUnknownAlgo | ErrIndexRange | ErrSameIndex | ErrRootFileExists "string \<times> string" | OpReadRoot | OpPanic

definition keysetHashDomain :: string where "keysetHashDomain = ''cloudy/opcred/keyset/v0''"

record keyset =
  ks_priv :: "bytes list"
  ks_pub :: "bytes list"

text \<open>\<open>rnd i\<close> is the seed \<open>crypto/rand\<close> yields for key \<open>i\<close>, or \<open>None\<close> where the read fails.\<close>

fun generate_loop :: "crypto \<Rightarrow> (bytes \<Rightarrow> bytes) \<Rightarrow> (nat \<Rightarrow> bytes option) \<Rightarrow> nat list \<Rightarrow> opcred_error + bytes list" where
  "generate_loop c newKey rnd [] = Inr []"
| "generate_loop c newKey rnd (i # is) =
     (case rnd i of None \<Rightarrow> Inl (OpGenerate i)
      | Some seed \<Rightarrow> (case generate_loop c newKey rnd is of Inl e \<Rightarrow> Inl e | Inr ks \<Rightarrow> Inr (newKey seed # ks)))"

definition GenerateKeyset :: "crypto \<Rightarrow> op_proto \<Rightarrow> (bytes \<Rightarrow> bytes) \<Rightarrow> (nat \<Rightarrow> bytes option) \<Rightarrow> opcred_error + keyset" where
  "GenerateKeyset c P newKey rnd =
     (case generate_loop c newKey rnd [0..<KeyIndexCount P] of
        Inl e \<Rightarrow> Inl e | Inr privs \<Rightarrow> Inr \<lparr>ks_priv = privs, ks_pub = map (ed_public c) privs\<rparr>)"

definition seedFileName :: "nat \<Rightarrow> string" where
  "seedFileName i = ''key-'' @ strconv_Itoa (int i) @ ''.seed''"

type_synonym path = "string \<times> string"
type_synonym fs = "path \<rightharpoonup> bytes"

record fs_faults =
  ff_mkdir :: "string \<Rightarrow> bool"
  ff_stat :: "path \<Rightarrow> bool"
  ff_create :: "path \<Rightarrow> bool"
  ff_write :: "path \<Rightarrow> nat option"
  ff_close :: "path \<Rightarrow> bool"
  ff_read :: "path \<Rightarrow> bool"

text \<open>\<open>O_EXCL\<close>: an existing file is refused; a failed write leaves the bytes written so far.\<close>

definition writeSeedFile :: "fs_faults \<Rightarrow> fs \<Rightarrow> path \<Rightarrow> bytes \<Rightarrow> fs \<times> opcred_error option" where
  "writeSeedFile flt fs p seed =
     (if fs p \<noteq> None then (fs, Some (ErrKeysetFileExists p))
      else if ff_create flt p then (fs, Some (OpCreate p))
      else case ff_write flt p of
          Some k \<Rightarrow> (fs(p \<mapsto> take k seed), Some (OpWrite p))
        | None \<Rightarrow> if ff_close flt p then (fs(p \<mapsto> seed), Some (OpClose p)) else (fs(p \<mapsto> seed), None))"

fun save_check :: "fs_faults \<Rightarrow> fs \<Rightarrow> path list \<Rightarrow> opcred_error option" where
  "save_check flt fs [] = None"
| "save_check flt fs (p # ps) =
     (if ff_stat flt p then Some (OpStat p)
      else if fs p \<noteq> None then Some (ErrKeysetFileExists p)
      else save_check flt fs ps)"

fun save_write :: "fs_faults \<Rightarrow> fs \<Rightarrow> (path \<times> bytes) list \<Rightarrow> fs \<times> opcred_error option" where
  "save_write flt fs [] = (fs, None)"
| "save_write flt fs ((p, seed) # rest) =
     (case writeSeedFile flt fs p seed of (fs', Some e) \<Rightarrow> (fs', Some e) | (fs', None) \<Rightarrow> save_write flt fs' rest)"

definition Keyset_Save :: "op_proto \<Rightarrow> fs_faults \<Rightarrow> keyset \<Rightarrow> string \<Rightarrow> fs \<Rightarrow> fs \<times> opcred_error option" where
  "Keyset_Save P flt ks dir fs =
     (if ff_mkdir flt dir then (fs, Some OpMkdir)
      else case save_check flt fs (map (\<lambda>i. (dir, seedFileName i)) [0..<KeyIndexCount P]) of
        Some e \<Rightarrow> (fs, Some e)
      | None \<Rightarrow> save_write flt fs (map (\<lambda>i. ((dir, seedFileName i), take SeedSize (ks_priv ks ! i))) [0..<KeyIndexCount P]))"

definition probe_msg :: bytes where
  "probe_msg = map (\<lambda>ch. word_of_nat (of_char ch)) ''opcred keyset load probe''"

definition probeKey :: "crypto \<Rightarrow> bytes \<Rightarrow> bytes \<Rightarrow> bool option" where
  "probeKey c priv pub =
     (case ed25519_Sign c priv probe_msg of None \<Rightarrow> None | Some sig \<Rightarrow> ed25519_Verify c pub probe_msg sig)"

fun load_loop :: "crypto \<Rightarrow> (bytes \<Rightarrow> bytes) \<Rightarrow> fs_faults \<Rightarrow> fs \<Rightarrow> string \<Rightarrow> nat list \<Rightarrow> opcred_error + bytes list" where
  "load_loop c newKey flt fs dir [] = Inr []"
| "load_loop c newKey flt fs dir (i # is) =
     (let p = (dir, seedFileName i) in
      case (if ff_read flt p then None else fs p) of
        None \<Rightarrow> Inl (OpReadSeed i)
      | Some seed \<Rightarrow>
          if length seed \<noteq> SeedSize then Inl (ErrBadSeed p)
          else let priv = newKey seed; pub = ed_public c priv in
            case probeKey c priv pub of None \<Rightarrow> Inl OpPanic | Some ok \<Rightarrow>
              if \<not> ok then Inl (ErrBadSeed p)
              else case load_loop c newKey flt fs dir is of Inl e \<Rightarrow> Inl e | Inr privs \<Rightarrow> Inr (priv # privs))"

text \<open>The first equal pair in the order of the nested loops.\<close>

definition duplicate_pair :: "bytes list \<Rightarrow> (nat \<times> nat) option" where
  "duplicate_pair pubs =
     (case filter (\<lambda>(i, j). pubs ! i = pubs ! j) (concat (map (\<lambda>i. map (\<lambda>j. (i, j)) [Suc i..<length pubs]) [0..<length pubs])) of
        [] \<Rightarrow> None | p # ps \<Rightarrow> Some p)"

definition LoadKeyset :: "crypto \<Rightarrow> op_proto \<Rightarrow> (bytes \<Rightarrow> bytes) \<Rightarrow> fs_faults \<Rightarrow> fs \<Rightarrow> string \<Rightarrow> opcred_error + keyset" where
  "LoadKeyset c P newKey flt fs dir =
     (case load_loop c newKey flt fs dir [0..<KeyIndexCount P] of
        Inl e \<Rightarrow> Inl e
      | Inr privs \<Rightarrow> (let pubs = map (ed_public c) privs in
          case duplicate_pair pubs of Some (i, j) \<Rightarrow> Inl (ErrDuplicateKey i j)
          | None \<Rightarrow> Inr \<lparr>ks_priv = privs, ks_pub = pubs\<rparr>))"

definition Keyset_PublicKeys :: "keyset \<Rightarrow> bytes list" where
  "Keyset_PublicKeys ks = map (map id) (ks_pub ks)"

definition KeyMap :: "op_proto \<Rightarrow> keyset \<Rightarrow> (int \<rightharpoonup> bytes \<times> string)" where
  "KeyMap P ks = map_of (map (\<lambda>i. (int i, (ks_pub ks ! i, AlgoEd25519 P))) [0..<KeyIndexCount P])"

definition Keyset_Hash :: "crypto \<Rightarrow> op_proto \<Rightarrow> keyset \<Rightarrow> b32" where
  "Keyset_Hash c P ks = sha256 c (canon_sum c keysetHashDomain (map (\<lambda>i. CBytes (ks_pub ks ! i)) [0..<KeyIndexCount P]))"

section \<open>The signer\<close>

definition buildSigningPairs :: "op_proto \<Rightarrow> (nat \<times> nat) list" where
  "buildSigningPairs P = concat (map (\<lambda>i. map (\<lambda>j. (i, j)) [Suc i..<KeyIndexCount P]) [0..<KeyIndexCount P])"

definition transmissionNonceLen :: "op_proto \<Rightarrow> nat" where
  "transmissionNonceLen P = 2 * MinNonceLen P"

record transmission_signer =
  sg_operatorID :: string
  sg_ks :: keyset
  sg_pairCursor :: u64
  sg_seq :: u64
  sg_rand :: entropy

text \<open>\<open>now\<close> is the clock at construction, \<open>reader\<close> what the entropy source will yield.\<close>

definition NewTransmissionSigner :: "string \<Rightarrow> keyset \<Rightarrow> u64 \<Rightarrow> entropy \<Rightarrow> transmission_signer" where
  "NewTransmissionSigner operatorID ks now reader =
     \<lparr>sg_operatorID = operatorID, sg_ks = ks, sg_pairCursor = 0, sg_seq = now, sg_rand = reader\<rparr>"

text \<open>\<open>signingPairs[cursor % len]\<close>: Go's remainder takes the sign of the cursor, and a negative index panics.\<close>

definition pair_at :: "op_proto \<Rightarrow> u64 \<Rightarrow> (nat \<times> nat) option" where
  "pair_at P cursor =
     (let r = sint cursor smod int (length (buildSigningPairs P)) in
      if r < 0 then None else Some (buildSigningPairs P ! nat r))"

text \<open>
  One call of \<open>Next\<close>; \<open>now\<close> is the clock. The cursor advances before the nonce is read, and a read that falls short has
  consumed what was there.
\<close>

definition Signer_Next :: "op_proto \<Rightarrow> transmission_signer \<Rightarrow> u64 \<Rightarrow> (opcred_error + transmission) \<times> transmission_signer" where
  "Signer_Next P s now =
     (case pair_at P (sg_pairCursor s) of None \<Rightarrow> (Inl OpPanic, s)
      | Some (i, j) \<Rightarrow>
          (let s1 = s\<lparr>sg_pairCursor := sg_pairCursor s + 1\<rparr> in
           case io_ReadFull (transmissionNonceLen P) (sg_rand s1) of Inl err \<Rightarrow> (Inl OpNonce, s1\<lparr>sg_rand := []\<rparr>)
           | Inr (nonce, rest) \<Rightarrow>
               (let s2 = s1\<lparr>sg_seq := sg_seq s1 + 1, sg_rand := rest\<rparr>;
                    tx = \<lparr>tx_OperatorID = sg_operatorID s2, tx_TsUnixNano = now, tx_Nonce = nonce, tx_Seq = sg_seq s2,
                          tx_Algo = AlgoEd25519 P, tx_Idx0 = 0, tx_Idx1 = 0, tx_Sig0 = [], tx_Sig1 = []\<rparr>
                in (Inr (tx_Sign P tx (ks_priv (sg_ks s2) ! i) (ks_priv (sg_ks s2) ! j) (int i) (int j)), s2))))"

text \<open>Successive calls of \<open>Next\<close> at the given clock readings.\<close>

fun signer_run :: "op_proto \<Rightarrow> transmission_signer \<Rightarrow> u64 list \<Rightarrow> (opcred_error + transmission) list" where
  "signer_run P s [] = []"
| "signer_run P s (now # nows) = (case Signer_Next P s now of (r, s') \<Rightarrow> r # signer_run P s' nows)"

section \<open>Conformance answers\<close>

record challenge_a =
  ca_ChallengeID :: string
  ca_OperatorID :: string
  ca_TsUnixNano :: u64
  ca_Nonce :: bytes
  ca_Seq :: u64
  ca_Algo :: string
  ca_Idx0 :: int
  ca_Idx1 :: int

record response_a =
  ra_ChallengeID :: string
  ra_CanonicalBytes :: bytes
  ra_Idx0 :: int
  ra_Idx1 :: int
  ra_Sig0 :: bytes
  ra_Sig1 :: bytes

record challenge_b =
  cb_ChallengeID :: string
  cb_OperatorID :: string
  cb_TsUnixNano :: u64
  cb_Nonce :: bytes
  cb_Seq :: u64
  cb_Algo :: string

record response_b =
  rb_ChallengeID :: string
  rb_Idx0 :: int
  rb_Idx1 :: int
  rb_Sig0 :: bytes
  rb_Sig1 :: bytes

record conformance_responder =
  rp_operatorID :: string
  rp_ks :: keyset
  rp_pairCursor :: u64

definition NewConformanceResponder :: "string \<Rightarrow> keyset \<Rightarrow> conformance_responder" where
  "NewConformanceResponder operatorID ks = \<lparr>rp_operatorID = operatorID, rp_ks = ks, rp_pairCursor = 0\<rparr>"

definition validateChallengeFields :: "op_proto \<Rightarrow> bytes \<Rightarrow> string \<Rightarrow> opcred_error option" where
  "validateChallengeFields P nonce algo =
     (if length nonce < MinNonceLen P then Some ErrNonceTooShort
      else if algo \<noteq> AlgoEd25519 P then Some ErrUnknownAlgo else None)"

definition AnswerA :: "op_proto \<Rightarrow> conformance_responder \<Rightarrow> challenge_a \<Rightarrow> opcred_error + response_a" where
  "AnswerA P rp ch =
     (case validateChallengeFields P (ca_Nonce ch) (ca_Algo ch) of Some e \<Rightarrow> Inl e | None \<Rightarrow>
      if ca_Idx0 ch < 0 \<or> ca_Idx0 ch \<ge> int (KeyIndexCount P) \<or> ca_Idx1 ch < 0 \<or> ca_Idx1 ch \<ge> int (KeyIndexCount P) then Inl ErrIndexRange
      else if ca_Idx0 ch = ca_Idx1 ch then Inl ErrSameIndex
      else
        let tx = \<lparr>tx_OperatorID = ca_OperatorID ch, tx_TsUnixNano = ca_TsUnixNano ch, tx_Nonce = ca_Nonce ch, tx_Seq = ca_Seq ch,
                  tx_Algo = ca_Algo ch, tx_Idx0 = ca_Idx0 ch, tx_Idx1 = ca_Idx1 ch, tx_Sig0 = [], tx_Sig1 = []\<rparr>;
            canonical = tx_CanonicalBytes P tx;
            cr = cr_Sign P \<lparr>cr_OperatorID = ca_OperatorID ch, cr_Challenge = canonical, cr_Algo = ca_Algo ch, cr_Idx0 = 0, cr_Idx1 = 0,
                            cr_Sig0 = [], cr_Sig1 = []\<rparr>
                   (ks_priv (rp_ks rp) ! nat (ca_Idx0 ch)) (ks_priv (rp_ks rp) ! nat (ca_Idx1 ch)) (ca_Idx0 ch) (ca_Idx1 ch)
        in Inr \<lparr>ra_ChallengeID = ca_ChallengeID ch, ra_CanonicalBytes = canonical, ra_Idx0 = cr_Idx0 cr, ra_Idx1 = cr_Idx1 cr,
                ra_Sig0 = cr_Sig0 cr, ra_Sig1 = cr_Sig1 cr\<rparr>)"

definition AnswerB :: "op_proto \<Rightarrow> conformance_responder \<Rightarrow> challenge_b \<Rightarrow> (opcred_error + response_b) \<times> conformance_responder" where
  "AnswerB P rp ch =
     (case validateChallengeFields P (cb_Nonce ch) (cb_Algo ch) of Some e \<Rightarrow> (Inl e, rp) | None \<Rightarrow>
      case pair_at P (rp_pairCursor rp) of None \<Rightarrow> (Inl OpPanic, rp)
      | Some (i, j) \<Rightarrow>
        let tx = tx_Sign P \<lparr>tx_OperatorID = cb_OperatorID ch, tx_TsUnixNano = cb_TsUnixNano ch, tx_Nonce = cb_Nonce ch, tx_Seq = cb_Seq ch,
                            tx_Algo = cb_Algo ch, tx_Idx0 = 0, tx_Idx1 = 0, tx_Sig0 = [], tx_Sig1 = []\<rparr>
                   (ks_priv (rp_ks rp) ! i) (ks_priv (rp_ks rp) ! j) (int i) (int j)
        in (Inr \<lparr>rb_ChallengeID = cb_ChallengeID ch, rb_Idx0 = tx_Idx0 tx, rb_Idx1 = tx_Idx1 tx, rb_Sig0 = tx_Sig0 tx, rb_Sig1 = tx_Sig1 tx\<rparr>,
            rp\<lparr>rp_pairCursor := rp_pairCursor rp + 1\<rparr>))"

section \<open>Delegations\<close>

definition delegationDomain :: string where "delegationDomain = ''cloudy/opcred/delegation/v0''"

definition MaxDelegationTTL :: u64 where "MaxDelegationTTL = 30 * 24 * 3600 * 1000000000"

record delegation =
  dg_KeysetHash :: b32
  dg_NotBefore :: u64
  dg_NotAfter :: u64
  dg_RootPub :: bytes
  dg_Sig :: bytes

definition Delegation_CanonicalBytes :: "crypto \<Rightarrow> delegation \<Rightarrow> bytes" where
  "Delegation_CanonicalBytes c d =
     canon_sum c delegationDomain [CBytes (b32_bytes (dg_KeysetHash d)), CInt64 (dg_NotBefore d), CInt64 (dg_NotAfter d)]"

text \<open>The file-backed root; \<open>UnixNano\<close> of an instant is its 64-bit reading.\<close>

record file_root =
  fr_priv :: bytes
  fr_pub :: bytes

definition newFileRootSigner :: "crypto \<Rightarrow> (bytes \<Rightarrow> bytes) \<Rightarrow> path \<Rightarrow> bytes \<Rightarrow> opcred_error + file_root" where
  "newFileRootSigner c newKey p seed =
     (let priv = newKey seed; pub = ed_public c priv in
      case probeKey c priv pub of None \<Rightarrow> Inl OpPanic | Some ok \<Rightarrow>
        if \<not> ok then Inl (ErrBadSeed p) else Inr \<lparr>fr_priv = priv, fr_pub = pub\<rparr>)"

definition GenerateFileRoot ::
  "crypto \<Rightarrow> (bytes \<Rightarrow> bytes) \<Rightarrow> fs_faults \<Rightarrow> entropy \<Rightarrow> path \<Rightarrow> fs \<Rightarrow> fs \<times> (opcred_error + file_root)" where
  "GenerateFileRoot c newKey flt reader p fs =
     (case io_ReadFull SeedSize reader of Inl err \<Rightarrow> (fs, Inl (OpGenerate 0)) | Inr (seed, rest) \<Rightarrow>
      if fst p \<noteq> ''.'' \<and> ff_mkdir flt (fst p) then (fs, Inl OpMkdir)
      else if fs p \<noteq> None then (fs, Inl (ErrRootFileExists p))
      else if ff_create flt p then (fs, Inl (OpCreate p))
      else case ff_write flt p of
          Some k \<Rightarrow> (fs(p \<mapsto> take k seed), Inl (OpWrite p))
        | None \<Rightarrow> if ff_close flt p then (fs(p \<mapsto> seed), Inl (OpClose p))
                  else (fs(p \<mapsto> seed), newFileRootSigner c newKey p seed))"

definition LoadFileRoot :: "crypto \<Rightarrow> (bytes \<Rightarrow> bytes) \<Rightarrow> fs_faults \<Rightarrow> path \<Rightarrow> fs \<Rightarrow> opcred_error + file_root" where
  "LoadFileRoot c newKey flt p fs =
     (case (if ff_read flt p then None else fs p) of None \<Rightarrow> Inl OpReadRoot
      | Some seed \<Rightarrow> if length seed \<noteq> SeedSize then Inl (ErrBadSeed p) else newFileRootSigner c newKey p seed)"

definition FileRoot_PublicKey :: "file_root \<Rightarrow> bytes" where "FileRoot_PublicKey r = map id (fr_pub r)"
definition FileRoot_Sign :: "crypto \<Rightarrow> file_root \<Rightarrow> bytes \<Rightarrow> bytes option" where "FileRoot_Sign c r msg = ed25519_Sign c (fr_priv r) msg"
definition FileRoot_StandIn :: "file_root \<Rightarrow> bool" where "FileRoot_StandIn r = True"

definition IssueDelegation :: "crypto \<Rightarrow> op_proto \<Rightarrow> file_root \<Rightarrow> keyset \<Rightarrow> u64 \<Rightarrow> u64 \<Rightarrow> opcred_error + delegation" where
  "IssueDelegation c P rs ks nb na =
     (if sint na \<le> sint nb then Inl ErrDelegationWindow
      else if sint (na - nb) > sint MaxDelegationTTL then Inl ErrDelegationTTL
      else let d = \<lparr>dg_KeysetHash = Keyset_Hash c P ks, dg_NotBefore = nb, dg_NotAfter = na, dg_RootPub = [], dg_Sig = []\<rparr> in
        case FileRoot_Sign c rs (Delegation_CanonicalBytes c d) of None \<Rightarrow> Inl OpPanic
        | Some sig \<Rightarrow> Inr (d\<lparr>dg_Sig := sig, dg_RootPub := FileRoot_PublicKey rs\<rparr>))"

definition VerifyDelegation :: "crypto \<Rightarrow> delegation \<Rightarrow> bytes \<Rightarrow> b32 \<Rightarrow> u64 \<Rightarrow> opcred_error option" where
  "VerifyDelegation c d rootPub keysetHash at =
     (if length rootPub \<noteq> PublicKeySize \<or> \<not> sig_ok c rootPub (Delegation_CanonicalBytes c d) (dg_Sig d) then Some ErrDelegationBadSignature
      else if dg_KeysetHash d \<noteq> keysetHash then Some ErrDelegationKeysetMismatch
      else if sint at < sint (dg_NotBefore d) then Some ErrDelegationNotYetValid
      else if sint at > sint (dg_NotAfter d) then Some ErrDelegationExpired
      else None)"

section \<open>The rotation\<close>

lemma buildSigningPairs_7: "KeyIndexCount P = 7 \<Longrightarrow> length (buildSigningPairs P) = 21"
  by (simp add: buildSigningPairs_def upt_rec)

lemma distinct_signingPairs: "KeyIndexCount P = 7 \<Longrightarrow> distinct (buildSigningPairs P)"
  by (simp add: buildSigningPairs_def upt_rec)

lemma set_signingPairs: "set (buildSigningPairs P) = {(i, j). i < j \<and> j < KeyIndexCount P}"
  by (force simp: buildSigningPairs_def image_iff)

lemma pair_at_nat:
  assumes "KeyIndexCount P = 7" and "n < 2 ^ 63"
  shows "pair_at P (word_of_nat n) = Some (buildSigningPairs P ! (n mod 21))"
proof -
  have "int n < 2 ^ 63" using assms(2) by (metis of_nat_less_iff of_nat_numeral of_nat_power)
  then have "sint (word_of_int (int n) :: u64) = int n" by (intro sint64_of_int) simp_all
  then have "sint (word_of_nat n :: u64) smod 21 = int (n mod 21)"
    by (simp add: signed_modulo_int_def zmod_int sgn_if signed_divide_int_def minus_div_mult_eq_mod)
  then show ?thesis by (simp add: pair_at_def buildSigningPairs_7 [OF assms(1)])
qed

lemma pair_at_Some:
  assumes "proto_ok P" and "pair_at P cursor = Some (i, j)"
  shows "i < j \<and> j < 7"
proof -
  have k: "KeyIndexCount P = 7" using assms(1) by (simp add: proto_ok_def)
  let ?r = "sint cursor smod 21"
  have r: "\<not> ?r < 0" "buildSigningPairs P ! nat ?r = (i, j)"
    using assms(2) by (auto simp: pair_at_def Let_def buildSigningPairs_7 [OF k] split: if_splits)
  have "\<bar>?r\<bar> < 21" by (simp add: signed_modulo_int_def signed_divide_int_def abs_mult abs_sgn_eq minus_div_mult_eq_mod split: if_splits)
  then have "nat ?r < length (buildSigningPairs P)" using r(1) by (simp add: buildSigningPairs_7 [OF k])
  from nth_mem [OF this] show ?thesis unfolding r(2) set_signingPairs k by simp
qed

text \<open>The transmission before it is signed.\<close>

definition unsigned_tx :: "op_proto \<Rightarrow> string \<Rightarrow> u64 \<Rightarrow> bytes \<Rightarrow> u64 \<Rightarrow> transmission" where
  "unsigned_tx P op now nonce seq = \<lparr>tx_OperatorID = op, tx_TsUnixNano = now, tx_Nonce = nonce, tx_Seq = seq,
     tx_Algo = AlgoEd25519 P, tx_Idx0 = 0, tx_Idx1 = 0, tx_Sig0 = [], tx_Sig1 = []\<rparr>"

text \<open>A transmission signed with the two keys of a pair.\<close>

definition signed_with :: "op_proto \<Rightarrow> keyset \<Rightarrow> transmission \<Rightarrow> nat \<times> nat \<Rightarrow> transmission" where
  "signed_with P ks tx p = tx_Sign P tx (ks_priv ks ! fst p) (ks_priv ks ! snd p) (int (fst p)) (int (snd p))"

lemma Signer_Next_at:
  assumes "proto_ok P" and "n < 2 ^ 63" and "sg_pairCursor s = word_of_nat n" and "transmissionNonceLen P \<le> length (sg_rand s)"
  obtains tx where
    "Signer_Next P s now = (Inr tx, s\<lparr>sg_pairCursor := word_of_nat (Suc n), sg_seq := sg_seq s + 1, sg_rand := drop (transmissionNonceLen P) (sg_rand s)\<rparr>)"
    "tx_OperatorID tx = sg_operatorID s" "tx_TsUnixNano tx = now" "tx_Nonce tx = take (transmissionNonceLen P) (sg_rand s)"
    "tx_Seq tx = sg_seq s + 1" "tx_Algo tx = AlgoEd25519 P"
    "(tx_Idx0 tx, tx_Idx1 tx) = map_prod int int (buildSigningPairs P ! (n mod 21))"
    "tx = signed_with P (sg_ks s) (unsigned_tx P (sg_operatorID s) now (take (transmissionNonceLen P) (sg_rand s)) (sg_seq s + 1)) (buildSigningPairs P ! (n mod 21))"
proof -
  have k: "KeyIndexCount P = 7" using assms(1) by (simp add: proto_ok_def)
  obtain i j where ij: "buildSigningPairs P ! (n mod 21) = (i, j)" by fastforce
  let ?tx = "\<lparr>tx_OperatorID = sg_operatorID s, tx_TsUnixNano = now, tx_Nonce = take (transmissionNonceLen P) (sg_rand s), tx_Seq = sg_seq s + 1,
               tx_Algo = AlgoEd25519 P, tx_Idx0 = 0, tx_Idx1 = 0, tx_Sig0 = [], tx_Sig1 = []\<rparr>"
  obtain t t' where sg: "tx_Sign P ?tx (ks_priv (sg_ks s) ! i) (ks_priv (sg_ks s) ! j) (int i) (int j)
      = ?tx\<lparr>tx_Idx0 := int i, tx_Idx1 := int j, tx_Sig0 := t, tx_Sig1 := t'\<rparr>"
    using assms(1) unfolding proto_ok_def by meson
  have "word_of_nat n + 1 = (word_of_nat (Suc n) :: u64)" by simp
  then show thesis
    using assms(3,4) ij that [of "?tx\<lparr>tx_Idx0 := int i, tx_Idx1 := int j, tx_Sig0 := t, tx_Sig1 := t'\<rparr>"]
    by (simp add: Signer_Next_def pair_at_nat [OF k assms(2)] io_ReadFull_def sg signed_with_def unsigned_tx_def del: of_nat_Suc)
qed

text \<open>Whatever the cursor, a transmission that is returned is signed with two keys of the signer's set.\<close>

lemma Signer_Next_signed:
  assumes "proto_ok P" and "Signer_Next P s now = (Inr tx, s')"
  shows "\<exists>nonce i j. i < j \<and> j < 7 \<and> length nonce = transmissionNonceLen P \<and>
    tx = tx_Sign P (unsigned_tx P (sg_operatorID s) now nonce (sg_seq s + 1)) (ks_priv (sg_ks s) ! i) (ks_priv (sg_ks s) ! j) (int i) (int j)"
proof -
  obtain i j where p: "pair_at P (sg_pairCursor s) = Some (i, j)" using assms(2) by (auto simp: Signer_Next_def split: option.splits)
  have "transmissionNonceLen P \<le> length (sg_rand s)" "tx = tx_Sign P (unsigned_tx P (sg_operatorID s) now (take (transmissionNonceLen P) (sg_rand s)) (sg_seq s + 1))
      (ks_priv (sg_ks s) ! i) (ks_priv (sg_ks s) ! j) (int i) (int j)"
    using assms(2) by (auto simp: Signer_Next_def p io_ReadFull_def unsigned_tx_def Let_def split: if_splits)
  then show ?thesis using pair_at_Some [OF assms(1) p] by (intro exI [of _ "take (transmissionNonceLen P) (sg_rand s)"] exI [of _ i] exI [of _ j]) simp
qed

lemma signer_run_nth:
  assumes P: "proto_ok P"
  shows "n + length nows \<le> 2 ^ 63 \<Longrightarrow> sg_pairCursor s = word_of_nat n \<Longrightarrow> length nows * transmissionNonceLen P \<le> length (sg_rand s) \<Longrightarrow>
    k < length nows \<Longrightarrow> \<exists>tx. signer_run P s nows ! k = Inr tx \<and> tx_OperatorID tx = sg_operatorID s \<and> tx_TsUnixNano tx = nows ! k \<and>
      tx_Nonce tx = take (transmissionNonceLen P) (drop (k * transmissionNonceLen P) (sg_rand s)) \<and>
      tx_Seq tx = sg_seq s + 1 + word_of_nat k \<and> tx_Algo tx = AlgoEd25519 P \<and>
      (tx_Idx0 tx, tx_Idx1 tx) = map_prod int int (buildSigningPairs P ! ((n + k) mod 21)) \<and>
      tx = signed_with P (sg_ks s) (unsigned_tx P (sg_operatorID s) (nows ! k) (take (transmissionNonceLen P) (drop (k * transmissionNonceLen P) (sg_rand s)))
        (sg_seq s + 1 + word_of_nat k)) (buildSigningPairs P ! ((n + k) mod 21))"
proof (induction nows arbitrary: n s k)
  case (Cons now nows)
  have b: "n < 2 ^ 63" "transmissionNonceLen P \<le> length (sg_rand s)" using Cons.prems(1,3) by simp_all
  obtain tx where tx: "Signer_Next P s now = (Inr tx, s\<lparr>sg_pairCursor := word_of_nat (Suc n), sg_seq := sg_seq s + 1, sg_rand := drop (transmissionNonceLen P) (sg_rand s)\<rparr>)"
    "tx_OperatorID tx = sg_operatorID s" "tx_TsUnixNano tx = now" "tx_Nonce tx = take (transmissionNonceLen P) (sg_rand s)"
    "tx_Seq tx = sg_seq s + 1" "tx_Algo tx = AlgoEd25519 P" "(tx_Idx0 tx, tx_Idx1 tx) = map_prod int int (buildSigningPairs P ! (n mod 21))"
    "tx = signed_with P (sg_ks s) (unsigned_tx P (sg_operatorID s) now (take (transmissionNonceLen P) (sg_rand s)) (sg_seq s + 1)) (buildSigningPairs P ! (n mod 21))"
    by (rule Signer_Next_at [OF P b(1) Cons.prems(2) b(2)])
  show ?case
  proof (cases k)
    case 0
    then show ?thesis using tx by simp
  next
    case (Suc m)
    let ?s = "s\<lparr>sg_pairCursor := word_of_nat (Suc n), sg_seq := sg_seq s + 1, sg_rand := drop (transmissionNonceLen P) (sg_rand s)\<rparr>"
    have "Suc n + length nows \<le> 2 ^ 63" "sg_pairCursor ?s = word_of_nat (Suc n)" "length nows * transmissionNonceLen P \<le> length (sg_rand ?s)" "m < length nows"
      using Cons.prems Suc by simp_all
    from Cons.IH [OF this] show ?thesis using tx(1) Suc by (simp add: add.commute add.left_commute)
  qed
qed simp

text \<open>The index pair of a result.\<close>

definition tx_pair :: "opcred_error + transmission \<Rightarrow> (int \<times> int) option" where
  "tx_pair r = (case r of Inl e \<Rightarrow> None | Inr tx \<Rightarrow> Some (tx_Idx0 tx, tx_Idx1 tx))"

lemma length_signer_run [simp]: "length (signer_run P s nows) = length nows"
  by (induction nows arbitrary: s) (simp_all split: prod.splits)

lemma signer_block_rotate:
  assumes P: "proto_ok P" and b: "length nows \<le> 2 ^ 63" and c: "sg_pairCursor s = 0"
    and e: "length nows * transmissionNonceLen P \<le> length (sg_rand s)" and m: "m + 21 \<le> length nows"
  shows "map tx_pair (take 21 (drop m (signer_run P s nows))) = map (Some \<circ> map_prod int int) (rotate m (buildSigningPairs P))"
proof (rule nth_equalityI)
  have k: "length (buildSigningPairs P) = 21" using P by (simp add: proto_ok_def buildSigningPairs_7)
  then show "length (map tx_pair (take 21 (drop m (signer_run P s nows)))) = length (map (Some \<circ> map_prod int int) (rotate m (buildSigningPairs P)))"
    using m by simp
  fix q assume "q < length (map tx_pair (take 21 (drop m (signer_run P s nows))))"
  then have q: "q < 21" "m + q < length nows" using m by simp_all
  obtain tx where "signer_run P s nows ! (m + q) = Inr tx" "(tx_Idx0 tx, tx_Idx1 tx) = map_prod int int (buildSigningPairs P ! ((0 + (m + q)) mod 21))"
    using signer_run_nth [OF P, of 0 nows s "m + q"] b c e q by auto
  then show "map tx_pair (take 21 (drop m (signer_run P s nows))) ! q = map (Some \<circ> map_prod int int) (rotate m (buildSigningPairs P)) ! q"
    using q m k by (simp add: tx_pair_def nth_rotate)
qed

lemma inj_pairs: "inj (Some \<circ> map_prod int int)"
  by (auto simp: inj_def)

text \<open>C40: \<open>Next\<close> rotates evenly and never repeats a sequence number. From a fresh signer, as long as the entropy source
  serves one nonce a call and fewer than \<open>2^63\<close> calls are made, every call succeeds; call \<open>k\<close> carries the \<open>k\<close>-th slice of
  the entropy as nonce and the construction clock plus \<open>k + 1\<close> as sequence number, and is signed with the private keys of two positions \<open>i < j\<close>, which
  are the positions it names; and any 21 consecutive calls go through each of the 21 unordered pairs of distinct keys exactly once.\<close>

theorem signer_rotation:
  assumes "proto_ok P" and "length nows \<le> 2 ^ 63" and "length nows * transmissionNonceLen P \<le> length reader" and "m + 21 \<le> length nows"
  shows "(\<forall>k < length nows. \<exists>tx i j. signer_run P (NewTransmissionSigner op ks now0 reader) nows ! k = Inr tx \<and>
             tx = tx_Sign P (unsigned_tx P op (nows ! k) (take (transmissionNonceLen P) (drop (k * transmissionNonceLen P) reader)) (now0 + 1 + word_of_nat k))
               (ks_priv ks ! i) (ks_priv ks ! j) (int i) (int j) \<and>
             i < j \<and> j < 7 \<and> tx_Idx0 tx = int i \<and> tx_Idx1 tx = int j \<and>
             tx_OperatorID tx = op \<and> tx_TsUnixNano tx = nows ! k \<and> tx_Seq tx = now0 + 1 + word_of_nat k \<and>
             tx_Nonce tx = take (transmissionNonceLen P) (drop (k * transmissionNonceLen P) reader)) \<and>
         (let block = map tx_pair (take 21 (drop m (signer_run P (NewTransmissionSigner op ks now0 reader) nows)))
          in distinct block \<and> set block = {Some (i, j) | i j. 0 \<le> i \<and> i < j \<and> j < 7})"
proof -
  let ?s = "NewTransmissionSigner op ks now0 reader"
  have s: "sg_pairCursor ?s = 0" "sg_rand ?s = reader" "sg_operatorID ?s = op" "sg_seq ?s = now0" "sg_ks ?s = ks"
    by (simp_all add: NewTransmissionSigner_def)
  have k7: "KeyIndexCount P = 7" using assms(1) by (simp add: proto_ok_def)
  have b: "map tx_pair (take 21 (drop m (signer_run P ?s nows))) = map (Some \<circ> map_prod int int) (rotate m (buildSigningPairs P))"
    using assms s by (intro signer_block_rotate) simp_all
  have "(Some \<circ> map_prod int int) ` {(i, j). i < j \<and> j < 7} = {Some (i, j) | i j. 0 \<le> i \<and> i < j \<and> j < 7}" (is "?L = ?R")
  proof
    show "?R \<subseteq> ?L"
    proof
      fix x assume "x \<in> ?R"
      then obtain i j where "x = Some (i, j)" "0 \<le> i" "i < j" "j < 7" by auto
      then have "x = (Some \<circ> map_prod int int) (nat i, nat j)" "(nat i, nat j) \<in> {(i, j). i < j \<and> j < 7}" by auto
      then show "x \<in> ?L" by (rule image_eqI)
    qed
  qed auto
  then have "distinct (map (Some \<circ> map_prod int int) (rotate m (buildSigningPairs P)))"
    "set (map (Some \<circ> map_prod int int) (rotate m (buildSigningPairs P))) = {Some (i, j) | i j. 0 \<le> i \<and> i < j \<and> j < 7}"
    using inj_on_subset [OF inj_pairs] by (simp_all only: distinct_map distinct_rotate set_map set_rotate set_signingPairs k7 distinct_signingPairs) blast
  note block = this
  have call: "\<exists>tx i j. signer_run P ?s nows ! k = Inr tx \<and>
      tx = tx_Sign P (unsigned_tx P op (nows ! k) (take (transmissionNonceLen P) (drop (k * transmissionNonceLen P) reader)) (now0 + 1 + word_of_nat k))
        (ks_priv ks ! i) (ks_priv ks ! j) (int i) (int j) \<and> i < j \<and> j < 7 \<and> tx_Idx0 tx = int i \<and> tx_Idx1 tx = int j \<and>
      tx_OperatorID tx = op \<and> tx_TsUnixNano tx = nows ! k \<and> tx_Seq tx = now0 + 1 + word_of_nat k \<and>
      tx_Nonce tx = take (transmissionNonceLen P) (drop (k * transmissionNonceLen P) reader)" if k: "k < length nows" for k
  proof -
    obtain i j where ij: "buildSigningPairs P ! (k mod 21) = (i, j)" by fastforce
    have "(i, j) \<in> set (buildSigningPairs P)" unfolding ij [symmetric] using buildSigningPairs_7 [OF k7] by (intro nth_mem) simp
    then have "i < j \<and> j < 7" using set_signingPairs [of P] k7 by auto
    moreover obtain tx where "signer_run P ?s nows ! k = Inr tx" "tx_OperatorID tx = op" "tx_TsUnixNano tx = nows ! k"
      "tx_Nonce tx = take (transmissionNonceLen P) (drop (k * transmissionNonceLen P) reader)" "tx_Seq tx = now0 + 1 + word_of_nat k" "(tx_Idx0 tx, tx_Idx1 tx) = (int i, int j)"
      "tx = signed_with P ks (unsigned_tx P op (nows ! k) (take (transmissionNonceLen P) (drop (k * transmissionNonceLen P) reader)) (now0 + 1 + word_of_nat k)) (i, j)"
      using signer_run_nth [OF assms(1), of 0 nows ?s k] assms(2,3) k ij unfolding s by auto
    ultimately show ?thesis unfolding signed_with_def fst_conv snd_conv
      by (intro exI [of _ tx] exI [of _ i] exI [of _ j] conjI) (assumption | simp only: prod.inject)+
  qed
  show ?thesis unfolding b Let_def
    by (intro conjI allI impI) (erule call | rule block)+
qed

text \<open>A protocol module for the witnesses.\<close>

definition sample_proto :: op_proto where
  "sample_proto = \<lparr>KeyIndexCount = 7, MinNonceLen = 1, AlgoEd25519 = ''ed25519'', tx_CanonicalBytes = (\<lambda>tx. []),
     tx_Sign = (\<lambda>tx p q i j. tx\<lparr>tx_Idx0 := i, tx_Idx1 := j, tx_Sig0 := p, tx_Sig1 := q\<rparr>),
     cr_Sign = (\<lambda>cr p q i j. cr\<lparr>cr_Idx0 := i, cr_Idx1 := j, cr_Sig0 := p, cr_Sig1 := q\<rparr>)\<rparr>"

lemma sample_proto_ok: "proto_ok sample_proto"
  by (simp add: proto_ok_def sample_proto_def) (metis conf_response.surjective conf_response.update_convs transmission.surjective transmission.update_convs)

definition sample_seed_key :: "bytes \<Rightarrow> bytes" where "sample_seed_key seed = seed @ seed"

lemma sample_seeds_ok: "seeds_ok sample_crypto sample_seed_key"
  by (simp add: seeds_ok_def sample_seed_key_def keypair_def sample_crypto_def SeedSize_def PrivateKeySize_def PublicKeySize_def SignatureSize_def)

definition sample_keyset :: keyset where
  "sample_keyset = (let privs = map (\<lambda>i. sample_seed_key (replicate 32 (word_of_nat i))) [0..<7]
                    in \<lparr>ks_priv = privs, ks_pub = map (ed_public sample_crypto) privs\<rparr>)"

theorem signer_rotation_witness:
  "(\<exists>tx i j. signer_run sample_proto (NewTransmissionSigner ''op'' sample_keyset 5 (replicate 100 1)) (replicate 23 9) ! 4 = Inr tx \<and>
      i < j \<and> tx_Sig0 tx = ks_priv sample_keyset ! i \<and> tx_Sig1 tx = ks_priv sample_keyset ! j) \<and>
   (let block = map tx_pair (take 21 (drop 2 (signer_run sample_proto (NewTransmissionSigner ''op'' sample_keyset 5 (replicate 100 1)) (replicate 23 9))))
    in distinct block \<and> set block = {Some (i, j) | i j. 0 \<le> i \<and> i < j \<and> j < (7 :: int)})"
proof -
  have n: "length (replicate 23 (9 :: u64)) \<le> 2 ^ 63" "length (replicate 23 (9 :: u64)) * transmissionNonceLen sample_proto \<le> length (replicate 100 (1 :: byte))"
    "2 + 21 \<le> length (replicate 23 (9 :: u64))" by (simp_all add: transmissionNonceLen_def sample_proto_def)
  have sig: "tx_Sig0 (tx_Sign sample_proto tx p q i j) = p" "tx_Sig1 (tx_Sign sample_proto tx p q i j) = q" for tx p q i j by (simp_all add: sample_proto_def)
  note r = signer_rotation [OF sample_proto_ok n, of "''op''" sample_keyset 5]
  have "(4 :: nat) < length (replicate 23 (9 :: u64))" by simp
  from conjunct1 [OF r, rule_format, OF this] obtain tx i j where
    "signer_run sample_proto (NewTransmissionSigner ''op'' sample_keyset 5 (replicate 100 1)) (replicate 23 9) ! 4 = Inr tx" "i < j"
    "tx_Sig0 tx = ks_priv sample_keyset ! i" "tx_Sig1 tx = ks_priv sample_keyset ! j" by (elim exE conjE) (simp add: sig)
  then show ?thesis by (intro conjI exI) (assumption | rule conjunct2 [OF r])+
qed

section \<open>Delegations bind a keyset to a window\<close>

definition root_ok :: "crypto \<Rightarrow> file_root \<Rightarrow> bool" where
  "root_ok c rs \<longleftrightarrow> keypair c (fr_priv rs) \<and> fr_pub rs = ed_public c (fr_priv rs)"

lemma newFileRootSigner_ok:
  assumes "seeds_ok c newKey" and "length seed = SeedSize"
  shows "newFileRootSigner c newKey p seed = Inr \<lparr>fr_priv = newKey seed, fr_pub = ed_public c (newKey seed)\<rparr>"
  using assms by (simp add: Let_def seeds_ok_def newFileRootSigner_def probeKey_def ed25519_Sign_def keypair_def ed25519_Verify_def)

lemma LoadFileRoot_ok: "seeds_ok c newKey \<Longrightarrow> LoadFileRoot c newKey flt p fs = Inr rs \<Longrightarrow> root_ok c rs"
  by (auto simp: LoadFileRoot_def root_ok_def newFileRootSigner_ok seeds_ok_def split: option.splits if_splits)

lemma sint64_span: "sint na - sint nb \<ge> 2 ^ 63 \<Longrightarrow> sint (na - nb :: u64) = sint na - sint nb - 2 ^ 64"
proof -
  assume g: "sint na - sint nb \<ge> 2 ^ 63"
  have r: "- 9223372036854775808 \<le> sint na - sint nb - 2 ^ 64" "sint na - sint nb - 2 ^ 64 \<le> 9223372036854775807"
    using g sint64_range [of na] sint64_range [of nb] by simp_all
  have "word_of_int (2 ^ 64) = (0 :: u64)" by (simp add: word_uint_eq_iff)
  then have "na - nb = word_of_int (sint na - sint nb - 2 ^ 64)" by (simp only: of_int_diff of_int_sint) simp
  then show ?thesis using sint64_of_int [OF r] by (simp only:)
qed

text \<open>The windows \<open>IssueDelegation\<close> signs. It refuses an empty or inverted window, and otherwise signs exactly the windows
  of at most thirty days \<^emph>\<open>and\<close> those of at least \<open>2^63\<close> nanoseconds (some 292 years): there the difference of the two
  64-bit instants wraps to a negative number and passes the limit.\<close>

theorem IssueDelegation_windows:
  assumes "root_ok c rs"
  shows "(\<exists>d. IssueDelegation c P rs ks nb na = Inr d) \<longleftrightarrow>
     sint nb < sint na \<and> (sint na - sint nb \<le> 30 * 24 * 3600 * 10 ^ 9 \<or> 2 ^ 63 \<le> sint na - sint nb)"
proof -
  have m: "sint MaxDelegationTTL = 30 * 24 * 3600 * 10 ^ 9" by (simp add: MaxDelegationTTL_def)
  have "(\<exists>d. IssueDelegation c P rs ks nb na = Inr d) \<longleftrightarrow> sint nb < sint na \<and> sint (na - nb) \<le> sint MaxDelegationTTL"
    using assms by (auto simp: IssueDelegation_def Let_def FileRoot_Sign_def ed25519_Sign_def root_ok_def keypair_def)
  also have "\<dots> \<longleftrightarrow> sint nb < sint na \<and> (sint na - sint nb \<le> 30 * 24 * 3600 * 10 ^ 9 \<or> 2 ^ 63 \<le> sint na - sint nb)"
  proof (cases "2 ^ 63 \<le> sint na - sint nb")
    case True
    then have "sint (na - nb) \<le> sint MaxDelegationTTL"
      using sint64_span [OF True] sint64_range [of na] sint64_range [of nb] by (simp add: m)
    then show ?thesis using True by simp
  next
    case False
    have "sint nb < sint na \<Longrightarrow> sint (na - nb) = sint na - sint nb" using False by (intro sint64_sub) simp_all
    then show ?thesis using False by (auto simp: m)
  qed
  finally show ?thesis .
qed

lemma IssueDelegation_fields:
  assumes "root_ok c rs" and "IssueDelegation c P rs ks nb na = Inr d"
  shows "dg_KeysetHash d = Keyset_Hash c P ks" "dg_NotBefore d = nb" "dg_NotAfter d = na"
    "dg_Sig d = ed_sign c (fr_priv rs) (Delegation_CanonicalBytes c d)" "length (dg_Sig d) = SignatureSize" "dg_RootPub d = fr_pub rs"
  using assms
  by (auto simp: IssueDelegation_def Let_def FileRoot_Sign_def FileRoot_PublicKey_def ed25519_Sign_def root_ok_def keypair_def
      Delegation_CanonicalBytes_def split: if_splits)

text \<open>A delegation the root issued verifies, against the pinned root key, for exactly the keyset it was issued for and exactly
  the instants of its closed window. A key carried in the delegation has no influence: replacing it changes no verdict, and a
  pinned key under which the root's signature does not verify is refused as a bad signature.\<close>

theorem delegation_roundtrip:
  assumes "root_ok c rs" and "IssueDelegation c P rs ks nb na = Inr d"
  shows "\<forall>carried pinned h at.
     (VerifyDelegation c (d\<lparr>dg_RootPub := carried\<rparr>) (FileRoot_PublicKey rs) h at = None \<longleftrightarrow>
        h = Keyset_Hash c P ks \<and> sint nb \<le> sint at \<and> sint at \<le> sint na) \<and>
     (\<not> sig_ok c pinned (Delegation_CanonicalBytes c d) (dg_Sig d) \<longrightarrow>
        VerifyDelegation c (d\<lparr>dg_RootPub := carried\<rparr>) pinned h at = Some ErrDelegationBadSignature)"
proof (intro allI conjI impI)
  fix carried pinned h at
  have same: "Delegation_CanonicalBytes c (d\<lparr>dg_RootPub := carried\<rparr>) = Delegation_CanonicalBytes c d"
    by (simp add: Delegation_CanonicalBytes_def)
  have "sig_ok c (fr_pub rs) (Delegation_CanonicalBytes c d) (dg_Sig d)"
    using assms(1) IssueDelegation_fields(4) [OF assms] sig_ok_keypair by (metis root_ok_def)
  then show "VerifyDelegation c (d\<lparr>dg_RootPub := carried\<rparr>) (FileRoot_PublicKey rs) h at = None \<longleftrightarrow>
      h = Keyset_Hash c P ks \<and> sint nb \<le> sint at \<and> sint at \<le> sint na"
    using assms(1) IssueDelegation_fields(1-3) [OF assms] same
    by (auto simp: VerifyDelegation_def FileRoot_PublicKey_def root_ok_def keypair_def)
  assume "\<not> sig_ok c pinned (Delegation_CanonicalBytes c d) (dg_Sig d)"
  then show "VerifyDelegation c (d\<lparr>dg_RootPub := carried\<rparr>) pinned h at = Some ErrDelegationBadSignature"
    using same by (simp add: VerifyDelegation_def)
qed

definition sample_root :: file_root where
  "sample_root = \<lparr>fr_priv = sample_seed_key (replicate 32 9), fr_pub = ed_public sample_crypto (sample_seed_key (replicate 32 9))\<rparr>"

lemma sample_root_ok: "root_ok sample_crypto sample_root"
  using sample_seeds_ok by (simp add: root_ok_def sample_root_def seeds_ok_def SeedSize_def)

theorem IssueDelegation_windows_witness:
  "\<exists>d. IssueDelegation sample_crypto sample_proto sample_root sample_keyset MinInt64 MaxInt64 = Inr d"
  using IssueDelegation_windows [OF sample_root_ok, of sample_proto sample_keyset MinInt64 MaxInt64] by simp

lemma sample_issue:
  "IssueDelegation sample_crypto sample_proto sample_root sample_keyset 0 5 \<noteq> Inl e"
  using sample_root_ok
  by (simp add: IssueDelegation_def MaxDelegationTTL_def Let_def FileRoot_Sign_def ed25519_Sign_def root_ok_def keypair_def)

theorem delegation_roundtrip_witness:
  "\<exists>d. IssueDelegation sample_crypto sample_proto sample_root sample_keyset 0 5 = Inr d \<and>
       VerifyDelegation sample_crypto (d\<lparr>dg_RootPub := [1]\<rparr>) (FileRoot_PublicKey sample_root) (Keyset_Hash sample_crypto sample_proto sample_keyset) 5 = None \<and>
       VerifyDelegation sample_crypto (d\<lparr>dg_RootPub := [1]\<rparr>) (FileRoot_PublicKey sample_root) (Keyset_Hash sample_crypto sample_proto sample_keyset) 6 \<noteq> None"
proof (cases "IssueDelegation sample_crypto sample_proto sample_root sample_keyset 0 5")
  case (Inl e)
  then show ?thesis using sample_issue by simp
next
  case (Inr d)
  have "VerifyDelegation sample_crypto (d\<lparr>dg_RootPub := [1]\<rparr>) (FileRoot_PublicKey sample_root) (Keyset_Hash sample_crypto sample_proto sample_keyset) at = None
      \<longleftrightarrow> 0 \<le> sint at \<and> sint at \<le> 5" for at
    using delegation_roundtrip [OF sample_root_ok Inr, THEN spec, THEN spec, THEN spec, THEN spec] by fastforce
  from this [of 5] this [of 6] show ?thesis using Inr by simp
qed

section \<open>Custody\<close>

lemma seedFileName_distinct: "i < 7 \<Longrightarrow> j < 7 \<Longrightarrow> seedFileName i = seedFileName j \<longleftrightarrow> i = j"
  by (simp add: seedFileName_def strconv_Itoa_def decimal.simps [of i] decimal.simps [of j])

definition no_faults :: "fs_faults \<Rightarrow> bool" where
  "no_faults flt \<longleftrightarrow> (\<forall>d. \<not> ff_mkdir flt d) \<and> (\<forall>p. \<not> ff_stat flt p \<and> \<not> ff_create flt p \<and> ff_write flt p = None \<and> \<not> ff_close flt p \<and> \<not> ff_read flt p)"

lemma no_faultsD:
  assumes "no_faults flt"
  shows "\<not> ff_mkdir flt d" "\<not> ff_stat flt p" "\<not> ff_create flt p" "ff_write flt p = None" "\<not> ff_close flt p" "\<not> ff_read flt p"
  using assms unfolding no_faults_def by blast+

lemma save_write_ok:
  "no_faults flt \<Longrightarrow> distinct (map fst kvs) \<Longrightarrow> (\<And>p. p \<in> set (map fst kvs) \<Longrightarrow> fs p = None) \<Longrightarrow>
     save_write flt fs kvs = (fs ++ map_of kvs, None)"
proof (induction kvs arbitrary: fs)
  case (Cons kv kvs)
  obtain p seed where kv: "kv = (p, seed)" by fastforce
  have "save_write flt (fs(p \<mapsto> seed)) kvs = (fs(p \<mapsto> seed) ++ map_of kvs, None)"
    using Cons.prems kv by (intro Cons.IH) auto
  moreover have "fs(p \<mapsto> seed) ++ map_of kvs = fs ++ map_of (kv # kvs)"
    using Cons.prems(2) kv by (simp add: map_add_upd_left dom_map_of_conv_image_fst)
  moreover have "\<not> ff_create flt p" "ff_write flt p = None" "\<not> ff_close flt p" "fs p = None"
    using Cons.prems(3) kv by (simp_all add: no_faultsD [OF Cons.prems(1)])
  ultimately show ?case by (simp only: kv save_write.simps writeSeedFile_def if_False option.case prod.case not_True_eq_False not_False_eq_True simp_thms)
qed simp

lemma save_check_ok: "save_check flt fs ps = None \<longleftrightarrow> (\<forall>p \<in> set ps. \<not> ff_stat flt p \<and> fs p = None)"
  by (induction ps) auto

lemma load_loop_ok:
  assumes "seeds_ok c newKey" and "no_faults flt"
  shows "(\<And>i. i \<in> set is \<Longrightarrow> fs (dir, seedFileName i) = Some (seed i) \<and> length (seed i) = SeedSize) \<Longrightarrow>
    load_loop c newKey flt fs dir is = Inr (map (newKey \<circ> seed) is)"
proof (induction "is")
  case (Cons i "is")
  have "keypair c (newKey (seed i))" using assms(1) Cons.prems [of i] by (simp add: seeds_ok_def)
  then have "probeKey c (newKey (seed i)) (ed_public c (newKey (seed i))) = Some True"
    by (simp add: probeKey_def ed25519_Sign_def keypair_def ed25519_Verify_def)
  then show ?case using Cons assms(2) by (simp add: no_faults_def Let_def)
qed simp

lemma duplicate_pair_distinct: "distinct pubs \<Longrightarrow> duplicate_pair pubs = None"
proof -
  assume "distinct pubs"
  then have "filter (\<lambda>(i, j). pubs ! i = pubs ! j) (concat (map (\<lambda>i. map (\<lambda>j. (i, j)) [Suc i..<length pubs]) [0..<length pubs])) = []"
    by (auto simp: filter_empty_conv nth_eq_iff_index_eq)
  then show ?thesis by (simp add: duplicate_pair_def)
qed

lemma generate_loop_seeds:
  "generate_loop c newKey rnd is = Inr privs \<Longrightarrow> (\<forall>i \<in> set is. rnd i \<noteq> None) \<and> privs = map (\<lambda>i. newKey (the (rnd i))) is"
  by (induction "is" arbitrary: privs) (auto split: option.splits sum.splits)

text \<open>Custody round trip. A generated keyset of pairwise distinct keys, saved into a directory that holds none of the seven
  seed files on a disk without faults, loads back as the same keyset; saving writes the seven files and nothing else, and
  a second save into that directory is refused and changes nothing.\<close>

theorem Save_Load_roundtrip:
  assumes "proto_ok P" and "seeds_ok c newKey" and "\<forall>i < 7. \<exists>seed. rnd i = Some seed \<and> length seed = SeedSize"
    and "GenerateKeyset c P newKey rnd = Inr ks" and "distinct (ks_pub ks)" and "no_faults flt"
    and "\<forall>i < 7. fs (dir, seedFileName i) = None"
  shows "\<exists>fs'. Keyset_Save P flt ks dir fs = (fs', None) \<and> LoadKeyset c P newKey flt fs' dir = Inr ks \<and>
     (\<forall>p. p \<notin> (\<lambda>i. (dir, seedFileName i)) ` {0..<7} \<longrightarrow> fs' p = fs p) \<and>
     (\<forall>ks2. Keyset_Save P flt ks2 dir fs' = (fs', Some (ErrKeysetFileExists (dir, seedFileName 0))))"
proof -
  have k7: "KeyIndexCount P = 7" using assms(1) by (simp add: proto_ok_def)
  let ?seed = "\<lambda>i. the (rnd i)"
  have len: "i < 7 \<Longrightarrow> length (?seed i) = SeedSize" for i using assms(3) by fastforce
  obtain privs where g: "generate_loop c newKey rnd [0..<7] = Inr privs" and ks: "ks = \<lparr>ks_priv = privs, ks_pub = map (ed_public c) privs\<rparr>"
    using assms(4) by (auto simp: GenerateKeyset_def k7 split: sum.splits)
  have privs: "privs = map (newKey \<circ> ?seed) [0..<7]" using generate_loop_seeds [OF g] by (simp add: comp_def)
  let ?path = "\<lambda>i. (dir, seedFileName i)"
  define kvs where "kvs = map (\<lambda>i. (?path i, ?seed i)) [0..<7]"
  have seeds: "map (\<lambda>i. (?path i, take SeedSize (ks_priv ks ! i))) [0..<7] = kvs"
    unfolding kvs_def using assms(2) len by (intro map_cong) (simp_all add: ks privs seeds_ok_def)
  have dist: "distinct (map fst kvs)" by (auto simp: kvs_def distinct_map inj_on_def comp_def seedFileName_distinct)
  have w: "save_write flt fs kvs = (fs ++ map_of kvs, None)"
    by (rule save_write_ok [OF assms(6) dist]) (use assms(7) in \<open>auto simp: kvs_def\<close>)
  have s: "Keyset_Save P flt ks dir fs = (fs ++ map_of kvs, None)"
  proof -
    have "save_check flt fs (map ?path [0..<7]) = None"
      unfolding save_check_ok using assms(6,7) by (auto simp: no_faults_def)
    then show ?thesis using assms(6) w seeds by (simp add: Keyset_Save_def k7 no_faults_def)
  qed
  have at: "(fs ++ map_of kvs) (?path i) = Some (?seed i)" if "i < 7" for i
    by (rule map_add_find_right) (rule map_of_is_SomeI [OF dist], use that in \<open>auto simp: kvs_def\<close>)
  have l: "LoadKeyset c P newKey flt (fs ++ map_of kvs) dir = Inr ks"
    using load_loop_ok [OF assms(2,6), of "[0..<7]" "fs ++ map_of kvs" dir ?seed] at len assms(5)
    by (simp add: LoadKeyset_def k7 Let_def duplicate_pair_distinct ks privs)
  have o: "(fs ++ map_of kvs) p = fs p" if "p \<notin> ?path ` {0..<7}" for p
    using that by (auto simp: map_add_def kvs_def split: option.splits dest!: map_of_SomeD)
  have n: "Keyset_Save P flt ks2 dir (fs ++ map_of kvs) = (fs ++ map_of kvs, Some (ErrKeysetFileExists (?path 0)))" for ks2
  proof -
    have "[0..<7] = 0 # [Suc 0..<7]" by (simp add: upt_rec)
    then have "save_check flt (fs ++ map_of kvs) (map ?path [0..<7]) = Some (ErrKeysetFileExists (?path 0))"
      using at [of 0] assms(6) unfolding no_faults_def by (simp del: upt_rec_numeral)
    then show ?thesis using assms(6) by (simp add: Keyset_Save_def k7 no_faults_def)
  qed
  show ?thesis using s l o n by blast
qed

theorem Save_Load_roundtrip_witness:
  "\<exists>fs'. Keyset_Save sample_proto \<lparr>ff_mkdir = \<lambda>_. False, ff_stat = \<lambda>_. False, ff_create = \<lambda>_. False, ff_write = \<lambda>_. None, ff_close = \<lambda>_. False, ff_read = \<lambda>_. False\<rparr>
       sample_keyset ''keys'' Map.empty = (fs', None) \<and>
     LoadKeyset sample_crypto sample_proto sample_seed_key
       \<lparr>ff_mkdir = \<lambda>_. False, ff_stat = \<lambda>_. False, ff_create = \<lambda>_. False, ff_write = \<lambda>_. None, ff_close = \<lambda>_. False, ff_read = \<lambda>_. False\<rparr> fs' ''keys'' = Inr sample_keyset"
proof -
  have n: "no_faults \<lparr>ff_mkdir = \<lambda>_. False, ff_stat = \<lambda>_. False, ff_create = \<lambda>_. False, ff_write = \<lambda>_. None, ff_close = \<lambda>_. False, ff_read = \<lambda>_. False\<rparr>"
    by (simp add: no_faults_def)
  have g: "GenerateKeyset sample_crypto sample_proto sample_seed_key (\<lambda>i. Some (replicate 32 (word_of_nat i))) = Inr sample_keyset"
    by (simp add: GenerateKeyset_def sample_proto_def sample_keyset_def upt_rec)
  have d: "distinct (ks_pub sample_keyset)"
    by (simp add: sample_keyset_def upt_rec sample_seed_key_def sample_crypto_def)
  have f: "\<forall>i < 7. (Map.empty :: fs) (''keys'', seedFileName i) = None" by simp
  have r: "\<forall>i < 7. \<exists>seed. Some (replicate 32 (word_of_nat i :: byte)) = Some seed \<and> length seed = SeedSize"
    by (simp add: SeedSize_def)
  show ?thesis using Save_Load_roundtrip [OF sample_proto_ok sample_seeds_ok r g d n f] by blast
qed

end
