(* ===== verification/Api_Server.thy ===== *)
theory Api_Server
  imports Wire Economy Record_Witness Record_Lifecycle Dispute Covenant Tech_Tree Market
begin

text \<open>
  The member-facing composition root (\<open>src/internal/consumerapi/server.go\<close>): the server's state, its construction, the typed
  views of the one member registry, the anchor joins between the record and the covenant and dispute layers, the only
  append path into the operator log, and the hex helpers of the handlers. Key generation is an argument of \<open>NewServer\<close>:
  the three private keys \<open>crypto/rand\<close> yields, \<open>None\<close> where it fails.

  The ledger, the book and the registry hold live views of the server in the code. Here the views are functions of the
  current state and each call of those components is made with the view of the state it is made in
  (\<open>the_ledger\<close>, \<open>the_book\<close>, \<open>the_registry\<close>). Every handler takes the server's mutex once around its reads and writes,
  so a handler is one step.
\<close>

section \<open>Replies\<close>

datatype api_error =
    ApiPlatform | ApiKeygen | ApiTech tech_error | ApiMarket market_error | ApiRecord record_error | ApiEconomy economy_error
  | ApiCovenant covenant_error | ApiDispute dispute_error | ApiLifecycle lifecycle_error | ApiFiling filing_error

text \<open>\<open>writeErr\<close> with a fixed message, \<open>writeErr\<close> with the text of an error value, and \<open>writeJSON\<close>.\<close>

datatype 'a reply = Fault nat string | Refused nat api_error | Reply nat 'a

definition StatusOK :: nat where "StatusOK = 200"
definition StatusCreated :: nat where "StatusCreated = 201"
definition StatusBadRequest :: nat where "StatusBadRequest = 400"
definition StatusUnauthorized :: nat where "StatusUnauthorized = 401"
definition StatusNotFound :: nat where "StatusNotFound = 404"
definition StatusConflict :: nat where "StatusConflict = 409"
definition StatusInternalServerError :: nat where "StatusInternalServerError = 500"

lemmas status_defs = StatusOK_def StatusCreated_def StatusBadRequest_def StatusUnauthorized_def StatusNotFound_def StatusConflict_def
  StatusInternalServerError_def

text \<open>A field that must decode: the handler answers 400 and stops where it does not.\<close>

definition need :: "'a option \<Rightarrow> string \<Rightarrow> 's \<Rightarrow> ('a \<Rightarrow> 'b reply \<times> 's) \<Rightarrow> 'b reply \<times> 's" where
  "need x msg s k = (case x of None \<Rightarrow> (Fault StatusBadRequest msg, s) | Some v \<Rightarrow> k v)"

definition parseUTC :: "wire \<Rightarrow> string \<Rightarrow> gotime option" where
  "parseUTC w s = parse_time w s"

definition decodeHex32 :: "string \<Rightarrow> b32 option" where
  "decodeHex32 s =
     (case hex_DecodeString s of None \<Rightarrow> None | Some b \<Rightarrow> if length b \<noteq> 32 then None else Some (b32_of_bytes b))"

definition decodeKey :: "string \<Rightarrow> bytes option" where
  "decodeKey s = (case hex_DecodeString s of None \<Rightarrow> None | Some b \<Rightarrow> if length b \<noteq> PublicKeySize then None else Some b)"

definition decodeSig :: "string \<Rightarrow> bytes option" where
  "decodeSig s = (case hex_DecodeString s of None \<Rightarrow> None | Some b \<Rightarrow> if length b \<noteq> SignatureSize then None else Some b)"

definition hx :: "bytes \<Rightarrow> string" where "hx b = hex_EncodeToString b"

section \<open>The server\<close>

definition domainRegister :: string where "domainRegister = ''cloudy/consumerapi/register/v0''"

record narrative_refs =
  nr_Inputs :: b32
  nr_Method :: b32
  nr_Result :: b32

record server =
  sv_platform :: string
  sv_operatorPub :: bytes
  sv_operatorPriv :: bytes
  sv_byMember :: "member_id \<rightharpoonup> bytes"
  sv_byAccount :: "account_id \<rightharpoonup> bytes"
  sv_tree :: tech_tree
  sv_catalog :: catalog
  sv_book :: book
  sv_covStore :: cov_store
  sv_locker :: locker
  sv_opLog :: dialog_log
  sv_logID :: b32
  sv_index :: "b32 \<rightharpoonup> u64"
  sv_ledger :: ledger
  sv_ecoStore :: store
  sv_registry :: registry
  sv_disStore :: dispute_store
  sv_lifeLog :: lifecycle_log
  sv_lifeID :: b32
  sv_intake :: filing_intake
  sv_operatorMember :: member_id
  sv_disputesByExchange :: "b32 \<rightharpoonup> dispute_id list"
  sv_manifest :: "string \<rightharpoonup> narrative_refs"

text \<open>The store behind the operator log, which the server reads directly.\<close>

definition sv_recStore :: "server \<Rightarrow> entry_store" where "sv_recStore s = lg_store (sv_opLog s)"
definition sv_lifeStore :: "server \<Rightarrow> transition_store" where "sv_lifeStore s = ll_store (sv_lifeLog s)"

definition directory :: "server \<Rightarrow> member_id \<Rightarrow> bytes option" where
  "directory s m = map_option (map id) (sv_byMember s m)"

definition accountDirectory :: "server \<Rightarrow> account_id \<Rightarrow> bytes option" where
  "accountDirectory s a = map_option (map id) (sv_byAccount s a)"

section \<open>The anchor joins\<close>

text \<open>The entry both anchors look up: indexed, stored under its own identity, bound to this log, fully sealed.\<close>

definition anchored_entry :: "crypto \<Rightarrow> server \<Rightarrow> b32 \<Rightarrow> entry option" where
  "anchored_entry c s i =
     (case sv_index s i of None \<Rightarrow> None | Some seq \<Rightarrow>
      case EntryStore_At (sv_recStore s) seq of Inl _ \<Rightarrow> None | Inr e \<Rightarrow>
        if Entry_ID c e \<noteq> i \<or> e_Log e \<noteq> sv_logID s \<or> \<not> Entry_Verify c e then None else Some e)"

definition between :: "entry \<Rightarrow> bytes \<Rightarrow> bytes \<Rightarrow> bool" where
  "between e a b \<longleftrightarrow> (e_Proposer e = a \<and> e_Acceptor e = b) \<or> (e_Proposer e = b \<and> e_Acceptor e = a)"

definition recAnchors_Sealed :: "crypto \<Rightarrow> server \<Rightarrow> b32 \<Rightarrow> member_id \<Rightarrow> member_id \<Rightarrow> bool" where
  "recAnchors_Sealed c s exchange assessor subject =
     (case sv_byMember s assessor of None \<Rightarrow> False | Some assessorKey \<Rightarrow>
      case sv_byMember s subject of None \<Rightarrow> False | Some subjectKey \<Rightarrow>
      case anchored_entry c s exchange of None \<Rightarrow> False | Some e \<Rightarrow> between e assessorKey subjectKey)"

definition recAnchors_Adjudicated :: "server \<Rightarrow> b32 \<Rightarrow> member_id \<Rightarrow> member_id \<Rightarrow> bool" where
  "recAnchors_Adjudicated s exchange assessor subject =
     (if subject \<noteq> sv_operatorMember s then False
      else case sv_byMember s assessor of None \<Rightarrow> False | Some assessorKey \<Rightarrow>
        list_ex (\<lambda>d. case Registry_Case (sv_disStore s) d of Inl _ \<Rightarrow> False
                     | Inr ca \<Rightarrow> ca_complainant ca = assessorKey \<or> ca_respondent ca = assessorKey)
          (map_get (sv_disputesByExchange s) exchange []))"

definition dispAnchors_Sealed :: "crypto \<Rightarrow> server \<Rightarrow> b32 \<Rightarrow> bytes \<Rightarrow> bytes \<Rightarrow> bool" where
  "dispAnchors_Sealed c s exchange complainant respondent =
     (case anchored_entry c s exchange of None \<Rightarrow> False | Some e \<Rightarrow> between e complainant respondent)"

definition the_ledger :: "server \<Rightarrow> ledger" where
  "the_ledger s = (sv_ledger s)\<lparr>l_dir := accountDirectory s\<rparr>"

definition the_book :: "crypto \<Rightarrow> server \<Rightarrow> book" where
  "the_book c s = (sv_book s)\<lparr>bk_directory := directory s, bk_sealed := recAnchors_Sealed c s, bk_adjudicated := recAnchors_Adjudicated s\<rparr>"

definition the_registry :: "crypto \<Rightarrow> server \<Rightarrow> registry" where
  "the_registry c s = (sv_registry s)\<lparr>rg_anchors := dispAnchors_Sealed c s\<rparr>"

definition appendEntry :: "crypto \<Rightarrow> server \<Rightarrow> entry \<Rightarrow> record_error + u64 \<times> server" where
  "appendEntry c s e =
     (case Log_Append c (sv_opLog s) e of Inl err \<Rightarrow> Inl err
      | Inr (seq, l) \<Rightarrow> Inr (seq, s\<lparr>sv_opLog := l, sv_index := (sv_index s)(Entry_ID c e \<mapsto> seq)\<rparr>))"

definition registered :: "crypto \<Rightarrow> server \<Rightarrow> bytes \<Rightarrow> bool" where
  "registered c s pub = (sv_byMember s (MemberIDFor c (sv_platform s) pub) = Some pub)"

definition registerChallenge :: "crypto \<Rightarrow> server \<Rightarrow> bytes \<Rightarrow> bytes" where
  "registerChallenge c s pub = canon_sum c domainRegister [CString (sv_platform s), CBytes pub]"

section \<open>Construction\<close>

definition lift_err :: "('e \<Rightarrow> api_error) \<Rightarrow> 'e + 'a \<Rightarrow> ('a \<Rightarrow> api_error + 'b) \<Rightarrow> api_error + 'b" where
  "lift_err f x k = (case x of Inl e \<Rightarrow> Inl (f e) | Inr v \<Rightarrow> k v)"

definition NewServer :: "crypto \<Rightarrow> string \<Rightarrow> bytes option \<Rightarrow> bytes option \<Rightarrow> bytes option \<Rightarrow> api_error + server" where
  "NewServer c platform operatorKey stewardKey adjudicatorKey =
     (if platform = '''' then Inl ApiPlatform
      else lift_err ApiTech (NewTree platform) (\<lambda>tree.
        lift_err ApiMarket (NewCatalog platform) (\<lambda>catalog.
        case operatorKey of None \<Rightarrow> Inl ApiKeygen | Some operatorPriv \<Rightarrow>
        case stewardKey of None \<Rightarrow> Inl ApiKeygen | Some stewardPriv \<Rightarrow>
        case adjudicatorKey of None \<Rightarrow> Inl ApiKeygen | Some adjudicatorPriv \<Rightarrow>
        let operatorPub = ed_public c operatorPriv in
        lift_err ApiRecord (OpenLog c operatorPub (Some EntryStore_New)) (\<lambda>opLog.
        lift_err ApiEconomy
          (Open c \<lparr>gen_Platform = platform, gen_Stewards = [ed_public c stewardPriv], gen_Threshold = 1,
                   gen_Policy = \<lparr>pol_Mode = ModeEscrow, pol_DebitCap = 0\<rparr>\<rparr> (Some Map.empty) (Some NewMemStore)) (\<lambda>ledger.
        lift_err ApiCovenant
          (NewBook platform [] (Some (\<lambda>m. None)) (Some (\<lambda>x a b. False, \<lambda>x a b. False)) (Some CovStore_New)) (\<lambda>book.
        lift_err ApiDispute
          (NewRegistry \<lparr>ch_Platform = platform, ch_Adjudicators = [ed_public c adjudicatorPriv], ch_Threshold = 1\<rparr>
             (Some (\<lambda>x a b. False)) (Some DisputeStore_New)) (\<lambda>registry.
        lift_err ApiLifecycle (OpenLifecycleLog c operatorPub (Some NewMemTransitionStore)) (\<lambda>lifeLog.
        let operatorMember = MemberIDFor c platform operatorPub; owned = map id operatorPub in
        Inr \<lparr>sv_platform = platform, sv_operatorPub = operatorPub, sv_operatorPriv = operatorPriv,
             sv_byMember = [operatorMember \<mapsto> owned], sv_byAccount = [AccountIDFor c platform operatorPub \<mapsto> owned],
             sv_tree = tree, sv_catalog = catalog, sv_book = book, sv_covStore = CovStore_New, sv_locker = NewMemLocker,
             sv_opLog = opLog, sv_logID = LogID c operatorPub, sv_index = Map.empty,
             sv_ledger = ledger, sv_ecoStore = NewMemStore, sv_registry = registry, sv_disStore = DisputeStore_New,
             sv_lifeLog = lifeLog, sv_lifeID = LifecycleLogID c operatorPub, sv_intake = NewFilingIntake c operatorPriv,
             sv_operatorMember = operatorMember, sv_disputesByExchange = Map.empty, sv_manifest = Map.empty\<rparr>))))))))"

section \<open>Lemmas\<close>

lemma decodeHex32_hx [simp]: "decodeHex32 (hx (b32_bytes h)) = Some h"
  by (simp add: decodeHex32_def hx_def)

lemma decodeKey_hx [simp]: "decodeKey (hx k) = (if length k = PublicKeySize then Some k else None)"
  by (simp add: decodeKey_def hx_def)

lemma decodeSig_hx [simp]: "decodeSig (hx k) = (if length k = SignatureSize then Some k else None)"
  by (simp add: decodeSig_def hx_def)

lemma decodeKey_length: "decodeKey s = Some k \<Longrightarrow> length k = PublicKeySize"
  by (simp add: decodeKey_def split: option.splits if_splits)

lemma decodeSig_length: "decodeSig s = Some k \<Longrightarrow> length k = SignatureSize"
  by (simp add: decodeSig_def split: option.splits if_splits)

lemma directory_eq [simp]: "directory s m = sv_byMember s m" "accountDirectory s a = sv_byAccount s a"
  by (simp_all add: directory_def accountDirectory_def option.map_id)

lemma lift_err_Inr: "lift_err f x k = Inr v \<longleftrightarrow> (\<exists>w. x = Inr w \<and> k w = Inr v)"
  by (simp add: lift_err_def split: sum.splits)

end
