(* ===== verification/Api_Commons.thy ===== *)
theory Api_Commons
  imports Api_Server
begin

text \<open>
  Handlers of the commons: members (\<open>members.go\<close>), the technology tree (\<open>techtree.go\<close>, \<open>claim_export.go\<close>) and the market
  (\<open>market.go\<close>). A request body is \<open>None\<close> where the JSON decoder fails; a request record carries the decoded strings and
  numbers. A handler returns its reply and the server after it; a read returns the reply alone.
\<close>

section \<open>Members\<close>

record register_request =
  rr_PublicKey :: string
  rr_Signature :: string

record register_response =
  rp_AccountID :: string
  rp_MemberID :: string

definition handleRegister :: "crypto \<Rightarrow> server \<Rightarrow> register_request option \<Rightarrow> register_response reply \<times> server" where
  "handleRegister c s body =
     need body ''invalid JSON body'' s (\<lambda>req.
     need (decodeKey (rr_PublicKey req)) ''public_key must be a 32-byte hex ed25519 key'' s (\<lambda>pub.
     need (decodeSig (rr_Signature req)) ''signature must be a 64-byte hex ed25519 signature'' s (\<lambda>sig.
       if \<not> sig_ok c pub (registerChallenge c s pub) sig then (Fault StatusUnauthorized ''signature does not prove possession of this key'', s)
       else
         let member = MemberIDFor c (sv_platform s) pub; account = AccountIDFor c (sv_platform s) pub; owned = map id pub
         in (Reply StatusOK \<lparr>rp_AccountID = hx (b32_bytes account), rp_MemberID = member\<rparr>,
             s\<lparr>sv_byMember := (sv_byMember s)(member \<mapsto> owned), sv_byAccount := (sv_byAccount s)(account \<mapsto> owned)\<rparr>))))"

record distribution_dto =
  dd_Counts :: "(string \<times> int) list"
  dd_Total :: int

record relation_standing_dto =
  rd_Overall :: distribution_dto
  rd_ByCategory :: "(string \<times> distribution_dto) list"
  rd_Harm :: int

record standing_response =
  sr_MemberID :: string
  sr_Relations :: "(string \<times> relation_standing_dto) list"

text \<open>A response map is the list of its keys and values in the order they are written.\<close>

definition distToDTO :: "distribution \<Rightarrow> distribution_dto" where
  "distToDTO d = \<lparr>dd_Counts = map (\<lambda>lvl. (Level_String lvl, Distribution_Count d lvl)) Levels, dd_Total = Distribution_Total d\<rparr>"

definition categoryNames :: "string list" where
  "categoryNames = [''reliability'', ''usability'', ''performance'', ''support'']"

definition handleStanding :: "server \<Rightarrow> string \<Rightarrow> standing_response reply" where
  "handleStanding s member =
     (case Book_Standing (sv_covStore s) member of
        Inl e \<Rightarrow> Fault StatusInternalServerError ''reading standing''
      | Inr standing \<Rightarrow> Reply StatusOK \<lparr>sr_MemberID = member,
          sr_Relations = map (\<lambda>rel. let rs = Standing_Relation standing rel in
            (rel, \<lparr>rd_Overall = distToDTO (RelationStanding_Overall rs),
                   rd_ByCategory = map (\<lambda>name. (name, distToDTO (RelationStanding_Category rs name))) categoryNames,
                   rd_Harm = RelationStanding_Harm rs\<rparr>)) Relations\<rparr>)"

section \<open>The technology tree\<close>

record claim_dto =
  cd_Platform :: string
  cd_Claimant :: string
  cd_Kind :: string
  cd_InputsHash :: string
  cd_MethodHash :: string
  cd_ResultHash :: string
  cd_Nonce :: string
  cd_AssertedAtNs :: u64
  cd_Signature :: string
  cd_Inputs :: string
  cd_Method :: string
  cd_Result :: string

text \<open>\<open>time.Unix(0, ns)\<close> is the instant of that signed nanosecond count.\<close>

definition toClaim :: "claim_dto \<Rightarrow> claim option" where
  "toClaim dto =
     (case decodeKey (cd_Claimant dto) of None \<Rightarrow> None | Some claimant \<Rightarrow>
      case decodeHex32 (cd_InputsHash dto) of None \<Rightarrow> None | Some inputsHash \<Rightarrow>
      case decodeHex32 (cd_MethodHash dto) of None \<Rightarrow> None | Some methodHash \<Rightarrow>
      case decodeHex32 (cd_ResultHash dto) of None \<Rightarrow> None | Some resultHash \<Rightarrow>
      case decodeHex32 (cd_Nonce dto) of None \<Rightarrow> None | Some nonce \<Rightarrow>
      case decodeSig (cd_Signature dto) of None \<Rightarrow> None | Some sig \<Rightarrow>
        Some \<lparr>cl_Platform = cd_Platform dto, cl_Claimant = claimant, cl_Kind = cd_Kind dto, cl_InputsHash = inputsHash,
              cl_MethodHash = methodHash, cl_ResultHash = resultHash, cl_Nonce = nonce,
              cl_AssertedAt = sint (cd_AssertedAtNs dto), cl_Signature = sig\<rparr>)"

definition addClaimStatus :: "tech_error \<Rightarrow> nat" where
  "addClaimStatus err =
     (if err = ErrTechDuplicate then StatusConflict
      else if err = ErrWrongPlatform \<or> err = ErrBadSignature then StatusBadRequest
      else StatusBadRequest)"

definition handleAnchorClaim :: "crypto \<Rightarrow> server \<Rightarrow> claim_dto option \<Rightarrow> string reply \<times> server" where
  "handleAnchorClaim c s body =
     need body ''invalid JSON body'' s (\<lambda>dto.
     need (toClaim dto) ''malformed claim fields'' s (\<lambda>cl.
       if HashNarrative c (bytes_of_str (cd_Inputs dto)) \<noteq> cl_InputsHash cl \<or>
          HashNarrative c (bytes_of_str (cd_Method dto)) \<noteq> cl_MethodHash cl \<or>
          HashNarrative c (bytes_of_str (cd_Result dto)) \<noteq> cl_ResultHash cl
       then (Fault StatusBadRequest ''narrative does not match the signed hashes'', s)
       else if \<not> registered c s (cl_Claimant cl) then (Fault StatusUnauthorized ''claimant is not a registered member'', s)
       else case AddClaim c (sv_tree s) cl of
           Inl err \<Rightarrow> (Refused (addClaimStatus err) (ApiTech err), s)
         | Inr (i, tree) \<Rightarrow>
             let (inputs, k1) = Locker_Put c (sv_locker s) (bytes_of_str (cd_Inputs dto));
                 (method, k2) = Locker_Put c k1 (bytes_of_str (cd_Method dto));
                 (result, k3) = Locker_Put c k2 (bytes_of_str (cd_Result dto))
             in (Reply StatusCreated (hex_EncodeToString (b32_bytes i)),
                 s\<lparr>sv_tree := tree, sv_locker := k3,
                   sv_manifest := (sv_manifest s)(hex_EncodeToString (b32_bytes i) \<mapsto>
                     \<lparr>nr_Inputs = inputs, nr_Method = method, nr_Result = result\<rparr>)\<rparr>)))"

record narrative_view =
  nv_Inputs :: string
  nv_Method :: string
  nv_Result :: string

record claim_view =
  cv_ClaimID :: string
  cv_Platform :: string
  cv_Claimant :: string
  cv_Kind :: string
  cv_AssertedAt :: string
  cv_Weight :: weight
  cv_Narrative :: "narrative_view option"

text \<open>A path parameter that names a 32-byte identifier.\<close>

definition pathID :: "string \<Rightarrow> b32 option" where
  "pathID idHex =
     (case hex_DecodeString idHex of None \<Rightarrow> None | Some b \<Rightarrow> if length b \<noteq> 32 then None else Some (b32_of_bytes b))"

definition claim_narrative :: "server \<Rightarrow> string \<Rightarrow> narrative_view option" where
  "claim_narrative s idHex =
     (case sv_manifest s idHex of None \<Rightarrow> None | Some refs \<Rightarrow>
      case (Locker_Get (sv_locker s) (nr_Inputs refs), Locker_Get (sv_locker s) (nr_Method refs), Locker_Get (sv_locker s) (nr_Result refs)) of
        (Some i, Some m, Some r) \<Rightarrow> Some \<lparr>nv_Inputs = str_of_bytes i, nv_Method = str_of_bytes m, nv_Result = str_of_bytes r\<rparr>
      | _ \<Rightarrow> None)"

definition handleGetClaim :: "wire \<Rightarrow> server \<Rightarrow> string \<Rightarrow> claim_view reply" where
  "handleGetClaim w s idHex =
     (case pathID idHex of None \<Rightarrow> Fault StatusBadRequest ''claim id must be 32-byte hex'' | Some i \<Rightarrow>
      case Tree_Claim (sv_tree s) i of None \<Rightarrow> Fault StatusNotFound ''claim not found'' | Some cl \<Rightarrow>
        Reply StatusOK \<lparr>cv_ClaimID = idHex, cv_Platform = cl_Platform cl, cv_Claimant = hx (cl_Claimant cl), cv_Kind = cl_Kind cl,
          cv_AssertedAt = format_time w (cl_AssertedAt cl), cv_Weight = CitationWeight (sv_tree s) i,
          cv_Narrative = claim_narrative s idHex\<rparr>)"

record reference_dto =
  rf_dto_Platform :: string
  rf_dto_Asserter :: string
  rf_dto_Kind :: string
  rf_dto_From :: string
  rf_dto_To :: string
  rf_dto_Nonce :: string
  rf_dto_AssertedAtNs :: u64
  rf_dto_Signature :: string

definition toReference :: "reference_dto \<Rightarrow> reference option" where
  "toReference dto =
     (case decodeKey (rf_dto_Asserter dto) of None \<Rightarrow> None | Some asserter \<Rightarrow>
      case decodeHex32 (rf_dto_From dto) of None \<Rightarrow> None | Some src \<Rightarrow>
      case decodeHex32 (rf_dto_To dto) of None \<Rightarrow> None | Some dst \<Rightarrow>
      case decodeHex32 (rf_dto_Nonce dto) of None \<Rightarrow> None | Some nonce \<Rightarrow>
      case decodeSig (rf_dto_Signature dto) of None \<Rightarrow> None | Some sig \<Rightarrow>
        Some \<lparr>rf_Platform = rf_dto_Platform dto, rf_Asserter = asserter, rf_Kind = rf_dto_Kind dto, rf_From = src, rf_To = dst,
              rf_Nonce = nonce, rf_AssertedAt = sint (rf_dto_AssertedAtNs dto), rf_Signature = sig\<rparr>)"

definition referenceStatus :: "tech_error \<Rightarrow> nat" where
  "referenceStatus err =
     (if err = ErrTechDuplicate then StatusConflict
      else if err = ErrUnknownClaim \<or> err = ErrNotAsserter \<or> err = ErrBuildsOnCycle then StatusConflict
      else StatusBadRequest)"

definition handleAddReference :: "crypto \<Rightarrow> server \<Rightarrow> reference_dto option \<Rightarrow> string reply \<times> server" where
  "handleAddReference c s body =
     need body ''invalid JSON body'' s (\<lambda>dto.
     need (toReference dto) ''malformed reference fields'' s (\<lambda>ref.
       if \<not> registered c s (rf_Asserter ref) then (Fault StatusUnauthorized ''asserter is not a registered member'', s)
       else case AddReference c (sv_tree s) ref of
           Inl err \<Rightarrow> (Refused (referenceStatus err) (ApiTech err), s)
         | Inr (i, tree) \<Rightarrow> (Reply StatusCreated (hex_EncodeToString (b32_bytes i)), s\<lparr>sv_tree := tree\<rparr>)))"

record signed_claim_export =
  ex_ClaimID :: string
  ex_Platform :: string
  ex_Claimant :: string
  ex_Kind :: string
  ex_InputsHash :: string
  ex_MethodHash :: string
  ex_ResultHash :: string
  ex_Nonce :: string
  ex_AssertedAtNS :: string
  ex_Signature :: string

text \<open>\<open>UnixNano\<close> is the 64-bit reading of the instant.\<close>

definition handleExportClaim :: "server \<Rightarrow> string \<Rightarrow> signed_claim_export reply" where
  "handleExportClaim s rawID =
     (case pathID rawID of None \<Rightarrow> Fault StatusBadRequest ''claim id must be 32-byte hex'' | Some i \<Rightarrow>
      case Tree_Claim (sv_tree s) i of None \<Rightarrow> Fault StatusNotFound ''claim not found'' | Some cl \<Rightarrow>
        Reply StatusOK \<lparr>ex_ClaimID = hex_EncodeToString (b32_bytes i), ex_Platform = cl_Platform cl,
          ex_Claimant = hex_EncodeToString (cl_Claimant cl), ex_Kind = cl_Kind cl,
          ex_InputsHash = hex_EncodeToString (b32_bytes (cl_InputsHash cl)), ex_MethodHash = hex_EncodeToString (b32_bytes (cl_MethodHash cl)),
          ex_ResultHash = hex_EncodeToString (b32_bytes (cl_ResultHash cl)), ex_Nonce = hex_EncodeToString (b32_bytes (cl_Nonce cl)),
          ex_AssertedAtNS = strconv_Itoa (sint (word_of_int (cl_AssertedAt cl) :: u64)), ex_Signature = hex_EncodeToString (cl_Signature cl)\<rparr>)"

section \<open>The market\<close>

definition handleCategories :: "string list reply" where
  "handleCategories = Reply StatusOK Categories"

record listing_dto =
  ld_Platform :: string
  ld_Maker :: string
  ld_Category :: string
  ld_Spec :: string
  ld_AcceptFiat :: bool
  ld_AcceptCredit :: bool
  ld_Nonce :: string
  ld_ListedAtNs :: u64
  ld_Signature :: string

definition toListing :: "listing_dto \<Rightarrow> listing option" where
  "toListing dto =
     (case decodeKey (ld_Maker dto) of None \<Rightarrow> None | Some maker \<Rightarrow>
      case decodeHex32 (ld_Spec dto) of None \<Rightarrow> None | Some spec \<Rightarrow>
      case decodeHex32 (ld_Nonce dto) of None \<Rightarrow> None | Some nonce \<Rightarrow>
      case decodeSig (ld_Signature dto) of None \<Rightarrow> None | Some sig \<Rightarrow>
        Some \<lparr>li_Platform = ld_Platform dto, li_Maker = maker, li_Category = ld_Category dto, li_Spec = spec,
              li_Rails = \<lparr>ra_Fiat = ld_AcceptFiat dto, ra_MemberCredit = ld_AcceptCredit dto\<rparr>, li_Nonce = nonce,
              li_ListedAt = sint (ld_ListedAtNs dto), li_Signature = sig\<rparr>)"

definition listingStatus :: "market_error \<Rightarrow> nat" where
  "listingStatus err = (if err = MktDuplicate then StatusConflict else StatusBadRequest)"

definition handleCreateListing :: "crypto \<Rightarrow> server \<Rightarrow> listing_dto option \<Rightarrow> string reply \<times> server" where
  "handleCreateListing c s body =
     need body ''invalid JSON body'' s (\<lambda>dto.
     need (toListing dto) ''malformed listing fields'' s (\<lambda>l.
       if \<not> registered c s (li_Maker l) then (Fault StatusUnauthorized ''maker is not a registered member'', s)
       else case Tree_Claim (sv_tree s) (li_Spec l) of
           None \<Rightarrow> (Fault StatusConflict ''spec must reference an anchored product-spec claim'', s)
         | Some specClaim \<Rightarrow>
             if cl_Kind specClaim \<noteq> KindProductSpec then (Fault StatusConflict ''spec claim must be of kind product_spec'', s)
             else if cl_Claimant specClaim \<noteq> li_Maker l then (Fault StatusConflict ''a listing's spec claim must be authored by the maker'', s)
             else case AddListing c (sv_catalog s) l of
                 Inl err \<Rightarrow> (Refused (listingStatus err) (ApiMarket err), s)
               | Inr (i, catalog) \<Rightarrow> (Reply StatusCreated (hex_EncodeToString (b32_bytes i)), s\<lparr>sv_catalog := catalog\<rparr>)))"

record listing_view =
  lv_ListingID :: string
  lv_Platform :: string
  lv_Maker :: string
  lv_Category :: string
  lv_Spec :: string
  lv_AcceptFiat :: bool
  lv_AcceptCredit :: bool
  lv_ListedAt :: string
  lv_SalesCount :: int

definition listingViewLocked :: "wire \<Rightarrow> server \<Rightarrow> listing_id \<Rightarrow> listing \<Rightarrow> listing_view" where
  "listingViewLocked w s i l =
     \<lparr>lv_ListingID = hex_EncodeToString (b32_bytes i), lv_Platform = li_Platform l, lv_Maker = hx (li_Maker l),
      lv_Category = li_Category l, lv_Spec = hex_EncodeToString (b32_bytes (li_Spec l)),
      lv_AcceptFiat = ra_Fiat (li_Rails l), lv_AcceptCredit = ra_MemberCredit (li_Rails l),
      lv_ListedAt = format_time w (li_ListedAt l), lv_SalesCount = int (length (SalesOf (sv_catalog s) i))\<rparr>"

fun browse_loop :: "wire \<Rightarrow> server \<Rightarrow> listing_id list \<Rightarrow> listing_view list" where
  "browse_loop w s [] = []"
| "browse_loop w s (i # is) =
     (case Catalog_Listing (sv_catalog s) i of
        None \<Rightarrow> browse_loop w s is
      | Some l \<Rightarrow> listingViewLocked w s i l # browse_loop w s is)"

definition handleBrowseListings :: "crypto \<Rightarrow> wire \<Rightarrow> server \<Rightarrow> string \<Rightarrow> listing_view list reply" where
  "handleBrowseListings c w s cat = Reply StatusOK (browse_loop w s (ByCategory c (sv_catalog s) cat))"

definition handleGetListing :: "wire \<Rightarrow> server \<Rightarrow> string \<Rightarrow> listing_view reply" where
  "handleGetListing w s idHex =
     (case pathID idHex of None \<Rightarrow> Fault StatusBadRequest ''listing id must be 32-byte hex'' | Some i \<Rightarrow>
      case Catalog_Listing (sv_catalog s) i of None \<Rightarrow> Fault StatusNotFound ''listing not found''
      | Some l \<Rightarrow> Reply StatusOK (listingViewLocked w s i l))"

end
