(* ===== verification/Api_Economy.thy ===== *)
theory Api_Economy
  imports Api_Server
begin

text \<open>
  Handlers of the member economy: sealed dialogs (\<open>drops.go\<close>), credit (\<open>economy.go\<close>), assessments (\<open>assessments.go\<close>),
  disputes (\<open>disputes.go\<close>) and the claim lifecycle with its proofs (\<open>lifecycle_api.go\<close>).
\<close>

section \<open>Drops\<close>

record drops_log_response =
  dl_LogID :: string
  dl_OperatorKey :: string
  dl_Size :: u64

definition handleDropsLog :: "crypto \<Rightarrow> wire \<Rightarrow> server \<Rightarrow> drops_log_response reply" where
  "handleDropsLog c w s =
     (let cp = Log_Checkpoint c (sv_opLog s) (wire_now w) in
      Reply StatusOK \<lparr>dl_LogID = hx (b32_bytes (sv_logID s)), dl_OperatorKey = hx (sv_operatorPub s), dl_Size = cp_Size cp\<rparr>)"

record drop_request =
  dr_Log :: string
  dr_Proposer :: string
  dr_Acceptor :: string
  dr_Content :: string
  dr_Corrects :: string
  dr_Nonce :: string
  dr_SealedAt :: string
  dr_ProposerSeal :: string
  dr_AcceptorSeal :: string

record drop_response =
  dp_ID :: string
  dp_Seq :: u64

definition handleAppendDrop :: "crypto \<Rightarrow> wire \<Rightarrow> server \<Rightarrow> drop_request option \<Rightarrow> drop_response reply \<times> server" where
  "handleAppendDrop c w s body =
     need body ''invalid JSON body'' s (\<lambda>req.
     need (decodeHex32 (dr_Log req)) ''log must be a 32-byte hex LogID'' s (\<lambda>logID.
       if logID \<noteq> sv_logID s then (Fault StatusBadRequest ''log does not name this operator's Drops log (GET /api/v1/drops/log)'', s)
       else
     need (decodeKey (dr_Proposer req)) ''proposer must be a 32-byte hex ed25519 key'' s (\<lambda>proposer.
     need (decodeKey (dr_Acceptor req)) ''acceptor must be a 32-byte hex ed25519 key'' s (\<lambda>acceptor.
     need (decodeHex32 (dr_Content req)) ''content must be a 32-byte hex digest'' s (\<lambda>content.
     need (if dr_Corrects req \<noteq> '''' then decodeHex32 (dr_Corrects req) else Some 0) ''corrects must be a 32-byte hex leaf ID when present'' s (\<lambda>corrects.
     need (decodeHex32 (dr_Nonce req)) ''nonce must be 32 hex bytes'' s (\<lambda>nonce.
     need (parseUTC w (dr_SealedAt req)) ''sealed_at must be RFC3339'' s (\<lambda>sealedAt.
     need (decodeSig (dr_ProposerSeal req)) ''proposer_seal must be a 64-byte hex signature'' s (\<lambda>pSeal.
     need (decodeSig (dr_AcceptorSeal req)) ''acceptor_seal must be a 64-byte hex signature'' s (\<lambda>aSeal.
       let e = \<lparr>e_Log = logID, e_Proposer = proposer, e_Acceptor = acceptor, e_Content = content, e_Corrects = corrects,
                e_Nonce = nonce, e_SealedAt = sealedAt, e_ProposerSeal = pSeal, e_AcceptorSeal = aSeal\<rparr> in
       if \<not> registered c s proposer \<or> \<not> registered c s acceptor then (Fault StatusBadRequest ''both parties must be registered members'', s)
       else case appendEntry c s e of
           Inl err \<Rightarrow> (Refused StatusBadRequest (ApiRecord err), s)
         | Inr (seq, s') \<Rightarrow> (Reply StatusOK \<lparr>dp_ID = hx (b32_bytes (Entry_ID c e)), dp_Seq = seq\<rparr>, s')))))))))))"

record drop_view =
  dv_ID :: string
  dv_Seq :: u64
  dv_Log :: string
  dv_Proposer :: string
  dv_Acceptor :: string
  dv_Content :: string
  dv_Corrects :: string
  dv_SealedAt :: string
  dv_ProposerSeal :: string
  dv_AcceptorSeal :: string

definition handleGetDrop :: "wire \<Rightarrow> server \<Rightarrow> string \<Rightarrow> drop_view reply" where
  "handleGetDrop w s path =
     (case decodeHex32 path of None \<Rightarrow> Fault StatusBadRequest ''id must be a 32-byte hex leaf ID'' | Some i \<Rightarrow>
      case sv_index s i of None \<Rightarrow> Fault StatusNotFound ''no entry with this leaf ID'' | Some seq \<Rightarrow>
      case EntryStore_At (sv_recStore s) seq of Inl _ \<Rightarrow> Fault StatusNotFound ''no entry with this leaf ID'' | Inr e \<Rightarrow>
        Reply StatusOK \<lparr>dv_ID = hx (b32_bytes i), dv_Seq = seq, dv_Log = hx (b32_bytes (e_Log e)), dv_Proposer = hx (e_Proposer e),
          dv_Acceptor = hx (e_Acceptor e), dv_Content = hx (b32_bytes (e_Content e)),
          dv_Corrects = (if e_Corrects e \<noteq> zeroHash then hx (b32_bytes (e_Corrects e)) else ''''),
          dv_SealedAt = format_time w (e_SealedAt e), dv_ProposerSeal = hx (e_ProposerSeal e), dv_AcceptorSeal = hx (e_AcceptorSeal e)\<rparr>)"

record checkpoint_response =
  ck_Log :: string
  ck_Size :: u64
  ck_Head :: string
  ck_IssuedAt :: string
  ck_Signature :: string
  ck_Countersignatures :: "string list"
  ck_StandIn :: bool

definition checkpoint_view :: "crypto \<Rightarrow> wire \<Rightarrow> server \<Rightarrow> checkpoint \<Rightarrow> checkpoint_response" where
  "checkpoint_view c w s cp =
     \<lparr>ck_Log = hx (b32_bytes (cp_Log cp)), ck_Size = cp_Size cp, ck_Head = hx (b32_bytes (cp_Head cp)),
      ck_IssuedAt = format_time w (cp_IssuedAt cp), ck_Signature = hx (cp_Signature cp), ck_Countersignatures = [],
      ck_StandIn = StandIn c \<lparr>wc_Checkpoint = cp, wc_Countersignatures = []\<rparr> (sv_operatorPub s)\<rparr>"

text \<open>\<open>None\<close> is the panic of \<open>Checkpoint.Sign\<close> on a malformed key.\<close>

definition handleDropsCheckpoints :: "crypto \<Rightarrow> wire \<Rightarrow> server \<Rightarrow> checkpoint_response reply option" where
  "handleDropsCheckpoints c w s =
     map_option (\<lambda>cp. Reply StatusOK (checkpoint_view c w s cp))
       (Checkpoint_Sign c (sv_operatorPriv s) (Log_Checkpoint c (sv_opLog s) (wire_now w)))"

section \<open>Credit\<close>

record policy_response =
  pr_Mode :: string
  pr_DebitCap :: u64

definition handleCreditPolicy :: "server \<Rightarrow> policy_response reply" where
  "handleCreditPolicy s = (let pol = Ledger_Policy (the_ledger s) in Reply StatusOK \<lparr>pr_Mode = pol_Mode pol, pr_DebitCap = pol_DebitCap pol\<rparr>)"

record balance_response =
  br_AccountID :: string
  br_Balance :: int

definition handleBalance :: "server \<Rightarrow> string \<Rightarrow> balance_response reply" where
  "handleBalance s path =
     (case decodeHex32 path of None \<Rightarrow> Fault StatusBadRequest ''id must be a 32-byte hex account ID'' | Some i \<Rightarrow>
        Reply StatusOK \<lparr>br_AccountID = path, br_Balance = Ledger_Balance (the_ledger s) i\<rparr>)"

record spend_view =
  sw_Position :: nat
  sw_From :: string
  sw_To :: string
  sw_Amount :: u64
  sw_ExchangeHash :: string
  sw_IssuedAt :: string
  sw_Nonce :: u64

fun history_loop :: "wire \<Rightarrow> account_id \<Rightarrow> nat \<Rightarrow> ledger_record list \<Rightarrow> spend_view list" where
  "history_loop w acct i [] = []"
| "history_loop w acct i (rec # recs) =
     (case rec of
        RSpend sp \<Rightarrow>
          if sp_From sp \<noteq> acct \<and> sp_To sp \<noteq> acct then history_loop w acct (i + 1) recs
          else \<lparr>sw_Position = i, sw_From = hx (b32_bytes (sp_From sp)), sw_To = hx (b32_bytes (sp_To sp)), sw_Amount = sp_Amount sp,
                sw_ExchangeHash = hx (b32_bytes (sp_ExchangeHash sp)), sw_IssuedAt = format_time w (sp_IssuedAt sp), sw_Nonce = sp_Nonce sp\<rparr>
               # history_loop w acct (i + 1) recs
      | _ \<Rightarrow> history_loop w acct (i + 1) recs)"

definition handleHistory :: "wire \<Rightarrow> server \<Rightarrow> string \<Rightarrow> (string \<times> spend_view list) reply" where
  "handleHistory w s path =
     (case decodeHex32 path of None \<Rightarrow> Fault StatusBadRequest ''id must be a 32-byte hex account ID'' | Some acct \<Rightarrow>
        Reply StatusOK (path, history_loop w acct 0 (MemStore_All (sv_ecoStore s))))"

record spend_request =
  sq_From :: string
  sq_To :: string
  sq_Amount :: u64
  sq_ExchangeHash :: string
  sq_IssuedAt :: string
  sq_Nonce :: u64
  sq_Signature :: string

text \<open>\<open>Post\<close> with two rounds of its retry loop, which always suffice for a store no one else writes; \<open>None\<close> would be a call
  that has not returned.\<close>

definition handlePostSpend :: "crypto \<Rightarrow> wire \<Rightarrow> server \<Rightarrow> spend_request option \<Rightarrow> (unit reply \<times> server) option" where
  "handlePostSpend c w s body =
     (case body of None \<Rightarrow> Some (Fault StatusBadRequest ''invalid JSON body'', s) | Some req \<Rightarrow>
      case decodeHex32 (sq_From req) of None \<Rightarrow> Some (Fault StatusBadRequest ''from must be a 32-byte hex account ID'', s) | Some payer \<Rightarrow>
      case decodeHex32 (sq_To req) of None \<Rightarrow> Some (Fault StatusBadRequest ''to must be a 32-byte hex account ID'', s) | Some payee \<Rightarrow>
      case decodeHex32 (sq_ExchangeHash req) of None \<Rightarrow> Some (Fault StatusBadRequest ''exchange_hash must be a 32-byte hex leaf ID'', s) | Some exchange \<Rightarrow>
      case parseUTC w (sq_IssuedAt req) of None \<Rightarrow> Some (Fault StatusBadRequest ''issued_at must be RFC3339'', s) | Some issuedAt \<Rightarrow>
      case decodeSig (sq_Signature req) of None \<Rightarrow> Some (Fault StatusBadRequest ''signature must be a 64-byte hex signature'', s) | Some sig \<Rightarrow>
        let sp = \<lparr>sp_Platform = sv_platform s, sp_From = payer, sp_To = payee, sp_Amount = sq_Amount req, sp_ExchangeHash = exchange,
                  sp_IssuedAt = issuedAt, sp_Nonce = sq_Nonce req, sp_Signature = sig\<rparr> in
        case Post c 2 (the_ledger s) (sv_ecoStore s) sp of
          None \<Rightarrow> None
        | Some (l, st, err) \<Rightarrow>
            Some (case err of None \<Rightarrow> Reply StatusOK ()
                    | Some e \<Rightarrow> if e = ErrCreditDisabled then Refused StatusConflict (ApiEconomy e) else Refused StatusBadRequest (ApiEconomy e),
                  s\<lparr>sv_ledger := l, sv_ecoStore := st\<rparr>))"

section \<open>Assessments\<close>

record assessment_request =
  aq_Assessor :: string
  aq_Subject :: string
  aq_Exchange :: string
  aq_Relation :: string
  aq_Category :: string
  aq_Level :: byte
  aq_CommentHash :: string
  aq_IssuedAt :: string
  aq_Signature :: string

definition handleRecordAssessment :: "crypto \<Rightarrow> wire \<Rightarrow> server \<Rightarrow> assessment_request option \<Rightarrow> string reply \<times> server" where
  "handleRecordAssessment c w s body =
     need body ''invalid JSON body'' s (\<lambda>req.
     need (decodeHex32 (aq_Exchange req)) ''exchange must be a 32-byte hex leaf ID'' s (\<lambda>exchange.
     need (if aq_CommentHash req \<noteq> '''' then decodeHex32 (aq_CommentHash req) else Some 0) ''comment_hash must be a 32-byte hex digest when present'' s (\<lambda>commentHash.
     need (parseUTC w (aq_IssuedAt req)) ''issued_at must be RFC3339'' s (\<lambda>issuedAt.
     need (decodeSig (aq_Signature req)) ''signature must be a 64-byte hex signature'' s (\<lambda>sig.
       let a = \<lparr>as_Assessor = aq_Assessor req, as_Subject = aq_Subject req, as_Exchange = exchange, as_Relation = aq_Relation req,
                as_Category = aq_Category req, as_Level = aq_Level req, as_CommentHash = commentHash, as_IssuedAt = issuedAt, as_Signature = sig\<rparr> in
       case Book_Record c (the_book c s) (sv_covStore s) a of
         Inr st \<Rightarrow> (Reply StatusOK (hx (b32_bytes (Assessment_ID c a))), s\<lparr>sv_covStore := st\<rparr>)
       | Inl err \<Rightarrow> (Refused (if err = CovDuplicate then StatusConflict else StatusBadRequest) (ApiCovenant err), s))))))"

record answer_request =
  nq_Answerer :: string
  nq_AnswerHash :: string
  nq_IssuedAt :: string
  nq_Signature :: string

definition handleAnswerAssessment :: "crypto \<Rightarrow> wire \<Rightarrow> server \<Rightarrow> string \<Rightarrow> answer_request option \<Rightarrow> unit reply \<times> server" where
  "handleAnswerAssessment c w s path body =
     need (decodeHex32 path) ''id must be a 32-byte hex assessment ID'' s (\<lambda>i.
     need body ''invalid JSON body'' s (\<lambda>req.
     need (decodeHex32 (nq_AnswerHash req)) ''answer_hash must be a 32-byte hex digest'' s (\<lambda>answerHash.
     need (parseUTC w (nq_IssuedAt req)) ''issued_at must be RFC3339'' s (\<lambda>issuedAt.
     need (decodeSig (nq_Signature req)) ''signature must be a 64-byte hex signature'' s (\<lambda>sig.
       let an = \<lparr>an_Assessment = i, an_Answerer = nq_Answerer req, an_AnswerHash = answerHash, an_IssuedAt = issuedAt, an_Signature = sig\<rparr> in
       case RecordAnswer c (the_book c s) (sv_covStore s) an of
         Inr st \<Rightarrow> (Reply StatusOK (), s\<lparr>sv_covStore := st\<rparr>)
       | Inl err \<Rightarrow> (Refused (if err = CovDuplicate then StatusConflict
                              else if err = CovUnknownAssessment then StatusNotFound else StatusBadRequest) (ApiCovenant err), s))))))"

record answer_view =
  aw_Assessment :: string
  aw_Answerer :: string
  aw_AnswerHash :: string
  aw_IssuedAt :: string
  aw_Signature :: string

definition handleGetAnswer :: "wire \<Rightarrow> server \<Rightarrow> string \<Rightarrow> answer_view reply" where
  "handleGetAnswer w s path =
     (case decodeHex32 path of None \<Rightarrow> Fault StatusBadRequest ''id must be a 32-byte hex assessment ID'' | Some i \<Rightarrow>
      case Book_AnswerFor (sv_covStore s) i of None \<Rightarrow> Fault StatusNotFound ''no answer for this assessment'' | Some an \<Rightarrow>
        Reply StatusOK \<lparr>aw_Assessment = path, aw_Answerer = an_Answerer an, aw_AnswerHash = hx (b32_bytes (an_AnswerHash an)),
          aw_IssuedAt = format_time w (an_IssuedAt an), aw_Signature = hx (an_Signature an)\<rparr>)"

section \<open>Disputes\<close>

record open_dispute_request =
  oq_Complainant :: string
  oq_Respondent :: string
  oq_Exchange :: string
  oq_ReasonHash :: string
  oq_Nonce :: string
  oq_OpenedAt :: string
  oq_Signature :: string
  oq_TypeHash :: string
  oq_FiledAt :: string
  oq_FilingSignature :: string

record filing_receipt_view =
  fv_DisputeID :: string
  fv_Witness :: string
  fv_ReceivedAt :: string
  fv_Signature :: string
  fv_Independent :: bool

text \<open>The locked part of \<open>handleOpenDispute\<close>: the registry admits the opening, the exchange index records it, and the filing is
  committed to the lifecycle log; an error of that last append is reported although the case is already open.\<close>

definition open_locked :: "crypto \<Rightarrow> wire \<Rightarrow> server \<Rightarrow> dispute_opening \<Rightarrow> (api_error + dispute_id) \<times> server" where
  "open_locked c w s o' =
     (case Registry_Open c (the_registry c s) (sv_disStore s) o' of
        Inl e \<Rightarrow> (Inl (ApiDispute e), s)
      | Inr (i, ds) \<Rightarrow>
          let s1 = s\<lparr>sv_disStore := ds,
                     sv_disputesByExchange := (sv_disputesByExchange s)(op_Exchange o' \<mapsto> map_get (sv_disputesByExchange s) (op_Exchange o') [] @ [i])\<rparr>;
              artifact = sha256 c (Opening_CanonicalBytes c o')
          in case Lifecycle_Append c (sv_lifeLog s1)
               \<lparr>t_Log = sv_lifeID s1, t_Claim = i, t_Kind = KindFiled, t_Artifact = artifact, t_Exchange = op_Exchange o', t_At = wire_now w\<rparr> of
               Inl e \<Rightarrow> (Inl (ApiLifecycle e), s1)
             | Inr (seq, ll) \<Rightarrow> (Inr i, s1\<lparr>sv_lifeLog := ll\<rparr>))"

definition handleOpenDispute :: "crypto \<Rightarrow> wire \<Rightarrow> server \<Rightarrow> open_dispute_request option \<Rightarrow> filing_receipt_view reply \<times> server" where
  "handleOpenDispute c w s body =
     need body ''invalid JSON body'' s (\<lambda>req.
     need (decodeKey (oq_Complainant req)) ''complainant must be a 32-byte hex ed25519 key'' s (\<lambda>complainant.
     need (decodeKey (oq_Respondent req)) ''respondent must be a 32-byte hex ed25519 key'' s (\<lambda>respondent.
     need (decodeHex32 (oq_Exchange req)) ''exchange must be a 32-byte hex leaf ID'' s (\<lambda>exchange.
     need (decodeHex32 (oq_ReasonHash req)) ''reason_hash must be a 32-byte hex digest'' s (\<lambda>reasonHash.
     need (decodeHex32 (oq_Nonce req)) ''nonce must be 32 hex bytes'' s (\<lambda>nonce.
     need (parseUTC w (oq_OpenedAt req)) ''opened_at must be RFC3339'' s (\<lambda>openedAt.
     need (decodeSig (oq_Signature req)) ''signature must be a 64-byte hex signature'' s (\<lambda>sig.
     need (decodeHex32 (oq_TypeHash req)) ''filing.type_hash must be a 32-byte hex digest'' s (\<lambda>typeHash.
     need (parseUTC w (oq_FiledAt req)) ''filing.at must be RFC3339'' s (\<lambda>filedAt.
     need (decodeSig (oq_FilingSignature req)) ''filing.signature must be a 64-byte hex signature'' s (\<lambda>filingSig.
       let o' = \<lparr>op_Platform = sv_platform s, op_Complainant = complainant, op_Respondent = respondent, op_Exchange = exchange,
                 op_ReasonHash = reasonHash, op_Nonce = nonce, op_OpenedAt = openedAt, op_Signature = sig\<rparr>;
           commitment = \<lparr>fc_Claim = Opening_ID c o', fc_Exchange = exchange, fc_TypeHash = typeHash, fc_At = filedAt,
                         fc_Filer = complainant, fc_Signature = filingSig\<rparr>
       in case FilingIntake_Accept c (sv_intake s) commitment (wire_now w) of
            Inl err \<Rightarrow> (Refused StatusBadRequest (ApiFiling err), s)
          | Inr receipt \<Rightarrow>
              (case open_locked c w s o' of
                 (Inl err, s') \<Rightarrow> (Refused StatusBadRequest err, s')
               | (Inr i, s') \<Rightarrow>
                   (Reply StatusOK \<lparr>fv_DisputeID = hx (b32_bytes i), fv_Witness = hx (fr_Witness receipt),
                      fv_ReceivedAt = format_time w (fr_ReceivedAt receipt), fv_Signature = hx (fr_Signature receipt),
                      fv_Independent = IndependentOf receipt (sv_operatorPub s)\<rparr>, s')))))))))))))"

record dispute_view =
  vw_DisputeID :: string
  vw_State :: string
  vw_Complainant :: string
  vw_Respondent :: string
  vw_Exchange :: string

definition handleGetDispute :: "server \<Rightarrow> string \<Rightarrow> dispute_view reply" where
  "handleGetDispute s path =
     (case decodeHex32 path of None \<Rightarrow> Fault StatusBadRequest ''id must be a 32-byte hex dispute ID'' | Some i \<Rightarrow>
      case Registry_Case (sv_disStore s) i of Inl _ \<Rightarrow> Fault StatusNotFound ''no case with this dispute ID'' | Inr ca \<Rightarrow>
        Reply StatusOK \<lparr>vw_DisputeID = path, vw_State = State_String (ca_state ca), vw_Complainant = hx (ca_complainant ca),
          vw_Respondent = hx (ca_respondent ca), vw_Exchange = hx (b32_bytes (ca_exchange ca))\<rparr>)"

record withdraw_request =
  wq_WithdrawnAt :: string
  wq_Signature :: string

text \<open>The locked part of \<open>handleWithdrawDispute\<close>.\<close>

definition withdraw_locked :: "crypto \<Rightarrow> wire \<Rightarrow> server \<Rightarrow> withdrawal \<Rightarrow> api_error option \<times> server" where
  "withdraw_locked c w s wd =
     (case Registry_Withdraw c (the_registry c s) (sv_disStore s) wd of
        Inl e \<Rightarrow> (Some (ApiDispute e), s)
      | Inr ds \<Rightarrow>
          let s1 = s\<lparr>sv_disStore := ds\<rparr> in
          case Registry_Case ds (wd_Dispute wd) of
            Inl e \<Rightarrow> (None, s1)
          | Inr ca \<Rightarrow>
              (case Lifecycle_Append c (sv_lifeLog s1)
                  \<lparr>t_Log = sv_lifeID s1, t_Claim = wd_Dispute wd, t_Kind = KindResolved, t_Artifact = sha256 c (Withdrawal_CanonicalBytes c wd),
                   t_Exchange = ca_exchange ca, t_At = wire_now w\<rparr> of
                 Inl e \<Rightarrow> (Some (ApiLifecycle e), s1)
               | Inr (seq, ll) \<Rightarrow> (None, s1\<lparr>sv_lifeLog := ll\<rparr>)))"

definition handleWithdrawDispute :: "crypto \<Rightarrow> wire \<Rightarrow> server \<Rightarrow> string \<Rightarrow> withdraw_request option \<Rightarrow> unit reply \<times> server" where
  "handleWithdrawDispute c w s path body =
     need (decodeHex32 path) ''id must be a 32-byte hex dispute ID'' s (\<lambda>i.
     need body ''invalid JSON body'' s (\<lambda>req.
     need (parseUTC w (wq_WithdrawnAt req)) ''withdrawn_at must be RFC3339'' s (\<lambda>withdrawnAt.
     need (decodeSig (wq_Signature req)) ''signature must be a 64-byte hex signature'' s (\<lambda>sig.
       case withdraw_locked c w s \<lparr>wd_Platform = sv_platform s, wd_Dispute = i, wd_WithdrawnAt = withdrawnAt, wd_Signature = sig\<rparr> of
         (Some err, s') \<Rightarrow> (Refused StatusBadRequest err, s')
       | (None, s') \<Rightarrow> (Reply StatusOK (), s')))))"

section \<open>The claim lifecycle and proofs\<close>

definition handleLifecycleCheckpoints :: "crypto \<Rightarrow> wire \<Rightarrow> server \<Rightarrow> checkpoint_response reply option" where
  "handleLifecycleCheckpoints c w s =
     map_option (\<lambda>cp. Reply StatusOK (checkpoint_view c w s cp))
       (Checkpoint_Sign c (sv_operatorPriv s) (Lifecycle_Checkpoint c (sv_lifeLog s) (wire_now w)))"

record transition_view =
  tv_Seq :: u64
  tv_Kind :: string
  tv_Artifact :: string
  tv_Exchange :: string
  tv_At :: string

fun transition_loop :: "wire \<Rightarrow> server \<Rightarrow> u64 list \<Rightarrow> string \<Rightarrow> transition_view list \<times> string" where
  "transition_loop w s [] filedAt = ([], filedAt)"
| "transition_loop w s (seq # seqs) filedAt =
     (case TransitionStore_At (sv_lifeStore s) seq of
        Inl e \<Rightarrow> transition_loop w s seqs filedAt
      | Inr tr \<Rightarrow>
          let v = \<lparr>tv_Seq = seq, tv_Kind = TransitionKind_String (t_Kind tr), tv_Artifact = hx (b32_bytes (t_Artifact tr)),
                   tv_Exchange = hx (b32_bytes (t_Exchange tr)), tv_At = format_time w (t_At tr)\<rparr>;
              (vs, f) = transition_loop w s seqs (if t_Kind tr = KindFiled then tv_At v else filedAt)
          in (v # vs, f))"

record lifecycle_claim_response =
  lc_ClaimID :: string
  lc_State :: string
  lc_FiledAt :: string
  lc_Transitions :: "transition_view list"

definition handleLifecycleClaim :: "wire \<Rightarrow> server \<Rightarrow> string \<Rightarrow> lifecycle_claim_response reply" where
  "handleLifecycleClaim w s path =
     (case decodeHex32 path of None \<Rightarrow> Fault StatusBadRequest ''id must be a 32-byte hex claim ID'' | Some claim \<Rightarrow>
      let (views, filedAt) = transition_loop w s (Lifecycle_Claim (sv_lifeLog s) claim) '''' in
      case Lifecycle_State (sv_lifeLog s) claim of
        None \<Rightarrow> Fault StatusNotFound ''no lifecycle transitions for this claim''
      | Some state \<Rightarrow> Reply StatusOK \<lparr>lc_ClaimID = path, lc_State = TransitionKind_String state, lc_FiledAt = filedAt, lc_Transitions = views\<rparr>)"

text \<open>\<open>strconv.ParseUint(q, 10, 64)\<close>: decimal digits only, below \<open>2^64\<close>.\<close>

fun parse_digits :: "nat \<Rightarrow> string \<Rightarrow> nat option" where
  "parse_digits n [] = Some n"
| "parse_digits n (ch # cs) =
     (let d = (of_char ch :: nat) in
      if d < 48 \<or> d > 57 then None else parse_digits (10 * n + (d - 48)) cs)"

definition ParseUint :: "string \<Rightarrow> u64 option" where
  "ParseUint q =
     (if q = '''' then None else
      case parse_digits 0 q of None \<Rightarrow> None | Some n \<Rightarrow> if n < 2 ^ 64 then Some (word_of_nat n) else None)"

record consistency_response =
  co_From :: u64
  co_Size :: u64
  co_Proof :: "string list"

definition serveConsistency :: "string \<Rightarrow> (u64 \<Rightarrow> (record_error + b32 list) \<times> u64) \<Rightarrow> consistency_response reply" where
  "serveConsistency q prove =
     (case (if q \<noteq> '''' then ParseUint q else Some 0) of
        None \<Rightarrow> Fault StatusBadRequest ''from must be a non-negative integer''
      | Some src \<Rightarrow> (case prove src of
          (Inl err, sz) \<Rightarrow> Refused StatusBadRequest (ApiRecord err)
        | (Inr hs, sz) \<Rightarrow> Reply StatusOK \<lparr>co_From = src, co_Size = sz, co_Proof = map (\<lambda>h. hx (b32_bytes h)) hs\<rparr>))"

definition handleDropsConsistency :: "crypto \<Rightarrow> wire \<Rightarrow> server \<Rightarrow> string \<Rightarrow> consistency_response reply" where
  "handleDropsConsistency c w s q =
     serveConsistency q (\<lambda>src. (Log_ProveConsistency c (sv_opLog s) src, cp_Size (Log_Checkpoint c (sv_opLog s) (wire_now w))))"

definition handleLifecycleConsistency :: "crypto \<Rightarrow> wire \<Rightarrow> server \<Rightarrow> string \<Rightarrow> consistency_response reply" where
  "handleLifecycleConsistency c w s q =
     serveConsistency q (\<lambda>src. (Lifecycle_ProveConsistency c (sv_lifeLog s) src, cp_Size (Lifecycle_Checkpoint c (sv_lifeLog s) (wire_now w))))"

record proof_response =
  pv_ID :: string
  pv_Seq :: u64
  pv_Path :: "string list"
  pv_Checkpoint :: checkpoint_response

definition handleDropProof :: "crypto \<Rightarrow> wire \<Rightarrow> server \<Rightarrow> string \<Rightarrow> proof_response reply option" where
  "handleDropProof c w s path =
     (case decodeHex32 path of None \<Rightarrow> Some (Fault StatusBadRequest ''id must be a 32-byte hex leaf ID'') | Some i \<Rightarrow>
      case sv_index s i of None \<Rightarrow> Some (Fault StatusNotFound ''no entry with this leaf ID'') | Some seq \<Rightarrow>
      case Checkpoint_Sign c (sv_operatorPriv s) (Log_Checkpoint c (sv_opLog s) (wire_now w)) of None \<Rightarrow> None | Some cp \<Rightarrow>
      case Log_Prove c (sv_opLog s) seq of Inl err \<Rightarrow> Some (Fault StatusNotFound ''no entry with this leaf ID'') | Inr p \<Rightarrow>
        Some (Reply StatusOK \<lparr>pv_ID = path, pv_Seq = pf_Seq p, pv_Path = map (\<lambda>h. hx (b32_bytes h)) (pf_Path p),
          pv_Checkpoint = checkpoint_view c w s cp\<rparr>))"

end
