(* ===== verification/Api_System.thy ===== *)
theory Api_System
  imports Api_Commons Api_Economy
begin

text \<open>
  The server over time: the requests that may change it, what each handler does to the state, and the invariants that hold
  however the requests are ordered. The properties here span components: the record, the dispute registry, the lifecycle
  log, the covenant, the ledger, the tree and the catalog as \<open>consumerapi\<close> wires them.
\<close>

section \<open>Requests\<close>

datatype api_request =
    ReqRegister "register_request option" | ReqClaim "claim_dto option" | ReqReference "reference_dto option"
  | ReqListing "listing_dto option" | ReqDrop "drop_request option" | ReqSpend "spend_request option"
  | ReqAssess "assessment_request option" | ReqAnswer string "answer_request option"
  | ReqOpen "open_dispute_request option" | ReqWithdraw string "withdraw_request option"

text \<open>The routes of \<open>Handler\<close> that write; every other route only reads.\<close>

fun api_apply :: "crypto \<Rightarrow> server \<Rightarrow> wire \<times> api_request \<Rightarrow> server" where
  "api_apply c s (w, ReqRegister b) = snd (handleRegister c s b)"
| "api_apply c s (w, ReqClaim b) = snd (handleAnchorClaim c s b)"
| "api_apply c s (w, ReqReference b) = snd (handleAddReference c s b)"
| "api_apply c s (w, ReqListing b) = snd (handleCreateListing c s b)"
| "api_apply c s (w, ReqDrop b) = snd (handleAppendDrop c w s b)"
| "api_apply c s (w, ReqSpend b) = (case handlePostSpend c w s b of None \<Rightarrow> s | Some (r, s') \<Rightarrow> s')"
| "api_apply c s (w, ReqAssess b) = snd (handleRecordAssessment c w s b)"
| "api_apply c s (w, ReqAnswer p b) = snd (handleAnswerAssessment c w s p b)"
| "api_apply c s (w, ReqOpen b) = snd (handleOpenDispute c w s b)"
| "api_apply c s (w, ReqWithdraw p b) = snd (handleWithdrawDispute c w s p b)"

definition api_run :: "crypto \<Rightarrow> server \<Rightarrow> (wire \<times> api_request) list \<Rightarrow> server" where
  "api_run c s reqs = foldl (api_apply c) s reqs"

lemma api_run_snoc: "api_run c s (reqs @ [r]) = api_apply c (api_run c s reqs) r"
  by (simp add: api_run_def)

lemma api_run_Nil [simp]: "api_run c s [] = s"
  by (simp add: api_run_def)

section \<open>What each handler does\<close>

lemma needE:
  assumes "need x msg s k = (r, s')"
  obtains (stop) "s' = s" | (go) v where "x = Some v" "k v = (r, s')"
  using assms by (auto simp: need_def split: option.splits)

lemma handleRegister_effect:
  "handleRegister c s b = (r, s') \<Longrightarrow> s' = s \<or> (\<exists>pub sig. length pub = PublicKeySize \<and> sig_ok c pub (registerChallenge c s pub) sig \<and>
     s' = s\<lparr>sv_byMember := (sv_byMember s)(MemberIDFor c (sv_platform s) pub \<mapsto> pub),
            sv_byAccount := (sv_byAccount s)(AccountIDFor c (sv_platform s) pub \<mapsto> pub)\<rparr>)"
  unfolding handleRegister_def Let_def
  by (elim needE; (simp; fail)?) (auto split: if_splits sum.splits option.splits prod.splits dest: decodeKey_length)

text \<open>What anchoring stores beside the claim: the three texts and where they are kept.\<close>

definition with_narrative :: "crypto \<Rightarrow> server \<Rightarrow> claim_id \<Rightarrow> claim_dto \<Rightarrow> server" where
  "with_narrative c s i dto =
     (let ni = bytes_of_str (cd_Inputs dto); nm = bytes_of_str (cd_Method dto); nr = bytes_of_str (cd_Result dto) in
      s\<lparr>sv_locker := (sv_locker s)(HashContent c ni \<mapsto> ni, HashContent c nm \<mapsto> nm, HashContent c nr \<mapsto> nr),
        sv_manifest := (sv_manifest s)(hex_EncodeToString (b32_bytes i) \<mapsto>
          \<lparr>nr_Inputs = HashContent c ni, nr_Method = HashContent c nm, nr_Result = HashContent c nr\<rparr>)\<rparr>)"

text \<open>The texts of a request are the ones its signed hashes name.\<close>

definition narrative_matches :: "crypto \<Rightarrow> claim_dto \<Rightarrow> claim \<Rightarrow> bool" where
  "narrative_matches c dto cl \<longleftrightarrow> HashNarrative c (bytes_of_str (cd_Inputs dto)) = cl_InputsHash cl \<and>
     HashNarrative c (bytes_of_str (cd_Method dto)) = cl_MethodHash cl \<and> HashNarrative c (bytes_of_str (cd_Result dto)) = cl_ResultHash cl"

lemma handleAnchorClaim_result:
  assumes "handleAnchorClaim c s b = (r, s')"
  obtains (refused) "s' = s" "\<And>h. r \<noteq> Reply StatusCreated h"
  | (anchored) dto cl i tree where "b = Some dto" "toClaim dto = Some cl" "narrative_matches c dto cl" "registered c s (cl_Claimant cl)"
    "AddClaim c (sv_tree s) cl = Inr (i, tree)" "s' = with_narrative c (s\<lparr>sv_tree := tree\<rparr>) i dto" "r = Reply StatusCreated (hex_EncodeToString (b32_bytes i))"
proof (cases "\<exists>h. r = Reply StatusCreated h")
  case False
  have "s' = s" using assms False unfolding handleAnchorClaim_def Let_def
    by (elim needE; (simp; fail)?) (auto simp: Locker_Put_def Let_def split: if_splits sum.splits)
  then show thesis using False by (intro refused) blast+
next
  case True
  obtain dto where d: "b = Some dto" using assms True by (auto simp: handleAnchorClaim_def need_def split: option.splits)
  obtain cl where cl: "toClaim dto = Some cl" using assms True d by (auto simp: handleAnchorClaim_def need_def split: option.splits)
  then have "narrative_matches c dto cl \<and> registered c s (cl_Claimant cl) \<and> (\<exists>i tree. AddClaim c (sv_tree s) cl = Inr (i, tree))"
    using assms True d by (auto simp: handleAnchorClaim_def narrative_matches_def need_def Let_def split: if_splits sum.splits)
  then obtain i tree where a: "narrative_matches c dto cl" "registered c s (cl_Claimant cl)" "AddClaim c (sv_tree s) cl = Inr (i, tree)" by blast
  show thesis
    by (rule anchored [OF d cl a])
       (use assms True d cl a in \<open>auto simp: handleAnchorClaim_def narrative_matches_def need_def Let_def Locker_Put_def with_narrative_def split: if_splits\<close>)
qed

lemma handleAddReference_effect:
  "handleAddReference c s b = (r, s') \<Longrightarrow> s' = s \<or> (\<exists>ref i tree. AddReference c (sv_tree s) ref = Inr (i, tree) \<and> s' = s\<lparr>sv_tree := tree\<rparr>)"
  unfolding handleAddReference_def Let_def
  by (elim needE; (simp; fail)?) (auto split: if_splits sum.splits option.splits prod.splits dest: decodeKey_length)

lemma handleCreateListing_effect:
  "handleCreateListing c s b = (r, s') \<Longrightarrow> s' = s \<or> (\<exists>l i ct cl. AddListing c (sv_catalog s) l = Inr (i, ct) \<and> registered c s (li_Maker l) \<and>
     Tree_Claim (sv_tree s) (li_Spec l) = Some cl \<and> cl_Kind cl = KindProductSpec \<and> cl_Claimant cl = li_Maker l \<and> s' = s\<lparr>sv_catalog := ct\<rparr>)"
  unfolding handleCreateListing_def Let_def
  by (elim needE; (simp; fail)?) (auto split: if_splits sum.splits option.splits prod.splits dest: decodeKey_length)

lemma handleAppendDrop_effect:
  "handleAppendDrop c w s b = (r, s') \<Longrightarrow> s' = s \<or> (\<exists>e seq. registered c s (e_Proposer e) \<and> registered c s (e_Acceptor e) \<and> appendEntry c s e = Inr (seq, s'))"
  unfolding handleAppendDrop_def Let_def
  by (elim needE; (simp; fail)?; split if_split_asm; (simp; fail)?; elim needE; (simp; fail)?)
     (auto split: if_splits sum.splits prod.splits, (metis entry.select_convs(2,3))?)

lemma handleRecordAssessment_effect:
  "handleRecordAssessment c w s b = (r, s') \<Longrightarrow> s' = s \<or> (\<exists>a st. Book_Record c (the_book c s) (sv_covStore s) a = Inr st \<and> s' = s\<lparr>sv_covStore := st\<rparr>)"
  unfolding handleRecordAssessment_def Let_def
  by (elim needE; (simp; fail)?) (auto split: if_splits sum.splits option.splits prod.splits dest: decodeKey_length)

lemma handleAnswerAssessment_effect:
  "handleAnswerAssessment c w s p b = (r, s') \<Longrightarrow> s' = s \<or> (\<exists>a st. RecordAnswer c (the_book c s) (sv_covStore s) a = Inr st \<and> s' = s\<lparr>sv_covStore := st\<rparr>)"
  unfolding handleAnswerAssessment_def Let_def
  by (elim needE; (simp; fail)?) (auto split: if_splits sum.splits option.splits prod.splits dest: decodeKey_length)

lemma handlePostSpend_effect:
  "handlePostSpend c w s b = Some (r, s') \<Longrightarrow> s' = s \<or> (\<exists>sp l st e. Post c 2 (the_ledger s) (sv_ecoStore s) sp = Some (l, st, e) \<and>
     s' = s\<lparr>sv_ledger := l, sv_ecoStore := st\<rparr>)"
  by (auto simp: handlePostSpend_def Let_def split: option.splits prod.splits)

lemma handleOpenDispute_effect:
  "handleOpenDispute c w s b = (r, s') \<Longrightarrow> s' = s \<or> (\<exists>o' res. op_Platform o' = sv_platform s \<and> open_locked c w s o' = (res, s'))"
  unfolding handleOpenDispute_def Let_def
  by (elim needE; (simp; fail)?) (auto split: if_splits sum.splits option.splits prod.splits dest: decodeKey_length)

lemma handleWithdrawDispute_effect:
  "handleWithdrawDispute c w s p b = (r, s') \<Longrightarrow> s' = s \<or> (\<exists>wd res. withdraw_locked c w s wd = (res, s'))"
  unfolding handleWithdrawDispute_def Let_def
  by (elim needE; (simp; fail)?) (auto split: if_splits sum.splits option.splits prod.splits dest: decodeKey_length)

section \<open>What a request leaves alone\<close>

lemma open_locked_frame:
  "open_locked c w s o' = (res, s') \<Longrightarrow>
     s' = s\<lparr>sv_disStore := sv_disStore s', sv_disputesByExchange := sv_disputesByExchange s', sv_lifeLog := sv_lifeLog s'\<rparr>"
  by (auto simp: open_locked_def Let_def split: sum.splits prod.splits)

lemma withdraw_locked_frame:
  "withdraw_locked c w s wd = (res, s') \<Longrightarrow> s' = s\<lparr>sv_disStore := sv_disStore s', sv_lifeLog := sv_lifeLog s'\<rparr>"
  by (auto simp: withdraw_locked_def Let_def split: sum.splits prod.splits)

lemma appendEntry_frame: "appendEntry c s e = Inr (seq, s') \<Longrightarrow> s' = s\<lparr>sv_opLog := sv_opLog s', sv_index := sv_index s'\<rparr>"
  by (auto simp: appendEntry_def split: sum.splits prod.splits)

text \<open>The effect of a request as one case distinction.\<close>

inductive api_effect :: "crypto \<Rightarrow> server \<Rightarrow> wire \<times> api_request \<Rightarrow> server \<Rightarrow> bool" for c where
  eff_none: "api_effect c s wr s"
| eff_register: "length pub = PublicKeySize \<Longrightarrow> sig_ok c pub (registerChallenge c s pub) sig \<Longrightarrow>
    api_effect c s (w, ReqRegister b) (s\<lparr>sv_byMember := (sv_byMember s)(MemberIDFor c (sv_platform s) pub \<mapsto> pub),
      sv_byAccount := (sv_byAccount s)(AccountIDFor c (sv_platform s) pub \<mapsto> pub)\<rparr>)"
| eff_claim: "toClaim dto = Some cl \<Longrightarrow> narrative_matches c dto cl \<Longrightarrow> registered c s (cl_Claimant cl) \<Longrightarrow> AddClaim c (sv_tree s) cl = Inr (i, tree) \<Longrightarrow>
    api_effect c s (w, ReqClaim (Some dto)) (with_narrative c (s\<lparr>sv_tree := tree\<rparr>) i dto)"
| eff_reference: "AddReference c (sv_tree s) ref = Inr (i, tree) \<Longrightarrow> api_effect c s (w, ReqReference b) (s\<lparr>sv_tree := tree\<rparr>)"
| eff_listing: "AddListing c (sv_catalog s) l = Inr (i, ct) \<Longrightarrow> registered c s (li_Maker l) \<Longrightarrow> Tree_Claim (sv_tree s) (li_Spec l) = Some cl \<Longrightarrow>
    cl_Kind cl = KindProductSpec \<Longrightarrow> cl_Claimant cl = li_Maker l \<Longrightarrow> api_effect c s (w, ReqListing b) (s\<lparr>sv_catalog := ct\<rparr>)"
| eff_drop: "registered c s (e_Proposer e) \<Longrightarrow> registered c s (e_Acceptor e) \<Longrightarrow> appendEntry c s e = Inr (seq, s') \<Longrightarrow> api_effect c s (w, ReqDrop b) s'"
| eff_spend: "Post c 2 (the_ledger s) (sv_ecoStore s) sp = Some (l, st, err) \<Longrightarrow> api_effect c s (w, ReqSpend b) (s\<lparr>sv_ledger := l, sv_ecoStore := st\<rparr>)"
| eff_assess: "Book_Record c (the_book c s) (sv_covStore s) a = Inr st \<Longrightarrow> api_effect c s (w, ReqAssess b) (s\<lparr>sv_covStore := st\<rparr>)"
| eff_answer: "RecordAnswer c (the_book c s) (sv_covStore s) an = Inr st \<Longrightarrow> api_effect c s (w, ReqAnswer p b) (s\<lparr>sv_covStore := st\<rparr>)"
| eff_open: "open_locked c w s o' = (res, s') \<Longrightarrow> api_effect c s (w, ReqOpen b) s'"
| eff_withdraw: "withdraw_locked c w s wd = (res, s') \<Longrightarrow> api_effect c s (w, ReqWithdraw p b) s'"

lemma api_apply_effect: "api_effect c s wr (api_apply c s wr)"
proof -
  obtain w r where wr: "wr = (w, r)" by fastforce
  show ?thesis
  proof (cases r)
    case (ReqRegister b)
    then show ?thesis using handleRegister_effect [of c s b] wr
      by (cases "handleRegister c s b") (auto intro: api_effect.intros)
  next
    case (ReqClaim b)
    obtain rp s' where h: "handleAnchorClaim c s b = (rp, s')" by fastforce
    then show ?thesis using ReqClaim wr
      by (cases rule: handleAnchorClaim_result [OF h]) (auto intro: api_effect.intros)
  next
    case (ReqReference b)
    then show ?thesis using handleAddReference_effect [of c s b] wr
      by (cases "handleAddReference c s b") (auto intro: api_effect.intros)
  next
    case (ReqListing b)
    then show ?thesis using handleCreateListing_effect [of c s b] wr
      by (cases "handleCreateListing c s b") (auto intro: api_effect.intros)
  next
    case (ReqDrop b)
    then show ?thesis using handleAppendDrop_effect [of c w s b] wr
      by (cases "handleAppendDrop c w s b") (auto intro: api_effect.intros)
  next
    case (ReqSpend b)
    then show ?thesis using handlePostSpend_effect [of c w s b] wr
      by (cases "handlePostSpend c w s b") (auto intro: api_effect.intros)
  next
    case (ReqAssess b)
    then show ?thesis using handleRecordAssessment_effect [of c w s b] wr
      by (cases "handleRecordAssessment c w s b") (auto intro: api_effect.intros)
  next
    case (ReqAnswer p b)
    then show ?thesis using handleAnswerAssessment_effect [of c w s p b] wr
      by (cases "handleAnswerAssessment c w s p b") (auto intro: api_effect.intros)
  next
    case (ReqOpen b)
    then show ?thesis using handleOpenDispute_effect [of c w s b] wr
      by (cases "handleOpenDispute c w s b") (auto intro: api_effect.intros)
  next
    case (ReqWithdraw p b)
    then show ?thesis using handleWithdrawDispute_effect [of c w s p b] wr
      by (cases "handleWithdrawDispute c w s p b") (auto intro: api_effect.intros)
  qed
qed

text \<open>An invariant kept by every effect holds after every run.\<close>

lemma api_run_invariant:
  assumes "I s" and "\<And>s wr s'. I s \<Longrightarrow> api_effect c s wr s' \<Longrightarrow> I s'"
  shows "I (api_run c s reqs)"
proof (induction reqs rule: rev_induct)
  case (snoc r reqs)
  then show ?case unfolding api_run_snoc by (rule assms(2) [OF _ api_apply_effect])
qed (simp add: assms(1))

text \<open>The fields no request changes.\<close>

definition sv_fixed :: "server \<Rightarrow> string \<times> bytes \<times> bytes \<times> b32 \<times> b32 \<times> filing_intake \<times> member_id \<times> book \<times> registry" where
  "sv_fixed s = (sv_platform s, sv_operatorPub s, sv_operatorPriv s, sv_logID s, sv_lifeID s, sv_intake s, sv_operatorMember s, sv_book s, sv_registry s)"

lemma api_effect_fixed: "api_effect c s wr s' \<Longrightarrow> sv_fixed s' = sv_fixed s"
  by (cases rule: api_effect.cases)
     (auto simp: sv_fixed_def with_narrative_def Let_def
       dest!: open_locked_frame [THEN arg_cong [where f = sv_fixed]] withdraw_locked_frame [THEN arg_cong [where f = sv_fixed]]
         appendEntry_frame [THEN arg_cong [where f = sv_fixed]])

section \<open>The record behind the anchors\<close>

definition record_inv :: "crypto \<Rightarrow> server \<Rightarrow> bool" where
  "record_inv c s \<longleftrightarrow> sv_opLog s = log_of_store c (sv_logID s) (sv_recStore s) \<and> admissible c (sv_logID s) (sv_recStore s) \<and>
     sv_index s = lg_index (sv_opLog s)"

text \<open>What the two anchors mean: an entry of that identity, sealed by that pair in either order, is in the log.\<close>

definition anchored :: "crypto \<Rightarrow> server \<Rightarrow> b32 \<Rightarrow> bytes \<Rightarrow> bytes \<Rightarrow> bool" where
  "anchored c s x a b \<longleftrightarrow> (\<exists>e \<in> set (sv_recStore s). Entry_ID c e = x \<and> between e a b)"

lemma admissible_distinct: "admissible c logid st \<Longrightarrow> distinct (map (Entry_ID c) st)"
  by (induction st rule: rev_induct) (auto simp: admissible_snoc admissible_after_def)

lemma admissible_member: "admissible c logid st \<Longrightarrow> e \<in> set st \<Longrightarrow> Entry_Verify c e \<and> e_Log e = logid"
  by (auto simp: admissible_def admissible_after_def in_set_conv_nth)

lemma index_of_Some:
  assumes "distinct leafs"
  shows "index_of leafs h = Some seq \<longleftrightarrow> (\<exists>i < length leafs. leafs ! i = h \<and> seq = word_of_nat i)"
proof -
  have "index_of leafs h = Some seq \<longleftrightarrow> (h, seq) \<in> set (zip leafs (map word_of_nat [0..<length leafs]))"
    unfolding index_of_def by (rule map_of_eq_Some_iff) (simp add: assms)
  also have "\<dots> \<longleftrightarrow> (\<exists>i < length leafs. leafs ! i = h \<and> seq = word_of_nat i)" by (auto simp: set_zip)
  finally show ?thesis .
qed

lemma EntryStore_At_nth: "length st < 2 ^ 64 \<Longrightarrow> i < length st \<Longrightarrow> EntryStore_At st (word_of_nat i) = Inr (st ! i)"
  by (simp add: EntryStore_At_def EntryStore_Len_def word_le_nat_alt unat_word_of_nat64)

lemma anchored_entry_iff:
  assumes "record_inv c s" and "length (sv_recStore s) < 2 ^ 64"
  shows "anchored_entry c s x = Some e \<longleftrightarrow> e \<in> set (sv_recStore s) \<and> Entry_ID c e = x"
proof -
  let ?st = "sv_recStore s"
  have adm: "admissible c (sv_logID s) ?st" and idx: "sv_index s = index_of (map (Entry_ID c) ?st)"
    using assms(1) unfolding record_inv_def by (blast, metis log_of_store_sel(4))
  note d = index_of_Some [OF admissible_distinct [OF adm]]
  show ?thesis
  proof
    assume "anchored_entry c s x = Some e"
    then obtain seq where "sv_index s x = Some seq" "EntryStore_At ?st seq = Inr e" "Entry_ID c e = x"
      by (auto simp: anchored_entry_def split: option.splits sum.splits if_splits)
    moreover from this obtain i where "i < length ?st" "seq = word_of_nat i" by (auto simp: idx d)
    ultimately show "e \<in> set ?st \<and> Entry_ID c e = x" using EntryStore_At_nth [OF assms(2), of i] by auto
  next
    assume "e \<in> set ?st \<and> Entry_ID c e = x"
    then obtain i where i: "i < length ?st" "?st ! i = e" "Entry_ID c e = x" by (auto simp: in_set_conv_nth)
    then have "sv_index s x = Some (word_of_nat i)" by (auto simp: idx d)
    then show "anchored_entry c s x = Some e"
      using i EntryStore_At_nth [OF assms(2) i(1)] admissible_member [OF adm, of e] by (auto simp: anchored_entry_def)
  qed
qed

lemma dispAnchors_iff:
  assumes "record_inv c s" and "length (sv_recStore s) < 2 ^ 64"
  shows "dispAnchors_Sealed c s x a b \<longleftrightarrow> anchored c s x a b"
proof (cases "anchored_entry c s x")
  case None
  then show ?thesis using anchored_entry_iff [OF assms, of x] by (auto simp: dispAnchors_Sealed_def anchored_def)
next
  case (Some e)
  have "e' \<in> set (sv_recStore s) \<and> Entry_ID c e' = x \<longleftrightarrow> e' = e" for e'
    using anchored_entry_iff [OF assms, of x e'] Some by auto
  then have "anchored c s x a b \<longleftrightarrow> between e a b" unfolding anchored_def by metis
  then show ?thesis using Some by (simp add: dispAnchors_Sealed_def)
qed

lemma recAnchors_iff:
  "recAnchors_Sealed c s x m m' \<longleftrightarrow> (\<exists>ka kb. sv_byMember s m = Some ka \<and> sv_byMember s m' = Some kb \<and> dispAnchors_Sealed c s x ka kb)"
  by (auto simp: recAnchors_Sealed_def dispAnchors_Sealed_def split: option.splits)

lemma appendEntry_record:
  assumes "record_inv c s" and "appendEntry c s e = Inr (seq, s')"
  shows "record_inv c s'" and "sv_recStore s' = sv_recStore s @ [e]"
proof -
  have l: "sv_opLog s = log_of_store c (sv_logID s) (sv_recStore s)" and adm: "admissible c (sv_logID s) (sv_recStore s)"
    and idx: "sv_index s = lg_index (sv_opLog s)" using assms(1) by (simp_all add: record_inv_def)
  obtain l' where a: "Log_Append c (sv_opLog s) e = Inr (seq, l')" and s': "s' = s\<lparr>sv_opLog := l', sv_index := (sv_index s)(Entry_ID c e \<mapsto> seq)\<rparr>"
    using assms(2) by (auto simp: appendEntry_def split: sum.splits prod.splits)
  have g: "admissible_after c (sv_logID s) (sv_recStore s) e" "seq = word_of_nat (length (sv_recStore s))"
    "l' = log_of_store c (sv_logID s) (sv_recStore s @ [e])"
    using a unfolding l Log_Append_iff by simp_all
  have i: "sv_index s = index_of (map (Entry_ID c) (sv_recStore s))" using idx l by (metis log_of_store_sel(4))
  show st: "sv_recStore s' = sv_recStore s @ [e]" by (simp add: s' g(3) sv_recStore_def)
  show "record_inv c s'"
    unfolding record_inv_def st
    using adm g(1) index_of_snoc [of "Entry_ID c e" "map (Entry_ID c) (sv_recStore s)"]
    by (simp add: s' g(2,3) admissible_snoc i admissible_after_def)
qed

lemma record_inv_other: "sv_opLog s' = sv_opLog s \<Longrightarrow> sv_index s' = sv_index s \<Longrightarrow> sv_logID s' = sv_logID s \<Longrightarrow> record_inv c s \<Longrightarrow>
    record_inv c s' \<and> sv_recStore s' = sv_recStore s"
  by (simp add: record_inv_def sv_recStore_def)

text \<open>A request appends to the record or leaves it alone.\<close>

lemma api_effect_record:
  assumes "api_effect c s wr s'" and "record_inv c s"
  shows "record_inv c s' \<and> (\<exists>es. sv_recStore s' = sv_recStore s @ es)"
  using assms(1)
proof cases
  case (eff_drop e seq w b)
  then show ?thesis using appendEntry_record [OF assms(2)] by blast
next
  case (eff_open w o' res b)
  note f = open_locked_frame [OF eff_open(2)]
  show ?thesis
    using record_inv_other [OF _ _ _ assms(2), of s'] arg_cong [OF f, of sv_opLog] arg_cong [OF f, of sv_index] arg_cong [OF f, of sv_logID] by simp
next
  case (eff_withdraw w wd res p b)
  note f = withdraw_locked_frame [OF eff_withdraw(2)]
  show ?thesis
    using record_inv_other [OF _ _ _ assms(2), of s'] arg_cong [OF f, of sv_opLog] arg_cong [OF f, of sv_index] arg_cong [OF f, of sv_logID] by simp
qed (use assms(2) record_inv_other [OF _ _ _ assms(2), of s'] in \<open>auto simp: with_narrative_def Let_def\<close>)

end
