(* ===== verification/Api_Anchors.thy ===== *)
theory Api_Anchors
  imports Api_System
begin

text \<open>
  The joins between the layers, over every order of requests: what the anchors resolve to, that every case and every
  counted verdict rests on a sealed dialog of exactly its parties, that the ledger of this process never moves credit,
  and that every listing points at an anchored product claim of its maker.
\<close>

section \<open>The fresh server\<close>

lemma NewServer_start:
  assumes "NewServer c p ok sk ak = Inr s"
  shows "sv_platform s = p" "p \<noteq> ''''" "record_inv c s" "sv_recStore s = []" "sv_disStore s = DisputeStore_New" "sv_covStore s = CovStore_New"
    "sv_disputesByExchange s = Map.empty" "bk_platform (sv_book s) = p" "ch_Platform (rg_charter (sv_registry s)) = p"
    "sv_lifeLog s = lifecycle_of_store c (sv_lifeID s) []" "sv_ecoStore s = []" "NewTree p = Inr (sv_tree s)" "NewCatalog p = Inr (sv_catalog s)"
    "pol_Mode (l_pol (sv_ledger s)) = ModeEscrow" "l_balances (sv_ledger s) = Map.empty"
    "sv_manifest s = Map.empty" "sv_operatorMember s = MemberIDFor c p (sv_operatorPub s)" "length (sv_operatorPub s) = PublicKeySize"
    "sv_byMember s = [sv_operatorMember s \<mapsto> sv_operatorPub s]" "sv_byAccount s = [AccountIDFor c p (sv_operatorPub s) \<mapsto> sv_operatorPub s]"
proof -
  have pl: "p \<noteq> ''''" using assms by (auto simp: NewServer_def)
  obtain opk stk adk where k: "ok = Some opk" "sk = Some stk" "ak = Some adk"
    using assms by (cases ok; cases sk; cases ak) (simp_all add: NewServer_def lift_err_def split: if_splits sum.splits)
  obtain tree ct ol ledger bk rg ll where
    c: "NewTree p = Inr tree" "NewCatalog p = Inr ct" "OpenLog c (ed_public c opk) (Some EntryStore_New) = Inr ol"
      "Open c \<lparr>gen_Platform = p, gen_Stewards = [ed_public c stk], gen_Threshold = 1, gen_Policy = \<lparr>pol_Mode = ModeEscrow, pol_DebitCap = 0\<rparr>\<rparr>
         (Some Map.empty) (Some NewMemStore) = Inr ledger"
      "NewBook p [] (Some (\<lambda>m. None)) (Some (\<lambda>x a b. False, \<lambda>x a b. False)) (Some CovStore_New) = Inr bk"
      "NewRegistry \<lparr>ch_Platform = p, ch_Adjudicators = [ed_public c adk], ch_Threshold = 1\<rparr> (Some (\<lambda>x a b. False)) (Some DisputeStore_New) = Inr rg"
      "OpenLifecycleLog c (ed_public c opk) (Some NewMemTransitionStore) = Inr ll" and
    s: "s = \<lparr>sv_platform = p, sv_operatorPub = ed_public c opk, sv_operatorPriv = opk,
             sv_byMember = [MemberIDFor c p (ed_public c opk) \<mapsto> ed_public c opk], sv_byAccount = [AccountIDFor c p (ed_public c opk) \<mapsto> ed_public c opk],
             sv_tree = tree, sv_catalog = ct, sv_book = bk, sv_covStore = CovStore_New, sv_locker = NewMemLocker,
             sv_opLog = ol, sv_logID = LogID c (ed_public c opk), sv_index = Map.empty,
             sv_ledger = ledger, sv_ecoStore = NewMemStore, sv_registry = rg, sv_disStore = DisputeStore_New,
             sv_lifeLog = ll, sv_lifeID = LifecycleLogID c (ed_public c opk), sv_intake = NewFilingIntake c opk,
             sv_operatorMember = MemberIDFor c p (ed_public c opk), sv_disputesByExchange = Map.empty, sv_manifest = Map.empty\<rparr>"
    using assms pl unfolding k by (auto simp: NewServer_def lift_err_Inr Let_def)
  have ol: "ol = log_of_store c (LogID c (ed_public c opk)) []" "length (ed_public c opk) = PublicKeySize"
    using c(3) OpenLog_iff [of "[]" c "ed_public c opk" ol] by (simp_all add: EntryStore_New_def)
  have ll: "ll = lifecycle_of_store c (LifecycleLogID c (ed_public c opk)) []"
    using c(7) OpenLifecycleLog_iff [of "[]" c "ed_public c opk" ll] by (simp add: NewMemTransitionStore_def)
  have le: "ledger = newLedger \<lparr>gen_Platform = p, gen_Stewards = [ed_public c stk], gen_Threshold = 1, gen_Policy = \<lparr>pol_Mode = ModeEscrow, pol_DebitCap = 0\<rparr>\<rparr> Map.empty"
    using c(4) by (simp add: Open_def NewMemStore_def MemStore_All_def split: option.splits)
  have bk: "bk_platform bk = p" using c(5) by (auto simp: NewBook_def split: if_splits sum.splits)
  have rg: "ch_Platform (rg_charter rg) = p" using c(6) by (auto simp: NewRegistry_def split: if_splits option.splits)
  show "sv_platform s = p" "p \<noteq> ''''" "sv_recStore s = []" "sv_disStore s = DisputeStore_New" "sv_covStore s = CovStore_New"
    "sv_disputesByExchange s = Map.empty" "bk_platform (sv_book s) = p" "ch_Platform (rg_charter (sv_registry s)) = p"
    "sv_lifeLog s = lifecycle_of_store c (sv_lifeID s) []" "sv_ecoStore s = []" "NewTree p = Inr (sv_tree s)" "NewCatalog p = Inr (sv_catalog s)"
    "pol_Mode (l_pol (sv_ledger s)) = ModeEscrow" "l_balances (sv_ledger s) = Map.empty" "sv_manifest s = Map.empty"
    "sv_operatorMember s = MemberIDFor c p (sv_operatorPub s)" "length (sv_operatorPub s) = PublicKeySize"
    "sv_byMember s = [sv_operatorMember s \<mapsto> sv_operatorPub s]" "sv_byAccount s = [AccountIDFor c p (sv_operatorPub s) \<mapsto> sv_operatorPub s]"
    using pl c(1,2) bk rg ol(2) by (simp_all add: s ol(1) ll le sv_recStore_def NewMemStore_def newLedger_def)
  show "record_inv c s"
    by (simp add: record_inv_def s ol(1) sv_recStore_def admissible_def index_of_def)
qed

section \<open>Cases rest on sealed dialogs\<close>

lemma open_locked_result:
  assumes "open_locked c w s o' = (res, s')"
  obtains (same) "s' = s"
  | (opened) "dispute_do c (the_registry c s) (sv_disStore s) (CallOpen o') = Inr (sv_disStore s')"
      "Opening_Verify c o'" "dispAnchors_Sealed c s (op_Exchange o') (op_Complainant o') (op_Respondent o')"
      "sv_disputesByExchange s' = (sv_disputesByExchange s)(op_Exchange o' \<mapsto> map_get (sv_disputesByExchange s) (op_Exchange o') [] @ [Opening_ID c o'])"
proof (cases "Registry_Open c (the_registry c s) (sv_disStore s) o'")
  case (Inl e)
  then show ?thesis using assms same by (simp add: open_locked_def)
next
  case (Inr r)
  obtain d ds where r: "r = (d, ds)" by (cases r)
  have g: "Opening_Verify c o'" "rg_anchors (the_registry c s) (op_Exchange o') (op_Complainant o') (op_Respondent o')" "d = Opening_ID c o'"
    using Inr r by (auto simp: Registry_Open_def Open_checks_Inr split: sum.splits)
  have "sv_disStore s' = ds" "sv_disputesByExchange s' = (sv_disputesByExchange s)(op_Exchange o' \<mapsto> map_get (sv_disputesByExchange s) (op_Exchange o') [] @ [d])"
    using assms Inr r by (auto simp: open_locked_def Let_def split: sum.splits prod.splits)
  then show ?thesis using g Inr r by (intro opened) (simp_all add: dispute_do_def the_registry_def)
qed

lemma withdraw_locked_result:
  assumes "withdraw_locked c w s wd = (res, s')"
  obtains (same) "s' = s" | (withdrawn) "dispute_do c (the_registry c s) (sv_disStore s) (CallWithdraw wd) = Inr (sv_disStore s')"
    "sv_disputesByExchange s' = sv_disputesByExchange s"
proof (cases "Registry_Withdraw c (the_registry c s) (sv_disStore s) wd")
  case (Inl e)
  then show ?thesis using assms same by (simp add: withdraw_locked_def)
next
  case (Inr ds)
  then have "sv_disStore s' = ds" "sv_disputesByExchange s' = sv_disputesByExchange s"
    using assms by (auto simp: withdraw_locked_def Let_def split: sum.splits prod.splits)
  then show ?thesis using Inr by (intro withdrawn) (simp_all add: dispute_do_def)
qed

text \<open>The opening of a case is never lost.\<close>

lemma status_opening_stays:
  assumes "dispute_inv s" and "dispute_do c r s call = Inr s'" and "status_opening (status s d) = Some o'"
  shows "status_opening (status s' d) = Some o'"
proof -
  obtain e where e: "\<forall>e'. e' \<noteq> e \<longrightarrow> status s' e' = status s e'"
    "status s e = Unknown \<or> (\<exists>o'. status s e = Live o' \<and> status_opening (status s' e) = Some o')"
    using dispute_do_status [OF assms(1,2)] by fastforce
  then show ?thesis using assms(3) by (cases "d = e") auto
qed

text \<open>The invariant: the registry is consistent, every case is anchored, the exchange index names only cases on that exchange.\<close>

definition cases_inv :: "crypto \<Rightarrow> server \<Rightarrow> bool" where
  "cases_inv c s \<longleftrightarrow> dispute_inv (sv_disStore s) \<and>
     (\<forall>d o'. status_opening (status (sv_disStore s) d) = Some o' \<longrightarrow> anchored c s (op_Exchange o') (op_Complainant o') (op_Respondent o')) \<and>
     (\<forall>x. \<forall>d \<in> set (map_get (sv_disputesByExchange s) x []). \<exists>o'. status_opening (status (sv_disStore s) d) = Some o' \<and> op_Exchange o' = x) \<and>
     (\<forall>d o' ru. status (sv_disStore s) d \<noteq> Ruled o' ru)"

lemma anchored_mono: "sv_recStore s' = sv_recStore s @ es \<Longrightarrow> anchored c s x a b \<Longrightarrow> anchored c s' x a b"
  by (auto simp: anchored_def)

lemma cases_inv_other:
  "sv_disStore s' = sv_disStore s \<Longrightarrow> sv_disputesByExchange s' = sv_disputesByExchange s \<Longrightarrow> sv_recStore s' = sv_recStore s @ es \<Longrightarrow>
     cases_inv c s \<Longrightarrow> cases_inv c s'"
  unfolding cases_inv_def using anchored_mono by metis

lemma cases_inv_dispute:
  assumes I: "cases_inv c s" and do: "dispute_do c r (sv_disStore s) call = Inr (sv_disStore s')" and st: "sv_recStore s' = sv_recStore s"
    and call: "(\<exists>o'. call = CallOpen o' \<and> anchored c s (op_Exchange o') (op_Complainant o') (op_Respondent o') \<and>
        sv_disputesByExchange s' = (sv_disputesByExchange s)(op_Exchange o' \<mapsto> map_get (sv_disputesByExchange s) (op_Exchange o') [] @ [Opening_ID c o'])) \<or>
      (\<exists>wd. call = CallWithdraw wd \<and> sv_disputesByExchange s' = sv_disputesByExchange s)"
  shows "cases_inv c s'"
proof -
  have di: "dispute_inv (sv_disStore s)" using I by (simp add: cases_inv_def)
  note S = dispute_do_status [OF di do]
  obtain e where E: "\<forall>e'. e' \<noteq> e \<longrightarrow> status (sv_disStore s') e' = status (sv_disStore s) e'"
    "(\<exists>o'. call = CallOpen o' \<and> status (sv_disStore s) e = Unknown \<and> status (sv_disStore s') e = Live o') \<or>
     (\<exists>o' w. status (sv_disStore s) e = Live o' \<and> status (sv_disStore s') e = Gone o' w)"
    using S call by blast
  have keep: "status_opening (status (sv_disStore s) d) = Some o' \<Longrightarrow> status_opening (status (sv_disStore s') d) = Some o'" for d o'
    by (rule status_opening_stays [OF di do])
  have anch: "anchored c s' x a b \<longleftrightarrow> anchored c s x a b" for x a b using st by (simp add: anchored_def)
  have new: "status_opening (status (sv_disStore s') d) = Some o' \<Longrightarrow>
      status_opening (status (sv_disStore s) d) = Some o' \<or> call = CallOpen o'" for d o'
    using E by (cases "d = e") auto
  have op: "call = CallOpen o' \<Longrightarrow> status_opening (status (sv_disStore s') (Opening_ID c o')) = Some o'" for o'
    using S by auto
  show ?thesis
    unfolding cases_inv_def
  proof (intro conjI allI ballI impI)
    show "dispute_inv (sv_disStore s')" using S by blast
  next
    fix d o' assume "status_opening (status (sv_disStore s') d) = Some o'"
    then show "anchored c s' (op_Exchange o') (op_Complainant o') (op_Respondent o')"
      using new [of d o'] I call unfolding anch cases_inv_def by blast
  next
    fix x d assume d: "d \<in> set (map_get (sv_disputesByExchange s') x [])"
    from call show "\<exists>o'. status_opening (status (sv_disStore s') d) = Some o' \<and> op_Exchange o' = x"
    proof (elim disjE exE conjE)
      fix o' assume o': "call = CallOpen o'" "sv_disputesByExchange s' = (sv_disputesByExchange s)(op_Exchange o' \<mapsto> map_get (sv_disputesByExchange s) (op_Exchange o') [] @ [Opening_ID c o'])"
      then have "d \<in> set (map_get (sv_disputesByExchange s) x []) \<or> (x = op_Exchange o' \<and> d = Opening_ID c o')"
        using d by (auto split: if_splits)
      then show ?thesis using I keep op [OF o'(1)] unfolding cases_inv_def by blast
    next
      assume "sv_disputesByExchange s' = sv_disputesByExchange s"
      then show ?thesis using I keep d unfolding cases_inv_def by metis
    qed
  next
    fix d o' ru
    show "status (sv_disStore s') d \<noteq> Ruled o' ru"
      using I E unfolding cases_inv_def by (cases "d = e") auto
  qed
qed

text \<open>Every verdict of the book: a trade verdict names a sealed dialog of exactly its two members; any other is about the operator,
  by a party to a case on that exchange.\<close>

definition verdict_anchored :: "crypto \<Rightarrow> server \<Rightarrow> assessment \<Rightarrow> bool" where
  "verdict_anchored c s a \<longleftrightarrow>
     (\<exists>ka kb. MemberIDFor c (sv_platform s) ka = as_Assessor a \<and> MemberIDFor c (sv_platform s) kb = as_Subject a \<and>
        (if as_Relation a = RelationTrade then anchored c s (as_Exchange a) ka kb
         else as_Subject a = sv_operatorMember s \<and>
           (\<exists>d ca. Registry_Case (sv_disStore s) d = Inr ca \<and> ca_exchange ca = as_Exchange a \<and> (ca_complainant ca = ka \<or> ca_respondent ca = ka))))"

lemma case_opening:
  assumes "dispute_inv s"
  shows "(\<exists>ca. Registry_Case s d = Inr ca \<and> P (ca_exchange ca) (ca_complainant ca) (ca_respondent ca)) \<longleftrightarrow>
    (\<exists>o'. status_opening (status s d) = Some o' \<and> P (op_Exchange o') (op_Complainant o') (op_Respondent o'))"
proof -
  have "Registry_Case s d = case_of d (status s d)" by (rule Registry_Case_status) (rule dispute_invD(1) [OF assms])
  then show ?thesis by (cases "status s d") auto
qed

lemma record_effect_anchored:
  assumes ri: "record_inv c s" and len: "length (sv_recStore s) < 2 ^ 64" and ci: "cases_inv c s" and bp: "bk_platform (sv_book s) = sv_platform s"
    and rec: "Book_Record c (the_book c s) (sv_covStore s) a = Inr st"
  shows "verdict_anchored c s a"
proof -
  have di: "dispute_inv (sv_disStore s)" using ci by (simp add: cases_inv_def)
  note g = Book_Record_Inr(1) [OF rec, unfolded record_gates_def the_book_def, simplified]
  obtain ka where ka: "sv_byMember s (as_Assessor a) = Some ka" "MemberIDFor c (sv_platform s) ka = as_Assessor a" using g bp by auto
  obtain kb where kb: "sv_byMember s (as_Subject a) = Some kb" "MemberIDFor c (sv_platform s) kb = as_Subject a" using g bp by auto
  show ?thesis
  proof (cases "as_Relation a = RelationTrade")
    case True
    then have "recAnchors_Sealed c s (as_Exchange a) (as_Assessor a) (as_Subject a)" using g by simp
    then have "anchored c s (as_Exchange a) ka kb" unfolding recAnchors_iff using ka kb dispAnchors_iff [OF ri len] by auto
    then show ?thesis unfolding verdict_anchored_def using ka kb True by auto
  next
    case False
    then have adj: "recAnchors_Adjudicated s (as_Exchange a) (as_Assessor a) (as_Subject a)" using g by simp
    then have sub: "as_Subject a = sv_operatorMember s" by (simp add: recAnchors_Adjudicated_def split: if_splits)
    obtain d where d0: "d \<in> set (map_get (sv_disputesByExchange s) (as_Exchange a) [])"
      "case Registry_Case (sv_disStore s) d of Inl _ \<Rightarrow> False | Inr ca \<Rightarrow> ca_complainant ca = ka \<or> ca_respondent ca = ka"
      using adj ka unfolding recAnchors_Adjudicated_def list_ex_iff by (auto split: if_splits)
    then obtain ca where d: "d \<in> set (map_get (sv_disputesByExchange s) (as_Exchange a) [])" "Registry_Case (sv_disStore s) d = Inr ca"
      "ca_complainant ca = ka \<or> ca_respondent ca = ka" "as_Subject a = sv_operatorMember s"
      using sub by (cases "Registry_Case (sv_disStore s) d") auto
    obtain o' where o': "status_opening (status (sv_disStore s) d) = Some o'" "op_Exchange o' = as_Exchange a"
      using ci d(1) unfolding cases_inv_def by blast
    have "\<exists>ca. Registry_Case (sv_disStore s) d = Inr ca \<and> ca_exchange ca = as_Exchange a" using case_opening [OF di, of d "\<lambda>x y z. x = as_Exchange a"] o' by blast
    then have "ca_exchange ca = as_Exchange a" using d(2) by simp
    then show ?thesis unfolding verdict_anchored_def using ka kb d False by auto
  qed
qed

lemma verdict_anchored_mono:
  assumes "verdict_anchored c s a" "sv_recStore s' = sv_recStore s @ es" "sv_platform s' = sv_platform s" "sv_operatorMember s' = sv_operatorMember s"
    and "dispute_inv (sv_disStore s)" "dispute_inv (sv_disStore s')"
    and keep: "\<And>d o'. status_opening (status (sv_disStore s) d) = Some o' \<Longrightarrow> status_opening (status (sv_disStore s') d) = Some o'"
  shows "verdict_anchored c s' a"
proof -
  have "\<exists>d ca. Registry_Case (sv_disStore s') d = Inr ca \<and> ca_exchange ca = x \<and> (ca_complainant ca = k \<or> ca_respondent ca = k)"
    if ex: "\<exists>d ca. Registry_Case (sv_disStore s) d = Inr ca \<and> ca_exchange ca = x \<and> (ca_complainant ca = k \<or> ca_respondent ca = k)" for x k
  proof -
    let ?P = "\<lambda>e y z. e = x \<and> (y = k \<or> z = k)"
    obtain d where "\<exists>ca. Registry_Case (sv_disStore s) d = Inr ca \<and> ?P (ca_exchange ca) (ca_complainant ca) (ca_respondent ca)"
      using ex by blast
    then obtain o' where "status_opening (status (sv_disStore s) d) = Some o'" "?P (op_Exchange o') (op_Complainant o') (op_Respondent o')"
      using case_opening [OF assms(5), of d ?P] by blast
    then show ?thesis using case_opening [OF assms(6), of d ?P] keep [of d o'] by blast
  qed
  then show ?thesis using assms(1) anchored_mono [OF assms(2)] unfolding verdict_anchored_def assms(3,4) by (metis (no_types, lifting))
qed

text \<open>The dispute routes make one registry call; every other request leaves the cases alone.\<close>

definition case_call :: "crypto \<Rightarrow> server \<Rightarrow> dispute_call \<Rightarrow> server \<Rightarrow> bool" where
  "case_call c s call s' \<longleftrightarrow> dispute_do c (the_registry c s) (sv_disStore s) call = Inr (sv_disStore s') \<and>
     sv_recStore s' = sv_recStore s \<and> sv_covStore s' = sv_covStore s \<and>
     (case call of
        CallOpen o' \<Rightarrow> Opening_Verify c o' \<and> dispAnchors_Sealed c s (op_Exchange o') (op_Complainant o') (op_Respondent o') \<and>
          sv_disputesByExchange s' = (sv_disputesByExchange s)(op_Exchange o' \<mapsto> map_get (sv_disputesByExchange s) (op_Exchange o') [] @ [Opening_ID c o'])
      | CallWithdraw wd \<Rightarrow> sv_disputesByExchange s' = sv_disputesByExchange s
      | CallRule ru \<Rightarrow> False)"

lemma api_effect_case:
  assumes "api_effect c s wr s'"
  obtains (call) call where "case_call c s call s'"
  | (other) "sv_disStore s' = sv_disStore s" "sv_disputesByExchange s' = sv_disputesByExchange s"
  using assms
proof cases
  case (eff_open w o' res b)
  note f = open_locked_frame [OF eff_open(2)]
  have same: "sv_recStore s' = sv_recStore s" "sv_covStore s' = sv_covStore s"
    using arg_cong [OF f, of sv_recStore] arg_cong [OF f, of sv_covStore] by (simp_all add: sv_recStore_def)
  from eff_open(2) show ?thesis
  proof (cases rule: open_locked_result)
    case opened
    then show ?thesis using same by (intro call [of "CallOpen o'"]) (simp add: case_call_def)
  qed (use other in simp)
next
  case (eff_withdraw w wd res p b)
  note f = withdraw_locked_frame [OF eff_withdraw(2)]
  have same: "sv_recStore s' = sv_recStore s" "sv_covStore s' = sv_covStore s"
    using arg_cong [OF f, of sv_recStore] arg_cong [OF f, of sv_covStore] by (simp_all add: sv_recStore_def)
  from eff_withdraw(2) show ?thesis
  proof (cases rule: withdraw_locked_result)
    case withdrawn
    then show ?thesis using same by (intro call [of "CallWithdraw wd"]) (simp add: case_call_def)
  qed (use other in simp)
next
  case (eff_drop e seq w b)
  note f = appendEntry_frame [OF eff_drop(4)]
  show ?thesis using arg_cong [OF f, of sv_disStore] arg_cong [OF f, of sv_disputesByExchange] by (intro other) simp_all
qed (use other in \<open>auto simp: with_narrative_def Let_def\<close>)

lemma case_call_inv:
  assumes "case_call c s call s'" and "cases_inv c s" and "record_inv c s" and "length (sv_recStore s) < 2 ^ 64"
  shows "cases_inv c s'"
  by (rule cases_inv_dispute [OF assms(2), of _ call])
     (use assms dispAnchors_iff [OF assms(3,4)] in \<open>auto simp: case_call_def split: dispute_call.splits\<close>)

text \<open>The joint invariant.\<close>

definition anchor_inv :: "crypto \<Rightarrow> server \<Rightarrow> bool" where
  "anchor_inv c s \<longleftrightarrow> record_inv c s \<and> bk_platform (sv_book s) = sv_platform s \<and>
     (length (sv_recStore s) < 2 ^ 64 \<longrightarrow> cases_inv c s \<and> (\<forall>a \<in> verdicts (sv_covStore s). verdict_anchored c s a))"

lemma fixedD:
  assumes "sv_fixed s' = sv_fixed s"
  shows "sv_platform s' = sv_platform s" "sv_operatorPub s' = sv_operatorPub s" "sv_operatorPriv s' = sv_operatorPriv s" "sv_logID s' = sv_logID s"
    "sv_lifeID s' = sv_lifeID s" "sv_intake s' = sv_intake s" "sv_operatorMember s' = sv_operatorMember s" "sv_book s' = sv_book s" "sv_registry s' = sv_registry s"
  using assms by (simp_all add: sv_fixed_def)

lemma verdicts_effect:
  assumes "api_effect c s wr s'"
  shows "verdicts (sv_covStore s') = verdicts (sv_covStore s) \<or>
    (\<exists>a st. Book_Record c (the_book c s) (sv_covStore s) a = Inr st \<and> verdicts (sv_covStore s') = insert a (verdicts (sv_covStore s)) \<and>
       sv_disStore s' = sv_disStore s)"
  using assms
proof cases
  case (eff_assess a st w b)
  have "verdicts st = insert a (verdicts (sv_covStore s))" by (auto simp: verdicts_def record_by_subject [OF eff_assess(3)])
  then show ?thesis using eff_assess by auto
next
  case (eff_answer an st w p b)
  have "cv_bySubject st = cv_bySubject (sv_covStore s)" using RecordAnswer_Inr(1) [OF eff_answer(3)] by simp
  then show ?thesis using eff_answer by (simp add: verdicts_def CovStore_BySubject_def)
next
  case (eff_open w o' res b)
  then show ?thesis using arg_cong [OF open_locked_frame [OF eff_open(2)], of sv_covStore] by simp
next
  case (eff_withdraw w wd res p b)
  then show ?thesis using arg_cong [OF withdraw_locked_frame [OF eff_withdraw(2)], of sv_covStore] by simp
next
  case (eff_drop e seq w b)
  then show ?thesis using arg_cong [OF appendEntry_frame [OF eff_drop(4)], of sv_covStore] by simp
qed (auto simp: with_narrative_def Let_def)

lemma anchor_inv_step:
  assumes "anchor_inv c s" and eff: "api_effect c s wr s'"
  shows "anchor_inv c s'"
proof -
  note F = fixedD [OF api_effect_fixed [OF eff]]
  have ri: "record_inv c s" and bp: "bk_platform (sv_book s) = sv_platform s" using assms(1) by (simp_all add: anchor_inv_def)
  obtain es where ri': "record_inv c s'" and es: "sv_recStore s' = sv_recStore s @ es" using api_effect_record [OF eff ri] by blast
  have "cases_inv c s' \<and> (\<forall>a \<in> verdicts (sv_covStore s'). verdict_anchored c s' a)" if len': "length (sv_recStore s') < 2 ^ 64"
  proof -
    have len: "length (sv_recStore s) < 2 ^ 64" using len' es by simp
    have ci: "cases_inv c s" and va: "\<forall>a \<in> verdicts (sv_covStore s). verdict_anchored c s a" using assms(1) len by (simp_all add: anchor_inv_def)
    have di: "dispute_inv (sv_disStore s)" using ci by (simp add: cases_inv_def)
    have ci': "cases_inv c s'"
      using eff by (cases rule: api_effect_case) (blast intro: case_call_inv [OF _ ci ri len] cases_inv_other [OF _ _ es ci])+
    have keep: "status_opening (status (sv_disStore s) d) = Some o' \<Longrightarrow> status_opening (status (sv_disStore s') d) = Some o'" for d o'
      using eff by (cases rule: api_effect_case) (auto simp: case_call_def intro: status_opening_stays [OF di])
    have mono: "verdict_anchored c s a \<Longrightarrow> verdict_anchored c s' a" for a
      using ci' by (intro verdict_anchored_mono [OF _ es F(1,7) di _ keep]) (simp_all add: cases_inv_def)
    show ?thesis
      using verdicts_effect [OF eff] va mono ci' record_effect_anchored [OF ri len ci bp] by auto
  qed
  then show ?thesis using ri' bp F by (simp add: anchor_inv_def)
qed

lemma fresh_stores: "status DisputeStore_New d = Unknown" "verdicts CovStore_New = {}"
  by (simp_all add: DisputeStore_New_def ByDispute_def verdicts_def CovStore_New_def CovStore_BySubject_def)

lemma anchor_inv_start: "NewServer c p ok sk ak = Inr s \<Longrightarrow> anchor_inv c s"
  using NewServer_start [of c p ok sk ak s] by (simp add: anchor_inv_def cases_inv_def dispute_inv_New fresh_stores)

text \<open>C20: what the server's anchors accept and what rests on them. In every state the server reaches, whatever requests it served,
  the dispute anchor accepts an exchange and two keys exactly when the operator log holds an entry of that identity sealed by
  those two keys, in either order, and the covenant anchor accepts the same of the keys the directory holds for its two members;
  every case in the registry, whatever its state, is about such an entry; and every recorded verdict is either a trade
  verdict on an entry sealed by keys of exactly the two members, or is about the operator by a party to a case on that exchange.\<close>

theorem server_anchors_exact:
  assumes "NewServer c p ok sk ak = Inr s0" and "length (sv_recStore (api_run c s0 reqs)) < 2 ^ 64"
  shows "let s = api_run c s0 reqs in
    (\<forall>x a b. dispAnchors_Sealed c s x a b \<longleftrightarrow> (\<exists>e \<in> set (sv_recStore s). Entry_ID c e = x \<and> between e a b)) \<and>
    (\<forall>x m m'. recAnchors_Sealed c s x m m' \<longleftrightarrow> (\<exists>ka kb. sv_byMember s m = Some ka \<and> sv_byMember s m' = Some kb \<and>
       (\<exists>e \<in> set (sv_recStore s). Entry_ID c e = x \<and> between e ka kb))) \<and>
    (\<forall>d ca. Registry_Case (sv_disStore s) d = Inr ca \<longrightarrow>
       (\<exists>e \<in> set (sv_recStore s). Entry_ID c e = ca_exchange ca \<and> between e (ca_complainant ca) (ca_respondent ca))) \<and>
    (\<forall>a \<in> verdicts (sv_covStore s). verdict_anchored c s a)"
proof -
  let ?s = "api_run c s0 reqs"
  have I: "anchor_inv c ?s" by (rule api_run_invariant) (use anchor_inv_start [OF assms(1)] anchor_inv_step in blast)+
  then have ri: "record_inv c ?s" and ci: "cases_inv c ?s" and va: "\<forall>a \<in> verdicts (sv_covStore ?s). verdict_anchored c ?s a"
    using assms(2) by (simp_all add: anchor_inv_def)
  have di: "dispute_inv (sv_disStore ?s)" using ci by (simp add: cases_inv_def)
  have "anchored c ?s (ca_exchange ca) (ca_complainant ca) (ca_respondent ca)" if "Registry_Case (sv_disStore ?s) d = Inr ca" for d ca
    using that ci case_opening [OF di, of d "\<lambda>x y z. x = ca_exchange ca \<and> y = ca_complainant ca \<and> z = ca_respondent ca"]
    unfolding cases_inv_def by metis
  then show ?thesis
    unfolding Let_def using dispAnchors_iff [OF ri assms(2)] recAnchors_iff [of c ?s] va by (simp add: anchored_def)
qed

end
