(* ===== verification/Api_Lifecycle.thy ===== *)
theory Api_Lifecycle
  imports Api_Anchors
begin

text \<open>
  The claim-lifecycle log as a refinement of the dispute registry: \<open>consumerapi\<close> commits a transition beside every registry call,
  under one lock but in two stores. The theorems say that the two agree as long as no request was answered with a
  lifecycle error, and exactly when a dispute route meets such an error: an accident of the digests.
\<close>

section \<open>The two dispute routes\<close>

definition filed_transition :: "crypto \<Rightarrow> wire \<Rightarrow> server \<Rightarrow> dispute_opening \<Rightarrow> transition" where
  "filed_transition c w s o' =
     \<lparr>t_Log = sv_lifeID s, t_Claim = Opening_ID c o', t_Kind = KindFiled, t_Artifact = sha256 c (Opening_CanonicalBytes c o'),
      t_Exchange = op_Exchange o', t_At = wire_now w\<rparr>"

definition resolved_transition :: "crypto \<Rightarrow> wire \<Rightarrow> server \<Rightarrow> withdrawal \<Rightarrow> b32 \<Rightarrow> transition" where
  "resolved_transition c w s wd x =
     \<lparr>t_Log = sv_lifeID s, t_Claim = wd_Dispute wd, t_Kind = KindResolved, t_Artifact = sha256 c (Withdrawal_CanonicalBytes c wd),
      t_Exchange = x, t_At = wire_now w\<rparr>"

lemma open_locked_cases:
  "open_locked c w s o' =
     (case Registry_Open c (the_registry c s) (sv_disStore s) o' of
        Inl e \<Rightarrow> (Inl (ApiDispute e), s)
      | Inr (i, ds) \<Rightarrow>
          let s1 = s\<lparr>sv_disStore := ds, sv_disputesByExchange := (sv_disputesByExchange s)(op_Exchange o' \<mapsto> map_get (sv_disputesByExchange s) (op_Exchange o') [] @ [i])\<rparr>
          in case Lifecycle_Append c (sv_lifeLog s) (filed_transition c w s o') of
               Inl e \<Rightarrow> (Inl (ApiLifecycle e), s1) | Inr (seq, ll) \<Rightarrow> (Inr i, s1\<lparr>sv_lifeLog := ll\<rparr>))"
  by (auto simp: open_locked_def filed_transition_def Registry_Open_def Open_checks_def Let_def split: sum.splits)

definition lifecycle_refusal :: "'a reply \<Rightarrow> bool" where
  "lifecycle_refusal r \<longleftrightarrow> (\<exists>n e. r = Refused n (ApiLifecycle e))"

text \<open>A request answered with an error of the lifecycle log.\<close>

fun lifecycle_refused :: "crypto \<Rightarrow> server \<Rightarrow> wire \<times> api_request \<Rightarrow> bool" where
  "lifecycle_refused c s (w, ReqOpen b) = lifecycle_refusal (fst (handleOpenDispute c w s b))"
| "lifecycle_refused c s (w, ReqWithdraw p b) = lifecycle_refusal (fst (handleWithdrawDispute c w s p b))"
| "lifecycle_refused c s _ = False"

text \<open>Each dispute route, if it changes anything, runs its locked part; it reports a lifecycle error exactly if that part does.\<close>

lemma need_cases:
  assumes "need x m s f = (r, s')"
  obtains "s' = s" "r = Fault StatusBadRequest m" | v where "x = Some v" "f v = (r, s')"
  using assms by (cases x) (auto simp: need_def)

lemma handleOpenDispute_locked:
  assumes "handleOpenDispute c w s b = (r, s')"
  obtains (same) "s' = s" "\<not> lifecycle_refusal r"
  | (ran) o' res req where "open_locked c w s o' = (res, s')" "b = Some req" "decodeHex32 (oq_Exchange req) = Some (op_Exchange o')"
    "decodeKey (oq_Complainant req) = Some (op_Complainant o')" "lifecycle_refusal r \<longleftrightarrow> (\<exists>e. res = Inl (ApiLifecycle e))"
proof -
  have tail: thesis if d: "b = Some req" "decodeKey (oq_Complainant req) = Some (op_Complainant o')" "decodeHex32 (oq_Exchange req) = Some (op_Exchange o')"
    and t: "(case FilingIntake_Accept c (sv_intake s) fc (wire_now w) of Inl err \<Rightarrow> (Refused StatusBadRequest (ApiFiling err), s)
          | Inr receipt \<Rightarrow> (case open_locked c w s o' of
               (Inl err, s') \<Rightarrow> (Refused StatusBadRequest err, s') | (Inr i, s') \<Rightarrow> (Reply StatusOK (view receipt i), s'))) = (r, s')"
    for req o' fc and view :: "filing_receipt \<Rightarrow> b32 \<Rightarrow> filing_receipt_view"
  proof (cases "FilingIntake_Accept c (sv_intake s) fc (wire_now w)")
    case (Inl err)
    then show thesis using t by (intro same) (auto simp: lifecycle_refusal_def)
  next
    case (Inr receipt)
    obtain res s1 where o: "open_locked c w s o' = (res, s1)" by fastforce
    have "s1 = s'" "lifecycle_refusal r \<longleftrightarrow> (\<exists>e. res = Inl (ApiLifecycle e))"
      using t Inr o by (cases res; auto simp: lifecycle_refusal_def)+
    then show thesis using ran [OF _ d(1,3,2), of res] o by simp
  qed
  show thesis using assms unfolding handleOpenDispute_def Let_def
    by (elim need_cases) ((rule same; simp add: lifecycle_refusal_def; fail) | (rule tail; simp; fail))+
qed

lemma handleWithdrawDispute_locked:
  assumes "handleWithdrawDispute c w s p b = (r, s')"
  obtains (same) "s' = s" "\<not> lifecycle_refusal r"
  | (ran) wd res where "withdraw_locked c w s wd = (res, s')" "decodeHex32 p = Some (wd_Dispute wd)" "lifecycle_refusal r \<longleftrightarrow> (\<exists>e. res = Some (ApiLifecycle e))"
proof -
  have "(s' = s \<and> \<not> lifecycle_refusal r) \<or> (\<exists>res i t sig. withdraw_locked c w s \<lparr>wd_Platform = sv_platform s, wd_Dispute = i, wd_WithdrawnAt = t, wd_Signature = sig\<rparr> = (res, s') \<and>
      decodeHex32 p = Some i \<and> (lifecycle_refusal r \<longleftrightarrow> (\<exists>e. res = Some (ApiLifecycle e))))"
    using assms unfolding handleWithdrawDispute_def Let_def lifecycle_refusal_def
    by (simp only: need_def split: option.splits sum.splits prod.splits) (auto split: option.splits)
  then show thesis
  proof (elim disjE exE conjE)
    fix res i t sig
    assume "withdraw_locked c w s \<lparr>wd_Platform = sv_platform s, wd_Dispute = i, wd_WithdrawnAt = t, wd_Signature = sig\<rparr> = (res, s')" "decodeHex32 p = Some i"
      "lifecycle_refusal r \<longleftrightarrow> (\<exists>e. res = Some (ApiLifecycle e))"
    then show thesis by (elim ran) simp_all
  qed (rule same)
qed

section \<open>The refinement\<close>

text \<open>The transitions a case has behind it.\<close>

fun kinds_for :: "case_status \<Rightarrow> transition_kind list" where
  "kinds_for Unknown = []"
| "kinds_for (Live o') = [KindFiled]"
| "kinds_for (Gone o' w) = [KindFiled, KindResolved]"
| "kinds_for (Ruled o' ru) = []"
| "kinds_for Broken = []"

definition life_inv :: "crypto \<Rightarrow> server \<Rightarrow> bool" where
  "life_inv c s \<longleftrightarrow> sv_lifeLog s = lifecycle_of_store c (sv_lifeID s) (sv_lifeStore s) \<and> life_admissible c (sv_lifeID s) (sv_lifeStore s) \<and>
     dispute_inv (sv_disStore s) \<and> (\<forall>d o' ru. status (sv_disStore s) d \<noteq> Ruled o' ru) \<and>
     (\<forall>d o'. status_opening (status (sv_disStore s) d) = Some o' \<longrightarrow> op_Exchange o' \<noteq> 0) \<and>
     (\<forall>d. kinds_of (sv_lifeStore s) d = kinds_for (status (sv_disStore s) d))"

text \<open>What the append of a transition of the next kind needs: a claim, an exchange and a leaf of its own.\<close>

lemma life_append:
  assumes I: "life_inv c s" and t: "t_Log t = sv_lifeID s" "t_Exchange t \<noteq> 0"
    and k: "t_Kind t = KindFiled \<and> status (sv_disStore s) (t_Claim t) = Unknown \<or>
            t_Kind t = KindResolved \<and> (\<exists>o'. status (sv_disStore s) (t_Claim t) = Live o')"
  shows "(\<exists>e. Lifecycle_Append c (sv_lifeLog s) t = Inl e) \<longleftrightarrow> t_Claim t = 0 \<or> Transition_ID c t \<in> Transition_ID c ` set (sv_lifeStore s)"
    and "Lifecycle_Append c (sv_lifeLog s) t = Inr (seq, ll) \<Longrightarrow> ll = lifecycle_of_store c (sv_lifeID s) (sv_lifeStore s @ [t]) \<and>
      life_admissible c (sv_lifeID s) (sv_lifeStore s @ [t])"
proof -
  have adm: "life_admissible c (sv_lifeID s) (sv_lifeStore s)" and log: "sv_lifeLog s = lifecycle_of_store c (sv_lifeID s) (sv_lifeStore s)"
    and kinds: "kinds_of (sv_lifeStore s) (t_Claim t) = kinds_for (status (sv_disStore s) (t_Claim t))"
    using I by (simp_all add: life_inv_def)
  have iff: "Lifecycle_Append c (sv_lifeLog s) t = Inr (seq, ll) \<longleftrightarrow>
      life_admissible_after c (sv_lifeID s) (sv_lifeStore s) t \<and> seq = word_of_nat (length (sv_lifeStore s)) \<and> ll = lifecycle_of_store c (sv_lifeID s) (sv_lifeStore s @ [t])" for seq ll
    unfolding log by (rule Lifecycle_Append_iff [OF life_admissible_pipeline [OF adm]])
  have pipe: "pipeline (kinds_of (sv_lifeStore s) (t_Claim t) @ [t_Kind t])" unfolding kinds using k by (auto simp: kind_defs)
  have ok: "life_admissible_after c (sv_lifeID s) (sv_lifeStore s) t \<longleftrightarrow> t_Claim t \<noteq> 0 \<and> Transition_ID c t \<notin> Transition_ID c ` set (sv_lifeStore s)"
    using t pipe by (auto simp: life_admissible_after_def zeroHash_def)
  show "(\<exists>e. Lifecycle_Append c (sv_lifeLog s) t = Inl e) \<longleftrightarrow> t_Claim t = 0 \<or> Transition_ID c t \<in> Transition_ID c ` set (sv_lifeStore s)"
  proof (cases "Lifecycle_Append c (sv_lifeLog s) t")
    case (Inl e)
    then have "\<not> life_admissible_after c (sv_lifeID s) (sv_lifeStore s) t" using iff by auto
    then show ?thesis using Inl ok by auto
  next
    case (Inr r)
    then have "life_admissible_after c (sv_lifeID s) (sv_lifeStore s) t" using iff by (cases r) auto
    then show ?thesis using Inr ok by auto
  qed
  show "Lifecycle_Append c (sv_lifeLog s) t = Inr (seq, ll) \<Longrightarrow> ll = lifecycle_of_store c (sv_lifeID s) (sv_lifeStore s @ [t]) \<and>
      life_admissible c (sv_lifeID s) (sv_lifeStore s @ [t])"
    using iff adm by (auto simp: life_admissible_snoc)
qed

text \<open>One dispute call with its transition committed keeps the agreement.\<close>

lemma life_inv_commit:
  assumes I: "life_inv c s" and do: "dispute_do c r (sv_disStore s) call = Inr (sv_disStore s')"
    and log: "sv_lifeLog s' = lifecycle_of_store c (sv_lifeID s) (sv_lifeStore s @ [t])" "sv_lifeID s' = sv_lifeID s"
    and adm: "life_admissible c (sv_lifeID s) (sv_lifeStore s @ [t])"
    and call: "(\<exists>o'. call = CallOpen o' \<and> op_Exchange o' \<noteq> 0 \<and> t_Claim t = Opening_ID c o' \<and> t_Kind t = KindFiled) \<or>
      (\<exists>wd. call = CallWithdraw wd \<and> t_Claim t = wd_Dispute wd \<and> t_Kind t = KindResolved)"
  shows "life_inv c s'"
proof -
  have di: "dispute_inv (sv_disStore s)" using I by (simp add: life_inv_def)
  have st: "sv_lifeStore s' = sv_lifeStore s @ [t]" unfolding sv_lifeStore_def log(1) by (simp add: lifecycle_of_store_def sv_lifeStore_def)
  have E: "dispute_inv (sv_disStore s')" "\<forall>e. e \<noteq> t_Claim t \<longrightarrow> status (sv_disStore s') e = status (sv_disStore s) e"
    "(\<exists>o'. op_Exchange o' \<noteq> 0 \<and> t_Kind t = KindFiled \<and> status (sv_disStore s) (t_Claim t) = Unknown \<and> status (sv_disStore s') (t_Claim t) = Live o') \<or>
     (\<exists>o' w. t_Kind t = KindResolved \<and> status (sv_disStore s) (t_Claim t) = Live o' \<and> status (sv_disStore s') (t_Claim t) = Gone o' w)"
    using dispute_do_status [OF di do] call by auto
  have kinds: "kinds_of (sv_lifeStore s') d = kinds_for (status (sv_disStore s') d)" for d
    using I E(2,3) by (cases "d = t_Claim t") (auto simp: life_inv_def st kinds_of_snoc)
  have ex: "status_opening (status (sv_disStore s') d) = Some o' \<Longrightarrow> op_Exchange o' \<noteq> 0" for d o'
  proof (cases "d = t_Claim t")
    case True
    assume a: "status_opening (status (sv_disStore s') d) = Some o'"
    have "status (sv_disStore s) d = Live o2 \<Longrightarrow> op_Exchange o2 \<noteq> 0" for o2 using I unfolding life_inv_def by (metis status_opening.simps(1))
    then show ?thesis using E(3) a True by auto
  next
    case False
    assume "status_opening (status (sv_disStore s') d) = Some o'"
    then show ?thesis using I E(2) False unfolding life_inv_def by auto
  qed
  have nr: "status (sv_disStore s') d \<noteq> Ruled o' ru" for d o' ru
    using I E(2,3) by (cases "d = t_Claim t") (auto simp: life_inv_def)
  show ?thesis
    unfolding life_inv_def log st using E(1) adm kinds ex nr by (simp add: st)
qed

lemma fresh_transition:
  assumes "life_inv c s" and "t_Kind t \<notin> set (kinds_for (status (sv_disStore s) (t_Claim t)))" and "u \<in> set (sv_lifeStore s)"
  shows "u \<noteq> t"
proof
  assume "u = t"
  then have "t_Kind t \<in> set (kinds_of (sv_lifeStore s) (t_Claim t))" using assms(3) by (auto simp: kinds_of_def)
  then show False using assms(1,2) by (simp add: life_inv_def)
qed

text \<open>A digest accident: a stored, different transition has the same leaf.\<close>

definition leaf_taken :: "crypto \<Rightarrow> server \<Rightarrow> transition \<Rightarrow> bool" where
  "leaf_taken c s t \<longleftrightarrow> (\<exists>u \<in> set (sv_lifeStore s). u \<noteq> t \<and> Transition_ID c u = Transition_ID c t)"

lemma leaf_taken_iff:
  assumes "life_inv c s" and "t_Kind t \<notin> set (kinds_for (status (sv_disStore s) (t_Claim t)))"
  shows "Transition_ID c t \<in> Transition_ID c ` set (sv_lifeStore s) \<longleftrightarrow> leaf_taken c s t"
  using fresh_transition [OF assms] unfolding leaf_taken_def by (metis (no_types, lifting) image_iff)

text \<open>A case has a claim identifier other than zero: its filing is in the lifecycle log.\<close>

lemma live_claim:
  assumes I: "life_inv c s" and l: "status (sv_disStore s) d = Live o'"
  shows "d \<noteq> 0"
proof -
  have "kinds_of (sv_lifeStore s) d = [KindFiled]" using I l by (simp add: life_inv_def)
  then obtain t where t: "t \<in> set (sv_lifeStore s)" "t_Claim t = d" unfolding kinds_of_def by (metis (mono_tags, lifting) filter_False list.distinct(1) list.simps(8))
  then obtain i where i: "i < length (sv_lifeStore s)" "sv_lifeStore s ! i = t" by (metis in_set_conv_nth)
  have "life_admissible c (sv_lifeID s) (sv_lifeStore s)" using I by (simp add: life_inv_def)
  then show ?thesis using i t(2) by (auto simp: life_admissible_def life_admissible_after_def zeroHash_def)
qed

lemma open_locked_life:
  assumes I: "life_inv c s" and o: "open_locked c w s o' = (res, s')"
  shows "(\<exists>e. res = Inl (ApiLifecycle e)) \<longleftrightarrow> (\<exists>r. Registry_Open c (the_registry c s) (sv_disStore s) o' = Inr r) \<and>
      (Opening_ID c o' = 0 \<or> leaf_taken c s (filed_transition c w s o'))"
    and "\<not> (\<exists>e. res = Inl (ApiLifecycle e)) \<Longrightarrow> life_inv c s'"
proof -
  let ?t = "filed_transition c w s o'"
  have di: "dispute_inv (sv_disStore s)" using I by (simp add: life_inv_def)
  have admitted: "Opening_Verify c o' \<and> status (sv_disStore s) (t_Claim ?t) = Unknown \<and> i = Opening_ID c o' \<and>
      dispute_do c (the_registry c s) (sv_disStore s) (CallOpen o') = Inr ds"
    if "Registry_Open c (the_registry c s) (sv_disStore s) o' = Inr (i, ds)" for i ds
  proof -
    have "dispute_do c (the_registry c s) (sv_disStore s) (CallOpen o') = Inr ds" using that by (simp add: dispute_do_def)
    moreover from dispute_do_status [OF di this] have "status (sv_disStore s) (Opening_ID c o') = Unknown" by auto
    ultimately show ?thesis using that by (auto simp: Registry_Open_def Open_checks_Inr filed_transition_def split: sum.splits)
  qed
  have t: "t_Log ?t = sv_lifeID s" "t_Kind ?t = KindFiled" "t_Exchange ?t = op_Exchange o'" "t_Claim ?t = Opening_ID c o'"
    by (simp_all add: filed_transition_def)
  show "(\<exists>e. res = Inl (ApiLifecycle e)) \<longleftrightarrow> (\<exists>r. Registry_Open c (the_registry c s) (sv_disStore s) o' = Inr r) \<and>
      (Opening_ID c o' = 0 \<or> leaf_taken c s ?t)"
  proof (cases "Registry_Open c (the_registry c s) (sv_disStore s) o'")
    case (Inl e)
    then show ?thesis using o by (auto simp: open_locked_cases)
  next
    case (Inr r)
    obtain i ds where r: "r = (i, ds)" by (cases r)
    note a = admitted [OF Inr [unfolded r]]
    have "(\<exists>e. res = Inl (ApiLifecycle e)) \<longleftrightarrow> (\<exists>e. Lifecycle_Append c (sv_lifeLog s) ?t = Inl e)"
      using o Inr r by (auto simp: open_locked_cases Let_def split: sum.splits)
    also have "\<dots> \<longleftrightarrow> t_Claim ?t = 0 \<or> Transition_ID c ?t \<in> Transition_ID c ` set (sv_lifeStore s)"
      using life_append(1) [OF I t(1)] a t by (simp add: Opening_Verify_def)
    also have "\<dots> \<longleftrightarrow> Opening_ID c o' = 0 \<or> leaf_taken c s ?t"
      using leaf_taken_iff [OF I, of ?t] a by (simp add: t(4))
    finally show ?thesis using Inr by simp
  qed
  assume ne: "\<not> (\<exists>e. res = Inl (ApiLifecycle e))"
  show "life_inv c s'"
  proof (cases "Registry_Open c (the_registry c s) (sv_disStore s) o'")
    case (Inl e)
    then show ?thesis using o I by (simp add: open_locked_cases)
  next
    case (Inr r)
    obtain i ds where r: "r = (i, ds)" by (cases r)
    note a = admitted [OF Inr [unfolded r]]
    obtain seq ll where ll: "Lifecycle_Append c (sv_lifeLog s) ?t = Inr (seq, ll)" "sv_lifeLog s' = ll" "sv_disStore s' = ds" "sv_lifeID s' = sv_lifeID s"
      using o Inr r ne by (auto simp: open_locked_cases Let_def split: sum.splits)
    have x: "op_Exchange o' \<noteq> 0" using a by (simp add: Opening_Verify_def)
    have "ll = lifecycle_of_store c (sv_lifeID s) (sv_lifeStore s @ [?t]) \<and> life_admissible c (sv_lifeID s) (sv_lifeStore s @ [?t])"
      using x a t by (intro life_append(2) [OF I t(1) _ _ ll(1)]) auto
    then show ?thesis
      using a x t ll by (intro life_inv_commit [OF I, of "the_registry c s" "CallOpen o'" s' ?t]) auto
  qed
qed

lemma withdraw_locked_cases:
  assumes di: "dispute_inv (sv_disStore s)" and r: "Registry_Withdraw c (the_registry c s) (sv_disStore s) wd = Inr ds"
  obtains o' where "status (sv_disStore s) (wd_Dispute wd) = Live o'"
    "dispute_do c (the_registry c s) (sv_disStore s) (CallWithdraw wd) = Inr ds"
    "withdraw_locked c w s wd = (case Lifecycle_Append c (sv_lifeLog s) (resolved_transition c w s wd (op_Exchange o')) of
       Inl e \<Rightarrow> (Some (ApiLifecycle e), s\<lparr>sv_disStore := ds\<rparr>) | Inr (seq, ll) \<Rightarrow> (None, s\<lparr>sv_disStore := ds, sv_lifeLog := ll\<rparr>))"
proof -
  have do: "dispute_do c (the_registry c s) (sv_disStore s) (CallWithdraw wd) = Inr ds" using r by (simp add: dispute_do_def)
  obtain o' w' where st: "status (sv_disStore s) (wd_Dispute wd) = Live o'" "status ds (wd_Dispute wd) = Gone o' w'" and di': "dispute_inv ds"
    using dispute_do_status [OF di do] by auto
  obtain ca where "Registry_Case ds (wd_Dispute wd) = Inr ca" "ca_exchange ca = op_Exchange o'"
    using Registry_Case_status [OF dispute_invD(1) [OF di', of "wd_Dispute wd"]] st(2) by auto
  then show thesis
    using r by (intro that [OF st(1) do]) (auto simp: withdraw_locked_def resolved_transition_def Let_def split: sum.splits)
qed

lemma withdraw_locked_life:
  assumes I: "life_inv c s" and o: "withdraw_locked c w s wd = (res, s')"
  shows "(\<exists>e. res = Some (ApiLifecycle e)) \<longleftrightarrow> (\<exists>ds. Registry_Withdraw c (the_registry c s) (sv_disStore s) wd = Inr ds) \<and>
      (\<exists>o'. status (sv_disStore s) (wd_Dispute wd) = Live o' \<and> leaf_taken c s (resolved_transition c w s wd (op_Exchange o')))"
    and "\<not> (\<exists>e. res = Some (ApiLifecycle e)) \<Longrightarrow> life_inv c s'"
proof -
  have di: "dispute_inv (sv_disStore s)" using I by (simp add: life_inv_def)
  have both: "((\<exists>e. res = Some (ApiLifecycle e)) \<longleftrightarrow> (\<exists>ds. Registry_Withdraw c (the_registry c s) (sv_disStore s) wd = Inr ds) \<and>
      (\<exists>o'. status (sv_disStore s) (wd_Dispute wd) = Live o' \<and> leaf_taken c s (resolved_transition c w s wd (op_Exchange o')))) \<and>
      (\<not> (\<exists>e. res = Some (ApiLifecycle e)) \<longrightarrow> life_inv c s')"
  proof (cases "Registry_Withdraw c (the_registry c s) (sv_disStore s) wd")
    case (Inl e)
    then show ?thesis using o I by (auto simp: withdraw_locked_def)
  next
    case (Inr ds)
    obtain o' where L: "status (sv_disStore s) (wd_Dispute wd) = Live o'" "dispute_do c (the_registry c s) (sv_disStore s) (CallWithdraw wd) = Inr ds"
      and wl: "withdraw_locked c w s wd = (case Lifecycle_Append c (sv_lifeLog s) (resolved_transition c w s wd (op_Exchange o')) of
         Inl e \<Rightarrow> (Some (ApiLifecycle e), s\<lparr>sv_disStore := ds\<rparr>) | Inr (seq, ll) \<Rightarrow> (None, s\<lparr>sv_disStore := ds, sv_lifeLog := ll\<rparr>))"
      by (rule withdraw_locked_cases [OF di Inr])
    let ?t = "resolved_transition c w s wd (op_Exchange o')"
    have x: "op_Exchange o' \<noteq> 0" using I L(1) unfolding life_inv_def by (metis status_opening.simps(1))
    have t: "t_Log ?t = sv_lifeID s" "t_Exchange ?t \<noteq> 0" "t_Kind ?t = KindResolved" "t_Claim ?t = wd_Dispute wd"
      using x by (simp_all add: resolved_transition_def)
    have k: "t_Kind ?t = KindFiled \<and> status (sv_disStore s) (t_Claim ?t) = Unknown \<or> t_Kind ?t = KindResolved \<and> (\<exists>o'. status (sv_disStore s) (t_Claim ?t) = Live o')"
      using t L by simp
    have "(\<exists>e. res = Some (ApiLifecycle e)) \<longleftrightarrow> (\<exists>e. Lifecycle_Append c (sv_lifeLog s) ?t = Inl e)"
      using o wl by (auto split: sum.splits)
    also have "\<dots> \<longleftrightarrow> Transition_ID c ?t \<in> Transition_ID c ` set (sv_lifeStore s)"
      using life_append(1) [OF I t(1,2) k] live_claim [OF I L(1)] by (simp add: t(4))
    also have "\<dots> \<longleftrightarrow> leaf_taken c s ?t" by (rule leaf_taken_iff [OF I]) (use t L in \<open>simp add: kind_defs\<close>)
    finally have iff: "(\<exists>e. res = Some (ApiLifecycle e)) \<longleftrightarrow> leaf_taken c s ?t" .
    moreover have "life_inv c s'" if ne: "\<not> (\<exists>e. res = Some (ApiLifecycle e))"
    proof -
      obtain seq ll where r: "Lifecycle_Append c (sv_lifeLog s) ?t = Inr (seq, ll)" "s' = s\<lparr>sv_disStore := ds, sv_lifeLog := ll\<rparr>"
      proof (cases "Lifecycle_Append c (sv_lifeLog s) ?t")
        case (Inr r)
        then show ?thesis using o wl that by (cases r) simp
      qed (use o wl ne in auto)
      note a = life_append(2) [OF I t(1,2) k r(1)]
      show ?thesis
        using a t L by (intro life_inv_commit [OF I, of "the_registry c s" "CallWithdraw wd" s' ?t]) (auto simp: r(2))
    qed
    ultimately show ?thesis using Inr L(1) by simp
  qed
  show "(\<exists>e. res = Some (ApiLifecycle e)) \<longleftrightarrow> (\<exists>ds. Registry_Withdraw c (the_registry c s) (sv_disStore s) wd = Inr ds) \<and>
      (\<exists>o'. status (sv_disStore s) (wd_Dispute wd) = Live o' \<and> leaf_taken c s (resolved_transition c w s wd (op_Exchange o')))"
    and "\<not> (\<exists>e. res = Some (ApiLifecycle e)) \<Longrightarrow> life_inv c s'"
    using both by blast+
qed

lemma life_inv_other:
  "life_inv c s \<Longrightarrow> sv_lifeLog s' = sv_lifeLog s \<Longrightarrow> sv_lifeID s' = sv_lifeID s \<Longrightarrow> sv_disStore s' = sv_disStore s \<Longrightarrow> life_inv c s'"
  by (simp add: life_inv_def sv_lifeStore_def)

text \<open>A refused request is one whose locked section was refused, on the case it is about.\<close>

definition refused_in :: "crypto \<Rightarrow> server \<Rightarrow> wire \<times> api_request \<Rightarrow> bool" where
  "refused_in c s wr \<longleftrightarrow> (case snd wr of
      ReqOpen b \<Rightarrow> (\<exists>req o' e. b = Some req \<and> decodeHex32 (oq_Exchange req) = Some (op_Exchange o') \<and> decodeKey (oq_Complainant req) = Some (op_Complainant o') \<and>
        open_locked c (fst wr) s o' = (Inl (ApiLifecycle e), api_apply c s wr))
    | ReqWithdraw p b \<Rightarrow> (\<exists>wd e. decodeHex32 p = Some (wd_Dispute wd) \<and> withdraw_locked c (fst wr) s wd = (Some (ApiLifecycle e), api_apply c s wr))
    | _ \<Rightarrow> False)"

lemma api_apply_life:
  assumes I: "life_inv c s"
  shows "\<not> lifecycle_refused c s wr \<Longrightarrow> life_inv c (api_apply c s wr)"
    and "lifecycle_refused c s wr \<Longrightarrow> refused_in c s wr"
proof -
  obtain w r where wr: "wr = (w, r)" by fastforce
  have "(\<not> lifecycle_refused c s wr \<longrightarrow> life_inv c (api_apply c s wr)) \<and> (lifecycle_refused c s wr \<longrightarrow> refused_in c s wr)"
  proof (cases "(\<exists>b. r = ReqOpen b) \<or> (\<exists>p b. r = ReqWithdraw p b)")
    case True
    then consider (o) b where "r = ReqOpen b" | (w) p b where "r = ReqWithdraw p b" by blast
    then show ?thesis
    proof cases
      case o
      obtain rp s' where h: "handleOpenDispute c w s b = (rp, s')" by fastforce
      then show ?thesis
      proof (cases rule: handleOpenDispute_locked)
        case same
        then show ?thesis using I h o wr by simp
      next
        case (ran o' res req)
        have "api_apply c s wr = s'" using h by (simp add: o wr)
        then show ?thesis using open_locked_life(2) [OF I ran(1)] ran h unfolding o wr refused_in_def by auto
      qed
    next
      case w
      obtain rp s' where h: "handleWithdrawDispute c w s p b = (rp, s')" by fastforce
      then show ?thesis
      proof (cases rule: handleWithdrawDispute_locked)
        case same
        then show ?thesis using I h w wr by simp
      next
        case (ran wd res)
        have "api_apply c s wr = s'" using h by (simp add: w wr)
        then show ?thesis using withdraw_locked_life(2) [OF I ran(1)] ran h unfolding w wr refused_in_def by auto
      qed
    qed
  next
    case False
    have "sv_lifeLog (api_apply c s wr) = sv_lifeLog s \<and> sv_disStore (api_apply c s wr) = sv_disStore s"
      using api_apply_effect [of c s wr] False wr
    proof cases
      case (eff_drop e seq w b)
      show ?thesis using arg_cong [OF appendEntry_frame [OF eff_drop(4)], of sv_lifeLog] arg_cong [OF appendEntry_frame [OF eff_drop(4)], of sv_disStore] by simp
    qed (auto simp: with_narrative_def Let_def)
    moreover have "sv_lifeID (api_apply c s wr) = sv_lifeID s" by (rule fixedD(5)) (rule api_effect_fixed [OF api_apply_effect])
    ultimately have "life_inv c (api_apply c s wr)" using life_inv_other [OF I] by blast
    moreover have "\<not> lifecycle_refused c s wr" using False wr by (cases r) auto
    ultimately show ?thesis by blast
  qed
  then show "\<not> lifecycle_refused c s wr \<Longrightarrow> life_inv c (api_apply c s wr)" and "lifecycle_refused c s wr \<Longrightarrow> refused_in c s wr"
    by blast+
qed

lemma life_inv_start: "NewServer c p ok sk ak = Inr s \<Longrightarrow> life_inv c s"
  using NewServer_start [of c p ok sk ak s]
  by (simp add: life_inv_def sv_lifeStore_def dispute_inv_New fresh_stores life_admissible_def kinds_of_def)
     (simp add: lifecycle_of_store_def kinds_of_def)

lemma life_inv_run:
  assumes "NewServer c p ok sk ak = Inr s0"
  shows "\<forall>k < length reqs. \<not> lifecycle_refused c (api_run c s0 (take k reqs)) (reqs ! k) \<Longrightarrow> life_inv c (api_run c s0 reqs)"
proof (induction reqs rule: rev_induct)
  case (snoc r reqs)
  have "\<forall>k < length reqs. \<not> lifecycle_refused c (api_run c s0 (take k reqs)) (reqs ! k)"
    using snoc.prems by (auto simp: nth_append less_Suc_eq)
  then have "life_inv c (api_run c s0 reqs)" by (rule snoc.IH)
  moreover have "\<not> lifecycle_refused c (api_run c s0 reqs) r" using snoc.prems by (auto dest: spec [of _ "length reqs"])
  ultimately show ?case unfolding api_run_snoc by (rule api_apply_life(1))
qed (use life_inv_start [OF assms] in simp)

text \<open>C30: the lifecycle log refines the registry. As long as no request was answered with an error of the lifecycle log, the state of
  every claim in the lifecycle log is exactly that of its case: unknown for no case, filed for an open one, resolved for a
withdrawn one, and no case is ever ruled in this process. Committing fails only by an accident of the digests: the locked section of an
  opening reports a lifecycle error exactly when the registry admitted the opening and its identifier is zero or a different stored transition
  has the leaf of its filing; that of a withdrawal exactly when the registry admitted it and a different stored transition has the leaf of
  its resolution; and a request answered with such an error is one whose own locked section reported it.\<close>

theorem lifecycle_refines_registry:
  assumes "NewServer c p ok sk ak = Inr s0"
    and "\<forall>k < length reqs. \<not> lifecycle_refused c (api_run c s0 (take k reqs)) (reqs ! k)"
  shows "let s = api_run c s0 reqs in
    (\<forall>d. case Registry_Case (sv_disStore s) d of
        Inl e \<Rightarrow> Lifecycle_State (sv_lifeLog s) d = None
      | Inr ca \<Rightarrow> ca_state ca = StateOpen \<and> Lifecycle_State (sv_lifeLog s) d = Some KindFiled \<or>
                  ca_state ca = StateWithdrawn \<and> Lifecycle_State (sv_lifeLog s) d = Some KindResolved) \<and>
    (\<forall>w o'. (\<exists>e. fst (open_locked c w s o') = Inl (ApiLifecycle e)) \<longleftrightarrow>
       (\<exists>r. Registry_Open c (the_registry c s) (sv_disStore s) o' = Inr r) \<and> (Opening_ID c o' = 0 \<or> leaf_taken c s (filed_transition c w s o'))) \<and>
    (\<forall>w wd. (\<exists>e. fst (withdraw_locked c w s wd) = Some (ApiLifecycle e)) \<longleftrightarrow>
       (\<exists>ds. Registry_Withdraw c (the_registry c s) (sv_disStore s) wd = Inr ds) \<and>
       (\<exists>o'. status (sv_disStore s) (wd_Dispute wd) = Live o' \<and> leaf_taken c s (resolved_transition c w s wd (op_Exchange o')))) \<and>
    (\<forall>wr. lifecycle_refused c s wr \<longrightarrow> refused_in c s wr)"
proof -
  let ?s = "api_run c s0 reqs"
  have I: "life_inv c ?s" by (rule life_inv_run [OF assms])
  then have di: "dispute_inv (sv_disStore ?s)" and log: "sv_lifeLog ?s = lifecycle_of_store c (sv_lifeID ?s) (sv_lifeStore ?s)"
    and kinds: "\<And>d. kinds_of (sv_lifeStore ?s) d = kinds_for (status (sv_disStore ?s) d)"
    and nr: "\<And>d o' ru. status (sv_disStore ?s) d \<noteq> Ruled o' ru" by (simp_all add: life_inv_def)
  have state: "Lifecycle_State (sv_lifeLog ?s) d = (if kinds_for (status (sv_disStore ?s) d) = [] then None else Some (last (kinds_for (status (sv_disStore ?s) d))))" for d
    unfolding Lifecycle_State_def log by (simp add: lifecycle_of_store_def kinds)
  have "case Registry_Case (sv_disStore ?s) d of
        Inl e \<Rightarrow> Lifecycle_State (sv_lifeLog ?s) d = None
      | Inr ca \<Rightarrow> ca_state ca = StateOpen \<and> Lifecycle_State (sv_lifeLog ?s) d = Some KindFiled \<or>
                  ca_state ca = StateWithdrawn \<and> Lifecycle_State (sv_lifeLog ?s) d = Some KindResolved" for d
    unfolding state Registry_Case_status [OF dispute_invD(1) [OF di, of d]]
    using nr [of d] dispute_invD(1) [OF di, of d] by (cases "status (sv_disStore ?s) d") auto
  moreover have "(\<exists>e. fst (open_locked c w ?s o') = Inl (ApiLifecycle e)) \<longleftrightarrow>
       (\<exists>r. Registry_Open c (the_registry c ?s) (sv_disStore ?s) o' = Inr r) \<and> (Opening_ID c o' = 0 \<or> leaf_taken c ?s (filed_transition c w ?s o'))" for w o'
    by (rule open_locked_life(1) [OF I, of w o' _ "snd (open_locked c w ?s o')"]) simp
  moreover have "(\<exists>e. fst (withdraw_locked c w ?s wd) = Some (ApiLifecycle e)) \<longleftrightarrow>
       (\<exists>ds. Registry_Withdraw c (the_registry c ?s) (sv_disStore ?s) wd = Inr ds) \<and>
       (\<exists>o'. status (sv_disStore ?s) (wd_Dispute wd) = Live o' \<and> leaf_taken c ?s (resolved_transition c w ?s wd (op_Exchange o')))" for w wd
    by (rule withdraw_locked_life(1) [OF I, of w wd _ "snd (withdraw_locked c w ?s wd)"]) simp
  ultimately show ?thesis unfolding Let_def by (intro conjI allI impI api_apply_life(2) [OF I])
qed

end
