(* ===== verification/Api_Sample.thy ===== *)
theory Api_Sample
  imports Api_Lifecycle Dispute_Cases
begin

text \<open>
  A concrete run of the server for the witnesses: two members register, seal a dialog, one of them disputes it and withdraws.
\<close>

section \<open>Wire forms are read back\<close>

text \<open>The requests a client sends for an artifact, and what the handlers make of them.\<close>

definition register_req :: "bytes \<Rightarrow> bytes \<Rightarrow> register_request" where
  "register_req pub sig = \<lparr>rr_PublicKey = hx pub, rr_Signature = hx sig\<rparr>"

definition drop_req :: "string \<Rightarrow> entry \<Rightarrow> drop_request" where
  "drop_req at e = \<lparr>dr_Log = hx (b32_bytes (e_Log e)), dr_Proposer = hx (e_Proposer e), dr_Acceptor = hx (e_Acceptor e),
     dr_Content = hx (b32_bytes (e_Content e)), dr_Corrects = (if e_Corrects e = 0 then '''' else hx (b32_bytes (e_Corrects e))),
     dr_Nonce = hx (b32_bytes (e_Nonce e)), dr_SealedAt = at, dr_ProposerSeal = hx (e_ProposerSeal e), dr_AcceptorSeal = hx (e_AcceptorSeal e)\<rparr>"

definition open_req :: "string \<Rightarrow> dispute_opening \<Rightarrow> string \<Rightarrow> filing_commitment \<Rightarrow> open_dispute_request" where
  "open_req at o' fat f = \<lparr>oq_Complainant = hx (op_Complainant o'), oq_Respondent = hx (op_Respondent o'), oq_Exchange = hx (b32_bytes (op_Exchange o')),
     oq_ReasonHash = hx (b32_bytes (op_ReasonHash o')), oq_Nonce = hx (b32_bytes (op_Nonce o')), oq_OpenedAt = at, oq_Signature = hx (op_Signature o'),
     oq_TypeHash = hx (b32_bytes (fc_TypeHash f)), oq_FiledAt = fat, oq_FilingSignature = hx (fc_Signature f)\<rparr>"

definition withdraw_req :: "string \<Rightarrow> withdrawal \<Rightarrow> withdraw_request" where
  "withdraw_req at wd = \<lparr>wq_WithdrawnAt = at, wq_Signature = hx (wd_Signature wd)\<rparr>"

lemma hx_nonempty: "hx (b32_bytes h) \<noteq> ''''"
  using length_hex [of "b32_bytes h"] by (auto simp: hx_def)

lemma need_Some [simp]: "need (Some v) msg s k = k v"
  by (simp add: need_def)

lemma handleRegister_wire:
  assumes "keypair c priv"
  shows "snd (handleRegister c s (Some (register_req (ed_public c priv) (ed_sign c priv (registerChallenge c s (ed_public c priv)))))) =
    s\<lparr>sv_byMember := (sv_byMember s)(MemberIDFor c (sv_platform s) (ed_public c priv) \<mapsto> ed_public c priv),
      sv_byAccount := (sv_byAccount s)(AccountIDFor c (sv_platform s) (ed_public c priv) \<mapsto> ed_public c priv)\<rparr>"
  using assms sig_ok_keypair [OF assms] by (simp add: handleRegister_def register_req_def keypair_def Let_def)

lemma handleAppendDrop_wire:
  assumes "Entry_Verify c e" "e_Log e = sv_logID s" "parse_time w at = Some (e_SealedAt e)"
    "registered c s (e_Proposer e)" "registered c s (e_Acceptor e)" "appendEntry c s e = Inr (seq, s')"
  shows "snd (handleAppendDrop c w s (Some (drop_req at e))) = s'"
proof -
  have len: "length (e_Proposer e) = PublicKeySize" "length (e_Acceptor e) = PublicKeySize"
    "length (e_ProposerSeal e) = SignatureSize" "length (e_AcceptorSeal e) = SignatureSize"
    using assms(1) by (simp_all add: Entry_Verify_def sig_ok_def ed25519_Verify_def split: if_splits)
  have co: "(if dr_Corrects (drop_req at e) \<noteq> '''' then decodeHex32 (dr_Corrects (drop_req at e)) else Some 0) = Some (e_Corrects e)"
    using hx_nonempty [of "e_Corrects e"] by (simp add: drop_req_def)
  have e: "\<lparr>e_Log = sv_logID s, e_Proposer = e_Proposer e, e_Acceptor = e_Acceptor e, e_Content = e_Content e, e_Corrects = e_Corrects e,
      e_Nonce = e_Nonce e, e_SealedAt = e_SealedAt e, e_ProposerSeal = e_ProposerSeal e, e_AcceptorSeal = e_AcceptorSeal e\<rparr> = e" using assms(2) by simp
  show ?thesis
    unfolding handleAppendDrop_def need_Some co
    using len assms(2-6) by (simp add: drop_req_def parseUTC_def e Let_def)
qed

lemma handleOpenDispute_wire:
  assumes "length (op_Complainant o') = PublicKeySize" "length (op_Respondent o') = PublicKeySize" "length (op_Signature o') = SignatureSize"
    "parse_time w at = Some (op_OpenedAt o')" "parse_time w fat = Some (fc_At f)" "length (fc_Signature f) = SignatureSize" "op_Platform o' = sv_platform s"
    "fc_Claim f = Opening_ID c o'" "fc_Exchange f = op_Exchange o'" "fc_Filer f = op_Complainant o'"
    "FilingIntake_Accept c (sv_intake s) f (wire_now w) = Inr receipt" "open_locked c w s o' = (Inr i, s')"
  shows "snd (handleOpenDispute c w s (Some (open_req at o' fat f))) = s' \<and> \<not> lifecycle_refusal (fst (handleOpenDispute c w s (Some (open_req at o' fat f))))"
proof -
  have o: "\<lparr>op_Platform = sv_platform s, op_Complainant = op_Complainant o', op_Respondent = op_Respondent o', op_Exchange = op_Exchange o',
      op_ReasonHash = op_ReasonHash o', op_Nonce = op_Nonce o', op_OpenedAt = op_OpenedAt o', op_Signature = op_Signature o'\<rparr> = o'"
    using assms(7) by simp
  have f: "\<lparr>fc_Claim = Opening_ID c o', fc_Exchange = op_Exchange o', fc_TypeHash = fc_TypeHash f, fc_At = fc_At f, fc_Filer = op_Complainant o', fc_Signature = fc_Signature f\<rparr> = f"
    using assms(8-10) by simp
  show ?thesis
    using assms by (simp add: handleOpenDispute_def open_req_def parseUTC_def Let_def o f lifecycle_refusal_def)
qed

lemma handleWithdrawDispute_wire:
  assumes "parse_time w at = Some (wd_WithdrawnAt wd)" "length (wd_Signature wd) = SignatureSize" "wd_Platform wd = sv_platform s"
    "withdraw_locked c w s wd = (None, s')"
  shows "snd (handleWithdrawDispute c w s (hx (b32_bytes (wd_Dispute wd))) (Some (withdraw_req at wd))) = s' \<and>
    \<not> lifecycle_refusal (fst (handleWithdrawDispute c w s (hx (b32_bytes (wd_Dispute wd))) (Some (withdraw_req at wd))))"
proof -
  have wd: "\<lparr>wd_Platform = sv_platform s, wd_Dispute = wd_Dispute wd, wd_WithdrawnAt = wd_WithdrawnAt wd, wd_Signature = wd_Signature wd\<rparr> = wd"
    using assms(3) by simp
  show ?thesis using assms by (simp add: handleWithdrawDispute_def withdraw_req_def parseUTC_def lifecycle_refusal_def wd)
qed

section \<open>The run\<close>

definition sample_server :: server where
  "sample_server = projr (NewServer sample_crypto ''p'' (Some (sample_priv 9)) (Some (sample_priv 8)) (Some (sample_priv 7)))"

lemma sample_server_new: "NewServer sample_crypto ''p'' (Some (sample_priv 9)) (Some (sample_priv 8)) (Some (sample_priv 7)) = Inr sample_server"
  and sample_server_sel: "sv_platform sample_server = ''p''" "sv_logID sample_server = LogID sample_crypto (replicate 32 9)"
    "sv_opLog sample_server = log_of_store sample_crypto (LogID sample_crypto (replicate 32 9)) []"
    "sv_intake sample_server = NewFilingIntake sample_crypto (sample_priv 9)" "sv_index sample_server = Map.empty"
proof -
  let ?k = "replicate 32 9 :: bytes"
  have o: "OpenLog sample_crypto ?k (Some EntryStore_New) = Inr (log_of_store sample_crypto (LogID sample_crypto ?k) [])"
    using OpenLog_iff [of "[]" sample_crypto ?k] by (simp add: EntryStore_New_def PublicKeySize_def admissible_def)
  obtain ll where l: "OpenLifecycleLog sample_crypto ?k (Some NewMemTransitionStore) = Inr ll"
    using OpenLifecycleLog_iff [of "[]" sample_crypto ?k] by (simp add: NewMemTransitionStore_def PublicKeySize_def life_admissible_def)
  obtain tr where t: "NewTree ''p'' = Inr tr" by (simp add: NewTree_def)
  obtain ct where ct: "NewCatalog ''p'' = Inr ct" by (simp add: NewCatalog_def)
  obtain ld where ld: "Open sample_crypto \<lparr>gen_Platform = ''p'', gen_Stewards = [replicate 32 8], gen_Threshold = 1, gen_Policy = \<lparr>pol_Mode = ModeEscrow, pol_DebitCap = 0\<rparr>\<rparr>
         (Some Map.empty) (Some NewMemStore) = Inr ld"
    by (simp add: Open_def Genesis_validate_def Policy_validate_def validMode_def MaxInt64_def NewMemStore_def MemStore_All_def)
  obtain bk where bk: "NewBook ''p'' [] (Some (\<lambda>m. None)) (Some (\<lambda>x a b. False, \<lambda>x a b. False)) (Some CovStore_New) = Inr bk"
    by (simp add: NewBook_def lbtasDefaultCategories_def)
  obtain rg where rg: "NewRegistry \<lparr>ch_Platform = ''p'', ch_Adjudicators = [replicate 32 7], ch_Threshold = 1\<rparr> (Some (\<lambda>x a b. False)) (Some DisputeStore_New) = Inr rg"
    by (simp add: NewRegistry_def bad_adjudicator_def PublicKeySize_def)
  show new: "NewServer sample_crypto ''p'' (Some (sample_priv 9)) (Some (sample_priv 8)) (Some (sample_priv 7)) = Inr sample_server"
    and "sv_platform sample_server = ''p''" "sv_logID sample_server = LogID sample_crypto (replicate 32 9)"
    "sv_opLog sample_server = log_of_store sample_crypto (LogID sample_crypto (replicate 32 9)) []"
    "sv_intake sample_server = NewFilingIntake sample_crypto (sample_priv 9)" "sv_index sample_server = Map.empty"
    by (simp_all add: sample_server_def NewServer_def lift_err_def o l t ct ld bk rg Let_def)
qed

definition sample_wire :: wire where
  "sample_wire = \<lparr>parse_time = (\<lambda>t. Some 0), format_time = (\<lambda>t. ''''), wire_now = 0\<rparr>"

definition sample_case_draft :: dispute_opening where
  "sample_case_draft = (sample_opening_draft 1 2 0)\<lparr>op_Exchange := 6516\<rparr>"

definition sample_case :: dispute_opening where
  "sample_case = sample_case_draft\<lparr>op_Signature := ed_sign sample_crypto (sample_priv 1) (Opening_CanonicalBytes sample_crypto sample_case_draft)\<rparr>"

definition sample_filing_draft :: filing_commitment where
  "sample_filing_draft = \<lparr>fc_Claim = Opening_ID sample_crypto sample_case, fc_Exchange = 6516, fc_TypeHash = 1, fc_At = 0, fc_Filer = replicate 32 1, fc_Signature = []\<rparr>"

definition sample_filing :: filing_commitment where
  "sample_filing = sample_filing_draft\<lparr>fc_Signature := ed_sign sample_crypto (sample_priv 1) (FilingCommitment_CanonicalBytes sample_crypto sample_filing_draft)\<rparr>"

lemma sample_members: "MemberIDFor sample_crypto ''p'' (replicate 32 1) \<noteq> MemberIDFor sample_crypto ''p'' (replicate 32 2)"
proof -
  have "sample_sha (sample_canon domainMember [CString ''p'', CBytes (replicate 32 1)]) \<noteq> sample_sha (sample_canon domainMember [CString ''p'', CBytes (replicate 32 2)])"
    by (simp add: sample_eval)
  then show ?thesis unfolding MemberIDFor_def sample_sha_of sample_canon_of
    by (metis hex_roundtrip b32_of_bytes_b32_bytes option.inject)
qed

definition sample_register :: "byte \<Rightarrow> wire \<times> api_request" where
  "sample_register b = (sample_wire, ReqRegister (Some (register_req (replicate 32 b)
     (ed_sign sample_crypto (sample_priv b) (registerChallenge sample_crypto sample_server (replicate 32 b))))))"

definition sample_reqs :: "(wire \<times> api_request) list" where
  "sample_reqs = [sample_register 1, sample_register 2, (sample_wire, ReqDrop (Some (drop_req '''' (sample_entry 1))))]"

lemma sample_run:
  obtains s where "api_run sample_crypto sample_server sample_reqs = s" "sv_platform s = ''p''" "sv_recStore s = [sample_entry 1]"
    "sv_logID s = LogID sample_crypto (replicate 32 9)" "sv_index s = [6516 \<mapsto> 0]" "sv_intake s = sv_intake sample_server" "sv_lifeStore s = []"
    "sv_disStore s = DisputeStore_New" "rg_charter (sv_registry s) = rg_charter (sv_registry sample_server)"
    "registered sample_crypto s (replicate 32 1)" "registered sample_crypto s (replicate 32 2)"
proof -
  let ?c = sample_crypto
  let ?reg = "\<lambda>s b. s\<lparr>sv_byMember := (sv_byMember s)(MemberIDFor ?c (sv_platform s) (replicate 32 b) \<mapsto> replicate 32 b),
      sv_byAccount := (sv_byAccount s)(AccountIDFor ?c (sv_platform s) (replicate 32 b) \<mapsto> replicate 32 b)\<rparr>"
  have reg: "api_apply ?c s (sample_register b) = ?reg s b" if "sv_platform s = ''p''" for s b
    using handleRegister_wire [OF sample_keypair, of s b] that
    by (simp add: sample_register_def sample_server_sel registerChallenge_def)
  let ?s2 = "?reg (?reg sample_server 1) 2"
  let ?s3 = "?s2\<lparr>sv_opLog := log_of_store ?c (LogID ?c (replicate 32 9)) [sample_entry 1], sv_index := (sv_index ?s2)(Entry_ID ?c (sample_entry 1) \<mapsto> 0)\<rparr>"
  have ap: "appendEntry ?c ?s2 (sample_entry 1) = Inr (0, ?s3)"
    using Log_Append_iff [of ?c "LogID ?c (replicate 32 9)" "[]" "sample_entry 1" 0 "log_of_store ?c (LogID ?c (replicate 32 9)) [sample_entry 1]"]
      sample_admissible [of 1]
    by (simp add: appendEntry_def sample_server_sel)
  have rd: "registered ?c ?s2 (replicate 32 1)" "registered ?c ?s2 (replicate 32 2)"
    using sample_members by (simp_all add: registered_def sample_server_sel)
  have "api_apply ?c ?s2 (sample_wire, ReqDrop (Some (drop_req '''' (sample_entry 1)))) = ?s3"
    using handleAppendDrop_wire [OF sample_entry_verifies _ _ _ _ ap, of sample_wire "''''"] rd
    by (simp add: sample_server_sel sample_wire_def sample_entry_def [of 1] sample_draft_def)
  then have run: "api_run ?c sample_server sample_reqs = ?s3"
    by (simp add: api_run_def sample_reqs_def reg sample_server_sel)
  have "sv_index sample_server = Map.empty" by (rule sample_server_sel)
  then show ?thesis
    using rd NewServer_start(5,10) [OF sample_server_new]
    by (intro that [OF run]) (simp_all add: sample_server_sel sv_recStore_def sv_lifeStore_def lifecycle_of_store_def sample_ids registered_def)
qed

lemma sample_case_sel [simp]:
  "op_Platform sample_case = ''p''" "op_Complainant sample_case = replicate 32 1" "op_Respondent sample_case = replicate 32 2"
  "op_Exchange sample_case = 6516" "op_OpenedAt sample_case = 0"
  by (simp_all add: sample_case_def sample_case_draft_def sample_opening_draft_def)

lemma sample_case_verifies: "Opening_Verify sample_crypto sample_case" "length (op_Signature sample_case) = SignatureSize"
proof -
  have "Opening_CanonicalBytes sample_crypto sample_case = Opening_CanonicalBytes sample_crypto sample_case_draft"
    by (simp add: Opening_CanonicalBytes_def sample_case_def)
  then show "Opening_Verify sample_crypto sample_case" "length (op_Signature sample_case) = SignatureSize"
    using sig_ok_keypair [OF sample_keypair, of 1] keypair_verify(2) [OF sample_keypair, of 1]
    by (simp_all add: Opening_Verify_def PublicKeySize_def SignatureSize_def) (simp_all add: sample_case_def)
qed

lemma sample_case_id: "Opening_ID sample_crypto sample_case \<noteq> 0"
proof -
  let ?bs = "Opening_CanonicalBytes sample_crypto sample_case"
  have "length ?bs < 1000" by (simp add: Opening_CanonicalBytes_def sample_case_def sample_case_draft_def sample_opening_draft_def sample_eval domainOpening_def)
  moreover have "length (op_Signature sample_case) = 64" using sample_case_verifies(2) by (simp add: SignatureSize_def)
  ultimately show ?thesis unfolding Opening_ID_def sample_sha_of sample_canon_of
    by (intro sample_sha_nonzero [where x = 2]) (simp_all add: sample_eval domainID_def)
qed

lemma sample_filing_accepted: "\<exists>r. FilingIntake_Accept sample_crypto (sv_intake sample_server) sample_filing at = Inr r"
proof -
  have "FilingCommitment_CanonicalBytes sample_crypto sample_filing = FilingCommitment_CanonicalBytes sample_crypto sample_filing_draft"
    by (simp add: FilingCommitment_CanonicalBytes_def sample_filing_def)
  then have "FilingCommitment_Verify sample_crypto sample_filing"
    using sig_ok_keypair [OF sample_keypair, of 1] keypair_verify(2) [OF sample_keypair, of 1] sample_case_id
    by (simp add: FilingCommitment_Verify_def PublicKeySize_def SignatureSize_def zeroHash_def)
       (simp add: sample_filing_def sample_filing_draft_def)
  then show ?thesis
    by (simp add: FilingIntake_Accept_def sample_server_sel NewFilingIntake_def Let_def)
       (simp add: sample_filing_def sample_filing_draft_def sample_priv_def PrivateKeySize_def)
qed

lemma sample_opens:
  assumes "api_run sample_crypto sample_server sample_reqs = s"
  obtains s' where "open_locked sample_crypto sample_wire s sample_case = (Inr (Opening_ID sample_crypto sample_case), s')"
    "\<And>d. status (sv_disStore s') d = (if d = Opening_ID sample_crypto sample_case then Live sample_case else Unknown)"
proof -
  obtain t where run: "api_run sample_crypto sample_server sample_reqs = t" "sv_platform t = ''p''" "sv_recStore t = [sample_entry 1]"
    "sv_logID t = LogID sample_crypto (replicate 32 9)" "sv_index t = [6516 \<mapsto> 0]" "sv_disStore t = DisputeStore_New" "sv_lifeStore t = []"
    "rg_charter (sv_registry t) = rg_charter (sv_registry sample_server)" "sv_intake t = sv_intake sample_server" by (rule sample_run)
  have s: "t = s" using run(1) assms by simp
  have li: "life_inv sample_crypto s"
    using life_inv_run [OF sample_server_new, of sample_reqs] assms by (simp add: sample_reqs_def sample_register_def less_Suc_eq nth_Cons')
  have "anchored_entry sample_crypto s 6516 = Some (sample_entry 1)"
    using run by (simp add: s anchored_entry_def EntryStore_At_def sample_ids sample_entry_verifies)
  then have "rg_anchors (the_registry sample_crypto s) 6516 (replicate 32 1) (replicate 32 2)"
    by (simp add: the_registry_def dispAnchors_Sealed_def between_def sample_entry_def)
  then have "Open_checks sample_crypto (the_registry sample_crypto s) sample_case = Inr \<lparr>ad_dispute = Opening_ID sample_crypto sample_case,
      ad_id = Opening_ID sample_crypto sample_case, ad_opening = Some sample_case, ad_ruling = None, ad_withdrawal = None\<rparr>"
    using run(8) sample_case_verifies NewServer_start(9) [OF sample_server_new] by (simp add: s Open_checks_Inr the_registry_def)
  moreover obtain ds where ds: "DisputeStore_Append DisputeStore_New \<lparr>ad_dispute = Opening_ID sample_crypto sample_case, ad_id = Opening_ID sample_crypto sample_case,
      ad_opening = Some sample_case, ad_ruling = None, ad_withdrawal = None\<rparr> = Inr ds"
    using append_opening_ok [of "Opening_ID sample_crypto sample_case" DisputeStore_New sample_case] sample_case_id by auto
  ultimately have op: "Registry_Open sample_crypto (the_registry sample_crypto s) (sv_disStore s) sample_case = Inr (Opening_ID sample_crypto sample_case, ds)"
    using run(6) by (simp add: s Registry_Open_def)
  have "\<nexists>e. Lifecycle_Append sample_crypto (sv_lifeLog s) (filed_transition sample_crypto sample_wire s sample_case) = Inl e"
    using life_append(1) [OF li, of "filed_transition sample_crypto sample_wire s sample_case"] sample_case_id run(6,7)
    by (simp add: s filed_transition_def)
  then obtain seq ll where "Lifecycle_Append sample_crypto (sv_lifeLog s) (filed_transition sample_crypto sample_wire s sample_case) = Inr (seq, ll)"
    by (cases "Lifecycle_Append sample_crypto (sv_lifeLog s) (filed_transition sample_crypto sample_wire s sample_case)") auto
  then obtain s' where "open_locked sample_crypto sample_wire s sample_case = (Inr (Opening_ID sample_crypto sample_case), s')" "sv_disStore s' = ds"
    using op by (simp add: open_locked_cases)
  then show ?thesis using fun_cong [OF append_opening(5) [OF dispute_inv_New ds]] by (intro that [of s']) simp_all
qed

definition sample_open_req :: "wire \<times> api_request" where
  "sample_open_req = (sample_wire, ReqOpen (Some (open_req '''' sample_case '''' sample_filing)))"

lemma sample_open_effect:
  assumes "api_run sample_crypto sample_server sample_reqs = s"
    and "open_locked sample_crypto sample_wire s sample_case = (Inr i, s')"
  shows "api_apply sample_crypto s sample_open_req = s'" "\<not> lifecycle_refused sample_crypto s sample_open_req"
proof -
  have sv: "sv_platform s = ''p''" "sv_intake s = sv_intake sample_server" using sample_run assms(1) by metis+
  obtain rc where rc: "FilingIntake_Accept sample_crypto (sv_intake sample_server) sample_filing (wire_now sample_wire) = Inr rc"
    using sample_filing_accepted by blast
  have f: "fc_Claim sample_filing = Opening_ID sample_crypto sample_case" "fc_Exchange sample_filing = op_Exchange sample_case"
    "fc_Filer sample_filing = op_Complainant sample_case" "fc_At sample_filing = 0" "length (fc_Signature sample_filing) = SignatureSize"
    using keypair_verify(2) [OF sample_keypair, of 1] by (simp_all add: sample_filing_def sample_filing_draft_def SignatureSize_def)
  show "api_apply sample_crypto s sample_open_req = s'" "\<not> lifecycle_refused sample_crypto s sample_open_req"
    using handleOpenDispute_wire [OF _ _ sample_case_verifies(2) _ _ f(5) _ f(1-3) _ assms(2), of "''''" "''''" rc] rc sv f(4)
    by (simp_all add: sample_open_req_def sample_wire_def PublicKeySize_def)
qed

theorem server_anchors_exact_witness:
  "let s = api_run sample_crypto sample_server sample_reqs in
   NewServer sample_crypto ''p'' (Some (sample_priv 9)) (Some (sample_priv 8)) (Some (sample_priv 7)) = Inr sample_server \<and>
   length (sv_recStore s) = 1 \<and> dispAnchors_Sealed sample_crypto s 6516 (replicate 32 1) (replicate 32 2) \<and>
   \<not> dispAnchors_Sealed sample_crypto s 6516 (replicate 32 1) (replicate 32 3)"
proof -
  let ?s = "api_run sample_crypto sample_server sample_reqs"
  have st: "sv_recStore ?s = [sample_entry 1]" using sample_run by metis
  then have "dispAnchors_Sealed sample_crypto ?s x a b \<longleftrightarrow> Entry_ID sample_crypto (sample_entry 1) = x \<and> between (sample_entry 1) a b" for x a b
    using server_anchors_exact [OF sample_server_new, of sample_reqs] by (simp add: Let_def)
  then show ?thesis
    using st sample_server_new by (simp add: sample_ids between_def Let_def) (simp add: sample_entry_def)
qed

theorem lifecycle_refines_registry_witness:
  "let reqs = sample_reqs @ [sample_open_req]; s = api_run sample_crypto sample_server reqs in
   NewServer sample_crypto ''p'' (Some (sample_priv 9)) (Some (sample_priv 8)) (Some (sample_priv 7)) = Inr sample_server \<and>
   (\<nexists>k. k < length reqs \<and> lifecycle_refused sample_crypto (api_run sample_crypto sample_server (take k reqs)) (reqs ! k)) \<and>
   (\<forall>d. Lifecycle_State (sv_lifeLog s) d = (if d = Opening_ID sample_crypto sample_case then Some KindFiled else None))"
proof -
  let ?c = sample_crypto and ?reqs = "sample_reqs @ [sample_open_req]"
  let ?s = "api_run ?c sample_server sample_reqs"
  obtain s' where o: "open_locked ?c sample_wire ?s sample_case = (Inr (Opening_ID ?c sample_case), s')"
    and st: "\<And>d. status (sv_disStore s') d = (if d = Opening_ID ?c sample_case then Live sample_case else Unknown)"
    by (rule sample_opens [OF refl]) (rule that)
  have run: "api_run ?c sample_server ?reqs = s'" using sample_open_effect(1) [OF refl o] by (simp add: api_run_snoc)
  have nr: "\<forall>k < length ?reqs. \<not> lifecycle_refused ?c (api_run ?c sample_server (take k ?reqs)) (?reqs ! k)"
    using sample_open_effect(2) [OF refl o] by (simp add: less_Suc_eq nth_append sample_register_def) (simp add: sample_reqs_def sample_register_def nth_Cons')
  have "Lifecycle_State (sv_lifeLog s') d = (if d = Opening_ID ?c sample_case then Some KindFiled else None)" for d
    using lifecycle_refines_registry [OF sample_server_new nr] Registry_Case_status [of "sv_disStore s'" d] st [of d]
    by (auto simp: run Let_def state_defs dest: spec [of _ d] split: if_splits)
  then show ?thesis using nr run sample_server_new by (simp add: Let_def)
qed

end
