(* ===== verification/Api_Guarantees.thy ===== *)
theory Api_Guarantees
  imports Api_Sample
begin

text \<open>
  What the member-facing server guarantees in every state it reaches: no credit moves while the only policy is the genesis one,
  keys are in the directory under their own identities and with a proof of possession, listings rest on the maker's own product
  specification, and a claim is served with the narrative its signed hashes name.
\<close>

section \<open>The part of the state the dialogs, verdicts and disputes leave alone\<close>

definition sv_commons where
  "sv_commons s = ((sv_platform s, sv_operatorPub s), (sv_byMember s, sv_byAccount s), (sv_ledger s, sv_ecoStore s), (sv_tree s, sv_catalog s), (sv_locker s, sv_manifest s))"

lemma commons_effect:
  assumes "api_effect c s wr s'"
  obtains (same) "sv_commons s' = sv_commons s"
  | (register) pub sig where "length pub = PublicKeySize" "sig_ok c pub (registerChallenge c s pub) sig"
      "s' = s\<lparr>sv_byMember := (sv_byMember s)(MemberIDFor c (sv_platform s) pub \<mapsto> pub),
             sv_byAccount := (sv_byAccount s)(AccountIDFor c (sv_platform s) pub \<mapsto> pub)\<rparr>"
  | (claim) w dto cl i tree where "wr = (w, ReqClaim (Some dto))" "toClaim dto = Some cl" "narrative_matches c dto cl"
      "AddClaim c (sv_tree s) cl = Inr (i, tree)" "s' = with_narrative c (s\<lparr>sv_tree := tree\<rparr>) i dto"
  | (reference) ref i tree where "AddReference c (sv_tree s) ref = Inr (i, tree)" "s' = s\<lparr>sv_tree := tree\<rparr>"
  | (listing) l i ct cl where "AddListing c (sv_catalog s) l = Inr (i, ct)" "Tree_Claim (sv_tree s) (li_Spec l) = Some cl"
      "cl_Kind cl = KindProductSpec" "cl_Claimant cl = li_Maker l" "s' = s\<lparr>sv_catalog := ct\<rparr>"
  | (spend) sp l st err where "Post c 2 (the_ledger s) (sv_ecoStore s) sp = Some (l, st, err)" "s' = s\<lparr>sv_ledger := l, sv_ecoStore := st\<rparr>"
  using assms
proof (cases rule: api_effect.cases)
  case (eff_drop e seq w b)
  show ?thesis using arg_cong [OF appendEntry_frame [OF eff_drop(4)], of sv_commons] by (intro same) (simp add: sv_commons_def)
next
  case (eff_open w o' res b)
  show ?thesis using arg_cong [OF open_locked_frame [OF eff_open(2)], of sv_commons] by (intro same) (simp add: sv_commons_def)
next
  case (eff_withdraw w wd res p b)
  show ?thesis using arg_cong [OF withdraw_locked_frame [OF eff_withdraw(2)], of sv_commons] by (intro same) (simp add: sv_commons_def)
next
  case (eff_assess a st w b)
  then show ?thesis by (intro same) (simp add: sv_commons_def)
next
  case (eff_answer an st w p b)
  then show ?thesis by (intro same) (simp add: sv_commons_def)
next
  case eff_none
  then show ?thesis by (intro same) simp
qed (use register claim reference listing spend in blast)+

lemmas commons_same = sv_commons_def prod.inject

section \<open>Credit\<close>

definition escrow_inv :: "server \<Rightarrow> bool" where
  "escrow_inv s \<longleftrightarrow> pol_Mode (l_pol (sv_ledger s)) = ModeEscrow \<and> l_balances (sv_ledger s) = Map.empty \<and> sv_ecoStore s = []"

lemma Post_escrow:
  assumes "escrow_inv s"
  shows "Post c 2 (the_ledger s) (sv_ecoStore s) sp = Some (the_ledger s, sv_ecoStore s, Some ErrCreditDisabled)"
  using assms by (simp add: escrow_inv_def the_ledger_def admitSpend_def numeral_2_eq_2)

lemma escrow_inv_step:
  assumes "escrow_inv s" and "api_effect c s wr s'"
  shows "escrow_inv s'"
  using assms(2)
proof (cases rule: commons_effect)
  case (spend sp l st err)
  then show ?thesis using Post_escrow [OF assms(1), of c sp] assms(1) by (simp add: escrow_inv_def the_ledger_def)
qed (use assms(1) in \<open>simp_all add: escrow_inv_def commons_same with_narrative_def Let_def\<close>)

lemma escrow_inv_run: "NewServer c p ok sk ak = Inr s0 \<Longrightarrow> escrow_inv (api_run c s0 reqs)"
  by (rule api_run_invariant [where I = escrow_inv]) (simp_all add: escrow_inv_def [of s0] NewServer_start escrow_inv_step)

text \<open>The bodies that decode: JSON with hexadecimal fields of the right lengths, in either case, and a timestamp that parses.\<close>

definition hex_field :: "nat \<Rightarrow> string \<Rightarrow> bool" where
  "hex_field n s \<longleftrightarrow> length s = 2 * n \<and> (\<forall>ch \<in> set s. hex_value ch \<noteq> None)"

definition well_formed_spend :: "wire \<Rightarrow> spend_request option \<Rightarrow> bool" where
  "well_formed_spend w b \<longleftrightarrow> (case b of None \<Rightarrow> False | Some req \<Rightarrow>
     hex_field 32 (sq_From req) \<and> hex_field 32 (sq_To req) \<and> hex_field 32 (sq_ExchangeHash req) \<and> hex_field 64 (sq_Signature req) \<and>
     parse_time w (sq_IssuedAt req) \<noteq> None)"

lemma hex_DecodeString_field: "hex_field n s \<longleftrightarrow> (\<exists>bs. hex_DecodeString s = Some bs \<and> length bs = n)"
proof (induction s arbitrary: n rule: hex_DecodeString.induct)
  case (3 x y rest)
  show ?case
  proof (cases n)
    case (Suc m)
    then show ?thesis using 3 [of _ _ _ _ m] by (cases "hex_value x"; cases "hex_value y") (auto simp: hex_field_def)
  qed (auto simp: hex_field_def split: option.splits)
qed (auto simp: hex_field_def)

lemma decode_fields:
  "decodeHex32 s \<noteq> None \<longleftrightarrow> hex_field 32 s" "decodeSig s \<noteq> None \<longleftrightarrow> hex_field 64 s"
  by (auto simp: decodeHex32_def decodeSig_def hex_DecodeString_field SignatureSize_def split: option.splits)

text \<open>C21: credit never moves on this surface. Whatever requests the server served, its ledger store is empty, every account reads
  balance zero and an empty history, the policy reads escrow, and posting any spend returns with the store still empty: every body that decodes,
  its accounts and exchange as 32 bytes and its signature as 64 bytes of hexadecimal, is answered 409 with the credit-disabled error, whatever
  it says and whoever signed it, and every other one 400.\<close>

theorem server_never_moves_credit:
  assumes "NewServer c p ok sk ak = Inr s0"
  shows "let s = api_run c s0 reqs in
    sv_ecoStore s = [] \<and>
    (\<exists>dc. handleCreditPolicy s = Reply StatusOK \<lparr>pr_Mode = ModeEscrow, pr_DebitCap = dc\<rparr>) \<and>
    (\<forall>w i. handleBalance s (hx (b32_bytes i)) = Reply StatusOK \<lparr>br_AccountID = hx (b32_bytes i), br_Balance = 0\<rparr> \<and>
           handleHistory w s (hx (b32_bytes i)) = Reply StatusOK (hx (b32_bytes i), [])) \<and>
    (\<forall>w b. \<exists>r s'. handlePostSpend c w s b = Some (r, s') \<and> sv_ecoStore s' = [] \<and>
       (if well_formed_spend w b then r = Refused StatusConflict (ApiEconomy ErrCreditDisabled) else \<exists>msg. r = Fault StatusBadRequest msg))"
proof -
  let ?s = "api_run c s0 reqs"
  have I: "escrow_inv ?s" by (rule escrow_inv_run [OF assms])
  have "\<exists>r s'. handlePostSpend c w ?s b = Some (r, s') \<and> sv_ecoStore s' = [] \<and>
       (if well_formed_spend w b then r = Refused StatusConflict (ApiEconomy ErrCreditDisabled) else \<exists>msg. r = Fault StatusBadRequest msg)" for w b
    using I unfolding handlePostSpend_def Let_def Post_escrow [OF I] well_formed_spend_def decode_fields [symmetric] parseUTC_def [symmetric]
    by (auto simp: escrow_inv_def split: option.splits)
  moreover have "handleBalance ?s (hx (b32_bytes i)) = Reply StatusOK \<lparr>br_AccountID = hx (b32_bytes i), br_Balance = 0\<rparr>"
    "handleHistory w ?s (hx (b32_bytes i)) = Reply StatusOK (hx (b32_bytes i), [])" for w i
    using I by (simp_all add: handleBalance_def handleHistory_def Ledger_Balance_def the_ledger_def escrow_inv_def MemStore_All_def)
  ultimately show ?thesis using I by (simp add: Let_def handleCreditPolicy_def Ledger_Policy_def the_ledger_def escrow_inv_def)
qed

definition sample_spend_request :: spend_request where
  "sample_spend_request = \<lparr>sq_From = hx (b32_bytes 1), sq_To = hx (b32_bytes 2), sq_Amount = 5, sq_ExchangeHash = hx (b32_bytes 3), sq_IssuedAt = '''',
     sq_Nonce = 0, sq_Signature = hx (replicate 64 7)\<rparr>"

lemma sample_spend_well_formed: "well_formed_spend sample_wire (Some sample_spend_request)"
  by (simp add: well_formed_spend_def sample_spend_request_def hex_DecodeString_field hx_def sample_wire_def)

theorem server_never_moves_credit_witness:
  "let s = api_run sample_crypto sample_server sample_reqs in
   NewServer sample_crypto ''p'' (Some (sample_priv 9)) (Some (sample_priv 8)) (Some (sample_priv 7)) = Inr sample_server \<and>
   handleBalance s (hx (b32_bytes 7)) = Reply StatusOK \<lparr>br_AccountID = hx (b32_bytes 7), br_Balance = 0\<rparr> \<and>
   (\<exists>s'. handlePostSpend sample_crypto sample_wire s (Some sample_spend_request) = Some (Refused StatusConflict (ApiEconomy ErrCreditDisabled), s'))"
proof -
  let ?s = "api_run sample_crypto sample_server sample_reqs"
  note t = server_never_moves_credit [OF sample_server_new, of sample_reqs, unfolded Let_def]
  have "handleBalance ?s (hx (b32_bytes 7)) = Reply StatusOK \<lparr>br_AccountID = hx (b32_bytes 7), br_Balance = 0\<rparr>"
    using t by blast
  moreover obtain r s' where "handlePostSpend sample_crypto sample_wire ?s (Some sample_spend_request) = Some (r, s')"
      "if well_formed_spend sample_wire (Some sample_spend_request) then r = Refused StatusConflict (ApiEconomy ErrCreditDisabled) else \<exists>msg. r = Fault StatusBadRequest msg"
    using t by blast
  ultimately show ?thesis using sample_server_new sample_spend_well_formed by (simp add: Let_def)
qed

section \<open>The member directory\<close>

definition possessed :: "crypto \<Rightarrow> server \<Rightarrow> bytes \<Rightarrow> bool" where
  "possessed c s k \<longleftrightarrow> length k = PublicKeySize \<and> (k = sv_operatorPub s \<or> (\<exists>sig. sig_ok c k (registerChallenge c s k) sig))"

definition directory_inv :: "crypto \<Rightarrow> server \<Rightarrow> bool" where
  "directory_inv c s \<longleftrightarrow>
     (\<forall>m k. sv_byMember s m = Some k \<longrightarrow> m = MemberIDFor c (sv_platform s) k \<and> possessed c s k) \<and>
     (\<forall>a k. sv_byAccount s a = Some k \<longrightarrow> a = AccountIDFor c (sv_platform s) k \<and> possessed c s k)"

lemma directory_inv_step:
  assumes "directory_inv c s" and "api_effect c s wr s'"
  shows "directory_inv c s'"
  using assms(2)
proof (cases rule: commons_effect)
  case (register pub sig)
  then show ?thesis using assms(1) by (auto simp: directory_inv_def possessed_def registerChallenge_def)
qed (use assms(1) in \<open>simp_all add: directory_inv_def possessed_def registerChallenge_def commons_same with_narrative_def Let_def\<close>)

lemma directory_inv_run: "NewServer c p ok sk ak = Inr s0 \<Longrightarrow> directory_inv c (api_run c s0 reqs)"
  by (rule api_run_invariant [where I = "directory_inv c"])
     (simp_all add: directory_inv_def [of c s0] possessed_def NewServer_start directory_inv_step)

text \<open>C22: the directory is well typed. In every state the server reaches, each entry of either view is a full-length key stored under the
  identity derived from that very key, and it is the operator's own key or one whose possession was proved by a signature over
  the registration challenge. So a key is registered exactly if some entry of the member view holds it, no two identities share a key, and
  the covenant and the ledger never see a key under another member's identity.\<close>

theorem directory_well_typed:
  assumes "NewServer c p ok sk ak = Inr s0"
  shows "let s = api_run c s0 reqs in
    (\<forall>m k. directory s m = Some k \<longrightarrow> length k = PublicKeySize \<and> m = MemberIDFor c p k \<and>
        (k = sv_operatorPub s0 \<or> (\<exists>sig. sig_ok c k (registerChallenge c s0 k) sig))) \<and>
    (\<forall>a k. accountDirectory s a = Some k \<longrightarrow> length k = PublicKeySize \<and> a = AccountIDFor c p k \<and>
        (k = sv_operatorPub s0 \<or> (\<exists>sig. sig_ok c k (registerChallenge c s0 k) sig))) \<and>
    (\<forall>k. registered c s k \<longleftrightarrow> (\<exists>m. directory s m = Some k)) \<and>
    inj_on (directory s) (dom (directory s))"
proof -
  let ?s = "api_run c s0 reqs"
  have I: "directory_inv c ?s" by (rule directory_inv_run [OF assms])
  have fx: "sv_fixed ?s = sv_fixed s0" by (rule api_run_invariant [where I = "\<lambda>s. sv_fixed s = sv_fixed s0"]) (simp_all add: api_effect_fixed)
  have pl: "sv_platform ?s = p" "sv_operatorPub ?s = sv_operatorPub s0" "sv_platform s0 = p"
    using fx NewServer_start(1) [OF assms] by (simp_all add: sv_fixed_def)
  have "inj_on (directory ?s) (dom (directory ?s))"
    using I by (intro inj_onI) (metis directory_eq(1) directory_inv_def domD)
  then show ?thesis using I by (auto simp: Let_def directory_inv_def possessed_def registerChallenge_def registered_def pl)
qed

theorem directory_well_typed_witness:
  "let s = api_run sample_crypto sample_server sample_reqs in
   NewServer sample_crypto ''p'' (Some (sample_priv 9)) (Some (sample_priv 8)) (Some (sample_priv 7)) = Inr sample_server \<and>
   (\<exists>m. directory s m = Some (replicate 32 1)) \<and> (\<exists>m. directory s m = Some (replicate 32 2))"
proof -
  have "registered sample_crypto (api_run sample_crypto sample_server sample_reqs) (replicate 32 1)"
    "registered sample_crypto (api_run sample_crypto sample_server sample_reqs) (replicate 32 2)"
    using sample_run by metis+
  then show ?thesis
    using directory_well_typed [OF sample_server_new, of sample_reqs] sample_server_new unfolding Let_def by blast
qed

section \<open>Listings and narratives\<close>

definition listing_inv :: "server \<Rightarrow> bool" where
  "listing_inv s \<longleftrightarrow> (\<forall>i l. Catalog_Listing (sv_catalog s) i = Some l \<longrightarrow>
     (\<exists>cl. Tree_Claim (sv_tree s) (li_Spec l) = Some cl \<and> cl_Kind cl = KindProductSpec \<and> cl_Claimant cl = li_Maker l))"

lemma AddClaim_keeps:
  assumes "AddClaim c t cl = Inr (i, t')"
  shows "Tree_Claim t i = None" "Tree_Claim t' = (Tree_Claim t)(i \<mapsto> cl)"
  using assms by (auto simp: AddClaim_Inr Tree_Claim_def claim_gates_def fun_eq_iff)

lemma AddReference_keeps: "AddReference c t r = Inr (i, t') \<Longrightarrow> Tree_Claim t' = Tree_Claim t"
  by (auto simp: AddReference_Inr Tree_Claim_def fun_eq_iff)

lemma AddListing_adds: "AddListing c ct l = Inr (i, ct') \<Longrightarrow> Catalog_Listing ct' = (Catalog_Listing ct)(i \<mapsto> l)"
  by (auto simp: AddListing_Inr Catalog_Listing_def fun_eq_iff)

lemma listing_inv_step:
  assumes "listing_inv s" and "api_effect c s wr s'"
  shows "listing_inv s'"
  using assms(2)
proof (cases rule: commons_effect)
  case (claim w dto cl i tree)
  have "Tree_Claim tree j = Some x" if "Tree_Claim (sv_tree s) j = Some x" for j x
    using that AddClaim_keeps [OF claim(4)] by auto
  then show ?thesis using assms(1) claim(5) by (fastforce simp: listing_inv_def with_narrative_def Let_def)
next
  case (reference ref i tree)
  then show ?thesis using assms(1) AddReference_keeps by (simp add: listing_inv_def)
next
  case (listing l i ct cl)
  then show ?thesis using assms(1) AddListing_adds [OF listing(1)] by (auto simp: listing_inv_def)
qed (use assms(1) in \<open>simp_all add: listing_inv_def commons_same\<close>)

lemma listing_inv_start: "NewServer c p ok sk ak = Inr s0 \<Longrightarrow> listing_inv s0"
  using arg_cong [where f = "\<lambda>r. ct_listings (projr r)", OF NewServer_start(13) [of c p ok sk ak s0], symmetric] NewServer_start(2) [of c p ok sk ak s0]
  by (simp add: listing_inv_def NewCatalog_def Catalog_Listing_def)

text \<open>Nothing is on the market without its specification. In every state the server reaches, each listing of the catalog names a
  claim that is in the technology tree, is of the product-specification kind and was asserted by the listing's own maker, and the listing
  is served with that specification's identifier.\<close>

theorem listings_rest_on_specs:
  assumes "NewServer c p ok sk ak = Inr s0"
  shows "let s = api_run c s0 reqs in
    \<forall>w i v. handleGetListing w s (hx (b32_bytes i)) = Reply StatusOK v \<longrightarrow>
      (\<exists>sp cl. lv_Spec v = hx (b32_bytes sp) \<and> Tree_Claim (sv_tree s) sp = Some cl \<and> cl_Kind cl = KindProductSpec \<and> lv_Maker v = hx (cl_Claimant cl))"
proof -
  have "listing_inv (api_run c s0 reqs)"
    by (rule api_run_invariant [where I = listing_inv]) (rule listing_inv_start [OF assms], rule listing_inv_step)
  then show ?thesis
    by (fastforce simp: Let_def handleGetListing_def listingViewLocked_def listing_inv_def hx_def split: option.splits)
qed

text \<open>The narrative texts a request carries.\<close>

fun request_texts :: "api_request \<Rightarrow> bytes set" where
  "request_texts (ReqClaim (Some dto)) = {bytes_of_str (cd_Inputs dto), bytes_of_str (cd_Method dto), bytes_of_str (cd_Result dto)}"
| "request_texts _ = {}"

definition kept :: "crypto \<Rightarrow> server \<Rightarrow> claim_id \<Rightarrow> claim \<Rightarrow> bool" where
  "kept c s i cl \<longleftrightarrow> (\<exists>ni nm nr. sv_manifest s (hx (b32_bytes i)) = Some \<lparr>nr_Inputs = HashContent c ni, nr_Method = HashContent c nm, nr_Result = HashContent c nr\<rparr> \<and>
     sv_locker s (HashContent c ni) = Some ni \<and> sv_locker s (HashContent c nm) = Some nm \<and> sv_locker s (HashContent c nr) = Some nr \<and>
     HashNarrative c ni = cl_InputsHash cl \<and> HashNarrative c nm = cl_MethodHash cl \<and> HashNarrative c nr = cl_ResultHash cl)"

definition narrative_inv :: "crypto \<Rightarrow> bytes set \<Rightarrow> server \<Rightarrow> bool" where
  "narrative_inv c T s \<longleftrightarrow>
     (\<forall>k v. sv_locker s k = Some v \<longrightarrow> v \<in> T \<and> k = HashContent c v) \<and>
     (\<forall>h. sv_manifest s h \<noteq> None \<longrightarrow> (\<exists>i. h = hx (b32_bytes i))) \<and>
     (\<forall>i cl. Tree_Claim (sv_tree s) i = Some cl \<longrightarrow> kept c s i cl)"

lemma hx_b32_inject [simp]: "hx (b32_bytes i) = hx (b32_bytes j) \<longleftrightarrow> i = j"
  using decodeHex32_hx [of i] decodeHex32_hx [of j] by (metis option.inject)

lemma narrative_inv_claim:
  assumes I: "narrative_inv c T s" and inj: "inj_on (HashContent c) T" and T: "request_texts (ReqClaim (Some dto)) \<subseteq> T"
    and m: "narrative_matches c dto cl" and a: "AddClaim c (sv_tree s) cl = Inr (i, tree)"
  shows "narrative_inv c T (with_narrative c (s\<lparr>sv_tree := tree\<rparr>) i dto)" (is "narrative_inv c T ?s'")
proof -
  let ?ni = "bytes_of_str (cd_Inputs dto)" and ?nm = "bytes_of_str (cd_Method dto)" and ?nr = "bytes_of_str (cd_Result dto)"
  have lk: "sv_locker ?s' = (sv_locker s)(HashContent c ?ni \<mapsto> ?ni, HashContent c ?nm \<mapsto> ?nm, HashContent c ?nr \<mapsto> ?nr)"
    and mf: "sv_manifest ?s' = (sv_manifest s)(hx (b32_bytes i) \<mapsto>
          \<lparr>nr_Inputs = HashContent c ?ni, nr_Method = HashContent c ?nm, nr_Result = HashContent c ?nr\<rparr>)"
    and tr: "Tree_Claim (sv_tree ?s') = (Tree_Claim (sv_tree s))(i \<mapsto> cl)" "Tree_Claim (sv_tree s) i = None"
    using AddClaim_keeps [OF a] by (simp_all add: with_narrative_def Let_def hx_def)
  have lo: "\<forall>k v. sv_locker ?s' k = Some v \<longrightarrow> v \<in> T \<and> k = HashContent c v" using I T unfolding narrative_inv_def lk by auto
  then have put: "sv_locker ?s' (HashContent c x) = Some x" if "x \<in> T" "sv_locker ?s' (HashContent c x) \<noteq> None" for x
    using that inj by (metis inj_on_def option.exhaust)
  have "x \<in> T" "sv_locker ?s' (HashContent c x) \<noteq> None" if "x \<in> {?ni, ?nm, ?nr}" for x using that T unfolding lk by auto
  then have new: "sv_locker ?s' (HashContent c x) = Some x" if "x \<in> {?ni, ?nm, ?nr}" for x using put that by blast
  have old: "sv_locker ?s' (HashContent c x) = Some x" if "sv_locker s (HashContent c x) = Some x" for x
  proof -
    have "x \<in> T" using that I unfolding narrative_inv_def by blast
    moreover have "sv_locker ?s' (HashContent c x) \<noteq> None" using that unfolding lk by simp
    ultimately show ?thesis by (rule put)
  qed
  have "kept c ?s' j x" if "Tree_Claim (sv_tree ?s') j = Some x" for j x
  proof (cases "j = i")
    case True
    then have "x = cl" using that by (simp add: tr)
    then show ?thesis using True m new unfolding kept_def mf narrative_matches_def
      by (intro exI [of _ ?ni] exI [of _ ?nm] exI [of _ ?nr]) simp
  next
    case False
    then have "kept c s j x" using that I by (simp add: tr narrative_inv_def)
    then obtain a b d where "sv_manifest s (hx (b32_bytes j)) = Some \<lparr>nr_Inputs = HashContent c a, nr_Method = HashContent c b, nr_Result = HashContent c d\<rparr>"
      "sv_locker s (HashContent c a) = Some a" "sv_locker s (HashContent c b) = Some b" "sv_locker s (HashContent c d) = Some d"
      "HashNarrative c a = cl_InputsHash x" "HashNarrative c b = cl_MethodHash x" "HashNarrative c d = cl_ResultHash x"
      unfolding kept_def by blast
    then show ?thesis using False old [of a] old [of b] old [of d] unfolding kept_def mf
      by (intro exI [of _ a] exI [of _ b] exI [of _ d]) simp
  qed
  moreover have "\<forall>h. sv_manifest ?s' h \<noteq> None \<longrightarrow> (\<exists>i. h = hx (b32_bytes i))" using I unfolding narrative_inv_def mf by simp
  ultimately show ?thesis using lo unfolding narrative_inv_def by blast
qed

lemma NewServer_locker: "NewServer c p ok sk ak = Inr s \<Longrightarrow> sv_locker s = Map.empty"
  by (cases ok; cases sk; cases ak) (auto simp: NewServer_def lift_err_Inr Let_def NewMemLocker_def lift_err_def split: if_splits sum.splits)

lemma NewServer_tree: "NewServer c p ok sk ak = Inr s \<Longrightarrow> Tree_Claim (sv_tree s) = Map.empty"
  using arg_cong [where f = "\<lambda>r. tr_claims (projr r)", OF NewServer_start(12) [of c p ok sk ak s], symmetric] NewServer_start(2) [of c p ok sk ak s]
  by (simp add: NewTree_def Tree_Claim_def fun_eq_iff)

lemma kept_cong: "sv_locker s' = sv_locker s \<Longrightarrow> sv_manifest s' = sv_manifest s \<Longrightarrow> kept c s' i cl = kept c s i cl"
  by (simp add: kept_def)

lemma narrative_inv_step:
  assumes I: "narrative_inv c T s" and inj: "inj_on (HashContent c) T" and T: "request_texts (snd wr) \<subseteq> T" and e: "api_effect c s wr s'"
  shows "narrative_inv c T s'"
  using e
proof (cases rule: commons_effect)
  case (claim w dto cl i tree)
  then show ?thesis using narrative_inv_claim [OF I inj _ claim(3,4)] T by simp
next
  case (reference ref i tree)
  then show ?thesis using I AddReference_keeps [OF reference(1)] by (simp add: narrative_inv_def kept_def)
qed (use I kept_cong [of s' s c] in \<open>simp_all add: narrative_inv_def commons_same\<close>)

lemma narrative_inv_run:
  assumes "NewServer c p ok sk ak = Inr s0" and "inj_on (HashContent c) T"
  shows "(\<Union>wr \<in> set reqs. request_texts (snd wr)) \<subseteq> T \<Longrightarrow> narrative_inv c T (api_run c s0 reqs)"
proof (induction reqs rule: rev_induct)
  case Nil
  show ?case
    using NewServer_locker [OF assms(1)] NewServer_tree [OF assms(1)] NewServer_start(16) [OF assms(1)] by (simp add: narrative_inv_def)
next
  case (snoc r reqs)
  then show ?case unfolding api_run_snoc by (intro narrative_inv_step [OF _ assms(2) _ api_apply_effect]) auto
qed

text \<open>C23: a claim is served with its own narrative, under one spelling of its identifier. In every state the server reaches, if no two
  narrative texts it was sent share a content hash, each claim of the tree read by its lowercase hexadecimal identifier comes with
  three texts that hash to the three digests its author signed; read by any other accepted spelling of the
  same identifier, it is served without a narrative, because the manifest is looked up with the path as written.\<close>

theorem narrative_served:
  assumes "NewServer c p ok sk ak = Inr s0" and "inj_on (HashContent c) (\<Union>wr \<in> set reqs. request_texts (snd wr))"
    and "Tree_Claim (sv_tree (api_run c s0 reqs)) i = Some cl" and "decodeHex32 path = Some i"
  shows "\<exists>v. handleGetClaim w (api_run c s0 reqs) path = Reply StatusOK v \<and> cv_Claimant v = hx (cl_Claimant cl) \<and>
    (if path = hx (b32_bytes i)
     then \<exists>n. cv_Narrative v = Some n \<and> HashNarrative c (bytes_of_str (nv_Inputs n)) = cl_InputsHash cl \<and>
       HashNarrative c (bytes_of_str (nv_Method n)) = cl_MethodHash cl \<and> HashNarrative c (bytes_of_str (nv_Result n)) = cl_ResultHash cl
     else cv_Narrative v = None)"
proof -
  let ?s = "api_run c s0 reqs"
  have I: "narrative_inv c (\<Union>wr \<in> set reqs. request_texts (snd wr)) ?s" by (rule narrative_inv_run [OF assms(1,2)]) simp
  then have k: "kept c ?s i cl" using assms(3) by (simp add: narrative_inv_def)
  have p: "pathID path = Some i" using assms(4) by (simp add: pathID_def decodeHex32_def)
  have "sv_manifest ?s path = None" if "path \<noteq> hx (b32_bytes i)"
  proof (rule ccontr)
    assume "sv_manifest ?s path \<noteq> None"
    then obtain j where "path = hx (b32_bytes j)" using I by (auto simp: narrative_inv_def)
    then show False using that assms(4) by simp
  qed
  then show ?thesis
    using k assms(3) p by (auto simp: handleGetClaim_def claim_narrative_def kept_def Locker_Get_def)
qed

section \<open>A concrete claim and listing\<close>

definition spec_draft :: claim where
  "spec_draft = \<lparr>cl_Platform = ''p'', cl_Claimant = replicate 32 1, cl_Kind = KindProductSpec, cl_InputsHash = HashNarrative sample_crypto [],
     cl_MethodHash = HashNarrative sample_crypto [], cl_ResultHash = HashNarrative sample_crypto [], cl_Nonce = 0, cl_AssertedAt = 0, cl_Signature = []\<rparr>"

definition spec_claim :: claim where
  "spec_claim = spec_draft\<lparr>cl_Signature := ed_sign sample_crypto (sample_priv 1) (Claim_CanonicalBytes sample_crypto spec_draft)\<rparr>"

definition spec_req :: "wire \<times> api_request" where
  "spec_req = (sample_wire, ReqClaim (Some \<lparr>cd_Platform = ''p'', cd_Claimant = hx (cl_Claimant spec_claim), cd_Kind = KindProductSpec,
     cd_InputsHash = hx (b32_bytes (cl_InputsHash spec_claim)), cd_MethodHash = hx (b32_bytes (cl_MethodHash spec_claim)),
     cd_ResultHash = hx (b32_bytes (cl_ResultHash spec_claim)), cd_Nonce = hx (b32_bytes 0), cd_AssertedAtNs = 0, cd_Signature = hx (cl_Signature spec_claim),
     cd_Inputs = '''', cd_Method = '''', cd_Result = ''''\<rparr>))"

definition offer_draft :: listing where
  "offer_draft = \<lparr>li_Platform = ''p'', li_Maker = replicate 32 1, li_Category = CategoryComputer, li_Spec = Claim_ID sample_crypto spec_claim,
     li_Rails = \<lparr>ra_Fiat = True, ra_MemberCredit = False\<rparr>, li_Nonce = 0, li_ListedAt = 0, li_Signature = []\<rparr>"

definition offer :: listing where
  "offer = offer_draft\<lparr>li_Signature := ed_sign sample_crypto (sample_priv 1) (Listing_CanonicalBytes sample_crypto offer_draft)\<rparr>"

definition offer_req :: "wire \<times> api_request" where
  "offer_req = (sample_wire, ReqListing (Some \<lparr>ld_Platform = ''p'', ld_Maker = hx (li_Maker offer), ld_Category = li_Category offer,
     ld_Spec = hx (b32_bytes (li_Spec offer)), ld_AcceptFiat = True, ld_AcceptCredit = False, ld_Nonce = hx (b32_bytes 0), ld_ListedAtNs = 0,
     ld_Signature = hx (li_Signature offer)\<rparr>))"

definition market_reqs :: "(wire \<times> api_request) list" where
  "market_reqs = [sample_register 1, spec_req, offer_req]"

lemma spec_claim_sel [simp]: "cl_Platform spec_claim = ''p''" "cl_Claimant spec_claim = replicate 32 1" "cl_Kind spec_claim = KindProductSpec"
  "cl_InputsHash spec_claim = HashNarrative sample_crypto []" "cl_MethodHash spec_claim = HashNarrative sample_crypto []" "cl_ResultHash spec_claim = HashNarrative sample_crypto []"
  by (simp_all add: spec_claim_def spec_draft_def)

lemma spec_claim_verifies: "Claim_Verify sample_crypto spec_claim" "length (cl_Signature spec_claim) = SignatureSize"
proof -
  have "Claim_CanonicalBytes sample_crypto spec_claim = Claim_CanonicalBytes sample_crypto spec_draft"
    by (simp add: Claim_CanonicalBytes_def spec_claim_def)
  then show "Claim_Verify sample_crypto spec_claim" "length (cl_Signature spec_claim) = SignatureSize"
    using sig_ok_keypair [OF sample_keypair, of 1] keypair_verify(2) [OF sample_keypair, of 1]
    by (simp_all add: Claim_Verify_def PublicKeySize_def SignatureSize_def) (simp_all add: spec_claim_def validKind_def)
qed

lemma spec_claim_id: "Claim_ID sample_crypto spec_claim \<noteq> 0"
proof -
  have "length (Claim_CanonicalBytes sample_crypto spec_claim) < 1000"
    by (simp add: Claim_CanonicalBytes_def spec_claim_def spec_draft_def sample_eval domainClaim_def KindProductSpec_def)
  moreover have "length (cl_Signature spec_claim) = 64" using spec_claim_verifies(2) by (simp add: SignatureSize_def)
  ultimately show ?thesis unfolding Claim_ID_def sample_sha_of sample_canon_of
    by (intro sample_sha_nonzero [where x = 2]) (simp_all add: sample_eval domainTechID_def)
qed

lemma offer_sel [simp]: "li_Platform offer = ''p''" "li_Maker offer = replicate 32 1" "li_Spec offer = Claim_ID sample_crypto spec_claim"
  "li_Category offer = CategoryComputer" "li_Rails offer = \<lparr>ra_Fiat = True, ra_MemberCredit = False\<rparr>"
  by (simp_all add: offer_def offer_draft_def)

lemma offer_verifies: "Listing_Verify sample_crypto offer" "length (li_Signature offer) = SignatureSize"
proof -
  have "Listing_CanonicalBytes sample_crypto offer = Listing_CanonicalBytes sample_crypto offer_draft"
    by (simp add: Listing_CanonicalBytes_def offer_def)
  then show "Listing_Verify sample_crypto offer" "length (li_Signature offer) = SignatureSize"
    using sig_ok_keypair [OF sample_keypair, of 1] keypair_verify(2) [OF sample_keypair, of 1]
    by (simp_all add: Listing_Verify_def PublicKeySize_def SignatureSize_def validCategory_def AcceptedRails_Valid_def) (simp_all add: offer_def spec_claim_id)
qed

lemma market_run:
  obtains s where "api_run sample_crypto sample_server market_reqs = s" "Tree_Claim (sv_tree s) (Claim_ID sample_crypto spec_claim) = Some spec_claim"
    "Catalog_Listing (sv_catalog s) (Listing_ID sample_crypto offer) = Some offer"
proof -
  let ?c = sample_crypto
  let ?s1 = "sample_server\<lparr>sv_byMember := (sv_byMember sample_server)(MemberIDFor ?c ''p'' (replicate 32 1) \<mapsto> replicate 32 1),
      sv_byAccount := (sv_byAccount sample_server)(AccountIDFor ?c ''p'' (replicate 32 1) \<mapsto> replicate 32 1)\<rparr>"
  have reg: "api_apply ?c sample_server (sample_register 1) = ?s1"
    using handleRegister_wire [OF sample_keypair, of sample_server 1] by (simp add: sample_register_def sample_server_sel)
  have new: "sv_tree sample_server = projr (NewTree ''p'')" "sv_catalog sample_server = projr (NewCatalog ''p'')"
    using NewServer_start(12,13) [OF sample_server_new] by simp_all
  have pl: "tr_platform (sv_tree sample_server) = ''p''" "ct_platform (sv_catalog sample_server) = ''p''"
    "tr_claims (sv_tree sample_server) = Map.empty" "ct_listings (sv_catalog sample_server) = Map.empty"
    by (simp_all add: new NewTree_def NewCatalog_def)
  obtain tree where ac: "AddClaim ?c (sv_tree sample_server) spec_claim = Inr (Claim_ID ?c spec_claim, tree)"
    using spec_claim_verifies(1) by (simp add: AddClaim_Inr claim_gates_def pl)
  obtain ct where al: "AddListing ?c (sv_catalog sample_server) offer = Inr (Listing_ID ?c offer, ct)"
    using offer_verifies(1) by (simp add: AddListing_Inr pl)
  have rd: "registered ?c ?s1 (replicate 32 1)" by (simp add: registered_def sample_server_sel)
  have cl: "\<lparr>cl_Platform = ''p'', cl_Claimant = replicate 32 1, cl_Kind = KindProductSpec, cl_InputsHash = HashNarrative ?c [],
     cl_MethodHash = HashNarrative ?c [], cl_ResultHash = HashNarrative ?c [], cl_Nonce = 0, cl_AssertedAt = 0, cl_Signature = cl_Signature spec_claim\<rparr> = spec_claim"
    by (simp add: spec_claim_def spec_draft_def)
  have li: "\<lparr>li_Platform = ''p'', li_Maker = replicate 32 1, li_Category = CategoryComputer, li_Spec = Claim_ID ?c spec_claim,
     li_Rails = \<lparr>ra_Fiat = True, ra_MemberCredit = False\<rparr>, li_Nonce = 0, li_ListedAt = 0, li_Signature = li_Signature offer\<rparr> = offer"
    by (simp add: offer_def offer_draft_def)
  obtain s2 where s2: "api_apply ?c ?s1 spec_req = s2" "sv_tree s2 = tree" "sv_catalog s2 = sv_catalog sample_server" "sv_platform s2 = ''p''" "sv_byMember s2 = sv_byMember ?s1"
    using spec_claim_verifies(2) rd ac
    by (simp add: spec_req_def handleAnchorClaim_def toClaim_def cl bytes_of_str_def PublicKeySize_def Locker_Put_def sample_server_sel Let_def)
  have "api_apply ?c s2 offer_req = s2\<lparr>sv_catalog := ct\<rparr>"
    using offer_verifies(2) rd al s2 AddClaim_keeps [OF ac]
    by (simp add: offer_req_def handleCreateListing_def toListing_def li PublicKeySize_def registered_def sample_server_sel)
  then have "api_run ?c sample_server market_reqs = s2\<lparr>sv_catalog := ct\<rparr>" using s2(1) by (simp add: api_run_def market_reqs_def reg)
  then show ?thesis using s2(2) AddClaim_keeps [OF ac] AddListing_adds [OF al] by (intro that [of "s2\<lparr>sv_catalog := ct\<rparr>"]) simp_all
qed

theorem listings_rest_on_specs_witness:
  "let s = api_run sample_crypto sample_server market_reqs in
   NewServer sample_crypto ''p'' (Some (sample_priv 9)) (Some (sample_priv 8)) (Some (sample_priv 7)) = Inr sample_server \<and>
   (\<exists>v. handleGetListing sample_wire s (hx (b32_bytes (Listing_ID sample_crypto offer))) = Reply StatusOK v \<and>
     (\<exists>sp cl. lv_Spec v = hx (b32_bytes sp) \<and> Tree_Claim (sv_tree s) sp = Some cl \<and> cl_Kind cl = KindProductSpec \<and> lv_Maker v = hx (cl_Claimant cl)))"
proof -
  let ?s = "api_run sample_crypto sample_server market_reqs"
  have "Catalog_Listing (sv_catalog ?s) (Listing_ID sample_crypto offer) = Some offer" using market_run by metis
  then have g: "handleGetListing sample_wire ?s (hx (b32_bytes (Listing_ID sample_crypto offer))) =
      Reply StatusOK (listingViewLocked sample_wire ?s (Listing_ID sample_crypto offer) offer)"
    by (simp add: handleGetListing_def pathID_def hx_def)
  then show ?thesis
    using listings_rest_on_specs [OF sample_server_new, of market_reqs] sample_server_new unfolding Let_def by blast
qed

theorem narrative_served_witness:
  "let s = api_run sample_crypto sample_server market_reqs; i = Claim_ID sample_crypto spec_claim in
   NewServer sample_crypto ''p'' (Some (sample_priv 9)) (Some (sample_priv 8)) (Some (sample_priv 7)) = Inr sample_server \<and>
   inj_on (HashContent sample_crypto) (\<Union>wr \<in> set market_reqs. request_texts (snd wr)) \<and> Tree_Claim (sv_tree s) i = Some spec_claim \<and>
   decodeHex32 (hx (b32_bytes i)) = Some i \<and>
   (\<exists>v n. handleGetClaim sample_wire s (hx (b32_bytes i)) = Reply StatusOK v \<and> cv_Narrative v = Some n \<and>
      HashNarrative sample_crypto (bytes_of_str (nv_Inputs n)) = HashNarrative sample_crypto [])"
proof -
  let ?s = "api_run sample_crypto sample_server market_reqs" and ?i = "Claim_ID sample_crypto spec_claim"
  have t: "Tree_Claim (sv_tree ?s) ?i = Some spec_claim" using market_run by metis
  have inj: "inj_on (HashContent sample_crypto) (\<Union>wr \<in> set market_reqs. request_texts (snd wr))"
    by (simp add: market_reqs_def sample_register_def spec_req_def offer_req_def bytes_of_str_def)
  show ?thesis
    using narrative_served [OF sample_server_new inj t decodeHex32_hx, of sample_wire] inj t sample_server_new
    unfolding Let_def by auto
qed

end
