(* ===== verification/Node_Relay.thy ===== *)
theory Node_Relay
  imports Wire "HOL-Library.Multiset"
begin

text \<open>
  The relay of a frontend (\<open>src/internal/noderelay/noderelay.go\<close>): enrolled nodes' signed messages are verified and forwarded to
  the orchestrator, heartbeats and polls are rolled up. The protocol package is a parameter: the record \<open>protocol\<close> reads the
  fields of a signed message the relay uses and verifies it, and reads the job of an assignment.

  Each operation of the code holds the mutex in sections and calls the orchestrator between them. It is modelled by its sections
  (\<open>..._begin\<close>, \<open>..._commit\<close>, \<open>PollJobs_read\<close>) and by the composition of them that one call runs when no other call
  intervenes; the step relation \<open>relay_step\<close> interleaves the sections of any number of calls. Pointers to a node's state
  are lookups by its identifier: the code never removes or replaces a node's state.
\<close>

section \<open>Data\<close>

type_synonym node_id = string

record ('m, 'a) protocol =
  pm_NodeID :: "'m \<Rightarrow> node_id"
  pm_Seq :: "'m \<Rightarrow> u64"
  pm_JobID :: "'m \<Rightarrow> string"
  pm_Verify :: "'m \<Rightarrow> bytes \<Rightarrow> bool"
  pa_JobID :: "'a \<Rightarrow> string"

datatype relay_error =
    RelUnknownNode node_id | RelBadSignature | RelStaleSeq | RelKeyConflict | RelEnrollArgs | RelUpstream string | RelEnrollUpstream string

text \<open>\<open>time.Duration\<close> and \<open>Time.Sub\<close>, which saturates.\<close>

definition Second :: u64 where "Second = 1000000000"

definition time_Sub :: "gotime \<Rightarrow> gotime \<Rightarrow> u64" where
  "time_Sub t u = (let d = t - u in if d > sint MaxInt64 then MaxInt64 else if d < sint MinInt64 then MinInt64 else word_of_int d)"

definition DefaultUpstreamBeat :: u64 where "DefaultUpstreamBeat = 60 * Second"
definition DefaultUpstreamPoll :: u64 where "DefaultUpstreamPoll = 30 * Second"

record 'a node_state =
  ns_pub :: bytes
  ns_listSeq :: u64
  ns_beatSeq :: u64
  ns_lastBeatUp :: gotime
  ns_pollAt :: gotime
  ns_jobs :: "'a list"
  ns_settled :: "string set"
  ns_lastAuthTS :: u64

text \<open>\<open>ry_enrolls\<close>: whether \<open>EnrollUpstream\<close> is set. The clock and the orchestrator's answers are arguments of the operations.\<close>

record 'a node_relay =
  ry_UpstreamBeat :: u64
  ry_UpstreamPoll :: u64
  ry_enrolls :: bool
  ry_nodes :: "node_id \<rightharpoonup> 'a node_state"

definition beatEvery :: "'a node_relay \<Rightarrow> u64" where
  "beatEvery r = (if sint (ry_UpstreamBeat r) > 0 then ry_UpstreamBeat r else DefaultUpstreamBeat)"

definition pollEvery :: "'a node_relay \<Rightarrow> u64" where
  "pollEvery r = (if sint (ry_UpstreamPoll r) > 0 then ry_UpstreamPoll r else DefaultUpstreamPoll)"

definition upd_node :: "'a node_relay \<Rightarrow> node_id \<Rightarrow> ('a node_state \<Rightarrow> 'a node_state) \<Rightarrow> 'a node_relay" where
  "upd_node r n f = r\<lparr>ry_nodes := (ry_nodes r)(n := map_option f (ry_nodes r n))\<rparr>"

section \<open>Operations\<close>

text \<open>\<open>Enroll\<close>: \<open>Inl\<close> a result, or \<open>Inr\<close> to go on to the orchestrator.\<close>

definition Enroll_begin :: "'a node_relay \<Rightarrow> node_id \<Rightarrow> bytes \<Rightarrow> relay_error option + unit" where
  "Enroll_begin r n pub =
     (if n = '''' \<or> length pub \<noteq> PublicKeySize then Inl (Some RelEnrollArgs)
      else case ry_nodes r n of
          Some st \<Rightarrow> Inl (if ns_pub st \<noteq> pub then Some RelKeyConflict else None)
        | None \<Rightarrow> Inr ())"

definition new_node :: "bytes \<Rightarrow> 'a node_state" where
  "new_node pub = \<lparr>ns_pub = map id pub, ns_listSeq = 0, ns_beatSeq = 0, ns_lastBeatUp = zeroTime, ns_pollAt = zeroTime, ns_jobs = [],
     ns_settled = {}, ns_lastAuthTS = 0\<rparr>"

definition Enroll_commit :: "'a node_relay \<Rightarrow> node_id \<Rightarrow> bytes \<Rightarrow> 'a node_relay" where
  "Enroll_commit r n pub = (if ry_nodes r n = None then r\<lparr>ry_nodes := (ry_nodes r)(n \<mapsto> new_node pub)\<rparr> else r)"

definition Relay_Enroll :: "'a node_relay \<Rightarrow> string option \<Rightarrow> node_id \<Rightarrow> bytes \<Rightarrow> relay_error option \<times> 'a node_relay" where
  "Relay_Enroll r up n pub =
     (case Enroll_begin r n pub of
        Inl res \<Rightarrow> (res, r)
      | Inr _ \<Rightarrow> (case (if ry_enrolls r then up else None) of
            Some e \<Rightarrow> (Some (RelEnrollUpstream e), r)
          | None \<Rightarrow> (None, Enroll_commit r n pub)))"

definition relay_node :: "'a node_relay \<Rightarrow> node_id \<Rightarrow> relay_error + 'a node_state" where
  "relay_node r n = (case ry_nodes r n of None \<Rightarrow> Inl (RelUnknownNode n) | Some st \<Rightarrow> Inr st)"

text \<open>The check the four signed operations share.\<close>

definition signed_by_node :: "('m, 'a) protocol \<Rightarrow> 'a node_relay \<Rightarrow> 'm \<Rightarrow> relay_error + 'a node_state" where
  "signed_by_node p r m =
     (case relay_node r (pm_NodeID p m) of Inl e \<Rightarrow> Inl e
      | Inr st \<Rightarrow> if \<not> pm_Verify p m (ns_pub st) then Inl RelBadSignature else Inr st)"

definition SubmitListing_begin :: "('m, 'a) protocol \<Rightarrow> 'a node_relay \<Rightarrow> 'm \<Rightarrow> relay_error option" where
  "SubmitListing_begin p r l =
     (case signed_by_node p r l of Inl e \<Rightarrow> Some e
      | Inr st \<Rightarrow> if pm_Seq p l \<le> ns_listSeq st then Some RelStaleSeq else None)"

definition SubmitListing_commit :: "('m, 'a) protocol \<Rightarrow> 'a node_relay \<Rightarrow> 'm \<Rightarrow> 'a node_relay" where
  "SubmitListing_commit p r l =
     upd_node r (pm_NodeID p l) (\<lambda>st. if pm_Seq p l > ns_listSeq st then st\<lparr>ns_listSeq := pm_Seq p l\<rparr> else st)"

definition SubmitListing :: "('m, 'a) protocol \<Rightarrow> 'a node_relay \<Rightarrow> string option \<Rightarrow> 'm \<Rightarrow> relay_error option \<times> 'a node_relay" where
  "SubmitListing p r up l =
     (case SubmitListing_begin p r l of Some e \<Rightarrow> (Some e, r)
      | None \<Rightarrow> (case up of Some e \<Rightarrow> (Some (RelUpstream e), r) | None \<Rightarrow> (None, SubmitListing_commit p r l)))"

text \<open>\<open>Heartbeat\<close>: the flag says whether the heartbeat goes on to the orchestrator.\<close>

definition Heartbeat_begin :: "('m, 'a) protocol \<Rightarrow> 'a node_relay \<Rightarrow> gotime \<Rightarrow> 'm \<Rightarrow> relay_error + bool \<times> 'a node_relay" where
  "Heartbeat_begin p r now h =
     (case signed_by_node p r h of Inl e \<Rightarrow> Inl e
      | Inr st \<Rightarrow>
          if pm_Seq p h \<le> ns_beatSeq st then Inl RelStaleSeq
          else Inr (ns_lastBeatUp st = zeroTime \<or> sint (time_Sub now (ns_lastBeatUp st)) \<ge> sint (beatEvery r),
                    upd_node r (pm_NodeID p h) (\<lambda>st. st\<lparr>ns_beatSeq := pm_Seq p h\<rparr>)))"

definition Heartbeat_commit :: "('m, 'a) protocol \<Rightarrow> 'a node_relay \<Rightarrow> gotime \<Rightarrow> 'm \<Rightarrow> 'a node_relay" where
  "Heartbeat_commit p r now h = upd_node r (pm_NodeID p h) (\<lambda>st. st\<lparr>ns_lastBeatUp := now\<rparr>)"

definition Heartbeat :: "('m, 'a) protocol \<Rightarrow> 'a node_relay \<Rightarrow> gotime \<Rightarrow> gotime \<Rightarrow> string option \<Rightarrow> 'm \<Rightarrow> relay_error option \<times> 'a node_relay" where
  "Heartbeat p r t1 t2 up h =
     (case Heartbeat_begin p r t1 h of
        Inl e \<Rightarrow> (Some e, r)
      | Inr (forward, r') \<Rightarrow>
          if \<not> forward then (None, r')
          else (case up of Some e \<Rightarrow> (Some (RelUpstream e), r') | None \<Rightarrow> (None, Heartbeat_commit p r' t2 h)))"

text \<open>\<open>PollJobs\<close>: whether the cached assignments are still fresh, storing what the orchestrator offers, and reading the answer.\<close>

definition PollJobs_begin :: "'a node_relay \<Rightarrow> gotime \<Rightarrow> node_id \<Rightarrow> relay_error + bool" where
  "PollJobs_begin r now n =
     (case relay_node r n of Inl e \<Rightarrow> Inl e
      | Inr st \<Rightarrow> Inr (ns_pollAt st \<noteq> zeroTime \<and> sint (time_Sub now (ns_pollAt st)) < sint (pollEvery r)))"

definition PollJobs_commit :: "('m, 'a) protocol \<Rightarrow> 'a node_relay \<Rightarrow> gotime \<Rightarrow> node_id \<Rightarrow> 'a list \<Rightarrow> 'a node_relay" where
  "PollJobs_commit p r now n jobs =
     upd_node r n (\<lambda>st. st\<lparr>ns_jobs := jobs, ns_pollAt := now, ns_settled := ns_settled st \<inter> pa_JobID p ` set jobs\<rparr>)"

definition PollJobs_read :: "('m, 'a) protocol \<Rightarrow> 'a node_relay \<Rightarrow> node_id \<Rightarrow> 'a list" where
  "PollJobs_read p r n =
     (case ry_nodes r n of None \<Rightarrow> [] | Some st \<Rightarrow> filter (\<lambda>a. pa_JobID p a \<notin> ns_settled st) (ns_jobs st))"

definition PollJobs :: "('m, 'a) protocol \<Rightarrow> 'a node_relay \<Rightarrow> gotime \<Rightarrow> gotime \<Rightarrow> string + 'a list \<Rightarrow> node_id \<Rightarrow> (relay_error + 'a list) \<times> 'a node_relay" where
  "PollJobs p r t1 t2 up n =
     (case PollJobs_begin r t1 n of
        Inl e \<Rightarrow> (Inl e, r)
      | Inr fresh \<Rightarrow>
          if fresh then (Inr (PollJobs_read p r n), r)
          else (case up of Inl e \<Rightarrow> (Inl (RelUpstream e), r)
                | Inr jobs \<Rightarrow> let r' = PollJobs_commit p r t2 n jobs in (Inr (PollJobs_read p r' n), r')))"

definition settle :: "'a node_relay \<Rightarrow> node_id \<Rightarrow> string \<Rightarrow> 'a node_relay" where
  "settle r n job = upd_node r n (\<lambda>st. st\<lparr>ns_settled := insert job (ns_settled st)\<rparr>)"

text \<open>\<open>Decline\<close> and \<open>ReportJob\<close> have the same body over their own message types.\<close>

definition settle_begin :: "('m, 'a) protocol \<Rightarrow> 'a node_relay \<Rightarrow> 'm \<Rightarrow> relay_error option" where
  "settle_begin p r m = (case signed_by_node p r m of Inl e \<Rightarrow> Some e | Inr _ \<Rightarrow> None)"

definition Relay_Decline :: "('m, 'a) protocol \<Rightarrow> 'a node_relay \<Rightarrow> string option \<Rightarrow> 'm \<Rightarrow> relay_error option \<times> 'a node_relay" where
  "Relay_Decline p r up d =
     (case settle_begin p r d of Some e \<Rightarrow> (Some e, r)
      | None \<Rightarrow> (case up of Some e \<Rightarrow> (Some (RelUpstream e), r) | None \<Rightarrow> (None, settle r (pm_NodeID p d) (pm_JobID p d))))"

definition ReportJob :: "('m, 'a) protocol \<Rightarrow> 'a node_relay \<Rightarrow> string option \<Rightarrow> 'm \<Rightarrow> relay_error option \<times> 'a node_relay" where
  "ReportJob p r up rep =
     (case settle_begin p r rep of Some e \<Rightarrow> (Some e, r)
      | None \<Rightarrow> (case up of Some e \<Rightarrow> (Some (RelUpstream e), r) | None \<Rightarrow> (None, settle r (pm_NodeID p rep) (pm_JobID p rep))))"

section \<open>Interleaved calls\<close>

datatype 'm relay_call = CEnroll node_id bytes | CListing 'm | CBeat 'm | CPoll node_id | CDecline 'm | CReport 'm

text \<open>Where one call stands: not started, past its checks and about to call the orchestrator, with an accepting answer to record,
  about to read the cached jobs, or returned.\<close>

datatype ('m, 'a) task =
  Ask "'m relay_call" | Send "'m relay_call" | Settle "'m relay_call" "'a list" | ReadJobs node_id | Finish "relay_error option" | Jobs "'a list"

fun relay_begin :: "('m, 'a) protocol \<Rightarrow> 'a node_relay \<Rightarrow> gotime \<Rightarrow> 'm relay_call \<Rightarrow> ('m, 'a) task \<times> 'a node_relay" where
  "relay_begin p r now (CEnroll n pub) =
     (case Enroll_begin r n pub of Inl res \<Rightarrow> (Finish res, r)
      | Inr _ \<Rightarrow> (if ry_enrolls r then Send (CEnroll n pub) else Settle (CEnroll n pub) [], r))"
| "relay_begin p r now (CListing l) = (case SubmitListing_begin p r l of Some e \<Rightarrow> (Finish (Some e), r) | None \<Rightarrow> (Send (CListing l), r))"
| "relay_begin p r now (CBeat h) =
     (case Heartbeat_begin p r now h of Inl e \<Rightarrow> (Finish (Some e), r)
      | Inr (forward, r') \<Rightarrow> (if forward then Send (CBeat h) else Finish None, r'))"
| "relay_begin p r now (CPoll n) =
     (case PollJobs_begin r now n of Inl e \<Rightarrow> (Finish (Some e), r) | Inr fresh \<Rightarrow> (if fresh then ReadJobs n else Send (CPoll n), r))"
| "relay_begin p r now (CDecline d) = (case settle_begin p r d of Some e \<Rightarrow> (Finish (Some e), r) | None \<Rightarrow> (Send (CDecline d), r))"
| "relay_begin p r now (CReport d) = (case settle_begin p r d of Some e \<Rightarrow> (Finish (Some e), r) | None \<Rightarrow> (Send (CReport d), r))"

fun relay_commit :: "('m, 'a) protocol \<Rightarrow> 'a node_relay \<Rightarrow> gotime \<Rightarrow> 'm relay_call \<Rightarrow> 'a list \<Rightarrow> ('m, 'a) task \<times> 'a node_relay" where
  "relay_commit p r now (CEnroll n pub) jobs = (Finish None, Enroll_commit r n pub)"
| "relay_commit p r now (CListing l) jobs = (Finish None, SubmitListing_commit p r l)"
| "relay_commit p r now (CBeat h) jobs = (Finish None, Heartbeat_commit p r now h)"
| "relay_commit p r now (CPoll n) jobs = (ReadJobs n, PollJobs_commit p r now n jobs)"
| "relay_commit p r now (CDecline d) jobs = (Finish None, settle r (pm_NodeID p d) (pm_JobID p d))"
| "relay_commit p r now (CReport d) jobs = (Finish None, settle r (pm_NodeID p d) (pm_JobID p d))"

text \<open>The relay, what the orchestrator was sent and when, and the calls in flight.\<close>

record ('m, 'a) relay_sys =
  rs_relay :: "'a node_relay"
  rs_sent :: "(gotime \<times> 'm relay_call) list"
  rs_tasks :: "('m, 'a) task multiset"

inductive relay_step :: "('m, 'a) protocol \<Rightarrow> ('m, 'a) relay_sys \<Rightarrow> ('m, 'a) relay_sys \<Rightarrow> bool" for p where
  arrive: "relay_step p s (s\<lparr>rs_tasks := add_mset (Ask c) (rs_tasks s)\<rparr>)"
| begins: "rs_tasks s = add_mset (Ask c) T \<Longrightarrow> relay_begin p (rs_relay s) t c = (k, r) \<Longrightarrow>
    relay_step p s (s\<lparr>rs_relay := r, rs_tasks := add_mset k T\<rparr>)"
| sends: "rs_tasks s = add_mset (Send c) T \<Longrightarrow> k \<in> insert (Settle c jobs) (range (\<lambda>e. Finish (Some (RelUpstream e)))) \<Longrightarrow>
    relay_step p s (s\<lparr>rs_sent := rs_sent s @ [(t, c)], rs_tasks := add_mset k T\<rparr>)"
| commits: "rs_tasks s = add_mset (Settle c jobs) T \<Longrightarrow> relay_commit p (rs_relay s) t c jobs = (k, r) \<Longrightarrow>
    relay_step p s (s\<lparr>rs_relay := r, rs_tasks := add_mset k T\<rparr>)"
| reads: "rs_tasks s = add_mset (ReadJobs n) T \<Longrightarrow>
    relay_step p s (s\<lparr>rs_tasks := add_mset (Jobs (PollJobs_read p (rs_relay s) n)) T\<rparr>)"

definition relay_start :: "u64 \<Rightarrow> u64 \<Rightarrow> bool \<Rightarrow> ('m, 'a) relay_sys" where
  "relay_start b q e = \<lparr>rs_relay = \<lparr>ry_UpstreamBeat = b, ry_UpstreamPoll = q, ry_enrolls = e, ry_nodes = Map.empty\<rparr>, rs_sent = [], rs_tasks = {#}\<rparr>"

section \<open>What reaches the orchestrator\<close>

text \<open>A call the relay may forward: by an enrolled node, signed under its enrolled key; an enrolment names a node and a full-length key.\<close>

fun vouched :: "('m, 'a) protocol \<Rightarrow> 'a node_relay \<Rightarrow> 'm relay_call \<Rightarrow> bool" where
  "vouched p r (CEnroll n pub) \<longleftrightarrow> n \<noteq> '''' \<and> length pub = PublicKeySize"
| "vouched p r (CPoll n) \<longleftrightarrow> ry_nodes r n \<noteq> None"
| "vouched p r (CListing m) \<longleftrightarrow> (\<exists>st. ry_nodes r (pm_NodeID p m) = Some st \<and> pm_Verify p m (ns_pub st))"
| "vouched p r (CBeat m) \<longleftrightarrow> (\<exists>st. ry_nodes r (pm_NodeID p m) = Some st \<and> pm_Verify p m (ns_pub st))"
| "vouched p r (CDecline m) \<longleftrightarrow> (\<exists>st. ry_nodes r (pm_NodeID p m) = Some st \<and> pm_Verify p m (ns_pub st))"
| "vouched p r (CReport m) \<longleftrightarrow> (\<exists>st. ry_nodes r (pm_NodeID p m) = Some st \<and> pm_Verify p m (ns_pub st))"

text \<open>Nodes stay, with their keys, and heartbeat sequence numbers only grow.\<close>

definition extends :: "'a node_relay \<Rightarrow> 'a node_relay \<Rightarrow> bool" where
  "extends r r' \<longleftrightarrow> (\<forall>n st. ry_nodes r n = Some st \<longrightarrow> (\<exists>st'. ry_nodes r' n = Some st' \<and> ns_pub st' = ns_pub st \<and> ns_beatSeq st \<le> ns_beatSeq st'))"

lemma extends_refl [simp]: "extends r r"
  by (simp add: extends_def)

lemma extendsE:
  assumes "extends r r'" "ry_nodes r n = Some st"
  obtains st' where "ry_nodes r' n = Some st'" "ns_pub st' = ns_pub st" "ns_beatSeq st \<le> ns_beatSeq st'"
  using assms unfolding extends_def by blast

lemma extends_trans:
  assumes "extends r r'" and "extends r' r''"
  shows "extends r r''"
  unfolding extends_def
proof (intro allI impI)
  fix n st assume "ry_nodes r n = Some st"
  then obtain u where u: "ry_nodes r' n = Some u" "ns_pub u = ns_pub st" "ns_beatSeq st \<le> ns_beatSeq u" by (rule extendsE [OF assms(1)])
  then obtain v where "ry_nodes r'' n = Some v" "ns_pub v = ns_pub u" "ns_beatSeq u \<le> ns_beatSeq v" by (auto elim: extendsE [OF assms(2)])
  then show "\<exists>st'. ry_nodes r'' n = Some st' \<and> ns_pub st' = ns_pub st \<and> ns_beatSeq st \<le> ns_beatSeq st'" using u by auto
qed

lemma extends_upd:
  "(\<And>st. ry_nodes r n = Some st \<Longrightarrow> ns_pub (f st) = ns_pub st \<and> ns_beatSeq st \<le> ns_beatSeq (f st)) \<Longrightarrow> extends r (upd_node r n f)"
  by (simp add: extends_def upd_node_def)

lemma vouched_extends: "vouched p r c \<Longrightarrow> extends r r' \<Longrightarrow> vouched p r' c"
  by (cases c) (auto elim: extendsE)

lemma signed_by_node_Inr: "signed_by_node p r m = Inr st \<longleftrightarrow> ry_nodes r (pm_NodeID p m) = Some st \<and> pm_Verify p m (ns_pub st)"
  by (auto simp: signed_by_node_def relay_node_def split: option.splits)

lemma Heartbeat_begin_Inr:
  "Heartbeat_begin p r now h = Inr (fwd, r') \<longleftrightarrow> (\<exists>st. ry_nodes r (pm_NodeID p h) = Some st \<and> pm_Verify p h (ns_pub st) \<and> ns_beatSeq st < pm_Seq p h \<and>
     fwd = (ns_lastBeatUp st = zeroTime \<or> sint (beatEvery r) \<le> sint (time_Sub now (ns_lastBeatUp st))) \<and>
     r' = upd_node r (pm_NodeID p h) (\<lambda>st. st\<lparr>ns_beatSeq := pm_Seq p h\<rparr>))"
  by (auto simp: Heartbeat_begin_def signed_by_node_def relay_node_def not_le split: option.splits)

lemma relay_begin_extends: "relay_begin p r now c = (k, r') \<Longrightarrow> extends r r'"
proof (cases c)
  case (CBeat h)
  assume "relay_begin p r now c = (k, r')"
  then show ?thesis using CBeat
    by (auto simp: Heartbeat_begin_Inr intro!: extends_upd split: sum.splits prod.splits if_splits)
qed (auto split: sum.splits option.splits if_splits)

lemma relay_commit_extends: "relay_commit p r now c jobs = (k, r') \<Longrightarrow> extends r r'"
  by (cases c) (auto simp: Enroll_commit_def SubmitListing_commit_def Heartbeat_commit_def PollJobs_commit_def settle_def extends_def [of r "_\<lparr>ry_nodes := _\<rparr>"]
    intro!: extends_upd)

text \<open>The node and sequence number of every heartbeat that was sent, and of those about to be.\<close>

fun beat_key :: "('m, 'a) protocol \<Rightarrow> 'm relay_call \<Rightarrow> (node_id \<times> u64) list" where
  "beat_key p (CBeat m) = [(pm_NodeID p m, pm_Seq p m)]"
| "beat_key p _ = []"

definition sent_beats :: "('m, 'a) protocol \<Rightarrow> (gotime \<times> 'm relay_call) list \<Rightarrow> (node_id \<times> u64) list" where
  "sent_beats p tr = concat (map (\<lambda>(t, c). beat_key p c) tr)"

fun pending_key :: "('m, 'a) protocol \<Rightarrow> ('m, 'a) task \<Rightarrow> (node_id \<times> u64) multiset" where
  "pending_key p (Send c) = mset (beat_key p c)"
| "pending_key p _ = {#}"

definition beats :: "('m, 'a) protocol \<Rightarrow> ('m, 'a) relay_sys \<Rightarrow> (node_id \<times> u64) multiset" where
  "beats p s = mset (sent_beats p (rs_sent s)) + (\<Sum>k \<in># rs_tasks s. pending_key p k)"

definition relay_inv :: "('m, 'a) protocol \<Rightarrow> ('m, 'a) relay_sys \<Rightarrow> bool" where
  "relay_inv p s \<longleftrightarrow> (\<forall>(t, c) \<in> set (rs_sent s). vouched p (rs_relay s) c) \<and> (\<forall>c. Send c \<in># rs_tasks s \<longrightarrow> vouched p (rs_relay s) c) \<and>
     (\<forall>k. count (beats p s) k \<le> 1) \<and> (\<forall>n q. (n, q) \<in># beats p s \<longrightarrow> (\<exists>st. ry_nodes (rs_relay s) n = Some st \<and> q \<le> ns_beatSeq st))"

lemma relay_invI:
  assumes I: "relay_inv p s" and e: "extends (rs_relay s) (rs_relay s')"
    and sent: "set (rs_sent s') \<subseteq> set (rs_sent s) \<union> {(t, c) | t c. Send c \<in># rs_tasks s}"
    and send: "\<And>c. Send c \<in># rs_tasks s' \<Longrightarrow> Send c \<in># rs_tasks s \<or> vouched p (rs_relay s') c"
    and beats: "beats p s' = beats p s \<or> (\<exists>n q st st'. beats p s' = add_mset (n, q) (beats p s) \<and>
      ry_nodes (rs_relay s) n = Some st \<and> ns_beatSeq st < q \<and> ry_nodes (rs_relay s') n = Some st' \<and> ns_beatSeq st' = q)"
  shows "relay_inv p s'"
proof -
  have old: "\<exists>st. ry_nodes (rs_relay s') n = Some st \<and> q \<le> ns_beatSeq st" if m: "(n, q) \<in># beats p s" for n q
  proof -
    obtain st where "ry_nodes (rs_relay s) n = Some st" "q \<le> ns_beatSeq st" using m I unfolding relay_inv_def by blast
    then show ?thesis using extendsE [OF e] by (metis order_trans)
  qed
  have "(\<forall>k. count (beats p s') k \<le> 1) \<and> (\<forall>n q. (n, q) \<in># beats p s' \<longrightarrow> (\<exists>st. ry_nodes (rs_relay s') n = Some st \<and> q \<le> ns_beatSeq st))"
    using beats
  proof
    assume "beats p s' = beats p s"
    then show ?thesis using I old by (simp add: relay_inv_def)
  next
    assume "\<exists>n q st st'. beats p s' = add_mset (n, q) (beats p s) \<and>
      ry_nodes (rs_relay s) n = Some st \<and> ns_beatSeq st < q \<and> ry_nodes (rs_relay s') n = Some st' \<and> ns_beatSeq st' = q"
    then obtain n q st st' where b: "beats p s' = add_mset (n, q) (beats p s)" "ry_nodes (rs_relay s) n = Some st" "ns_beatSeq st < q"
      "ry_nodes (rs_relay s') n = Some st'" "ns_beatSeq st' = q" by blast
    have "(n, q) \<notin># beats p s" using I b(2,3) unfolding relay_inv_def by (metis leD option.inject)
    then show ?thesis using I old b by (auto simp: relay_inv_def not_in_iff)
  qed
  moreover have "vouched p (rs_relay s') c" if "Send c \<in># rs_tasks s" for c
    using that I vouched_extends [OF _ e] unfolding relay_inv_def by blast
  moreover have "vouched p (rs_relay s') c" if "(t, c) \<in> set (rs_sent s)" for t c
  proof -
    have "vouched p (rs_relay s) c" using that I by (auto simp: relay_inv_def)
    then show ?thesis by (rule vouched_extends [OF _ e])
  qed
  ultimately show ?thesis using sent send unfolding relay_inv_def by blast
qed

lemma relay_begin_send:
  assumes "relay_begin p r now c = (k, r')"
  shows "\<And>c'. k = Send c' \<Longrightarrow> c' = c \<and> vouched p r' c"
    "pending_key p k = {#} \<or> (\<exists>n q st st'. pending_key p k = {#(n, q)#} \<and> ry_nodes r n = Some st \<and> ns_beatSeq st < q \<and> ry_nodes r' n = Some st' \<and> ns_beatSeq st' = q)"
proof -
  show "\<And>c'. k = Send c' \<Longrightarrow> c' = c \<and> vouched p r' c"
    using assms by (cases c) (auto simp: Enroll_begin_def SubmitListing_begin_def Heartbeat_begin_Inr PollJobs_begin_def settle_begin_def signed_by_node_Inr
      relay_node_def upd_node_def split: if_splits sum.splits option.splits)
  show "pending_key p k = {#} \<or> (\<exists>n q st st'. pending_key p k = {#(n, q)#} \<and> ry_nodes r n = Some st \<and> ns_beatSeq st < q \<and> ry_nodes r' n = Some st' \<and> ns_beatSeq st' = q)"
    using assms by (cases c) (auto simp: Heartbeat_begin_Inr upd_node_def split: if_splits sum.splits option.splits)
qed

lemma relay_inv_step:
  assumes "relay_inv p s" and "relay_step p s s'"
  shows "relay_inv p s' \<and> extends (rs_relay s) (rs_relay s')"
  using assms(2)
proof (cases rule: relay_step.cases)
  case (arrive c)
  then show ?thesis by (auto intro!: relay_invI [OF assms(1)] simp: beats_def)
next
  case (begins c T t k r)
  note b = relay_begin_send [OF begins(3)]
  have "extends (rs_relay s) r" by (rule relay_begin_extends [OF begins(3)])
  then show ?thesis using begins(1,2) b by (auto intro!: relay_invI [OF assms(1)] simp: beats_def)
next
  case (sends c T k jobs t)
  then show ?thesis by (auto intro!: relay_invI [OF assms(1)] simp: beats_def sent_beats_def)
next
  case (commits c jobs T t k r)
  then have k: "(\<forall>c'. k \<noteq> Send c') \<and> pending_key p k = {#}" by (cases c) auto
  moreover have "extends (rs_relay s) r" by (rule relay_commit_extends [OF commits(3)])
  ultimately show ?thesis using commits(1,2) by (auto intro!: relay_invI [OF assms(1)] simp: beats_def)
next
  case (reads n T)
  then show ?thesis by (auto intro!: relay_invI [OF assms(1)] simp: beats_def)
qed

abbreviation relay_steps :: "('m, 'a) protocol \<Rightarrow> ('m, 'a) relay_sys \<Rightarrow> ('m, 'a) relay_sys \<Rightarrow> bool" where
  "relay_steps p \<equiv> (relay_step p)\<^sup>*\<^sup>*"

lemma relay_inv_start: "relay_inv p (relay_start b q e)"
  by (simp add: relay_inv_def relay_start_def beats_def sent_beats_def)

lemma relay_steps_inv: "relay_steps p s s' \<Longrightarrow> relay_inv p s \<Longrightarrow> relay_inv p s' \<and> extends (rs_relay s) (rs_relay s')"
proof (induction rule: rtranclp_induct)
  case (step y z)
  then show ?case using relay_inv_step [of p y z] extends_trans by blast
qed simp

text \<open>C24: what reaches the orchestrator under the operator's credential. However the sections of any number of concurrent calls
  interleave and whatever the orchestrator answers, every message that was sent names an enrolled node and
  verifies under the key enrolled for it, every poll is for an enrolled node, no heartbeat of a node is sent twice, and an enrolled key never changes.\<close>

theorem relay_sends_only_vouched:
  assumes "relay_steps p (relay_start b q e) s"
  shows "(\<forall>t c. (t, c) \<in> set (rs_sent s) \<longrightarrow> vouched p (rs_relay s) c) \<and> distinct (sent_beats p (rs_sent s)) \<and>
    (\<forall>s' n st. relay_steps p s s' \<and> ry_nodes (rs_relay s) n = Some st \<longrightarrow> (\<exists>st'. ry_nodes (rs_relay s') n = Some st' \<and> ns_pub st' = ns_pub st))"
proof (intro conjI)
  have I: "relay_inv p s" using relay_steps_inv [OF assms relay_inv_start] by simp
  then show "\<forall>t c. (t, c) \<in> set (rs_sent s) \<longrightarrow> vouched p (rs_relay s) c" by (auto simp: relay_inv_def)
  have "count (mset (sent_beats p (rs_sent s))) k \<le> 1" for k
    using I by (metis add_leD1 beats_def count_union relay_inv_def)
  then show "distinct (sent_beats p (rs_sent s))"
    by (metis (no_types, lifting) count_mset_0_iff distinct_count_atmost_1 le_less_Suc_eq less_one linorder_not_less nat_less_le One_nat_def)
  show "\<forall>s' n st. relay_steps p s s' \<and> ry_nodes (rs_relay s) n = Some st \<longrightarrow> (\<exists>st'. ry_nodes (rs_relay s') n = Some st' \<and> ns_pub st' = ns_pub st)"
    using relay_steps_inv [OF _ I] by (meson extendsE)
qed

section \<open>One call at a time\<close>

text \<open>What the environment gives one call: the two readings of the clock, the orchestrator's error if any, and the jobs it offers.\<close>

record 'a call_env =
  ce_t1 :: gotime
  ce_t2 :: gotime
  ce_err :: "string option"
  ce_jobs :: "'a list"

definition ce_offer :: "'a call_env \<Rightarrow> string + 'a list" where
  "ce_offer ev = (case ce_err ev of Some e \<Rightarrow> Inl e | None \<Rightarrow> Inr (ce_jobs ev))"

fun relay_do :: "('m, 'a) protocol \<Rightarrow> 'a node_relay \<Rightarrow> 'a call_env \<times> 'm relay_call \<Rightarrow> 'a node_relay" where
  "relay_do p r (ev, CEnroll n pub) = snd (Relay_Enroll r (ce_err ev) n pub)"
| "relay_do p r (ev, CListing l) = snd (SubmitListing p r (ce_err ev) l)"
| "relay_do p r (ev, CBeat h) = snd (Heartbeat p r (ce_t1 ev) (ce_t2 ev) (ce_err ev) h)"
| "relay_do p r (ev, CPoll n) = snd (PollJobs p r (ce_t1 ev) (ce_t2 ev) (ce_offer ev) n)"
| "relay_do p r (ev, CDecline d) = snd (Relay_Decline p r (ce_err ev) d)"
| "relay_do p r (ev, CReport d) = snd (ReportJob p r (ce_err ev) d)"

definition relay_run :: "('m, 'a) protocol \<Rightarrow> 'a node_relay \<Rightarrow> ('a call_env \<times> 'm relay_call) list \<Rightarrow> 'a node_relay" where
  "relay_run p r calls = foldl (relay_do p) r calls"

lemma relay_run_simps [simp]:
  "relay_run p r [] = r" "relay_run p r (x # xs) = relay_run p (relay_do p r x) xs" "relay_run p r (xs @ ys) = relay_run p (relay_run p r xs) ys"
  by (simp_all add: relay_run_def)

text \<open>Whether the orchestrator was called and accepted, for the two rolled-up streams, and the stream's window.\<close>

fun accepted_up :: "('m, 'a) protocol \<Rightarrow> 'a node_relay \<Rightarrow> 'a call_env \<times> 'm relay_call \<Rightarrow> bool" where
  "accepted_up p r (ev, CBeat h) \<longleftrightarrow> (\<exists>r'. Heartbeat_begin p r (ce_t1 ev) h = Inr (True, r')) \<and> ce_err ev = None"
| "accepted_up p r (ev, CPoll n) \<longleftrightarrow> PollJobs_begin r (ce_t1 ev) n = Inr False \<and> ce_err ev = None"
| "accepted_up p r _ \<longleftrightarrow> False"

fun same_stream :: "('m, 'a) protocol \<Rightarrow> 'm relay_call \<Rightarrow> 'm relay_call \<Rightarrow> bool" where
  "same_stream p (CBeat h) (CBeat h') \<longleftrightarrow> pm_NodeID p h = pm_NodeID p h'"
| "same_stream p (CPoll n) (CPoll n') \<longleftrightarrow> n = n'"
| "same_stream p _ _ \<longleftrightarrow> False"

fun window :: "'a node_relay \<Rightarrow> 'm relay_call \<Rightarrow> int" where
  "window r (CBeat h) = sint (beatEvery r)"
| "window r (CPoll n) = sint (pollEvery r)"
| "window r _ = 0"

lemma time_Sub_ge: "0 < w \<Longrightarrow> w \<le> sint (time_Sub t u) \<Longrightarrow> w \<le> t - u"
  by (auto simp: time_Sub_def Let_def sint64_of_int simp del: of_int_diff split: if_splits)

lemma every_pos: "0 < sint (beatEvery r)" "0 < sint (pollEvery r)"
  by (simp_all add: beatEvery_def pollEvery_def DefaultUpstreamBeat_def DefaultUpstreamPoll_def Second_def)

lemma relay_do_config: "beatEvery (relay_do p r x) = beatEvery r" "pollEvery (relay_do p r x) = pollEvery r"
  by (cases "(p, r, x)" rule: relay_do.cases;
      auto simp: Relay_Enroll_def Enroll_commit_def SubmitListing_def SubmitListing_commit_def Heartbeat_def Heartbeat_begin_def Heartbeat_commit_def
        PollJobs_def PollJobs_commit_def Relay_Decline_def ReportJob_def settle_def upd_node_def beatEvery_def pollEvery_def Let_def
        split: sum.splits option.splits prod.splits)+

lemma relay_run_config: "beatEvery (relay_run p r xs) = beatEvery r" "pollEvery (relay_run p r xs) = pollEvery r"
  by (induction xs arbitrary: r) (simp_all add: relay_do_config)

text \<open>The instant a stream of a node was last let through.\<close>

fun stream_mark :: "('m, 'a) protocol \<Rightarrow> 'a node_relay \<Rightarrow> 'm relay_call \<Rightarrow> gotime option" where
  "stream_mark p r (CBeat h) = map_option ns_lastBeatUp (ry_nodes r (pm_NodeID p h))"
| "stream_mark p r (CPoll n) = map_option ns_pollAt (ry_nodes r n)"
| "stream_mark p r _ = None"

lemmas relay_ops = Relay_Enroll_def Enroll_begin_def Enroll_commit_def SubmitListing_def SubmitListing_commit_def Heartbeat_def Heartbeat_commit_def
  PollJobs_def PollJobs_commit_def Relay_Decline_def ReportJob_def settle_def upd_node_def Let_def ce_offer_def

lemma Heartbeat_accepted: "Heartbeat_begin p r t1 h = Inr (True, r') \<Longrightarrow> snd (Heartbeat p r t1 t2 None h) = Heartbeat_commit p r' t2 h"
  by (simp add: Heartbeat_def)

lemma accepted_sets_mark: "accepted_up p r (ev, c) \<Longrightarrow> same_stream p c c' \<Longrightarrow> stream_mark p (relay_do p r (ev, c)) c' = Some (ce_t2 ev)"
proof (cases c)
  case (CBeat h)
  assume a: "accepted_up p r (ev, c)" "same_stream p c c'"
  then obtain r' h' where h: "Heartbeat_begin p r (ce_t1 ev) h = Inr (True, r')" "ce_err ev = None" "c' = CBeat h'" "pm_NodeID p h = pm_NodeID p h'"
    using CBeat by (cases c') auto
  moreover obtain st where "ry_nodes r' (pm_NodeID p h') = Some st" using h(1,4) by (auto simp: Heartbeat_begin_Inr upd_node_def)
  ultimately show ?thesis by (simp add: CBeat Heartbeat_accepted Heartbeat_commit_def upd_node_def)
next
  case (CPoll n)
  assume "accepted_up p r (ev, c)" "same_stream p c c'"
  then show ?thesis using CPoll
    by (cases c') (auto simp: relay_ops PollJobs_begin_def relay_node_def split: option.splits)
qed (cases c'; simp)+

lemma node_marks_move:
  assumes "ry_nodes r n = Some st"
  shows "\<exists>st'. ry_nodes (relay_do p r (ev, c)) n = Some st' \<and> ns_lastBeatUp st' \<in> {ns_lastBeatUp st, ce_t2 ev} \<and> ns_pollAt st' \<in> {ns_pollAt st, ce_t2 ev}"
proof (cases c)
  case (CBeat h)
  show ?thesis
  proof (cases "Heartbeat_begin p r (ce_t1 ev) h")
    case (Inr x)
    obtain fwd r' where "x = (fwd, r')" by (cases x)
    with Inr have "Heartbeat_begin p r (ce_t1 ev) h = Inr (fwd, r')" "r' = upd_node r (pm_NodeID p h) (\<lambda>st. st\<lparr>ns_beatSeq := pm_Seq p h\<rparr>)"
      using Heartbeat_begin_Inr [of p r "ce_t1 ev" h fwd r'] by auto
    then show ?thesis using assms by (auto simp: CBeat Heartbeat_def Heartbeat_commit_def upd_node_def split: option.splits)
  qed (use assms in \<open>simp add: CBeat Heartbeat_def\<close>)
next
  case (CPoll m)
  then show ?thesis using assms by (auto simp: PollJobs_def PollJobs_commit_def upd_node_def Let_def split: sum.splits)
next
  case (CListing l)
  then show ?thesis using assms
    by (cases "ns_listSeq st < pm_Seq p l") (auto simp: SubmitListing_def SubmitListing_commit_def upd_node_def split: option.splits)
qed (use assms in \<open>auto simp: Relay_Enroll_def Enroll_commit_def Relay_Decline_def ReportJob_def settle_def upd_node_def split: sum.splits option.splits\<close>)

lemma mark_moves:
  assumes "stream_mark p r c = Some m"
  shows "stream_mark p (relay_do p r (ev, c')) c \<in> {Some m, Some (ce_t2 ev)}"
proof (cases c)
  case (CBeat h)
  then show ?thesis using assms node_marks_move [of r "pm_NodeID p h" _ p ev c'] by fastforce
next
  case (CPoll n)
  then show ?thesis using assms node_marks_move [of r n _ p ev c'] by fastforce
qed (use assms in simp_all)

lemma mark_run:
  assumes "stream_mark p r c = Some m" "t \<le> m" "\<forall>(ev, c') \<in> set xs. t \<le> ce_t2 ev"
  shows "\<exists>m'. stream_mark p (relay_run p r xs) c = Some m' \<and> t \<le> m'"
  using assms
proof (induction xs arbitrary: r m)
  case (Cons x xs)
  obtain ev c' where x: "x = (ev, c')" by (cases x)
  have "stream_mark p (relay_do p r x) c \<in> {Some m, Some (ce_t2 ev)}" using mark_moves [OF Cons.prems(1)] x by simp
  then obtain m' where "stream_mark p (relay_do p r x) c = Some m'" "t \<le> m'" using Cons.prems(2,3) x by auto
  then show ?case using Cons.IH Cons.prems(3) by simp
qed auto

lemma accepted_waits:
  assumes "accepted_up p r (ev, c)" "stream_mark p r c = Some m" "m \<noteq> zeroTime"
  shows "window r c \<le> ce_t1 ev - m"
proof (cases c)
  case (CBeat h)
  then show ?thesis using assms time_Sub_ge [OF every_pos(1) [of r]] by (auto simp: Heartbeat_begin_Inr)
next
  case (CPoll n)
  then show ?thesis using assms time_Sub_ge [OF every_pos(2) [of r]]
    by (auto simp: PollJobs_begin_def relay_node_def not_less split: option.splits)
qed (use assms in simp_all)

text \<open>C25: traffic is rolled up. When calls do not overlap, between two heartbeats of a node, or two polls for it, that the orchestrator
  accepted, at least the configured window passes: from the reading of the clock after the first was accepted to the reading before the second was sent.
  The clock of the calls in between must not fall behind the first and the first must not be recorded at the zero time.\<close>

theorem rollup_spacing:
  assumes "accepted_up p (relay_run p r pre) (ev1, c1)" "accepted_up p (relay_run p r (pre @ (ev1, c1) # mid)) (ev2, c2)"
    "same_stream p c1 c2" "zeroTime < ce_t2 ev1" "\<forall>(ev, c) \<in> set mid. ce_t2 ev1 \<le> ce_t2 ev"
  shows "window r c2 \<le> ce_t1 ev2 - ce_t2 ev1 \<and> 0 < window r c2"
proof -
  let ?r1 = "relay_do p (relay_run p r pre) (ev1, c1)"
  have "stream_mark p ?r1 c2 = Some (ce_t2 ev1)" by (rule accepted_sets_mark [OF assms(1,3)])
  then obtain m where m: "stream_mark p (relay_run p ?r1 mid) c2 = Some m" "ce_t2 ev1 \<le> m" using mark_run [OF _ order_refl assms(5)] by blast
  have "window (relay_run p ?r1 mid) c2 \<le> ce_t1 ev2 - m"
    using assms(2,4) m by (intro accepted_waits) auto
  moreover have "window (relay_run p ?r1 mid) c2 = window r c2" by (cases c2) (simp_all add: relay_run_config relay_do_config)
  moreover have "0 < window r c2" using assms(3) every_pos by (cases c1; cases c2) auto
  ultimately show ?thesis using m(2) by simp
qed

section \<open>Settled jobs\<close>

text \<open>Whether a call replaces the cached jobs of a node by an answer that no longer offers a job.\<close>

fun withdraws :: "('m, 'a) protocol \<Rightarrow> node_id \<Rightarrow> string \<Rightarrow> 'a call_env \<times> 'm relay_call \<Rightarrow> bool" where
  "withdraws p n j (ev, CPoll m) \<longleftrightarrow> m = n \<and> ce_err ev = None \<and> j \<notin> pa_JobID p ` set (ce_jobs ev)"
| "withdraws p n j _ \<longleftrightarrow> False"

definition settled_at :: "'a node_relay \<Rightarrow> node_id \<Rightarrow> string \<Rightarrow> bool" where
  "settled_at r n j \<longleftrightarrow> (\<exists>st. ry_nodes r n = Some st \<and> j \<in> ns_settled st)"

lemma settled_stays:
  assumes "settled_at r n j" and "\<not> withdraws p n j (ev, c)"
  shows "settled_at (relay_do p r (ev, c)) n j"
proof (cases c)
  case (CBeat h)
  show ?thesis
  proof (cases "Heartbeat_begin p r (ce_t1 ev) h")
    case (Inr x)
    obtain fwd r' where "x = (fwd, r')" by (cases x)
    with Inr have "Heartbeat_begin p r (ce_t1 ev) h = Inr (fwd, r')" "r' = upd_node r (pm_NodeID p h) (\<lambda>st. st\<lparr>ns_beatSeq := pm_Seq p h\<rparr>)"
      using Heartbeat_begin_Inr [of p r "ce_t1 ev" h fwd r'] by auto
    then show ?thesis using assms(1) by (auto simp: CBeat Heartbeat_def Heartbeat_commit_def settled_at_def upd_node_def split: option.splits)
  qed (use assms in \<open>simp add: CBeat Heartbeat_def\<close>)
next
  case (CListing l)
  obtain st where st: "ry_nodes r n = Some st" "j \<in> ns_settled st" using assms(1) by (auto simp: settled_at_def)
  then show ?thesis
    by (cases "ns_listSeq st < pm_Seq p l")
       (auto simp: CListing SubmitListing_def SubmitListing_commit_def settled_at_def upd_node_def split: option.splits)
next
  case (CPoll m)
  then show ?thesis using assms
    by (auto simp: PollJobs_def PollJobs_commit_def settled_at_def upd_node_def Let_def ce_offer_def split: sum.splits option.splits)
qed (use assms(1) in \<open>auto simp: Relay_Enroll_def Enroll_commit_def Relay_Decline_def ReportJob_def settle_def settled_at_def upd_node_def split: sum.splits option.splits\<close>)

lemma settled_run: "settled_at r n j \<Longrightarrow> \<forall>x \<in> set xs. \<not> withdraws p n j x \<Longrightarrow> settled_at (relay_run p r xs) n j"
proof (induction xs arbitrary: r)
  case (Cons x xs)
  then show ?case using settled_stays [of r n j p "fst x" "snd x"] by simp
qed simp

lemma settled_poll:
  assumes "settled_at r n j" "fst (PollJobs p r t1 t2 up n) = Inr jobs" "a \<in> set jobs"
  shows "pa_JobID p a \<noteq> j"
  using assms
  by (auto simp: settled_at_def PollJobs_def PollJobs_read_def PollJobs_commit_def upd_node_def Let_def split: sum.splits if_splits)

lemma ReportJob_settles: "fst (ReportJob p r up m) = None \<Longrightarrow> settled_at (snd (ReportJob p r up m)) (pm_NodeID p m) (pm_JobID p m)"
  by (auto simp: ReportJob_def settle_begin_def settle_def settled_at_def upd_node_def signed_by_node_def relay_node_def split: sum.splits option.splits if_splits)

text \<open>A settled job is handed back only after the orchestrator stopped offering it. If a node's report was accepted, then whatever calls
  follow one after another, a poll for that node answers with that job only if some poll in between was answered without it. After
  one answer without it, a job the orchestrator offers again is handed back.\<close>

theorem settled_jobs_withheld:
  assumes "fst (ReportJob p r up m) = None" and "pa_JobID p a = pm_JobID p m"
  shows "(\<forall>mid t1 t2 offer jobs. (\<forall>x \<in> set mid. \<not> withdraws p (pm_NodeID p m) (pm_JobID p m) x) \<and>
      fst (PollJobs p (relay_run p (snd (ReportJob p r up m)) mid) t1 t2 offer (pm_NodeID p m)) = Inr jobs \<longrightarrow> a \<notin> set jobs) \<and>
    (\<forall>t1 t2. let r1 = snd (ReportJob p r up m); r2 = PollJobs_commit p r1 t1 (pm_NodeID p m) [] in
       PollJobs_begin r1 t1 (pm_NodeID p m) = Inr False \<and> PollJobs_begin r2 t2 (pm_NodeID p m) = Inr False \<longrightarrow>
       snd (PollJobs p r1 t1 t1 (Inr []) (pm_NodeID p m)) = r2 \<and> fst (PollJobs p r2 t2 t2 (Inr [a]) (pm_NodeID p m)) = Inr [a])"
proof (intro conjI allI impI)
  let ?n = "pm_NodeID p m" and ?j = "pm_JobID p m" and ?r = "snd (ReportJob p r up m)"
  fix mid t1 t2 offer jobs
  assume h: "(\<forall>x \<in> set mid. \<not> withdraws p ?n ?j x) \<and> fst (PollJobs p (relay_run p ?r mid) t1 t2 offer ?n) = Inr jobs"
  then have "settled_at (relay_run p ?r mid) ?n ?j" using settled_run [OF ReportJob_settles [OF assms(1)]] by blast
  from settled_poll [OF this conjunct2 [OF h], of a] show "a \<notin> set jobs" using assms(2) by auto
next
  fix t1 t2
  show "let r1 = snd (ReportJob p r up m); r2 = PollJobs_commit p r1 t1 (pm_NodeID p m) [] in
       PollJobs_begin r1 t1 (pm_NodeID p m) = Inr False \<and> PollJobs_begin r2 t2 (pm_NodeID p m) = Inr False \<longrightarrow>
       snd (PollJobs p r1 t1 t1 (Inr []) (pm_NodeID p m)) = r2 \<and> fst (PollJobs p r2 t2 t2 (Inr [a]) (pm_NodeID p m)) = Inr [a]"
    by (auto simp: PollJobs_def PollJobs_read_def PollJobs_commit_def upd_node_def PollJobs_begin_def relay_node_def Let_def split: option.splits)
qed

section \<open>Races\<close>

text \<open>A concrete protocol: a message is its node, sequence number and job; an assignment its job.\<close>

definition sample_protocol :: "(string \<times> u64 \<times> string, string) protocol" where
  "sample_protocol = \<lparr>pm_NodeID = fst, pm_Seq = (\<lambda>m. fst (snd m)), pm_JobID = (\<lambda>m. snd (snd m)), pm_Verify = (\<lambda>m pub. pub = replicate 32 1), pa_JobID = id\<rparr>"

definition rsys :: "'a node_relay \<Rightarrow> (gotime \<times> 'm relay_call) list \<Rightarrow> ('m, 'a) task list \<Rightarrow> ('m, 'a) relay_sys" where
  "rsys r tr ts = \<lparr>rs_relay = r, rs_sent = tr, rs_tasks = mset ts\<rparr>"

lemma rsys_steps:
  "relay_step p (rsys r tr ts) (rsys r tr (Ask c # ts))"
  "relay_begin p r t c = (k, r') \<Longrightarrow> relay_step p (rsys r tr (xs @ Ask c # ys)) (rsys r' tr (xs @ k # ys))"
  "relay_step p (rsys r tr (xs @ Send c # ys)) (rsys r (tr @ [(t, c)]) (xs @ Settle c jobs # ys))"
  "relay_commit p r t c jobs = (k, r') \<Longrightarrow> relay_step p (rsys r tr (xs @ Settle c jobs # ys)) (rsys r' tr (xs @ k # ys))"
  using arrive [of p "rsys r tr ts" c] begins [of "rsys r tr (xs @ Ask c # ys)" c "mset xs + mset ys" p t k r']
    sends [of "rsys r tr (xs @ Send c # ys)" c "mset xs + mset ys" "Settle c jobs" jobs p t]
    commits [of "rsys r tr (xs @ Settle c jobs # ys)" c jobs "mset xs + mset ys" p t k r']
  by (simp_all add: rsys_def)

lemma relay_steps_Cons: "relay_step p s s' \<Longrightarrow> relay_steps p s' s'' \<Longrightarrow> relay_steps p s s''"
  by (rule converse_rtranclp_into_rtranclp)

lemma beat_race:
  "\<exists>s. relay_steps sample_protocol (relay_start b q False) s \<and>
     rs_sent s = [(1, CBeat (''n'', 1, '''')), (1, CBeat (''n'', 2, ''''))]"
proof -
  let ?p = sample_protocol and ?k = "replicate 32 1 :: bytes" and ?h1 = "CBeat (''n'', 1, '''')" and ?h2 = "CBeat (''n'', 2, '''')"
  let ?r0 = "\<lparr>ry_UpstreamBeat = b, ry_UpstreamPoll = q, ry_enrolls = False, ry_nodes = Map.empty\<rparr>"
  let ?r1 = "Enroll_commit ?r0 ''n'' ?k"
  let ?r2 = "upd_node ?r1 ''n'' (\<lambda>st. st\<lparr>ns_beatSeq := 1\<rparr>)"
  let ?r3 = "upd_node ?r2 ''n'' (\<lambda>st. st\<lparr>ns_beatSeq := 2\<rparr>)"
  have b0: "relay_begin ?p ?r0 0 (CEnroll ''n'' ?k) = (Settle (CEnroll ''n'' ?k) [], ?r0)" by (simp add: Enroll_begin_def PublicKeySize_def)
  have b1: "relay_begin ?p ?r1 1 ?h1 = (Send ?h1, ?r2)" "relay_begin ?p ?r2 1 ?h2 = (Send ?h2, ?r3)"
    by (simp_all add: Heartbeat_begin_def signed_by_node_def relay_node_def Enroll_commit_def new_node_def upd_node_def sample_protocol_def word_le_nat_alt)
  have "relay_step ?p (rsys ?r0 [] []) (rsys ?r0 [] [Ask (CEnroll ''n'' ?k)])" by (rule rsys_steps(1))
  moreover have "relay_step ?p (rsys ?r0 [] [Ask (CEnroll ''n'' ?k)]) (rsys ?r0 [] [Settle (CEnroll ''n'' ?k) []])"
    using rsys_steps(2) [OF b0, of "[]" "[]" "[]"] by simp
  moreover have "relay_step ?p (rsys ?r0 [] [Settle (CEnroll ''n'' ?k) []]) (rsys ?r1 [] [Finish None])"
    using rsys_steps(4) [of ?p ?r0 0 "CEnroll ''n'' ?k" "[]" "Finish None" ?r1 "[]" "[]" "[]"] by simp
  moreover have "relay_step ?p (rsys ?r1 [] [Finish None]) (rsys ?r1 [] [Ask ?h1, Finish None])" by (rule rsys_steps(1))
  moreover have "relay_step ?p (rsys ?r1 [] [Ask ?h1, Finish None]) (rsys ?r1 [] [Ask ?h2, Ask ?h1, Finish None])" by (rule rsys_steps(1))
  moreover have "relay_step ?p (rsys ?r1 [] [Ask ?h2, Ask ?h1, Finish None]) (rsys ?r2 [] [Ask ?h2, Send ?h1, Finish None])"
    using rsys_steps(2) [OF b1(1), of "[]" "[Ask ?h2]" "[Finish None]"] by simp
  moreover have "relay_step ?p (rsys ?r2 [] [Ask ?h2, Send ?h1, Finish None]) (rsys ?r3 [] [Send ?h2, Send ?h1, Finish None])"
    using rsys_steps(2) [OF b1(2), of "[]" "[]" "[Send ?h1, Finish None]"] by simp
  moreover have "relay_step ?p (rsys ?r3 [] [Send ?h2, Send ?h1, Finish None]) (rsys ?r3 [(1, ?h1)] [Send ?h2, Settle ?h1 [], Finish None])"
    using rsys_steps(3) [of ?p ?r3 "[]" "[Send ?h2]" ?h1 "[Finish None]" 1 "[]"] by simp
  moreover have "relay_step ?p (rsys ?r3 [(1, ?h1)] [Send ?h2, Settle ?h1 [], Finish None]) (rsys ?r3 [(1, ?h1), (1, ?h2)] [Settle ?h2 [], Settle ?h1 [], Finish None])"
    using rsys_steps(3) [of ?p ?r3 "[(1, ?h1)]" "[]" ?h2 "[Settle ?h1 [], Finish None]" 1 "[]"] by simp
  ultimately have "relay_steps ?p (rsys ?r0 [] []) (rsys ?r3 [(1, ?h1), (1, ?h2)] [Settle ?h2 [], Settle ?h1 [], Finish None])"
    by (meson relay_steps_Cons rtranclp.rtrancl_refl)
  moreover have "rsys ?r0 [] [] = relay_start b q False" "rs_sent (rsys ?r3 [(1, ?h1), (1, ?h2)] [Settle ?h2 [], Settle ?h1 [], Finish None]) = [(1, ?h1), (1, ?h2)]"
    by (simp_all add: rsys_def relay_start_def)
  ultimately show ?thesis by metis
qed

lemma enroll_race:
  "\<exists>s st. relay_steps sample_protocol (relay_start b q True) s \<and> rs_tasks s = {#Finish None, Finish None#} \<and>
     rs_sent s = [(0, CEnroll ''n'' (replicate 32 1)), (0, CEnroll ''n'' (replicate 32 2))] \<and>
     ry_nodes (rs_relay s) ''n'' = Some st \<and> ns_pub st = replicate 32 1"
proof -
  let ?p = sample_protocol and ?e1 = "CEnroll ''n'' (replicate 32 1)" and ?e2 = "CEnroll ''n'' (replicate 32 2)"
  let ?r0 = "\<lparr>ry_UpstreamBeat = b, ry_UpstreamPoll = q, ry_enrolls = True, ry_nodes = Map.empty\<rparr> :: string node_relay"
  let ?r1 = "Enroll_commit ?r0 ''n'' (replicate 32 1)"
  have b0: "relay_begin ?p ?r0 0 ?e1 = (Send ?e1, ?r0)" "relay_begin ?p ?r0 0 ?e2 = (Send ?e2, ?r0)" by (simp_all add: Enroll_begin_def PublicKeySize_def)
  have "relay_step ?p (rsys ?r0 [] []) (rsys ?r0 [] [Ask ?e2])" by (rule rsys_steps(1))
  moreover have "relay_step ?p (rsys ?r0 [] [Ask ?e2]) (rsys ?r0 [] [Ask ?e1, Ask ?e2])" by (rule rsys_steps(1))
  moreover have "relay_step ?p (rsys ?r0 [] [Ask ?e1, Ask ?e2]) (rsys ?r0 [] [Send ?e1, Ask ?e2])"
    using rsys_steps(2) [OF b0(1), of "[]" "[]" "[Ask ?e2]"] by simp
  moreover have "relay_step ?p (rsys ?r0 [] [Send ?e1, Ask ?e2]) (rsys ?r0 [] [Send ?e1, Send ?e2])"
    using rsys_steps(2) [OF b0(2), of "[]" "[Send ?e1]" "[]"] by simp
  moreover have "relay_step ?p (rsys ?r0 [] [Send ?e1, Send ?e2]) (rsys ?r0 [(0, ?e1)] [Settle ?e1 [], Send ?e2])"
    using rsys_steps(3) [of ?p ?r0 "[]" "[]" ?e1 "[Send ?e2]" 0 "[]"] by simp
  moreover have "relay_step ?p (rsys ?r0 [(0, ?e1)] [Settle ?e1 [], Send ?e2]) (rsys ?r0 [(0, ?e1), (0, ?e2)] [Settle ?e1 [], Settle ?e2 []])"
    using rsys_steps(3) [of ?p ?r0 "[(0, ?e1)]" "[Settle ?e1 []]" ?e2 "[]" 0 "[]"] by simp
  moreover have "relay_step ?p (rsys ?r0 [(0, ?e1), (0, ?e2)] [Settle ?e1 [], Settle ?e2 []]) (rsys ?r1 [(0, ?e1), (0, ?e2)] [Finish None, Settle ?e2 []])"
    using rsys_steps(4) [of ?p ?r0 0 ?e1 "[]" "Finish None" ?r1 "[(0, ?e1), (0, ?e2)]" "[]" "[Settle ?e2 []]"] by simp
  moreover have "relay_step ?p (rsys ?r1 [(0, ?e1), (0, ?e2)] [Finish None, Settle ?e2 []]) (rsys ?r1 [(0, ?e1), (0, ?e2)] [Finish None, Finish None])"
    using rsys_steps(4) [of ?p ?r1 0 ?e2 "[]" "Finish None" ?r1 "[(0, ?e1), (0, ?e2)]" "[Finish None]" "[]"] by (simp add: Enroll_commit_def)
  ultimately have "relay_steps ?p (rsys ?r0 [] []) (rsys ?r1 [(0, ?e1), (0, ?e2)] [Finish None, Finish None])"
    by (meson relay_steps_Cons rtranclp.rtrancl_refl)
  moreover have "rsys ?r0 [] [] = relay_start b q True" "rs_tasks (rsys ?r1 [(0, ?e1), (0, ?e2)] [Finish None, Finish None]) = {#Finish None, Finish None#}"
    "rs_sent (rsys ?r1 [(0, ?e1), (0, ?e2)] [Finish None, Finish None]) = [(0, ?e1), (0, ?e2)]"
    "ry_nodes (rs_relay (rsys ?r1 [(0, ?e1), (0, ?e2)] [Finish None, Finish None])) ''n'' = Some (new_node (replicate 32 1))"
    "ns_pub (new_node (replicate 32 1)) = replicate 32 1"
    by (simp_all add: rsys_def relay_start_def Enroll_commit_def new_node_def)
  ultimately show ?thesis by metis
qed

text \<open>C26: the checks and the records of a call are separate critical sections, so concurrent calls defeat two of the relay's rules, whatever
  the windows: two heartbeats of one node are sent at the same instant, because the first is recorded only after the orchestrator answered; and of two
  concurrent enrolments of one node with different keys both return without an error although only the first key is
  enrolled, because the second check does not compare the keys.\<close>

theorem relay_races:
  "(\<exists>s. relay_steps sample_protocol (relay_start b q False) s \<and>
     rs_sent s = [(1, CBeat (''n'', 1, '''')), (1, CBeat (''n'', 2, ''''))]) \<and>
   (\<exists>s st. relay_steps sample_protocol (relay_start b q True) s \<and> rs_tasks s = {#Finish None, Finish None#} \<and>
     rs_sent s = [(0, CEnroll ''n'' (replicate 32 1)), (0, CEnroll ''n'' (replicate 32 2))] \<and>
     ry_nodes (rs_relay s) ''n'' = Some st \<and> ns_pub st = replicate 32 1)"
  using beat_race enroll_race by blast

theorem relay_sends_only_vouched_witness:
  "\<exists>s. relay_steps sample_protocol (relay_start 0 0 False) s \<and> length (rs_sent s) = 2 \<and>
     vouched sample_protocol (rs_relay s) (CBeat (''n'', 1, '''')) \<and> distinct (sent_beats sample_protocol (rs_sent s))"
proof -
  obtain s where s: "relay_steps sample_protocol (relay_start 0 0 False) s" "rs_sent s = [(1, CBeat (''n'', 1, '''')), (1, CBeat (''n'', 2, ''''))]"
    using beat_race by blast
  then show ?thesis using relay_sends_only_vouched [OF s(1)] by (metis length_Cons list.set_intros(1) list.size(3) numeral_2_eq_2)
qed

definition sample_env :: "gotime \<Rightarrow> string list \<Rightarrow> string call_env" where
  "sample_env t jobs = \<lparr>ce_t1 = t, ce_t2 = t, ce_err = None, ce_jobs = jobs\<rparr>"

definition sample_relay :: "string node_relay" where
  "sample_relay = \<lparr>ry_UpstreamBeat = 10, ry_UpstreamPoll = 10, ry_enrolls = False, ry_nodes = [''n'' \<mapsto> new_node (replicate 32 1)]\<rparr>"

theorem rollup_spacing_witness:
  "let p = sample_protocol; x = (sample_env 5 [], CBeat (''n'', 1, '''')); y = (sample_env 20 [], CBeat (''n'', 2, '''')) in
   accepted_up p sample_relay x \<and> accepted_up p (relay_do p sample_relay x) y \<and> window sample_relay (snd y) \<le> 20 - 5"
proof -
  let ?p = sample_protocol and ?x = "(sample_env 5 [], CBeat (''n'', 1, ''''))" and ?y = "(sample_env 20 [], CBeat (''n'', 2, ''''))"
  note d = Heartbeat_def Heartbeat_begin_def Heartbeat_commit_def signed_by_node_def relay_node_def upd_node_def sample_relay_def sample_env_def
    sample_protocol_def new_node_def beatEvery_def time_Sub_def zeroTime_def word_le_nat_alt
  have a: "accepted_up ?p sample_relay ?x" "accepted_up ?p (relay_do ?p sample_relay ?x) ?y" by (simp_all add: d)
  have "window sample_relay (snd ?y) \<le> ce_t1 (fst ?y) - ce_t2 (fst ?x)"
    using rollup_spacing [of ?p sample_relay "[]" "fst ?x" "snd ?x" "[]" "fst ?y" "snd ?y"] a by (simp add: sample_env_def sample_protocol_def zeroTime_def)
  then show ?thesis using a by (simp add: Let_def sample_env_def)
qed

theorem settled_jobs_withheld_witness:
  "let p = sample_protocol; r1 = snd (ReportJob p sample_relay None (''n'', 0, ''j'')) in
   fst (ReportJob p sample_relay None (''n'', 0, ''j'')) = None \<and> pa_JobID p ''j'' = ''j'' \<and>
   (\<nexists>jobs. fst (PollJobs p r1 5 5 (Inr [''j'']) ''n'') = Inr jobs \<and> ''j'' \<in> set jobs)"
proof -
  have r: "fst (ReportJob sample_protocol sample_relay None (''n'', 0, ''j'')) = None"
    by (simp add: ReportJob_def settle_begin_def signed_by_node_def relay_node_def sample_relay_def sample_protocol_def new_node_def)
  have n: "pa_JobID sample_protocol ''j'' = pm_JobID sample_protocol (''n'', 0, ''j'')" "pm_NodeID sample_protocol (''n'', 0, ''j'') = ''n''"
    by (simp_all add: sample_protocol_def)
  have "''j'' \<notin> set jobs"
    if j: "fst (PollJobs sample_protocol (snd (ReportJob sample_protocol sample_relay None (''n'', 0, ''j''))) 5 5 (Inr [''j'']) ''n'') = Inr jobs" for jobs
    using conjunct1 [OF settled_jobs_withheld [OF r n(1)], rule_format, of "[]" 5 5 "Inr [''j'']" jobs] j n(2) by simp
  then show ?thesis using r by (auto simp: Let_def sample_protocol_def)
qed

end
