(* ===== verification/Node_Auth.thy ===== *)
theory Node_Auth
  imports Node_Relay Sample
begin

text \<open>
  Request authentication between a node and its frontend (\<open>src/internal/noderelay/auth.go\<close>): the agent's request decorator,
  the frontend's check of it, the node a call names, and the gate in front of the protocol's HTTP handler. Base64 and JSON are a
  parameter record with the one law the round trip needs; the protocol's handler behind the gate is not modelled.
\<close>

section \<open>Data\<close>

definition AuthWindow :: u64 where "AuthWindow = 120 * Second"
definition domainRequest :: string where "domainRequest = ''cloudy/noderelay/request/v0''"
definition maxBody :: nat where "maxBody = 1048576"

record auth_wire =
  aw_NodeID :: string
  aw_TS :: u64
  aw_Sig :: string

record auth_codec =
  b64_Encode :: "bytes \<Rightarrow> string"
  b64_Decode :: "string \<Rightarrow> bytes option"
  json_Marshal :: "auth_wire \<Rightarrow> bytes"
  json_Unmarshal :: "bytes \<Rightarrow> auth_wire option"
  body_NodeID :: "bytes \<Rightarrow> string option"

text \<open>What the code reads of a request; a body that fails to read is \<open>None\<close>, a header or query that is absent is empty.\<close>

record http_request =
  hr_Method :: string
  hr_RequestURI :: string
  hr_Path :: string
  hr_Auth :: string
  hr_node_id :: string
  hr_Body :: "bytes option"

datatype auth_error =
    AuthMissing | AuthMalformed | AuthMalformedSig | AuthWindowErr | AuthNode relay_error | AuthSignature | AuthReplay u64 | AuthPanic
  | NameRead | NameTooLarge | NameNoNode | NameMissing

definition requestBytes :: "crypto \<Rightarrow> string \<Rightarrow> string \<Rightarrow> node_id \<Rightarrow> u64 \<Rightarrow> bytes" where
  "requestBytes c method target node ts = canon_sum c domainRequest [CString method, CString target, CString node, CInt64 ts]"

section \<open>Operations\<close>

text \<open>The closure \<open>NodeAuth\<close> returns: \<open>last\<close> is the variable it captures, \<open>now\<close> the reading of the clock in nanoseconds.\<close>

definition NodeAuth :: "crypto \<Rightarrow> auth_codec \<Rightarrow> node_id \<Rightarrow> bytes \<Rightarrow> u64 \<Rightarrow> u64 \<Rightarrow> http_request \<Rightarrow> http_request \<times> u64" where
  "NodeAuth c cd node key lst now req =
     (let ts = (if sint now \<le> sint lst then lst + 1 else now);
          sig = ed_sign c key (requestBytes c (hr_Method req) (hr_RequestURI req) node ts);
          raw = json_Marshal cd \<lparr>aw_NodeID = node, aw_TS = ts, aw_Sig = b64_Encode cd sig\<rparr>
      in (req\<lparr>hr_Auth := b64_Encode cd raw\<rparr>, ts))"

definition authenticate :: "crypto \<Rightarrow> auth_codec \<Rightarrow> 'a node_relay \<Rightarrow> gotime \<Rightarrow> http_request \<Rightarrow> (auth_error + node_id) \<times> 'a node_relay" where
  "authenticate c cd r now req =
     (if hr_Auth req = '''' then (Inl AuthMissing, r)
      else case b64_Decode cd (hr_Auth req) of None \<Rightarrow> (Inl AuthMalformed, r) | Some jb \<Rightarrow>
        case json_Unmarshal cd jb of None \<Rightarrow> (Inl AuthMalformed, r) | Some a \<Rightarrow>
        if aw_NodeID a = '''' then (Inl AuthMalformed, r)
        else case b64_Decode cd (aw_Sig a) of None \<Rightarrow> (Inl AuthMalformedSig, r) | Some sig \<Rightarrow>
          let skew = time_Sub now (sint (aw_TS a)) in
          if sint skew > sint AuthWindow \<or> sint skew < sint (- AuthWindow) then (Inl AuthWindowErr, r)
          else case relay_node r (aw_NodeID a) of Inl e \<Rightarrow> (Inl (AuthNode e), r) | Inr st \<Rightarrow>
            (case ed25519_Verify c (ns_pub st) (requestBytes c (hr_Method req) (hr_RequestURI req) (aw_NodeID a) (aw_TS a)) sig of
               None \<Rightarrow> (Inl AuthPanic, r)
             | Some ok \<Rightarrow>
                 if \<not> ok then (Inl AuthSignature, r)
                 else if sint (aw_TS a) \<le> sint (ns_lastAuthTS st) then (Inl (AuthReplay (aw_TS a)), r)
                 else (Inr (aw_NodeID a), upd_node r (aw_NodeID a) (\<lambda>st. st\<lparr>ns_lastAuthTS := aw_TS a\<rparr>))))"

definition signedPOSTs :: "string set" where
  "signedPOSTs = {''/v0/listing'', ''/v0/heartbeat'', ''/v0/decline'', ''/v0/report''}"

text \<open>The node a call names, empty where it names none, and the body read ahead.\<close>

definition namedNode :: "auth_codec \<Rightarrow> http_request \<Rightarrow> auth_error + node_id \<times> bytes option" where
  "namedNode cd req =
     (if hr_Method req = ''POST'' \<and> hr_Path req \<in> signedPOSTs then
        (case hr_Body req of None \<Rightarrow> Inl NameRead | Some body \<Rightarrow>
          if length (take (maxBody + 1) body) > maxBody then Inl NameTooLarge
          else case body_NodeID cd body of None \<Rightarrow> Inl NameNoNode
            | Some n \<Rightarrow> if n = '''' then Inl NameNoNode else Inr (n, Some body))
      else if hr_Method req = ''GET'' \<and> hr_Path req = ''/v0/jobs'' then
        (if hr_node_id req = '''' then Inl NameMissing else Inr (hr_node_id req, None))
      else Inr ('''', None))"

text \<open>What the gate decides: pass an open read, answer an error, or hand the request to the protocol's handler.\<close>

datatype gate = GateOpen | GateUnauthorized auth_error | GateBadRequest auth_error | GateForbidden | GateServe node_id

definition Relay_Handler :: "crypto \<Rightarrow> auth_codec \<Rightarrow> 'a node_relay \<Rightarrow> gotime \<Rightarrow> http_request \<Rightarrow> gate \<times> 'a node_relay" where
  "Relay_Handler c cd r now req =
     (if hr_Method req = ''GET'' \<and> hr_Path req = ''/v0/fees'' then (GateOpen, r)
      else case authenticate c cd r now req of
          (Inl e, r') \<Rightarrow> (GateUnauthorized e, r')
        | (Inr node, r') \<Rightarrow>
            (case namedNode cd req of Inl e \<Rightarrow> (GateBadRequest e, r')
             | Inr (named, body) \<Rightarrow> if named \<noteq> '''' \<and> named \<noteq> node then (GateForbidden, r') else (GateServe node, r')))"

section \<open>What an accepted request proves\<close>

lemma authenticate_Inr:
  "authenticate c cd r now req = (Inr n, r') \<longleftrightarrow> (\<exists>jb a sig st. hr_Auth req \<noteq> '''' \<and> b64_Decode cd (hr_Auth req) = Some jb \<and> json_Unmarshal cd jb = Some a \<and>
     aw_NodeID a = n \<and> n \<noteq> '''' \<and> b64_Decode cd (aw_Sig a) = Some sig \<and>
     sint (- AuthWindow) \<le> sint (time_Sub now (sint (aw_TS a))) \<and> sint (time_Sub now (sint (aw_TS a))) \<le> sint AuthWindow \<and>
     ry_nodes r n = Some st \<and> ed25519_Verify c (ns_pub st) (requestBytes c (hr_Method req) (hr_RequestURI req) n (aw_TS a)) sig = Some True \<and>
     sint (ns_lastAuthTS st) < sint (aw_TS a) \<and> r' = upd_node r n (\<lambda>st. st\<lparr>ns_lastAuthTS := aw_TS a\<rparr>))"
  by (auto simp: authenticate_def relay_node_def Let_def not_le not_less split: option.splits sum.splits if_splits)

text \<open>What a frontend serves: calls of the relay and requests at its gate, one after another.\<close>

datatype ('m, 'a) frontend_event = EvCall "'a call_env" "'m relay_call" | EvRequest gotime http_request

fun frontend_do :: "crypto \<Rightarrow> auth_codec \<Rightarrow> ('m, 'a) protocol \<Rightarrow> 'a node_relay \<Rightarrow> ('m, 'a) frontend_event \<Rightarrow> 'a node_relay" where
  "frontend_do c cd p r (EvCall ev call) = relay_do p r (ev, call)"
| "frontend_do c cd p r (EvRequest now req) = snd (Relay_Handler c cd r now req)"

definition frontend_run :: "crypto \<Rightarrow> auth_codec \<Rightarrow> ('m, 'a) protocol \<Rightarrow> 'a node_relay \<Rightarrow> ('m, 'a) frontend_event list \<Rightarrow> 'a node_relay" where
  "frontend_run c cd p r evs = foldl (frontend_do c cd p) r evs"

definition header_ts :: "auth_codec \<Rightarrow> http_request \<Rightarrow> u64" where
  "header_ts cd req = (case b64_Decode cd (hr_Auth req) of None \<Rightarrow> 0 | Some jb \<Rightarrow> case json_Unmarshal cd jb of None \<Rightarrow> 0 | Some a \<Rightarrow> aw_TS a)"

definition auth_floor :: "'a node_relay \<Rightarrow> node_id \<Rightarrow> int \<Rightarrow> bool" where
  "auth_floor r n l \<longleftrightarrow> (\<exists>st. ry_nodes r n = Some st \<and> l \<le> sint (ns_lastAuthTS st))"

lemma auth_floor_upd: "auth_floor r n l \<Longrightarrow> (\<And>st. ns_lastAuthTS (f st) = ns_lastAuthTS st) \<Longrightarrow> auth_floor (upd_node r m f) n l"
  by (auto simp: auth_floor_def upd_node_def)

lemma auth_floor_call:
  assumes "auth_floor r n l"
  shows "auth_floor (relay_do p r (ev, call)) n l"
proof (cases call)
  case (CBeat h)
  show ?thesis
  proof (cases "Heartbeat_begin p r (ce_t1 ev) h")
    case (Inr x)
    obtain fwd r' where "x = (fwd, r')" by (cases x)
    with Inr have hb: "Heartbeat_begin p r (ce_t1 ev) h = Inr (fwd, r')" and "r' = upd_node r (pm_NodeID p h) (\<lambda>st. st\<lparr>ns_beatSeq := pm_Seq p h\<rparr>)"
      using Heartbeat_begin_Inr [of p r "ce_t1 ev" h fwd r'] by auto
    then have "auth_floor r' n l" using auth_floor_upd [OF assms] by simp
    then show ?thesis using hb by (auto simp: CBeat Heartbeat_def Heartbeat_commit_def split: option.splits intro!: auth_floor_upd)
  qed (use assms in \<open>simp add: CBeat Heartbeat_def\<close>)
qed (use assms in \<open>auto simp: Relay_Enroll_def Enroll_commit_def SubmitListing_def SubmitListing_commit_def PollJobs_def PollJobs_commit_def Relay_Decline_def
  ReportJob_def settle_def Let_def split: sum.splits option.splits intro!: auth_floor_upd, auto simp: auth_floor_def\<close>)

lemma auth_floor_authenticate:
  assumes "auth_floor r n l"
  shows "auth_floor (snd (authenticate c cd r now req)) n l"
proof (cases "authenticate c cd r now req")
  case (Pair res r')
  show ?thesis
  proof (cases res)
    case (Inr m)
    obtain a :: auth_wire and st where "ry_nodes r m = Some st" "sint (ns_lastAuthTS st) < sint (aw_TS a)" "r' = upd_node r m (\<lambda>st. st\<lparr>ns_lastAuthTS := aw_TS a\<rparr>)"
      using Pair [unfolded Inr authenticate_Inr] by blast
    then show ?thesis using assms Pair by (auto simp: auth_floor_def upd_node_def)
  next
    case (Inl e)
    have "r' = r" using Pair Inl by (auto simp: authenticate_def Let_def split: option.splits sum.splits if_splits)
    then show ?thesis using assms Pair by simp
  qed
qed

lemma Relay_Handler_state: "snd (Relay_Handler c cd r now req) \<in> {r, snd (authenticate c cd r now req)}"
  by (auto simp: Relay_Handler_def split: prod.splits sum.splits)

lemma auth_floor_run: "auth_floor r n l \<Longrightarrow> auth_floor (frontend_run c cd p r evs) n l"
proof (induction evs rule: rev_induct)
  case (snoc e evs)
  then have f: "auth_floor (frontend_run c cd p r evs) n l" by simp
  show ?case
  proof (cases e)
    case (EvCall ev call)
    then show ?thesis using auth_floor_call [OF f] by (simp add: frontend_run_def)
  next
    case (EvRequest now req)
    then show ?thesis
      using auth_floor_authenticate [OF f, of c cd now req] Relay_Handler_state [of c cd "frontend_run c cd p r evs" now req] f
      by (auto simp: frontend_run_def)
  qed
qed (simp add: frontend_run_def)

lemma GateServe_authentic:
  assumes "Relay_Handler c cd r now req = (GateServe n, r')"
  shows "authenticate c cd r now req = (Inr n, r')" "\<exists>named body. namedNode cd req = Inr (named, body) \<and> (named = '''' \<or> named = n)"
  using assms by (auto simp: Relay_Handler_def split: if_splits prod.splits sum.splits)

text \<open>C27: what it takes to pass the gate. A request is handed to the protocol's handler as a node only if that node is
  enrolled and its enrolled key signed this very method and target with the header's timestamp; a signed post then names that node in its body and a job poll
  names it in its query; and whatever the frontend serves afterwards, a later request passes as the same node only with a strictly later timestamp, so no header passes twice.\<close>

theorem gate_serves_authentic:
  assumes "Relay_Handler c cd r now req = (GateServe n, r')"
  shows "(\<exists>st sig. ry_nodes r n = Some st \<and> sig_ok c (ns_pub st) (requestBytes c (hr_Method req) (hr_RequestURI req) n (header_ts cd req)) sig) \<and>
    (hr_Method req = ''POST'' \<and> hr_Path req \<in> signedPOSTs \<longrightarrow> (\<exists>body. hr_Body req = Some body \<and> length body \<le> maxBody \<and> body_NodeID cd body = Some n)) \<and>
    (hr_Method req = ''GET'' \<and> hr_Path req = ''/v0/jobs'' \<longrightarrow> hr_node_id req = n) \<and>
    (\<forall>p evs now2 req2 r2. Relay_Handler c cd (frontend_run c cd (p :: ('m, 'a) protocol) r' evs) now2 req2 = (GateServe n, r2) \<longrightarrow>
       sint (header_ts cd req) < sint (header_ts cd req2) \<and> hr_Auth req2 \<noteq> hr_Auth req)"
proof (intro conjI allI impI)
  obtain jb a sig st where a: "b64_Decode cd (hr_Auth req) = Some jb" "json_Unmarshal cd jb = Some a" "ry_nodes r n = Some st" "n \<noteq> ''''"
    "ed25519_Verify c (ns_pub st) (requestBytes c (hr_Method req) (hr_RequestURI req) n (aw_TS a)) sig = Some True"
    "r' = upd_node r n (\<lambda>st. st\<lparr>ns_lastAuthTS := aw_TS a\<rparr>)"
    using GateServe_authentic(1) [OF assms, unfolded authenticate_Inr] by blast
  have ts: "header_ts cd req = aw_TS a" using a by (simp add: header_ts_def)
  show "\<exists>st sig. ry_nodes r n = Some st \<and> sig_ok c (ns_pub st) (requestBytes c (hr_Method req) (hr_RequestURI req) n (header_ts cd req)) sig"
    using a(3,5) ts by (auto simp: sig_ok_def)
  show "\<exists>body. hr_Body req = Some body \<and> length body \<le> maxBody \<and> body_NodeID cd body = Some n" if "hr_Method req = ''POST'' \<and> hr_Path req \<in> signedPOSTs"
    using that GateServe_authentic(2) [OF assms] a(4) by (auto simp: namedNode_def not_less split: option.splits if_splits)
  show "hr_node_id req = n" if "hr_Method req = ''GET'' \<and> hr_Path req = ''/v0/jobs''"
    using that GateServe_authentic(2) [OF assms] by (auto simp: namedNode_def split: if_splits)
  fix p :: "('m, 'a) protocol" and evs now2 req2 r2
  assume "Relay_Handler c cd (frontend_run c cd p r' evs) now2 req2 = (GateServe n, r2)"
  from GateServe_authentic(1) [OF this, unfolded authenticate_Inr] obtain jb2 and a2 :: auth_wire and st2 where b: "b64_Decode cd (hr_Auth req2) = Some jb2"
    "json_Unmarshal cd jb2 = Some a2" "ry_nodes (frontend_run c cd p r' evs) n = Some st2" "sint (ns_lastAuthTS st2) < sint (aw_TS a2)" by blast
  have "auth_floor r' n (sint (aw_TS a))" using a(3) by (simp add: a(6) auth_floor_def upd_node_def)
  then have "sint (aw_TS a) \<le> sint (ns_lastAuthTS st2)" using auth_floor_run [of r' n "sint (aw_TS a)" c cd p evs] b(3) by (simp add: auth_floor_def)
  then show lt: "sint (header_ts cd req) < sint (header_ts cd req2)" using b ts by (simp add: header_ts_def)
  then show "hr_Auth req2 \<noteq> hr_Auth req" by (auto simp: header_ts_def)
qed

section \<open>A node's own requests\<close>

text \<open>What is relied on of \<open>encoding/base64\<close> and \<open>encoding/json\<close>: they read back what they wrote and write something.\<close>

definition codec_laws :: "auth_codec \<Rightarrow> node_id \<Rightarrow> bool" where
  "codec_laws cd node \<longleftrightarrow> (\<forall>b. b64_Decode cd (b64_Encode cd b) = Some b) \<and> (\<forall>b. b64_Encode cd b = '''' \<longrightarrow> b = []) \<and>
     (\<forall>a. aw_NodeID a = node \<longrightarrow> json_Marshal cd a \<noteq> [] \<and> json_Unmarshal cd (json_Marshal cd a) = Some a)"

lemma sint_succ: "sint (w :: u64) < 9223372036854775807 \<Longrightarrow> sint (w + 1) = sint w + 1"
  using sint64_add [of w 1] sint64_range [of w] by simp

lemma time_Sub_exact: "\<bar>t - u\<bar> \<le> w \<Longrightarrow> w \<le> 9223372036854775807 \<Longrightarrow> sint (time_Sub t u) = t - u"
  by (auto simp: time_Sub_def Let_def sint64_of_int simp del: of_int_diff)

lemma decorated_accepted:
  assumes "keypair c key" "node \<noteq> ''''" "codec_laws cd node" "ry_nodes r node = Some st" "ns_pub st = ed_public c key"
    "sint (ns_lastAuthTS st) \<le> sint lst" "sint lst < sint MaxInt64" "NodeAuth c cd node key lst now req = (req', ts)" "\<bar>fnow - sint ts\<bar> \<le> sint AuthWindow"
  shows "authenticate c cd r fnow req' = (Inr node, upd_node r node (\<lambda>st. st\<lparr>ns_lastAuthTS := ts\<rparr>)) \<and>
    sint lst < sint ts \<and> sint now \<le> sint ts"
proof -
  let ?sig = "ed_sign c key (requestBytes c (hr_Method req) (hr_RequestURI req) node ts)"
  let ?a = "\<lparr>aw_NodeID = node, aw_TS = ts, aw_Sig = b64_Encode cd ?sig\<rparr>"
  have ts: "ts = (if sint now \<le> sint lst then lst + 1 else now)" and req': "req' = req\<lparr>hr_Auth := b64_Encode cd (json_Marshal cd ?a)\<rparr>"
    using assms(8) by (auto simp: NodeAuth_def Let_def)
  have later: "sint lst < sint ts" "sint now \<le> sint ts" using ts sint_succ [of lst] assms(7) by auto
  have w: "sint AuthWindow = 120000000000" "sint (- AuthWindow) = - 120000000000" by (simp_all add: AuthWindow_def Second_def)
  have skew: "sint (time_Sub fnow (sint ts)) = fnow - sint ts" using assms(9) w(1) by (intro time_Sub_exact [of _ _ "sint AuthWindow"]) simp_all
  have "authenticate c cd r fnow req' = (Inr node, upd_node r node (\<lambda>st. st\<lparr>ns_lastAuthTS := aw_TS ?a\<rparr>))"
    unfolding authenticate_Inr
  proof (intro exI conjI)
    show "hr_Auth req' \<noteq> ''''" using assms(3) by (auto simp: codec_laws_def req')
    show "b64_Decode cd (hr_Auth req') = Some (json_Marshal cd ?a)" using assms(3) by (simp add: codec_laws_def req')
    show "json_Unmarshal cd (json_Marshal cd ?a) = Some ?a" using assms(3) by (simp add: codec_laws_def)
    show "b64_Decode cd (aw_Sig ?a) = Some ?sig" using assms(3) by (simp add: codec_laws_def)
    show "ed25519_Verify c (ns_pub st) (requestBytes c (hr_Method req') (hr_RequestURI req') node (aw_TS ?a)) ?sig = Some True"
      using keypair_verify(1) [OF assms(1)] assms(5) by (simp add: req')
    show "sint (- AuthWindow) \<le> sint (time_Sub fnow (sint (aw_TS ?a)))" "sint (time_Sub fnow (sint (aw_TS ?a))) \<le> sint AuthWindow"
      using assms(9) w skew by simp_all
  qed (use assms(2,4,6) later in simp_all)
  then show ?thesis using later by (simp add: req')
qed

text \<open>An enrolled node is let in. A request the node decorates is accepted as that node when its frontend's clock is within two minutes of
  the timestamp, the frontend has seen no later timestamp than the decorator's last one, and that last one is not the largest; the
  timestamp is strictly later than the last even if the clock stalled, and afterwards the frontend has seen exactly it, so the same holds for the next request.\<close>

theorem node_auth_accepted:
  assumes "keypair c key" "node \<noteq> ''''" "codec_laws cd node" "ry_nodes r node = Some st" "ns_pub st = ed_public c key"
    "sint (ns_lastAuthTS st) \<le> sint lst" "sint lst < sint MaxInt64" "NodeAuth c cd node key lst now req = (req', ts)" "\<bar>fnow - sint ts\<bar> \<le> sint AuthWindow"
  shows "authenticate c cd r fnow req' = (Inr node, upd_node r node (\<lambda>st. st\<lparr>ns_lastAuthTS := ts\<rparr>)) \<and>
    sint lst < sint ts \<and> sint now \<le> sint ts \<and> hr_Method req' = hr_Method req \<and> hr_RequestURI req' = hr_RequestURI req \<and> hr_Body req' = hr_Body req"
  using decorated_accepted [OF assms] assms(8) by (auto simp: NodeAuth_def Let_def)

section \<open>A concrete node\<close>

text \<open>A codec for the node \<open>n\<close>: bytes as they are, a header as its timestamp in unary and its signature.\<close>

definition sample_codec :: auth_codec where
  "sample_codec = \<lparr>b64_Encode = str_of_bytes, b64_Decode = (\<lambda>s. Some (bytes_of_str s)),
     json_Marshal = (\<lambda>a. enc_nat (unat (aw_TS a)) @ bytes_of_str (aw_Sig a)),
     json_Unmarshal = (\<lambda>b. let n = length (takeWhile ((=) 1) b) in
       Some \<lparr>aw_NodeID = ''n'', aw_TS = word_of_nat n, aw_Sig = str_of_bytes (drop (n + 1) b)\<rparr>),
     body_NodeID = (\<lambda>b. Some (str_of_bytes b))\<rparr>"

lemma sample_codec_laws: "codec_laws sample_codec ''n''"
proof -
  have "takeWhile ((=) 1) (replicate k 1 @ 0 # xs) = replicate k (1 :: byte)" for k xs by (induction k) simp_all
  moreover have "str_of_bytes b = '''' \<longleftrightarrow> b = []" for b by (simp add: str_of_bytes_def)
  ultimately show ?thesis by (auto simp: codec_laws_def sample_codec_def Let_def enc_nat_def)
qed

definition sample_request :: http_request where
  "sample_request = \<lparr>hr_Method = ''POST'', hr_RequestURI = ''/v0/heartbeat'', hr_Path = ''/v0/heartbeat'', hr_Auth = '''', hr_node_id = '''',
     hr_Body = Some (bytes_of_str ''n'')\<rparr>"

definition sample_sent :: http_request where
  "sample_sent = fst (NodeAuth sample_crypto sample_codec ''n'' (sample_priv 1) 0 7 sample_request)"

theorem node_auth_accepted_witness:
  "NodeAuth sample_crypto sample_codec ''n'' (sample_priv 1) 0 7 sample_request = (sample_sent, 7) \<and>
   authenticate sample_crypto sample_codec sample_relay 9 sample_sent = (Inr ''n'', upd_node sample_relay ''n'' (\<lambda>st. st\<lparr>ns_lastAuthTS := 7\<rparr>))"
proof -
  have n: "NodeAuth sample_crypto sample_codec ''n'' (sample_priv 1) 0 7 sample_request = (sample_sent, 7)"
    by (simp add: sample_sent_def NodeAuth_def Let_def)
  then show ?thesis
    using node_auth_accepted [OF sample_keypair _ sample_codec_laws _ _ _ _ n, of sample_relay "new_node (replicate 32 1)" 9]
    by (simp add: sample_relay_def new_node_def AuthWindow_def Second_def)
qed

theorem gate_serves_authentic_witness:
  "\<exists>r'. Relay_Handler sample_crypto sample_codec sample_relay 9 sample_sent = (GateServe ''n'', r') \<and>
     (\<exists>st sig. ry_nodes sample_relay ''n'' = Some st \<and>
        sig_ok sample_crypto (ns_pub st) (requestBytes sample_crypto ''POST'' ''/v0/heartbeat'' ''n'' (header_ts sample_codec sample_sent)) sig)"
proof -
  have n: "NodeAuth sample_crypto sample_codec ''n'' (sample_priv 1) 0 7 sample_request = (sample_sent, 7)"
    by (simp add: sample_sent_def NodeAuth_def Let_def)
  have "sample_sent = sample_request\<lparr>hr_Auth := hr_Auth sample_sent\<rparr>" by (simp add: sample_sent_def NodeAuth_def Let_def)
  then have f: "hr_Method sample_sent = ''POST''" "hr_Path sample_sent = ''/v0/heartbeat''" "hr_RequestURI sample_sent = ''/v0/heartbeat''"
    "hr_Body sample_sent = Some (bytes_of_str ''n'')" by (simp_all add: sample_sent_def NodeAuth_def Let_def sample_request_def)
  have "fst (authenticate sample_crypto sample_codec sample_relay 9 sample_sent) = Inr ''n''"
    using decorated_accepted [OF sample_keypair _ sample_codec_laws _ _ _ _ n, of sample_relay "new_node (replicate 32 1)" 9]
    by (simp add: sample_relay_def new_node_def AuthWindow_def Second_def)
  moreover have "body_NodeID sample_codec [110] = Some ''n''"
    using str_of_bytes_of_str [of "''n''"] by (simp add: sample_codec_def bytes_of_str_def)
  ultimately obtain r' where "Relay_Handler sample_crypto sample_codec sample_relay 9 sample_sent = (GateServe ''n'', r')"
    by (cases "authenticate sample_crypto sample_codec sample_relay 9 sample_sent")
       (auto simp: Relay_Handler_def f namedNode_def signedPOSTs_def maxBody_def bytes_of_str_def)
  then show ?thesis using gate_serves_authentic [of sample_crypto sample_codec sample_relay 9 sample_sent "''n''" r'] f by auto
qed

end
