(* ===== verification/Witness_Relay.thy ===== *)
theory Witness_Relay
  imports Wire
begin

text \<open>
  The witness relay (\<open>src/internal/relay/relay.go\<close>): published checkpoints and countersignatures are cached per log and served
  as they came, filings are fanned out to witness intakes. Requests are the decoded bodies, \<open>None\<close> where decoding
  fails; the iteration order of Go maps is left open by serving sets. The answers of the intakes are an argument.
\<close>

section \<open>Data\<close>

record checkpoint_msg =
  cm_Log :: string
  cm_Size :: u64
  cm_Head :: string
  cm_IssuedAt :: string
  cm_Signature :: string
  cm_Operator :: string
  cm_Kind :: string
  cm_ConsistencyFrom :: u64
  cm_ConsistencyProof :: "string list"

record countersig_msg =
  sm_Log :: string
  sm_Size :: u64
  sm_Witness :: string
  sm_Signature :: string

record bundle_msg =
  bm_Checkpoint :: checkpoint_msg
  bm_Countersignatures :: "countersig_msg set"

record log_state =
  lt_cp :: checkpoint_msg
  lt_cosign :: "string \<rightharpoonup> countersig_msg"

record witness_relay =
  wr_logs :: "string \<rightharpoonup> log_state"
  wr_intakes :: "string list"

datatype 'a relay_reply = RelayFault nat string | RelayOK 'a

section \<open>Operations\<close>

definition Relay_New :: "string list \<Rightarrow> witness_relay" where
  "Relay_New intakes = \<lparr>wr_logs = Map.empty, wr_intakes = map id intakes\<rparr>"

definition handlePublish :: "witness_relay \<Rightarrow> string \<Rightarrow> checkpoint_msg option \<Rightarrow> unit relay_reply \<times> witness_relay" where
  "handlePublish rl path body =
     (case body of None \<Rightarrow> (RelayFault 400 ''invalid JSON body'', rl) | Some msg \<Rightarrow>
        if cm_Log msg = '''' \<or> cm_Log msg \<noteq> path then (RelayFault 400 ''log path and body disagree'', rl)
        else (RelayOK (),
              case wr_logs rl (cm_Log msg) of
                None \<Rightarrow> rl\<lparr>wr_logs := (wr_logs rl)(cm_Log msg \<mapsto> \<lparr>lt_cp = msg, lt_cosign = Map.empty\<rparr>)\<rparr>
              | Some st \<Rightarrow>
                  if cm_Size msg > cm_Size (lt_cp st) then rl\<lparr>wr_logs := (wr_logs rl)(cm_Log msg \<mapsto> \<lparr>lt_cp = msg, lt_cosign = Map.empty\<rparr>)\<rparr>
                  else rl))"

definition handleCountersig :: "witness_relay \<Rightarrow> string \<Rightarrow> countersig_msg option \<Rightarrow> unit relay_reply \<times> witness_relay" where
  "handleCountersig rl path body =
     (case body of None \<Rightarrow> (RelayFault 400 ''invalid JSON body'', rl) | Some msg \<Rightarrow>
        if sm_Log msg \<noteq> path then (RelayFault 400 ''log path and body disagree'', rl)
        else case wr_logs rl (sm_Log msg) of
            None \<Rightarrow> (RelayFault 409 ''no cached checkpoint at this size; poll latest and countersign that'', rl)
          | Some st \<Rightarrow>
              if cm_Size (lt_cp st) \<noteq> sm_Size msg then (RelayFault 409 ''no cached checkpoint at this size; poll latest and countersign that'', rl)
              else (RelayOK (), rl\<lparr>wr_logs := (wr_logs rl)(sm_Log msg \<mapsto> st\<lparr>lt_cosign := (lt_cosign st)(sm_Witness msg \<mapsto> msg)\<rparr>)\<rparr>))"

definition handleLatest :: "witness_relay \<Rightarrow> string \<Rightarrow> bundle_msg relay_reply" where
  "handleLatest rl path =
     (case wr_logs rl path of
        None \<Rightarrow> RelayFault 404 ''no checkpoint cached for this log''
      | Some st \<Rightarrow> RelayOK \<lparr>bm_Checkpoint = lt_cp st, bm_Countersignatures = ran (lt_cosign st)\<rparr>)"

definition handleLogs :: "witness_relay \<Rightarrow> string set" where
  "handleLogs rl = dom (wr_logs rl)"

text \<open>An intake's answer: no connection, a status with a body that fails to read, or a status and its body.\<close>

datatype intake_answer = NoAnswer | BadBody nat | Answer nat bytes

record filing_reply =
  fp_receipts :: "bytes list"
  fp_intakes :: nat
  fp_failures :: nat

fun filing_loop :: "(string \<Rightarrow> bytes \<Rightarrow> intake_answer) \<Rightarrow> bytes \<Rightarrow> string list \<Rightarrow> bytes list \<times> nat \<Rightarrow> bytes list \<times> nat" where
  "filing_loop post body [] acc = acc"
| "filing_loop post body (base # bases) (receipts, failures) =
     (case post (base @ ''/v1/filings'') body of
        NoAnswer \<Rightarrow> filing_loop post body bases (receipts, failures + 1)
      | BadBody code \<Rightarrow> filing_loop post body bases (receipts, failures + 1)
      | Answer code rb \<Rightarrow>
          if code \<noteq> 200 then filing_loop post body bases (receipts, failures + 1)
          else filing_loop post body bases (receipts @ [take 65536 rb], failures))"

definition handleFiling :: "witness_relay \<Rightarrow> (string \<Rightarrow> bytes \<Rightarrow> intake_answer) \<Rightarrow> bytes option \<Rightarrow> filing_reply relay_reply" where
  "handleFiling rl post body =
     (case body of None \<Rightarrow> RelayFault 400 ''reading body'' | Some raw \<Rightarrow>
        let (receipts, failures) = filing_loop post (take 65536 raw) (wr_intakes rl) ([], 0) in
        RelayOK \<lparr>fp_receipts = receipts, fp_intakes = length (wr_intakes rl), fp_failures = failures\<rparr>)"

section \<open>What is served is what was posted\<close>

datatype relay_post = PubReq string "checkpoint_msg option" | SigReq string "countersig_msg option"

fun relay_serve :: "witness_relay \<Rightarrow> relay_post \<Rightarrow> witness_relay" where
  "relay_serve rl (PubReq path b) = snd (handlePublish rl path b)"
| "relay_serve rl (SigReq path b) = snd (handleCountersig rl path b)"

definition relay_history :: "string list \<Rightarrow> relay_post list \<Rightarrow> witness_relay" where
  "relay_history intakes hist = foldl relay_serve (Relay_New intakes) hist"

text \<open>The checkpoints well-formed publications of a log carried, and the countersignatures posted to it.\<close>

definition published :: "string \<Rightarrow> relay_post list \<Rightarrow> checkpoint_msg list" where
  "published lg hist = concat (map (\<lambda>q. case q of PubReq path (Some m) \<Rightarrow> if cm_Log m = lg \<and> path = lg \<and> lg \<noteq> '''' then [m] else [] | _ \<Rightarrow> []) hist)"

definition signed_at :: "string \<Rightarrow> u64 \<Rightarrow> relay_post list \<Rightarrow> countersig_msg list" where
  "signed_at lg n hist = concat (map (\<lambda>q. case q of SigReq path (Some m) \<Rightarrow> if sm_Log m = lg \<and> path = lg \<and> sm_Size m = n then [m] else [] | _ \<Rightarrow> []) hist)"

text \<open>The last of a list of countersignatures for each witness.\<close>

definition last_by :: "countersig_msg list \<Rightarrow> string \<rightharpoonup> countersig_msg" where
  "last_by ms = map_of (map (\<lambda>m. (sm_Witness m, m)) (rev ms))"

lemma published_snoc: "published lg (hist @ [q]) = published lg hist @ (case q of PubReq path (Some m) \<Rightarrow> if cm_Log m = lg \<and> path = lg \<and> lg \<noteq> '''' then [m] else [] | _ \<Rightarrow> [])"
  by (simp add: published_def)

lemma signed_at_snoc: "signed_at lg n (hist @ [q]) = signed_at lg n hist @ (case q of SigReq path (Some m) \<Rightarrow> if sm_Log m = lg \<and> path = lg \<and> sm_Size m = n then [m] else [] | _ \<Rightarrow> [])"
  by (simp add: signed_at_def)

lemma last_by_snoc: "last_by (ms @ [m]) = (last_by ms)(sm_Witness m \<mapsto> m)"
  by (simp add: last_by_def)

lemma last_by_Nil [simp]: "last_by [] = Map.empty"
  by (simp add: last_by_def)

definition cached_as :: "string \<Rightarrow> relay_post list \<Rightarrow> log_state option \<Rightarrow> bool" where
  "cached_as lg hist st \<longleftrightarrow>
     (case st of None \<Rightarrow> published lg hist = []
      | Some s \<Rightarrow> \<exists>pre post. hist = pre @ PubReq lg (Some (lt_cp s)) # post \<and> cm_Log (lt_cp s) = lg \<and> lg \<noteq> '''' \<and>
          (\<forall>m \<in> set (published lg pre). cm_Size m < cm_Size (lt_cp s)) \<and> (\<forall>m \<in> set (published lg post). cm_Size m \<le> cm_Size (lt_cp s)) \<and>
          lt_cosign s = last_by (signed_at lg (cm_Size (lt_cp s)) post))"

lemma serve_publish:
  "wr_logs (relay_serve rl (PubReq path (Some m))) lg =
     (if cm_Log m = lg \<and> path = lg \<and> lg \<noteq> '''' \<and> (case wr_logs rl lg of None \<Rightarrow> True | Some s \<Rightarrow> cm_Size (lt_cp s) < cm_Size m)
      then Some \<lparr>lt_cp = m, lt_cosign = Map.empty\<rparr> else wr_logs rl lg)"
  by (auto simp: handlePublish_def split: option.splits)

lemma serve_countersig:
  "wr_logs (relay_serve rl (SigReq path (Some m))) lg =
     (case wr_logs rl lg of None \<Rightarrow> None
      | Some s \<Rightarrow> Some (if sm_Log m = lg \<and> path = lg \<and> sm_Size m = cm_Size (lt_cp s) then s\<lparr>lt_cosign := (lt_cosign s)(sm_Witness m \<mapsto> m)\<rparr> else s))"
  by (auto simp: handleCountersig_def split: option.splits)

lemma serve_malformed: "wr_logs (relay_serve rl (PubReq path None)) lg = wr_logs rl lg" "wr_logs (relay_serve rl (SigReq path None)) lg = wr_logs rl lg"
  by (simp_all add: handlePublish_def handleCountersig_def)

lemmas serve_simps = serve_publish serve_countersig serve_malformed

lemma cached_as_SomeI:
  assumes "hist = pre @ PubReq lg (Some (lt_cp s)) # post" "cm_Log (lt_cp s) = lg" "lg \<noteq> ''''"
    "\<forall>m \<in> set (published lg pre). cm_Size m < cm_Size (lt_cp s)" "\<forall>m \<in> set (published lg post). cm_Size m \<le> cm_Size (lt_cp s)"
    "lt_cosign s = last_by (signed_at lg (cm_Size (lt_cp s)) post)"
  shows "cached_as lg hist (Some s)"
  unfolding cached_as_def option.case using assms by blast

lemma cached_as_SomeE:
  assumes "cached_as lg hist (Some s)"
  obtains pre post where "hist = pre @ PubReq lg (Some (lt_cp s)) # post" "cm_Log (lt_cp s) = lg" "lg \<noteq> ''''"
    "\<forall>m \<in> set (published lg pre). cm_Size m < cm_Size (lt_cp s)" "\<forall>m \<in> set (published lg post). cm_Size m \<le> cm_Size (lt_cp s)"
    "lt_cosign s = last_by (signed_at lg (cm_Size (lt_cp s)) post)"
  using assms unfolding cached_as_def option.case by blast

lemma published_simps:
  "published lg (xs @ ys) = published lg xs @ published lg ys" "published lg [] = []"
  "published lg (PubReq path (Some m) # xs) = (if cm_Log m = lg \<and> path = lg \<and> lg \<noteq> '''' then m # published lg xs else published lg xs)"
  by (simp_all add: published_def)

lemma cached_max: "cached_as lg hist (Some s) \<Longrightarrow> m \<in> set (published lg hist) \<Longrightarrow> cm_Size m \<le> cm_Size (lt_cp s)"
  by (elim cached_as_SomeE) (auto simp: published_simps)

lemma cached_keep:
  assumes "cached_as lg hist (Some s)" "\<forall>m \<in> set (published lg [q]). cm_Size m \<le> cm_Size (lt_cp s)"
  shows "cached_as lg (hist @ [q]) (Some (s\<lparr>lt_cosign := lt_cosign s ++ last_by (signed_at lg (cm_Size (lt_cp s)) [q])\<rparr>))"
  using assms(1)
proof (rule cached_as_SomeE)
  fix pre post
  assume h: "hist = pre @ PubReq lg (Some (lt_cp s)) # post" "cm_Log (lt_cp s) = lg" "lg \<noteq> ''''"
    "\<forall>m \<in> set (published lg pre). cm_Size m < cm_Size (lt_cp s)" "\<forall>m \<in> set (published lg post). cm_Size m \<le> cm_Size (lt_cp s)"
    "lt_cosign s = last_by (signed_at lg (cm_Size (lt_cp s)) post)"
  have "signed_at lg n (post @ [q]) = signed_at lg n post @ signed_at lg n [q]" for n by (simp add: signed_at_def)
  moreover have "last_by (xs @ ys) = last_by xs ++ last_by ys" for xs ys by (simp add: last_by_def)
  ultimately show ?thesis using h assms(2) by (intro cached_as_SomeI [of _ pre _ _ "post @ [q]"]) (auto simp: published_simps)
qed

lemma served_keep:
  assumes "wr_logs rl lg = Some s" "\<forall>m \<in> set (published lg [q]). cm_Size m \<le> cm_Size (lt_cp s)"
  shows "wr_logs (relay_serve rl q) lg = Some (s\<lparr>lt_cosign := lt_cosign s ++ last_by (signed_at lg (cm_Size (lt_cp s)) [q])\<rparr>)"
proof (cases q)
  case (PubReq path b)
  then show ?thesis using assms by (cases b) (auto simp: serve_simps published_simps signed_at_def simp del: relay_serve.simps)
next
  case (SigReq path b)
  then show ?thesis using assms(1) by (cases b) (auto simp: serve_simps signed_at_def last_by_def simp del: relay_serve.simps)
qed

lemma served_none:
  assumes "wr_logs rl lg = None" "published lg [q] = []"
  shows "wr_logs (relay_serve rl q) lg = None"
proof (cases q)
  case (PubReq path b)
  then show ?thesis using assms by (cases b) (auto simp: serve_simps published_simps simp del: relay_serve.simps split: if_splits)
next
  case (SigReq path b)
  then show ?thesis using assms(1) by (cases b) (simp_all add: serve_simps del: relay_serve.simps)
qed

lemma published_one: "published lg [q] = [] \<or> (\<exists>m. q = PubReq lg (Some m) \<and> cm_Log m = lg \<and> lg \<noteq> '''' \<and> published lg [q] = [m])"
  by (auto simp: published_def split: relay_post.splits option.splits if_splits)

lemma relay_history_cached: "cached_as lg hist (wr_logs (relay_history intakes hist) lg)"
proof (induction hist rule: rev_induct)
  case Nil
  then show ?case by (simp add: cached_as_def relay_history_def Relay_New_def published_def)
next
  case (snoc q hist)
  let ?rl = "relay_history intakes hist"
  have run: "relay_history intakes (hist @ [q]) = relay_serve ?rl q" by (simp add: relay_history_def)
  consider (keep) s where "wr_logs ?rl lg = Some s" "\<forall>m \<in> set (published lg [q]). cm_Size m \<le> cm_Size (lt_cp s)"
    | (none) "wr_logs ?rl lg = None" "published lg [q] = []"
    | (new) m where "q = PubReq lg (Some m)" "cm_Log m = lg" "lg \<noteq> ''''" "case wr_logs ?rl lg of None \<Rightarrow> True | Some s \<Rightarrow> cm_Size (lt_cp s) < cm_Size m"
    using published_one [of lg q] by (cases "wr_logs ?rl lg") (fastforce simp: not_less)+
  then show ?case
  proof cases
    case (keep s)
    then show ?thesis using cached_keep [of lg hist s q] snoc.IH served_keep [OF keep] by (simp add: run)
  next
    case none
    then show ?thesis using snoc.IH served_none [OF none] by (simp add: run cached_as_def published_simps)
  next
    case (new m)
    have "cm_Size x < cm_Size m" if "x \<in> set (published lg hist)" for x
      using that snoc.IH new(4) cached_max [of lg hist _ x] by (cases "wr_logs ?rl lg") (auto simp: cached_as_def [of _ _ None] intro: le_less_trans)
    moreover have "wr_logs (relay_history intakes (hist @ [q])) lg = Some \<lparr>lt_cp = m, lt_cosign = Map.empty\<rparr>"
      using new unfolding run by (simp add: serve_publish del: relay_serve.simps)
    ultimately show ?thesis
      using new(1-3) by (auto intro!: cached_as_SomeI [of _ hist _ _ "[]"] simp: published_def signed_at_def)
  qed
qed

text \<open>C28: the relay serves exactly what it was sent. After any requests, a log is unknown if no well-formed checkpoint of it was published; otherwise the
  served checkpoint is one that was published for it, larger than all published before and no smaller than any since, and the served
  countersignatures are, for each witness name, the last one posted since for that log and size. In particular a log's served size never decreases.\<close>

theorem relay_serves_history:
  shows "case handleLatest (relay_history intakes hist) lg of
      RelayFault code _ \<Rightarrow> code = 404 \<and> published lg hist = []
    | RelayOK b \<Rightarrow> \<exists>pre post. hist = pre @ PubReq lg (Some (bm_Checkpoint b)) # post \<and> cm_Log (bm_Checkpoint b) = lg \<and>
        (\<forall>m \<in> set (published lg pre). cm_Size m < cm_Size (bm_Checkpoint b)) \<and> (\<forall>m \<in> set (published lg post). cm_Size m \<le> cm_Size (bm_Checkpoint b)) \<and>
        bm_Countersignatures b = ran (last_by (signed_at lg (cm_Size (bm_Checkpoint b)) post))"
proof (cases "wr_logs (relay_history intakes hist) lg")
  case None
  then show ?thesis using relay_history_cached [of lg hist intakes] by (simp add: handleLatest_def cached_as_def)
next
  case (Some s)
  then have "cached_as lg hist (Some s)" using relay_history_cached [of lg hist intakes] by simp
  then show ?thesis unfolding handleLatest_def Some by (elim cached_as_SomeE) auto
qed

lemma max_size: "(n :: u64) \<le> 2 ^ 64 - 1"
  by (simp add: word_le_nat_alt) (use unsigned_less [of n, where 'a = nat] in simp)

lemma pinned:
  assumes "wr_logs rl lg = Some s" "cm_Size (lt_cp s) = 2 ^ 64 - 1"
  shows "\<exists>s'. wr_logs (foldl relay_serve rl hist) lg = Some s' \<and> lt_cp s' = lt_cp s"
  using assms
proof (induction hist arbitrary: rl s)
  case (Cons q hist)
  then show ?case using served_keep [OF Cons.prems(1), of q] max_size by (fastforce simp del: relay_serve.simps)
qed simp

lemma last_by_key: "last_by ms w = Some m \<Longrightarrow> sm_Witness m = w"
  by (auto simp: last_by_def dest: map_of_SomeD)

text \<open>The relay takes anyone's word. Whoever posts to it: once a checkpoint of the largest size is published for a log no
  later publication for it is ever served, and a countersignature posted under a witness's name, whatever its signature,
  takes the place of the one that witness posted.\<close>

theorem relay_unauthenticated:
  assumes "handleLatest (relay_history intakes hist) lg = RelayOK b" "lg \<noteq> ''''"
  shows "(\<forall>m later. cm_Log m = lg \<and> cm_Size m = 2 ^ 64 - 1 \<longrightarrow>
      (\<exists>b'. handleLatest (relay_history intakes (hist @ PubReq lg (Some m) # later)) lg = RelayOK b' \<and>
        bm_Checkpoint b' = (if cm_Size (bm_Checkpoint b) = 2 ^ 64 - 1 then bm_Checkpoint b else m))) \<and>
    (\<forall>x y. sm_Log x = lg \<and> sm_Log y = lg \<and> sm_Witness y = sm_Witness x \<and> sm_Size x = cm_Size (bm_Checkpoint b) \<and> sm_Size y = sm_Size x \<and> x \<noteq> y \<longrightarrow>
      (\<exists>b'. handleLatest (relay_history intakes (hist @ [SigReq lg (Some x), SigReq lg (Some y)])) lg = RelayOK b' \<and>
        y \<in> bm_Countersignatures b' \<and> x \<notin> bm_Countersignatures b'))"
proof (intro conjI allI impI)
  let ?rl = "relay_history intakes hist"
  obtain s where s: "wr_logs ?rl lg = Some s" "b = \<lparr>bm_Checkpoint = lt_cp s, bm_Countersignatures = ran (lt_cosign s)\<rparr>"
    using assms(1) by (auto simp: handleLatest_def split: option.splits)
  {
    fix m :: checkpoint_msg and later assume m: "cm_Log m = lg \<and> cm_Size m = 2 ^ 64 - 1"
    let ?cp = "if cm_Size (lt_cp s) = 2 ^ 64 - 1 then lt_cp s else m"
    have "\<exists>s'. wr_logs (relay_serve ?rl (PubReq lg (Some m))) lg = Some s' \<and> lt_cp s' = ?cp"
      using s(1) m assms(2) max_size [of "cm_Size (lt_cp s)"] unfolding serve_publish by (auto simp: less_le)
    then obtain s' where s': "wr_logs (relay_serve ?rl (PubReq lg (Some m))) lg = Some s'" "lt_cp s' = ?cp" by blast
    have "\<exists>s''. wr_logs (foldl relay_serve (relay_serve ?rl (PubReq lg (Some m))) later) lg = Some s'' \<and> lt_cp s'' = lt_cp s'"
      using s' m by (intro pinned) auto
    then show "\<exists>b'. handleLatest (relay_history intakes (hist @ PubReq lg (Some m) # later)) lg = RelayOK b' \<and>
        bm_Checkpoint b' = (if cm_Size (bm_Checkpoint b) = 2 ^ 64 - 1 then bm_Checkpoint b else m)"
      using s' s(2) by (auto simp: relay_history_def handleLatest_def simp del: relay_serve.simps)
  next
    fix x y :: countersig_msg assume xy: "sm_Log x = lg \<and> sm_Log y = lg \<and> sm_Witness y = sm_Witness x \<and> sm_Size x = cm_Size (bm_Checkpoint b) \<and> sm_Size y = sm_Size x \<and> x \<noteq> y"
    have "wr_logs (relay_history intakes (hist @ [SigReq lg (Some x), SigReq lg (Some y)])) lg = Some (s\<lparr>lt_cosign := (lt_cosign s)(sm_Witness x \<mapsto> y)\<rparr>)"
      using s xy by (simp add: relay_history_def serve_countersig del: relay_serve.simps)
    moreover have "lt_cosign s w = Some x \<Longrightarrow> w = sm_Witness x" for w
      using relay_history_cached [of lg hist intakes] s(1) last_by_key by (auto elim!: cached_as_SomeE)
    ultimately show "\<exists>b'. handleLatest (relay_history intakes (hist @ [SigReq lg (Some x), SigReq lg (Some y)])) lg = RelayOK b' \<and>
        y \<in> bm_Countersignatures b' \<and> x \<notin> bm_Countersignatures b'"
      using xy by (auto simp: handleLatest_def ran_def)
  }
qed

definition sample_cp :: "u64 \<Rightarrow> checkpoint_msg" where
  "sample_cp n = \<lparr>cm_Log = ''l'', cm_Size = n, cm_Head = '''', cm_IssuedAt = '''', cm_Signature = '''', cm_Operator = '''', cm_Kind = '''',
     cm_ConsistencyFrom = 0, cm_ConsistencyProof = []\<rparr>"

definition sample_sig :: "string \<Rightarrow> countersig_msg" where
  "sample_sig sg = \<lparr>sm_Log = ''l'', sm_Size = 3, sm_Witness = ''w'', sm_Signature = sg\<rparr>"

theorem relay_unauthenticated_witness:
  "\<exists>b b'. handleLatest (relay_history [] [PubReq ''l'' (Some (sample_cp 3))]) ''l'' = RelayOK b \<and> bm_Checkpoint b = sample_cp 3 \<and>
     handleLatest (relay_history [] ([PubReq ''l'' (Some (sample_cp 3))] @ [SigReq ''l'' (Some (sample_sig ''good'')), SigReq ''l'' (Some (sample_sig ''bad''))])) ''l'' = RelayOK b' \<and>
     sample_sig ''bad'' \<in> bm_Countersignatures b' \<and> sample_sig ''good'' \<notin> bm_Countersignatures b'"
proof -
  let ?b = "\<lparr>bm_Checkpoint = sample_cp 3, bm_Countersignatures = {}\<rparr>"
  have b: "handleLatest (relay_history [] [PubReq ''l'' (Some (sample_cp 3))]) ''l'' = RelayOK ?b"
    by (simp add: handleLatest_def relay_history_def Relay_New_def handlePublish_def sample_cp_def)
  have "\<exists>b'. handleLatest (relay_history [] ([PubReq ''l'' (Some (sample_cp 3))] @ [SigReq ''l'' (Some (sample_sig ''good'')), SigReq ''l'' (Some (sample_sig ''bad''))])) ''l'' = RelayOK b' \<and>
     sample_sig ''bad'' \<in> bm_Countersignatures b' \<and> sample_sig ''good'' \<notin> bm_Countersignatures b'"
    by (rule conjunct2 [OF relay_unauthenticated [OF b], rule_format]) (simp_all add: sample_sig_def sample_cp_def)
  then show ?thesis using b by auto
qed

theorem relay_serves_history_witness:
  "\<exists>b pre post. handleLatest (relay_history [] [PubReq ''l'' (Some (sample_cp 3))]) ''l'' = RelayOK b \<and> bm_Checkpoint b = sample_cp 3 \<and>
     [PubReq ''l'' (Some (sample_cp 3))] = pre @ PubReq ''l'' (Some (sample_cp 3)) # post \<and> bm_Countersignatures b = ran (last_by (signed_at ''l'' 3 post))"
proof -
  let ?b = "\<lparr>bm_Checkpoint = sample_cp 3, bm_Countersignatures = {}\<rparr>"
  have b: "handleLatest (relay_history [] [PubReq ''l'' (Some (sample_cp 3))]) ''l'' = RelayOK ?b"
    by (simp add: handleLatest_def relay_history_def Relay_New_def handlePublish_def sample_cp_def)
  have "cm_Size (sample_cp 3) = 3" by (simp add: sample_cp_def)
  with relay_serves_history [where intakes = "[]" and hist = "[PubReq ''l'' (Some (sample_cp 3))]" and lg = "''l''"] show ?thesis
    unfolding b relay_reply.case by (intro exI [of _ ?b]) (auto simp: append_eq_Cons_conv)
qed

end
