(* ===== verification/Witness_Kit.thy ===== *)
theory Witness_Kit
  imports Witness_Relay Record_Witness Record_Lifecycle
begin

text \<open>
  What a member runs to be a witness (\<open>src/internal/witnesskit/witnesskit.go\<close>): the wire form of checkpoints and filings, the
  worker that polls a relay, countersigns and posts back, and the intake it hosts. The relay's answers to the worker's
  requests are an argument; the theorems take them from the relay's model or leave them to an adversary.
\<close>

section \<open>Wire forms\<close>

datatype kit_error = KitHash | KitOperator | KitKind string | KitLog | KitSignature | KitTime | KitHTTP | KitWitness witness_error | KitRefused nat

definition EncodeCheckpoint :: "wire \<Rightarrow> checkpoint \<Rightarrow> bytes \<Rightarrow> string \<Rightarrow> u64 \<Rightarrow> b32 list \<Rightarrow> checkpoint_msg" where
  "EncodeCheckpoint w cp operator kind from proof_hashes =
     \<lparr>cm_Log = hex_EncodeToString (b32_bytes (cp_Log cp)), cm_Size = cp_Size cp, cm_Head = hex_EncodeToString (b32_bytes (cp_Head cp)),
      cm_IssuedAt = format_time w (cp_IssuedAt cp), cm_Signature = hex_EncodeToString (cp_Signature cp),
      cm_Operator = hex_EncodeToString operator, cm_Kind = kind, cm_ConsistencyFrom = from,
      cm_ConsistencyProof = map (\<lambda>h. hex_EncodeToString (b32_bytes h)) proof_hashes\<rparr>"

definition decodeHash :: "string \<Rightarrow> b32 option" where
  "decodeHash s = (case hex_DecodeString s of None \<Rightarrow> None | Some raw \<Rightarrow> if length raw \<noteq> 32 then None else Some (b32_of_bytes raw))"

fun decode_proof :: "string list \<Rightarrow> b32 list option" where
  "decode_proof [] = Some []"
| "decode_proof (s # ss) = (case decodeHash s of None \<Rightarrow> None | Some h \<Rightarrow> map_option ((#) h) (decode_proof ss))"

definition want_log :: "crypto \<Rightarrow> string \<Rightarrow> bytes \<Rightarrow> b32 option" where
  "want_log c kind operator =
     (if kind = ''dialog'' then Some (LogID c operator) else if kind = ''lifecycle'' then Some (LifecycleLogID c operator) else None)"

definition DecodeCheckpoint :: "crypto \<Rightarrow> wire \<Rightarrow> checkpoint_msg \<Rightarrow> kit_error + checkpoint \<times> bytes \<times> b32 \<times> b32 list" where
  "DecodeCheckpoint c w msg =
     (case decodeHash (cm_Log msg) of None \<Rightarrow> Inl KitHash | Some logID \<Rightarrow>
      case decodeHash (cm_Head msg) of None \<Rightarrow> Inl KitHash | Some head \<Rightarrow>
      case hex_DecodeString (cm_Operator msg) of None \<Rightarrow> Inl KitOperator | Some operator \<Rightarrow>
      if length operator \<noteq> PublicKeySize then Inl KitOperator else
      case want_log c (cm_Kind msg) operator of None \<Rightarrow> Inl (KitKind (cm_Kind msg)) | Some wantLog \<Rightarrow>
      if logID \<noteq> wantLog then Inl KitLog else
      case hex_DecodeString (cm_Signature msg) of None \<Rightarrow> Inl KitSignature | Some sig \<Rightarrow>
      case parse_time w (cm_IssuedAt msg) of None \<Rightarrow> Inl KitTime | Some issuedAt \<Rightarrow>
      case decode_proof (cm_ConsistencyProof msg) of None \<Rightarrow> Inl KitHash | Some hs \<Rightarrow>
        Inr (\<lparr>cp_Log = logID, cp_Size = cm_Size msg, cp_Head = head, cp_IssuedAt = issuedAt, cp_Signature = sig\<rparr>, operator, wantLog, hs))"

section \<open>The worker\<close>

record worker =
  wk_witness :: witness
  wk_intake :: filing_intake
  wk_pub :: bytes

definition NewWorker :: "crypto \<Rightarrow> bytes \<Rightarrow> worker" where
  "NewWorker c priv =
     \<lparr>wk_witness = NewWitness c priv, wk_intake = NewFilingIntake c priv, wk_pub = (if length priv = PrivateKeySize then ed_public c priv else [])\<rparr>"

definition Worker_Key :: "worker \<Rightarrow> bytes" where "Worker_Key wk = wk_pub wk"

text \<open>\<open>countersignLog\<close> up to its post: \<open>latest\<close> is the checkpoint of the bundle the relay served, \<open>None\<close> where the request or
  its decoding failed. A call that does not return is \<open>None\<close>.\<close>

definition cosign_latest :: "crypto \<Rightarrow> wire \<Rightarrow> worker \<Rightarrow> string \<Rightarrow> checkpoint_msg option \<Rightarrow> (kit_error + countersig_msg \<times> checkpoint \<times> worker) option" where
  "cosign_latest c w wk logID latest =
     (case latest of None \<Rightarrow> Some (Inl KitHTTP) | Some msg \<Rightarrow>
      case DecodeCheckpoint c w msg of Inl e \<Rightarrow> Some (Inl e) | Inr (cp, operator, wantLog, hs) \<Rightarrow>
      case CountersignAs c (wk_witness wk) cp operator wantLog hs of
        None \<Rightarrow> None
      | Some (Inl e) \<Rightarrow> Some (Inl (KitWitness e))
      | Some (Inr (cs, wit)) \<Rightarrow>
          Some (Inr (\<lparr>sm_Log = logID, sm_Size = cp_Size cp, sm_Witness = hex_EncodeToString (cs_Witness cs), sm_Signature = hex_EncodeToString (cs_Signature cs)\<rparr>,
                     cp, wk\<lparr>wk_witness := wit\<rparr>)))"

text \<open>The whole of \<open>countersignLog\<close>; \<open>post\<close> is the status of the answer to its post, \<open>None\<close> where that failed. A refused
  post leaves the witness's memory advanced.\<close>

definition countersignLog ::
  "crypto \<Rightarrow> wire \<Rightarrow> worker \<Rightarrow> string \<Rightarrow> checkpoint_msg option \<Rightarrow> (countersig_msg \<Rightarrow> nat option) \<Rightarrow> (kit_error option \<times> worker) option" where
  "countersignLog c w wk logID latest post =
     (case cosign_latest c w wk logID latest of
        None \<Rightarrow> None
      | Some (Inl e) \<Rightarrow> Some (Some e, wk)
      | Some (Inr (msg, cp, wk')) \<Rightarrow>
          Some (case post msg of None \<Rightarrow> Some KitHTTP | Some code \<Rightarrow> if code \<noteq> 200 then Some (KitRefused code) else None, wk'))"

fun run_logs ::
  "crypto \<Rightarrow> wire \<Rightarrow> worker \<Rightarrow> (string \<Rightarrow> checkpoint_msg option) \<Rightarrow> (string \<Rightarrow> countersig_msg \<Rightarrow> nat option) \<Rightarrow> string list \<Rightarrow> nat \<Rightarrow> (nat \<times> worker) option" where
  "run_logs c w wk latest post [] n = Some (n, wk)"
| "run_logs c w wk latest post (logID # logs) n =
     (case countersignLog c w wk logID (latest logID) (post logID) of
        None \<Rightarrow> None
      | Some (err, wk') \<Rightarrow> run_logs c w wk' latest post logs (if err = None then n + 1 else n))"

text \<open>\<open>RunOnce\<close>; \<open>logs\<close> is the list the relay answers, \<open>None\<close> where that request failed.\<close>

definition RunOnce ::
  "crypto \<Rightarrow> wire \<Rightarrow> worker \<Rightarrow> string list option \<Rightarrow> (string \<Rightarrow> checkpoint_msg option) \<Rightarrow> (string \<Rightarrow> countersig_msg \<Rightarrow> nat option) \<Rightarrow> ((nat \<times> kit_error option) \<times> worker) option" where
  "RunOnce c w wk logs latest post =
     (case logs of None \<Rightarrow> Some ((0, Some KitHTTP), wk)
      | Some ls \<Rightarrow> map_option (\<lambda>(n, wk'). ((n, None), wk')) (run_logs c w wk latest post ls 0))"

section \<open>The intake\<close>

record filing_msg =
  fm_Claim :: string
  fm_Exchange :: string
  fm_TypeHash :: string
  fm_At :: string
  fm_Filer :: string
  fm_Signature :: string

record receipt_msg =
  rm_Claim :: string
  rm_Witness :: string
  rm_ReceivedAt :: string
  rm_Signature :: string

definition IntakeHandler :: "crypto \<Rightarrow> wire \<Rightarrow> worker \<Rightarrow> filing_msg option \<Rightarrow> receipt_msg relay_reply" where
  "IntakeHandler c w wk body =
     (case body of None \<Rightarrow> RelayFault 400 ''invalid JSON body'' | Some msg \<Rightarrow>
      case (decodeHash (fm_Claim msg), decodeHash (fm_Exchange msg), decodeHash (fm_TypeHash msg), hex_DecodeString (fm_Filer msg),
            hex_DecodeString (fm_Signature msg), parse_time w (fm_At msg)) of
        (Some claim, Some exchange, Some typeHash, Some filer, Some sig, Some at) \<Rightarrow>
          if length filer \<noteq> PublicKeySize then RelayFault 400 ''malformed filing commitment''
          else (case FilingIntake_Accept c (wk_intake wk)
                    \<lparr>fc_Claim = claim, fc_Exchange = exchange, fc_TypeHash = typeHash, fc_At = at, fc_Filer = filer, fc_Signature = sig\<rparr> (wire_now w) of
              Inl e \<Rightarrow> RelayFault 400 ''filing refused''
            | Inr receipt \<Rightarrow> RelayOK \<lparr>rm_Claim = fm_Claim msg, rm_Witness = hex_EncodeToString (fr_Witness receipt),
                rm_ReceivedAt = format_time w (fr_ReceivedAt receipt), rm_Signature = hex_EncodeToString (fr_Signature receipt)\<rparr>)
      | _ \<Rightarrow> RelayFault 400 ''malformed filing commitment'')"

section \<open>Lemmas\<close>

lemma decodeHash_hex [simp]: "decodeHash (hex_EncodeToString (b32_bytes h)) = Some h"
  by (simp add: decodeHash_def)

lemma decode_proof_hex [simp]: "decode_proof (map (\<lambda>h. hex_EncodeToString (b32_bytes h)) hs) = Some hs"
  by (induction hs) simp_all

lemma Decode_Encode:
  assumes "parse_time w (format_time w (cp_IssuedAt cp)) = Some (cp_IssuedAt cp)" "length operator = PublicKeySize" "want_log c kind operator = Some (cp_Log cp)"
  shows "DecodeCheckpoint c w (EncodeCheckpoint w cp operator kind from hs) = Inr (cp, operator, cp_Log cp, hs)"
  using assms by (simp add: DecodeCheckpoint_def EncodeCheckpoint_def)

lemma DecodeCheckpoint_Inr:
  assumes "DecodeCheckpoint c w msg = Inr (cp, operator, wantLog, hs)"
  shows "want_log c (cm_Kind msg) operator = Some wantLog" "cp_Log cp = wantLog" "cp_Size cp = cm_Size msg" "length operator = PublicKeySize"
  using assms by (auto simp: DecodeCheckpoint_def split: option.splits if_splits)

section \<open>A published checkpoint is witnessed\<close>

text \<open>What the worker reads of a log through the relay: the checkpoint of the served bundle.\<close>

definition served_checkpoint :: "witness_relay \<Rightarrow> string \<Rightarrow> checkpoint_msg option" where
  "served_checkpoint rl lg = (case handleLatest rl lg of RelayFault code e \<Rightarrow> None | RelayOK b \<Rightarrow> Some (bm_Checkpoint b))"

definition same_key :: "worker \<Rightarrow> bytes \<Rightarrow> crypto \<Rightarrow> bool" where
  "same_key wk priv c \<longleftrightarrow> w_priv (wk_witness wk) = priv \<and> w_pub (wk_witness wk) = ed_public c priv"

lemma served_published:
  assumes "\<forall>b. handleLatest rl lg = RelayOK b \<longrightarrow> cm_Size (bm_Checkpoint b) < cm_Size m" "cm_Log m = lg" "lg \<noteq> ''''"
  shows "wr_logs (relay_serve rl (PubReq lg (Some m))) lg = Some \<lparr>lt_cp = m, lt_cosign = Map.empty\<rparr>"
  using assms unfolding serve_publish by (auto simp: handleLatest_def split: option.splits)

lemma hash_text: "hex_EncodeToString (b32_bytes h) \<noteq> ''''"
  using length_hex [of "b32_bytes h"] by auto

lemma cosign_fresh:
  assumes "keypair c priv" "same_key wk priv c" "w_last (wk_witness wk) (cp_Log cp) = None" "operator \<noteq> ed_public c priv"
    "Checkpoint_VerifyAs c cp operator (cp_Log cp)" "DecodeCheckpoint c w msg = Inr (cp, operator, cp_Log cp, hs)"
  shows "\<exists>wk'. cosign_latest c w wk lg (Some msg) =
    Some (Inr (\<lparr>sm_Log = lg, sm_Size = cp_Size cp, sm_Witness = hex_EncodeToString (ed_public c priv),
                sm_Signature = hex_EncodeToString (ed_sign c priv (witnessPayload c cp))\<rparr>, cp, wk')) \<and> same_key wk' priv c"
  using assms by (simp add: cosign_latest_def CountersignAs_def same_key_def keypair_def Let_def)

text \<open>C29: the witnessing of a checkpoint, end to end. An operator publishes a signed checkpoint of one of its logs that is larger than what
  the relay holds; a worker that holds another key and has not followed that log reads it back from the relay, countersigns
  it and posts; the relay accepts the post and serves, with that very checkpoint, a countersignature that decodes to one of the worker's key that
  verifies over the checkpoint; and for a dialog log the pair verifies as a witnessed checkpoint of the operator.\<close>

theorem published_checkpoint_witnessed:
  assumes "keypair c priv" "same_key wk priv c" "w_last (wk_witness wk) (cp_Log cp) = None" "operator \<noteq> ed_public c priv"
    "Checkpoint_VerifyAs c cp operator (cp_Log cp)" "want_log c kind operator = Some (cp_Log cp)"
    "parse_time w (format_time w (cp_IssuedAt cp)) = Some (cp_IssuedAt cp)"
    "\<forall>b. handleLatest rl (hex_EncodeToString (b32_bytes (cp_Log cp))) = RelayOK b \<longrightarrow> cm_Size (bm_Checkpoint b) < cp_Size cp"
  shows "let lg = hex_EncodeToString (b32_bytes (cp_Log cp)); m = EncodeCheckpoint w cp operator kind from hs;
      rl1 = relay_serve rl (PubReq lg (Some m)) in
    \<exists>sm wk' b sig. cosign_latest c w wk lg (served_checkpoint rl1 lg) = Some (Inr (sm, cp, wk')) \<and> fst (handleCountersig rl1 lg (Some sm)) = RelayOK () \<and>
      handleLatest (relay_serve rl1 (SigReq lg (Some sm))) lg = RelayOK b \<and> bm_Checkpoint b = m \<and> sm \<in> bm_Countersignatures b \<and>
      hex_DecodeString (sm_Witness sm) = Some (ed_public c priv) \<and> hex_DecodeString (sm_Signature sm) = Some sig \<and>
      Countersignature_Verify c \<lparr>cs_Witness = ed_public c priv, cs_Signature = sig\<rparr> cp \<and>
      (kind = ''dialog'' \<longrightarrow> WitnessedCheckpoint_Verify c
         \<lparr>wc_Checkpoint = cp, wc_Countersignatures = [\<lparr>cs_Witness = ed_public c priv, cs_Signature = sig\<rparr>]\<rparr> operator)"
proof -
  let ?lg = "hex_EncodeToString (b32_bytes (cp_Log cp))" and ?m = "EncodeCheckpoint w cp operator kind from hs"
  let ?rl1 = "relay_serve rl (PubReq ?lg (Some ?m))" and ?sig = "ed_sign c priv (witnessPayload c cp)"
  have m: "cm_Log ?m = ?lg" "cm_Size ?m = cp_Size cp" by (simp_all add: EncodeCheckpoint_def)
  have st: "wr_logs ?rl1 ?lg = Some \<lparr>lt_cp = ?m, lt_cosign = Map.empty\<rparr>" using assms(8) m hash_text by (intro served_published) simp_all
  then have sc: "served_checkpoint ?rl1 ?lg = Some ?m" by (simp add: served_checkpoint_def handleLatest_def del: relay_serve.simps)
  have "length operator = PublicKeySize" using assms(5) by (simp add: Checkpoint_VerifyAs_def)
  then have d: "DecodeCheckpoint c w ?m = Inr (cp, operator, cp_Log cp, hs)" using assms(6,7) by (intro Decode_Encode)
  let ?sm = "\<lparr>sm_Log = ?lg, sm_Size = cp_Size cp, sm_Witness = hex_EncodeToString (ed_public c priv), sm_Signature = hex_EncodeToString ?sig\<rparr>"
  obtain wk' where cl: "cosign_latest c w wk ?lg (served_checkpoint ?rl1 ?lg) = Some (Inr (?sm, cp, wk'))"
    using cosign_fresh [OF assms(1-5) d, of ?lg] sc by auto
  have v: "Countersignature_Verify c \<lparr>cs_Witness = ed_public c priv, cs_Signature = ?sig\<rparr> cp"
    using sig_ok_keypair [OF assms(1)] keypair_verify(2,3) [OF assms(1)] by (simp add: Countersignature_Verify_def)
  have acc: "fst (handleCountersig ?rl1 ?lg (Some ?sm)) = RelayOK ()" using st m by (simp add: handleCountersig_def del: relay_serve.simps)
  have ln: "handleLatest (relay_serve ?rl1 (SigReq ?lg (Some ?sm))) ?lg = RelayOK \<lparr>bm_Checkpoint = ?m, bm_Countersignatures = {?sm}\<rparr>"
    using st m serve_countersig [of ?rl1 ?lg ?sm ?lg] by (simp add: handleLatest_def del: relay_serve.simps)
  have "WitnessedCheckpoint_Verify c \<lparr>wc_Checkpoint = cp, wc_Countersignatures = [\<lparr>cs_Witness = ed_public c priv, cs_Signature = ?sig\<rparr>]\<rparr> operator"
    if "kind = ''dialog''"
    using that v assms(4,5,6) by (simp add: WitnessedCheckpoint_Verify_def Checkpoint_Verify_def want_log_def)
  then show ?thesis unfolding Let_def
    by (intro exI [of _ ?sm] exI [of _ wk'] exI [of _ "\<lparr>bm_Checkpoint = ?m, bm_Countersignatures = {?sm}\<rparr>"] exI [of _ ?sig]) (use cl acc ln v in simp)
qed

section \<open>A worker over time\<close>

text \<open>A worker polling one log after another, whatever it is served; the result lists the checkpoints it countersigned.\<close>

fun worker_polls :: "crypto \<Rightarrow> wire \<Rightarrow> worker \<Rightarrow> (string \<times> checkpoint_msg option) list \<Rightarrow> (checkpoint list \<times> worker) option" where
  "worker_polls c w wk [] = Some ([], wk)"
| "worker_polls c w wk ((lg, latest) # polls) =
     (case cosign_latest c w wk lg latest of
        None \<Rightarrow> None
      | Some (Inl e) \<Rightarrow> worker_polls c w wk polls
      | Some (Inr (sm, cp, wk')) \<Rightarrow> map_option (\<lambda>(cps, wk2). (cp # cps, wk2)) (worker_polls c w wk' polls))"

text \<open>The requests the witness inside it was given.\<close>

definition poll_request :: "crypto \<Rightarrow> wire \<Rightarrow> string \<times> checkpoint_msg option \<Rightarrow> cosign_request list" where
  "poll_request c w q =
     (case snd q of None \<Rightarrow> [] | Some msg \<Rightarrow>
      case DecodeCheckpoint c w msg of Inl e \<Rightarrow> []
      | Inr (cp, operator, wantLog, hs) \<Rightarrow> [\<lparr>rq_cp = cp, rq_operator = operator, rq_log = wantLog, rq_proof = hs\<rparr>])"

lemma worker_polls_run:
  "worker_polls c w wk polls = Some (cps, wk') \<Longrightarrow> witness_run c (wk_witness wk) (concat (map (poll_request c w) polls)) = Some (cps, wk_witness wk')"
proof (induction polls arbitrary: wk cps)
  case (Cons q polls)
  obtain lg latest where q: "q = (lg, latest)" by (cases q)
  show ?case
  proof (cases latest)
    case None
    then show ?thesis using Cons by (simp add: q cosign_latest_def poll_request_def)
  next
    case (Some msg)
    show ?thesis
    proof (cases "DecodeCheckpoint c w msg")
      case (Inl e)
      then show ?thesis using Cons Some by (simp add: q cosign_latest_def poll_request_def)
    next
      case (Inr x)
      obtain cp operator wantLog hs where x: "x = (cp, operator, wantLog, hs)" by (cases x)
      then have r: "poll_request c w q = [\<lparr>rq_cp = cp, rq_operator = operator, rq_log = wantLog, rq_proof = hs\<rparr>]"
        using Inr Some by (simp add: q poll_request_def)
      show ?thesis using Cons.prems Some Inr x
        by (auto simp: r) (auto simp: q cosign_latest_def dest!: Cons.IH split: option.splits sum.splits prod.splits)
    qed
  qed
qed simp

lemma worker_polls_valid:
  "worker_polls c w wk polls = Some (cps, wk') \<Longrightarrow> cp \<in> set cps \<Longrightarrow>
     \<exists>operator kind. want_log c kind operator = Some (cp_Log cp) \<and> Checkpoint_VerifyAs c cp operator (cp_Log cp)"
proof (induction polls arbitrary: wk cps)
  case (Cons q polls)
  obtain lg latest where q: "q = (lg, latest)" by (cases q)
  from Cons.prems consider (later) wk1 cps1 where "worker_polls c w wk1 polls = Some (cps1, wk')" "cp \<in> set cps1"
    | (now) sm wk1 where "cosign_latest c w wk lg latest = Some (Inr (sm, cp, wk1))"
    by (auto simp: q split: option.splits sum.splits prod.splits)
  then show ?case
  proof cases
    case later
    then show ?thesis by (rule Cons.IH)
  next
    case now
    then obtain msg operator wantLog hs cs wit where "DecodeCheckpoint c w msg = Inr (cp, operator, wantLog, hs)"
      "CountersignAs c (wk_witness wk) cp operator wantLog hs = Some (Inr (cs, wit))"
      by (auto simp: cosign_latest_def split: option.splits sum.splits prod.splits)
    then show ?thesis using DecodeCheckpoint_Inr(1,2) CountersignAs_accepts(1) by metis
  qed
qed simp

text \<open>A worker trusts no relay. Whatever a relay serves to a worker over time, under whatever log names, each checkpoint the worker countersigned is signed by
  the operator whose key its log identity derives from, and of those of one log the later continue the earlier.\<close>

theorem worker_never_forks:
  assumes "canon_laws c" "worker_polls c w (NewWorker c priv) polls = Some (cps, wk)"
  shows "(\<forall>cp \<in> set cps. \<exists>operator kind. want_log c kind operator = Some (cp_Log cp) \<and> Checkpoint_VerifyAs c cp operator (cp_Log cp)) \<and>
    sorted_wrt (continues c (concat (map (poll_request c w) polls))) (filter (\<lambda>cp. cp_Log cp = logid) cps)"
proof -
  let ?rs = "concat (map (poll_request c w) polls)"
  have "witness_run c (NewWitness c priv) ?rs = Some (cps, wk_witness wk)" using worker_polls_run [OF assms(2)] by (simp add: NewWorker_def)
  then have "sorted_wrt (continues c ?rs) (filter (\<lambda>cp. cp_Log cp = logid) cps)"
    using witness_run_chain [OF assms(1), of "NewWitness c priv" ?rs cps "wk_witness wk" ?rs logid] by (simp add: NewWitness_def)
  then show ?thesis using worker_polls_valid [OF assms(2)] by blast
qed

text \<open>The intake's receipt is one of the worker's key, over the commitment the message spells and the instant of the clock, and it verifies.\<close>

lemma intake_receipt:
  assumes "keypair c priv" and "IntakeHandler c w (NewWorker c priv) (Some msg) = RelayOK rm"
  shows "\<exists>f sig. rm = \<lparr>rm_Claim = fm_Claim msg, rm_Witness = hex_EncodeToString (ed_public c priv), rm_ReceivedAt = format_time w (wire_now w),
      rm_Signature = hex_EncodeToString sig\<rparr> \<and> decodeHash (fm_Claim msg) = Some (fc_Claim f) \<and> decodeHash (fm_Exchange msg) = Some (fc_Exchange f) \<and>
    hex_DecodeString (fm_Filer msg) = Some (fc_Filer f) \<and> fc_Filer f \<noteq> ed_public c priv \<and>
    FilingReceipt_Verify c \<lparr>fr_Commitment = f, fr_Witness = ed_public c priv, fr_ReceivedAt = wire_now w, fr_Signature = sig\<rparr>"
proof -
  obtain claim exchange typeHash filer sig at receipt where h: "decodeHash (fm_Claim msg) = Some claim" "decodeHash (fm_Exchange msg) = Some exchange"
    "hex_DecodeString (fm_Filer msg) = Some filer" and
    r: "FilingIntake_Accept c (NewFilingIntake c priv) \<lparr>fc_Claim = claim, fc_Exchange = exchange, fc_TypeHash = typeHash, fc_At = at, fc_Filer = filer,
        fc_Signature = sig\<rparr> (wire_now w) = Inr receipt" and
    rm: "rm = \<lparr>rm_Claim = fm_Claim msg, rm_Witness = hex_EncodeToString (fr_Witness receipt), rm_ReceivedAt = format_time w (fr_ReceivedAt receipt),
        rm_Signature = hex_EncodeToString (fr_Signature receipt)\<rparr>"
    using assms(2) by (auto simp: IntakeHandler_def NewWorker_def split: option.splits if_splits sum.splits)
  note a = FilingIntake_receipts [OF assms(1), of _ "wire_now w"]
  have v: "FilingReceipt_Verify c receipt" "fr_Commitment receipt = \<lparr>fc_Claim = claim, fc_Exchange = exchange, fc_TypeHash = typeHash, fc_At = at, fc_Filer = filer,
        fc_Signature = sig\<rparr>" "fr_ReceivedAt receipt = wire_now w" "filer \<noteq> ed_public c priv"
    using a r by fastforce+
  have p: "fr_Witness receipt = ed_public c priv"
    using r assms(1) by (auto simp: FilingIntake_Accept_def NewFilingIntake_def keypair_def Let_def split: if_splits)
  have "\<lparr>fr_Commitment = fr_Commitment receipt, fr_Witness = ed_public c priv, fr_ReceivedAt = wire_now w, fr_Signature = fr_Signature receipt\<rparr> = receipt"
    using v(3) p by simp
  then have "FilingReceipt_Verify c \<lparr>fr_Commitment = fr_Commitment receipt, fr_Witness = ed_public c priv, fr_ReceivedAt = wire_now w,
      fr_Signature = fr_Signature receipt\<rparr>" using v(1) by simp
  then show ?thesis unfolding rm using h v(2-4) p by (intro exI [of _ "fr_Commitment receipt"] exI [of _ "fr_Signature receipt"]) simp
qed

section \<open>A concrete worker\<close>

definition sample_kit_wire :: wire where
  "sample_kit_wire = \<lparr>parse_time = (\<lambda>t. Some 0), format_time = (\<lambda>t. ''''), wire_now = 0\<rparr>"

lemma sample_dialog: "want_log sample_crypto ''dialog'' (replicate 32 9) = Some 1676"
  by (simp add: want_log_def sample_logid)

theorem published_checkpoint_witnessed_witness:
  "\<exists>cp. cp_Log cp = 1676 \<and> Checkpoint_VerifyAs sample_crypto cp (replicate 32 9) 1676 \<and>
    (let lg = hex_EncodeToString (b32_bytes 1676); m = EncodeCheckpoint sample_kit_wire cp (replicate 32 9) ''dialog'' 0 [];
         rl1 = relay_serve (Relay_New []) (PubReq lg (Some m)) in
     \<exists>sm wk'. cosign_latest sample_crypto sample_kit_wire (NewWorker sample_crypto (sample_priv 5)) lg (served_checkpoint rl1 lg) = Some (Inr (sm, cp, wk')) \<and>
       (\<exists>sig. WitnessedCheckpoint_Verify sample_crypto
         \<lparr>wc_Checkpoint = cp, wc_Countersignatures = [\<lparr>cs_Witness = replicate 32 5, cs_Signature = sig\<rparr>]\<rparr> (replicate 32 9)))"
proof -
  obtain cp where cp: "Checkpoint_VerifyAs sample_crypto cp (replicate 32 9) 1676" "cp_Log cp = 1676" "cp_IssuedAt cp = 0" "cp_Size cp = 1"
    by (rule sample_two)
  have "same_key (NewWorker sample_crypto (sample_priv 5)) (sample_priv 5) sample_crypto"
    by (simp add: same_key_def NewWorker_def NewWitness_def sample_priv_def PrivateKeySize_def)
  moreover have "w_last (wk_witness (NewWorker sample_crypto (sample_priv 5))) (cp_Log cp) = None" by (simp add: NewWorker_def NewWitness_def)
  moreover have "(replicate 32 9 :: bytes) \<noteq> replicate 32 5" by simp
  moreover have "\<forall>b. handleLatest (Relay_New []) lg = RelayOK b \<longrightarrow> cm_Size (bm_Checkpoint b) < cp_Size cp" for lg by (simp add: handleLatest_def Relay_New_def)
  ultimately show ?thesis
    using published_checkpoint_witnessed [OF sample_keypair, of "NewWorker sample_crypto (sample_priv 5)" 5 cp "replicate 32 9" "''dialog''" sample_kit_wire "Relay_New []" 0 "[]"]
      cp sample_dialog unfolding Let_def by (intro exI [of _ cp]) (fastforce simp: sample_kit_wire_def)
qed

theorem worker_never_forks_witness:
  "\<exists>older newer wk lg. older \<noteq> newer \<and>
     worker_polls sample_crypto sample_kit_wire (NewWorker sample_crypto (sample_priv 5))
       [(lg, Some (EncodeCheckpoint sample_kit_wire older (replicate 32 9) ''dialog'' 0 [])),
        (lg, Some (EncodeCheckpoint sample_kit_wire newer (replicate 32 9) ''dialog'' 1 [6517]))] = Some ([older, newer], wk) \<and>
     continues sample_crypto (sample_pair older newer) older newer"
proof -
  obtain older newer where two: "Checkpoint_VerifyAs sample_crypto older (replicate 32 9) 1676" "Checkpoint_VerifyAs sample_crypto newer (replicate 32 9) 1676"
    "commits sample_crypto older [6516]" "commits sample_crypto newer [6516, 6517]" "cp_Log older = 1676" "cp_Log newer = 1676"
    "cp_Size older = 1" "cp_Size newer = 2" "cp_IssuedAt older = 0" "cp_IssuedAt newer = 0"
    "VerifyConsistencyAs sample_crypto older newer [6517] (replicate 32 9) 1676 = Some True" by (rule sample_two)
  then have ne: "older \<noteq> newer" by auto
  let ?w = sample_kit_wire
  let ?polls = "[('''', Some (EncodeCheckpoint ?w older (replicate 32 9) ''dialog'' 0 [])), ('''', Some (EncodeCheckpoint ?w newer (replicate 32 9) ''dialog'' 1 [6517]))]"
  have d: "DecodeCheckpoint sample_crypto ?w (EncodeCheckpoint ?w older (replicate 32 9) ''dialog'' 0 []) = Inr (older, replicate 32 9, 1676, [])"
    "DecodeCheckpoint sample_crypto ?w (EncodeCheckpoint ?w newer (replicate 32 9) ''dialog'' 1 [6517]) = Inr (newer, replicate 32 9, 1676, [6517])"
    using Decode_Encode [of ?w older "replicate 32 9" sample_crypto "''dialog''" 0 "[]"] Decode_Encode [of ?w newer "replicate 32 9" sample_crypto "''dialog''" 1 "[6517]"]
      two sample_dialog by (simp_all add: sample_kit_wire_def PublicKeySize_def)
  have rq: "concat (map (poll_request sample_crypto ?w) ?polls) = sample_pair older newer"
    by (simp add: poll_request_def d sample_pair_def)
  obtain wk where run: "worker_polls sample_crypto ?w (NewWorker sample_crypto (sample_priv 5)) ?polls = Some ([older, newer], wk)"
    using two by (simp add: cosign_latest_def d NewWorker_def CountersignAs_def NewWitness_def Let_def sample_priv_def [of 5] PrivateKeySize_def
        sample_crypto_def [THEN arg_cong, of ed_public])
  have "continues sample_crypto (sample_pair older newer) older newer"
    using worker_never_forks [OF sample_canon_laws run, of 1676] two(5,6) unfolding rq by simp
  with run ne show ?thesis
    by (intro exI [of _ older] exI [of _ newer] exI [of _ wk] exI [of _ "''''"]) blast
qed

end
