(* ===== verification/Contribute.thy ===== *)
theory Contribute
  imports Prelude
begin

text \<open>
  The contributor's executor seam (\<open>src/internal/contribute\<close>): workload kinds, placements and jobs (\<open>executor.go\<close>), the node
  contract (\<open>contract.go\<close>) and the registry that binds it to executors (\<open>registry.go\<close>). An executor is a Go interface, so it is
  a record of its kind, whether it can be preempted, and what its \<open>Run\<close> does to the machine it runs on (the type \<open>'s\<close>);
  \<open>Kind\<close> and \<open>Preemptible\<close> are constants of an executor. The map of executors is an association list, newest first.
\<close>

section \<open>Kinds, placements, jobs\<close>

type_synonym workload_kind = int

definition Compute :: workload_kind where "Compute = 0"
definition Print :: workload_kind where "Print = 1"
definition Storage :: workload_kind where "Storage = 2"
definition Service :: workload_kind where "Service = 3"

definition WorkloadKind_String :: "workload_kind \<Rightarrow> string" where
  "WorkloadKind_String k =
     (if k = Compute then ''compute'' else if k = Print then ''print'' else if k = Storage then ''storage''
      else if k = Service then ''service'' else ''unknown'')"

definition WorkloadKind_Valid :: "workload_kind \<Rightarrow> bool" where
  "WorkloadKind_Valid k \<longleftrightarrow> k \<ge> Compute \<and> k \<le> Service"

type_synonym placement = int

definition Scavenged :: placement where "Scavenged = 0"
definition Pinned :: placement where "Pinned = 1"

definition Placement_String :: "placement \<Rightarrow> string" where
  "Placement_String p = (if p = Scavenged then ''scavenged'' else if p = Pinned then ''pinned'' else ''unknown'')"

record assigned_job =
  aj_ID :: string
  aj_Kind :: workload_kind
  aj_Payload :: bytes
  aj_Deadline :: gotime

record run_result =
  ru_JobID :: string
  ru_OK :: bool
  ru_Detail :: string
  ru_Output :: bytes

text \<open>The result a refusal returns: \<open>Result{JobID: id}\<close>.\<close>

definition bare_result :: "string \<Rightarrow> run_result" where
  "bare_result i = \<lparr>ru_JobID = i, ru_OK = False, ru_Detail = '''', ru_Output = []\<rparr>"

datatype contribute_error =
    ErrNoKinds | ErrServiceNeedsPinned | ErrDupKind workload_kind | ConInvalidKind workload_kind
  | ErrKindNotContracted workload_kind | ErrScavengedNotPreemptible workload_kind | ErrDuplicateExecutor workload_kind
  | ErrUseRegisterService | ConInvalidExecutor workload_kind | ErrNotService | ErrNoExecutor "workload_kind option"

text \<open>An executor may return any error: one of this package, the agent's \<open>ErrOwnerActive\<close>, or a text of its own.\<close>

datatype run_error = RunContribute contribute_error | ErrOwnerActive | RunOther string

record 's executor =
  ex_Kind :: workload_kind
  ex_Preemptible :: bool
  ex_Run :: "assigned_job \<Rightarrow> 's \<Rightarrow> (run_result \<times> run_error option) \<times> 's"

record 's service_executor =
  se_Kind :: workload_kind
  se_Healthy :: "'s \<Rightarrow> bool"
  se_Serve :: "assigned_job \<Rightarrow> 's \<Rightarrow> run_error option \<times> 's"

section \<open>The node contract\<close>

record node_contract =
  nc_NodeID :: string
  nc_Placement :: placement
  nc_Kinds :: "workload_kind list"

text \<open>The loop of \<open>Validate\<close>: the set of kinds seen, or the first error.\<close>

fun contract_scan :: "workload_kind list \<Rightarrow> workload_kind set \<Rightarrow> contribute_error + workload_kind set" where
  "contract_scan [] seen = Inr seen"
| "contract_scan (k # ks) seen =
     (if \<not> WorkloadKind_Valid k then Inl (ConInvalidKind k)
      else if k \<in> seen then Inl (ErrDupKind k)
      else contract_scan ks (insert k seen))"

definition NodeContract_Validate :: "node_contract \<Rightarrow> contribute_error option" where
  "NodeContract_Validate c =
     (if nc_Kinds c = [] then Some ErrNoKinds
      else case contract_scan (nc_Kinds c) {} of
        Inl e \<Rightarrow> Some e
      | Inr seen \<Rightarrow> if Service \<in> seen \<and> nc_Placement c \<noteq> Pinned then Some ErrServiceNeedsPinned else None)"

definition NodeContract_Allows :: "node_contract \<Rightarrow> workload_kind \<Rightarrow> bool" where
  "NodeContract_Allows c k = list_ex (\<lambda>x. x = k) (nc_Kinds c)"

section \<open>The registry\<close>

record 's exec_registry =
  er_contract :: node_contract
  er_batch :: "(workload_kind \<times> 's executor) list"
  er_service :: "'s service_executor option"

definition NewExecRegistry :: "node_contract \<Rightarrow> contribute_error + 's exec_registry" where
  "NewExecRegistry c =
     (case NodeContract_Validate c of Some e \<Rightarrow> Inl e
      | None \<Rightarrow> Inr \<lparr>er_contract = c, er_batch = [], er_service = None\<rparr>)"

definition Register :: "'s exec_registry \<Rightarrow> 's executor \<Rightarrow> contribute_error + 's exec_registry" where
  "Register r e =
     (let k = ex_Kind e in
      if k = Service then Inl ErrUseRegisterService
      else if \<not> WorkloadKind_Valid k then Inl (ConInvalidExecutor k)
      else if \<not> NodeContract_Allows (er_contract r) k then Inl (ErrKindNotContracted k)
      else if nc_Placement (er_contract r) = Scavenged \<and> \<not> ex_Preemptible e then Inl (ErrScavengedNotPreemptible k)
      else if map_of (er_batch r) k \<noteq> None then Inl (ErrDuplicateExecutor k)
      else Inr (r\<lparr>er_batch := (k, e) # er_batch r\<rparr>))"

definition RegisterService :: "'s exec_registry \<Rightarrow> 's service_executor \<Rightarrow> contribute_error + 's exec_registry" where
  "RegisterService r s =
     (if se_Kind s \<noteq> Service then Inl ErrNotService
      else if \<not> NodeContract_Allows (er_contract r) Service then Inl (ErrKindNotContracted Service)
      else if er_service r \<noteq> None then Inl (ErrDuplicateExecutor Service)
      else Inr (r\<lparr>er_service := Some s\<rparr>))"

definition Registry_Capabilities :: "'s exec_registry \<Rightarrow> workload_kind list" where
  "Registry_Capabilities r = sort (map fst (er_batch r) @ (if er_service r \<noteq> None then [Service] else []))"

definition Registry_Dispatch :: "'s exec_registry \<Rightarrow> assigned_job \<Rightarrow> 's \<Rightarrow> (run_result \<times> run_error option) \<times> 's" where
  "Registry_Dispatch r job s =
     (if \<not> NodeContract_Allows (er_contract r) (aj_Kind job)
        then ((bare_result (aj_ID job), Some (RunContribute (ErrKindNotContracted (aj_Kind job)))), s)
      else case map_of (er_batch r) (aj_Kind job) of
        None \<Rightarrow> ((bare_result (aj_ID job), Some (RunContribute (ErrNoExecutor (Some (aj_Kind job))))), s)
      | Some e \<Rightarrow> ex_Run e job s)"

section \<open>Registration over time\<close>

datatype 's registration = RegExecutor "'s executor" | RegService "'s service_executor"

fun registration_do :: "'s exec_registry \<Rightarrow> 's registration \<Rightarrow> 's exec_registry" where
  "registration_do r (RegExecutor e) = (case Register r e of Inl _ \<Rightarrow> r | Inr r' \<Rightarrow> r')"
| "registration_do r (RegService s) = (case RegisterService r s of Inl _ \<Rightarrow> r | Inr r' \<Rightarrow> r')"

lemma contract_scan_Inr:
  "contract_scan ks seen = Inr s \<Longrightarrow> s = seen \<union> set ks \<and> (\<forall>k \<in> set ks. WorkloadKind_Valid k) \<and> distinct ks \<and> set ks \<inter> seen = {}"
  by (induction ks seen rule: contract_scan.induct) (auto split: if_splits)

lemma Validate_None:
  assumes "NodeContract_Validate c = None"
  shows "\<forall>k \<in> set (nc_Kinds c). WorkloadKind_Valid k" "Service \<in> set (nc_Kinds c) \<Longrightarrow> nc_Placement c = Pinned"
  using assms contract_scan_Inr [of "nc_Kinds c" "{}"]
  by (auto simp: NodeContract_Validate_def split: if_splits sum.splits)

lemma Allows_iff [simp]: "NodeContract_Allows c k \<longleftrightarrow> k \<in> set (nc_Kinds c)"
  by (auto simp: NodeContract_Allows_def list_ex_iff)

text \<open>What every registry keeps of its contract.\<close>

definition registry_ok :: "node_contract \<Rightarrow> 's exec_registry \<Rightarrow> bool" where
  "registry_ok c r \<longleftrightarrow> er_contract r = c \<and> distinct (map fst (er_batch r)) \<and>
     (\<forall>(k, e) \<in> set (er_batch r). ex_Kind e = k \<and> k \<noteq> Service \<and> k \<in> set (nc_Kinds c) \<and> (nc_Placement c = Scavenged \<longrightarrow> ex_Preemptible e)) \<and>
     (\<forall>s. er_service r = Some s \<longrightarrow> se_Kind s = Service \<and> Service \<in> set (nc_Kinds c))"

lemma registry_ok_new: "NewExecRegistry c = Inr r \<Longrightarrow> registry_ok c r"
  by (auto simp: NewExecRegistry_def registry_ok_def split: option.splits)

lemma registry_ok_do: "registry_ok c r \<Longrightarrow> registry_ok c (registration_do r g)"
  by (cases g) (auto simp: registry_ok_def Register_def RegisterService_def Let_def map_of_eq_None_iff split: if_splits)

lemma registry_ok_run: "registry_ok c r \<Longrightarrow> registry_ok c (foldl registration_do r gs)"
  by (induction gs arbitrary: r) (simp_all add: registry_ok_do)

lemma registry_ok_lookup:
  assumes "registry_ok c r" and "map_of (er_batch r) k = Some e"
  shows "ex_Kind e = k" "k \<noteq> Service" "k \<in> set (nc_Kinds c)" "nc_Placement c = Scavenged \<Longrightarrow> ex_Preemptible e"
  using assms map_of_SomeD [OF assms(2)] by (auto simp: registry_ok_def)

lemma Capabilities_set:
  "set (Registry_Capabilities r) = fst ` set (er_batch r) \<union> (if er_service r \<noteq> None then {Service} else {})"
  by (simp add: Registry_Capabilities_def)

text \<open>C12: the registry enforces the node's contract. Whatever is registered after a contract was accepted, the advertised kinds are
  strictly ascending and within the contract, a scavenged node offers no service and only executors that can be
  preempted, and a job runs exactly when its kind is an advertised batch kind: then \<open>Dispatch\<close> is that executor's own
  run, and otherwise it is refused with nothing run.\<close>

theorem registry_honours_contract:
  assumes "NewExecRegistry c = Inr r0" and "r = foldl registration_do r0 gs"
  shows "sorted_wrt (<) (Registry_Capabilities r) \<and> set (Registry_Capabilities r) \<subseteq> set (nc_Kinds c) \<and>
    (\<forall>k \<in> set (Registry_Capabilities r). WorkloadKind_Valid k) \<and>
    (nc_Placement c = Scavenged \<longrightarrow> Service \<notin> set (Registry_Capabilities r) \<and> (\<forall>(k, e) \<in> set (er_batch r). ex_Preemptible e)) \<and>
    (\<forall>job s. if aj_Kind job \<in> set (Registry_Capabilities r) - {Service}
       then (\<exists>e. map_of (er_batch r) (aj_Kind job) = Some e \<and> ex_Kind e = aj_Kind job \<and> Registry_Dispatch r job s = ex_Run e job s)
       else snd (Registry_Dispatch r job s) = s \<and> (\<exists>err. fst (Registry_Dispatch r job s) = (bare_result (aj_ID job), Some err)))"
proof -
  have ok: "registry_ok c r" using assms registry_ok_new registry_ok_run by blast
  have v: "NodeContract_Validate c = None" using assms(1) by (auto simp: NewExecRegistry_def split: option.splits)
  note vv = Validate_None [OF v]
  have sub: "set (Registry_Capabilities r) \<subseteq> set (nc_Kinds c)"
    using ok by (auto simp: Capabilities_set registry_ok_def split: if_splits)
  have "Service \<notin> fst ` set (er_batch r)" using ok by (auto simp: registry_ok_def)
  then have "distinct (Registry_Capabilities r)" using ok by (simp add: Registry_Capabilities_def registry_ok_def)
  then have "sorted_wrt (<) (Registry_Capabilities r)"
    by (simp add: strict_sorted_iff Registry_Capabilities_def)
  moreover have "nc_Placement c = Scavenged \<longrightarrow> Service \<notin> set (Registry_Capabilities r) \<and> (\<forall>(k, e) \<in> set (er_batch r). ex_Preemptible e)"
    using ok vv(2) sub by (auto simp: registry_ok_def Scavenged_def Pinned_def)
  moreover have "if aj_Kind job \<in> set (Registry_Capabilities r) - {Service}
       then (\<exists>e. map_of (er_batch r) (aj_Kind job) = Some e \<and> ex_Kind e = aj_Kind job \<and> Registry_Dispatch r job s = ex_Run e job s)
       else snd (Registry_Dispatch r job s) = s \<and> (\<exists>err. fst (Registry_Dispatch r job s) = (bare_result (aj_ID job), Some err))" for job s
  proof (cases "map_of (er_batch r) (aj_Kind job)")
    case None
    then have "aj_Kind job \<notin> set (Registry_Capabilities r) - {Service}"
      by (auto simp: Capabilities_set map_of_eq_None_iff image_iff split: if_splits)
    then show ?thesis using None by (simp add: Registry_Dispatch_def)
  next
    case (Some e)
    have "er_contract r = c" using ok by (simp add: registry_ok_def)
    then have "Registry_Dispatch r job s = ex_Run e job s"
      using registry_ok_lookup(3) [OF ok Some] by (simp add: Registry_Dispatch_def Some)
    moreover have "aj_Kind job \<in> set (Registry_Capabilities r) - {Service}"
      using registry_ok_lookup(2) [OF ok Some] map_of_SomeD [OF Some] by (force simp: Capabilities_set)
    ultimately show ?thesis using registry_ok_lookup(1) [OF ok Some] Some by simp
  qed
  ultimately show ?thesis using sub vv(1) by blast
qed

section \<open>A concrete registry\<close>

text \<open>A compute executor that counts its runs, on scavenged capacity; it stands for any preemptible executor in the witnesses.\<close>

definition counting_executor :: "nat executor" where
  "counting_executor = \<lparr>ex_Kind = Compute, ex_Preemptible = True,
     ex_Run = (\<lambda>job s. ((\<lparr>ru_JobID = aj_ID job, ru_OK = True, ru_Detail = '''', ru_Output = []\<rparr>, None), Suc s))\<rparr>"

definition idle_contract :: node_contract where
  "idle_contract = \<lparr>nc_NodeID = ''n'', nc_Placement = Scavenged, nc_Kinds = [Compute, Storage]\<rparr>"

definition idle_registry :: "nat exec_registry" where
  "idle_registry = \<lparr>er_contract = idle_contract, er_batch = [(Compute, counting_executor)], er_service = None\<rparr>"

lemma idle_registry_made:
  "NewExecRegistry idle_contract = Inr \<lparr>er_contract = idle_contract, er_batch = [], er_service = None\<rparr>"
  "foldl registration_do \<lparr>er_contract = idle_contract, er_batch = [], er_service = None\<rparr>
     [RegExecutor counting_executor, RegExecutor (counting_executor\<lparr>ex_Kind := Storage, ex_Preemptible := False\<rparr>), RegExecutor counting_executor] = idle_registry"
  "Registry_Capabilities idle_registry = [Compute]"
  by (simp_all add: NewExecRegistry_def NodeContract_Validate_def idle_contract_def idle_registry_def WorkloadKind_Valid_def Compute_def
      Storage_def Service_def Register_def counting_executor_def Scavenged_def Registry_Capabilities_def Let_def)

theorem registry_honours_contract_witness:
  "Service \<notin> set (Registry_Capabilities idle_registry) \<and> list_all (\<lambda>(k, e). ex_Preemptible e) (er_batch idle_registry) \<and>
   snd (Registry_Dispatch idle_registry \<lparr>aj_ID = ''j'', aj_Kind = Storage, aj_Payload = [], aj_Deadline = zeroTime\<rparr> 7) = 7"
proof -
  note w = registry_honours_contract [OF idle_registry_made(1) idle_registry_made(2) [symmetric]]
  have "Storage \<notin> set (Registry_Capabilities idle_registry)" by (simp add: idle_registry_made Compute_def Storage_def)
  then show ?thesis
    using w by (simp add: idle_contract_def Scavenged_def list_all_iff split: if_splits)
qed

end
