(* ===== verification/Agent_Loop.thy ===== *)
theory Agent_Loop
  imports Contribute Node_Relay
begin

text \<open>
  The contributor's daemon (\<open>src/cmd/cloudy-agent\<close>): the owner gate over the executor registry (\<open>agent.go\<close>) and the loop that
  lists the node, heartbeats, polls for work and settles it (\<open>loop.go\<close>). The messages, their signing and the assignments are the
  protocol module's: the record \<open>node_proto\<close>. The coordinator is an interface of the protocol too, so it is a record of functions
  over a state of its own; the owner probe and the clock are their successive answers. Log lines are not modelled.
\<close>

section \<open>The agent\<close>

text \<open>\<open>ag_owner i\<close> is the answer of the \<open>i\<close>-th call of the probe, \<open>ag_looks\<close> the number of calls so far.\<close>

record 's agent =
  ag_reg :: "'s exec_registry"
  ag_owner :: "nat \<Rightarrow> bool"
  ag_looks :: nat

definition NewAgent :: "'s exec_registry \<Rightarrow> (nat \<Rightarrow> bool) option \<Rightarrow> 's agent" where
  "NewAgent r probe = \<lparr>ag_reg = r, ag_owner = (case probe of None \<Rightarrow> (\<lambda>_. False) | Some f \<Rightarrow> f), ag_looks = 0\<rparr>"

definition scavengedYield :: "'s agent \<Rightarrow> bool \<times> 's agent" where
  "scavengedYield a =
     (if nc_Placement (er_contract (ag_reg a)) = Scavenged
      then (ag_owner a (ag_looks a), a\<lparr>ag_looks := ag_looks a + 1\<rparr>) else (False, a))"

definition Agent_Capabilities :: "'s agent \<Rightarrow> workload_kind list \<times> 's agent" where
  "Agent_Capabilities a =
     (case scavengedYield a of (yield, a') \<Rightarrow> (if yield then [] else Registry_Capabilities (ag_reg a'), a'))"

definition Agent_Dispatch :: "'s agent \<Rightarrow> assigned_job \<Rightarrow> 's \<Rightarrow> (run_result \<times> run_error option) \<times> 's \<times> 's agent" where
  "Agent_Dispatch a job s =
     (case scavengedYield a of (yield, a') \<Rightarrow>
        if yield then (((bare_result (aj_ID job))\<lparr>ru_Detail := ''owner active''\<rparr>, Some ErrOwnerActive), s, a')
        else case Registry_Dispatch (ag_reg a') job s of (res, s') \<Rightarrow> (res, s', a'))"

definition ServeService :: "'s agent \<Rightarrow> assigned_job \<Rightarrow> 's \<Rightarrow> run_error option \<times> 's" where
  "ServeService a job s =
     (case er_service (ag_reg a) of
        None \<Rightarrow> (Some (RunContribute (ErrNoExecutor None)), s)
      | Some svc \<Rightarrow> se_Serve svc job s)"

section \<open>Messages and the coordinator\<close>

record 'c cap_listing =
  kl_NodeID :: node_id
  kl_Class :: string
  kl_Capacity :: 'c
  kl_Compute :: bool
  kl_Print :: bool
  kl_IssuedAt :: gotime
  kl_Seq :: u64

record heartbeat_msg =
  hb_NodeID :: node_id
  hb_SentAt :: gotime
  hb_Seq :: u64

datatype decline_reason = DeclineLocalPolicy | DeclineUnavailable

record decline_msg =
  de_JobID :: string
  de_NodeID :: node_id
  de_Reason :: decline_reason
  de_DeclinedAt :: gotime

record job_report =
  jr_JobID :: string
  jr_NodeID :: node_id
  jr_StartedAt :: gotime
  jr_FinishedAt :: gotime
  jr_ExitCode :: int
  jr_FailureCause :: string

text \<open>The four kinds of message a node signs, the signed message of type \<open>'m\<close>, and what the node reads of an assignment \<open>'a\<close>.\<close>

record ('m, 'a, 'c) node_proto =
  np_SignListing :: "bytes \<Rightarrow> 'c cap_listing \<Rightarrow> 'm"
  np_SignBeat :: "bytes \<Rightarrow> heartbeat_msg \<Rightarrow> 'm"
  np_SignDecline :: "bytes \<Rightarrow> decline_msg \<Rightarrow> 'm"
  np_SignReport :: "bytes \<Rightarrow> job_report \<Rightarrow> 'm"
  na_NodeID :: "'a \<Rightarrow> node_id"
  na_JobID :: "'a \<Rightarrow> string"
  na_Workload :: "'a \<Rightarrow> string"
  na_Args :: "'a \<Rightarrow> string list"
  na_Verify :: "'a \<Rightarrow> bytes \<Rightarrow> bool"

record ('m, 'a, 'k) coordinator =
  co_SubmitListing :: "'m \<Rightarrow> 'k \<Rightarrow> string option \<times> 'k"
  co_Heartbeat :: "'m \<Rightarrow> 'k \<Rightarrow> string option \<times> 'k"
  co_PollJobs :: "node_id \<Rightarrow> 'k \<Rightarrow> (string + 'a list) \<times> 'k"
  co_Decline :: "'m \<Rightarrow> 'k \<Rightarrow> string option \<times> 'k"
  co_ReportJob :: "'m \<Rightarrow> 'k \<Rightarrow> string option \<times> 'k"

section \<open>The loop's state, clock and sequence numbers\<close>

record ('s, 'c) agent_loop =
  lp_Agent :: "'s agent"
  lp_Node :: node_id
  lp_Key :: bytes
  lp_CoordKey :: "bytes option"
  lp_Class :: string
  lp_Capacity :: 'c
  lp_Heartbeat :: u64
  lp_Poll :: u64
  lp_clock :: "nat \<Rightarrow> gotime"
  lp_reads :: nat
  lp_seq :: u64
  lp_listed :: string
  lp_handled :: "string set"
  lp_warnedNoKey :: bool

text \<open>The loop with the machine its executors run on and the coordinator it talks to.\<close>

record ('s, 'c, 'k) node_sys =
  sy_loop :: "('s, 'c) agent_loop"
  sy_world :: 's
  sy_coord :: 'k

definition Loop_now :: "('s, 'c) agent_loop \<Rightarrow> gotime \<times> ('s, 'c) agent_loop" where
  "Loop_now l = (lp_clock l (lp_reads l), l\<lparr>lp_reads := lp_reads l + 1\<rparr>)"

text \<open>\<open>uint64(UnixNano())\<close>: an instant is its nanoseconds since 1970, and the conversion wraps.\<close>

definition nextSeq :: "('s, 'c) agent_loop \<Rightarrow> u64 \<times> ('s, 'c) agent_loop" where
  "nextSeq l =
     (case Loop_now l of (t, l') \<Rightarrow>
        let s = word_of_int t; s' = (if s \<le> lp_seq l' then lp_seq l' + 1 else s)
        in (s', l'\<lparr>lp_seq := s'\<rparr>))"

text \<open>\<open>strings.Join\<close>.\<close>

fun strings_Join :: "string list \<Rightarrow> string \<Rightarrow> string" where
  "strings_Join [] sep = ''''"
| "strings_Join [x] sep = x"
| "strings_Join (x # y # xs) sep = x @ sep @ strings_Join (y # xs) sep"

definition capsKey :: "workload_kind list \<Rightarrow> string" where
  "capsKey ks = strings_Join (map WorkloadKind_String ks) '',''"

section \<open>Listing and heartbeat\<close>

definition Loop_List :: "('m, 'a, 'c) node_proto \<Rightarrow> ('m, 'a, 'k) coordinator \<Rightarrow> ('s, 'c, 'k) node_sys \<Rightarrow> string option \<times> ('s, 'c, 'k) node_sys" where
  "Loop_List p co y =
     (case Agent_Capabilities (lp_Agent (sy_loop y)) of (caps, ag) \<Rightarrow>
      case Loop_now ((sy_loop y)\<lparr>lp_Agent := ag\<rparr>) of (t, l1) \<Rightarrow>
      case nextSeq l1 of (q, l2) \<Rightarrow>
      case co_SubmitListing co (np_SignListing p (lp_Key l2)
          \<lparr>kl_NodeID = lp_Node l2, kl_Class = lp_Class l2, kl_Capacity = lp_Capacity l2, kl_Compute = Compute \<in> set caps,
           kl_Print = Print \<in> set caps, kl_IssuedAt = t, kl_Seq = q\<rparr>) (sy_coord y) of
        (Some e, k) \<Rightarrow> (Some e, y\<lparr>sy_loop := l2, sy_coord := k\<rparr>)
      | (None, k) \<Rightarrow> (None, y\<lparr>sy_loop := l2\<lparr>lp_listed := capsKey caps\<rparr>, sy_coord := k\<rparr>))"

text \<open>The part of \<open>Beat\<close> after the listing: the heartbeat itself.\<close>

definition send_beat :: "('m, 'a, 'c) node_proto \<Rightarrow> ('m, 'a, 'k) coordinator \<Rightarrow> ('s, 'c, 'k) node_sys \<Rightarrow> string option \<times> ('s, 'c, 'k) node_sys" where
  "send_beat p co y =
     (case Loop_now (sy_loop y) of (t, l1) \<Rightarrow> case nextSeq l1 of (q, l2) \<Rightarrow>
      case co_Heartbeat co (np_SignBeat p (lp_Key l2) \<lparr>hb_NodeID = lp_Node l2, hb_SentAt = t, hb_Seq = q\<rparr>) (sy_coord y) of
        (e, k) \<Rightarrow> (e, y\<lparr>sy_loop := l2, sy_coord := k\<rparr>))"

definition Beat :: "('m, 'a, 'c) node_proto \<Rightarrow> ('m, 'a, 'k) coordinator \<Rightarrow> ('s, 'c, 'k) node_sys \<Rightarrow> string option \<times> ('s, 'c, 'k) node_sys" where
  "Beat p co y =
     (case Agent_Capabilities (lp_Agent (sy_loop y)) of (caps, ag) \<Rightarrow>
      let y1 = y\<lparr>sy_loop := (sy_loop y)\<lparr>lp_Agent := ag\<rparr>\<rparr> in
      if lp_listed (sy_loop y) \<noteq> capsKey caps
      then (case Loop_List p co y1 of (Some e, y2) \<Rightarrow> (Some e, y2) | (None, y2) \<Rightarrow> send_beat p co y2)
      else send_beat p co y1)"

section \<open>Settling assignments\<close>

definition workloadKinds :: "string \<rightharpoonup> workload_kind" where
  "workloadKinds = [''compute'' \<mapsto> Compute, ''storage'' \<mapsto> Storage, ''print'' \<mapsto> Print]"

fun run_error_Error :: "run_error \<Rightarrow> string" where
  "run_error_Error (RunOther e) = e"
| "run_error_Error ErrOwnerActive = ''cloudy-agent: owner active; scavenged work deferred''"
| "run_error_Error (RunContribute (ErrKindNotContracted k)) = ''contribute: workload kind not in node contract: '' @ WorkloadKind_String k"
| "run_error_Error (RunContribute (ErrNoExecutor (Some k))) = ''contribute: no executor registered for kind: '' @ WorkloadKind_String k"
| "run_error_Error (RunContribute (ErrNoExecutor None)) = ''contribute: no executor registered for kind''"
| "run_error_Error (RunContribute ErrNoKinds) = ''contribute: node contract advertises no workload kinds''"
| "run_error_Error (RunContribute ErrServiceNeedsPinned) = ''contribute: service workload requires pinned placement''"
| "run_error_Error (RunContribute (ErrDupKind k)) = ''contribute: duplicate workload kind in contract: '' @ WorkloadKind_String k"
| "run_error_Error (RunContribute (ConInvalidKind k)) = ''contribute: invalid workload kind '' @ strconv_Itoa k"
| "run_error_Error (RunContribute (ErrScavengedNotPreemptible k)) = ''contribute: scavenged node requires a preemptible executor: '' @ WorkloadKind_String k"
| "run_error_Error (RunContribute (ErrDuplicateExecutor k)) = ''contribute: executor already registered for kind: '' @ WorkloadKind_String k"
| "run_error_Error (RunContribute ErrUseRegisterService) = ''contribute: service kind must be registered with RegisterService''"
| "run_error_Error (RunContribute (ConInvalidExecutor k)) = ''contribute: invalid kind '' @ strconv_Itoa k"
| "run_error_Error (RunContribute ErrNotService) = ''contribute: service executor must report Kind()==Service''"

text \<open>\<open>errors.Is(err, contribute.ErrNoExecutor)\<close>.\<close>

fun is_NoExecutor :: "run_error option \<Rightarrow> bool" where
  "is_NoExecutor (Some (RunContribute (ErrNoExecutor _))) = True"
| "is_NoExecutor _ = False"

definition Loop_decline :: "('m, 'a, 'c) node_proto \<Rightarrow> ('m, 'a, 'k) coordinator \<Rightarrow> ('s, 'c, 'k) node_sys \<Rightarrow> 'a \<Rightarrow> decline_reason \<Rightarrow> string option \<times> ('s, 'c, 'k) node_sys" where
  "Loop_decline p co y a reason =
     (case Loop_now (sy_loop y) of (t, l) \<Rightarrow>
      case co_Decline co (np_SignDecline p (lp_Key l) \<lparr>de_JobID = na_JobID p a, de_NodeID = lp_Node l, de_Reason = reason, de_DeclinedAt = t\<rparr>) (sy_coord y) of
        (e, k) \<Rightarrow> (e, y\<lparr>sy_loop := l, sy_coord := k\<rparr>))"

text \<open>\<open>[]byte(strings.Join(a.Spec.Args, " "))\<close>; a string is its bytes.\<close>

definition job_payload :: "('m, 'a, 'c) node_proto \<Rightarrow> 'a \<Rightarrow> bytes" where
  "job_payload p a = bytes_of_str (strings_Join (na_Args p a) '' '')"

text \<open>The job of an assignment of a known workload.\<close>

definition job_of :: "('m, 'a, 'c) node_proto \<Rightarrow> 'a \<Rightarrow> workload_kind \<Rightarrow> assigned_job" where
  "job_of p a kind = \<lparr>aj_ID = na_JobID p a, aj_Kind = kind, aj_Payload = job_payload p a, aj_Deadline = zeroTime\<rparr>"

definition report_of :: "('m, 'a, 'c) node_proto \<Rightarrow> node_id \<Rightarrow> 'a \<Rightarrow> gotime \<Rightarrow> gotime \<Rightarrow> run_result \<times> run_error option \<Rightarrow> job_report" where
  "report_of p n a started finished out =
     (case out of (res, err) \<Rightarrow>
        \<lparr>jr_JobID = na_JobID p a, jr_NodeID = n, jr_StartedAt = started, jr_FinishedAt = finished,
         jr_ExitCode = (if err \<noteq> None \<or> \<not> ru_OK res then 1 else 0),
         jr_FailureCause = (case err of Some e \<Rightarrow> run_error_Error e | None \<Rightarrow> if \<not> ru_OK res then ru_Detail res else '''')\<rparr>)"

text \<open>The last part of \<open>settle\<close>: run an accepted job and report it, or decline where the dispatch refused it.\<close>

definition run_and_report :: "('m, 'a, 'c) node_proto \<Rightarrow> ('m, 'a, 'k) coordinator \<Rightarrow> ('s, 'c, 'k) node_sys \<Rightarrow> 'a \<Rightarrow> workload_kind \<Rightarrow> string option \<times> ('s, 'c, 'k) node_sys" where
  "run_and_report p co y a kind =
     (case Loop_now (sy_loop y) of (started, l1) \<Rightarrow>
      case Agent_Dispatch (lp_Agent l1) (job_of p a kind) (sy_world y) of (out, s, ag) \<Rightarrow>
      let y2 = y\<lparr>sy_loop := l1\<lparr>lp_Agent := ag\<rparr>, sy_world := s\<rparr> in
      if snd out = Some ErrOwnerActive then Loop_decline p co y2 a DeclineUnavailable
      else if is_NoExecutor (snd out) then Loop_decline p co y2 a DeclineLocalPolicy
      else case Loop_now (sy_loop y2) of (finished, l3) \<Rightarrow>
        case co_ReportJob co (np_SignReport p (lp_Key l3) (report_of p (lp_Node l3) a started finished out)) (sy_coord y2) of
          (e, k) \<Rightarrow> (e, y2\<lparr>sy_loop := l3, sy_coord := k\<rparr>))"

definition Loop_settle :: "('m, 'a, 'c) node_proto \<Rightarrow> ('m, 'a, 'k) coordinator \<Rightarrow> ('s, 'c, 'k) node_sys \<Rightarrow> 'a \<Rightarrow> string option \<times> ('s, 'c, 'k) node_sys" where
  "Loop_settle p co y a =
     (let l = sy_loop y in
      if na_NodeID p a \<noteq> lp_Node l then Loop_decline p co y a DeclineLocalPolicy
      else
        let y1 = (if lp_CoordKey l = None then y\<lparr>sy_loop := l\<lparr>lp_warnedNoKey := True\<rparr>\<rparr> else y) in
        if (case lp_CoordKey l of Some key \<Rightarrow> \<not> na_Verify p a key | None \<Rightarrow> False) then Loop_decline p co y1 a DeclineLocalPolicy
        else case workloadKinds (na_Workload p a) of
          None \<Rightarrow> Loop_decline p co y1 a DeclineLocalPolicy
        | Some kind \<Rightarrow>
            (case Agent_Capabilities (lp_Agent (sy_loop y1)) of (caps, ag) \<Rightarrow>
             let y2 = y1\<lparr>sy_loop := (sy_loop y1)\<lparr>lp_Agent := ag\<rparr>\<rparr> in
             if kind \<notin> set caps
             then (case scavengedYield ag of (yield, ag') \<Rightarrow>
                     Loop_decline p co (y2\<lparr>sy_loop := (sy_loop y2)\<lparr>lp_Agent := ag'\<rparr>\<rparr>) a (if yield then DeclineUnavailable else DeclineLocalPolicy))
             else run_and_report p co y2 a kind))"

text \<open>The loop of \<open>PollOnce\<close> over the assignments.\<close>

fun settle_all :: "('m, 'a, 'c) node_proto \<Rightarrow> ('m, 'a, 'k) coordinator \<Rightarrow> ('s, 'c, 'k) node_sys \<Rightarrow> 'a list \<Rightarrow> string option \<times> ('s, 'c, 'k) node_sys" where
  "settle_all p co y [] = (None, y)"
| "settle_all p co y (a # as) =
     (if na_JobID p a \<in> lp_handled (sy_loop y) then settle_all p co y as
      else case Loop_settle p co y a of
        (Some e, y') \<Rightarrow> (Some e, y')
      | (None, y') \<Rightarrow> settle_all p co (y'\<lparr>sy_loop := (sy_loop y')\<lparr>lp_handled := insert (na_JobID p a) (lp_handled (sy_loop y'))\<rparr>\<rparr>) as)"

definition PollOnce :: "('m, 'a, 'c) node_proto \<Rightarrow> ('m, 'a, 'k) coordinator \<Rightarrow> ('s, 'c, 'k) node_sys \<Rightarrow> string option \<times> ('s, 'c, 'k) node_sys" where
  "PollOnce p co y =
     (case co_PollJobs co (lp_Node (sy_loop y)) (sy_coord y) of
        (Inl e, k) \<Rightarrow> (Some e, y\<lparr>sy_coord := k\<rparr>)
      | (Inr jobs, k) \<Rightarrow> settle_all p co (y\<lparr>sy_coord := k\<rparr>) jobs)"

section \<open>The run\<close>

definition loop_intervals :: "('s, 'c) agent_loop \<Rightarrow> u64 \<times> u64" where
  "loop_intervals l =
     (if sint (lp_Heartbeat l) \<le> 0 then 30 * Second else lp_Heartbeat l, if sint (lp_Poll l) \<le> 0 then 10 * Second else lp_Poll l)"

text \<open>Whichever ticker fires next: the select of \<open>Run\<close>. A failed call is only logged.\<close>

datatype loop_tick = TickBeat | TickPoll

definition Run_start :: "('m, 'a, 'c) node_proto \<Rightarrow> ('m, 'a, 'k) coordinator \<Rightarrow> ('s, 'c, 'k) node_sys \<Rightarrow> ('s, 'c, 'k) node_sys" where
  "Run_start p co y =
     (case Loop_List p co y of (None, y') \<Rightarrow> y'
      | (Some e, y') \<Rightarrow> y'\<lparr>sy_loop := (sy_loop y')\<lparr>lp_listed := CHR 0x00 # ''unlisted''\<rparr>\<rparr>)"

fun Run_tick :: "('m, 'a, 'c) node_proto \<Rightarrow> ('m, 'a, 'k) coordinator \<Rightarrow> ('s, 'c, 'k) node_sys \<Rightarrow> loop_tick \<Rightarrow> ('s, 'c, 'k) node_sys" where
  "Run_tick p co y TickBeat = snd (Beat p co y)"
| "Run_tick p co y TickPoll = snd (PollOnce p co y)"

definition Loop_Run :: "('m, 'a, 'c) node_proto \<Rightarrow> ('m, 'a, 'k) coordinator \<Rightarrow> ('s, 'c, 'k) node_sys \<Rightarrow> loop_tick list \<Rightarrow> ('s, 'c, 'k) node_sys" where
  "Loop_Run p co y ticks = foldl (Run_tick p co) (Run_start p co y) ticks"

end
