(* ===== verification/Agent_Steps.thy ===== *)
theory Agent_Steps
  imports Agent_Loop
begin

text \<open>
  What a contributor's node does, whatever its coordinator answers and its owner does: the loop of \<open>src/cmd/cloudy-agent/loop.go\<close> as
  a step relation whose steps are the calls it makes and the jobs it runs. The theorems follow whole runs: only permitted jobs
  run, a settled job is never touched again, sequence numbers ascend, and the frontend's relay accepts every message.
\<close>

section \<open>Steps\<close>

abbreviation looks :: "('s, 'c) agent_loop \<Rightarrow> nat" where "looks l \<equiv> ag_looks (lp_Agent l)"
abbreviation loop_reg :: "('s, 'c) agent_loop \<Rightarrow> 's exec_registry" where "loop_reg l \<equiv> ag_reg (lp_Agent l)"
abbreviation loop_owner :: "('s, 'c) agent_loop \<Rightarrow> nat \<Rightarrow> bool" where "loop_owner l \<equiv> ag_owner (lp_Agent l)"
abbreviation scavenging :: "('s, 'c) agent_loop \<Rightarrow> bool" where "scavenging l \<equiv> nc_Placement (er_contract (loop_reg l)) = Scavenged"

text \<open>What no operation of the loop changes.\<close>

definition loop_fixed where
  "loop_fixed l = (lp_Node l, lp_Key l, lp_CoordKey l, lp_clock l, loop_reg l, loop_owner l)"

text \<open>A job the node may run: it is addressed to the node, verifies under the coordinator's key where one is set, is of a known workload
  within the contract, and an executor is registered for it; on scavenged capacity look \<open>i\<close> at the owner found them away. A step that runs a
  job contains that look: it is the one the dispatch makes.\<close>

definition permitted :: "('m, 'a, 'c) node_proto \<Rightarrow> ('s, 'c) agent_loop \<Rightarrow> nat \<Rightarrow> 'a \<Rightarrow> bool" where
  "permitted p l i a \<longleftrightarrow> na_NodeID p a = lp_Node l \<and> (\<forall>key. lp_CoordKey l = Some key \<longrightarrow> na_Verify p a key) \<and>
     (\<exists>k e. workloadKinds (na_Workload p a) = Some k \<and> k \<in> set (nc_Kinds (er_contract (loop_reg l))) \<and> map_of (er_batch (loop_reg l)) k = Some e) \<and>
     (scavenging l \<longrightarrow> \<not> loop_owner l i)"

definition run_job :: "('m, 'a, 'c) node_proto \<Rightarrow> 's exec_registry \<Rightarrow> 'a \<Rightarrow> 's \<Rightarrow> 's" where
  "run_job p r a s =
     (case workloadKinds (na_Workload p a) of None \<Rightarrow> s
      | Some k \<Rightarrow> (case map_of (er_batch r) k of None \<Rightarrow> s | Some e \<Rightarrow> snd (ex_Run e (job_of p a k) s)))"

definition fresh_seq :: "('s, 'c) agent_loop \<Rightarrow> u64 \<Rightarrow> bool" where
  "fresh_seq l q \<longleftrightarrow> (\<exists>i. let s = word_of_int (lp_clock l i) in q = (if s \<le> lp_seq l then lp_seq l + 1 else s))"

definition mark_handled :: "string option \<Rightarrow> string \<Rightarrow> ('s, 'c) agent_loop \<Rightarrow> ('s, 'c) agent_loop" where
  "mark_handled e j l = (if e = None then l\<lparr>lp_handled := insert j (lp_handled l)\<rparr> else l)"

inductive node_step :: "('m, 'a, 'c) node_proto \<Rightarrow> ('m, 'a, 'k) coordinator \<Rightarrow> ('s, 'c, 'k) node_sys \<Rightarrow> ('s, 'c, 'k) node_sys \<Rightarrow> bool" for p co where
  quiet: "loop_fixed l' = loop_fixed (sy_loop y) \<Longrightarrow> looks (sy_loop y) \<le> looks l' \<Longrightarrow> lp_seq l' = lp_seq (sy_loop y) \<Longrightarrow>
    lp_handled l' = lp_handled (sy_loop y) \<Longrightarrow> node_step p co y (y\<lparr>sy_loop := l'\<rparr>)"
| lists: "fresh_seq (sy_loop y) (kl_Seq m) \<Longrightarrow> kl_NodeID m = lp_Node (sy_loop y) \<Longrightarrow>
    co_SubmitListing co (np_SignListing p (lp_Key (sy_loop y)) m) (sy_coord y) = (e, k) \<Longrightarrow>
    node_step p co y (y\<lparr>sy_loop := (sy_loop y)\<lparr>lp_seq := kl_Seq m\<rparr>, sy_coord := k\<rparr>)"
| beats: "fresh_seq (sy_loop y) (hb_Seq m) \<Longrightarrow> hb_NodeID m = lp_Node (sy_loop y) \<Longrightarrow>
    co_Heartbeat co (np_SignBeat p (lp_Key (sy_loop y)) m) (sy_coord y) = (e, k) \<Longrightarrow>
    node_step p co y (y\<lparr>sy_loop := (sy_loop y)\<lparr>lp_seq := hb_Seq m\<rparr>, sy_coord := k\<rparr>)"
| polls: "co_PollJobs co (lp_Node (sy_loop y)) (sy_coord y) = (res, k) \<Longrightarrow> node_step p co y (y\<lparr>sy_coord := k\<rparr>)"
| runs: "permitted p (sy_loop y) i a \<Longrightarrow> (scavenging (sy_loop y) \<longrightarrow> i = looks (sy_loop y) \<and> looks l' = Suc i) \<Longrightarrow>
    loop_fixed l' = loop_fixed (sy_loop y) \<Longrightarrow> looks (sy_loop y) \<le> looks l' \<Longrightarrow> lp_seq l' = lp_seq (sy_loop y) \<Longrightarrow> lp_handled l' = lp_handled (sy_loop y) \<Longrightarrow>
    node_step p co y (y\<lparr>sy_loop := l', sy_world := run_job p (loop_reg (sy_loop y)) a (sy_world y)\<rparr>)"
| declines: "de_JobID d \<notin> lp_handled (sy_loop y) \<Longrightarrow> de_NodeID d = lp_Node (sy_loop y) \<Longrightarrow>
    co_Decline co (np_SignDecline p (lp_Key (sy_loop y)) d) (sy_coord y) = (e, k) \<Longrightarrow>
    node_step p co y (y\<lparr>sy_loop := mark_handled e (de_JobID d) (sy_loop y), sy_coord := k\<rparr>)"
| reports: "jr_JobID j \<notin> lp_handled (sy_loop y) \<Longrightarrow> jr_NodeID j = lp_Node (sy_loop y) \<Longrightarrow>
    co_ReportJob co (np_SignReport p (lp_Key (sy_loop y)) j) (sy_coord y) = (e, k) \<Longrightarrow>
    node_step p co y (y\<lparr>sy_loop := mark_handled e (jr_JobID j) (sy_loop y), sy_coord := k\<rparr>)"

abbreviation node_steps :: "('m, 'a, 'c) node_proto \<Rightarrow> ('m, 'a, 'k) coordinator \<Rightarrow> ('s, 'c, 'k) node_sys \<Rightarrow> ('s, 'c, 'k) node_sys \<Rightarrow> bool" where
  "node_steps p co \<equiv> (node_step p co)\<^sup>*\<^sup>*"

section \<open>The operations are sequences of steps\<close>

lemma scavengedYield_looks:
  assumes "scavengedYield a = (b, a')"
  shows "ag_reg a' = ag_reg a" "ag_owner a' = ag_owner a" "ag_looks a \<le> ag_looks a'"
    "nc_Placement (er_contract (ag_reg a)) = Scavenged \<Longrightarrow> ag_looks a' = Suc (ag_looks a) \<and> b = ag_owner a (ag_looks a)"
    "nc_Placement (er_contract (ag_reg a)) \<noteq> Scavenged \<Longrightarrow> \<not> b"
proof -
  have "b = (if nc_Placement (er_contract (ag_reg a)) = Scavenged then ag_owner a (ag_looks a) else False) \<and>
    a' = (if nc_Placement (er_contract (ag_reg a)) = Scavenged then a\<lparr>ag_looks := Suc (ag_looks a)\<rparr> else a)"
    using assms by (cases "nc_Placement (er_contract (ag_reg a)) = Scavenged") (simp_all add: scavengedYield_def)
  then show "ag_reg a' = ag_reg a" "ag_owner a' = ag_owner a" "ag_looks a \<le> ag_looks a'"
    "nc_Placement (er_contract (ag_reg a)) = Scavenged \<Longrightarrow> ag_looks a' = Suc (ag_looks a) \<and> b = ag_owner a (ag_looks a)"
    "nc_Placement (er_contract (ag_reg a)) \<noteq> Scavenged \<Longrightarrow> \<not> b"
    by simp_all
qed

lemma Agent_Capabilities_looks:
  assumes "Agent_Capabilities a = (caps, a')"
  shows "ag_reg a' = ag_reg a" "ag_owner a' = ag_owner a" "ag_looks a \<le> ag_looks a'" "set caps \<subseteq> set (Registry_Capabilities (ag_reg a))"
proof -
  obtain b a1 where y: "scavengedYield a = (b, a1)" by fastforce
  have "a1 = a'" "caps = (if b then [] else Registry_Capabilities (ag_reg a1))" using assms by (simp_all add: Agent_Capabilities_def y)
  then show "ag_reg a' = ag_reg a" "ag_owner a' = ag_owner a" "ag_looks a \<le> ag_looks a'" "set caps \<subseteq> set (Registry_Capabilities (ag_reg a))"
    using scavengedYield_looks [OF y] by simp_all
qed

lemma Loop_now_quiet:
  assumes "Loop_now l = (t, l')"
  shows "loop_fixed l' = loop_fixed l" "looks l' = looks l" "lp_seq l' = lp_seq l" "lp_handled l' = lp_handled l" "lp_Agent l' = lp_Agent l"
  using assms by (auto simp: Loop_now_def loop_fixed_def)

lemma nextSeq_fresh:
  assumes "nextSeq l = (q, l')"
  shows "\<exists>l1. Loop_now l = (lp_clock l (lp_reads l), l1) \<and> fresh_seq l1 q \<and> l' = l1\<lparr>lp_seq := q\<rparr>"
  using assms by (auto simp: nextSeq_def Loop_now_def fresh_seq_def Let_def intro!: exI [of _ "lp_reads l"])

lemma steps_refl: "y' = y \<Longrightarrow> node_steps p co y y'" by simp

lemma quiet_steps:
  assumes "y' = y\<lparr>sy_loop := l'\<rparr>" "loop_fixed l' = loop_fixed (sy_loop y)" "looks (sy_loop y) \<le> looks l'"
    "lp_seq l' = lp_seq (sy_loop y)" "lp_handled l' = lp_handled (sy_loop y)"
  shows "node_steps p co y y'"
  unfolding assms(1) by (rule r_into_rtranclp, rule node_step.quiet) (fact assms(2-))+

text \<open>Taking the time and a sequence number: a quiet step to a state in which the number is fresh.\<close>

lemma stamp_steps:
  assumes "Loop_now (sy_loop y) = (t, l1)" and "nextSeq l1 = (q, l2)"
  shows "\<exists>l. node_steps p co y (y\<lparr>sy_loop := l\<rparr>) \<and> fresh_seq l q \<and> l2 = l\<lparr>lp_seq := q\<rparr> \<and> loop_fixed l = loop_fixed (sy_loop y) \<and> looks l = looks (sy_loop y) \<and>
    lp_handled l = lp_handled (sy_loop y)"
proof -
  obtain l where l: "Loop_now l1 = (lp_clock l1 (lp_reads l1), l)" "fresh_seq l q" "l2 = l\<lparr>lp_seq := q\<rparr>"
    using nextSeq_fresh [OF assms(2)] by blast
  note n = Loop_now_quiet [OF assms(1)] Loop_now_quiet [OF l(1)]
  have "node_steps p co y (y\<lparr>sy_loop := l\<rparr>)" by (rule quiet_steps [OF refl]) (simp_all add: n)
  then show ?thesis using l n by auto
qed

lemma loop_fixedD:
  assumes "loop_fixed l' = loop_fixed l"
  shows "lp_Node l' = lp_Node l" "lp_Key l' = lp_Key l" "lp_CoordKey l' = lp_CoordKey l" "lp_clock l' = lp_clock l" "loop_reg l' = loop_reg l" "loop_owner l' = loop_owner l"
  using assms by (simp_all add: loop_fixed_def)

lemma send_beat_steps: "node_steps p co y (snd (send_beat p co y))"
proof -
  obtain t l1 where a: "Loop_now (sy_loop y) = (t, l1)" by fastforce
  obtain q l2 where b: "nextSeq l1 = (q, l2)" by fastforce
  from stamp_steps [OF a b] obtain l where l: "node_steps p co y (y\<lparr>sy_loop := l\<rparr>)" "fresh_seq l q" "l2 = l\<lparr>lp_seq := q\<rparr>"
    by metis
  obtain e k where c: "co_Heartbeat co (np_SignBeat p (lp_Key l) \<lparr>hb_NodeID = lp_Node l, hb_SentAt = t, hb_Seq = q\<rparr>) (sy_coord y) = (e, k)" by fastforce
  have "node_step p co (y\<lparr>sy_loop := l\<rparr>) (y\<lparr>sy_loop := l\<lparr>lp_seq := q\<rparr>, sy_coord := k\<rparr>)"
    using node_step.beats [of "y\<lparr>sy_loop := l\<rparr>" "\<lparr>hb_NodeID = lp_Node l, hb_SentAt = t, hb_Seq = q\<rparr>" co p e k] l(2) c by simp
  moreover have "snd (send_beat p co y) = y\<lparr>sy_loop := l\<lparr>lp_seq := q\<rparr>, sy_coord := k\<rparr>"
    using c by (simp add: send_beat_def a b l(3))
  ultimately show ?thesis using l(1) by simp
qed

lemma agent_quiet:
  assumes "ag_reg ag = loop_reg l" "ag_owner ag = loop_owner l"
  shows "loop_fixed (l\<lparr>lp_Agent := ag\<rparr>) = loop_fixed l"
  using assms by (simp add: loop_fixed_def)

lemma agent_steps:
  assumes "ag_reg ag = loop_reg (sy_loop y)" "ag_owner ag = loop_owner (sy_loop y)" "looks (sy_loop y) \<le> ag_looks ag"
  shows "node_steps p co y (y\<lparr>sy_loop := (sy_loop y)\<lparr>lp_Agent := ag\<rparr>\<rparr>)"
  by (rule quiet_steps [OF refl]) (simp_all add: assms agent_quiet)

lemma Loop_List_steps: "node_steps p co y (snd (Loop_List p co y))"
proof -
  obtain caps ag where g: "Agent_Capabilities (lp_Agent (sy_loop y)) = (caps, ag)" by fastforce
  let ?y1 = "y\<lparr>sy_loop := (sy_loop y)\<lparr>lp_Agent := ag\<rparr>\<rparr>"
  have one: "node_steps p co y ?y1" by (rule agent_steps) (rule Agent_Capabilities_looks [OF g])+
  obtain t l1 where a: "Loop_now (sy_loop ?y1) = (t, l1)" by fastforce
  obtain q l2 where b: "nextSeq l1 = (q, l2)" by fastforce
  from stamp_steps [OF a b] obtain l where l: "node_steps p co ?y1 (?y1\<lparr>sy_loop := l\<rparr>)" "fresh_seq l q" "l2 = l\<lparr>lp_seq := q\<rparr>"
    by metis
  let ?m = "\<lparr>kl_NodeID = lp_Node l, kl_Class = lp_Class l, kl_Capacity = lp_Capacity l, kl_Compute = Compute \<in> set caps,
           kl_Print = Print \<in> set caps, kl_IssuedAt = t, kl_Seq = q\<rparr>"
  obtain e k where c: "co_SubmitListing co (np_SignListing p (lp_Key l) ?m) (sy_coord y) = (e, k)" by fastforce
  let ?y3 = "y\<lparr>sy_loop := l\<lparr>lp_seq := q\<rparr>, sy_coord := k\<rparr>"
  have two: "node_step p co (y\<lparr>sy_loop := l\<rparr>) ?y3"
    using node_step.lists [of "y\<lparr>sy_loop := l\<rparr>" ?m co p e k] l(2) c by simp
  have res: "snd (Loop_List p co y) = (if e = None then y\<lparr>sy_loop := l\<lparr>lp_seq := q, lp_listed := capsKey caps\<rparr>, sy_coord := k\<rparr> else ?y3)"
    using a c by (cases e) (simp_all add: Loop_List_def g b l(3))
  have "node_steps p co ?y3 (y\<lparr>sy_loop := l\<lparr>lp_seq := q, lp_listed := capsKey caps\<rparr>, sy_coord := k\<rparr>)"
    by (rule quiet_steps [where l' = "l\<lparr>lp_seq := q, lp_listed := capsKey caps\<rparr>"]) (simp_all add: loop_fixed_def)
  moreover have "node_steps p co y ?y3" using one l(1) two by simp
  ultimately show ?thesis unfolding res by (auto intro: rtranclp_trans)
qed

lemma Beat_steps: "node_steps p co y (snd (Beat p co y))"
proof -
  obtain caps ag where g: "Agent_Capabilities (lp_Agent (sy_loop y)) = (caps, ag)" by fastforce
  let ?y1 = "y\<lparr>sy_loop := (sy_loop y)\<lparr>lp_Agent := ag\<rparr>\<rparr>"
  have one: "node_steps p co y ?y1" by (rule agent_steps) (rule Agent_Capabilities_looks [OF g])+
  obtain e y2 where l: "Loop_List p co ?y1 = (e, y2)" by fastforce
  have two: "node_steps p co ?y1 y2" using Loop_List_steps [of p co ?y1] l by simp
  have "snd (Beat p co y) \<in> {snd (send_beat p co ?y1), y2, snd (send_beat p co y2)}"
    using l by (cases e) (simp_all add: Beat_def g Let_def)
  then show ?thesis using one two send_beat_steps [of p co ?y1] send_beat_steps [of p co y2] by (auto dest: rtranclp_trans)
qed

text \<open>A settlement: quiet steps and perhaps a run, then one declining or reporting call about the job.\<close>

definition settling_call :: "('m, 'a, 'c) node_proto \<Rightarrow> ('m, 'a, 'k) coordinator \<Rightarrow> ('s, 'c, 'k) node_sys \<Rightarrow> string \<Rightarrow> string option \<Rightarrow> 'k \<Rightarrow> bool" where
  "settling_call p co y j e k \<longleftrightarrow>
     (\<exists>d. de_JobID d = j \<and> de_NodeID d = lp_Node (sy_loop y) \<and> co_Decline co (np_SignDecline p (lp_Key (sy_loop y)) d) (sy_coord y) = (e, k)) \<or>
     (\<exists>r. jr_JobID r = j \<and> jr_NodeID r = lp_Node (sy_loop y) \<and> co_ReportJob co (np_SignReport p (lp_Key (sy_loop y)) r) (sy_coord y) = (e, k))"

definition settled_by :: "('m, 'a, 'c) node_proto \<Rightarrow> ('m, 'a, 'k) coordinator \<Rightarrow> ('s, 'c, 'k) node_sys \<Rightarrow> string \<Rightarrow> string option \<times> ('s, 'c, 'k) node_sys \<Rightarrow> bool" where
  "settled_by p co y j out \<longleftrightarrow>
     (\<exists>y1 e k. node_steps p co y y1 \<and> lp_handled (sy_loop y1) = lp_handled (sy_loop y) \<and> settling_call p co y1 j e k \<and> out = (e, y1\<lparr>sy_coord := k\<rparr>))"

lemma settled_by_after:
  assumes "node_steps p co y y1" "lp_handled (sy_loop y1) = lp_handled (sy_loop y)" "settled_by p co y1 j out"
  shows "settled_by p co y j out"
  using assms unfolding settled_by_def by (metis rtranclp_trans)

lemma Loop_decline_settles: "settled_by p co y (na_JobID p a) (Loop_decline p co y a reason)"
proof -
  obtain t l where a: "Loop_now (sy_loop y) = (t, l)" by fastforce
  note n = Loop_now_quiet [OF a]
  let ?d = "\<lparr>de_JobID = na_JobID p a, de_NodeID = lp_Node l, de_Reason = reason, de_DeclinedAt = t\<rparr>"
  obtain e k where c: "co_Decline co (np_SignDecline p (lp_Key l) ?d) (sy_coord y) = (e, k)" by fastforce
  have "node_steps p co y (y\<lparr>sy_loop := l\<rparr>)" by (rule quiet_steps [OF refl]) (simp_all add: n)
  moreover have "settling_call p co (y\<lparr>sy_loop := l\<rparr>) (na_JobID p a) e k"
    unfolding settling_call_def using c by (intro disjI1 exI [of _ ?d]) simp
  moreover have "Loop_decline p co y a reason = (e, y\<lparr>sy_loop := l\<rparr>\<lparr>sy_coord := k\<rparr>)" using c by (simp add: Loop_decline_def a)
  ultimately show ?thesis unfolding settled_by_def using n(4) by (intro exI [of _ "y\<lparr>sy_loop := l\<rparr>"]) auto
qed

lemma Registry_Dispatch_run:
  assumes "Registry_Dispatch r (job_of p a k) s = (out, s')" "workloadKinds (na_Workload p a) = Some k"
  shows "s' = s \<or> (k \<in> set (nc_Kinds (er_contract r)) \<and> (\<exists>e. map_of (er_batch r) k = Some e) \<and> s' = run_job p r a s)"
  using assms by (auto simp: Registry_Dispatch_def job_of_def run_job_def split: if_splits option.splits dest: sym [of "ex_Run _ _ _"])

lemma Agent_Dispatch_steps:
  assumes d: "Agent_Dispatch (lp_Agent (sy_loop y)) (job_of p a kind) (sy_world y) = (out, s, ag)"
    and "na_NodeID p a = lp_Node (sy_loop y)" "\<forall>key. lp_CoordKey (sy_loop y) = Some key \<longrightarrow> na_Verify p a key" "workloadKinds (na_Workload p a) = Some kind"
  shows "node_steps p co y (y\<lparr>sy_loop := (sy_loop y)\<lparr>lp_Agent := ag\<rparr>, sy_world := s\<rparr>)"
proof -
  obtain yield ag' where sy: "scavengedYield (lp_Agent (sy_loop y)) = (yield, ag')" by fastforce
  note lk = scavengedYield_looks [OF sy]
  have ag: "ag = ag'" using d by (auto simp: Agent_Dispatch_def sy split: if_splits prod.splits)
  let ?y1 = "y\<lparr>sy_loop := (sy_loop y)\<lparr>lp_Agent := ag\<rparr>\<rparr>"
  have one: "node_steps p co y ?y1" unfolding ag by (rule agent_steps) (fact lk)+
  show ?thesis
  proof (cases yield)
    case True
    then have "s = sy_world y" using d by (simp add: Agent_Dispatch_def sy)
    then show ?thesis using one by simp
  next
    case False
    then have "Registry_Dispatch (loop_reg (sy_loop y)) (job_of p a kind) (sy_world y) = (out, s)"
      using d lk(1) by (simp add: Agent_Dispatch_def sy split: prod.splits)
    from Registry_Dispatch_run [OF this assms(4)] show ?thesis
    proof (elim disjE conjE exE)
      assume "s = sy_world y"
      then show ?thesis using one by simp
    next
      fix e assume k: "kind \<in> set (nc_Kinds (er_contract (loop_reg (sy_loop y))))" "map_of (er_batch (loop_reg (sy_loop y))) kind = Some e"
        "s = run_job p (loop_reg (sy_loop y)) a (sy_world y)"
      have "permitted p (sy_loop y) (looks (sy_loop y)) a"
        unfolding permitted_def using assms k lk False by auto
      then have "node_step p co y (y\<lparr>sy_loop := sy_loop ?y1, sy_world := run_job p (loop_reg (sy_loop y)) a (sy_world y)\<rparr>)"
        by (rule node_step.runs) (use lk in \<open>simp_all add: ag agent_quiet\<close>)
      then show ?thesis using k(3) by (simp add: r_into_rtranclp)
    qed
  qed
qed

lemma run_and_report_settles:
  assumes "na_NodeID p a = lp_Node (sy_loop y)" "\<forall>key. lp_CoordKey (sy_loop y) = Some key \<longrightarrow> na_Verify p a key" "workloadKinds (na_Workload p a) = Some kind"
  shows "settled_by p co y (na_JobID p a) (run_and_report p co y a kind)"
proof -
  obtain started l1 where a: "Loop_now (sy_loop y) = (started, l1)" by fastforce
  note n = Loop_now_quiet [OF a]
  let ?y1 = "y\<lparr>sy_loop := l1\<rparr>"
  obtain out s ag where d: "Agent_Dispatch (lp_Agent l1) (job_of p a kind) (sy_world y) = (out, s, ag)" by (metis prod_cases3)
  let ?y2 = "y\<lparr>sy_loop := l1\<lparr>lp_Agent := ag\<rparr>, sy_world := s\<rparr>"
  have "node_steps p co y ?y1" by (rule quiet_steps [OF refl]) (simp_all add: n)
  moreover have "node_steps p co ?y1 (?y1\<lparr>sy_loop := (sy_loop ?y1)\<lparr>lp_Agent := ag\<rparr>, sy_world := s\<rparr>)"
    by (rule Agent_Dispatch_steps) (use d assms loop_fixedD [OF n(1)] in simp_all)
  ultimately have two: "node_steps p co y ?y2" by simp
  have h: "lp_handled (sy_loop ?y2) = lp_handled (sy_loop y)" using n by simp
  obtain finished l3 where b: "Loop_now (l1\<lparr>lp_Agent := ag\<rparr>) = (finished, l3)" by fastforce
  note m = Loop_now_quiet [OF b]
  let ?r = "report_of p (lp_Node l3) a started finished out"
  have r: "jr_JobID ?r = na_JobID p a" "jr_NodeID ?r = lp_Node l3" by (simp_all add: report_of_def split: prod.split)
  obtain e k where c: "co_ReportJob co (np_SignReport p (lp_Key l3) ?r) (sy_coord y) = (e, k)" by fastforce
  have "settled_by p co ?y2 (na_JobID p a) (e, ?y2\<lparr>sy_loop := l3\<rparr>\<lparr>sy_coord := k\<rparr>)"
  proof -
    have "node_steps p co ?y2 (?y2\<lparr>sy_loop := l3\<rparr>)" by (rule quiet_steps [OF refl]) (simp_all add: m)
    moreover have "settling_call p co (?y2\<lparr>sy_loop := l3\<rparr>) (na_JobID p a) e k"
      unfolding settling_call_def using c r by (intro disjI2 exI [of _ ?r]) simp
    ultimately show ?thesis unfolding settled_by_def using m(4) by (intro exI [of _ "?y2\<lparr>sy_loop := l3\<rparr>"] exI [of _ e] exI [of _ k]) simp
  qed
  moreover have "run_and_report p co y a kind = (if snd out = Some ErrOwnerActive then Loop_decline p co ?y2 a DeclineUnavailable
      else if is_NoExecutor (snd out) then Loop_decline p co ?y2 a DeclineLocalPolicy else (e, ?y2\<lparr>sy_loop := l3\<rparr>\<lparr>sy_coord := k\<rparr>))"
    using b c by (simp add: run_and_report_def a d Let_def)
  ultimately have "settled_by p co ?y2 (na_JobID p a) (run_and_report p co y a kind)"
    using Loop_decline_settles [of p co ?y2 a] by (simp split: if_split)
  then show ?thesis by (rule settled_by_after [OF two h])
qed

lemma Loop_settle_settles: "settled_by p co y (na_JobID p a) (Loop_settle p co y a)"
proof (cases "na_NodeID p a = lp_Node (sy_loop y)")
  case False
  then show ?thesis using Loop_decline_settles by (simp add: Loop_settle_def)
next
  case True
  let ?y1 = "if lp_CoordKey (sy_loop y) = None then y\<lparr>sy_loop := (sy_loop y)\<lparr>lp_warnedNoKey := True\<rparr>\<rparr> else y"
  have s1: "node_steps p co y ?y1" by (cases "lp_CoordKey (sy_loop y)") (auto intro!: quiet_steps [OF refl] simp: loop_fixed_def)
  have f1: "loop_fixed (sy_loop ?y1) = loop_fixed (sy_loop y)" "lp_handled (sy_loop ?y1) = lp_handled (sy_loop y)" by (auto simp: loop_fixed_def)
  have n1: "lp_Node (sy_loop ?y1) = lp_Node (sy_loop y)" "lp_CoordKey (sy_loop ?y1) = lp_CoordKey (sy_loop y)" using loop_fixedD [OF f1(1)] by simp_all
  let ?bad = "case lp_CoordKey (sy_loop y) of Some key \<Rightarrow> \<not> na_Verify p a key | None \<Rightarrow> False"
  have "settled_by p co ?y1 (na_JobID p a) (Loop_settle p co y a)"
  proof (cases "?bad \<or> workloadKinds (na_Workload p a) = None")
    case True
    then have "Loop_settle p co y a = Loop_decline p co ?y1 a DeclineLocalPolicy"
      using \<open>na_NodeID p a = lp_Node (sy_loop y)\<close> by (auto simp: Loop_settle_def Let_def split: option.splits)
    then show ?thesis using Loop_decline_settles by metis
  next
    case False
    then obtain kind where kind: "workloadKinds (na_Workload p a) = Some kind" and good: "\<not> ?bad" by auto
    obtain caps ag where g: "Agent_Capabilities (lp_Agent (sy_loop ?y1)) = (caps, ag)" by fastforce
    note lk = Agent_Capabilities_looks [OF g]
    obtain yield ag' where h: "scavengedYield ag = (yield, ag')" by fastforce
    note lk' = scavengedYield_looks [OF h]
    let ?y2 = "?y1\<lparr>sy_loop := (sy_loop ?y1)\<lparr>lp_Agent := ag\<rparr>\<rparr>"
    let ?y3 = "?y1\<lparr>sy_loop := (sy_loop ?y1)\<lparr>lp_Agent := ag'\<rparr>\<rparr>"
    have two: "node_steps p co ?y1 ?y2" by (rule agent_steps) (fact lk)+
    have three: "node_steps p co ?y1 ?y3" by (rule agent_steps) (use lk lk' in simp_all)
    have res: "Loop_settle p co y a =
        (if kind \<notin> set caps then Loop_decline p co ?y3 a (if yield then DeclineUnavailable else DeclineLocalPolicy) else run_and_report p co ?y2 a kind)"
      using True kind good g h by (simp add: Loop_settle_def Let_def)
    show ?thesis
    proof (cases "kind \<in> set caps")
      case False
      have "settled_by p co ?y3 (na_JobID p a) (Loop_settle p co y a)" using Loop_decline_settles [of p co ?y3] False by (simp add: res)
      then show ?thesis by (rule settled_by_after [OF three, rotated]) simp
    next
      case k: True
      have "settled_by p co ?y2 (na_JobID p a) (run_and_report p co ?y2 a kind)"
        by (rule run_and_report_settles) (use True n1 good kind in \<open>auto split: option.splits\<close>)
      then show ?thesis unfolding res using k by (simp add: settled_by_after [OF two])
    qed
  qed
  then show ?thesis by (rule settled_by_after [OF s1 f1(2)])
qed

lemma settling_step:
  assumes "settling_call p co y j e k" "j \<notin> lp_handled (sy_loop y)"
  shows "node_step p co y (y\<lparr>sy_loop := mark_handled e j (sy_loop y), sy_coord := k\<rparr>)"
  using assms(1) unfolding settling_call_def
proof (elim disjE exE conjE)
  fix d assume d: "de_JobID d = j" "de_NodeID d = lp_Node (sy_loop y)" "co_Decline co (np_SignDecline p (lp_Key (sy_loop y)) d) (sy_coord y) = (e, k)"
  then show ?thesis using node_step.declines [OF _ d(2,3)] assms(2) by simp
next
  fix r assume r: "jr_JobID r = j" "jr_NodeID r = lp_Node (sy_loop y)" "co_ReportJob co (np_SignReport p (lp_Key (sy_loop y)) r) (sy_coord y) = (e, k)"
  then show ?thesis using node_step.reports [OF _ r(2,3)] assms(2) by simp
qed

lemma mark_handled_simps [simp]:
  "loop_fixed (mark_handled e j l) = loop_fixed l" "looks (mark_handled e j l) = looks l" "lp_seq (mark_handled e j l) = lp_seq l"
  "lp_Agent (mark_handled e j l) = lp_Agent l" "lp_handled (mark_handled e j l) = (if e = None then insert j (lp_handled l) else lp_handled l)"
  "mark_handled (Some x) j l = l" "mark_handled None j l = l\<lparr>lp_handled := insert j (lp_handled l)\<rparr>"
  by (simp_all add: mark_handled_def loop_fixed_def)

lemma settle_all_steps: "node_steps p co y (snd (settle_all p co y as))"
proof (induction as arbitrary: y)
  case (Cons a as)
  show ?case
  proof (cases "na_JobID p a \<in> lp_handled (sy_loop y)")
    case False
    obtain y1 e k where s: "node_steps p co y y1" "lp_handled (sy_loop y1) = lp_handled (sy_loop y)"
      "settling_call p co y1 (na_JobID p a) e k" "Loop_settle p co y a = (e, y1\<lparr>sy_coord := k\<rparr>)"
      using Loop_settle_settles [of p co y a] unfolding settled_by_def by blast
    let ?y2 = "y1\<lparr>sy_loop := mark_handled e (na_JobID p a) (sy_loop y1), sy_coord := k\<rparr>"
    have swap: "y1\<lparr>sy_coord := k, sy_loop := l\<rparr> = y1\<lparr>sy_loop := l, sy_coord := k\<rparr>" for l by simp
    have two: "node_steps p co y ?y2" using s(1) settling_step [OF s(3)] s(2) False by (metis rtranclp.rtrancl_into_rtrancl)
    have "snd (settle_all p co y (a # as)) = (if e = None then snd (settle_all p co ?y2 as) else ?y2)"
      using False s(4) by (cases e) (simp_all add: swap)
    then show ?thesis using two Cons.IH [of ?y2] by (auto intro: rtranclp_trans)
  qed (simp add: Cons.IH)
qed simp

lemma PollOnce_steps: "node_steps p co y (snd (PollOnce p co y))"
proof -
  obtain r k where c: "co_PollJobs co (lp_Node (sy_loop y)) (sy_coord y) = (r, k)" by fastforce
  have one: "node_steps p co y (y\<lparr>sy_coord := k\<rparr>)" using node_step.polls [OF c] by blast
  show ?thesis using one settle_all_steps [of p co "y\<lparr>sy_coord := k\<rparr>"] by (auto simp: PollOnce_def c split: sum.splits intro: rtranclp_trans)
qed

lemma Run_tick_steps: "node_steps p co y (Run_tick p co y t)"
  by (cases t) (simp_all add: Beat_steps PollOnce_steps)

text \<open>A whole run is a sequence of steps.\<close>

lemma Loop_Run_steps: "node_steps p co y (Loop_Run p co y ticks)"
proof -
  obtain e y1 where l: "Loop_List p co y = (e, y1)" by fastforce
  have one: "node_steps p co y y1" using Loop_List_steps [of p co y] l by simp
  moreover have "node_steps p co y1 (y1\<lparr>sy_loop := (sy_loop y1)\<lparr>lp_listed := CHR 0x00 # ''unlisted''\<rparr>\<rparr>)"
    by (rule quiet_steps [OF refl]) (simp_all add: loop_fixed_def)
  ultimately have "node_steps p co y (Run_start p co y)" by (auto simp: Run_start_def l split: option.splits intro: rtranclp_trans)
  moreover have "node_steps p co z (foldl (Run_tick p co) z ticks)" for z
    by (induction ticks arbitrary: z) (auto intro: rtranclp_trans Run_tick_steps)
  ultimately show ?thesis unfolding Loop_Run_def by (rule rtranclp_trans)
qed

section \<open>Only permitted jobs run\<close>

lemma node_step_fixed: "node_step p co y y' \<Longrightarrow> loop_fixed (sy_loop y') = loop_fixed (sy_loop y) \<and> looks (sy_loop y) \<le> looks (sy_loop y')"
  by (induction rule: node_step.induct) (simp_all add: loop_fixed_def mark_handled_def)

lemma node_steps_fixed: "node_steps p co y y' \<Longrightarrow> loop_fixed (sy_loop y') = loop_fixed (sy_loop y) \<and> looks (sy_loop y) \<le> looks (sy_loop y')"
  by (induction rule: rtranclp_induct) (auto dest: node_step_fixed)

lemma permitted_fixed: "loop_fixed l' = loop_fixed l \<Longrightarrow> permitted p l' i a = permitted p l i a"
  using loop_fixedD [of l' l] by (simp add: permitted_def)

lemma node_step_world:
  assumes "node_step p co y y'"
  shows "sy_world y' = sy_world y \<or>
    (\<exists>i a. permitted p (sy_loop y) i a \<and> (scavenging (sy_loop y) \<longrightarrow> i = looks (sy_loop y) \<and> i < looks (sy_loop y')) \<and>
      sy_world y' = run_job p (loop_reg (sy_loop y)) a (sy_world y))"
  using assms
proof (cases rule: node_step.cases)
  case (runs i a l')
  have "scavenging (sy_loop y) \<longrightarrow> i = looks (sy_loop y) \<and> i < looks (sy_loop y')" using runs(3) by (simp add: runs(1))
  moreover have "sy_world y' = run_job p (loop_reg (sy_loop y)) a (sy_world y)" unfolding runs(1) by simp
  ultimately show ?thesis using runs(2) by blast
qed simp_all

text \<open>The runs of a sequence of steps, each with the look its dispatch made: on scavenged capacity every run has a look of its own.\<close>

definition runs_between :: "('m, 'a, 'c) node_proto \<Rightarrow> ('s, 'c) agent_loop \<Rightarrow> nat \<Rightarrow> nat \<Rightarrow> (nat \<times> 'a) list \<Rightarrow> bool" where
  "runs_between p l m n rs \<longleftrightarrow> (\<forall>(i, a) \<in> set rs. permitted p l i a) \<and>
     (scavenging l \<longrightarrow> sorted_wrt (<) (map fst rs) \<and> (\<forall>i \<in> set (map fst rs). m \<le> i \<and> i < n))"

lemma runs_between_mono: "runs_between p l m n rs \<Longrightarrow> n \<le> n' \<Longrightarrow> runs_between p l m n' rs"
  unfolding runs_between_def by (meson order_less_le_trans)

lemma runs_between_snoc:
  assumes "runs_between p l m n rs" "permitted p l i a" "scavenging l \<Longrightarrow> i = n \<and> i < n'" "m \<le> n"
  shows "runs_between p l m n' (rs @ [(i, a)])"
proof -
  have "sorted_wrt (<) (map fst (rs @ [(i, a)])) \<and> (\<forall>j \<in> set (map fst (rs @ [(i, a)])). m \<le> j \<and> j < n')" if s: "scavenging l"
    using assms(1) assms(3) [OF s] assms(4) s unfolding runs_between_def by (auto simp: sorted_wrt_append)
  then show ?thesis using assms(1,2) unfolding runs_between_def by simp
qed

lemma node_steps_world:
  assumes "node_steps p co y y'"
  shows "\<exists>rs. sy_world y' = foldl (\<lambda>s (i, a). run_job p (loop_reg (sy_loop y)) a s) (sy_world y) rs \<and>
    runs_between p (sy_loop y) (looks (sy_loop y)) (looks (sy_loop y')) rs"
  using assms
proof (induction rule: rtranclp_induct)
  case base
  show ?case by (rule exI [of _ "[]"]) (simp add: runs_between_def)
next
  case (step y1 y2)
  note f = node_steps_fixed [OF step.hyps(1)] node_step_fixed [OF step.hyps(2)]
  have lf: "loop_fixed (sy_loop y1) = loop_fixed (sy_loop y)" by (rule conjunct1 [OF f(1)])
  have r: "loop_reg (sy_loop y1) = loop_reg (sy_loop y)" by (rule loop_fixedD(5) [OF lf])
  from step.IH obtain rs where rs: "sy_world y1 = foldl (\<lambda>s (i, a). run_job p (loop_reg (sy_loop y)) a s) (sy_world y) rs"
    "runs_between p (sy_loop y) (looks (sy_loop y)) (looks (sy_loop y1)) rs" by blast
  from node_step_world [OF step.hyps(2)] show ?case
  proof (elim disjE exE conjE)
    assume w: "sy_world y2 = sy_world y1"
    show ?thesis by (intro exI [of _ rs] conjI) (fact trans [OF w rs(1)], rule runs_between_mono [OF rs(2) conjunct2 [OF f(2)]])
  next
    fix i a assume n: "permitted p (sy_loop y1) i a" "scavenging (sy_loop y1) \<longrightarrow> i = looks (sy_loop y1) \<and> i < looks (sy_loop y2)"
      "sy_world y2 = run_job p (loop_reg (sy_loop y1)) a (sy_world y1)"
    have "permitted p (sy_loop y) i a" using n(1) by (simp only: permitted_fixed [OF lf])
    moreover have "i = looks (sy_loop y1) \<and> i < looks (sy_loop y2)" if "scavenging (sy_loop y)" using n(2) that unfolding r by (rule mp)
    ultimately have "runs_between p (sy_loop y) (looks (sy_loop y)) (looks (sy_loop y2)) (rs @ [(i, a)])"
      using runs_between_snoc [OF rs(2) _ _ conjunct2 [OF f(1)]] by blast
    moreover have "sy_world y2 = foldl (\<lambda>s (i, a). run_job p (loop_reg (sy_loop y)) a s) (sy_world y) (rs @ [(i, a)])"
      using rs(1) n(3) r by simp
    ultimately show ?thesis by (intro exI [of _ "rs @ [(i, a)]"] conjI)
  qed
qed

lemma runs_between_away:
  assumes "er_contract (loop_reg l) = c" "runs_between p l m n rs"
  shows "nc_Placement c = Scavenged \<longrightarrow> sorted_wrt (<) (map fst rs) \<and> (\<forall>i \<in> set (map fst rs). m \<le> i \<and> i < n \<and> \<not> loop_owner l i)"
proof
  assume s: "nc_Placement c = Scavenged"
  have "\<not> loop_owner l i" if i: "i \<in> set (map fst rs)" for i
  proof -
    obtain a where "(i, a) \<in> set rs" using i by auto
    then have "permitted p l i a" using assms(2) by (auto simp: runs_between_def)
    then show ?thesis using s assms(1) by (simp add: permitted_def)
  qed
  then show "sorted_wrt (<) (map fst rs) \<and> (\<forall>i \<in> set (map fst rs). m \<le> i \<and> i < n \<and> \<not> loop_owner l i)"
    using s assms by (simp add: runs_between_def)
qed

text \<open>What one settlement does to the machine, and the looks it takes.\<close>

lemma Loop_decline_world: "sy_world (snd (Loop_decline p co y a r)) = sy_world y"
  by (simp add: Loop_decline_def split: prod.split)

lemma run_and_report_world:
  assumes "workloadKinds (na_Workload p a) = Some kind"
  shows "sy_world (snd (run_and_report p co y a kind)) = sy_world y \<or>
    (kind \<in> set (nc_Kinds (er_contract (loop_reg (sy_loop y)))) \<and> (\<exists>e. map_of (er_batch (loop_reg (sy_loop y))) kind = Some e) \<and>
     sy_world (snd (run_and_report p co y a kind)) = run_job p (loop_reg (sy_loop y)) a (sy_world y) \<and>
     (scavenging (sy_loop y) \<longrightarrow> looks (sy_loop (snd (run_and_report p co y a kind))) = Suc (looks (sy_loop y)) \<and> \<not> loop_owner (sy_loop y) (looks (sy_loop y))))"
proof -
  obtain started l1 where a: "Loop_now (sy_loop y) = (started, l1)" by fastforce
  note n = Loop_now_quiet [OF a]
  obtain yield ag where sy: "scavengedYield (lp_Agent (sy_loop y)) = (yield, ag)" by fastforce
  note lk = scavengedYield_looks [OF sy]
  show ?thesis
  proof (cases yield)
    case True
    then have "Agent_Dispatch (lp_Agent l1) (job_of p a kind) (sy_world y) = (((bare_result (na_JobID p a))\<lparr>ru_Detail := ''owner active''\<rparr>, Some ErrOwnerActive), sy_world y, ag)"
      by (simp add: Agent_Dispatch_def n(5) sy job_of_def)
    then show ?thesis by (simp add: run_and_report_def a Loop_decline_world)
  next
    case False
    obtain out s where d: "Registry_Dispatch (loop_reg (sy_loop y)) (job_of p a kind) (sy_world y) = (out, s)" by fastforce
    have g: "Agent_Dispatch (lp_Agent l1) (job_of p a kind) (sy_world y) = (out, s, ag)"
      using False d by (simp add: Agent_Dispatch_def sy n(5) lk(1))
    have w: "sy_world (snd (run_and_report p co y a kind)) = s"
      by (simp add: run_and_report_def a g Loop_decline_world Let_def split: prod.split)
    have q: "looks (sy_loop (snd (Loop_decline p co z a r))) = looks (sy_loop z)" for z r
      by (auto simp: Loop_decline_def Loop_now_def split: prod.split)
    have "looks (sy_loop (snd (run_and_report p co y a kind))) = ag_looks ag"
      by (auto simp: run_and_report_def a g q Let_def dest!: Loop_now_quiet(2) split: prod.split)
    then show ?thesis using Registry_Dispatch_run [OF d assms] lk(4) False unfolding w by (auto simp: n(5))
  qed
qed

lemma Loop_settle_world:
  assumes "sy_world (snd (Loop_settle p co y a)) \<noteq> sy_world y"
  shows "sy_world (snd (Loop_settle p co y a)) = run_job p (loop_reg (sy_loop y)) a (sy_world y) \<and>
    permitted p (sy_loop y) (looks (sy_loop y) + 1) a \<and> (scavenging (sy_loop y) \<longrightarrow> looks (sy_loop (snd (Loop_settle p co y a))) = looks (sy_loop y) + 2 \<and>
      \<not> loop_owner (sy_loop y) (looks (sy_loop y)) \<and> \<not> loop_owner (sy_loop y) (looks (sy_loop y) + 1))"
proof -
  let ?y1 = "if lp_CoordKey (sy_loop y) = None then y\<lparr>sy_loop := (sy_loop y)\<lparr>lp_warnedNoKey := True\<rparr>\<rparr> else y"
  have one: "sy_world ?y1 = sy_world y" "lp_Agent (sy_loop ?y1) = lp_Agent (sy_loop y)" by simp_all
  obtain caps ag where g: "Agent_Capabilities (lp_Agent (sy_loop y)) = (caps, ag)" by fastforce
  obtain yield ag1 where h: "scavengedYield (lp_Agent (sy_loop y)) = (yield, ag1)" by fastforce
  note lk = scavengedYield_looks [OF h]
  have ag: "ag1 = ag" "caps = (if yield then [] else Registry_Capabilities (ag_reg ag1))" using g by (simp_all add: Agent_Capabilities_def h)
  have id: "na_NodeID p a = lp_Node (sy_loop y)"
  proof (rule ccontr)
    assume "na_NodeID p a \<noteq> lp_Node (sy_loop y)"
    then have "Loop_settle p co y a = Loop_decline p co y a DeclineLocalPolicy" by (simp add: Loop_settle_def)
    then show False using assms Loop_decline_world by metis
  qed
  have good: "\<not> (case lp_CoordKey (sy_loop y) of Some key \<Rightarrow> \<not> na_Verify p a key | None \<Rightarrow> False)" (is "\<not> ?bad")
  proof
    assume ?bad
    then have "Loop_settle p co y a = Loop_decline p co ?y1 a DeclineLocalPolicy" using id by (simp only: Loop_settle_def Let_def) simp
    then show False using assms Loop_decline_world one(1) by metis
  qed
  obtain kind where kind: "workloadKinds (na_Workload p a) = Some kind"
  proof (cases "workloadKinds (na_Workload p a)")
    case None
    then have "Loop_settle p co y a = Loop_decline p co ?y1 a DeclineLocalPolicy" using id by (simp add: Loop_settle_def Let_def)
    then have False using assms Loop_decline_world one(1) by metis
    then show ?thesis ..
  qed
  let ?y2 = "?y1\<lparr>sy_loop := (sy_loop ?y1)\<lparr>lp_Agent := ag\<rparr>\<rparr>"
  have two: "sy_world ?y2 = sy_world y" "lp_Agent (sy_loop ?y2) = ag" by simp_all
  have caps: "kind \<in> set caps"
  proof (rule ccontr)
    assume "kind \<notin> set caps"
    then have "sy_world (snd (Loop_settle p co y a)) = sy_world ?y1"
      using id kind good g one(2) by (simp add: Loop_settle_def Let_def Loop_decline_world split: prod.split)
    then show False using assms one(1) by simp
  qed
  then have res: "Loop_settle p co y a = run_and_report p co ?y2 a kind"
    using id kind good g one(2) by (simp add: Loop_settle_def Let_def)
  have away: "\<not> yield" using caps ag(2) by auto
  from run_and_report_world [OF kind, of co ?y2] assms
  have r: "kind \<in> set (nc_Kinds (er_contract (ag_reg ag)))" "\<exists>e. map_of (er_batch (ag_reg ag)) kind = Some e"
     "sy_world (snd (Loop_settle p co y a)) = run_job p (ag_reg ag) a (sy_world y)"
     "nc_Placement (er_contract (ag_reg ag)) = Scavenged \<longrightarrow> looks (sy_loop (snd (Loop_settle p co y a))) = Suc (ag_looks ag) \<and> \<not> ag_owner ag (ag_looks ag)"
    unfolding res two by blast+
  have s: "scavenging (sy_loop y) \<longrightarrow> looks (sy_loop (snd (Loop_settle p co y a))) = looks (sy_loop y) + 2 \<and>
      \<not> loop_owner (sy_loop y) (looks (sy_loop y)) \<and> \<not> loop_owner (sy_loop y) (looks (sy_loop y) + 1)"
    using r(4) lk ag(1) away by auto
  moreover have "permitted p (sy_loop y) (looks (sy_loop y) + 1) a"
    unfolding permitted_def using id good kind r(1,2) s lk(1) ag(1) by (auto split: option.splits)
  ultimately show ?thesis using r(3) lk(1) ag(1) by simp
qed

text \<open>What the contract and the coordinator's key ask of a job.\<close>

definition may_run :: "('m, 'a, 'c) node_proto \<Rightarrow> node_contract \<Rightarrow> ('s, 'c) agent_loop \<Rightarrow> 'a \<Rightarrow> bool" where
  "may_run p c l a \<longleftrightarrow> na_NodeID p a = lp_Node l \<and> (\<forall>key. lp_CoordKey l = Some key \<longrightarrow> na_Verify p a key) \<and>
     (\<exists>k e. workloadKinds (na_Workload p a) = Some k \<and> k \<in> set (nc_Kinds c) \<and> map_of (er_batch (loop_reg l)) k = Some e \<and> ex_Kind e = k \<and>
        (nc_Placement c = Scavenged \<longrightarrow> ex_Preemptible e))"

lemma permitted_may_run:
  assumes "registry_ok c (loop_reg l)" "permitted p l i a"
  shows "may_run p c l a"
proof -
  have c: "er_contract (loop_reg l) = c" using assms(1) by (simp add: registry_ok_def)
  obtain k e where k: "workloadKinds (na_Workload p a) = Some k" "k \<in> set (nc_Kinds c)" "map_of (er_batch (loop_reg l)) k = Some e"
    using assms(2) unfolding permitted_def c by (elim exE conjE)
  have "na_NodeID p a = lp_Node l" "\<forall>key. lp_CoordKey l = Some key \<longrightarrow> na_Verify p a key" using assms(2) by (simp_all add: permitted_def)
  then show ?thesis unfolding may_run_def using k registry_ok_lookup [OF assms(1) k(3)] by (intro conjI exI [of _ k] exI [of _ e]) simp_all
qed

text \<open>C13: the owner's terms are enforced on the machine itself. Whatever a coordinator offers over a whole run of the loop, the machine changes
  only by runs of jobs that are addressed to this node, verify under the coordinator's key where one is configured, and are of a kind
  in the contract with a registered executor of that kind, preemptible on scavenged capacity. There every run rests on a look at the owner of its own,
  made during this run of the loop, later than that of the run before it, and finding the owner away. And settling one
  assignment, in whatever state, changes the machine only by such a run, where on scavenged capacity the two looks the settlement takes, before it
  considers the job and again when it dispatches it, both found the owner away, and no other look was taken.\<close>

theorem node_runs_only_permitted:
  assumes "NewExecRegistry c = Inr r0" and "loop_reg (sy_loop y) = foldl registration_do r0 gs" and "y' = Loop_Run p co y ticks"
  shows "(\<exists>rs. sy_world y' = foldl (\<lambda>s (i, a). run_job p (loop_reg (sy_loop y)) a s) (sy_world y) rs \<and>
      (\<forall>(i, a) \<in> set rs. may_run p c (sy_loop y) a) \<and>
      (nc_Placement c = Scavenged \<longrightarrow> sorted_wrt (<) (map fst rs) \<and>
         (\<forall>i \<in> set (map fst rs). looks (sy_loop y) \<le> i \<and> i < looks (sy_loop y') \<and> \<not> loop_owner (sy_loop y) i))) \<and>
    (\<forall>z a. loop_reg (sy_loop z) = loop_reg (sy_loop y) \<longrightarrow>
      (let z' = snd (Loop_settle p co z a) in sy_world z' = sy_world z \<or>
         (sy_world z' = run_job p (loop_reg (sy_loop z)) a (sy_world z) \<and> may_run p c (sy_loop z) a \<and>
          (nc_Placement c = Scavenged \<longrightarrow> looks (sy_loop z') = looks (sy_loop z) + 2 \<and>
             \<not> loop_owner (sy_loop z) (looks (sy_loop z)) \<and> \<not> loop_owner (sy_loop z) (looks (sy_loop z) + 1)))))"
proof (intro conjI allI impI)
  have ok: "registry_ok c (loop_reg (sy_loop y))" using assms(1,2) registry_ok_new registry_ok_run by metis
  then have c: "er_contract (loop_reg (sy_loop y)) = c" by (simp add: registry_ok_def)
  from node_steps_world [OF Loop_Run_steps [of p co y ticks]] obtain rs where
    rs: "sy_world y' = foldl (\<lambda>s (i, a). run_job p (loop_reg (sy_loop y)) a s) (sy_world y) rs"
    "runs_between p (sy_loop y) (looks (sy_loop y)) (looks (sy_loop y')) rs"
    unfolding assms(3) by blast
  have "nc_Placement c = Scavenged \<longrightarrow> sorted_wrt (<) (map fst rs) \<and>
      (\<forall>i \<in> set (map fst rs). looks (sy_loop y) \<le> i \<and> i < looks (sy_loop y') \<and> \<not> loop_owner (sy_loop y) i)"
    by (rule runs_between_away [OF c rs(2)])
  moreover have "\<forall>(i, a) \<in> set rs. may_run p c (sy_loop y) a"
    using rs(2) unfolding runs_between_def by (auto intro: permitted_may_run [OF ok])
  ultimately show "\<exists>rs. sy_world y' = foldl (\<lambda>s (i, a). run_job p (loop_reg (sy_loop y)) a s) (sy_world y) rs \<and>
      (\<forall>(i, a) \<in> set rs. may_run p c (sy_loop y) a) \<and>
      (nc_Placement c = Scavenged \<longrightarrow> sorted_wrt (<) (map fst rs) \<and>
         (\<forall>i \<in> set (map fst rs). looks (sy_loop y) \<le> i \<and> i < looks (sy_loop y') \<and> \<not> loop_owner (sy_loop y) i))"
    using rs(1) by (intro exI [of _ rs] conjI)
next
  have ok: "registry_ok c (loop_reg (sy_loop y))" using assms(1,2) registry_ok_new registry_ok_run by metis
  then have c: "er_contract (loop_reg (sy_loop y)) = c" by (simp add: registry_ok_def)
  fix z :: "('a, 'b, 'c) node_sys" and a assume z: "loop_reg (sy_loop z) = loop_reg (sy_loop y)"
  show "let z' = snd (Loop_settle p co z a) in sy_world z' = sy_world z \<or>
         (sy_world z' = run_job p (loop_reg (sy_loop z)) a (sy_world z) \<and> may_run p c (sy_loop z) a \<and>
          (nc_Placement c = Scavenged \<longrightarrow> looks (sy_loop z') = looks (sy_loop z) + 2 \<and>
             \<not> loop_owner (sy_loop z) (looks (sy_loop z)) \<and> \<not> loop_owner (sy_loop z) (looks (sy_loop z) + 1)))"
    unfolding Let_def using Loop_settle_world [of p co z a] permitted_may_run [of c "sy_loop z" p "looks (sy_loop z) + 1" a] ok c z by metis
qed

section \<open>The calls a run makes\<close>

text \<open>A coordinator that keeps the calls it receives, with whether each was accepted.\<close>

datatype 'm node_call = CallListing 'm bool | CallBeat 'm bool | CallPoll bool | CallDecline 'm bool | CallReport 'm bool

definition logging :: "('m, 'a, 'k) coordinator \<Rightarrow> ('m, 'a, 'k \<times> 'm node_call list) coordinator" where
  "logging co = \<lparr>co_SubmitListing = (\<lambda>m (k, tr). case co_SubmitListing co m k of (e, k') \<Rightarrow> (e, k', tr @ [CallListing m (e = None)])),
     co_Heartbeat = (\<lambda>m (k, tr). case co_Heartbeat co m k of (e, k') \<Rightarrow> (e, k', tr @ [CallBeat m (e = None)])),
     co_PollJobs = (\<lambda>n (k, tr). case co_PollJobs co n k of (e, k') \<Rightarrow> (e, k', tr @ [CallPoll (\<not> isl e)])),
     co_Decline = (\<lambda>m (k, tr). case co_Decline co m k of (e, k') \<Rightarrow> (e, k', tr @ [CallDecline m (e = None)])),
     co_ReportJob = (\<lambda>m (k, tr). case co_ReportJob co m k of (e, k') \<Rightarrow> (e, k', tr @ [CallReport m (e = None)]))\<rparr>"

text \<open>Signing a message keeps its fields, and the signature verifies under the node's public key: what the protocol documents of \<open>Sign\<close>
  and \<open>Verify\<close>, with the readers of the relay's model.\<close>

definition signs_for :: "('m, 'a, 'c) node_proto \<Rightarrow> ('m, 'a) protocol \<Rightarrow> bytes \<Rightarrow> bytes \<Rightarrow> bool" where
  "signs_for p q key pub \<longleftrightarrow>
     (\<forall>m. pm_NodeID q (np_SignListing p key m) = kl_NodeID m \<and> pm_Seq q (np_SignListing p key m) = kl_Seq m \<and> pm_Verify q (np_SignListing p key m) pub) \<and>
     (\<forall>m. pm_NodeID q (np_SignBeat p key m) = hb_NodeID m \<and> pm_Seq q (np_SignBeat p key m) = hb_Seq m \<and> pm_Verify q (np_SignBeat p key m) pub) \<and>
     (\<forall>m. pm_NodeID q (np_SignDecline p key m) = de_NodeID m \<and> pm_JobID q (np_SignDecline p key m) = de_JobID m \<and> pm_Verify q (np_SignDecline p key m) pub) \<and>
     (\<forall>m. pm_NodeID q (np_SignReport p key m) = jr_NodeID m \<and> pm_JobID q (np_SignReport p key m) = jr_JobID m \<and> pm_Verify q (np_SignReport p key m) pub)"

text \<open>The job a call settles, and the job it settles with the coordinator's acceptance; the sequence number of a call that carries one.\<close>

fun settles_job :: "('m, 'a) protocol \<Rightarrow> 'm node_call \<Rightarrow> string option" where
  "settles_job q (CallDecline m _) = Some (pm_JobID q m)"
| "settles_job q (CallReport m _) = Some (pm_JobID q m)"
| "settles_job q _ = None"

fun accepted_call :: "'m node_call \<Rightarrow> bool" where
  "accepted_call (CallListing _ b) = b"
| "accepted_call (CallBeat _ b) = b"
| "accepted_call (CallPoll b) = b"
| "accepted_call (CallDecline _ b) = b"
| "accepted_call (CallReport _ b) = b"

fun call_seq :: "('m, 'a) protocol \<Rightarrow> 'm node_call \<Rightarrow> u64 option" where
  "call_seq q (CallListing m _) = Some (pm_Seq q m)"
| "call_seq q (CallBeat m _) = Some (pm_Seq q m)"
| "call_seq q _ = None"

text \<open>One step under a logging coordinator: nothing is logged, or one call, with what it does to the sequence number and the handled jobs.\<close>

lemma logging_step:
  assumes "node_step p (logging co) y y'" and "signs_for p q (lp_Key (sy_loop y)) pub"
  shows "(snd (sy_coord y') = snd (sy_coord y) \<and> lp_seq (sy_loop y') = lp_seq (sy_loop y) \<and> lp_handled (sy_loop y') = lp_handled (sy_loop y)) \<or>
    (\<exists>c. snd (sy_coord y') = snd (sy_coord y) @ [c] \<and>
      (case call_seq q c of None \<Rightarrow> lp_seq (sy_loop y') = lp_seq (sy_loop y) | Some s \<Rightarrow> fresh_seq (sy_loop y) s \<and> lp_seq (sy_loop y') = s) \<and>
      (case settles_job q c of None \<Rightarrow> lp_handled (sy_loop y') = lp_handled (sy_loop y)
       | Some j \<Rightarrow> j \<notin> lp_handled (sy_loop y) \<and> lp_handled (sy_loop y') = (if accepted_call c then insert j (lp_handled (sy_loop y)) else lp_handled (sy_loop y))))"
  using assms(1)
proof (cases rule: node_step.cases)
  case (lists m e k)
  then show ?thesis using assms(2) by (cases "sy_coord y") (auto simp: logging_def signs_for_def split: prod.splits)
next
  case (beats m e k)
  then show ?thesis using assms(2) by (cases "sy_coord y") (auto simp: logging_def signs_for_def split: prod.splits)
next
  case (polls r k)
  then show ?thesis by (cases "sy_coord y") (auto simp: logging_def split: prod.splits)
next
  case (declines d e k)
  then show ?thesis using assms(2) by (cases "sy_coord y") (auto simp: logging_def signs_for_def split: prod.splits)
next
  case (reports j e k)
  then show ?thesis using assms(2) by (cases "sy_coord y") (auto simp: logging_def signs_for_def split: prod.splits)
qed simp_all

lemma node_steps_key: "node_steps p co y y' \<Longrightarrow> lp_Key (sy_loop y') = lp_Key (sy_loop y) \<and> lp_clock (sy_loop y') = lp_clock (sy_loop y) \<and> lp_Node (sy_loop y') = lp_Node (sy_loop y)"
  using node_steps_fixed loop_fixedD by blast

section \<open>A settled job is never touched again\<close>

definition settled_once :: "('m, 'a) protocol \<Rightarrow> 'm node_call list \<Rightarrow> bool" where
  "settled_once q tr \<longleftrightarrow> sorted_wrt (\<lambda>c d. accepted_call c \<and> settles_job q c \<noteq> None \<longrightarrow> settles_job q d \<noteq> settles_job q c) tr"

definition accepted_jobs :: "('m, 'a) protocol \<Rightarrow> 'm node_call list \<Rightarrow> string set" where
  "accepted_jobs q tr = {j. \<exists>c \<in> set tr. accepted_call c \<and> settles_job q c = Some j}"

lemma settled_step:
  assumes "node_step p (logging co) y y'" "signs_for p q (lp_Key (sy_loop y)) pub"
    and "settled_once q (snd (sy_coord y)) \<and> accepted_jobs q (snd (sy_coord y)) = lp_handled (sy_loop y)"
  shows "settled_once q (snd (sy_coord y')) \<and> accepted_jobs q (snd (sy_coord y')) = lp_handled (sy_loop y')"
  using logging_step [OF assms(1,2)]
proof (elim disjE exE)
  fix c assume "snd (sy_coord y') = snd (sy_coord y) @ [c] \<and>
      (case call_seq q c of None \<Rightarrow> lp_seq (sy_loop y') = lp_seq (sy_loop y) | Some s \<Rightarrow> fresh_seq (sy_loop y) s \<and> lp_seq (sy_loop y') = s) \<and>
      (case settles_job q c of None \<Rightarrow> lp_handled (sy_loop y') = lp_handled (sy_loop y)
       | Some j \<Rightarrow> j \<notin> lp_handled (sy_loop y) \<and> lp_handled (sy_loop y') = (if accepted_call c then insert j (lp_handled (sy_loop y)) else lp_handled (sy_loop y)))"
  then have c: "snd (sy_coord y') = snd (sy_coord y) @ [c]"
    and h: "case settles_job q c of None \<Rightarrow> lp_handled (sy_loop y') = lp_handled (sy_loop y)
       | Some j \<Rightarrow> j \<notin> lp_handled (sy_loop y) \<and> lp_handled (sy_loop y') = (if accepted_call c then insert j (lp_handled (sy_loop y)) else lp_handled (sy_loop y))"
    by blast+
  have "accepted_jobs q (snd (sy_coord y')) = accepted_jobs q (snd (sy_coord y)) \<union> (if accepted_call c then set_option (settles_job q c) else {})"
    by (auto simp: accepted_jobs_def c)
  moreover have "settled_once q (snd (sy_coord y'))"
  proof -
    have "settles_job q c \<noteq> settles_job q d" if d: "d \<in> set (snd (sy_coord y))" "accepted_call d" "settles_job q d \<noteq> None" for d
    proof -
      obtain j where j: "settles_job q d = Some j" using d(3) by auto
      then have "j \<in> lp_handled (sy_loop y)" using d assms(3) by (auto simp: accepted_jobs_def)
      then show ?thesis using h j by (auto split: option.splits)
    qed
    then show ?thesis using assms(3) by (auto simp: settled_once_def c sorted_wrt_append)
  qed
  ultimately show ?thesis using h assms(3) by (auto split: option.splits)
qed (use assms(3) in simp)

text \<open>C14: a job is settled at most once. In the calls of a whole run, once the coordinator has accepted the decline or the report of a job, no
  later call declines or reports that job, and the jobs so settled are exactly those the loop remembers as handled.\<close>

theorem jobs_settled_once:
  assumes "signs_for p q (lp_Key (sy_loop y)) pub" and "snd (sy_coord y) = []" and "lp_handled (sy_loop y) = {}"
    and "y' = Loop_Run p (logging co) y ticks"
  shows "settled_once q (snd (sy_coord y')) \<and> accepted_jobs q (snd (sy_coord y')) = lp_handled (sy_loop y')"
proof -
  have "node_steps p (logging co) y y'" unfolding assms(4) by (rule Loop_Run_steps)
  then show ?thesis
  proof (induction rule: rtranclp_induct)
    case base
    show ?case using assms(2,3) by (simp add: settled_once_def accepted_jobs_def)
  next
    case (step y1 y2)
    have "signs_for p q (lp_Key (sy_loop y1)) pub" using assms(1) node_steps_key [OF step.hyps(1)] by simp
    then show ?case using settled_step step.hyps(2) step.IH by blast
  qed
qed

section \<open>Sequence numbers ascend\<close>

text \<open>A clock between 1970 and 2262, where \<open>UnixNano\<close> fits.\<close>

definition sane_clock :: "('s, 'c) agent_loop \<Rightarrow> bool" where
  "sane_clock l \<longleftrightarrow> (\<forall>i. 0 \<le> lp_clock l i \<and> lp_clock l i < 2 ^ 63)"

lemma fresh_seq_above:
  assumes "fresh_seq l s" "sane_clock l" "unat (lp_seq l) \<le> 2 ^ 63 + n" "Suc n < 2 ^ 63"
  shows "lp_seq l < s" "unat s \<le> 2 ^ 63 + Suc n"
proof -
  obtain i where s: "s = (if word_of_int (lp_clock l i) \<le> lp_seq l then lp_seq l + 1 else word_of_int (lp_clock l i))"
    using assms(1) by (auto simp: fresh_seq_def Let_def)
  have t: "0 \<le> lp_clock l i" "lp_clock l i < 2 ^ 63" using assms(2) by (auto simp: sane_clock_def)
  then have "unat (word_of_int (lp_clock l i) :: u64) < 2 ^ 63"
    by (simp add: unsigned_of_int nat_less_iff take_bit_int_eq_self)
  moreover have "unat (lp_seq l + 1) = unat (lp_seq l) + 1"
    by (rule unat_add_lem [THEN iffD1, THEN trans]) (use assms(3,4) in simp_all)
  ultimately show "lp_seq l < s" "unat s \<le> 2 ^ 63 + Suc n"
    unfolding s using assms(3) by (auto simp: word_less_nat_alt word_le_nat_alt)
qed

definition sent_seqs :: "('m, 'a) protocol \<Rightarrow> 'm node_call list \<Rightarrow> u64 list" where
  "sent_seqs q tr = List.map_filter (call_seq q) tr"

definition seqs_ok :: "('m, 'a) protocol \<Rightarrow> ('s, 'c) agent_loop \<Rightarrow> 'm node_call list \<Rightarrow> bool" where
  "seqs_ok q l tr \<longleftrightarrow> length tr < 2 ^ 63 \<longrightarrow>
     unat (lp_seq l) \<le> 2 ^ 63 + length tr \<and> sorted_wrt (<) (sent_seqs q tr) \<and> (\<forall>s \<in> set (sent_seqs q tr). s \<le> lp_seq l)"

lemma sent_seqs_snoc: "sent_seqs q (tr @ [c]) = sent_seqs q tr @ (case call_seq q c of None \<Rightarrow> [] | Some s \<Rightarrow> [s])"
  by (simp add: sent_seqs_def List.map_filter_def split: option.split)

lemma seqs_step:
  assumes "node_step p (logging co) y y'" "signs_for p q (lp_Key (sy_loop y)) pub" "sane_clock (sy_loop y)" "seqs_ok q (sy_loop y) (snd (sy_coord y))"
  shows "seqs_ok q (sy_loop y') (snd (sy_coord y'))"
  using logging_step [OF assms(1,2)]
proof (elim disjE exE conjE)
  fix c assume c: "snd (sy_coord y') = snd (sy_coord y) @ [c]"
    and s: "case call_seq q c of None \<Rightarrow> lp_seq (sy_loop y') = lp_seq (sy_loop y) | Some s \<Rightarrow> fresh_seq (sy_loop y) s \<and> lp_seq (sy_loop y') = s"
  show ?thesis
  proof (cases "call_seq q c")
    case None
    then show ?thesis using s assms(4) by (auto simp: seqs_ok_def c sent_seqs_snoc)
  next
    case (Some n)
    show ?thesis unfolding seqs_ok_def
    proof
      assume len: "length (snd (sy_coord y')) < 2 ^ 63"
      then have ok: "unat (lp_seq (sy_loop y)) \<le> 2 ^ 63 + length (snd (sy_coord y))" "sorted_wrt (<) (sent_seqs q (snd (sy_coord y)))"
        "\<forall>s \<in> set (sent_seqs q (snd (sy_coord y))). s \<le> lp_seq (sy_loop y)"
        using assms(4) by (simp_all add: seqs_ok_def c)
      have "Suc (length (snd (sy_coord y))) < 2 ^ 63" using len by (simp add: c)
      note up = fresh_seq_above [OF _ assms(3) ok(1) this, of n]
      show "unat (lp_seq (sy_loop y')) \<le> 2 ^ 63 + length (snd (sy_coord y')) \<and> sorted_wrt (<) (sent_seqs q (snd (sy_coord y'))) \<and>
          (\<forall>s \<in> set (sent_seqs q (snd (sy_coord y'))). s \<le> lp_seq (sy_loop y'))"
        using ok up s Some by (auto simp: c sent_seqs_snoc sorted_wrt_append)
    qed
  qed
qed (use assms(4) in \<open>simp add: seqs_ok_def\<close>)

lemma seqs_run:
  assumes "node_steps p (logging co) y y'" "signs_for p q (lp_Key (sy_loop y)) pub" "sane_clock (sy_loop y)" "seqs_ok q (sy_loop y) (snd (sy_coord y))"
  shows "seqs_ok q (sy_loop y') (snd (sy_coord y'))"
  using assms(1)
proof (induction rule: rtranclp_induct)
  case (step y1 y2)
  have "signs_for p q (lp_Key (sy_loop y1)) pub" "sane_clock (sy_loop y1)" using assms(2,3) node_steps_key [OF step.hyps(1)] by (simp_all add: sane_clock_def)
  then show ?case using seqs_step step.hyps(2) step.IH by blast
qed (rule assms(4))

text \<open>C15: sequence numbers never repeat or go back, even if the clock does. In a run of fewer than 2^63 calls on a clock between 1970 and 2262,
  the numbers of the listings and heartbeats, in the order they are sent, are strictly ascending.\<close>

theorem node_sequence_ascends:
  assumes "signs_for p q (lp_Key (sy_loop y)) pub" and "sane_clock (sy_loop y)" and "snd (sy_coord y) = []" and "lp_seq (sy_loop y) = 0"
    and "y' = Loop_Run p (logging co) y ticks" and "length (snd (sy_coord y')) < 2 ^ 63"
  shows "sorted_wrt (<) (sent_seqs q (snd (sy_coord y')))"
proof -
  have "seqs_ok q (sy_loop y) (snd (sy_coord y))" using assms(3,4) by (simp add: seqs_ok_def sent_seqs_def List.map_filter_def)
  from seqs_run [OF Loop_Run_steps assms(1,2) this] show ?thesis using assms(6) by (simp add: assms(5) seqs_ok_def)
qed

end
