(* ===== verification/Agent_Frontend.thy ===== *)
theory Agent_Frontend
  imports Agent_Steps
begin

text \<open>
  The node and its frontend together: the agent's loop (\<open>src/cmd/cloudy-agent\<close>) with the relay of \<open>src/internal/noderelay\<close> as its
  coordinator, and concrete nodes for the witnesses.
\<close>

section \<open>The relay as coordinator\<close>

text \<open>The relay behind the protocol's HTTP transport: its state with the number of calls so far. \<open>fe_up\<close> and \<open>fe_jobs\<close> are what the
  orchestrator answers the \<open>i\<close>-th call, \<open>fe_clock\<close> the relay's clock, \<open>fe_text\<close> how the transport renders an error.\<close>

record 'a frontend_env =
  fe_up :: "nat \<Rightarrow> string option"
  fe_jobs :: "nat \<Rightarrow> string + 'a list"
  fe_clock :: "nat \<Rightarrow> gotime"
  fe_text :: "relay_error \<Rightarrow> string"

definition frontend :: "('m, 'a) protocol \<Rightarrow> 'a frontend_env \<Rightarrow> ('m, 'a, 'a node_relay \<times> nat) coordinator" where
  "frontend q v = \<lparr>
     co_SubmitListing = (\<lambda>m (r, i). case SubmitListing q r (fe_up v i) m of (e, r') \<Rightarrow> (map_option (fe_text v) e, r', Suc i)),
     co_Heartbeat = (\<lambda>m (r, i). case Heartbeat q r (fe_clock v (2 * i)) (fe_clock v (2 * i + 1)) (fe_up v i) m of (e, r') \<Rightarrow> (map_option (fe_text v) e, r', Suc i)),
     co_PollJobs = (\<lambda>n (r, i). case PollJobs q r (fe_clock v (2 * i)) (fe_clock v (2 * i + 1)) (fe_jobs v i) n of
        (Inl e, r') \<Rightarrow> (Inl (fe_text v e), r', Suc i) | (Inr jobs, r') \<Rightarrow> (Inr jobs, r', Suc i)),
     co_Decline = (\<lambda>m (r, i). case Relay_Decline q r (fe_up v i) m of (e, r') \<Rightarrow> (map_option (fe_text v) e, r', Suc i)),
     co_ReportJob = (\<lambda>m (r, i). case ReportJob q r (fe_up v i) m of (e, r') \<Rightarrow> (map_option (fe_text v) e, r', Suc i))\<rparr>"

text \<open>The relay's record of a node is behind the node's own sequence number.\<close>

definition tracks :: "'a node_relay \<Rightarrow> node_id \<Rightarrow> bytes \<Rightarrow> u64 \<Rightarrow> bool" where
  "tracks r n pub s \<longleftrightarrow> (\<exists>st. ry_nodes r n = Some st \<and> ns_pub st = pub \<and> ns_listSeq st \<le> s \<and> ns_beatSeq st \<le> s)"

lemma tracks_upd:
  assumes "tracks r n pub s" "s \<le> s'" "\<And>st. ns_pub (f st) = ns_pub st" "\<And>st. ns_listSeq st \<le> s \<Longrightarrow> ns_listSeq (f st) \<le> s'" "\<And>st. ns_beatSeq st \<le> s \<Longrightarrow> ns_beatSeq (f st) \<le> s'"
  shows "tracks (upd_node r n f) n pub s'"
  using assms unfolding tracks_def upd_node_def by fastforce

lemma tracks_mono: "tracks r n pub s \<Longrightarrow> s \<le> s' \<Longrightarrow> tracks r n pub s'"
  unfolding tracks_def by fastforce

lemma tracks_signed:
  assumes "tracks r (pm_NodeID q m) pub s" "pm_Verify q m pub"
  shows "\<exists>st. signed_by_node q r m = Inr st \<and> ns_pub st = pub \<and> ns_listSeq st \<le> s \<and> ns_beatSeq st \<le> s"
  using assms by (auto simp: tracks_def signed_by_node_def relay_node_def)

lemma frontend_listing:
  assumes t: "tracks r (pm_NodeID q m) pub s" "pm_Verify q m pub" "s < pm_Seq q m"
  shows "fst (SubmitListing q r None m) = None \<and> tracks (snd (SubmitListing q r None m)) (pm_NodeID q m) pub (pm_Seq q m)"
proof -
  obtain st where st: "signed_by_node q r m = Inr st" "ns_listSeq st \<le> s" using tracks_signed [OF t(1,2)] by blast
  then have "SubmitListing q r None m = (None, SubmitListing_commit q r m)"
    using t(3) by (simp add: SubmitListing_def SubmitListing_begin_def)
  moreover have "tracks (SubmitListing_commit q r m) (pm_NodeID q m) pub (pm_Seq q m)"
    unfolding SubmitListing_commit_def by (rule tracks_upd [OF t(1)]) (use t(3) in auto)
  ultimately show ?thesis by simp
qed

lemma frontend_beat:
  assumes t: "tracks r (pm_NodeID q m) pub s" "pm_Verify q m pub" "s < pm_Seq q m"
  shows "fst (Heartbeat q r t1 t2 None m) = None \<and> tracks (snd (Heartbeat q r t1 t2 None m)) (pm_NodeID q m) pub (pm_Seq q m)"
proof -
  obtain st where st: "signed_by_node q r m = Inr st" "ns_beatSeq st \<le> s" using tracks_signed [OF t(1,2)] by blast
  let ?r1 = "upd_node r (pm_NodeID q m) (\<lambda>st. st\<lparr>ns_beatSeq := pm_Seq q m\<rparr>)"
  have one: "tracks ?r1 (pm_NodeID q m) pub (pm_Seq q m)" by (rule tracks_upd [OF t(1)]) (use t(3) in auto)
  have two: "tracks (Heartbeat_commit q ?r1 t2 m) (pm_NodeID q m) pub (pm_Seq q m)"
    unfolding Heartbeat_commit_def by (rule tracks_upd [OF one]) simp_all
  have "\<not> pm_Seq q m \<le> ns_beatSeq st" using st(2) t(3) by auto
  then obtain b where "Heartbeat_begin q r t1 m = Inr (b, ?r1)" using st(1) by (simp add: Heartbeat_begin_def)
  then show ?thesis using one two by (simp add: Heartbeat_def)
qed

lemma frontend_settle:
  assumes t: "tracks r (pm_NodeID q m) pub s" "pm_Verify q m pub"
  shows "fst (Relay_Decline q r None m) = None \<and> tracks (snd (Relay_Decline q r None m)) (pm_NodeID q m) pub s"
    "fst (ReportJob q r None m) = None \<and> tracks (snd (ReportJob q r None m)) (pm_NodeID q m) pub s"
proof -
  have "tracks (settle r (pm_NodeID q m) j) (pm_NodeID q m) pub s" for j
    unfolding settle_def by (rule tracks_upd [OF t(1)]) simp_all
  moreover have "settle_begin q r m = None" using tracks_signed [OF t] by (auto simp: settle_begin_def)
  ultimately show "fst (Relay_Decline q r None m) = None \<and> tracks (snd (Relay_Decline q r None m)) (pm_NodeID q m) pub s"
    "fst (ReportJob q r None m) = None \<and> tracks (snd (ReportJob q r None m)) (pm_NodeID q m) pub s"
    by (simp_all add: Relay_Decline_def ReportJob_def)
qed

lemma frontend_poll:
  assumes t: "tracks r n pub s"
  shows "(\<exists>js. fst (PollJobs q r t1 t2 (Inr jobs) n) = Inr js) \<and> tracks (snd (PollJobs q r t1 t2 (Inr jobs) n)) n pub s"
proof -
  obtain b where "PollJobs_begin r t1 n = Inr b" using t by (auto simp: tracks_def PollJobs_begin_def relay_node_def)
  moreover have "tracks (PollJobs_commit q r t2 n jobs) n pub s"
    unfolding PollJobs_commit_def by (rule tracks_upd [OF t]) simp_all
  ultimately show ?thesis using t by (simp add: PollJobs_def Let_def)
qed

section \<open>An honest node is never refused\<close>

text \<open>The state of the run: the relay tracks the node, and every call so far was accepted.\<close>

definition served :: "('m, 'a) protocol \<Rightarrow> bytes \<Rightarrow> ('s, 'c, ('a node_relay \<times> nat) \<times> 'm node_call list) node_sys \<Rightarrow> bool" where
  "served q pub y \<longleftrightarrow> (case sy_coord y of ((r, i), tr) \<Rightarrow> length tr < 2 ^ 63 \<longrightarrow>
     tracks r (lp_Node (sy_loop y)) pub (lp_seq (sy_loop y)) \<and> (\<forall>c \<in> set tr. accepted_call c))"

text \<open>The calls of a logging frontend, resolved.\<close>

lemma logging_frontend:
  "co_SubmitListing (logging (frontend q v)) m ((r, i), tr) =
     (let x = SubmitListing q r (fe_up v i) m in (map_option (fe_text v) (fst x), ((snd x, Suc i), tr @ [CallListing m (fst x = None)])))"
  "co_Heartbeat (logging (frontend q v)) m ((r, i), tr) =
     (let x = Heartbeat q r (fe_clock v (2 * i)) (fe_clock v (2 * i + 1)) (fe_up v i) m in (map_option (fe_text v) (fst x), ((snd x, Suc i), tr @ [CallBeat m (fst x = None)])))"
  "co_PollJobs (logging (frontend q v)) n ((r, i), tr) =
     (let x = PollJobs q r (fe_clock v (2 * i)) (fe_clock v (2 * i + 1)) (fe_jobs v i) n in
      (map_sum (fe_text v) id (fst x), ((snd x, Suc i), tr @ [CallPoll (\<not> isl (fst x))])))"
  "co_Decline (logging (frontend q v)) m ((r, i), tr) =
     (let x = Relay_Decline q r (fe_up v i) m in (map_option (fe_text v) (fst x), ((snd x, Suc i), tr @ [CallDecline m (fst x = None)])))"
  "co_ReportJob (logging (frontend q v)) m ((r, i), tr) =
     (let x = ReportJob q r (fe_up v i) m in (map_option (fe_text v) (fst x), ((snd x, Suc i), tr @ [CallReport m (fst x = None)])))"
  by (simp_all add: logging_def frontend_def Let_def split: prod.split sum.split)

lemma served_step:
  assumes "node_step p (logging (frontend q v)) y y'" "signs_for p q (lp_Key (sy_loop y)) pub" "sane_clock (sy_loop y)"
    "seqs_ok q (sy_loop y) (snd (sy_coord y))" "\<forall>i. fe_up v i = None" "\<forall>i. \<not> isl (fe_jobs v i)" "served q pub y"
  shows "served q pub y'"
proof -
  obtain r i tr where c: "sy_coord y = ((r, i), tr)" by (metis surj_pair)
  have up: "lp_seq (sy_loop y) < s" if "fresh_seq (sy_loop y) s" "Suc (length tr) < 2 ^ 63" for s
    using fresh_seq_above(1) [OF that(1) assms(3) _ that(2)] assms(4) that(2) by (simp add: seqs_ok_def c)
  have old: "tracks r (lp_Node (sy_loop y)) pub (lp_seq (sy_loop y))" "\<forall>c \<in> set tr. accepted_call c" if "Suc (length tr) < 2 ^ 63"
    using assms(7) that by (simp_all add: served_def c)
  from assms(1) show ?thesis
  proof (cases rule: node_step.cases)
    case (quiet l')
    have "lp_Node l' = lp_Node (sy_loop y)" using loop_fixedD(1) [OF quiet(2)] .
    then show ?thesis using assms(7) quiet by (simp add: served_def c)
  next
    case (lists m e k)
    let ?m = "np_SignListing p (lp_Key (sy_loop y)) m"
    have m: "pm_NodeID q ?m = lp_Node (sy_loop y)" "pm_Seq q ?m = kl_Seq m" "pm_Verify q ?m pub" using assms(2) lists(3) by (simp_all add: signs_for_def)
    have "fst (SubmitListing q r None ?m) = None \<and> tracks (snd (SubmitListing q r None ?m)) (lp_Node (sy_loop y)) pub (kl_Seq m)"
      if "Suc (length tr) < 2 ^ 63" using frontend_listing [of r q ?m pub "lp_seq (sy_loop y)"] old [OF that] up [OF lists(2) that] m by simp
    moreover have "k = ((snd (SubmitListing q r None ?m), Suc i), tr @ [CallListing ?m (fst (SubmitListing q r None ?m) = None)])" using lists(4) assms(5) by (auto simp: c logging_frontend Let_def)
    ultimately show ?thesis using old unfolding lists(1) by (simp add: served_def mark_handled_def)
  next
    case (beats m e k)
    let ?m = "np_SignBeat p (lp_Key (sy_loop y)) m"
    have m: "pm_NodeID q ?m = lp_Node (sy_loop y)" "pm_Seq q ?m = hb_Seq m" "pm_Verify q ?m pub" using assms(2) beats(3) by (simp_all add: signs_for_def)
    have "fst (Heartbeat q r t1 t2 None ?m) = None \<and> tracks (snd (Heartbeat q r t1 t2 None ?m)) (lp_Node (sy_loop y)) pub (hb_Seq m)"
      if "Suc (length tr) < 2 ^ 63" for t1 t2 using frontend_beat [of r q ?m pub "lp_seq (sy_loop y)"] old [OF that] up [OF beats(2) that] m by simp
    moreover have "k = ((snd (Heartbeat q r (fe_clock v (2 * i)) (fe_clock v (2 * i + 1)) None ?m), Suc i), tr @ [CallBeat ?m (fst (Heartbeat q r (fe_clock v (2 * i)) (fe_clock v (2 * i + 1)) None ?m) = None)])" using beats(4) assms(5) by (auto simp: c logging_frontend Let_def)
    ultimately show ?thesis using old unfolding beats(1) by (simp add: served_def mark_handled_def)
  next
    case (polls res k)
    obtain jobs where jobs: "fe_jobs v i = Inr jobs" using assms(6) by (metis isl_def sum.exhaust)
    have "\<not> isl (fst (PollJobs q r t1 t2 (fe_jobs v i) (lp_Node (sy_loop y)))) \<and>
        tracks (snd (PollJobs q r t1 t2 (fe_jobs v i) (lp_Node (sy_loop y)))) (lp_Node (sy_loop y)) pub (lp_seq (sy_loop y))"
      if "Suc (length tr) < 2 ^ 63" for t1 t2
      using frontend_poll [OF old(1) [OF that], of q t1 t2 jobs] by (auto simp: jobs)
    moreover have "k = ((snd (PollJobs q r (fe_clock v (2 * i)) (fe_clock v (2 * i + 1)) (fe_jobs v i) (lp_Node (sy_loop y))), Suc i), tr @ [CallPoll (\<not> isl (fst (PollJobs q r (fe_clock v (2 * i)) (fe_clock v (2 * i + 1)) (fe_jobs v i) (lp_Node (sy_loop y)))))])" using polls(2) assms(5) by (auto simp: c logging_frontend Let_def)
    ultimately show ?thesis using old unfolding polls(1) by (simp add: served_def mark_handled_def)
  next
    case (runs j a l')
    have "lp_Node l' = lp_Node (sy_loop y)" using loop_fixedD(1) [OF runs(4)] .
    then show ?thesis using assms(7) runs by (simp add: served_def c)
  next
    case (declines d e k)
    let ?m = "np_SignDecline p (lp_Key (sy_loop y)) d"
    have m: "pm_NodeID q ?m = lp_Node (sy_loop y)" "pm_Verify q ?m pub" using assms(2) declines(3) by (simp_all add: signs_for_def)
    have "fst (Relay_Decline q r None ?m) = None \<and> tracks (snd (Relay_Decline q r None ?m)) (lp_Node (sy_loop y)) pub (lp_seq (sy_loop y))"
      if "Suc (length tr) < 2 ^ 63" using frontend_settle(1) [of r q ?m pub] old [OF that] m by simp
    moreover have "k = ((snd (Relay_Decline q r None ?m), Suc i), tr @ [CallDecline ?m (fst (Relay_Decline q r None ?m) = None)])" using declines(4) assms(5) by (auto simp: c logging_frontend Let_def)
    ultimately show ?thesis using old unfolding declines(1) by (simp add: served_def mark_handled_def)
  next
    case (reports j e k)
    let ?m = "np_SignReport p (lp_Key (sy_loop y)) j"
    have m: "pm_NodeID q ?m = lp_Node (sy_loop y)" "pm_Verify q ?m pub" using assms(2) reports(3) by (simp_all add: signs_for_def)
    have "fst (ReportJob q r None ?m) = None \<and> tracks (snd (ReportJob q r None ?m)) (lp_Node (sy_loop y)) pub (lp_seq (sy_loop y))"
      if "Suc (length tr) < 2 ^ 63" using frontend_settle(2) [of r q ?m pub] old [OF that] m by simp
    moreover have "k = ((snd (ReportJob q r None ?m), Suc i), tr @ [CallReport ?m (fst (ReportJob q r None ?m) = None)])" using reports(4) assms(5) by (auto simp: c logging_frontend Let_def)
    ultimately show ?thesis using old unfolding reports(1) by (simp add: served_def mark_handled_def)
  qed
qed

text \<open>C16: an honest node behind its frontend is never refused. A node that runs the loop against the relay that enrolled its key, with an
  orchestrator that accepts what it is sent, has every listing, heartbeat, poll, decline and report accepted: its sequence numbers
  never look stale to the relay and its signatures verify under the enrolled key.\<close>

theorem frontend_accepts_node:
  assumes "signs_for p q (lp_Key (sy_loop y)) pub" and "sane_clock (sy_loop y)" and "lp_seq (sy_loop y) = 0"
    and "sy_coord y = ((r, i), [])" and "ry_nodes r (lp_Node (sy_loop y)) = Some (new_node pub)"
    and "\<forall>i. fe_up v i = None" and "\<forall>i. \<not> isl (fe_jobs v i)"
    and "y' = Loop_Run p (logging (frontend q v)) y ticks" and "length (snd (sy_coord y')) < 2 ^ 63"
  shows "\<forall>c \<in> set (snd (sy_coord y')). accepted_call c"
proof -
  have "node_steps p (logging (frontend q v)) y y'" unfolding assms(8) by (rule Loop_Run_steps)
  then have "served q pub y'"
  proof (induction rule: rtranclp_induct)
    case base
    show ?case using assms(3-5) by (simp add: served_def tracks_def new_node_def)
  next
    case (step y1 y2)
    have ok: "signs_for p q (lp_Key (sy_loop y1)) pub" "sane_clock (sy_loop y1)"
      using assms(1,2) node_steps_key [OF step.hyps(1)] by (simp_all add: sane_clock_def)
    have "seqs_ok q (sy_loop y) (snd (sy_coord y))" using assms(3,4) by (simp add: seqs_ok_def sent_seqs_def List.map_filter_def)
    then have "seqs_ok q (sy_loop y1) (snd (sy_coord y1))" by (rule seqs_run [OF step.hyps(1) assms(1,2)])
    from served_step [OF step.hyps(2) ok this assms(6,7) step.IH] show ?case .
  qed
  then show ?thesis using assms(9) by (cases "sy_coord y'") (auto simp: served_def split: prod.splits)
qed

section \<open>A job whose report is lost\<close>

text \<open>The registered executor runs the job and answers for it: its run is not refused as one for an absent owner or a missing executor.\<close>

definition answers_job :: "('m, 'a, 'c) node_proto \<Rightarrow> 's exec_registry \<Rightarrow> 'a \<Rightarrow> bool" where
  "answers_job p r a \<longleftrightarrow> (\<forall>k e s. workloadKinds (na_Workload p a) = Some k \<longrightarrow> map_of (er_batch r) k = Some e \<longrightarrow>
     snd (fst (ex_Run e (job_of p a k) s)) \<noteq> Some ErrOwnerActive \<and> \<not> is_NoExecutor (snd (fst (ex_Run e (job_of p a k) s))))"

lemma run_and_report_runs:
  assumes k: "workloadKinds (na_Workload p a) = Some kind" "kind \<in> set (nc_Kinds (er_contract (loop_reg (sy_loop y))))" "map_of (er_batch (loop_reg (sy_loop y))) kind = Some e"
    and away: "scavenging (sy_loop y) \<Longrightarrow> \<not> loop_owner (sy_loop y) (looks (sy_loop y))" and answers: "answers_job p (loop_reg (sy_loop y)) a"
  obtains r er k2 l where "jr_JobID r = na_JobID p a" "co_ReportJob co (np_SignReport p (lp_Key (sy_loop y)) r) (sy_coord y) = (er, k2)"
    "run_and_report p co y a kind = (er, y\<lparr>sy_loop := l, sy_world := run_job p (loop_reg (sy_loop y)) a (sy_world y), sy_coord := k2\<rparr>)" "lp_handled l = lp_handled (sy_loop y)"
proof -
  obtain started l1 where a: "Loop_now (sy_loop y) = (started, l1)" by fastforce
  note n = Loop_now_quiet [OF a]
  obtain yield ag where sy: "scavengedYield (lp_Agent (sy_loop y)) = (yield, ag)" by fastforce
  note lk = scavengedYield_looks [OF sy]
  have y: "\<not> yield" using lk(4,5) away by auto
  obtain out s where run: "ex_Run e (job_of p a kind) (sy_world y) = (out, s)" by fastforce
  have "Registry_Dispatch (loop_reg (sy_loop y)) (job_of p a kind) (sy_world y) = (out, s)"
    using k run by (simp add: Registry_Dispatch_def job_of_def NodeContract_Allows_def)
  then have d: "Agent_Dispatch (lp_Agent l1) (job_of p a kind) (sy_world y) = (out, s, ag)"
    using y by (simp add: Agent_Dispatch_def n(5) sy lk(1))
  have s: "s = run_job p (loop_reg (sy_loop y)) a (sy_world y)" using k run by (simp add: run_job_def)
  have ok: "snd out \<noteq> Some ErrOwnerActive" "\<not> is_NoExecutor (snd out)" using answers k(1,3) run unfolding answers_job_def by (metis fst_conv)+
  obtain finished l3 where b: "Loop_now (l1\<lparr>lp_Agent := ag\<rparr>) = (finished, l3)" by fastforce
  note m = Loop_now_quiet [OF b]
  have key: "lp_Key l3 = lp_Key (sy_loop y)" using loop_fixedD(2) [OF m(1)] loop_fixedD(2) [OF n(1)] by simp
  let ?r = "report_of p (lp_Node l3) a started finished out"
  have id: "jr_JobID ?r = na_JobID p a" by (simp add: report_of_def split: prod.split)
  obtain er k2 where c: "co_ReportJob co (np_SignReport p (lp_Key (sy_loop y)) ?r) (sy_coord y) = (er, k2)" by fastforce
  have "run_and_report p co y a kind = (er, y\<lparr>sy_loop := l3, sy_world := run_job p (loop_reg (sy_loop y)) a (sy_world y), sy_coord := k2\<rparr>)"
    using ok b c by (simp add: run_and_report_def a d Let_def key s)
  then show thesis using that [OF id c] n(4) m(4) by simp
qed

text \<open>A poll that offers one job, not yet settled: it runs and is reported, and is marked when the report is accepted.\<close>

lemma poll_unsettled:
  assumes perm: "\<forall>i. permitted p (sy_loop y) i a" and answers: "answers_job p (loop_reg (sy_loop y)) a"
    and poll: "co_PollJobs co (lp_Node (sy_loop y)) (sy_coord y) = (Inr [a], k1)" and new: "na_JobID p a \<notin> lp_handled (sy_loop y)"
  obtains r e k2 where "jr_JobID r = na_JobID p a" "co_ReportJob co (np_SignReport p (lp_Key (sy_loop y)) r) k1 = (e, k2)" "fst (PollOnce p co y) = e"
    "sy_coord (snd (PollOnce p co y)) = k2" "sy_world (snd (PollOnce p co y)) = run_job p (loop_reg (sy_loop y)) a (sy_world y)"
    "lp_handled (sy_loop (snd (PollOnce p co y))) = (if e = None then insert (na_JobID p a) (lp_handled (sy_loop y)) else lp_handled (sy_loop y))"
proof -
  obtain kind e where k: "workloadKinds (na_Workload p a) = Some kind" "kind \<in> set (nc_Kinds (er_contract (loop_reg (sy_loop y))))"
    "map_of (er_batch (loop_reg (sy_loop y))) kind = Some e" using perm unfolding permitted_def by blast
  have id: "na_NodeID p a = lp_Node (sy_loop y)" and ver: "\<And>key. lp_CoordKey (sy_loop y) = Some key \<Longrightarrow> na_Verify p a key"
    and away: "\<And>i. scavenging (sy_loop y) \<Longrightarrow> \<not> loop_owner (sy_loop y) i" using perm by (simp_all add: permitted_def)
  let ?z = "y\<lparr>sy_coord := k1\<rparr>"
  let ?z1 = "if lp_CoordKey (sy_loop y) = None then ?z\<lparr>sy_loop := (sy_loop y)\<lparr>lp_warnedNoKey := True\<rparr>\<rparr> else ?z"
  have one: "lp_Agent (sy_loop ?z1) = lp_Agent (sy_loop y)" by simp
  obtain yield ag where h: "scavengedYield (lp_Agent (sy_loop y)) = (yield, ag)" by fastforce
  note lk = scavengedYield_looks [OF h]
  have "\<not> yield" using lk(4,5) away by auto
  then have g: "Agent_Capabilities (lp_Agent (sy_loop y)) = (Registry_Capabilities (loop_reg (sy_loop y)), ag)" using lk(1) by (simp add: Agent_Capabilities_def h)
  have caps: "kind \<in> set (Registry_Capabilities (loop_reg (sy_loop y)))"
    unfolding Capabilities_set using map_of_SomeD [OF k(3)] by force
  let ?z2 = "?z1\<lparr>sy_loop := (sy_loop ?z1)\<lparr>lp_Agent := ag\<rparr>\<rparr>"
  have two: "loop_reg (sy_loop ?z2) = loop_reg (sy_loop y)" "loop_owner (sy_loop ?z2) = loop_owner (sy_loop y)" "lp_Key (sy_loop ?z2) = lp_Key (sy_loop y)"
    "lp_handled (sy_loop ?z2) = lp_handled (sy_loop y)" "sy_world ?z2 = sy_world y" "sy_coord ?z2 = k1" using lk by simp_all
  have good: "\<not> (case lp_CoordKey (sy_loop y) of Some key \<Rightarrow> \<not> na_Verify p a key | None \<Rightarrow> False)" using ver by (auto split: option.splits)
  have res: "Loop_settle p co ?z a = run_and_report p co ?z2 a kind"
    using id k(1) good g one caps by (simp add: Loop_settle_def Let_def)
  have z2: "kind \<in> set (nc_Kinds (er_contract (loop_reg (sy_loop ?z2))))" "map_of (er_batch (loop_reg (sy_loop ?z2))) kind = Some e"
    "scavenging (sy_loop ?z2) \<Longrightarrow> \<not> loop_owner (sy_loop ?z2) (looks (sy_loop ?z2))" "answers_job p (loop_reg (sy_loop ?z2)) a"
    unfolding two by (fact k(2), fact k(3), erule away, fact answers)
  obtain r er k2 l where r': "jr_JobID r = na_JobID p a" "co_ReportJob co (np_SignReport p (lp_Key (sy_loop ?z2)) r) (sy_coord ?z2) = (er, k2)"
    "run_and_report p co ?z2 a kind = (er, ?z2\<lparr>sy_loop := l, sy_world := run_job p (loop_reg (sy_loop ?z2)) a (sy_world ?z2), sy_coord := k2\<rparr>)"
    "lp_handled l = lp_handled (sy_loop ?z2)" by (rule run_and_report_runs [OF k(1) z2])
  have r: "jr_JobID r = na_JobID p a" "co_ReportJob co (np_SignReport p (lp_Key (sy_loop y)) r) k1 = (er, k2)"
    "Loop_settle p co ?z a = (er, ?z2\<lparr>sy_loop := l, sy_world := run_job p (loop_reg (sy_loop y)) a (sy_world y), sy_coord := k2\<rparr>)" "lp_handled l = lp_handled (sy_loop y)"
    unfolding res using r' unfolding two by simp_all
  have "PollOnce p co y = settle_all p co ?z [a]" using poll by (simp add: PollOnce_def)
  then have "fst (PollOnce p co y) = er \<and> sy_coord (snd (PollOnce p co y)) = k2 \<and> sy_world (snd (PollOnce p co y)) = run_job p (loop_reg (sy_loop y)) a (sy_world y) \<and>
    lp_handled (sy_loop (snd (PollOnce p co y))) = (if er = None then insert (na_JobID p a) (lp_handled (sy_loop y)) else lp_handled (sy_loop y))"
    using new r(3,4) by (cases er) simp_all
  then show thesis using that [OF r(1,2)] by blast
qed

lemma logging_poll: "co_PollJobs co n k = (Inr js, k') \<Longrightarrow> co_PollJobs (logging co) n (k, tr) = (Inr js, k', tr @ [CallPoll True])"
  by (simp add: logging_def)

lemma logging_report:
  "co_ReportJob (logging co) m (k, tr) = (case co_ReportJob co m k of (e, k') \<Rightarrow> (e, k', tr @ [CallReport m (e = None)]))"
  by (simp add: logging_def)

lemma poll_settled:
  "co_PollJobs co (lp_Node (sy_loop y)) (sy_coord y) = (Inr [a], k) \<Longrightarrow> na_JobID p a \<in> lp_handled (sy_loop y) \<Longrightarrow> snd (PollOnce p co y) = y\<lparr>sy_coord := k\<rparr>"
  by (simp add: PollOnce_def)

text \<open>The state after polls that all offer the same job: how often it ran, and the outcomes of its reports.\<close>

definition polls_run :: "('m, 'a, 'c) node_proto \<Rightarrow> ('m, 'a) protocol \<Rightarrow> 'a \<Rightarrow> 's \<Rightarrow> nat \<Rightarrow> ('s, 'c, 'k \<times> 'm node_call list) node_sys \<Rightarrow> bool" where
  "polls_run p q a s n y \<longleftrightarrow> (let sent = map accepted_call (filter (\<lambda>c. settles_job q c = Some (na_JobID p a)) (snd (sy_coord y))) in
     sy_world y = (run_job p (loop_reg (sy_loop y)) a ^^ length sent) s \<and>
     (if na_JobID p a \<in> lp_handled (sy_loop y) then (\<exists>m < n. sent = replicate m False @ [True]) else sent = replicate n False))"

text \<open>C17: a job whose report is lost runs again. Let the coordinator offer one job the node may run at every poll, and answer its reports as it
  will. After \<open>n\<close> polls the job has run exactly as often as it was reported; if no report was accepted it ran in every one of the \<open>n\<close>
  polls, each run followed by a failed report; otherwise it ran in every poll up to the first whose report was accepted, and not after
  that. So every report call that fails, or whose answer is lost, makes the next poll run the whole job again.\<close>

theorem lost_report_runs_again:
  assumes "signs_for p q (lp_Key (sy_loop y)) pub" and "\<forall>i. permitted p (sy_loop y) i a" and "answers_job p (loop_reg (sy_loop y)) a"
    and "\<forall>k. fst (co_PollJobs co (lp_Node (sy_loop y)) k) = Inr [a]" and "na_JobID p a \<notin> lp_handled (sy_loop y)" and "snd (sy_coord y) = []"
  shows "polls_run p q a (sy_world y) n (((\<lambda>z. snd (PollOnce p (logging co) z)) ^^ n) y)"
proof -
  let ?z = "\<lambda>n. ((\<lambda>z. snd (PollOnce p (logging co) z)) ^^ n) y"
  have fixed: "loop_fixed (sy_loop (?z n)) = loop_fixed (sy_loop y)" for n
  proof (induction n)
    case (Suc n)
    then show ?case using node_steps_fixed [OF PollOnce_steps [of p "logging co" "?z n"]] by simp
  qed simp
  show ?thesis
  proof (induction n)
    case 0
    show ?case using assms(5,6) by (simp add: polls_run_def)
  next
    case (Suc n)
    obtain k tr where c: "sy_coord (?z n) = (k, tr)" by fastforce
    note f = loop_fixedD [OF fixed [of n]]
    obtain k1 where k1: "co_PollJobs co (lp_Node (sy_loop (?z n))) k = (Inr [a], k1)" using assms(4) f(1) by (metis prod.collapse)
    then have poll: "co_PollJobs (logging co) (lp_Node (sy_loop (?z n))) (sy_coord (?z n)) = (Inr [a], k1, tr @ [CallPoll True])"
      unfolding c by (rule logging_poll)
    show ?case
    proof (cases "na_JobID p a \<in> lp_handled (sy_loop (?z n))")
      case True
      then have "?z (Suc n) = (?z n)\<lparr>sy_coord := (k1, tr @ [CallPoll True])\<rparr>" using poll_settled [OF poll] by simp
      moreover obtain m where "m < n" "map accepted_call (filter (\<lambda>c. settles_job q c = Some (na_JobID p a)) tr) = replicate m False @ [True]"
        using Suc.IH True by (auto simp: polls_run_def c)
      ultimately show ?thesis using Suc.IH True by (auto simp: polls_run_def c less_Suc_eq)
    next
      case False
      have perm: "\<forall>i. permitted p (sy_loop (?z n)) i a" and ans: "answers_job p (loop_reg (sy_loop (?z n))) a"
        using assms(2,3) by (simp_all only: permitted_fixed [OF fixed [of n]] f(5) simp_thms)
      obtain r e k2 where r: "jr_JobID r = na_JobID p a" "co_ReportJob (logging co) (np_SignReport p (lp_Key (sy_loop (?z n))) r) (k1, tr @ [CallPoll True]) = (e, k2)"
        "sy_coord (?z (Suc n)) = k2" "sy_world (?z (Suc n)) = run_job p (loop_reg (sy_loop (?z n))) a (sy_world (?z n))"
        "lp_handled (sy_loop (?z (Suc n))) = (if e = None then insert (na_JobID p a) (lp_handled (sy_loop (?z n))) else lp_handled (sy_loop (?z n)))"
        by (rule poll_unsettled [OF perm ans poll False]) simp
      let ?m = "np_SignReport p (lp_Key (sy_loop y)) r"
      have k2: "snd k2 = tr @ [CallPoll True, CallReport ?m (e = None)]" using r(2) unfolding logging_report f(2) by (auto split: prod.splits)
      have job: "pm_JobID q ?m = na_JobID p a" using assms(1) r(1) by (simp add: signs_for_def)
      have old: "map accepted_call (filter (\<lambda>c. settles_job q c = Some (na_JobID p a)) tr) = replicate n False"
        "sy_world (?z n) = (run_job p (loop_reg (sy_loop y)) a ^^ n) (sy_world y)"
        using Suc.IH False by (simp_all add: polls_run_def c Let_def f(5)) (metis length_map length_replicate)
      have "loop_reg (sy_loop (?z (Suc n))) = loop_reg (sy_loop y)" by (rule loop_fixedD(5) [OF fixed])
      moreover have "map accepted_call (filter (\<lambda>c. settles_job q c = Some (na_JobID p a)) (snd (sy_coord (?z (Suc n))))) = replicate n False @ [e = None]"
        unfolding r(3) k2 using old(1) job by simp
      moreover have "sy_world (?z (Suc n)) = (run_job p (loop_reg (sy_loop y)) a ^^ Suc n) (sy_world y)" unfolding r(4) f(5) old(2) by simp
      ultimately show ?thesis
        using r(5) False unfolding polls_run_def Let_def by (cases e) (auto simp: replicate_append_same)
    qed
  qed
qed

section \<open>A concrete node\<close>

text \<open>An idle machine with a compute executor that counts its runs.\<close>

definition sample_node_proto :: "(string \<times> u64 \<times> string, string, unit) node_proto" where
  "sample_node_proto = \<lparr>np_SignListing = (\<lambda>key m. (kl_NodeID m, kl_Seq m, '''')), np_SignBeat = (\<lambda>key m. (hb_NodeID m, hb_Seq m, '''')),
     np_SignDecline = (\<lambda>key m. (de_NodeID m, 0, de_JobID m)), np_SignReport = (\<lambda>key m. (jr_NodeID m, 0, jr_JobID m)),
     na_NodeID = (\<lambda>_. ''n''), na_JobID = id, na_Workload = (\<lambda>_. ''compute''), na_Args = (\<lambda>_. []), na_Verify = (\<lambda>_ _. True)\<rparr>"

definition sample_loop :: "(nat \<Rightarrow> bool) \<Rightarrow> (nat, unit) agent_loop" where
  "sample_loop probe = \<lparr>lp_Agent = NewAgent idle_registry (Some probe), lp_Node = ''n'', lp_Key = [], lp_CoordKey = None, lp_Class = ''standard'', lp_Capacity = (),
     lp_Heartbeat = 0, lp_Poll = 0, lp_clock = (\<lambda>_. 5), lp_reads = 0, lp_seq = 0, lp_listed = '''', lp_handled = {}, lp_warnedNoKey = False\<rparr>"

definition sample_node :: "(nat \<Rightarrow> bool) \<Rightarrow> 'k \<Rightarrow> (nat, unit, 'k) node_sys" where
  "sample_node probe k = \<lparr>sy_loop = sample_loop probe, sy_world = 0, sy_coord = k\<rparr>"

text \<open>A coordinator that always offers one job and whose first report call fails, as a call whose response is lost does.\<close>

definition flaky :: "('m, string, nat) coordinator" where
  "flaky = \<lparr>co_SubmitListing = (\<lambda>m k. (None, k)), co_Heartbeat = (\<lambda>m k. (None, k)), co_PollJobs = (\<lambda>n k. (Inr [''j''], k)),
     co_Decline = (\<lambda>m k. (None, k)), co_ReportJob = (\<lambda>m k. (if k = 0 then Some ''timeout'' else None, Suc k))\<rparr>"

lemmas sample_run_simps = Loop_Run_def Run_start_def Loop_List_def PollOnce_def Loop_settle_def run_and_report_def Agent_Dispatch_def
  Agent_Capabilities_def scavengedYield_def NewAgent_def Loop_now_def nextSeq_def sample_node_def sample_loop_def sample_node_proto_def
  workloadKinds_def Registry_Dispatch_def idle_registry_def idle_contract_def counting_executor_def job_of_def Registry_Capabilities_def
  flaky_def logging_def Let_def Compute_def Storage_def Service_def Scavenged_def Print_def report_of_def Loop_decline_def bare_result_def

lemma sample_signs: "signs_for sample_node_proto sample_protocol key (replicate 32 1)"
  by (simp add: signs_for_def sample_node_proto_def sample_protocol_def)

lemma sample_sane: "sane_clock (sy_loop (sample_node probe k))"
  by (simp add: sane_clock_def sample_node_def sample_loop_def)

lemma sample_node_sel [simp]:
  "loop_reg (sy_loop (sample_node probe k)) = idle_registry" "loop_owner (sy_loop (sample_node probe k)) = probe" "sy_coord (sample_node probe k) = k"
  "lp_handled (sy_loop (sample_node probe k)) = {}" "lp_seq (sy_loop (sample_node probe k)) = 0" "lp_Node (sy_loop (sample_node probe k)) = ''n''"
  "sy_world (sample_node probe k) = 0"
  by (simp_all add: sample_node_def sample_loop_def NewAgent_def)

theorem node_runs_only_permitted_witness:
  "\<exists>rs. sy_world (Loop_Run sample_node_proto flaky (sample_node (\<lambda>i. i = 7) 0) [TickPoll]) = foldl (\<lambda>s (i, a). run_job sample_node_proto idle_registry a s) 0 rs \<and>
     sorted_wrt (<) (map fst rs) \<and> list_all (\<lambda>i. i \<noteq> (7 :: nat)) (map fst rs) \<and>
     sy_world (Loop_Run sample_node_proto flaky (sample_node (\<lambda>i. i = 7) 0) [TickPoll]) = 1 \<and>
     looks (sy_loop (snd (Loop_settle sample_node_proto flaky (sample_node (\<lambda>i. i = 7) 0) ''j''))) = 2"
proof -
  have w: "sy_world (Loop_Run sample_node_proto flaky (sample_node (\<lambda>i. i = 7) 0) [TickPoll]) = 1"
    "sy_world (snd (Loop_settle sample_node_proto flaky (sample_node (\<lambda>i. i = 7) 0) ''j'')) \<noteq> sy_world (sample_node (\<lambda>i. i = 7) (0 :: nat))"
    by (simp_all add: sample_run_simps)
  have r: "loop_reg (sy_loop (sample_node (\<lambda>i. i = 7) (0 :: nat))) = foldl registration_do \<lparr>er_contract = idle_contract, er_batch = [], er_service = None\<rparr>
     [RegExecutor counting_executor, RegExecutor (counting_executor\<lparr>ex_Kind := Storage, ex_Preemptible := False\<rparr>), RegExecutor counting_executor]"
    unfolding idle_registry_made(2) by simp
  have s: "nc_Placement idle_contract = Scavenged" by (simp add: idle_contract_def)
  note t = node_runs_only_permitted [OF idle_registry_made(1) r refl, of sample_node_proto flaky "[TickPoll]"]
  from conjunct1 [OF t] obtain rs where
    rs: "sy_world (Loop_Run sample_node_proto flaky (sample_node (\<lambda>i. i = 7) 0) [TickPoll]) = foldl (\<lambda>s (i, a). run_job sample_node_proto idle_registry a s) 0 rs"
      "sorted_wrt (<) (map fst rs)" "list_all (\<lambda>i. i \<noteq> (7 :: nat)) (map fst rs)" using s by (auto simp: list_all_iff)
  have "looks (sy_loop (snd (Loop_settle sample_node_proto flaky (sample_node (\<lambda>i. i = 7) 0) ''j''))) = looks (sy_loop (sample_node (\<lambda>i. i = 7) (0 :: nat))) + 2"
    using conjunct2 [OF t, rule_format, OF refl, of "''j''"] w(2) s unfolding Let_def by blast
  then show ?thesis using rs w(1) by (intro exI [of _ rs] conjI) (simp_all add: sample_node_def sample_loop_def NewAgent_def)
qed

theorem lost_report_runs_again_witness:
  "polls_run sample_node_proto sample_protocol ''j'' 0 3 (((\<lambda>z. snd (PollOnce sample_node_proto (logging flaky) z)) ^^ 3) (sample_node (\<lambda>_. False) (0, []))) \<and>
   sy_world (((\<lambda>z. snd (PollOnce sample_node_proto (logging flaky) z)) ^^ 3) (sample_node (\<lambda>_. False) (0, []))) = 2"
proof -
  have "\<forall>i. permitted sample_node_proto (sy_loop (sample_node (\<lambda>_. False) (0, []))) i ''j''"
    by (simp add: permitted_def sample_node_def sample_loop_def NewAgent_def sample_node_proto_def workloadKinds_def idle_registry_def idle_contract_def Compute_def Storage_def)
  moreover have "answers_job sample_node_proto (loop_reg (sy_loop (sample_node (\<lambda>_. False) (0, [])))) ''j''"
    by (simp add: answers_job_def idle_registry_def counting_executor_def)
  moreover have "sy_world (((\<lambda>z. snd (PollOnce sample_node_proto (logging flaky) z)) ^^ 3) (sample_node (\<lambda>_. False) (0, []))) = 2"
    by (simp add: numeral_3_eq_3 sample_run_simps)
  ultimately show ?thesis
    using lost_report_runs_again [OF sample_signs, of "sample_node (\<lambda>_. False) (0, [])" "''j''" flaky 3] by (simp add: flaky_def sample_node_proto_def)
qed

theorem jobs_settled_once_witness:
  "settled_once sample_protocol (snd (sy_coord (Loop_Run sample_node_proto (logging flaky) (sample_node (\<lambda>_. False) (0, [])) [TickPoll, TickPoll])))"
  using jobs_settled_once [OF sample_signs _ _ refl, of "sample_node (\<lambda>_. False) (0, [])" flaky "[TickPoll, TickPoll]"] by simp

theorem node_sequence_ascends_witness:
  "sent_seqs sample_protocol (snd (sy_coord (Loop_Run sample_node_proto (logging flaky) (sample_node (\<lambda>_. False) (0, [])) [TickBeat, TickBeat]))) = [5, 6, 7] \<and>
   sorted_wrt (<) [5, 6, 7 :: u64]"
proof -
  let ?y = "Loop_Run sample_node_proto (logging flaky) (sample_node (\<lambda>_. False) (0, [])) [TickBeat, TickBeat]"
  have q: "sent_seqs sample_protocol (snd (sy_coord ?y)) = [5, 6, 7]" "length (snd (sy_coord ?y)) = 3"
    by (simp_all add: sample_run_simps Beat_def send_beat_def capsKey_def WorkloadKind_String_def sent_seqs_def List.map_filter_def sample_protocol_def word_le_nat_alt)
  show ?thesis
    using node_sequence_ascends [OF sample_signs sample_sane _ _ refl, of "\<lambda>_. False" "(0, [])" flaky "[TickBeat, TickBeat]"] by (simp add: q)
qed

definition sample_frontend :: "string frontend_env" where
  "sample_frontend = \<lparr>fe_up = (\<lambda>_. None), fe_jobs = (\<lambda>_. Inr []), fe_clock = (\<lambda>_. 9), fe_text = (\<lambda>_. '''')\<rparr>"

definition enrolling_relay :: "string node_relay" where
  "enrolling_relay = \<lparr>ry_UpstreamBeat = 0, ry_UpstreamPoll = 0, ry_enrolls = False, ry_nodes = [''n'' \<mapsto> new_node (replicate 32 1)]\<rparr>"

theorem frontend_accepts_node_witness:
  "let calls = snd (sy_coord (Loop_Run sample_node_proto (logging (frontend sample_protocol sample_frontend)) (sample_node (\<lambda>_. False) ((enrolling_relay, 0), [])) [TickBeat]))
   in length calls = 2 \<and> list_all accepted_call calls"
proof -
  let ?y = "Loop_Run sample_node_proto (logging (frontend sample_protocol sample_frontend)) (sample_node (\<lambda>_. False) ((enrolling_relay, 0), [])) [TickBeat]"
  have "length (snd (sy_coord ?y)) = 2"
    by (simp add: sample_run_simps Beat_def send_beat_def capsKey_def WorkloadKind_String_def logging_frontend sample_protocol_def sample_frontend_def enrolling_relay_def
        SubmitListing_def SubmitListing_begin_def SubmitListing_commit_def signed_by_node_def relay_node_def upd_node_def new_node_def Heartbeat_def Heartbeat_begin_def
        Heartbeat_commit_def word_le_nat_alt word_less_nat_alt zeroTime_def del: logging_def)
  then show ?thesis
    using frontend_accepts_node [OF sample_signs sample_sane _ _ _ _ _ refl, of "\<lambda>_. False" "((enrolling_relay, 0), [])" enrolling_relay 0 sample_frontend "[TickBeat]"]
    by (simp add: enrolling_relay_def sample_frontend_def list_all_iff)
qed

end
