(* ===== verification/Agent_Executors.thy ===== *)
theory Agent_Executors
  imports Contribute Storage_Hosts Node_Relay
begin

text \<open>
  The executors a contributor's daemon registers (\<open>src/cmd/cloudy-agent\<close>): the compute echo and the presence service (\<open>executors.go\<close>) and
  the storage node that holds opaque shards and answers audits (\<open>storageexec.go\<close>). JSON, base64 and the quoting of \<open>%q\<close> are a parameter
  record. Every audit draws its challenges from its own part of \<open>rand.Reader\<close>.
\<close>

section \<open>Echo and presence\<close>

definition echoExecutor :: "'s executor" where
  "echoExecutor = \<lparr>ex_Kind = Compute, ex_Preemptible = True,
     ex_Run = (\<lambda>job s. ((\<lparr>ru_JobID = aj_ID job, ru_OK = True, ru_Detail = ''echo'', ru_Output = aj_Payload job\<rparr>, None), s))\<rparr>"

text \<open>The presence service is healthy until the context ends, and returns the context's error \<open>done\<close>: the state is that flag.\<close>

definition presenceService :: "string \<Rightarrow> bool service_executor" where
  "presenceService done = \<lparr>se_Kind = Service, se_Healthy = id, se_Serve = (\<lambda>job healthy. (Some (RunOther done), False))\<rparr>"

section \<open>The storage executor\<close>

record storage_op =
  so_Op :: string
  so_ID :: string
  so_Data :: string

text \<open>Decoding a payload and base64 text, each with the error text where it fails; the text of a storage error; \<open>%q\<close>.\<close>

record storage_codec =
  op_Unmarshal :: "bytes \<Rightarrow> string + storage_op"
  std_DecodeString :: "string \<Rightarrow> string + bytes"
  st_Error :: "storage_error \<Rightarrow> string"
  fmt_q :: "string \<Rightarrow> string"

record storage_node =
  sn_shards :: "string \<rightharpoonup> bytes"
  sn_audits :: int
  sn_rand :: "nat \<Rightarrow> entropy"
  sn_drawn :: nat

definition newStorageExecutor :: "(nat \<Rightarrow> entropy) \<Rightarrow> storage_node" where
  "newStorageExecutor rand = \<lparr>sn_shards = Map.empty, sn_audits = 8, sn_rand = rand, sn_drawn = 0\<rparr>"

definition storage_audit :: "crypto \<Rightarrow> storage_codec \<Rightarrow> string \<Rightarrow> string \<Rightarrow> bytes \<Rightarrow> int \<Rightarrow> entropy \<Rightarrow> run_result \<times> run_error option" where
  "storage_audit c cd job i blob audits e =
     (case BuildChallengeTable c blob audits e of
        Inl err \<Rightarrow> (bare_result job, Some (RunOther (st_Error cd err)))
      | Inr table \<Rightarrow> (case fst (ChallengeTable_Next table) of
          Inl err \<Rightarrow> (bare_result job, Some (RunOther (st_Error cd err)))
        | Inr (ch, expected) \<Rightarrow> (case Respond c blob ch of
            Inl err \<Rightarrow> (bare_result job, Some (RunOther (st_Error cd err)))
          | Inr resp \<Rightarrow>
              if \<not> VerifyProof expected resp then ((bare_result job)\<lparr>ru_Detail := ''possession proof did not verify''\<rparr>, None)
              else ((bare_result job)\<lparr>ru_OK := True, ru_Detail := ''possession proven for '' @ i\<rparr>, None))))"

definition storage_Run :: "crypto \<Rightarrow> storage_codec \<Rightarrow> assigned_job \<Rightarrow> storage_node \<Rightarrow> (run_result \<times> run_error option) \<times> storage_node" where
  "storage_Run c cd job s =
     (case op_Unmarshal cd (aj_Payload job) of
        Inl e \<Rightarrow> ((bare_result (aj_ID job), Some (RunOther (''storage: bad payload: '' @ e))), s)
      | Inr op \<Rightarrow>
          if so_Op op = ''store'' then
            (case std_DecodeString cd (so_Data op) of
               Inl e \<Rightarrow> ((bare_result (aj_ID job), Some (RunOther (''storage: bad data: '' @ e))), s)
             | Inr blob \<Rightarrow>
                 if length blob = 0 then ((bare_result (aj_ID job), Some (RunOther ''storage: empty shard'')), s)
                 else (((bare_result (aj_ID job))\<lparr>ru_OK := True,
                          ru_Detail := ''stored '' @ strconv_Itoa (int (length blob)) @ '' opaque bytes for '' @ so_ID op\<rparr>, None),
                       s\<lparr>sn_shards := (sn_shards s)(so_ID op \<mapsto> blob)\<rparr>))
          else if so_Op op = ''audit'' then
            (case sn_shards s (so_ID op) of
               None \<Rightarrow> ((bare_result (aj_ID job), Some (RunOther (''storage: no shard '' @ so_ID op))), s)
             | Some blob \<Rightarrow> (storage_audit c cd (aj_ID job) (so_ID op) blob (sn_audits s) (sn_rand s (sn_drawn s)), s\<lparr>sn_drawn := sn_drawn s + 1\<rparr>))
          else ((bare_result (aj_ID job), Some (RunOther (''storage: unknown op '' @ fmt_q cd (so_Op op)))), s))"

definition storageExecutor :: "crypto \<Rightarrow> storage_codec \<Rightarrow> storage_node executor" where
  "storageExecutor c cd = \<lparr>ex_Kind = Storage, ex_Preemptible = True, ex_Run = storage_Run c cd\<rparr>"

section \<open>The executor contract\<close>

text \<open>What the seam asks of a one-shot executor: it never serves the service kind, its kind is valid, and every result names the job it is
  for. The registry's dispatch then names it too.\<close>

locale one_shot =
  fixes ex :: "'s executor"
  assumes not_service: "ex_Kind ex \<noteq> Service"
    and valid_kind: "WorkloadKind_Valid (ex_Kind ex)"
    and names_job: "ru_JobID (fst (fst (ex_Run ex job s))) = aj_ID job"
begin

lemma dispatch_names_job:
  assumes "map_of (er_batch r) (aj_Kind job) = Some ex"
  shows "ru_JobID (fst (fst (Registry_Dispatch r job s))) = aj_ID job"
  using names_job by (simp add: Registry_Dispatch_def assms bare_result_def)

lemma registers:
  assumes "nc_Placement (er_contract r) = Scavenged \<longrightarrow> ex_Preemptible ex" "ex_Kind ex \<in> set (nc_Kinds (er_contract r))" "map_of (er_batch r) (ex_Kind ex) = None"
  shows "Register r ex = Inr (r\<lparr>er_batch := (ex_Kind ex, ex) # er_batch r\<rparr>)"
  using assms not_service valid_kind by (simp add: Register_def Let_def)

end

interpretation echo: one_shot "echoExecutor :: 's executor"
  by unfold_locales (simp_all add: echoExecutor_def Compute_def Service_def WorkloadKind_Valid_def)

lemma storage_audit_job: "ru_JobID (fst (storage_audit c cd job i blob n e)) = job"
  by (simp add: storage_audit_def bare_result_def split: sum.split prod.split)

interpretation storage: one_shot "storageExecutor c cd"
  by unfold_locales (simp_all add: storageExecutor_def Storage_def Compute_def Service_def WorkloadKind_Valid_def storage_Run_def storage_audit_job bare_result_def
      split: sum.split option.split)

section \<open>What is stored is what is proven\<close>

text \<open>The shard a job stores.\<close>

definition stored_by :: "storage_codec \<Rightarrow> assigned_job \<Rightarrow> (string \<times> bytes) option" where
  "stored_by cd job =
     (case op_Unmarshal cd (aj_Payload job) of Inl _ \<Rightarrow> None
      | Inr op \<Rightarrow> if so_Op op \<noteq> ''store'' then None
          else (case std_DecodeString cd (so_Data op) of Inl _ \<Rightarrow> None | Inr blob \<Rightarrow> if blob = [] then None else Some (so_ID op, blob)))"

definition last_stored :: "storage_codec \<Rightarrow> assigned_job list \<Rightarrow> string \<rightharpoonup> bytes" where
  "last_stored cd js = map_of (rev (concat (map (\<lambda>j. case stored_by cd j of None \<Rightarrow> [] | Some x \<Rightarrow> [x]) js)))"

definition storage_jobs :: "crypto \<Rightarrow> storage_codec \<Rightarrow> (nat \<Rightarrow> entropy) \<Rightarrow> assigned_job list \<Rightarrow> storage_node" where
  "storage_jobs c cd rand js = foldl (\<lambda>s j. snd (storage_Run c cd j s)) (newStorageExecutor rand) js"

lemma storage_Run_state:
  "sn_shards (snd (storage_Run c cd job s)) = (case stored_by cd job of None \<Rightarrow> sn_shards s | Some (i, blob) \<Rightarrow> (sn_shards s)(i \<mapsto> blob))"
  "sn_audits (snd (storage_Run c cd job s)) = sn_audits s" "sn_rand (snd (storage_Run c cd job s)) = sn_rand s"
  by (auto simp: storage_Run_def stored_by_def split: sum.split option.split)

lemma storage_jobs_state:
  "sn_shards (storage_jobs c cd rand js) = last_stored cd js" "sn_audits (storage_jobs c cd rand js) = 8" "sn_rand (storage_jobs c cd rand js) = rand"
proof (induction js rule: rev_induct)
  case Nil
  { case 1 show ?case by (auto simp: storage_jobs_def newStorageExecutor_def last_stored_def) }
  { case 2 show ?case by (simp add: storage_jobs_def newStorageExecutor_def) }
  { case 3 show ?case by (simp add: storage_jobs_def newStorageExecutor_def) }
next
  case (snoc j js)
  have s: "storage_jobs c cd rand (js @ [j]) = snd (storage_Run c cd j (storage_jobs c cd rand js))" by (simp add: storage_jobs_def)
  { case 1 show ?case using snoc by (auto simp: s storage_Run_state last_stored_def fun_eq_iff split: option.split prod.split) }
  { case 2 show ?case using snoc by (simp add: s storage_Run_state) }
  { case 3 show ?case using snoc by (simp add: s storage_Run_state) }
qed

lemma storage_audit_holds:
  assumes "BuildChallengeTable c blob 8 e = Inr t"
  shows "storage_audit c cd job i blob 8 e = ((bare_result job)\<lparr>ru_OK := True, ru_Detail := ''possession proven for '' @ i\<rparr>, None)"
proof -
  obtain cs where cs: "build_challenges c blob 8 e = Inr cs" "t = \<lparr>tb_Challenges = map fst cs, tb_Expected = map snd cs, tb_next = 0\<rparr>"
    using assms by (auto simp: BuildChallengeTable_def split: if_splits sum.splits)
  note spec = build_challenges_spec [OF cs(1)]
  obtain ch d rest where f: "cs = (ch, d) # rest" using spec by (cases cs) auto
  then have "Respond c blob ch = Inr d" using spec by auto
  then show ?thesis by (simp add: storage_audit_def assms) (simp add: cs(2) f ChallengeTable_Next_def VerifyProof_def)
qed

text \<open>A storage node proves what it was last given. After any jobs, an audit of an identifier that was never stored is an error; of one that was
  stored, the answer is positive whenever the challenges can be drawn, over the bytes of the last store. No job ever
  yields a negative answer without an error: the node checks its proof against a table it builds from the bytes it holds.\<close>

theorem storage_proves_last_stored:
  assumes "op_Unmarshal cd (aj_Payload job) = Inr op" and "so_Op op = ''audit''"
  shows "(case last_stored cd js (so_ID op) of
       None \<Rightarrow> fst (storage_Run c cd job (storage_jobs c cd rand js)) = (bare_result (aj_ID job), Some (RunOther (''storage: no shard '' @ so_ID op)))
     | Some blob \<Rightarrow> blob \<noteq> [] \<and> (\<forall>t. BuildChallengeTable c blob 8 (rand (sn_drawn (storage_jobs c cd rand js))) = Inr t \<longrightarrow>
         fst (storage_Run c cd job (storage_jobs c cd rand js)) = ((bare_result (aj_ID job))\<lparr>ru_OK := True, ru_Detail := ''possession proven for '' @ so_ID op\<rparr>, None))) \<and>
    (\<forall>j. snd (fst (storage_Run c cd j (storage_jobs c cd rand js))) = None \<longrightarrow> ru_OK (fst (fst (storage_Run c cd j (storage_jobs c cd rand js)))))"
proof -
  let ?s = "storage_jobs c cd rand js"
  have ne: "blob \<noteq> []" if "last_stored cd js i = Some blob" for i blob
  proof -
    have "(i, blob) \<in> set (concat (map (\<lambda>j. case stored_by cd j of None \<Rightarrow> [] | Some x \<Rightarrow> [x]) js))" using map_of_SomeD [OF that [unfolded last_stored_def]] by simp
    then obtain j where "stored_by cd j = Some (i, blob)" by (auto split: option.splits)
    then show ?thesis by (auto simp: stored_by_def split: sum.splits if_splits)
  qed
  have pos: "ru_OK (fst (storage_audit c cd jb i blob 8 e))" if "snd (storage_audit c cd jb i blob 8 e) = None" for jb i blob e
  proof (cases "BuildChallengeTable c blob 8 e")
    case (Inl err)
    then show ?thesis using that by (simp add: storage_audit_def)
  next
    case (Inr t)
    then show ?thesis by (simp add: storage_audit_holds)
  qed
  have "ru_OK (fst (fst (storage_Run c cd j ?s)))" if "snd (fst (storage_Run c cd j ?s)) = None" for j
    using that pos by (auto simp: storage_Run_def storage_jobs_state split: sum.splits option.splits if_splits)
  moreover have "fst (storage_Run c cd job ?s) = (case last_stored cd js (so_ID op) of
      None \<Rightarrow> (bare_result (aj_ID job), Some (RunOther (''storage: no shard '' @ so_ID op)))
    | Some blob \<Rightarrow> storage_audit c cd (aj_ID job) (so_ID op) blob 8 (rand (sn_drawn ?s)))"
    using assms by (simp add: storage_Run_def storage_jobs_state split: option.split)
  ultimately show ?thesis using ne storage_audit_holds by (simp split: option.split)
qed

definition sample_storage_codec :: storage_codec where
  "sample_storage_codec = \<lparr>op_Unmarshal = (\<lambda>bs. if bs = [1] then Inr \<lparr>so_Op = ''store'', so_ID = ''o'', so_Data = ''x''\<rparr>
       else if bs = [2] then Inr \<lparr>so_Op = ''audit'', so_ID = ''o'', so_Data = ''''\<rparr> else Inl ''eof''),
     std_DecodeString = (\<lambda>_. Inr [9]), st_Error = (\<lambda>_. ''entropy''), fmt_q = id\<rparr>"

definition sample_job :: "byte \<Rightarrow> assigned_job" where
  "sample_job b = \<lparr>aj_ID = ''j'', aj_Kind = Storage, aj_Payload = [b], aj_Deadline = zeroTime\<rparr>"

lemma zero_challenges: "\<exists>cs. build_challenges c [9] m (concat (replicate m (replicate 32 0))) = Inr cs"
proof (induction m)
  case (Suc m)
  then obtain cs where cs: "build_challenges c [9] m (concat (replicate m (replicate 32 0))) = Inr cs" ..
  have r: "replicate 32 0 = replicate 8 0 @ replicate 8 0 @ (replicate 16 0 :: bytes)" by (simp only: replicate_add [symmetric]) simp
  have z: "BigEndian_Uint64 (replicate 8 0) = 0" by (simp add: BigEndian_Uint64_def numeral_eq_Suc)
  have lim: "uniform_limit 1 = - 1" by (simp add: uniform_limit_def)
  have u: "uniformInt (replicate 8 0 @ e) 1 = Inr (0, e)" for e
    using uniformInt_block [of "replicate 8 0" e 1] by (simp add: z lim word_gt_0)
  have io: "io_ReadFull 16 (replicate 16 0 @ e) = Inr (replicate 16 0, e)" for e by (simp add: io_ReadFull_def)
  show ?case unfolding replicate_Suc concat.simps r append_assoc by (simp add: u io cs [unfolded r] Respond_def Let_def)
qed simp

theorem storage_proves_last_stored_witness:
  "fst (storage_Run sample_crypto sample_storage_codec (sample_job 2)
      (storage_jobs sample_crypto sample_storage_codec (\<lambda>_. concat (replicate 8 (replicate 32 0))) [sample_job 1])) =
     (\<lparr>ru_JobID = ''j'', ru_OK = True, ru_Detail = ''possession proven for o'', ru_Output = []\<rparr>, None)"
proof -
  have l: "last_stored sample_storage_codec [sample_job 1] ''o'' = Some [9]"
    by (simp add: last_stored_def stored_by_def sample_job_def sample_storage_codec_def)
  have u: "op_Unmarshal sample_storage_codec (aj_Payload (sample_job 2)) = Inr \<lparr>so_Op = ''audit'', so_ID = ''o'', so_Data = ''''\<rparr>"
    by (simp add: sample_storage_codec_def sample_job_def)
  obtain cs where "build_challenges sample_crypto [9] 8 (concat (replicate 8 (replicate 32 0))) = Inr cs" using zero_challenges by blast
  then have "\<exists>t. BuildChallengeTable sample_crypto [9] 8 (concat (replicate 8 (replicate 32 0))) = Inr t" by (simp add: BuildChallengeTable_def)
  then obtain t where t: "BuildChallengeTable sample_crypto [9] 8 (concat (replicate 8 (replicate 32 0))) = Inr t" ..
  have j: "aj_ID (sample_job 2) = ''j''" by (simp add: sample_job_def)
  from conjunct1 [OF storage_proves_last_stored [OF u, where js = "[sample_job 1]" and c = sample_crypto and rand = "\<lambda>_. concat (replicate 8 (replicate 32 0))"]]
  show ?thesis unfolding storage_op.simps by (simp add: l t j bare_result_def del: replicate.simps concat.simps)
qed

end
