(* ===== verification/Operator_Enroll.thy ===== *)
theory Operator_Enroll
  imports Opcred "HOL-Library.Sublist"
begin

text \<open>
  Operator onboarding at the coordinator's portal (\<open>src/internal/enroll/enroll.go\<close>): the JSON client, its six calls and the whole
  enrollment from application to activation. The portal is a function of a path, a request body and a state of its own; JSON and base64 are a
  parameter record, and the emailed code is what the \<open>CodeSource\<close> answers. All requests are POST, so the method is not carried.
\<close>

section \<open>White space\<close>

text \<open>\<open>strings.TrimSpace\<close>: the UTF-8 forms of the white-space code points, stripped at both ends.\<close>

definition space_runes :: "string list" where
  "space_runes = map (map char_of) ([[9], [10], [11], [12], [13], [32], [0xC2, 0x85], [0xC2, 0xA0], [0xE1, 0x9A, 0x80]] @
     map (\<lambda>n. [0xE2, 0x80, n]) ([0x80..<0x8B] @ [0xA8, 0xA9, 0xAF]) @ [[0xE2, 0x81, 0x9F], [0xE3, 0x80, 0x80 :: nat]])"

function strip_left :: "string list \<Rightarrow> string \<Rightarrow> string" where
  "strip_left rs s = (case find (\<lambda>r. r \<noteq> [] \<and> take (length r) s = r) rs of None \<Rightarrow> s | Some r \<Rightarrow> strip_left rs (drop (length r) s))"
  by pat_completeness auto
termination
proof (relation "measure (length \<circ> snd)")
  fix rs :: "string list" and s r :: string
  assume "find (\<lambda>r. r \<noteq> [] \<and> take (length r) s = r) rs = Some r"
  then have "r \<noteq> []" "take (length r) s = r" by (auto simp: find_Some_iff)
  then have "0 < length r" "s \<noteq> []" by auto
  then show "((rs, drop (length r) s), rs, s) \<in> measure (length \<circ> snd)" by simp
qed simp

declare strip_left.simps [simp del]

definition strings_TrimSpace :: "string \<Rightarrow> string" where
  "strings_TrimSpace s = rev (strip_left (map rev space_runes) (rev (strip_left space_runes s)))"

definition strings_TrimRight_slash :: "string \<Rightarrow> string" where
  "strings_TrimRight_slash s = rev (dropWhile (\<lambda>ch. ch = CHR ''/'') (rev s))"

section \<open>The client\<close>

datatype enroll_body =
    BodyApply string string string string
  | BodyKeys string "string list"
  | BodyVerifyStart string string
  | BodyVerifyCheck string string string
  | BodySubmit "response_a list" "response_b list"

text \<open>No reply, with the transport's error text, or a status and the body read.\<close>

datatype portal_answer = PortalDown string | PortalReply nat bytes

type_synonym 'k portal = "string \<Rightarrow> enroll_body option \<Rightarrow> 'k \<Rightarrow> portal_answer \<times> 'k"

datatype enroll_error =
    EnrollTransport string string | HTTPError string nat string | EnrollDecode string string | EnrollNilKeyset | EnrollNilCode
  | EnrollStep string enroll_error | EnrollCode string | EnrollAnswer string string opcred_error | EnrollFailed string

record apply_response =
  ap_OperatorID :: string
  ap_OnboardingState :: string

record conformance_start =
  cn_RunID :: string
  cn_ChallengesA :: "challenge_a list"
  cn_ChallengesB :: "challenge_b list"

record challenge_result =
  ch_ChallengeID :: string
  ch_Suite :: string
  ch_Passed :: bool
  ch_Detail :: string

record conformance_grade =
  gr_Results :: "challenge_result list"
  gr_Passed :: bool
  gr_Activated :: bool

record portal_codec =
  js_error :: "bytes \<Rightarrow> string option"
  js_apply :: "bytes \<Rightarrow> string + apply_response"
  js_keys :: "bytes \<Rightarrow> string + int"
  js_start :: "bytes \<Rightarrow> string + conformance_start"
  js_grade :: "bytes \<Rightarrow> string + conformance_grade"
  std_EncodeToString :: "bytes \<Rightarrow> string"

fun enroll_Status :: "enroll_error \<Rightarrow> nat" where
  "enroll_Status (HTTPError _ code _) = code"
| "enroll_Status (EnrollStep _ e) = enroll_Status e"
| "enroll_Status _ = 0"

definition answer_message :: "portal_codec \<Rightarrow> bytes \<Rightarrow> string" where
  "answer_message cd raw =
     (case js_error cd raw of Some e \<Rightarrow> if e \<noteq> '''' then e else strings_TrimSpace (str_of_bytes raw)
      | None \<Rightarrow> strings_TrimSpace (str_of_bytes raw))"

text \<open>\<open>do\<close>: \<open>zero\<close> is the response left untouched where the body is empty, \<open>dec\<close> its decoder; a call that discards the response
  decodes nothing.\<close>

definition Client_do :: "portal_codec \<Rightarrow> 'k portal \<Rightarrow> string \<Rightarrow> enroll_body option \<Rightarrow> (bytes \<Rightarrow> string + 'r) option \<Rightarrow> 'r \<Rightarrow> 'k \<Rightarrow> (enroll_error + 'r) \<times> 'k" where
  "Client_do cd po path body dec zero k =
     (case po path body k of
        (PortalDown e, k') \<Rightarrow> (Inl (EnrollTransport path e), k')
      | (PortalReply code raw0, k') \<Rightarrow>
          (let raw = take (2 ^ 20) raw0 in
           if code < 200 \<or> code \<ge> 300 then (Inl (HTTPError path code (answer_message cd raw)), k')
           else case dec of None \<Rightarrow> (Inr zero, k')
             | Some f \<Rightarrow> if raw = [] then (Inr zero, k')
                 else (case f raw of Inl e \<Rightarrow> (Inl (EnrollDecode path e), k') | Inr v \<Rightarrow> (Inr v, k'))))"

section \<open>The calls\<close>

definition channelEmail :: string where "channelEmail = ''email''"

record enroll_config =
  ec_Slug :: string
  ec_Name :: string
  ec_Email :: string
  ec_Phone :: string
  ec_SessionID :: string
  ec_Keyset :: "keyset option"
  ec_Code :: "(string + string) option"

definition Client_Apply :: "portal_codec \<Rightarrow> 'k portal \<Rightarrow> string \<Rightarrow> enroll_config \<Rightarrow> 'k \<Rightarrow> (enroll_error + apply_response) \<times> 'k" where
  "Client_Apply cd po base cfg =
     Client_do cd po (base @ ''/operators/apply'') (Some (BodyApply (ec_Slug cfg) (ec_Name cfg) (ec_Email cfg) (ec_Phone cfg))) (Some (js_apply cd))
       \<lparr>ap_OperatorID = '''', ap_OnboardingState = ''''\<rparr>"

definition RegisterKeys :: "portal_codec \<Rightarrow> op_proto \<Rightarrow> 'k portal \<Rightarrow> string \<Rightarrow> string \<Rightarrow> keyset \<Rightarrow> 'k \<Rightarrow> (enroll_error + int) \<times> 'k" where
  "RegisterKeys cd P po base slug ks =
     Client_do cd po (base @ ''/operators/'' @ slug @ ''/keys'') (Some (BodyKeys (AlgoEd25519 P) (map (std_EncodeToString cd) (Keyset_PublicKeys ks)))) (Some (js_keys cd)) 0"

definition VerifyStart :: "portal_codec \<Rightarrow> 'k portal \<Rightarrow> string \<Rightarrow> string \<Rightarrow> string \<Rightarrow> 'k \<Rightarrow> (enroll_error + unit) \<times> 'k" where
  "VerifyStart cd po base slug session =
     Client_do cd po (base @ ''/operators/'' @ slug @ ''/verify/start'') (Some (BodyVerifyStart channelEmail session)) None ()"

definition VerifyCheck :: "portal_codec \<Rightarrow> 'k portal \<Rightarrow> string \<Rightarrow> string \<Rightarrow> string \<Rightarrow> string \<Rightarrow> 'k \<Rightarrow> (enroll_error + unit) \<times> 'k" where
  "VerifyCheck cd po base slug session code =
     Client_do cd po (base @ ''/operators/'' @ slug @ ''/verify/check'') (Some (BodyVerifyCheck channelEmail session code)) None ()"

definition ConformanceStart :: "portal_codec \<Rightarrow> 'k portal \<Rightarrow> string \<Rightarrow> string \<Rightarrow> 'k \<Rightarrow> (enroll_error + conformance_start) \<times> 'k" where
  "ConformanceStart cd po base slug =
     Client_do cd po (base @ ''/operators/'' @ slug @ ''/conformance/start'') None (Some (js_start cd)) \<lparr>cn_RunID = '''', cn_ChallengesA = [], cn_ChallengesB = []\<rparr>"

fun answer_all_a :: "op_proto \<Rightarrow> conformance_responder \<Rightarrow> challenge_a list \<Rightarrow> enroll_error + response_a list" where
  "answer_all_a P rp [] = Inr []"
| "answer_all_a P rp (ch # chs) =
     (case AnswerA P rp ch of Inl e \<Rightarrow> Inl (EnrollAnswer ''A'' (ca_ChallengeID ch) e)
      | Inr a \<Rightarrow> (case answer_all_a P rp chs of Inl e \<Rightarrow> Inl e | Inr rest \<Rightarrow> Inr (a # rest)))"

fun answer_all_b :: "op_proto \<Rightarrow> conformance_responder \<Rightarrow> challenge_b list \<Rightarrow> enroll_error + response_b list" where
  "answer_all_b P rp [] = Inr []"
| "answer_all_b P rp (ch # chs) =
     (case AnswerB P rp ch of (Inl e, rp') \<Rightarrow> Inl (EnrollAnswer ''B'' (cb_ChallengeID ch) e)
      | (Inr b, rp') \<Rightarrow> (case answer_all_b P rp' chs of Inl e \<Rightarrow> Inl e | Inr rest \<Rightarrow> Inr (b # rest)))"

definition AnswerChallenges :: "op_proto \<Rightarrow> string \<Rightarrow> keyset \<Rightarrow> conformance_start \<Rightarrow> enroll_error + response_a list \<times> response_b list" where
  "AnswerChallenges P slug ks start =
     (let rp = NewConformanceResponder slug ks in
      case answer_all_a P rp (cn_ChallengesA start) of Inl e \<Rightarrow> Inl e
      | Inr as \<Rightarrow> (case answer_all_b P rp (cn_ChallengesB start) of Inl e \<Rightarrow> Inl e | Inr bs \<Rightarrow> Inr (as, bs)))"

definition ConformanceSubmit :: "portal_codec \<Rightarrow> 'k portal \<Rightarrow> string \<Rightarrow> string \<Rightarrow> string \<Rightarrow> response_a list \<times> response_b list \<Rightarrow> 'k \<Rightarrow> (enroll_error + conformance_grade) \<times> 'k" where
  "ConformanceSubmit cd po base slug run req =
     Client_do cd po (base @ ''/operators/'' @ slug @ ''/conformance/'' @ run @ ''/submit'') (Some (BodySubmit (fst req) (snd req))) (Some (js_grade cd))
       \<lparr>gr_Results = [], gr_Passed = False, gr_Activated = False\<rparr>"

fun failed_items :: "challenge_result list \<Rightarrow> string \<Rightarrow> string" where
  "failed_items [] b = b"
| "failed_items (r # rs) b =
     (if ch_Passed r then failed_items rs b
      else failed_items rs (b @ (if b \<noteq> '''' then ''; '' else '''') @ ch_Suite r @ ''/'' @ ch_ChallengeID r @ '': '' @ ch_Detail r))"

definition failedDetail :: "challenge_result list \<Rightarrow> string" where
  "failedDetail rs = (let b = failed_items rs '''' in if b = '''' then ''no per-challenge detail'' else b)"

section \<open>The enrollment\<close>

record enroll_result =
  en_OperatorID :: string
  en_KeysRegistered :: int
  en_Verified :: bool
  en_ConformancePassed :: bool
  en_Activated :: bool
  en_RunID :: string

text \<open>From the challenges on.\<close>

definition enroll_conformance ::
  "portal_codec \<Rightarrow> op_proto \<Rightarrow> 'k portal \<Rightarrow> string \<Rightarrow> string \<Rightarrow> keyset \<Rightarrow> enroll_result \<Rightarrow> 'k \<Rightarrow> enroll_result \<times> enroll_error option \<times> 'k" where
  "enroll_conformance cd P po base slug ks res k =
     (case ConformanceStart cd po base slug k of
        (Inl e, k) \<Rightarrow> (res, Some (EnrollStep ''conformance start'' e), k)
      | (Inr start, k) \<Rightarrow>
          (let res = res\<lparr>en_RunID := cn_RunID start\<rparr> in
           case AnswerChallenges P slug ks start of Inl e \<Rightarrow> (res, Some e, k)
           | Inr answers \<Rightarrow>
               (case ConformanceSubmit cd po base slug (cn_RunID start) answers k of
                  (Inl e, k) \<Rightarrow> (res, Some (EnrollStep ''conformance submit'' e), k)
                | (Inr grade, k) \<Rightarrow>
                    (res\<lparr>en_ConformancePassed := gr_Passed grade, en_Activated := gr_Activated grade\<rparr>,
                     if gr_Passed grade then None else Some (EnrollFailed (failedDetail (gr_Results grade))), k))))"

text \<open>From the email verification on.\<close>

definition enroll_verify ::
  "portal_codec \<Rightarrow> op_proto \<Rightarrow> 'k portal \<Rightarrow> string \<Rightarrow> string \<Rightarrow> string \<Rightarrow> keyset \<Rightarrow> string + string \<Rightarrow> enroll_result \<Rightarrow> 'k \<Rightarrow> enroll_result \<times> enroll_error option \<times> 'k" where
  "enroll_verify cd P po base slug session ks code res k =
     (case VerifyStart cd po base slug session k of
        (Inl e, k) \<Rightarrow> (res, Some (EnrollStep ''verify start'' e), k)
      | (Inr _, k) \<Rightarrow>
          (case code of Inl e \<Rightarrow> (res, Some (EnrollCode e), k)
           | Inr typed \<Rightarrow>
               (case VerifyCheck cd po base slug session (strings_TrimSpace typed) k of
                  (Inl e, k) \<Rightarrow> (res, Some (EnrollStep ''verify check'' e), k)
                | (Inr _, k) \<Rightarrow> enroll_conformance cd P po base slug ks (res\<lparr>en_Verified := True\<rparr>) k)))"

text \<open>From the registration of the keys on.\<close>

definition enroll_keys ::
  "portal_codec \<Rightarrow> op_proto \<Rightarrow> 'k portal \<Rightarrow> string \<Rightarrow> enroll_config \<Rightarrow> keyset \<Rightarrow> string + string \<Rightarrow> enroll_result \<Rightarrow> 'k \<Rightarrow> enroll_result \<times> enroll_error option \<times> 'k" where
  "enroll_keys cd P po base cfg ks code res k =
     (case RegisterKeys cd P po base (ec_Slug cfg) ks k of
        (Inl e, k) \<Rightarrow> (res, Some (EnrollStep ''register keys'' e), k)
      | (Inr n, k) \<Rightarrow> enroll_verify cd P po base (ec_Slug cfg) (ec_SessionID cfg) ks code (res\<lparr>en_KeysRegistered := n\<rparr>) k)"

text \<open>A conflict on apply means the operator already exists, and is tolerated.\<close>

definition applied_as :: "string \<Rightarrow> enroll_error + apply_response \<Rightarrow> enroll_error + string" where
  "applied_as slug applied =
     (case applied of Inr a \<Rightarrow> Inr (ap_OperatorID a) | Inl e \<Rightarrow> if enroll_Status e = 409 then Inr slug else Inl e)"

definition Client_Enroll ::
  "portal_codec \<Rightarrow> op_proto \<Rightarrow> 'k portal \<Rightarrow> string \<Rightarrow> enroll_config \<Rightarrow> 'k \<Rightarrow> enroll_result option \<times> enroll_error option \<times> 'k" where
  "Client_Enroll cd P po base cfg k =
     (case ec_Keyset cfg of None \<Rightarrow> (None, Some EnrollNilKeyset, k) | Some ks \<Rightarrow>
      case ec_Code cfg of None \<Rightarrow> (None, Some EnrollNilCode, k) | Some code \<Rightarrow>
      let res = \<lparr>en_OperatorID = ec_Slug cfg, en_KeysRegistered = 0, en_Verified = False, en_ConformancePassed = False, en_Activated = False, en_RunID = ''''\<rparr> in
      case Client_Apply cd po base cfg k of (applied, k) \<Rightarrow>
      case applied_as (ec_Slug cfg) applied of
        Inl e \<Rightarrow> (Some res, Some (EnrollStep ''apply'' e), k)
      | Inr opid \<Rightarrow> (case enroll_keys cd P po base cfg ks code (res\<lparr>en_OperatorID := opid\<rparr>) k of (res, err, k) \<Rightarrow> (Some res, err, k)))"

section \<open>The order of an enrollment\<close>

text \<open>A portal that keeps the calls it answers.\<close>

type_synonym portal_call = "string \<times> enroll_body option \<times> portal_answer"

definition portal_log :: "'k portal \<Rightarrow> ('k \<times> portal_call list) portal" where
  "portal_log po path body s = (case s of (k, tr) \<Rightarrow> case po path body k of (a, k') \<Rightarrow> (a, k', tr @ [(path, body, a)]))"

definition answered_ok :: "portal_answer \<Rightarrow> bool" where
  "answered_ok a = (case a of PortalDown _ \<Rightarrow> False | PortalReply code _ \<Rightarrow> 200 \<le> code \<and> code < 300)"

definition conflict :: "portal_answer \<Rightarrow> bool" where
  "conflict a = (case a of PortalDown _ \<Rightarrow> False | PortalReply code _ \<Rightarrow> code = 409)"

definition enroll_paths :: "string \<Rightarrow> string \<Rightarrow> string \<Rightarrow> string list" where
  "enroll_paths base slug run = map (\<lambda>s. base @ ''/operators/'' @ s)
     [''apply'', slug @ ''/keys'', slug @ ''/verify/start'', slug @ ''/verify/check'', slug @ ''/conformance/start'', slug @ ''/conformance/'' @ run @ ''/submit'']"

lemma Client_do_log:
  assumes "Client_do cd (portal_log po) path body dec zero (k, tr) = (r, (k', tr'))"
  obtains a where "tr' = tr @ [(path, body, a)]" "isl r \<or> answered_ok a" "dec = None \<Longrightarrow> isl r \<longleftrightarrow> \<not> answered_ok a"
    "\<And>e. r = Inl e \<Longrightarrow> enroll_Status e = 409 \<Longrightarrow> conflict a"
proof -
  obtain a k1 where a: "po path body k = (a, k1)" by fastforce
  show thesis
    by (rule that [of a]) (use assms in \<open>auto simp: Client_do_def portal_log_def a answered_ok_def conflict_def Let_def split: portal_answer.splits if_splits option.splits sum.splits\<close>)
qed

text \<open>What a stage of the enrollment adds to the log: some of the next paths in order, each call but the last accepted.\<close>

definition all_but_last_ok :: "portal_call list \<Rightarrow> bool" where
  "all_but_last_ok us \<longleftrightarrow> (\<forall>u \<in> set (butlast us). answered_ok (snd (snd u)))"

text \<open>The grade an answer of the portal carries, and the grade of an enrollment's last call when it made all of its calls.\<close>

definition portal_grade :: "portal_codec \<Rightarrow> portal_answer \<Rightarrow> conformance_grade option" where
  "portal_grade cd a =
     (case a of PortalDown _ \<Rightarrow> None
      | PortalReply code raw \<Rightarrow>
          if \<not> answered_ok a then None
          else if raw = [] then Some \<lparr>gr_Results = [], gr_Passed = False, gr_Activated = False\<rparr>
          else (case js_grade cd (take (2 ^ 20) raw) of Inl _ \<Rightarrow> None | Inr g \<Rightarrow> Some g))"

definition graded :: "portal_codec \<Rightarrow> nat \<Rightarrow> portal_call list \<Rightarrow> conformance_grade option" where
  "graded cd n us = (if length us = n then portal_grade cd (snd (snd (last us))) else None)"

text \<open>The outcome follows the grade.\<close>

definition as_graded :: "conformance_grade option \<Rightarrow> enroll_result \<Rightarrow> enroll_error option \<Rightarrow> bool" where
  "as_graded g res err \<longleftrightarrow> (case g of
      None \<Rightarrow> \<not> en_ConformancePassed res \<and> \<not> en_Activated res \<and> err \<noteq> None
    | Some gr \<Rightarrow> en_ConformancePassed res = gr_Passed gr \<and> en_Activated res = gr_Activated gr \<and>
        err = (if gr_Passed gr then None else Some (EnrollFailed (failedDetail (gr_Results gr)))))"

lemma Client_do_grade:
  assumes "Client_do cd (portal_log po) path body (Some (js_grade cd)) \<lparr>gr_Results = [], gr_Passed = False, gr_Activated = False\<rparr> (k, tr) = (r, (k', tr'))"
  obtains a where "tr' = tr @ [(path, body, a)]" "portal_grade cd a = (case r of Inl _ \<Rightarrow> None | Inr g \<Rightarrow> Some g)"
proof -
  obtain a k1 where a: "po path body k = (a, k1)" by fastforce
  then have l: "portal_log po path body (k, tr) = (a, k1, tr @ [(path, body, a)])" by (simp add: portal_log_def)
  have "tr' = tr @ [(path, body, a)] \<and> portal_grade cd a = (case r of Inl _ \<Rightarrow> None | Inr g \<Rightarrow> Some g)"
  proof (cases a)
    case (PortalReply code raw)
    show ?thesis
    proof (cases "200 \<le> code \<and> code < 300")
      case True
      then show ?thesis using assms
        by (auto simp: Client_do_def l PortalReply portal_grade_def answered_ok_def Let_def split: if_splits sum.splits)
    next
      case False
      then show ?thesis using assms by (auto simp: Client_do_def l PortalReply portal_grade_def answered_ok_def Let_def)
    qed
  qed (use assms in \<open>auto simp: Client_do_def l portal_grade_def\<close>)
  then show thesis using that by blast
qed

lemma conformance_stage:
  assumes "enroll_conformance cd P (portal_log po) base slug ks res (k, tr) = (res', err, (k', tr'))"
    and "\<not> en_ConformancePassed res" "\<not> en_Activated res"
  shows "\<exists>us. tr' = tr @ us \<and> us \<noteq> [] \<and> prefix (map fst us) (drop 4 (enroll_paths base slug (en_RunID res'))) \<and> all_but_last_ok us \<and>
    en_Verified res' = en_Verified res \<and> as_graded (graded cd 2 us) res' err"
proof -
  obtain r k1 tr1 where s: "ConformanceStart cd (portal_log po) base slug (k, tr) = (r, (k1, tr1))" by (metis surj_pair)
  from s [unfolded ConformanceStart_def] obtain a where a: "tr1 = tr @ [(base @ ''/operators/'' @ slug @ ''/conformance/start'', None, a)]" "isl r \<or> answered_ok a"
    by (rule Client_do_log) auto
  show ?thesis
  proof (cases r)
    case (Inl e)
    then show ?thesis using assms s a by (auto simp: enroll_conformance_def enroll_paths_def all_but_last_ok_def graded_def as_graded_def)
  next
    case (Inr start)
    let ?res = "res\<lparr>en_RunID := cn_RunID start\<rparr>"
    show ?thesis
    proof (cases "AnswerChallenges P slug ks start")
      case (Inl e)
      then show ?thesis using assms s a \<open>r = Inr start\<close> by (auto simp: enroll_conformance_def enroll_paths_def all_but_last_ok_def Let_def graded_def as_graded_def)
    next
      case (Inr answers)
      obtain g k2 tr2 where t: "ConformanceSubmit cd (portal_log po) base slug (cn_RunID start) answers (k1, tr1) = (g, (k2, tr2))" by (metis surj_pair)
      from t [unfolded ConformanceSubmit_def] obtain b where
        b: "tr2 = tr1 @ [(base @ ''/operators/'' @ slug @ ''/conformance/'' @ cn_RunID start @ ''/submit'', Some (BodySubmit (fst answers) (snd answers)), b)]"
        "portal_grade cd b = (case g of Inl _ \<Rightarrow> None | Inr g \<Rightarrow> Some g)"
        by (rule Client_do_grade)
      show ?thesis using assms s a b t \<open>r = Inr start\<close> Inr
        by (cases g) (auto simp: enroll_conformance_def enroll_paths_def all_but_last_ok_def Let_def graded_def as_graded_def split: if_splits)
    qed
  qed
qed

lemma verify_stage:
  assumes "enroll_verify cd P (portal_log po) base slug session ks code res (k, tr) = (res', err, (k', tr'))"
    and "\<not> en_ConformancePassed res" "\<not> en_Activated res" "\<not> en_Verified res"
  shows "\<exists>us. tr' = tr @ us \<and> us \<noteq> [] \<and> prefix (map fst us) (drop 2 (enroll_paths base slug (en_RunID res'))) \<and> all_but_last_ok us \<and>
    (en_Verified res' \<longleftrightarrow> 2 \<le> length us \<and> answered_ok (snd (snd (us ! 1)))) \<and> as_graded (graded cd 4 us) res' err"
proof -
  let ?p2 = "base @ ''/operators/'' @ slug @ ''/verify/start''" and ?p3 = "base @ ''/operators/'' @ slug @ ''/verify/check''"
  have paths: "drop 2 (enroll_paths base slug run) = ?p2 # ?p3 # drop 4 (enroll_paths base slug run)" for run by (simp add: enroll_paths_def)
  obtain r k1 tr1 where s: "VerifyStart cd (portal_log po) base slug session (k, tr) = (r, (k1, tr1))" by (metis surj_pair)
  from s [unfolded VerifyStart_def] obtain a body where a: "tr1 = tr @ [(?p2, body, a)]" "isl r \<or> answered_ok a" by (rule Client_do_log) auto
  show ?thesis
  proof (cases "isl r \<or> isl code")
    case True
    then have "tr' = tr1" "res' = res" "err \<noteq> None"
      using assms(1) s by (auto simp: enroll_verify_def split: sum.splits)
    then show ?thesis using a assms(2-4) by (intro exI [of _ "[(?p2, body, a)]"]) (simp add: paths all_but_last_ok_def graded_def as_graded_def)
  next
    case False
    then obtain typed where c: "\<not> isl r" "code = Inr typed" by (cases code) auto
    obtain g k2 tr2 where t: "VerifyCheck cd (portal_log po) base slug session (strings_TrimSpace typed) (k1, tr1) = (g, (k2, tr2))" by (metis surj_pair)
    from t [unfolded VerifyCheck_def] obtain b body' where b: "tr2 = tr1 @ [(?p3, body', b)]" "isl g \<longleftrightarrow> \<not> answered_ok b" by (rule Client_do_log) auto
    show ?thesis
    proof (cases "isl g")
      case True
      then have "tr' = tr2" "res' = res" "err \<noteq> None"
        using assms(1) s t c by (auto simp: enroll_verify_def split: sum.splits)
      then show ?thesis using a b c True assms(2-4) by (intro exI [of _ "[(?p2, body, a), (?p3, body', b)]"]) (simp add: paths all_but_last_ok_def graded_def as_graded_def)
    next
      case False
      then have e: "enroll_conformance cd P (portal_log po) base slug ks (res\<lparr>en_Verified := True\<rparr>) (k2, tr2) = (res', err, (k', tr'))"
        using assms(1) s t c by (auto simp: enroll_verify_def split: sum.splits)
      from conformance_stage [OF this] assms(2,3) obtain us where us: "tr' = tr2 @ us" "us \<noteq> []" "prefix (map fst us) (drop 4 (enroll_paths base slug (en_RunID res')))"
        "all_but_last_ok us" "en_Verified res'" "as_graded (graded cd 2 us) res' err" by auto
      have "answered_ok a" "answered_ok b" using a(2) b(2) c(1) False by auto
      moreover have "graded cd 4 ((?p2, body, a) # (?p3, body', b) # us) = graded cd 2 us"
        using us(2) by (simp add: graded_def)
      ultimately show ?thesis using us a(1) b(1)
        by (intro exI [of _ "(?p2, body, a) # (?p3, body', b) # us"]) (auto simp: paths all_but_last_ok_def)
    qed
  qed
qed

lemma butlast_nth_ok:
  assumes "all_but_last_ok us" "Suc j < length us"
  shows "answered_ok (snd (snd (us ! j)))"
proof -
  have "butlast us ! j \<in> set (butlast us)" using assms(2) by (intro nth_mem) simp
  then show ?thesis using assms by (simp add: all_but_last_ok_def nth_butlast)
qed

lemma keys_stage:
  assumes "enroll_keys cd P (portal_log po) base cfg ks code res (k, tr) = (res', err, (k', tr'))"
    and "\<not> en_ConformancePassed res" "\<not> en_Activated res" "\<not> en_Verified res"
  shows "\<exists>us. tr' = tr @ us \<and> us \<noteq> [] \<and> prefix (map fst us) (drop 1 (enroll_paths base (ec_Slug cfg) (en_RunID res'))) \<and> all_but_last_ok us \<and>
    (en_Verified res' \<longleftrightarrow> 3 \<le> length us \<and> answered_ok (snd (snd (us ! 2)))) \<and> as_graded (graded cd 5 us) res' err"
proof -
  let ?p1 = "base @ ''/operators/'' @ ec_Slug cfg @ ''/keys''"
  have paths: "drop (Suc 0) (enroll_paths base (ec_Slug cfg) run) = ?p1 # drop 2 (enroll_paths base (ec_Slug cfg) run)" for run by (simp add: enroll_paths_def)
  obtain r k1 tr1 where s: "RegisterKeys cd P (portal_log po) base (ec_Slug cfg) ks (k, tr) = (r, (k1, tr1))" by (metis surj_pair)
  from s [unfolded RegisterKeys_def] obtain a body where a: "tr1 = tr @ [(?p1, body, a)]" "isl r \<or> answered_ok a" by (rule Client_do_log) auto
  show ?thesis
  proof (cases r)
    case (Inl e)
    then show ?thesis using assms s a(1) by (intro exI [of _ "[(?p1, body, a)]"]) (auto simp: enroll_keys_def paths all_but_last_ok_def graded_def as_graded_def)
  next
    case (Inr n)
    then have "enroll_verify cd P (portal_log po) base (ec_Slug cfg) (ec_SessionID cfg) ks code (res\<lparr>en_KeysRegistered := n\<rparr>) (k1, tr1) = (res', err, (k', tr'))"
      using assms(1) s by (simp add: enroll_keys_def)
    from verify_stage [OF this] assms(2-4) obtain us where us: "tr' = tr1 @ us" "us \<noteq> []"
      "prefix (map fst us) (drop 2 (enroll_paths base (ec_Slug cfg) (en_RunID res')))" "all_but_last_ok us"
      "en_Verified res' \<longleftrightarrow> 2 \<le> length us \<and> answered_ok (snd (snd (us ! 1)))" "as_graded (graded cd 4 us) res' err" by auto
    have "answered_ok a" using a(2) Inr by simp
    moreover have "graded cd 5 ((?p1, body, a) # us) = graded cd 4 us" using us(2) by (simp add: graded_def)
    ultimately show ?thesis using us a(1) by (intro exI [of _ "(?p1, body, a) # us"]) (auto simp: paths all_but_last_ok_def)
  qed
qed

text \<open>C18: an enrollment goes through the portal's six calls in order and never past a refused one. The calls made are an initial part of apply,
  keys, verify start, verify check, conformance start, conformance submit; every call but the last was answered with success, a
  conflict being tolerated on apply only. The result says \<open>Verified\<close> exactly when the code was accepted. It says that conformance passed, and
  that the operator is active, exactly when all six calls were made and the grade the portal answered to the last one says so: without a
  grade it says neither and there is an error; with one there is no error exactly when the run was graded as passed, and otherwise the
  error is the details of the failed challenges.\<close>

theorem enroll_in_order:
  assumes "Client_Enroll cd P (portal_log po) base cfg (k, []) = (Some res, err, (k', tr))"
  shows "prefix (map fst tr) (enroll_paths base (ec_Slug cfg) (en_RunID res)) \<and>
    (\<forall>i. Suc i < length tr \<longrightarrow> answered_ok (snd (snd (tr ! i))) \<or> (i = 0 \<and> conflict (snd (snd (tr ! i))))) \<and>
    (en_Verified res \<longleftrightarrow> 4 \<le> length tr \<and> answered_ok (snd (snd (tr ! 3)))) \<and>
    (case if length tr = 6 then portal_grade cd (snd (snd (tr ! 5))) else None of
       None \<Rightarrow> \<not> en_ConformancePassed res \<and> \<not> en_Activated res \<and> err \<noteq> None
     | Some gr \<Rightarrow> en_ConformancePassed res = gr_Passed gr \<and> en_Activated res = gr_Activated gr \<and>
         err = (if gr_Passed gr then None else Some (EnrollFailed (failedDetail (gr_Results gr)))))"
proof -
  let ?slug = "ec_Slug cfg" and ?p0 = "base @ ''/operators/apply''"
  let ?res = "\<lparr>en_OperatorID = ?slug, en_KeysRegistered = 0, en_Verified = False, en_ConformancePassed = False, en_Activated = False, en_RunID = ''''\<rparr>"
  have paths: "enroll_paths base ?slug run = ?p0 # drop 1 (enroll_paths base ?slug run)" for run by (simp add: enroll_paths_def)
  from assms obtain ks code where kc: "ec_Keyset cfg = Some ks" "ec_Code cfg = Some code" by (auto simp: Client_Enroll_def split: option.splits)
  obtain r k1 tr1 where s: "Client_Apply cd (portal_log po) base cfg (k, []) = (r, (k1, tr1))" by (metis surj_pair)
  from s [unfolded Client_Apply_def] obtain a body where a: "tr1 = [(?p0, body, a)]" "isl r \<or> answered_ok a" "\<And>e. r = Inl e \<Longrightarrow> enroll_Status e = 409 \<Longrightarrow> conflict a"
    by (rule Client_do_log) auto
  show ?thesis
  proof (cases "applied_as ?slug r")
    case (Inl e)
    then have "res = ?res" "tr = tr1" "err \<noteq> None" using assms s kc by (auto simp: Client_Enroll_def Let_def)
    then show ?thesis using a(1) by (subst paths) simp
  next
    case (Inr op)
    then have ok: "answered_ok a \<or> conflict a" using a(2,3) by (cases r) (auto simp: applied_as_def split: if_splits)
    have "enroll_keys cd P (portal_log po) base cfg ks code (?res\<lparr>en_OperatorID := op\<rparr>) (k1, tr1) = (res, err, (k', tr))"
      using assms s kc Inr by (simp add: Client_Enroll_def Let_def split: prod.splits)
    from keys_stage [OF this] obtain us where us: "tr = tr1 @ us" "us \<noteq> []"
      "prefix (map fst us) (drop 1 (enroll_paths base ?slug (en_RunID res)))" "all_but_last_ok us"
      "en_Verified res \<longleftrightarrow> 3 \<le> length us \<and> answered_ok (snd (snd (us ! 2)))" "as_graded (graded cd 5 us) res err" by auto
    have tr: "tr = (?p0, body, a) # us" using us(1) a(1) by simp
    have "answered_ok (snd (snd (tr ! i))) \<or> (i = 0 \<and> conflict (snd (snd (tr ! i))))" if "Suc i < length tr" for i
      using that ok butlast_nth_ok [OF us(4)] by (cases i) (simp_all add: tr)
    moreover have "prefix (map fst tr) (enroll_paths base ?slug (en_RunID res))" using us(3) by (subst paths) (simp add: tr)
    moreover have "(if length tr = 6 then portal_grade cd (snd (snd (tr ! 5))) else None) = graded cd 5 us"
      using us(2) by (cases us rule: rev_cases) (auto simp: tr graded_def nth_append)
    ultimately show ?thesis using us(5,6) by (simp add: tr as_graded_def)
  qed
qed

definition sample_portal_codec :: portal_codec where
  "sample_portal_codec = \<lparr>js_error = (\<lambda>_. None), js_apply = (\<lambda>_. Inl ''''), js_keys = (\<lambda>_. Inr 7), js_start = (\<lambda>_. Inl ''''),
     js_grade = (\<lambda>_. Inr \<lparr>gr_Results = [], gr_Passed = True, gr_Activated = True\<rparr>), std_EncodeToString = (\<lambda>_. '''')\<rparr>"

text \<open>The operator already applied; everything after that is accepted. A body is sent only with the keys and the grade.\<close>

definition sample_portal :: "unit portal" where
  "sample_portal path body k = ((case body of Some (BodyApply _ _ _ _) \<Rightarrow> PortalReply 409 [] | Some (BodyKeys _ _) \<Rightarrow> PortalReply 200 [1]
     | Some (BodySubmit _ _) \<Rightarrow> PortalReply 200 [1] | _ \<Rightarrow> PortalReply 200 []), k)"

definition sample_enroll :: enroll_config where
  "sample_enroll = \<lparr>ec_Slug = ''op'', ec_Name = ''Op'', ec_Email = ''e'', ec_Phone = '''', ec_SessionID = ''s'', ec_Keyset = Some sample_keyset, ec_Code = Some (Inr ''1'')\<rparr>"

theorem enroll_in_order_witness:
  "\<exists>res tr. Client_Enroll sample_portal_codec sample_proto (portal_log sample_portal) ''u'' sample_enroll ((), []) = (Some res, None, ((), tr)) \<and>
     en_Verified res \<and> en_ConformancePassed res \<and> length tr = 6 \<and> prefix (map fst tr) (enroll_paths ''u'' ''op'' (en_RunID res))"
proof -
  let ?r = "Client_Enroll sample_portal_codec sample_proto (portal_log sample_portal) ''u'' sample_enroll ((), [])"
  have "\<exists>res tr. ?r = (Some res, None, ((), tr)) \<and> en_Verified res \<and> en_ConformancePassed res \<and> length tr = 6"
    by (simp add: Client_Enroll_def sample_enroll_def Client_Apply_def Client_do_def portal_log_def sample_portal_def applied_as_def enroll_keys_def RegisterKeys_def
        enroll_verify_def VerifyStart_def VerifyCheck_def enroll_conformance_def ConformanceStart_def ConformanceSubmit_def AnswerChallenges_def sample_portal_codec_def Let_def)
  then obtain res tr where w: "?r = (Some res, None, ((), tr))" "en_Verified res" "en_ConformancePassed res" "length tr = 6" by blast
  have "ec_Slug sample_enroll = ''op''" by (simp add: sample_enroll_def)
  then show ?thesis using enroll_in_order [OF w(1)] w by auto
qed

end
