(* ===== verification/Frontend_Daemon.thy ===== *)
theory Frontend_Daemon
  imports Node_Relay Opcred Operator_Enroll
begin

text \<open>
  How a frontend's daemon sets up its relay (\<open>src/cmd/cloudyd/relay.go\<close>): the nodes file, the operator credential put on every request to the
  orchestrator (\<open>src/internal/coord/coord.go\<close>, \<open>src/internal/opcred/header.go\<close>) and the enrollment of the listed nodes, upstream first
  (\<open>src/internal/noderelay/upstream.go\<close>). The orchestrator is a function of the request and a state of its own; JSON and base64 are a parameter record.
\<close>

section \<open>The credential on a request\<close>

record transmission_wire =
  tw_OperatorID :: string
  tw_TsUnixNano :: u64
  tw_Nonce :: string
  tw_Seq :: u64
  tw_Algo :: string
  tw_Idx0 :: int
  tw_Idx1 :: int
  tw_Sig0 :: string
  tw_Sig1 :: string

text \<open>Standard base64 both ways, the JSON of the envelope, and the JSON of a map of strings.\<close>

record daemon_codec =
  dm_Encode :: "bytes \<Rightarrow> string"
  dm_Decode :: "string \<Rightarrow> bytes option"
  dm_wire :: "transmission_wire \<Rightarrow> bytes"
  dm_fields :: "(string \<times> string) list \<Rightarrow> bytes"

definition EncodeOperatorHeader :: "daemon_codec \<Rightarrow> transmission \<Rightarrow> string" where
  "EncodeOperatorHeader cd tx = dm_Encode cd (dm_wire cd
     \<lparr>tw_OperatorID = tx_OperatorID tx, tw_TsUnixNano = tx_TsUnixNano tx, tw_Nonce = dm_Encode cd (tx_Nonce tx), tw_Seq = tx_Seq tx, tw_Algo = tx_Algo tx,
      tw_Idx0 = tx_Idx0 tx, tw_Idx1 = tx_Idx1 tx, tw_Sig0 = dm_Encode cd (tx_Sig0 tx), tw_Sig1 = dm_Encode cd (tx_Sig1 tx)\<rparr>)"

text \<open>What matters of a request: its URL, its body, and the operator header, empty where it is not set.\<close>

record out_request =
  oq_URL :: string
  oq_Body :: bytes
  oq_Operator :: string

text \<open>The closure of \<open>newRelay\<close>: \<open>clock n\<close> is the clock when the signer has been asked \<open>n\<close> times.\<close>

definition operatorAuth :: "daemon_codec \<Rightarrow> op_proto \<Rightarrow> (u64 \<Rightarrow> u64) \<Rightarrow> out_request \<Rightarrow> transmission_signer \<Rightarrow> (opcred_error + out_request) \<times> transmission_signer" where
  "operatorAuth cd P clock req s =
     (case Signer_Next P s (clock (sg_pairCursor s)) of
        (Inl e, s') \<Rightarrow> (Inl e, s')
      | (Inr tx, s') \<Rightarrow> (Inr (req\<lparr>oq_Operator := EncodeOperatorHeader cd tx\<rparr>), s'))"

text \<open>\<open>RoundTrip\<close>: decorate a copy, and send it only if that succeeds.\<close>

definition RoundTrip :: "('r \<Rightarrow> 'd \<Rightarrow> ('e + 'r) \<times> 'd) \<Rightarrow> ('r \<Rightarrow> 'k \<Rightarrow> 'a \<times> 'k) \<Rightarrow> 'r \<Rightarrow> 'd \<times> 'k \<Rightarrow> ('e + 'a) \<times> 'd \<times> 'k" where
  "RoundTrip decorate base req st =
     (case decorate req (fst st) of
        (Inl e, d) \<Rightarrow> (Inl e, (d, snd st))
      | (Inr r2, d) \<Rightarrow> (case base r2 (snd st) of (a, k) \<Rightarrow> (Inr a, (d, k))))"

section \<open>Enrolling a node upstream\<close>

datatype upstream_error = UpDecorate opcred_error | UpDown string | UpKeyConflict | UpRefused nat string

definition enroll_request :: "daemon_codec \<Rightarrow> string \<Rightarrow> node_id \<Rightarrow> bytes \<Rightarrow> out_request" where
  "enroll_request cd base node pub =
     \<lparr>oq_URL = strings_TrimRight_slash base @ ''/nodes/pubkey'',
      oq_Body = dm_fields cd [(''node_id'', node), (''public_key'', dm_Encode cd pub), (''algo'', ''ed25519'')], oq_Operator = ''''\<rparr>"

definition upstream_verdict :: "portal_answer \<Rightarrow> upstream_error option" where
  "upstream_verdict a = (case a of PortalDown e \<Rightarrow> Some (UpDown e)
     | PortalReply code raw \<Rightarrow>
         if code = 409 then Some UpKeyConflict
         else if code < 200 \<or> code \<ge> 300 then Some (UpRefused code (strings_TrimSpace (str_of_bytes (take 4096 raw)))) else None)"

text \<open>Without a decorator the request goes out as it is.\<close>

definition EnrollViaOrchestrator ::
  "daemon_codec \<Rightarrow> string \<Rightarrow> (out_request \<Rightarrow> 'd \<Rightarrow> (opcred_error + out_request) \<times> 'd) option \<Rightarrow> (out_request \<Rightarrow> 'k \<Rightarrow> portal_answer \<times> 'k) \<Rightarrow> node_id \<Rightarrow> bytes \<Rightarrow> 'd \<times> 'k \<Rightarrow>
     upstream_error option \<times> 'd \<times> 'k" where
  "EnrollViaOrchestrator cd base decorate send node pub st =
     (let req = enroll_request cd base node pub in
      case (case decorate of None \<Rightarrow> (Inr req, fst st) | Some dec \<Rightarrow> dec req (fst st)) of
        (Inl e, d) \<Rightarrow> (Some (UpDecorate e), (d, snd st))
      | (Inr r2, d) \<Rightarrow> (case send r2 (snd st) of (a, k) \<Rightarrow> (upstream_verdict a, (d, k))))"

section \<open>The nodes file\<close>

text \<open>\<open>strings.Fields\<close>: the maximal runs without white space.\<close>

fun fields_loop :: "nat \<Rightarrow> string \<Rightarrow> string \<Rightarrow> string list" where
  "fields_loop 0 s field = (if field = '''' then [] else [field])"
| "fields_loop (Suc n) s field =
     (case find (\<lambda>r. r \<noteq> [] \<and> take (length r) s = r) space_runes of
        Some r \<Rightarrow> (if field = '''' then [] else [field]) @ fields_loop n (drop (length r) s) ''''
      | None \<Rightarrow> (case s of [] \<Rightarrow> if field = '''' then [] else [field] | ch # s' \<Rightarrow> fields_loop n s' (field @ [ch])))"

definition strings_Fields :: "string \<Rightarrow> string list" where
  "strings_Fields s = fields_loop (length s) s ''''"

record enrolled_node =
  ed_id :: node_id
  ed_pub :: bytes

datatype nodes_error = NodesOpen | NodesFields nat | NodesKey nat | NodesScan string

text \<open>The lines the scanner yields from number \<open>n\<close> on, and the error it ends with.\<close>

fun read_lines :: "daemon_codec \<Rightarrow> nat \<Rightarrow> string list \<Rightarrow> string option \<Rightarrow> nodes_error + enrolled_node list" where
  "read_lines cd n [] err = (case err of Some e \<Rightarrow> Inl (NodesScan e) | None \<Rightarrow> Inr [])"
| "read_lines cd n (l # ls) err =
     (let text = strings_TrimSpace l in
      if text = '''' \<or> take 1 text = ''#'' then read_lines cd (Suc n) ls err
      else case strings_Fields text of
          [i, k] \<Rightarrow> (case dm_Decode cd k of
              None \<Rightarrow> Inl (NodesKey n)
            | Some pub \<Rightarrow> if length pub \<noteq> PublicKeySize then Inl (NodesKey n)
                else (case read_lines cd (Suc n) ls err of Inl e \<Rightarrow> Inl e | Inr rest \<Rightarrow> Inr (\<lparr>ed_id = i, ed_pub = pub\<rparr> # rest)))
        | _ \<Rightarrow> Inl (NodesFields n))"

text \<open>\<open>None\<close> is a file that does not open.\<close>

definition readNodes :: "daemon_codec \<Rightarrow> (string list \<times> string option) option \<Rightarrow> nodes_error + enrolled_node list" where
  "readNodes cd file = (case file of None \<Rightarrow> Inl NodesOpen | Some (ls, err) \<Rightarrow> read_lines cd 1 ls err)"

section \<open>The relay of the daemon\<close>

record relay_config =
  rc_Orchestrator :: string
  rc_OperatorID :: string
  rc_KeysDir :: string
  rc_NodesFile :: string
  rc_Beat :: u64
  rc_Poll :: u64

datatype daemon_error = DaemonArgs | DaemonKeys opcred_error | DaemonNodes nodes_error | DaemonEnroll relay_error

text \<open>One \<open>Enroll\<close> of the relay, its upstream call made only where the code makes it.\<close>

definition daemon_enroll ::
  "(upstream_error \<Rightarrow> string) \<Rightarrow> (node_id \<Rightarrow> bytes \<Rightarrow> 's \<Rightarrow> upstream_error option \<times> 's) \<Rightarrow> 'a node_relay \<Rightarrow> enrolled_node \<Rightarrow> 's \<Rightarrow> relay_error option \<times> 'a node_relay \<times> 's" where
  "daemon_enroll txt up r e st =
     (case Enroll_begin r (ed_id e) (ed_pub e) of
        Inl res \<Rightarrow> (res, r, st)
      | Inr _ \<Rightarrow> (case up (ed_id e) (ed_pub e) st of
          (Some x, st') \<Rightarrow> (Some (RelEnrollUpstream (txt x)), r, st')
        | (None, st') \<Rightarrow> (None, Enroll_commit r (ed_id e) (ed_pub e), st')))"

fun enroll_nodes ::
  "(upstream_error \<Rightarrow> string) \<Rightarrow> (node_id \<Rightarrow> bytes \<Rightarrow> 's \<Rightarrow> upstream_error option \<times> 's) \<Rightarrow> 'a node_relay \<Rightarrow> enrolled_node list \<Rightarrow> 's \<Rightarrow> (relay_error + 'a node_relay) \<times> 's" where
  "enroll_nodes txt up r [] st = (Inr r, st)"
| "enroll_nodes txt up r (e # es) st =
     (case daemon_enroll txt up r e st of (Some err, r', st') \<Rightarrow> (Inl err, st') | (None, r', st') \<Rightarrow> enroll_nodes txt up r' es st')"

text \<open>\<open>ks\<close> is what \<open>LoadKeyset\<close> returns for the keys directory, \<open>reader\<close> and \<open>clock\<close> what the signer draws on, \<open>file\<close> the nodes file.\<close>

definition newRelay ::
  "daemon_codec \<Rightarrow> op_proto \<Rightarrow> (upstream_error \<Rightarrow> string) \<Rightarrow> opcred_error + keyset \<Rightarrow> entropy \<Rightarrow> (u64 \<Rightarrow> u64) \<Rightarrow> (out_request \<Rightarrow> 'k \<Rightarrow> portal_answer \<times> 'k) \<Rightarrow>
     (string list \<times> string option) option \<Rightarrow> relay_config \<Rightarrow> 'k \<Rightarrow> (daemon_error + 'a node_relay) \<times> 'k" where
  "newRelay cd P txt ks reader clock send file cfg k =
     (if rc_OperatorID cfg = '''' \<or> rc_KeysDir cfg = '''' then (Inl DaemonArgs, k)
      else case ks of Inl e \<Rightarrow> (Inl (DaemonKeys e), k)
      | Inr set' \<Rightarrow>
          (let signer = NewTransmissionSigner (rc_OperatorID cfg) set' (clock 0) reader;
               r = \<lparr>ry_UpstreamBeat = rc_Beat cfg, ry_UpstreamPoll = rc_Poll cfg, ry_enrolls = True, ry_nodes = Map.empty\<rparr> in
           if rc_NodesFile cfg = '''' then (Inr r, k)
           else case readNodes cd file of Inl e \<Rightarrow> (Inl (DaemonNodes e), k)
           | Inr nodes \<Rightarrow>
               (case enroll_nodes txt (EnrollViaOrchestrator cd (rc_Orchestrator cfg) (Some (operatorAuth cd P clock)) send) r nodes (signer, k) of
                  (Inl e, (s, k')) \<Rightarrow> (Inl (DaemonEnroll e), k')
                | (Inr r', (s, k')) \<Rightarrow> (Inr r', k'))))"

section \<open>What the daemon vouches for\<close>

definition send_log :: "(out_request \<Rightarrow> 'k \<Rightarrow> portal_answer \<times> 'k) \<Rightarrow> out_request \<Rightarrow> 'k \<times> (out_request \<times> portal_answer) list \<Rightarrow> portal_answer \<times> 'k \<times> (out_request \<times> portal_answer) list" where
  "send_log send req s = (case s of (k, tr) \<Rightarrow> case send req k of (a, k') \<Rightarrow> (a, k', tr @ [(req, a)]))"

text \<open>The identity a signer signs for: the operator and its keyset.\<close>

definition signer_of :: "transmission_signer \<Rightarrow> string \<times> keyset" where
  "signer_of s = (sg_operatorID s, sg_ks s)"

text \<open>A request that carries a transmission of the operator, signed with two different keys of its set under the positions it names and
  with a nonce of full length; and one that asks to enroll a node.\<close>

definition credentialed :: "daemon_codec \<Rightarrow> op_proto \<Rightarrow> string \<times> keyset \<Rightarrow> out_request \<Rightarrow> bool" where
  "credentialed cd P op req \<longleftrightarrow> (\<exists>tx now nonce seq i j. oq_Operator req = EncodeOperatorHeader cd tx \<and> tx_OperatorID tx = fst op \<and>
     i < j \<and> j < 7 \<and> length nonce = transmissionNonceLen P \<and>
     tx = tx_Sign P (unsigned_tx P (fst op) now nonce seq) (ks_priv (snd op) ! i) (ks_priv (snd op) ! j) (int i) (int j))"

definition asks_for :: "daemon_codec \<Rightarrow> string \<Rightarrow> enrolled_node \<Rightarrow> out_request \<Rightarrow> bool" where
  "asks_for cd base e req \<longleftrightarrow> oq_URL req = strings_TrimRight_slash base @ ''/nodes/pubkey'' \<and>
     oq_Body req = dm_fields cd [(''node_id'', ed_id e), (''public_key'', dm_Encode cd (ed_pub e)), (''algo'', ''ed25519'')]"

lemma operatorAuth_Inr:
  assumes "operatorAuth cd P clock req s = (res, s')" "proto_ok P"
  shows "signer_of s' = signer_of s"
    "res = Inr r2 \<Longrightarrow> credentialed cd P (signer_of s) r2 \<and> oq_URL r2 = oq_URL req \<and> oq_Body r2 = oq_Body req"
proof -
  have op: "tx_OperatorID (tx_Sign P tx p q i j) = tx_OperatorID tx" for tx p q i j
    using assms(2) unfolding proto_ok_def by (metis transmission.select_convs(1) transmission.surjective transmission.update_convs(6-9))
  obtain x s1 where x: "Signer_Next P s (clock (sg_pairCursor s)) = (x, s1)" by fastforce
  have one: "signer_of s1 = signer_of s"
    using x by (auto simp: Signer_Next_def signer_of_def Let_def split: option.splits sum.splits prod.splits)
  have two: "s' = s1" "res = Inr r2 \<Longrightarrow> \<exists>tx. x = Inr tx \<and> r2 = req\<lparr>oq_Operator := EncodeOperatorHeader cd tx\<rparr>"
    using assms(1) by (auto simp: operatorAuth_def x split: sum.splits)
  show "signer_of s' = signer_of s" using one two(1) by simp
  assume "res = Inr r2"
  then obtain tx where tx: "x = Inr tx" "r2 = req\<lparr>oq_Operator := EncodeOperatorHeader cd tx\<rparr>" using two(2) by blast
  from Signer_Next_signed [OF assms(2) x [unfolded tx(1)]] obtain nonce i j where g: "i < j" "j < 7" "length nonce = transmissionNonceLen P"
    "tx = tx_Sign P (unsigned_tx P (sg_operatorID s) (clock (sg_pairCursor s)) nonce (sg_seq s + 1)) (ks_priv (sg_ks s) ! i) (ks_priv (sg_ks s) ! j) (int i) (int j)"
    by (elim exE conjE)
  have "tx_OperatorID tx = sg_operatorID s" unfolding g(4) op by (simp add: unsigned_tx_def)
  then have "credentialed cd P (signer_of s) r2"
    unfolding credentialed_def signer_of_def fst_conv snd_conv tx(2)
    by (intro exI [of _ tx] exI [of _ "clock (sg_pairCursor s)"] exI [of _ nonce] exI [of _ "sg_seq s + 1"] exI [of _ i] exI [of _ j] conjI) (simp_all add: g(1-3), rule g(4))
  then show "credentialed cd P (signer_of s) r2 \<and> oq_URL r2 = oq_URL req \<and> oq_Body r2 = oq_Body req" by (simp add: tx(2))
qed

text \<open>The coordinator client of the relay: a failed decoration sends nothing, anything sent carries the credential.\<close>

lemma RoundTrip_credentialed:
  assumes "RoundTrip (operatorAuth cd P clock) (send_log send) req (s, (k, tr)) = (res, (s', (k', tr')))" "proto_ok P"
  shows "signer_of s' = signer_of s \<and> (case res of Inl _ \<Rightarrow> tr' = tr
     | Inr a \<Rightarrow> \<exists>r2. tr' = tr @ [(r2, a)] \<and> credentialed cd P (signer_of s) r2 \<and> oq_URL r2 = oq_URL req \<and> oq_Body r2 = oq_Body req)"
proof -
  obtain x s1 where x: "operatorAuth cd P clock req s = (x, s1)" by fastforce
  show ?thesis using assms(1) operatorAuth_Inr [OF x assms(2)]
    by (cases x) (auto simp: RoundTrip_def x send_log_def split: prod.splits)
qed

text \<open>One upstream enrollment: at most one request, credentialed and for that node, accepted if there is no error; a failed decoration sends nothing.\<close>

lemma EnrollViaOrchestrator_log:
  assumes "EnrollViaOrchestrator cd base (Some (operatorAuth cd P clock)) (send_log send) (ed_id e) (ed_pub e) (s, (k, tr)) = (res, (s', (k', tr')))" "proto_ok P"
  shows "signer_of s' = signer_of s \<and> (\<exists>us. tr' = tr @ us \<and> (\<forall>(req, a) \<in> set us. credentialed cd P (signer_of s) req \<and> asks_for cd base e req) \<and>
    (res = None \<longrightarrow> (\<exists>(req, a) \<in> set us. answered_ok a)))"
proof -
  let ?q = "enroll_request cd base (ed_id e) (ed_pub e)"
  obtain x s1 where x: "operatorAuth cd P clock ?q s = (x, s1)" by fastforce
  show ?thesis
  proof (cases x)
    case (Inl err)
    then have "s' = s1" "tr' = tr" "res \<noteq> None" using assms(1) by (auto simp: EnrollViaOrchestrator_def x)
    then show ?thesis using operatorAuth_Inr(1) [OF x assms(2)] by simp
  next
    case (Inr r2)
    note r2 = operatorAuth_Inr(1) [OF x assms(2)] operatorAuth_Inr(2) [OF x assms(2) Inr]
    obtain a k1 where a: "send r2 k = (a, k1)" by fastforce
    have "s' = s1" "tr' = tr @ [(r2, a)]" "res = None \<longrightarrow> answered_ok a"
      using assms(1) by (auto simp: EnrollViaOrchestrator_def upstream_verdict_def x Inr send_log_def a answered_ok_def split: portal_answer.splits if_split_asm)
    moreover have "asks_for cd base e r2" using r2(2) by (simp add: asks_for_def enroll_request_def)
    ultimately show ?thesis using r2 by (intro conjI exI [of _ "[(r2, a)]"]) auto
  qed
qed

text \<open>What holds of the relay and of the requests sent once the nodes of a list are enrolled.\<close>

definition vouched_for :: "daemon_codec \<Rightarrow> op_proto \<Rightarrow> string \<Rightarrow> string \<times> keyset \<Rightarrow> enrolled_node list \<Rightarrow> 'a node_relay \<Rightarrow> (out_request \<times> portal_answer) list \<Rightarrow> bool" where
  "vouched_for cd P base op es r tr \<longleftrightarrow> ry_nodes r = map_of (map (\<lambda>e. (ed_id e, new_node (ed_pub e))) es) \<and>
     (\<forall>e \<in> set es. ed_id e \<noteq> '''' \<and> length (ed_pub e) = PublicKeySize \<and> (\<forall>e' \<in> set es. ed_id e' = ed_id e \<longrightarrow> ed_pub e' = ed_pub e) \<and>
        (\<exists>(req, a) \<in> set tr. asks_for cd base e req \<and> answered_ok a)) \<and>
     (\<forall>(req, a) \<in> set tr. credentialed cd P op req)"

lemma asks_for_same: "ed_id e = ed_id e' \<Longrightarrow> ed_pub e = ed_pub e' \<Longrightarrow> asks_for cd base e = asks_for cd base e'"
  by (simp add: asks_for_def fun_eq_iff)

lemma vouched_for_fresh:
  assumes v: "vouched_for cd P base op es r tr" and n: "ry_nodes r' = map_of (map (\<lambda>e. (ed_id e, new_node (ed_pub e))) (es @ [e]))"
    and e: "ed_id e \<noteq> ''''" "length (ed_pub e) = PublicKeySize" and fresh: "\<And>e'. e' \<in> set es \<Longrightarrow> ed_id e' \<noteq> ed_id e"
    and us: "\<forall>(req, a) \<in> set us. credentialed cd P op req" "\<exists>(req, a) \<in> set us. asks_for cd base e req \<and> answered_ok a"
  shows "vouched_for cd P base op (es @ [e]) r' (tr @ us)"
proof -
  have "\<forall>(req, a) \<in> set (tr @ us). credentialed cd P op req" using v us(1) unfolding vouched_for_def set_append by blast
  moreover have "\<exists>(req, a) \<in> set (tr @ us). asks_for cd base x req \<and> answered_ok a" if "x \<in> set es \<or> x = e" for x
    using that v us(2) unfolding vouched_for_def set_append by blast
  moreover have "\<forall>e' \<in> set (es @ [e]). ed_id e' = ed_id x \<longrightarrow> ed_pub e' = ed_pub x" if x: "x \<in> set es \<or> x = e" for x
  proof (intro ballI impI)
    fix e' assume a: "e' \<in> set (es @ [e])" "ed_id e' = ed_id x"
    from a(1) have "e' \<in> set es \<or> e' = e" by auto
    moreover have "ed_pub e' = ed_pub x" if "e' \<in> set es" "x \<in> set es" using that v a(2) unfolding vouched_for_def by blast
    ultimately show "ed_pub e' = ed_pub x" using x fresh [of e'] fresh [of x] a(2) by (elim disjE) simp_all
  qed
  moreover have "ed_id x \<noteq> '''' \<and> length (ed_pub x) = PublicKeySize" if "x \<in> set es \<or> x = e" for x
    using that v e unfolding vouched_for_def by blast
  moreover have "x \<in> set es \<or> x = e" if "x \<in> set (es @ [e])" for x using that by auto
  ultimately show ?thesis unfolding vouched_for_def using n by (intro conjI ballI) blast+
qed

lemma daemon_enroll_vouched:
  assumes d: "daemon_enroll txt (EnrollViaOrchestrator cd base (Some (operatorAuth cd P clock)) (send_log send)) r e (s, (k, tr)) = (None, r', (s', (k', tr')))"
    and P: "proto_ok P" and v: "vouched_for cd P base (signer_of s) es r tr"
  shows "vouched_for cd P base (signer_of s) (es @ [e]) r' tr' \<and> signer_of s' = signer_of s"
proof -
  have e: "ed_id e \<noteq> ''''" "length (ed_pub e) = PublicKeySize"
    using d by (auto simp: daemon_enroll_def Enroll_begin_def split: if_splits)
  have nodes: "ry_nodes r = map_of (map (\<lambda>e. (ed_id e, new_node (ed_pub e))) es)" using v by (simp add: vouched_for_def)
  show ?thesis
  proof (cases "ry_nodes r (ed_id e)")
    case (Some st)
    then have same: "r' = r" "tr' = tr" "s' = s" "ns_pub st = ed_pub e"
      using d e by (auto simp: daemon_enroll_def Enroll_begin_def split: if_splits)
    obtain e1 where e1: "e1 \<in> set es" "ed_id e1 = ed_id e" "ed_pub e1 = ed_pub e"
      using map_of_SomeD [OF Some [unfolded nodes]] same(4) by (auto simp: new_node_def)
    have m: "map_of (map (\<lambda>e. (ed_id e, new_node (ed_pub e))) (es @ [e])) = ry_nodes r"
      using Some [unfolded nodes] by (auto simp: nodes map_add_def fun_eq_iff split: option.split)
    have "e1 = e" using e1 by simp
    then have "set (es @ [e]) = set es" using e1(1) by auto
    then have "vouched_for cd P base (signer_of s) (es @ [e]) r tr = vouched_for cd P base (signer_of s) es r tr"
      by (simp only: vouched_for_def m nodes [symmetric])
    then show ?thesis using v same(1-3) by simp
  next
    case None
    obtain x st' where x: "EnrollViaOrchestrator cd base (Some (operatorAuth cd P clock)) (send_log send) (ed_id e) (ed_pub e) (s, (k, tr)) = (x, st')" by (metis surj_pair)
    have x': "x = None" "st' = (s', (k', tr'))" "r' = Enroll_commit r (ed_id e) (ed_pub e)"
      using d e None by (auto simp: daemon_enroll_def Enroll_begin_def x split: option.splits)
    from EnrollViaOrchestrator_log [OF x [unfolded x'(1,2)] P] obtain us where us: "signer_of s' = signer_of s" "tr' = tr @ us"
      "\<forall>(req, a) \<in> set us. credentialed cd P (signer_of s) req \<and> asks_for cd base e req" "\<exists>(req, a) \<in> set us. answered_ok a" by auto
    have "ed_id e \<notin> ed_id ` set es" using None by (simp add: nodes map_of_eq_None_iff image_image)
    then have fresh: "ed_id e' \<noteq> ed_id e" if "e' \<in> set es" for e' using that by (metis imageI)
    have new: "ry_nodes r' = map_of (map (\<lambda>e. (ed_id e, new_node (ed_pub e))) (es @ [e]))"
      using None by (auto simp: x'(3) Enroll_commit_def nodes map_add_def fun_eq_iff split: option.split)
    have c: "\<forall>(req, a) \<in> set us. credentialed cd P (signer_of s) req" "\<exists>(req, a) \<in> set us. asks_for cd base e req \<and> answered_ok a"
      using us(3,4) by blast+
    have "vouched_for cd P base (signer_of s) (es @ [e]) r' (tr @ us)" by (rule vouched_for_fresh [OF v new e fresh c])
    then show ?thesis by (simp only: us(1,2) simp_thms)
  qed
qed

lemma enroll_nodes_vouched:
  assumes "enroll_nodes txt (EnrollViaOrchestrator cd base (Some (operatorAuth cd P clock)) (send_log send)) r es (s, (k, tr)) = (Inr r', (s', (k', tr')))"
    and "proto_ok P" and "vouched_for cd P base (signer_of s) es0 r tr"
  shows "vouched_for cd P base (signer_of s) (es0 @ es) r' tr'"
  using assms(1,3)
proof (induction es arbitrary: r s k tr es0)
  case (Cons e es)
  obtain x r1 s1 k1 tr1 where d: "daemon_enroll txt (EnrollViaOrchestrator cd base (Some (operatorAuth cd P clock)) (send_log send)) r e (s, (k, tr)) = (x, r1, (s1, (k1, tr1)))"
    by (metis prod_cases5)
  with Cons.prems(1) have x: "x = None" by (cases x) simp_all
  from daemon_enroll_vouched [OF d [unfolded x] assms(2) Cons.prems(2)]
  have v: "vouched_for cd P base (signer_of s1) (es0 @ [e]) r1 tr1" and op: "signer_of s1 = signer_of s" by simp_all
  from Cons.IH [OF _ v] Cons.prems(1) show ?case by (simp add: d x op)
qed simp

text \<open>C19: the daemon's relay knows exactly the nodes it was told to vouch for. If it starts, the nodes file read without error, the relay's nodes are
  those of the file with their keys (32 bytes, one key per node), the orchestrator accepted a registration of each, and every
  request that left carried the operator's credential: a transmission in its name signed with two different keys of its loaded keyset.\<close>

theorem daemon_vouches_for_listed:
  assumes "newRelay cd P txt ks reader clock (send_log send) file cfg (k, []) = (Inr (r :: 'a node_relay), (k', tr))" and "proto_ok P"
  shows "\<exists>es set'. ks = Inr set' \<and> (if rc_NodesFile cfg = '''' then es = [] else readNodes cd file = Inr es) \<and>
    ry_nodes r = map_of (map (\<lambda>e. (ed_id e, new_node (ed_pub e))) es) \<and>
    (\<forall>e \<in> set es. ed_id e \<noteq> '''' \<and> length (ed_pub e) = PublicKeySize \<and> (\<forall>e' \<in> set es. ed_id e' = ed_id e \<longrightarrow> ed_pub e' = ed_pub e) \<and>
       (\<exists>(req, a) \<in> set tr. asks_for cd (rc_Orchestrator cfg) e req \<and> answered_ok a)) \<and>
    (\<forall>(req, a) \<in> set tr. credentialed cd P (rc_OperatorID cfg, set') req)"
proof -
  obtain ks' where ks: "ks = Inr ks'" "\<not> (rc_OperatorID cfg = '''' \<or> rc_KeysDir cfg = '''')"
    using assms(1) by (cases ks) (auto simp: newRelay_def split: if_splits)
  let ?s = "NewTransmissionSigner (rc_OperatorID cfg) ks' (clock 0) reader"
  let ?r = "\<lparr>ry_UpstreamBeat = rc_Beat cfg, ry_UpstreamPoll = rc_Poll cfg, ry_enrolls = True, ry_nodes = Map.empty\<rparr> :: 'a node_relay"
  have start: "vouched_for cd P (rc_Orchestrator cfg) (signer_of ?s) [] ?r []" by (simp add: vouched_for_def)
  have op: "signer_of ?s = (rc_OperatorID cfg, ks')" by (simp add: NewTransmissionSigner_def signer_of_def)
  show ?thesis
  proof (cases "rc_NodesFile cfg = ''''")
    case True
    then show ?thesis using assms(1) ks by (auto simp: newRelay_def Let_def)
  next
    case False
    then obtain es where es: "readNodes cd file = Inr es" using assms(1) ks by (auto simp: newRelay_def Let_def split: sum.splits)
    obtain x s' kt where x: "enroll_nodes txt (EnrollViaOrchestrator cd (rc_Orchestrator cfg) (Some (operatorAuth cd P clock)) (send_log send)) ?r es (?s, (k, [])) = (x, (s', kt))"
      by (metis surj_pair)
    have "x = Inr r" "kt = (k', tr)" using assms(1) ks False es by (auto simp: newRelay_def Let_def x split: sum.splits)
    with x have "vouched_for cd P (rc_Orchestrator cfg) (signer_of ?s) ([] @ es) r tr"
      using enroll_nodes_vouched [OF _ assms(2) start] by metis
    then have "vouched_for cd P (rc_Orchestrator cfg) (rc_OperatorID cfg, ks') es r tr" by (simp only: op append_Nil)
    moreover have "if rc_NodesFile cfg = '''' then es = [] else readNodes cd file = Inr es" using False es by simp
    ultimately show ?thesis unfolding vouched_for_def using ks(1) by (intro exI [of _ es] exI [of _ ks'] conjI) (elim conjE, assumption)+
  qed
qed

definition sample_daemon_codec :: daemon_codec where
  "sample_daemon_codec = \<lparr>dm_Encode = (\<lambda>_. ''x''), dm_Decode = (\<lambda>_. Some (replicate 32 1)), dm_wire = (\<lambda>_. []), dm_fields = (\<lambda>_. [])\<rparr>"

text \<open>A comment, a blank line and one node; the orchestrator accepts.\<close>

definition sample_nodes_file :: "string list" where
  "sample_nodes_file = [''# nodes'', '''', ''n1 AQ'']"

definition sample_relay_config :: relay_config where
  "sample_relay_config = \<lparr>rc_Orchestrator = ''u'', rc_OperatorID = ''op'', rc_KeysDir = ''k'', rc_NodesFile = ''f'', rc_Beat = 0, rc_Poll = 0\<rparr>"

lemma trimmed:
  assumes "find (\<lambda>r. r \<noteq> [] \<and> take (length r) s = r) space_runes = None" "find (\<lambda>r. r \<noteq> [] \<and> take (length r) (rev s) = r) (map rev space_runes) = None"
  shows "strings_TrimSpace s = s"
proof -
  have "strip_left space_runes s = s" "strip_left (map rev space_runes) (rev s) = rev s" by (subst strip_left.simps, simp add: assms)+
  then show ?thesis by (simp add: strings_TrimSpace_def)
qed

lemma sample_line: "strings_TrimSpace ''n1 AQ'' = ''n1 AQ''"
  by (rule trimmed; code_simp)

lemma sample_comment: "strings_TrimSpace ''# nodes'' = ''# nodes''"
  by (rule trimmed; code_simp)

lemma sample_blank: "strings_TrimSpace '''' = ''''"
  by (rule trimmed; code_simp)

lemma sample_fields: "strings_Fields ''n1 AQ'' = [''n1'', ''AQ'']"
  by (simp add: strings_Fields_def space_runes_def char_of_def bit_0)

lemma sample_nodes_read: "readNodes sample_daemon_codec (Some (sample_nodes_file, None)) = Inr [\<lparr>ed_id = ''n1'', ed_pub = replicate 32 1\<rparr>]"
  by (simp add: readNodes_def sample_nodes_file_def sample_line sample_comment sample_blank sample_fields sample_daemon_codec_def PublicKeySize_def Let_def)

text \<open>The keyset is loaded, and the orchestrator accepts what it is sent.\<close>

abbreviation sample_daemon :: "(daemon_error + unit node_relay) \<times> unit \<times> (out_request \<times> portal_answer) list" where
  "sample_daemon \<equiv> newRelay sample_daemon_codec sample_proto (\<lambda>_. '''') (Inr sample_keyset) (replicate 100 1) (\<lambda>_. 9)
     (send_log (\<lambda>_ k. (PortalReply 200 [], k))) (Some (sample_nodes_file, None)) sample_relay_config ((), [])"

lemma sample_daemon_starts: "\<exists>r tr. sample_daemon = (Inr r, ((), tr)) \<and> length tr = 1"
proof -
  let ?s = "NewTransmissionSigner ''op'' sample_keyset 9 (replicate 100 1)"
  have "0 < (2 :: nat) ^ 63" "sg_pairCursor ?s = word_of_nat 0" "transmissionNonceLen sample_proto \<le> length (sg_rand ?s)"
    by (simp_all add: transmissionNonceLen_def sample_proto_def NewTransmissionSigner_def)
  from Signer_Next_at [OF sample_proto_ok this, of 9] obtain tx s' where s: "Signer_Next sample_proto ?s 9 = (Inr tx, s')" by metis
  then show ?thesis
    by (simp add: newRelay_def sample_relay_config_def sample_nodes_read daemon_enroll_def Enroll_begin_def PublicKeySize_def EnrollViaOrchestrator_def upstream_verdict_def
        operatorAuth_def send_log_def Let_def)
qed

theorem daemon_vouches_for_listed_witness:
  "\<exists>r tr. sample_daemon = (Inr r, ((), tr)) \<and> ry_nodes r = [''n1'' \<mapsto> new_node (replicate 32 1)] \<and>
     list_all (\<lambda>(req, a). credentialed sample_daemon_codec sample_proto (''op'', sample_keyset) req) tr \<and> length tr = 1"
proof -
  from sample_daemon_starts obtain r tr where w: "sample_daemon = (Inr r, ((), tr))" "length tr = 1" by blast
  have "rc_NodesFile sample_relay_config = ''f''" "rc_OperatorID sample_relay_config = ''op''" by (simp_all add: sample_relay_config_def)
  then show ?thesis using daemon_vouches_for_listed [OF w(1) sample_proto_ok] w by (auto simp: sample_nodes_read list_all_iff)
qed

end
