(* ===== verification/Canon.thy ===== *)
theory Canon
  imports Entropy
begin

text \<open>
  The layout of the canonical encoder as the repository's tests reconstruct it (\<open>canonBuilder\<close> of
  \<open>internal/economy/spend_test.go\<close>, \<open>reconstructCanonical\<close> of \<open>internal/covenant/assessment_test.go\<close>): the length-prefixed domain tag, then the
  fields one after another, strings and byte slices behind a uvarint length, integers and instants as eight big-endian bytes. The
  encoder itself is imported code and a parameter of every theorem; this theory shows that the hypothesis on it,
  \<open>canon_laws\<close>, holds of that layout.
\<close>

function uvarint :: "nat \<Rightarrow> bytes" where
  "uvarint n = (if n < 128 then [word_of_nat n] else word_of_nat (n mod 128 + 128) # uvarint (n div 128))"
  by pat_completeness auto
termination by (relation "measure id") auto

declare uvarint.simps [simp del]

definition layout_prefixed :: "bytes \<Rightarrow> bytes" where
  "layout_prefixed b = uvarint (length b) @ b"

fun layout_field :: "canon_field \<Rightarrow> bytes" where
  "layout_field (CString s) = layout_prefixed (map (\<lambda>ch. word_of_nat (of_char ch)) s)"
| "layout_field (CBytes b) = layout_prefixed b"
| "layout_field (CUint64 w) = BigEndian_PutUint64 w"
| "layout_field (CInt64 w) = BigEndian_PutUint64 w"
| "layout_field (CTime t) = BigEndian_PutUint64 (UnixNano t)"
| "layout_field (CBool b) = [if b then 1 else 0]"
| "layout_field (CCount n) = uvarint (unat (word_of_int n :: u64))"

definition canon_layout :: "string \<Rightarrow> canon_field list \<Rightarrow> bytes" where
  "canon_layout tag fs = layout_prefixed (map (\<lambda>ch. word_of_nat (of_char ch)) tag) @ concat (map layout_field fs)"

section \<open>Every item ends by itself\<close>

lemma byte_of_nat_inject: "m < 256 \<Longrightarrow> n < 256 \<Longrightarrow> (word_of_nat m :: byte) = word_of_nat n \<longleftrightarrow> m = n"
  by (auto simp: word_unat_eq_iff unsigned_of_nat take_bit_nat_eq_self)

lemma uvarint_cases:
  "uvarint n = [word_of_nat n] \<and> n < 128 \<or> uvarint n = word_of_nat (n mod 128 + 128) # uvarint (n div 128) \<and> 128 \<le> n"
  by (subst (1 2) uvarint.simps) simp

lemma uvarint_free: "uvarint m @ r = uvarint n @ s \<longleftrightarrow> m = n \<and> r = s"
proof (induction m arbitrary: n rule: less_induct)
  case (less m)
  have small: "k mod 128 + 128 < 256" for k :: nat by simp
  show ?case
  proof (cases "m < 128")
    case True
    then have m: "uvarint m = [word_of_nat m]" by (simp add: uvarint.simps)
    show ?thesis using uvarint_cases [of n] True small [of n] by (auto simp: m byte_of_nat_inject simp del: of_nat_add)
  next
    case False
    then have m: "uvarint m = word_of_nat (m mod 128 + 128) # uvarint (m div 128)" and d: "m div 128 < m" by (simp_all add: uvarint.simps [of m])
    show ?thesis
    proof (cases "n < 128")
      case True
      then have n: "uvarint n = [word_of_nat n]" by (simp add: uvarint.simps)
      show ?thesis using True False small [of m] by (auto simp: m n byte_of_nat_inject simp del: of_nat_add)
    next
      case big: False
      then have n: "uvarint n = word_of_nat (n mod 128 + 128) # uvarint (n div 128)" by (simp add: uvarint.simps [of n])
      have "m = n \<longleftrightarrow> m mod 128 = n mod 128 \<and> m div 128 = n div 128" by (metis div_mult_mod_eq)
      then show ?thesis using less.IH [OF d, of "n div 128"] by (auto simp: m n byte_of_nat_inject small simp del: of_nat_add)
    qed
  qed
qed

lemma layout_prefixed_free: "layout_prefixed a @ r = layout_prefixed b @ s \<longleftrightarrow> a = b \<and> r = s"
  unfolding layout_prefixed_def append.assoc uvarint_free by auto

lemma chars_inject: "map (\<lambda>ch. word_of_nat (of_char ch) :: byte) x = map (\<lambda>ch. word_of_nat (of_char ch)) y \<longleftrightarrow> x = y"
proof -
  have "inj (\<lambda>ch. word_of_nat (of_char ch) :: byte)"
  proof (rule injI)
    fix a b assume e: "word_of_nat (of_char a) = (word_of_nat (of_char b) :: byte)"
    have "of_char ch < (256 :: nat)" for ch using of_char_mod_256 [of ch] by (metis mod_less_divisor zero_less_numeral)
    then show "a = b" using e by (simp add: byte_of_nat_inject)
  qed
  then show ?thesis by (rule inj_map_eq_map)
qed

lemma layout_field_free: "same_type f g \<Longrightarrow> layout_field f @ r = layout_field g @ s \<Longrightarrow> agrees f g \<and> r = s"
  by (cases f; cases g) (auto simp: layout_prefixed_free chars_inject uvarint_free append_eq_append_conv dest: unsigned_word_eqI split: if_splits)

lemma layout_fields_agree:
  "list_all2 same_type fs gs \<Longrightarrow> concat (map layout_field fs) = concat (map layout_field gs) \<Longrightarrow> list_all2 agrees fs gs"
  by (induction rule: list_all2_induct) (auto dest!: layout_field_free)

text \<open>The documented layout satisfies the hypothesis.\<close>

lemma canon_layout_laws: "canon_sum c = canon_layout \<Longrightarrow> canon_laws c"
  unfolding canon_laws_def
  by (auto simp: canon_layout_def layout_prefixed_free chars_inject intro: layout_fields_agree)

end
