(* ===== verification/Spec2Isabelle.thy ===== *)
theory Spec2Isabelle
  imports Economy_Shared Record_Witness Record_Lifecycle Dispute_Cases Covenant Tech_Tree Market Storage_Objects Storage_Hosts Opcred Api_Guarantees Node_Auth Witness_Kit Agent_Frontend Agent_Executors Operator_Enroll Frontend_Daemon Canon
begin

text \<open>
  \<^bold>\<open>Cloudy: a frontend on a coordination network.\<close>
  Cloudy is where the members of one platform keep their dealings: a sealed record of who dealt with whom, a
  mutual-credit ledger, assessments of each other, disputes, a tree of technical knowledge and a market of the products built
  on it. Around that lie what keeps the operator honest (witnesses and their relay), what a member stores on
  other members' machines, the machines that contribute capacity, and the operator's own credentials. This library models the Go
  packages that decide these things, one group of definitions per package, and proves what they promise and, in a few places,
  that they promise more than they keep.

  \<^bold>\<open>Conventions.\<close> The theory \<open>Prelude\<close> fixes them. \<open>uint64\<close> and \<open>int64\<close> are 64-bit words, the
  latter read by \<open>sint\<close>, so that sums and differences wrap where the code's do; a \<open>time.Time\<close> is its nanoseconds since
  1970 as an integer; a \<open>[32]byte\<close> is a 256-bit word; a string is its bytes as characters. A Go error is an option, or the left
  side of a sum where a value comes with it; a call that can panic yields an option or a panic error of its own. A Go map is a partial function.
  SHA-256, Ed25519 and the protocol module's canonical encoder are one parameter record \<open>crypto\<close>; \<open>keypair\<close>, \<open>canon_laws\<close> and
  \<open>collision_free\<close> name what a theorem relies on, the last always about the finite list of payloads at hand. The encoder has no type tags and signs instants as
  64-bit counts, so \<open>canon_laws\<close> asks only what holds of it: two payloads that agree have the same domain tag and, where their fields have the same
  types, the same fields, instants up to their \<open>UnixNano\<close>. \<open>Canon\<close> proves this of the layout the repository's tests reconstruct. \<open>Sample\<close>
  is a concrete instance of that record, used by the witnesses. Times, entropy, faults of the file system and the answers of remote parties
  are arguments. \<open>Wire\<close> holds \<open>encoding/hex\<close>, and \<open>Replay\<close> and \<open>Quorum\<close> what several packages share: the contract of an append-only
  log that can be reopened from its records (locale \<open>append_log\<close>, interpreted by the ledger, both logs of the record, the tree and the
  catalog), and the counting of distinct roster signatures (\<open>economy/policy.go\<close> and \<open>dispute/ruling.go\<close>).

  \<^bold>\<open>The member economy, under \<open>src/internal\<close>.\<close>
  \<^item> \<open>economy\<close> (\<open>Economy\<close>): policies, spends, the conditional store and the ledger that folds it. Shown: what an
    accepted spend does to the balances, that credit sums to zero and respects the debit cap, that the ledger reopens to the same state, and what a policy change's quorum means.
    \<open>Economy_Shared\<close> interleaves several ledgers over one store: they agree and no spend is posted twice. \<open>Post\<close> and \<open>Enact\<close> loop until
    their append is not overtaken; the model gives the loop fuel, and two rounds are enough when no other writer intervenes.
  \<^item> \<open>record\<close> (\<open>Merkle\<close>, \<open>Record_Log\<close>, \<open>Record_Lifecycle\<close>, \<open>Record_Witness\<close>): tree heads, audit and consistency proofs, sealed
    entries, the two operator logs, checkpoints, the offline verifiers, witnesses, filings and the erasable locker. Shown: proofs verify and what a
    verified proof means (the stored entry with the same signed fields, and that very entry where the instants fit 64 bits), that a witness never signs two histories, and which stores of claim transitions open. The split search \<open>largestPow2LT\<close>
    does not return above \<open>2 ^ 63\<close>; this is the result \<open>None\<close>, and the theorems say where it cannot occur. The locale \<open>tree_log\<close> is what both logs offer a verifier.
  \<^item> \<open>covenant\<close> (\<open>Covenant\<close>): assessments, answers, the book and standing. Shown: standing counts the first verdict of every assessor, exchange, relation and category once, whatever the store returns.
  \<^item> \<open>dispute\<close> (\<open>Dispute\<close>, \<open>Dispute_Cases\<close>): openings, rulings with remedies, withdrawals, the store and the registry, sequentially and with interleaved calls.
    Shown: a case gets at most one ruling or withdrawal when calls do not overlap, and which invariant survives when they do (verified openings of their own identity, only
    authorized rulings and withdrawals); two behaviours that break the documented promise are exhibited.
  \<^item> \<open>techtree\<close> and \<open>market\<close> (\<open>Tech_Tree\<close>, \<open>Market\<close>): claims, typed references with the search that keeps \<open>builds_on\<close> acyclic (with its termination), citation
    weight, listings, recorded sales and the hash chains over both.

  \<^bold>\<open>The member-facing server\<close> (\<open>src/internal/consumerapi\<close>) composes these. \<open>Api_Server\<close> has its state, construction and joins, \<open>Api_Commons\<close>
  and \<open>Api_Economy\<close> every handler, \<open>Api_System\<close> the server over any sequence of requests with what each handler does to the state.
  \<open>Api_Anchors\<close>, \<open>Api_Guarantees\<close> and \<open>Api_Lifecycle\<close> carry invariants over every such sequence: the anchors between the layers are exact, no
  credit moves under the escrow policy, the directory is well typed, narratives are served, and the claim-lifecycle log refines the dispute
  registry. \<open>Api_Sample\<close> is a concrete run for the witnesses. JSON decoding is left out: a request body is the decoded
  record, or \<open>None\<close> where decoding fails. The server's mutex is held around each handler, so a handler is one step.

  \<^bold>\<open>Witnesses\<close>: \<open>Witness_Relay\<close> is the relay (\<open>internal/relay\<close>) with its answers as a function of all it was sent, \<open>Witness_Kit\<close> the wire forms and
  the worker (\<open>internal/witnesskit\<close>), composed with the relay and with the witness of \<open>record\<close>.

  \<^bold>\<open>Storage on other machines\<close> (\<open>internal/storage\<close>): \<open>Entropy\<close> has the readers of randomness and the rejection sampler, \<open>Storage_Objects\<close> size classes,
  padding, sealing and whole objects (the locale \<open>erasure_coder\<close> is the coder's contract), \<open>Storage_Hosts\<close> placement, fetch plans,
  possession audits and cover traffic.

  \<^bold>\<open>Contributing machines.\<close> \<open>Contribute\<close> is the executor seam (\<open>internal/contribute\<close>): the node contract and the registry. \<open>Agent_Executors\<close> and
  \<open>Agent_Loop\<close> are the daemon (\<open>cmd/cloudy-agent\<close>): its executors (the locale \<open>one_shot\<close> is what the registry asks of one), and the loop that lists, heartbeats, polls
  and settles. \<open>Agent_Steps\<close> breaks every operation of the loop into steps (a look at the owner, a call, a run with the look its dispatch makes) and follows whole runs: only permitted jobs run, each after a look of its own that found the owner away, settled
  jobs stay settled, sequence numbers ascend. \<open>Node_Relay\<close> and \<open>Node_Auth\<close> are the frontend's relay (\<open>internal/noderelay\<close>), as sections between
  which other calls may run and as whole calls, and the authentication gate in front of it. \<open>Agent_Frontend\<close> joins the two: a node's loop with that relay as its coordinator is never refused; and it
  follows a job whose report calls fail, which runs again at every poll.
  The bound on calls (\<open>2 ^ 63\<close>) is what keeps the clock-based sequence number from wrapping.

  \<^bold>\<open>The operator's credentials\<close> (\<open>internal/opcred\<close>, \<open>internal/enroll\<close>): \<open>Opcred\<close> has the seven-key keyset and its custody on disk, the rotating signer, conformance answers and root
  delegations; \<open>Operator_Enroll\<close> the onboarding at the coordinator's portal; \<open>Frontend_Daemon\<close> how \<open>cloudyd\<close> sets up its relay:
  the nodes file, the credential on every request (\<open>opcred/header.go\<close>, \<open>coord.go\<close>) and the enrollment of the listed nodes (\<open>noderelay/upstream.go\<close>).

  \<^bold>\<open>Properties.\<close> Each numbered property stands in the theory of the component it is about, after a text block with its number; theorems whose statement has a
  hypothesis are followed, there or in the next theory, by a witness that applies them to concrete data.

  \<^bold>\<open>Not modelled.\<close> What is only plumbing around third-party code: the dialling functions of \<open>internal/coord\<close> (they build the
  protocol module's client), \<open>storage/relay.go\<close> (an interface without code). The commands under \<open>cmd\<close> other
  than the agent and the daemon's relay parse flags, open files and start servers around the packages above; \<open>cmd/cloudy\<close> composes the same layers as
  \<open>consumerapi\<close> in memory and logs them. The protocol module itself (\<open>sohocloud-protocol\<close>) is not in this repository: its messages, signatures and constants are parameters with
  named hypotheses. Concurrency inside one component is modelled where the code releases its lock between reading and writing
  (the ledger's store, the dispute store, the relay) and nowhere else, since the code holds one lock there. Log output, HTTP status texts of
  decoding failures, and resource use are outside the model.
\<close>

end
